(* ===== verification/Prelude.thy ===== *)
theory Prelude
  imports Main "HOL-Library.Word" "HOL-Library.Monad_Syntax"
begin

section \<open>Shared vocabulary of the development\<close>

text \<open>
  What every component uses: the collections of rewrite rules the component proofs add to
  the simplifier, pointers as optional addresses, facts on optional results (a result
  \<open>None\<close> is a run of the C code with no defined behaviour: a NULL or dangling
  pointer was followed), and the contract of a comparison callback.
\<close>

unbundle bit_operations_syntax

named_theorems store_simps \<open>reading and writing the cells of a store\<close>
named_theorems bits_simps \<open>reading back the packed bit fields\<close>
named_theorems cmp_simps \<open>consequences of the comparison contract\<close>

subsection \<open>Pointers\<close>

type_synonym addr = nat
type_synonym ptr = "addr option"

subsection \<open>Optional results\<close>

lemma bind_SomeE:
  assumes "Option.bind m f = Some y"
  obtains x where "m = Some x" and "f x = Some y"
  using assms by (cases m) auto

lemma bind_eq_SomeI: "m = Some x \<Longrightarrow> f x = Some y \<Longrightarrow> Option.bind m f = Some y"
  by simp

subsection \<open>The contract of a comparison callback\<close>

text \<open>
  The containers of the library take a C comparison function: negative, zero or positive
  for less, equal and greater. The contract they rely on is a total preorder.
\<close>

locale key_order =
  fixes cmp :: "'k \<Rightarrow> 'k \<Rightarrow> int"
  assumes cmp_antisym: "0 < cmp b a \<longleftrightarrow> cmp a b < 0"
    and cmp_trans: "cmp a b \<le> 0 \<Longrightarrow> cmp b c \<le> 0 \<Longrightarrow> cmp a c \<le> 0"
begin

lemma cmp_refl [simp]: "cmp a a = 0"
  using cmp_antisym [of a a] by linarith

lemma cmp_total: "cmp a b \<le> 0 \<or> cmp b a \<le> 0"
  using cmp_antisym [of a b] by linarith

lemma cmp_zero_sym: "cmp a b = 0 \<longleftrightarrow> cmp b a = 0"
  using cmp_antisym [of a b] cmp_antisym [of b a] by linarith

lemma cmp_not_le: "\<not> cmp a b \<le> 0 \<longleftrightarrow> cmp b a < 0"
  using cmp_antisym [of a b] cmp_antisym [of b a] by linarith

lemma cmp_le_less_trans: "cmp a b \<le> 0 \<Longrightarrow> cmp b c < 0 \<Longrightarrow> cmp a c < 0"
  using cmp_trans [of c a b] cmp_antisym [of a c] cmp_antisym [of b c]
  by (metis cmp_not_le)

lemma cmp_less_le_trans: "cmp a b < 0 \<Longrightarrow> cmp b c \<le> 0 \<Longrightarrow> cmp a c < 0"
  by (metis cmp_not_le cmp_trans)

lemma cmp_equal_left: "cmp a b = 0 \<Longrightarrow> cmp a c < 0 \<longleftrightarrow> cmp b c < 0"
  by (metis cmp_le_less_trans cmp_zero_sym order_refl)

lemma cmp_equal_right: "cmp a b = 0 \<Longrightarrow> cmp c a < 0 \<longleftrightarrow> cmp c b < 0"
  by (metis cmp_less_le_trans cmp_zero_sym order_refl)

lemma cmp_equal_left_eq: "cmp a b = 0 \<Longrightarrow> cmp a c = 0 \<longleftrightarrow> cmp b c = 0"
  using cmp_equal_left [of a b c] cmp_equal_right [of a b c] cmp_antisym [of a c]
    cmp_antisym [of b c] cmp_antisym [of c a] cmp_antisym [of c b]
  by linarith

end

end
