(* ===== verification/Avl_Heap.thy ===== *)
theory Avl_Heap
  imports Prelude
begin

section \<open>The data of the AVL library and the store it lives in\<close>

text \<open>
  Models \<open>struct avl_node_tag\<close>, \<open>struct _avl_tree\<close> and the packing macros of
  \<open>src/avl/avl.h\<close>, and the node allocation of \<open>src/avl/avl.c\<close>. Nodes live in a store
  from addresses to nodes; a NULL or dangling access makes the operation \<open>None\<close>.
\<close>

unbundle bit_operations_syntax

subsection \<open>Nodes and the packed rank and balance\<close>

record 'k avl_node =
  key :: "'k option"
  left :: ptr
  right :: ptr
  parent :: ptr
  rank_and_balance :: "32 word"

definition AVL_GET_BALANCE :: "'k avl_node \<Rightarrow> int" where
  "AVL_GET_BALANCE n = sint ((rank_and_balance n AND 3) - 1)"

definition AVL_GET_RANK :: "'k avl_node \<Rightarrow> 32 word" where
  "AVL_GET_RANK n = drop_bit 2 (rank_and_balance n)"

definition AVL_SET_BALANCE :: "int \<Rightarrow> 'k avl_node \<Rightarrow> 'k avl_node" where
  "AVL_SET_BALANCE b n =
     n\<lparr>rank_and_balance := (rank_and_balance n AND NOT 3) OR word_of_int (b + 1)\<rparr>"

definition AVL_SET_RANK :: "32 word \<Rightarrow> 'k avl_node \<Rightarrow> 'k avl_node" where
  "AVL_SET_RANK r n =
     n\<lparr>rank_and_balance := (rank_and_balance n AND 3) OR push_bit 2 r\<rparr>"

subsection \<open>The store: malloc, free, reads and writes\<close>

text \<open>
  \<open>malloc\<close> of the C library returns NULL or a block no live block overlaps. The store
  keeps the next unused address and, optionally, the address at which memory runs out.
\<close>

record 'k store =
  cells :: "addr \<Rightarrow> 'k avl_node option"
  brk :: addr
  limit :: "nat option"

definition malloc :: "'k store \<Rightarrow> ptr \<times> 'k store" where
  "malloc st = (case limit st of
       Some l \<Rightarrow> if brk st < l then (Some (brk st), st\<lparr>brk := Suc (brk st)\<rparr>) else (None, st)
     | None \<Rightarrow> (Some (brk st), st\<lparr>brk := Suc (brk st)\<rparr>))"

definition rd :: "'k store \<Rightarrow> ptr \<Rightarrow> 'k avl_node option" where
  "rd st p = Option.bind p (cells st)"

definition wr :: "'k store \<Rightarrow> ptr \<Rightarrow> ('k avl_node \<Rightarrow> 'k avl_node) \<Rightarrow> 'k store option" where
  "wr st p f = do {
     a \<leftarrow> p;
     n \<leftarrow> cells st a;
     Some (st\<lparr>cells := (cells st)(a \<mapsto> f n)\<rparr>)
   }"

definition free_node :: "'k store \<Rightarrow> ptr \<Rightarrow> 'k store option" where
  "free_node st p = do {
     a \<leftarrow> p;
     n \<leftarrow> cells st a;
     Some (st\<lparr>cells := (cells st)(a := None)\<rparr>)
   }"

subsection \<open>Trees\<close>

record 'k avl_tree =
  root :: ptr
  height :: "32 word"
  tlength :: "32 word"
  compare_fun :: "'k \<Rightarrow> 'k \<Rightarrow> int"
  store :: "'k store"

definition avl_node_new :: "'k option \<Rightarrow> ptr \<Rightarrow> 'k store \<Rightarrow> ptr \<times> 'k store" where
  "avl_node_new k par st =
     (case malloc st of
        (None, st) \<Rightarrow> (None, st)
      | (Some a, st) \<Rightarrow>
          (Some a, st\<lparr>cells := (cells st)(a \<mapsto> AVL_SET_RANK 1 (AVL_SET_BALANCE 0
             \<lparr>key = k, left = None, right = None, parent = par, rank_and_balance = 0\<rparr>))\<rparr>))"

text \<open>
  Every tree owns the store its nodes live in; \<open>avl_tree_new\<close> is given the still
  unused store. On a failing allocation the tree block is freed again.
\<close>

definition avl_tree_new :: "('k \<Rightarrow> 'k \<Rightarrow> int) \<Rightarrow> 'k store \<Rightarrow> 'k avl_tree option" where
  "avl_tree_new cmp st =
     (case malloc st of
        (None, st) \<Rightarrow> None
      | (Some t, st) \<Rightarrow>
          (case avl_node_new None None st of
             (None, st) \<Rightarrow> None
           | (Some rt, st) \<Rightarrow>
               Some \<lparr>root = Some rt, height = 0, tlength = 0, compare_fun = cmp, store = st\<rparr>))"

text \<open>
  A comparison dereferences both keys: with a NULL key in the node it has no behaviour.
\<close>

definition cmp_key :: "('k \<Rightarrow> 'k \<Rightarrow> int) \<Rightarrow> 'k \<Rightarrow> 'k avl_node \<Rightarrow> int option" where
  "cmp_key cmp x n = map_option (cmp x) (key n)"

subsection \<open>Reading back what was packed\<close>

definition bal_of :: "32 word \<Rightarrow> int" where
  "bal_of w = sint ((w AND 3) - 1)"

definition set_bal :: "32 word \<Rightarrow> int \<Rightarrow> 32 word" where
  "set_bal w b = (w AND NOT 3) OR word_of_int (b + 1)"

definition set_rank :: "32 word \<Rightarrow> 32 word \<Rightarrow> 32 word" where
  "set_rank w r = (w AND 3) OR push_bit 2 r"

text \<open>The rank as the 30 bits that are kept; arithmetic on it is modulo \<open>2 ^ 30\<close>.\<close>

definition rk :: "32 word \<Rightarrow> 30 word" where
  "rk w = ucast (drop_bit 2 w)"

lemma mask2: "(3 :: 32 word) = mask 2"
  by (simp add: mask_eq_exp_minus_1)

lemma and3: "(w :: 32 word) AND 3 = take_bit 2 w"
  by (simp add: mask2 take_bit_eq_mask)

lemma and3_cases: "(w AND 3 :: 32 word) \<in> {0, 1, 2, 3}"
proof -
  have "w AND 3 = w mod 4"
    by (simp add: and3 take_bit_eq_mod)
  also have "\<dots> = word_of_nat (unat w mod 4)"
    by (simp add: word_arith_nat_mod)
  finally have "w AND 3 = word_of_nat (unat w mod 4)" .
  moreover have "unat w mod 4 \<in> {0, 1, 2, 3}" by auto
  ultimately show ?thesis by auto
qed

lemma bal_of_range: "bal_of w \<in> {-1, 0, 1, 2}"
  using and3_cases [of w] by (auto simp: bal_of_def)

lemma take_bit_small: "b \<in> {-1, 0, 1} \<Longrightarrow> take_bit 2 (word_of_int (b + 1) :: 32 word) = word_of_int (b + 1)"
  by (auto simp: take_bit_eq_mod)

lemma set_bal_and3: "b \<in> {-1, 0, 1} \<Longrightarrow> set_bal w b AND 3 = word_of_int (b + 1)"
proof -
  assume b: "b \<in> {-1, 0, 1}"
  have "take_bit 2 (w AND NOT 3) = (0 :: 32 word)"
    unfolding mask2 by (rule bit_word_eqI) (auto simp: bit_simps)
  then show ?thesis using b
    by (simp only: set_bal_def and3 take_bit_or take_bit_small) simp
qed

lemma bal_of_set_bal [bits_simps]: "b \<in> {-1, 0, 1} \<Longrightarrow> bal_of (set_bal w b) = b"
  by (frule set_bal_and3 [of b w]) (auto simp: bal_of_def)

lemma drop_bit_small: "b \<in> {-1, 0, 1} \<Longrightarrow> drop_bit 2 (word_of_int (b + 1) :: 32 word) = 0"
  by auto

lemma rk_set_bal [bits_simps]: "b \<in> {-1, 0, 1} \<Longrightarrow> rk (set_bal w b) = rk w"
proof -
  assume b: "b \<in> {-1, 0, 1}"
  have "drop_bit 2 (w AND NOT 3) = (drop_bit 2 w :: 32 word)"
    unfolding mask2
    by (rule bit_word_eqI) (auto simp: bit_simps dest: bit_imp_le_length)
  then show ?thesis using b
    by (simp only: set_bal_def rk_def drop_bit_or drop_bit_small) simp
qed

lemma bal_of_set_rank [bits_simps]: "bal_of (set_rank w r) = bal_of w"
proof -
  have "take_bit 2 (push_bit 2 r :: 32 word) = 0"
    by (simp add: take_bit_push_bit)
  then show ?thesis by (simp add: bal_of_def set_rank_def and3 take_bit_or)
qed

lemma rk_set_rank [bits_simps]: "rk (set_rank w r) = ucast r"
proof -
  have "drop_bit 2 (take_bit 2 w) = (0 :: 32 word)"
    by (rule bit_word_eqI) (auto simp: bit_simps)
  then have "rk (set_rank w r) = ucast (drop_bit 2 (push_bit 2 r))"
    by (simp add: rk_def set_rank_def and3 drop_bit_or)
  also have "\<dots> = ucast r"
    by (rule bit_word_eqI) (auto simp: bit_simps)
  finally show ?thesis .
qed


lemma ucast_add30 [bits_simps]: "(ucast (a + b :: 32 word) :: 30 word) = ucast a + ucast b"
proof transfer
  fix a b :: int
  have "take_bit 30 (take_bit 30 (take_bit 32 (a + b))) = take_bit 30 (a + b)"
    by simp
  then show "take_bit LENGTH(30) (take_bit LENGTH(32) (a + b)) =
      take_bit LENGTH(30) (take_bit LENGTH(32) a + take_bit LENGTH(32) b)"
    using take_bit_add [of 30 "take_bit 32 a" "take_bit 32 b"] take_bit_add [of 30 a b] by simp
qed

lemma ucast_diff30 [bits_simps]: "(ucast (a - b :: 32 word) :: 30 word) = ucast a - ucast b"
proof transfer
  fix a b :: int
  have "take_bit 30 (take_bit 30 (take_bit 32 (a - b))) = take_bit 30 (a - b)"
    by simp
  then show "take_bit LENGTH(30) (take_bit LENGTH(32) (a - b)) =
      take_bit LENGTH(30) (take_bit LENGTH(32) a - take_bit LENGTH(32) b)"
    using take_bit_diff [of 30 "take_bit 32 a" "take_bit 32 b"] take_bit_diff [of 30 a b] by simp
qed

lemma ucast_drop_bit [bits_simps]: "ucast (drop_bit 2 w) = rk w"
  by (simp add: rk_def)

lemma ucast_one30 [bits_simps]: "(ucast (1 :: 32 word) :: 30 word) = 1"
  by simp

text \<open>The word of a fresh node: balance 0, rank 1.\<close>

definition rb_new :: "32 word" where
  "rb_new = set_rank (set_bal 0 0) 1"

lemma bal_rb_new [bits_simps]: "bal_of rb_new = 0"
  by (simp add: rb_new_def bits_simps)

lemma rk_rb_new [bits_simps]: "rk rb_new = 1"
  by (simp add: rb_new_def bits_simps)

subsection \<open>Reads and writes on cells that are known\<close>

lemma AVL_GET_BALANCE_eq [store_simps]: "AVL_GET_BALANCE n = bal_of (rank_and_balance n)"
  by (simp add: AVL_GET_BALANCE_def bal_of_def)

lemma AVL_GET_RANK_eq [store_simps]: "AVL_GET_RANK n = drop_bit 2 (rank_and_balance n)"
  by (simp add: AVL_GET_RANK_def)

lemma AVL_SET_BALANCE_eq [store_simps]:
  "AVL_SET_BALANCE b n = n\<lparr>rank_and_balance := set_bal (rank_and_balance n) b\<rparr>"
  by (simp add: AVL_SET_BALANCE_def set_bal_def)

lemma AVL_SET_RANK_eq [store_simps]:
  "AVL_SET_RANK r n = n\<lparr>rank_and_balance := set_rank (rank_and_balance n) r\<rparr>"
  by (simp add: AVL_SET_RANK_def set_rank_def)

lemma rd_Some [store_simps]: "rd st (Some a) = cells st a"
  by (simp add: rd_def)

lemma rd_None [store_simps]: "rd st None = None"
  by (simp add: rd_def)

lemma wr_Some [store_simps]:
  "cells st a = Some n \<Longrightarrow> wr st (Some a) f = Some (st\<lparr>cells := (cells st)(a \<mapsto> f n)\<rparr>)"
  by (simp add: wr_def)

lemma cmp_key_Some [store_simps]: "key n = Some k \<Longrightarrow> cmp_key cmp x n = Some (cmp x k)"
  by (simp add: cmp_key_def)

end
