(* ===== verification/Avl_Rep.thy ===== *)
theory Avl_Rep
  imports Avl_Heap
begin

section \<open>Trees with addresses, and the stores that represent them\<close>

text \<open>
  The pure view of an AVL tree: a binary tree whose nodes carry their address, key and
  packed rank/balance word. \<open>rep\<close> says that a store holds such a tree with all left,
  right and parent pointers as the code keeps them; a zipper (a list of frames from a node
  up to the sentinel root) gives the same for a position inside a tree, which is where the
  loops of \<open>avl.c\<close> work. The lemmas move the position up and down and rewrite one
  node.
\<close>

datatype 'k atree = Tip | Nd "'k atree" addr 'k "32 word" "'k atree"

fun ptr_of :: "'k atree \<Rightarrow> ptr" where
  "ptr_of Tip = None"
| "ptr_of (Nd l a k w r) = Some a"

fun addrs :: "'k atree \<Rightarrow> addr list" where
  "addrs Tip = []"
| "addrs (Nd l a k w r) = addrs l @ a # addrs r"

fun keys :: "'k atree \<Rightarrow> 'k list" where
  "keys Tip = []"
| "keys (Nd l a k w r) = keys l @ k # keys r"

fun ht :: "'k atree \<Rightarrow> nat" where
  "ht Tip = 0"
| "ht (Nd l a k w r) = Suc (max (ht l) (ht r))"

text \<open>The AVL invariant over the stored balance factors, and the rank invariant.\<close>

fun balanced :: "'k atree \<Rightarrow> bool" where
  "balanced Tip \<longleftrightarrow> True"
| "balanced (Nd l a k w r) \<longleftrightarrow>
     bal_of w = int (ht r) - int (ht l) \<and> bal_of w \<in> {-1, 0, 1} \<and> balanced l \<and> balanced r"

fun ranked :: "'k atree \<Rightarrow> bool" where
  "ranked Tip \<longleftrightarrow> True"
| "ranked (Nd l a k w r) \<longleftrightarrow>
     rk w = of_nat (Suc (length (keys l))) \<and> ranked l \<and> ranked r"

lemma length_addrs: "length (addrs t) = length (keys t)"
  by (induction t) auto

lemma ptr_of_None [simp]: "ptr_of t = None \<longleftrightarrow> t = Tip"
  by (cases t) auto

lemma ptr_of_Some_in: "ptr_of t = Some a \<Longrightarrow> a \<in> set (addrs t)"
  by (cases t) auto

lemma ht_0 [simp]: "ht t = 0 \<longleftrightarrow> t = Tip"
  by (cases t) auto

subsection \<open>Representation of a subtree\<close>

type_synonym 'k heap = "addr \<Rightarrow> 'k avl_node option"

abbreviation node :: "'k \<Rightarrow> ptr \<Rightarrow> ptr \<Rightarrow> ptr \<Rightarrow> 32 word \<Rightarrow> 'k avl_node" where
  "node k l r p w \<equiv>
     \<lparr>key = Some k, left = l, right = r, parent = p, rank_and_balance = w\<rparr>"

fun rep :: "'k heap \<Rightarrow> ptr \<Rightarrow> 'k atree \<Rightarrow> bool" where
  "rep h par Tip \<longleftrightarrow> True"
| "rep h par (Nd l a k w r) \<longleftrightarrow>
     h a = Some (node k (ptr_of l) (ptr_of r) par w) \<and> rep h (Some a) l \<and> rep h (Some a) r"

lemma rep_cong: "(\<And>b. b \<in> set (addrs t) \<Longrightarrow> h b = h' b) \<Longrightarrow> rep h par t = rep h' par t"
  by (induction t arbitrary: par) auto

lemma rep_upd_other [simp]: "b \<notin> set (addrs t) \<Longrightarrow> rep (h(b := x)) par t = rep h par t"
  by (rule rep_cong) auto

subsection \<open>Positions: frames from a node up to the sentinel\<close>

datatype 'k frame = FL addr 'k "32 word" "'k atree" | FR "'k atree" addr 'k "32 word"

fun plug1 :: "'k frame \<Rightarrow> 'k atree \<Rightarrow> 'k atree" where
  "plug1 (FL a k w r) t = Nd t a k w r"
| "plug1 (FR l a k w) t = Nd l a k w t"

fun plug :: "'k frame list \<Rightarrow> 'k atree \<Rightarrow> 'k atree" where
  "plug [] t = t"
| "plug (f # fs) t = plug fs (plug1 f t)"

fun faddrs :: "'k frame list \<Rightarrow> addr list" where
  "faddrs [] = []"
| "faddrs (FL a k w r # fs) = a # addrs r @ faddrs fs"
| "faddrs (FR l a k w # fs) = a # addrs l @ faddrs fs"

fun cpar :: "addr \<Rightarrow> 'k frame list \<Rightarrow> addr" where
  "cpar rt [] = rt"
| "cpar rt (FL a k w r # fs) = a"
| "cpar rt (FR l a k w # fs) = a"

abbreviation sentinel :: "ptr \<Rightarrow> 32 word \<Rightarrow> 'k avl_node" where
  "sentinel q w \<equiv>
     \<lparr>key = None, left = None, right = q, parent = None, rank_and_balance = w\<rparr>"

fun crep :: "'k heap \<Rightarrow> addr \<Rightarrow> 'k frame list \<Rightarrow> ptr \<Rightarrow> bool" where
  "crep h rt [] q \<longleftrightarrow> (\<exists>w. h rt = Some (sentinel q w))"
| "crep h rt (FL a k w r # fs) q \<longleftrightarrow>
     h a = Some (node k q (ptr_of r) (Some (cpar rt fs)) w) \<and>
     rep h (Some a) r \<and> crep h rt fs (Some a)"
| "crep h rt (FR l a k w # fs) q \<longleftrightarrow>
     h a = Some (node k (ptr_of l) q (Some (cpar rt fs)) w) \<and>
     rep h (Some a) l \<and> crep h rt fs (Some a)"

lemma plug_append [simp]: "plug (fs @ gs) t = plug gs (plug fs t)"
  by (induction fs arbitrary: t) auto

lemma faddrs_append [simp]: "faddrs (fs @ gs) = faddrs fs @ faddrs gs"
  by (induction fs rule: faddrs.induct) auto

lemma cpar_append [simp]: "cpar rt (fs @ gs) = cpar (cpar rt gs) fs"
  by (cases fs rule: faddrs.cases) auto

lemma cpar_in: "cpar rt fs \<in> set (rt # faddrs fs)"
  by (cases fs rule: faddrs.cases) auto

lemma crep_cong:
  "(\<And>b. b \<in> set (rt # faddrs fs) \<Longrightarrow> h b = h' b) \<Longrightarrow> crep h rt fs q = crep h' rt fs q"
proof (induction fs arbitrary: q rule: faddrs.induct)
  case (2 a k w r fs)
  have "rep h (Some a) r = rep h' (Some a) r"
    by (rule rep_cong) (use 2 in auto)
  moreover have "crep h rt fs (Some a) = crep h' rt fs (Some a)"
    by (rule "2.IH") (use 2 in auto)
  ultimately show ?case using "2.prems" by auto
next
  case (3 l a k w fs)
  have "rep h (Some a) l = rep h' (Some a) l"
    by (rule rep_cong) (use 3 in auto)
  moreover have "crep h rt fs (Some a) = crep h' rt fs (Some a)"
    by (rule "3.IH") (use 3 in auto)
  ultimately show ?case using "3.prems" by auto
qed auto

lemma crep_upd_other [simp]:
  "b \<noteq> rt \<Longrightarrow> b \<notin> set (faddrs fs) \<Longrightarrow> crep (h(b := x)) rt fs q = crep h rt fs q"
  by (rule crep_cong) auto

subsection \<open>A store that holds a tree, seen at a position\<close>

definition zrep :: "'k store \<Rightarrow> addr \<Rightarrow> 'k frame list \<Rightarrow> 'k atree \<Rightarrow> bool" where
  "zrep st rt fs u \<longleftrightarrow>
     crep (cells st) rt fs (ptr_of u) \<and> rep (cells st) (Some (cpar rt fs)) u \<and>
     distinct (rt # faddrs fs @ addrs u) \<and>
     dom (cells st) = set (rt # faddrs fs @ addrs u) \<and>
     (\<forall>b \<in> dom (cells st). b < brk st)"

lemma zrep_left: "zrep st rt (FL a k w r # fs) l \<longleftrightarrow> zrep st rt fs (Nd l a k w r)"
  unfolding zrep_def by (auto simp del: fun_upd_apply)

lemma zrep_right: "zrep st rt (FR l a k w # fs) r \<longleftrightarrow> zrep st rt fs (Nd l a k w r)"
  unfolding zrep_def by (auto simp del: fun_upd_apply)

lemma zrep_up: "zrep st rt (f # fs) u \<longleftrightarrow> zrep st rt fs (plug1 f u)"
  by (cases f) (simp_all add: zrep_left zrep_right)

lemma zrep_plug: "zrep st rt fs u \<longleftrightarrow> zrep st rt [] (plug fs u)"
  by (induction fs arbitrary: u) (simp_all add: zrep_up)

lemma zrep_append: "zrep st rt (fs @ gs) u \<longleftrightarrow> zrep st rt gs (plug fs u)"
  using zrep_plug [of st rt "fs @ gs" u] zrep_plug [of st rt gs "plug fs u"] by simp

text \<open>
  The same while a rotation is under way: the pointer \<open>q\<close> into the hole and the parent
  pointer \<open>pp\<close> of the subtree's top need not fit yet.
\<close>

definition drep :: "'k store \<Rightarrow> addr \<Rightarrow> 'k frame list \<Rightarrow> ptr \<Rightarrow> ptr \<Rightarrow> 'k atree \<Rightarrow> bool" where
  "drep st rt fs q pp u \<longleftrightarrow>
     crep (cells st) rt fs q \<and> rep (cells st) pp u \<and>
     distinct (rt # faddrs fs @ addrs u) \<and>
     dom (cells st) = set (rt # faddrs fs @ addrs u) \<and>
     (\<forall>b \<in> dom (cells st). b < brk st)"

lemma zrep_drep: "zrep st rt fs u \<longleftrightarrow> drep st rt fs (ptr_of u) (Some (cpar rt fs)) u"
  by (simp add: zrep_def drep_def)

lemma drepI:
  assumes "drep st rt fs q0 pp0 u" and "addrs u' = addrs u"
    and "crep (cells st') rt fs q" and "rep (cells st') pp u'"
    and "dom (cells st') = dom (cells st)" and "brk st' = brk st"
  shows "drep st' rt fs q pp u'"
  using assms by (simp add: drep_def)

lemma drep_facts:
  "drep st rt fs q pp u \<Longrightarrow>
   drep st rt fs q pp u \<and> crep (cells st) rt fs q \<and> rep (cells st) pp u \<and>
   distinct (rt # faddrs fs @ addrs u)"
  by (simp add: drep_def)

text \<open>Nothing was allocated between two stores.\<close>

definition same_mem :: "'k store \<Rightarrow> 'k store \<Rightarrow> bool" where
  "same_mem st st' \<longleftrightarrow> brk st' = brk st \<and> limit st' = limit st"

lemma same_mem_refl [simp, intro]: "same_mem st st"
  by (simp add: same_mem_def)

lemma same_mem_trans [trans]: "same_mem a b \<Longrightarrow> same_mem b c \<Longrightarrow> same_mem a c"
  by (simp add: same_mem_def)

text \<open>What a position tells about single cells.\<close>

lemma zrep_node:
  "zrep st rt fs (Nd l a k w r) \<Longrightarrow>
   cells st a = Some (node k (ptr_of l) (ptr_of r) (Some (cpar rt fs)) w)"
  by (simp add: zrep_def)

lemma zrep_distinct: "zrep st rt fs u \<Longrightarrow> distinct (rt # faddrs fs @ addrs u)"
  by (simp add: zrep_def)

lemma zrep_fresh: "zrep st rt fs u \<Longrightarrow> b \<in> set (rt # faddrs fs @ addrs u) \<Longrightarrow> b < brk st"
  by (auto simp: zrep_def)

lemma zrep_sentinel:
  "zrep st rt [] u \<Longrightarrow> \<exists>w. cells st rt = Some (sentinel (ptr_of u) w)"
  by (simp add: zrep_def)

text \<open>Rewriting the node at the position.\<close>

lemma zrep_set_word:
  assumes "zrep st rt fs (Nd l a k w r)"
  shows "zrep (st\<lparr>cells := (cells st)(a \<mapsto> node k (ptr_of l) (ptr_of r) (Some (cpar rt fs)) w')\<rparr>)
           rt fs (Nd l a k w' r)"
  using assms by (auto simp: zrep_def)

lemma zrep_set_key:
  assumes "zrep st rt fs (Nd l a k w r)"
  shows "zrep (st\<lparr>cells := (cells st)(a \<mapsto> node k' (ptr_of l) (ptr_of r) (Some (cpar rt fs)) w')\<rparr>)
           rt fs (Nd l a k' w' r)"
  using assms by (auto simp: zrep_def)

subsection \<open>Keys and heights through a position\<close>

fun keys_l :: "'k frame list \<Rightarrow> 'k list" where
  "keys_l [] = []"
| "keys_l (FL a k w r # fs) = keys_l fs"
| "keys_l (FR l a k w # fs) = keys_l fs @ keys l @ [k]"

fun keys_r :: "'k frame list \<Rightarrow> 'k list" where
  "keys_r [] = []"
| "keys_r (FL a k w r # fs) = k # keys r @ keys_r fs"
| "keys_r (FR l a k w # fs) = keys_r fs"

lemma keys_plug: "keys (plug fs t) = keys_l fs @ keys t @ keys_r fs"
  by (induction fs arbitrary: t rule: keys_l.induct) auto

lemma balanced_plugD: "balanced (plug fs t) \<Longrightarrow> balanced t"
proof (induction fs arbitrary: t)
  case (Cons f fs)
  then have "balanced (plug1 f t)" by simp
  then show ?case by (cases f) auto
qed simp

lemma balanced_plug_replace:
  "balanced (plug fs t) \<Longrightarrow> balanced t' \<Longrightarrow> ht t' = ht t \<Longrightarrow>
   balanced (plug fs t') \<and> ht (plug fs t') = ht (plug fs t)"
proof (induction fs arbitrary: t t')
  case (Cons f fs)
  have "balanced (plug1 f t)"
    using Cons.prems(1) balanced_plugD by simp
  then have "balanced (plug1 f t')" "ht (plug1 f t') = ht (plug1 f t)"
    using Cons.prems(2,3) by (cases f; auto)+
  then show ?case using Cons.IH [of "plug1 f t" "plug1 f t'"] Cons.prems(1) by simp
qed simp

end
