(* ===== verification/Avl_Rotate.thy ===== *)
theory Avl_Rotate
  imports Avl_Rep
begin

section \<open>What the rotations do to a tree\<close>

text \<open>
  The pure effect of the single and double rotations that \<open>avl_insert\<close> and
  \<open>avl_delete\<close> perform on pointers, with the rank arithmetic and the balance factors they
  write. In the argument order of a tree read from left to right. They keep the keys and the
  rank invariant always, and restore the balance where the callers use them.
\<close>

definition rot_right :: "int \<Rightarrow> int \<Rightarrow> 'k atree \<Rightarrow> addr \<Rightarrow> 'k \<Rightarrow> 32 word \<Rightarrow> 'k atree \<Rightarrow>
    addr \<Rightarrow> 'k \<Rightarrow> 32 word \<Rightarrow> 'k atree \<Rightarrow> 'k atree" where
  "rot_right bq bp A q kq u B p kp v D =
     Nd A q kq (set_bal u bq)
       (Nd B p kp (set_bal (set_rank v (drop_bit 2 v - drop_bit 2 u)) bp) D)"

definition rot_left :: "int \<Rightarrow> int \<Rightarrow> 'k atree \<Rightarrow> addr \<Rightarrow> 'k \<Rightarrow> 32 word \<Rightarrow> 'k atree \<Rightarrow>
    addr \<Rightarrow> 'k \<Rightarrow> 32 word \<Rightarrow> 'k atree \<Rightarrow> 'k atree" where
  "rot_left bp bq A p kp v B q kq u D =
     Nd (Nd A p kp (set_bal v bp) B) q kq
       (set_bal (set_rank u (drop_bit 2 u + drop_bit 2 v)) bq) D"

definition rot_double_right :: "'k atree \<Rightarrow> addr \<Rightarrow> 'k \<Rightarrow> 32 word \<Rightarrow> 'k atree \<Rightarrow>
    addr \<Rightarrow> 'k \<Rightarrow> 32 word \<Rightarrow> 'k atree \<Rightarrow> addr \<Rightarrow> 'k \<Rightarrow> 32 word \<Rightarrow> 'k atree \<Rightarrow> 'k atree" where
  "rot_double_right A q kq u B r kr w C p kp v D =
     (let w' = set_rank w (drop_bit 2 w + drop_bit 2 u) in
      Nd (Nd A q kq (set_bal u (if bal_of w = 1 then -1 else 0)) B) r kr (set_bal w' 0)
        (Nd C p kp (set_bal (set_rank v (drop_bit 2 v - drop_bit 2 w'))
                      (if bal_of w = -1 then 1 else 0)) D))"

definition rot_double_left :: "'k atree \<Rightarrow> addr \<Rightarrow> 'k \<Rightarrow> 32 word \<Rightarrow> 'k atree \<Rightarrow>
    addr \<Rightarrow> 'k \<Rightarrow> 32 word \<Rightarrow> 'k atree \<Rightarrow> addr \<Rightarrow> 'k \<Rightarrow> 32 word \<Rightarrow> 'k atree \<Rightarrow> 'k atree" where
  "rot_double_left A p kp v B r kr w C q kq u D =
     Nd (Nd A p kp (set_bal v (if bal_of w = 1 then -1 else 0)) B) r kr
        (set_bal (set_rank w (drop_bit 2 w + drop_bit 2 v)) 0)
        (Nd C q kq (set_bal (set_rank u (drop_bit 2 u - drop_bit 2 w))
                      (if bal_of w = -1 then 1 else 0)) D)"

lemmas rot_defs = rot_right_def rot_left_def rot_double_right_def rot_double_left_def

subsection \<open>Keys and ranks\<close>

lemma keys_rot_right: "keys (rot_right bq bp A q kq u B p kp v D) = keys A @ kq # keys B @ kp # keys D"
  by (simp add: rot_right_def)

lemma keys_rot_left: "keys (rot_left bp bq A p kp v B q kq u D) = keys A @ kp # keys B @ kq # keys D"
  by (simp add: rot_left_def)

lemma keys_rot_double_right: "keys (rot_double_right A q kq u B r kr w C p kp v D) =
    keys A @ kq # keys B @ kr # keys C @ kp # keys D"
  by (simp add: rot_double_right_def Let_def)

lemma keys_rot_double_left: "keys (rot_double_left A p kp v B r kr w C q kq u D) =
    keys A @ kp # keys B @ kr # keys C @ kq # keys D"
  by (simp add: rot_double_left_def)

lemmas keys_rot = keys_rot_right keys_rot_left keys_rot_double_right keys_rot_double_left

lemma ranked_rot_right:
  "ranked (Nd (Nd A q kq u B) p kp v D) \<Longrightarrow> bq \<in> {-1, 0, 1} \<Longrightarrow> bp \<in> {-1, 0, 1} \<Longrightarrow>
   ranked (rot_right bq bp A q kq u B p kp v D)"
  by (auto simp: rot_right_def bits_simps)

lemma ranked_rot_left:
  "ranked (Nd A p kp v (Nd B q kq u D)) \<Longrightarrow> bq \<in> {-1, 0, 1} \<Longrightarrow> bp \<in> {-1, 0, 1} \<Longrightarrow>
   ranked (rot_left bp bq A p kp v B q kq u D)"
  by (auto simp: rot_left_def bits_simps)

lemma ranked_rot_double_right:
  "ranked (Nd (Nd A q kq u (Nd B r kr w C)) p kp v D) \<Longrightarrow>
   ranked (rot_double_right A q kq u B r kr w C p kp v D)"
  by (auto simp: rot_double_right_def Let_def bits_simps)

lemma ranked_rot_double_left:
  "ranked (Nd A p kp v (Nd (Nd B r kr w C) q kq u D)) \<Longrightarrow>
   ranked (rot_double_left A p kp v B r kr w C q kq u D)"
  by (auto simp: rot_double_left_def bits_simps)

lemmas ranked_rot = ranked_rot_right ranked_rot_left ranked_rot_double_right ranked_rot_double_left

text \<open>The rank invariant of the parts of a tree, and of a tree with one part replaced.\<close>

lemma ranked_plugD: "ranked (plug fs t) \<Longrightarrow> ranked t"
proof (induction fs arbitrary: t)
  case (Cons f fs)
  then have "ranked (plug1 f t)" by simp
  then show ?case by (cases f) auto
qed simp

lemma length_keys_plug1:
  "length (keys t') = length (keys t) \<Longrightarrow> length (keys (plug1 f t')) = length (keys (plug1 f t))"
  by (cases f) auto

lemma ranked_plug_replace:
  "ranked (plug fs t) \<Longrightarrow> ranked t' \<Longrightarrow> length (keys t') = length (keys t) \<Longrightarrow>
   ranked (plug fs t')"
proof (induction fs arbitrary: t t')
  case (Cons f fs)
  have "ranked (plug1 f t)"
    using Cons.prems(1) ranked_plugD by simp
  then have "ranked (plug1 f t')"
    using Cons.prems(2,3) by (cases f) auto
  then show ?case
    using Cons.IH [of "plug1 f t" "plug1 f t'"] Cons.prems(1,3) length_keys_plug1 by auto
qed simp

subsection \<open>Heights and balance factors\<close>

lemma ht_rot [simp]:
  "ht (rot_right bq bp A q kq u B p kp v D) = Suc (max (ht A) (Suc (max (ht B) (ht D))))"
  "ht (rot_left bp bq A p kp v B q kq u D) = Suc (max (Suc (max (ht A) (ht B))) (ht D))"
  "ht (rot_double_right A q kq u B r kr w C p kp v D) =
     Suc (max (Suc (max (ht A) (ht B))) (Suc (max (ht C) (ht D))))"
  "ht (rot_double_left A p kp v B r kr w C q kq u D) =
     Suc (max (Suc (max (ht A) (ht B))) (Suc (max (ht C) (ht D))))"
  by (simp_all add: rot_defs Let_def)

lemma balanced_rot_right:
  "bq \<in> {-1, 0, 1} \<Longrightarrow> bp \<in> {-1, 0, 1} \<Longrightarrow>
   balanced (rot_right bq bp A q kq u B p kp v D) \<longleftrightarrow>
     balanced A \<and> balanced B \<and> balanced D \<and> bp = int (ht D) - int (ht B) \<and>
     bq = int (Suc (max (ht B) (ht D))) - int (ht A)"
  by (auto simp: rot_right_def bits_simps)

lemma balanced_rot_left:
  "bq \<in> {-1, 0, 1} \<Longrightarrow> bp \<in> {-1, 0, 1} \<Longrightarrow>
   balanced (rot_left bp bq A p kp v B q kq u D) \<longleftrightarrow>
     balanced A \<and> balanced B \<and> balanced D \<and> bp = int (ht B) - int (ht A) \<and>
     bq = int (ht D) - int (Suc (max (ht A) (ht B)))"
  by (auto simp: rot_left_def bits_simps)

lemma balanced_rot_double_right:
  "balanced (rot_double_right A q kq u B r kr w C p kp v D) \<longleftrightarrow>
     balanced A \<and> balanced B \<and> balanced C \<and> balanced D \<and>
     (if bal_of w = 1 then -1 else 0) = int (ht B) - int (ht A) \<and>
     (if bal_of w = -1 then 1 else 0) = int (ht D) - int (ht C) \<and>
     max (ht A) (ht B) = max (ht C) (ht D)"
  by (auto simp: rot_double_right_def Let_def bits_simps)

lemma balanced_rot_double_left:
  "balanced (rot_double_left A p kp v B r kr w C q kq u D) \<longleftrightarrow>
     balanced A \<and> balanced B \<and> balanced C \<and> balanced D \<and>
     (if bal_of w = 1 then -1 else 0) = int (ht B) - int (ht A) \<and>
     (if bal_of w = -1 then 1 else 0) = int (ht D) - int (ht C) \<and>
     max (ht A) (ht B) = max (ht C) (ht D)"
  by (auto simp: rot_double_left_def bits_simps)

lemmas balanced_rot =
  balanced_rot_right balanced_rot_left balanced_rot_double_right balanced_rot_double_left

end
