(* ===== verification/Avl_Insert.thy ===== *)
theory Avl_Insert
  imports Avl_Rotate
begin

section \<open>Insertion\<close>

text \<open>
  \<open>avl_insert\<close> of \<open>src/avl/avl.c\<close>, in the code's three phases: the descent, which
  counts the new node into the ranks and remembers the last node \<open>s\<close> with a balance (and
  its parent \<open>t\<close>); the adjustment of the balance factors between \<open>s\<close> and the new node
  \<open>q\<close>; and the rebalancing at \<open>s\<close>.
\<close>

subsection \<open>The code\<close>

text \<open>
  The descent. The first component of the result is \<open>None\<close> when the node could not be
  allocated (\<open>return -1\<close>), else the final \<open>t\<close>, \<open>s\<close> and \<open>q\<close>.
\<close>

partial_function (option) insert_descend ::
    "('k \<Rightarrow> 'k \<Rightarrow> int) \<Rightarrow> 'k \<Rightarrow> ptr \<Rightarrow> ptr \<Rightarrow> ptr \<Rightarrow> 'k store \<Rightarrow>
     ((ptr \<times> ptr \<times> ptr) option \<times> 'k store) option" where
  "insert_descend cmp x t s p st = do {
     pn \<leftarrow> rd st p;
     c \<leftarrow> cmp_key cmp x pn;
     if c < 1 then do {
       st \<leftarrow> wr st p (AVL_SET_RANK (AVL_GET_RANK pn + 1));
       if left pn = None then
         (case avl_node_new (Some x) p st of
            (None, st) \<Rightarrow> Some (None, st)
          | (Some q, st) \<Rightarrow> do {
              st \<leftarrow> wr st p (left_update (\<lambda>_. Some q));
              Some (Some (t, s, Some q), st)
            })
       else do {
         qn \<leftarrow> rd st (left pn);
         if AVL_GET_BALANCE qn \<noteq> 0 then insert_descend cmp x p (left pn) (left pn) st
         else insert_descend cmp x t s (left pn) st
       }
     } else do {
       if right pn = None then
         (case avl_node_new (Some x) p st of
            (None, st) \<Rightarrow> Some (None, st)
          | (Some q, st) \<Rightarrow> do {
              st \<leftarrow> wr st p (right_update (\<lambda>_. Some q));
              Some (Some (t, s, Some q), st)
            })
       else do {
         qn \<leftarrow> rd st (right pn);
         if AVL_GET_BALANCE qn \<noteq> 0 then insert_descend cmp x p (right pn) (right pn) st
         else insert_descend cmp x t s (right pn) st
       }
     }
   }"

text \<open>\<open>adjust balance factors\<close>: the loop \<open>while (p != q)\<close>.\<close>

partial_function (option) insert_adjust ::
    "('k \<Rightarrow> 'k \<Rightarrow> int) \<Rightarrow> 'k \<Rightarrow> ptr \<Rightarrow> ptr \<Rightarrow> 'k store \<Rightarrow> 'k store option" where
  "insert_adjust cmp x p q st =
     (if p = q then Some st
      else do {
        pn \<leftarrow> rd st p;
        c \<leftarrow> cmp_key cmp x pn;
        if c < 1 then do {
          st \<leftarrow> wr st p (AVL_SET_BALANCE (-1));
          insert_adjust cmp x (left pn) q st
        } else do {
          st \<leftarrow> wr st p (AVL_SET_BALANCE 1);
          insert_adjust cmp x (right pn) q st
        }
      })"

text \<open>\<open>if (p) p->parent = v;\<close>\<close>

definition set_parent_if :: "ptr \<Rightarrow> ptr \<Rightarrow> 'k store \<Rightarrow> 'k store option" where
  "set_parent_if p v st = (if p = None then Some st else wr st p (parent_update (\<lambda>_. v)))"

text \<open>The rotations of the balancing act; they return the new top \<open>p\<close>.\<close>

definition insert_single_rotation ::
    "int \<Rightarrow> ptr \<Rightarrow> ptr \<Rightarrow> 'k store \<Rightarrow> (ptr \<times> 'k store) option" where
  "insert_single_rotation a s r st = do {
     st \<leftarrow> (if a = -1 then do {
         rn \<leftarrow> rd st r;
         st \<leftarrow> wr st s (left_update (\<lambda>_. right rn));
         st \<leftarrow> set_parent_if (right rn) s st;
         st \<leftarrow> wr st r (right_update (\<lambda>_. s));
         st \<leftarrow> wr st s (parent_update (\<lambda>_. r));
         sn \<leftarrow> rd st s;
         rn \<leftarrow> rd st r;
         wr st s (AVL_SET_RANK (AVL_GET_RANK sn - AVL_GET_RANK rn))
       } else do {
         rn \<leftarrow> rd st r;
         st \<leftarrow> wr st s (right_update (\<lambda>_. left rn));
         st \<leftarrow> set_parent_if (left rn) s st;
         st \<leftarrow> wr st r (left_update (\<lambda>_. s));
         st \<leftarrow> wr st s (parent_update (\<lambda>_. r));
         rn \<leftarrow> rd st r;
         sn \<leftarrow> rd st s;
         wr st r (AVL_SET_RANK (AVL_GET_RANK rn + AVL_GET_RANK sn))
       });
     st \<leftarrow> wr st s (AVL_SET_BALANCE 0);
     st \<leftarrow> wr st r (AVL_SET_BALANCE 0);
     Some (r, st)
   }"

definition insert_double_pointers ::
    "int \<Rightarrow> ptr \<Rightarrow> ptr \<Rightarrow> 'k store \<Rightarrow> (ptr \<times> 'k store) option" where
  "insert_double_pointers a s r st =
     (if a = -1 then do {
         rn \<leftarrow> rd st r;
         let p = right rn;
         pn \<leftarrow> rd st p;
         st \<leftarrow> wr st r (right_update (\<lambda>_. left pn));
         st \<leftarrow> set_parent_if (left pn) r st;
         st \<leftarrow> wr st p (left_update (\<lambda>_. r));
         st \<leftarrow> wr st r (parent_update (\<lambda>_. p));
         pn \<leftarrow> rd st p;
         st \<leftarrow> wr st s (left_update (\<lambda>_. right pn));
         st \<leftarrow> set_parent_if (right pn) s st;
         st \<leftarrow> wr st p (right_update (\<lambda>_. s));
         st \<leftarrow> wr st s (parent_update (\<lambda>_. p));
         pn \<leftarrow> rd st p;
         rn \<leftarrow> rd st r;
         st \<leftarrow> wr st p (AVL_SET_RANK (AVL_GET_RANK pn + AVL_GET_RANK rn));
         sn \<leftarrow> rd st s;
         pn \<leftarrow> rd st p;
         st \<leftarrow> wr st s (AVL_SET_RANK (AVL_GET_RANK sn - AVL_GET_RANK pn));
         Some (p, st)
       } else do {
         rn \<leftarrow> rd st r;
         let p = left rn;
         pn \<leftarrow> rd st p;
         st \<leftarrow> wr st r (left_update (\<lambda>_. right pn));
         st \<leftarrow> set_parent_if (right pn) r st;
         st \<leftarrow> wr st p (right_update (\<lambda>_. r));
         st \<leftarrow> wr st r (parent_update (\<lambda>_. p));
         pn \<leftarrow> rd st p;
         st \<leftarrow> wr st s (right_update (\<lambda>_. left pn));
         st \<leftarrow> set_parent_if (left pn) s st;
         st \<leftarrow> wr st p (left_update (\<lambda>_. s));
         st \<leftarrow> wr st s (parent_update (\<lambda>_. p));
         rn \<leftarrow> rd st r;
         pn \<leftarrow> rd st p;
         st \<leftarrow> wr st r (AVL_SET_RANK (AVL_GET_RANK rn - AVL_GET_RANK pn));
         pn \<leftarrow> rd st p;
         sn \<leftarrow> rd st s;
         st \<leftarrow> wr st p (AVL_SET_RANK (AVL_GET_RANK pn + AVL_GET_RANK sn));
         Some (p, st)
       })"

definition insert_double_rotation ::
    "int \<Rightarrow> ptr \<Rightarrow> ptr \<Rightarrow> 'k store \<Rightarrow> (ptr \<times> 'k store) option" where
  "insert_double_rotation a s r st = do {
     (p, st) \<leftarrow> insert_double_pointers a s r st;
     pn \<leftarrow> rd st p;
     st \<leftarrow> (if AVL_GET_BALANCE pn = a then do {
         st \<leftarrow> wr st s (AVL_SET_BALANCE (- a));
         wr st r (AVL_SET_BALANCE 0)
       } else if AVL_GET_BALANCE pn = - a then do {
         st \<leftarrow> wr st s (AVL_SET_BALANCE 0);
         wr st r (AVL_SET_BALANCE a)
       } else do {
         st \<leftarrow> wr st s (AVL_SET_BALANCE 0);
         wr st r (AVL_SET_BALANCE 0)
       });
     st \<leftarrow> wr st p (AVL_SET_BALANCE 0);
     Some (p, st)
   }"

text \<open>\<open>finishing touch\<close>: hang the new top \<open>p\<close> where \<open>s\<close> was.\<close>

definition insert_finish :: "ptr \<Rightarrow> ptr \<Rightarrow> ptr \<Rightarrow> 'k store \<Rightarrow> 'k store option" where
  "insert_finish t s p st = do {
     tn \<leftarrow> rd st t;
     st \<leftarrow> (if s = right tn then wr st t (right_update (\<lambda>_. p))
           else wr st t (left_update (\<lambda>_. p)));
     wr st p (parent_update (\<lambda>_. t))
   }"

text \<open>
  The balancing act. \<open>p\<close> is the \<open>p\<close> the adjustment loop
  ended with. The flag of the result says that the height of the tree grew.
\<close>

definition insert_balance ::
    "int \<Rightarrow> ptr \<Rightarrow> ptr \<Rightarrow> ptr \<Rightarrow> ptr \<Rightarrow> 'k store \<Rightarrow> (bool \<times> 'k store) option" where
  "insert_balance a t s r p st = do {
     sn \<leftarrow> rd st s;
     if AVL_GET_BALANCE sn = 0 then do {
       st \<leftarrow> wr st s (AVL_SET_BALANCE a);
       Some (True, st)
     } else if AVL_GET_BALANCE sn = - a then do {
       st \<leftarrow> wr st s (AVL_SET_BALANCE 0);
       Some (False, st)
     } else if AVL_GET_BALANCE sn = a then do {
       rn \<leftarrow> rd st r;
       (p, st) \<leftarrow> (if AVL_GET_BALANCE rn = a then insert_single_rotation a s r st
                  else if AVL_GET_BALANCE rn = - a then insert_double_rotation a s r st
                  else Some (p, st));
       st \<leftarrow> insert_finish t s p st;
       Some (False, st)
     } else Some (False, st)
   }"

definition avl_insert :: "'k avl_tree \<Rightarrow> 'k \<Rightarrow> (int \<times> 'k avl_tree) option" where
  "avl_insert ob x = do {
     rootn \<leftarrow> rd (store ob) (root ob);
     if right rootn = None then
       (case avl_node_new (Some x) (root ob) (store ob) of
          (None, st) \<Rightarrow> Some (-1, ob\<lparr>store := st\<rparr>)
        | (Some nd, st) \<Rightarrow> do {
            st \<leftarrow> wr st (root ob) (right_update (\<lambda>_. Some nd));
            Some (0, ob\<lparr>store := st, tlength := tlength ob + 1\<rparr>)
          })
     else do {
       (found, st) \<leftarrow> insert_descend (compare_fun ob) x (root ob) (right rootn) (right rootn)
          (store ob);
       case found of
         None \<Rightarrow> Some (-1, ob\<lparr>store := st\<rparr>)
       | Some (t, s, q) \<Rightarrow> do {
           let ob = ob\<lparr>tlength := tlength ob + 1\<rparr>;
           sn \<leftarrow> rd st s;
           c \<leftarrow> cmp_key (compare_fun ob) x sn;
           let r = (if c < 1 then left sn else right sn);
           st \<leftarrow> insert_adjust (compare_fun ob) x r q st;
           sn \<leftarrow> rd st s;
           c \<leftarrow> cmp_key (compare_fun ob) x sn;
           let a = (if c < 1 then -1 else 1);
           (grew, st) \<leftarrow> insert_balance a t s r q st;
           Some (0, ob\<lparr>store := st, height := (if grew then height ob + 1 else height ob)\<rparr>)
         }
     }
   }"

end
