(* ===== verification/Avl_Delete.thy ===== *)
theory Avl_Delete
  imports Avl_Insert
begin

section \<open>Deletion\<close>

text \<open>
  \<open>avl_delete\<close> of \<open>src/avl/avl.c\<close>: the descent, which counts the key out of the ranks;
  the loop that counts it back in when the key is not there; the reduction of a node with
  two children to its predecessor; the removal of a node with at most one child; and the
  climb that restores the balance.
\<close>

text \<open>
  The search loop. The result is the last node visited, whether its key is equal, and the
  store. On a miss the first step of the undoing (the rank of the last node) is done.
\<close>

partial_function (option) delete_find ::
    "('k \<Rightarrow> 'k \<Rightarrow> int) \<Rightarrow> 'k \<Rightarrow> ptr \<Rightarrow> 'k store \<Rightarrow> (ptr \<times> bool \<times> 'k store) option" where
  "delete_find cmp ky x st = do {
     xn \<leftarrow> rd st x;
     c \<leftarrow> cmp_key cmp ky xn;
     if c < 0 then do {
       st \<leftarrow> wr st x (AVL_SET_RANK (AVL_GET_RANK xn - 1));
       if left xn \<noteq> None then delete_find cmp ky (left xn) st
       else do {
         xn \<leftarrow> rd st x;
         st \<leftarrow> wr st x (AVL_SET_RANK (AVL_GET_RANK xn + 1));
         Some (x, False, st)
       }
     } else if c > 0 then
       (if right xn \<noteq> None then delete_find cmp ky (right xn) st
        else do {
          st \<leftarrow> wr st x (AVL_SET_RANK (AVL_GET_RANK xn + 1));
          Some (x, False, st)
        })
     else Some (x, True, st)
   }"

text \<open>\<open>while (x != tree->root->right)\<close>: count the key back in on the way up.\<close>

partial_function (option) delete_undo :: "ptr \<Rightarrow> ptr \<Rightarrow> 'k store \<Rightarrow> 'k store option" where
  "delete_undo rt x st = do {
     rootn \<leftarrow> rd st rt;
     if x = right rootn then Some st
     else do {
       xn \<leftarrow> rd st x;
       pn \<leftarrow> rd st (parent xn);
       st \<leftarrow> (if left pn = x then wr st (parent xn) (AVL_SET_RANK (AVL_GET_RANK pn + 1))
             else Some st);
       xn \<leftarrow> rd st x;
       delete_undo rt (parent xn) st
     }
   }"

text \<open>\<open>find the immediate predecessor\<close>: go right as far as possible.\<close>

partial_function (option) go_rightmost :: "ptr \<Rightarrow> 'k store \<Rightarrow> ptr option" where
  "go_rightmost y st = do {
     yn \<leftarrow> rd st y;
     if right yn \<noteq> None then go_rightmost (right yn) st else Some y
   }"

text \<open>The complicated case: swap the keys with the predecessor, which is deleted instead.\<close>

definition delete_swap :: "ptr \<Rightarrow> 'k store \<Rightarrow> (ptr \<times> 'k store) option" where
  "delete_swap x st = do {
     xn \<leftarrow> rd st x;
     if left xn \<noteq> None \<and> right xn \<noteq> None then do {
       y \<leftarrow> go_rightmost (left xn) st;
       yn \<leftarrow> rd st y;
       let temp_key = key xn;
       st \<leftarrow> wr st x (key_update (\<lambda>_. key yn));
       st \<leftarrow> wr st y (key_update (\<lambda>_. temp_key));
       xn \<leftarrow> rd st x;
       st \<leftarrow> wr st x (AVL_SET_RANK (AVL_GET_RANK xn - 1));
       Some (y, st)
     } else Some (x, st)
   }"

text \<open>
  Scoot the only child into the place of \<open>x\<close>, then free \<open>x\<close> and its key. The result is
  \<open>p\<close>, the shortened side, the key handed to \<open>free_key_fun\<close> and the store.
\<close>

definition delete_splice :: "ptr \<Rightarrow> 'k store \<Rightarrow> (ptr \<times> int \<times> 'k option \<times> 'k store) option" where
  "delete_splice x st = do {
     xn \<leftarrow> rd st x;
     (x_child, st) \<leftarrow>
       (if left xn \<noteq> None then do {
          st \<leftarrow> wr st (left xn) (parent_update (\<lambda>_. parent xn));
          Some (left xn, st)
        } else if right xn \<noteq> None then do {
          st \<leftarrow> wr st (right xn) (parent_update (\<lambda>_. parent xn));
          Some (right xn, st)
        } else Some (None, st));
     xn \<leftarrow> rd st x;
     pn \<leftarrow> rd st (parent xn);
     (side, st) \<leftarrow>
       (if x = left pn then do {
          st \<leftarrow> wr st (parent xn) (left_update (\<lambda>_. x_child));
          Some (-1, st)
        } else do {
          st \<leftarrow> wr st (parent xn) (right_update (\<lambda>_. x_child));
          Some (1, st)
        });
     xn \<leftarrow> rd st x;
     st \<leftarrow> free_node st x;
     Some (parent xn, side, key xn, st)
   }"

text \<open>Cases 3a and 3b: the single rotations, with the balance factors they end in.\<close>

definition delete_single_rotation ::
    "int \<Rightarrow> ptr \<Rightarrow> ptr \<Rightarrow> 'k store \<Rightarrow> 'k store option" where
  "delete_single_rotation side p q st =
     (if side = -1 then do {
        pn \<leftarrow> rd st p;
        st \<leftarrow> wr st q (parent_update (\<lambda>_. parent pn));
        qn \<leftarrow> rd st q;
        st \<leftarrow> wr st p (right_update (\<lambda>_. left qn));
        st \<leftarrow> set_parent_if (left qn) p st;
        st \<leftarrow> wr st q (left_update (\<lambda>_. p));
        st \<leftarrow> wr st p (parent_update (\<lambda>_. q));
        qn \<leftarrow> rd st q;
        pn \<leftarrow> rd st p;
        wr st q (AVL_SET_RANK (AVL_GET_RANK qn + AVL_GET_RANK pn))
      } else do {
        pn \<leftarrow> rd st p;
        st \<leftarrow> wr st q (parent_update (\<lambda>_. parent pn));
        qn \<leftarrow> rd st q;
        st \<leftarrow> wr st p (left_update (\<lambda>_. right qn));
        st \<leftarrow> set_parent_if (right qn) p st;
        st \<leftarrow> wr st q (right_update (\<lambda>_. p));
        st \<leftarrow> wr st p (parent_update (\<lambda>_. q));
        pn \<leftarrow> rd st p;
        qn \<leftarrow> rd st q;
        wr st p (AVL_SET_RANK (AVL_GET_RANK pn - AVL_GET_RANK qn))
      })"

text \<open>Case 3c: the double rotations; the result is \<open>r\<close>, the new top.\<close>

definition delete_double_pointers ::
    "int \<Rightarrow> ptr \<Rightarrow> ptr \<Rightarrow> 'k store \<Rightarrow> (ptr \<times> 'k store) option" where
  "delete_double_pointers side p q st =
     (if side = 1 then do {
        qn \<leftarrow> rd st q;
        let r = right qn;
        pn \<leftarrow> rd st p;
        st \<leftarrow> wr st r (parent_update (\<lambda>_. parent pn));
        rn \<leftarrow> rd st r;
        st \<leftarrow> wr st q (right_update (\<lambda>_. left rn));
        st \<leftarrow> set_parent_if (left rn) q st;
        st \<leftarrow> wr st r (left_update (\<lambda>_. q));
        st \<leftarrow> wr st q (parent_update (\<lambda>_. r));
        rn \<leftarrow> rd st r;
        st \<leftarrow> wr st p (left_update (\<lambda>_. right rn));
        st \<leftarrow> set_parent_if (right rn) p st;
        st \<leftarrow> wr st r (right_update (\<lambda>_. p));
        st \<leftarrow> wr st p (parent_update (\<lambda>_. r));
        rn \<leftarrow> rd st r;
        qn \<leftarrow> rd st q;
        st \<leftarrow> wr st r (AVL_SET_RANK (AVL_GET_RANK rn + AVL_GET_RANK qn));
        pn \<leftarrow> rd st p;
        rn \<leftarrow> rd st r;
        st \<leftarrow> wr st p (AVL_SET_RANK (AVL_GET_RANK pn - AVL_GET_RANK rn));
        Some (r, st)
      } else do {
        qn \<leftarrow> rd st q;
        let r = left qn;
        pn \<leftarrow> rd st p;
        st \<leftarrow> wr st r (parent_update (\<lambda>_. parent pn));
        rn \<leftarrow> rd st r;
        st \<leftarrow> wr st q (left_update (\<lambda>_. right rn));
        st \<leftarrow> set_parent_if (right rn) q st;
        st \<leftarrow> wr st r (right_update (\<lambda>_. q));
        st \<leftarrow> wr st q (parent_update (\<lambda>_. r));
        rn \<leftarrow> rd st r;
        st \<leftarrow> wr st p (right_update (\<lambda>_. left rn));
        st \<leftarrow> set_parent_if (left rn) p st;
        st \<leftarrow> wr st r (left_update (\<lambda>_. p));
        st \<leftarrow> wr st p (parent_update (\<lambda>_. r));
        qn \<leftarrow> rd st q;
        rn \<leftarrow> rd st r;
        st \<leftarrow> wr st q (AVL_SET_RANK (AVL_GET_RANK qn - AVL_GET_RANK rn));
        rn \<leftarrow> rd st r;
        pn \<leftarrow> rd st p;
        st \<leftarrow> wr st r (AVL_SET_RANK (AVL_GET_RANK rn + AVL_GET_RANK pn));
        Some (r, st)
      })"

definition delete_double_rotation ::
    "int \<Rightarrow> ptr \<Rightarrow> ptr \<Rightarrow> 'k store \<Rightarrow> (ptr \<times> 'k store) option" where
  "delete_double_rotation side p q st = do {
     (r, st) \<leftarrow> delete_double_pointers side p q st;
     rn \<leftarrow> rd st r;
     st \<leftarrow> (if AVL_GET_BALANCE rn = side then do {
         st \<leftarrow> wr st q (AVL_SET_BALANCE (- side));
         wr st p (AVL_SET_BALANCE 0)
       } else if AVL_GET_BALANCE rn = - side then do {
         st \<leftarrow> wr st q (AVL_SET_BALANCE 0);
         wr st p (AVL_SET_BALANCE side)
       } else do {
         st \<leftarrow> wr st q (AVL_SET_BALANCE 0);
         wr st p (AVL_SET_BALANCE 0)
       });
     st \<leftarrow> wr st r (AVL_SET_BALANCE 0);
     Some (r, st)
   }"

text \<open>Let \<open>p\<close>'s former parent know that \<open>q\<close> has become the top.\<close>

definition delete_relink :: "ptr \<Rightarrow> ptr \<Rightarrow> ptr \<Rightarrow> 'k store \<Rightarrow> 'k store option" where
  "delete_relink tp p q st = do {
     tpn \<leftarrow> rd st tp;
     if left tpn = p then wr st tp (left_update (\<lambda>_. q))
     else wr st tp (right_update (\<lambda>_. q))
   }"

text \<open>One round of the climb: the new \<open>shorter\<close>, \<open>p\<close> and store.\<close>

definition delete_step ::
    "ptr \<Rightarrow> int \<Rightarrow> 'k store \<Rightarrow> (bool \<times> ptr \<times> 'k store) option" where
  "delete_step p side st = do {
     pn \<leftarrow> rd st p;
     if AVL_GET_BALANCE pn = 0 then do {
       st \<leftarrow> (if side = -1 then wr st p (AVL_SET_BALANCE 1) else wr st p (AVL_SET_BALANCE (-1)));
       Some (False, p, st)
     } else if AVL_GET_BALANCE pn = side then do {
       st \<leftarrow> wr st p (AVL_SET_BALANCE 0);
       Some (True, p, st)
     } else do {
       let tp = parent pn;
       let q = (if side = 1 then left pn else right pn);
       qn \<leftarrow> rd st q;
       (shorter, q, st) \<leftarrow>
         (if AVL_GET_BALANCE qn = 0 then do {
            st \<leftarrow> delete_single_rotation side p q st;
            st \<leftarrow> wr st q (AVL_SET_BALANCE side);
            st \<leftarrow> wr st p (AVL_SET_BALANCE (- side));
            Some (False, q, st)
          } else if AVL_GET_BALANCE qn = AVL_GET_BALANCE pn then do {
            st \<leftarrow> delete_single_rotation side p q st;
            st \<leftarrow> wr st q (AVL_SET_BALANCE 0);
            st \<leftarrow> wr st p (AVL_SET_BALANCE 0);
            Some (True, q, st)
          } else do {
            (r, st) \<leftarrow> delete_double_rotation side p q st;
            Some (True, r, st)
          });
       st \<leftarrow> delete_relink tp p q st;
       Some (shorter, q, st)
     }
   }"

text \<open>\<open>while (shorter && p->parent)\<close>.\<close>

partial_function (option) delete_climb ::
    "bool \<Rightarrow> ptr \<Rightarrow> int \<Rightarrow> 'k store \<Rightarrow> 'k store option" where
  "delete_climb shorter p side st =
     (if \<not> shorter then Some st
      else do {
        pn \<leftarrow> rd st p;
        if parent pn = None then Some st
        else do {
          (shorter, p, st) \<leftarrow> delete_step p side st;
          let x = p;
          xn \<leftarrow> rd st x;
          let p = parent xn;
          pn \<leftarrow> rd st p;
          delete_climb shorter p (if x = left pn then -1 else 1) st
        }
      })"

text \<open>
  The result: the return value, the keys handed to \<open>free_key_fun\<close>, and the tree.
\<close>

definition avl_delete :: "'k avl_tree \<Rightarrow> 'k \<Rightarrow> (int \<times> 'k list \<times> 'k avl_tree) option" where
  "avl_delete tree ky = do {
     rootn \<leftarrow> rd (store tree) (root tree);
     if right rootn = None then Some (-1, [], tree)
     else do {
       (x, found, st) \<leftarrow> delete_find (compare_fun tree) ky (right rootn) (store tree);
       if \<not> found then do {
         st \<leftarrow> delete_undo (root tree) x st;
         Some (-1, [], tree\<lparr>store := st\<rparr>)
       } else do {
         (x, st) \<leftarrow> delete_swap x st;
         (p, side, freed, st) \<leftarrow> delete_splice x st;
         freed \<leftarrow> freed;
         st \<leftarrow> delete_climb True p side st;
         Some (0, [freed], tree\<lparr>store := st, tlength := tlength tree - 1\<rparr>)
       }
     }
   }"

end
