(* ===== verification/Avl_Insert_Rot.thy ===== *)
theory Avl_Insert_Rot
  imports Avl_Insert
begin

section \<open>The rotations of the insertion on the store\<close>

text \<open>
  Running the pointer code of the single and the double rotation, and of the balancing act
  around them, on a store that holds a tree gives the store that holds the rotated tree; no
  access fails.
\<close>

lemma single_rotation_right:
  assumes A: "drep st rt fs q pp (Nd (Nd A r kr u B) s ks v D)"
  shows "\<exists>st'. insert_single_rotation (-1) (Some s) (Some r) st = Some (Some r, st') \<and>
     drep st' rt fs q (Some s) (rot_right 0 0 A r kr u B s ks v D) \<and> same_mem st st'"
  by (insert A; cases B; hypsubst?; drule drep_facts;
      clarsimp simp: insert_single_rotation_def set_parent_if_def store_simps same_mem_def
        rot_right_def;
      rule drepI, assumption; simp add: domI insert_absorb)

lemma single_rotation_left:
  assumes A: "drep st rt fs q pp (Nd A s ks v (Nd B r kr u D))"
  shows "\<exists>st'. insert_single_rotation 1 (Some s) (Some r) st = Some (Some r, st') \<and>
     drep st' rt fs q (Some s) (rot_left 0 0 A s ks v B r kr u D) \<and> same_mem st st'"
  by (insert A; cases B; hypsubst?; drule drep_facts;
      clarsimp simp: insert_single_rotation_def set_parent_if_def store_simps same_mem_def
        rot_left_def;
      rule drepI, assumption; simp add: domI insert_absorb)

lemma double_pointers_right:
  assumes A: "drep st rt fs q pp (Nd (Nd A r kr u (Nd B p kp w C)) s ks v D)"
  shows "\<exists>st'. insert_double_pointers (-1) (Some s) (Some r) st = Some (Some p, st') \<and>
     drep st' rt fs q (Some r)
       (let w' = set_rank w (drop_bit 2 w + drop_bit 2 u) in
        Nd (Nd A r kr u B) p kp w' (Nd C s ks (set_rank v (drop_bit 2 v - drop_bit 2 w')) D)) \<and>
     same_mem st st'"
  by (insert A; cases B; cases C; hypsubst?; drule drep_facts;
      clarsimp simp: insert_double_pointers_def set_parent_if_def store_simps same_mem_def
        Let_def;
      rule drepI, assumption; simp add: domI insert_absorb)

lemma double_pointers_left:
  assumes A: "drep st rt fs q pp (Nd A s ks v (Nd (Nd B p kp w C) r kr u D))"
  shows "\<exists>st'. insert_double_pointers 1 (Some s) (Some r) st = Some (Some p, st') \<and>
     drep st' rt fs q (Some r)
       (Nd (Nd A s ks v B) p kp (set_rank w (drop_bit 2 w + drop_bit 2 v))
          (Nd C r kr (set_rank u (drop_bit 2 u - drop_bit 2 w)) D)) \<and>
     same_mem st st'"
  by (insert A; cases B; cases C; hypsubst?; drule drep_facts;
      clarsimp simp: insert_double_pointers_def set_parent_if_def store_simps same_mem_def
        Let_def;
      rule drepI, assumption; simp add: domI insert_absorb)

lemma double_rotation_right:
  assumes A: "drep st rt fs q pp (Nd (Nd A r kr u (Nd B p kp w C)) s ks v D)"
  shows "\<exists>st'. insert_double_rotation (-1) (Some s) (Some r) st = Some (Some p, st') \<and>
     drep st' rt fs q (Some r) (rot_double_right A r kr u B p kp w C s ks v D) \<and>
     same_mem st st'"
proof -
  define w' where "w' = set_rank w (drop_bit 2 w + drop_bit 2 u)"
  define v' where "v' = set_rank v (drop_bit 2 v - drop_bit 2 w')"
  obtain st1 where 1: "insert_double_pointers (-1) (Some s) (Some r) st = Some (Some p, st1)"
    and D: "drep st1 rt fs q (Some r) (Nd (Nd A r kr u B) p kp w' (Nd C s ks v' D))"
    and M: "same_mem st st1"
    using double_pointers_right [OF A] by (auto simp: w'_def v'_def Let_def)
  have [simp]: "bal_of w' = bal_of w"
    by (simp add: w'_def bits_simps)
  show ?thesis
    unfolding rot_double_right_def Let_def w'_def [symmetric] v'_def [symmetric]
    by (insert D M; cases "bal_of w = 1"; cases "bal_of w = -1"; drule drep_facts;
        clarsimp simp: 1 insert_double_rotation_def store_simps same_mem_def;
        rule drepI, assumption; simp add: domI insert_absorb)
qed

lemma double_rotation_left:
  assumes A: "drep st rt fs q pp (Nd A s ks v (Nd (Nd B p kp w C) r kr u D))"
  shows "\<exists>st'. insert_double_rotation 1 (Some s) (Some r) st = Some (Some p, st') \<and>
     drep st' rt fs q (Some r) (rot_double_left A s ks v B p kp w C r kr u D) \<and>
     same_mem st st'"
proof -
  define w' where "w' = set_rank w (drop_bit 2 w + drop_bit 2 v)"
  define u' where "u' = set_rank u (drop_bit 2 u - drop_bit 2 w)"
  obtain st1 where 1: "insert_double_pointers 1 (Some s) (Some r) st = Some (Some p, st1)"
    and D: "drep st1 rt fs q (Some r) (Nd (Nd A s ks v B) p kp w' (Nd C r kr u' D))"
    and M: "same_mem st st1"
    using double_pointers_left [OF A] by (auto simp: w'_def u'_def)
  have [simp]: "bal_of w' = bal_of w"
    by (simp add: w'_def bits_simps)
  show ?thesis
    unfolding rot_double_left_def w'_def [symmetric] u'_def [symmetric]
    by (insert D M; cases "bal_of w = 1"; cases "bal_of w = -1"; drule drep_facts;
        clarsimp simp: 1 insert_double_rotation_def store_simps same_mem_def;
        rule drepI, assumption; simp add: domI insert_absorb)
qed

subsection \<open>Hanging the rotated tree back\<close>

lemma insert_finish_zrep:
  assumes "drep st rt fs (Some s) pp u" and "ptr_of u = Some p" and "s \<in> set (addrs u)"
  shows "\<exists>st'. insert_finish (Some (cpar rt fs)) (Some s) (Some p) st = Some st' \<and>
     zrep st' rt fs u \<and> same_mem st st'"
proof -
  from assms(2) obtain A k w B where u: "u = Nd A p k w B"
    by (cases u) auto
  show ?thesis
  proof (cases fs rule: faddrs.cases)
    case 1
    then show ?thesis using assms u
      by (auto simp: drep_def zrep_def insert_finish_def store_simps same_mem_def)
  next
    case (2 a k' w' r fs')
    have "ptr_of r \<noteq> Some s"
      using assms 2 ptr_of_Some_in [of r s] by (auto simp: drep_def)
    then show ?thesis using assms u 2
      by (auto simp: drep_def zrep_def insert_finish_def store_simps same_mem_def)
  next
    case (3 l a k' w' fs')
    then show ?thesis using assms u
      by (auto simp: drep_def zrep_def insert_finish_def store_simps same_mem_def)
  qed
qed

end
