(* ===== verification/Avl_Insert_Correct.thy ===== *)
theory Avl_Insert_Correct
  imports Avl_Insert_Rot
begin

section \<open>Correctness of the insertion\<close>

text \<open>
  The three phases of \<open>avl_insert\<close> on a store that holds a tree: the descent adds the new
  node and counts it into the ranks, the adjustment makes the path below \<open>s\<close> lean towards
  it, and the balancing act restores the AVL invariant at \<open>s\<close>. Together: the inserted key
  stands before the first key that is not smaller, and the invariants hold again.
\<close>

subsection \<open>The balancing act\<close>

fun tbal :: "'k atree \<Rightarrow> int" where
  "tbal Tip = 0"
| "tbal (Nd l a k w r) = bal_of w"

lemma insert_balance_left:
  assumes Z: "zrep st rt fs (Nd L s ks w R)"
    and b: "balanced L" "balanced R" "bal_of w = int (ht R) - int h0" "bal_of w \<in> {-1, 0, 1}"
    and G: "ht L = Suc h0" "h0 = 0 \<or> tbal L \<noteq> 0"
  shows "\<exists>g u st'. insert_balance (-1) (Some (cpar rt fs)) (Some s) (ptr_of L) p st = Some (g, st') \<and>
     zrep st' rt fs u \<and> same_mem st st' \<and> keys u = keys (Nd L s ks w R) \<and>
     (ranked (Nd L s ks w R) \<longrightarrow> ranked u) \<and> balanced u \<and>
     ht u = Suc (max h0 (ht R)) + (if bal_of w = 0 then 1 else 0) \<and> g = (bal_of w = 0)"
proof -
  have cell: "cells st s = Some (node ks (ptr_of L) (ptr_of R) (Some (cpar rt fs)) w)"
    using Z by (rule zrep_node)
  let ?set = "\<lambda>b. st\<lparr>cells := (cells st)(s \<mapsto>
    node ks (ptr_of L) (ptr_of R) (Some (cpar rt fs)) (set_bal w b))\<rparr>"
  consider "bal_of w = 0" | "bal_of w = 1" | "bal_of w = -1"
    using b(4) by auto
  then show ?thesis
  proof cases
    case 1
    have "insert_balance (-1) (Some (cpar rt fs)) (Some s) (ptr_of L) p st = Some (True, ?set (-1))"
      using cell 1 by (simp add: insert_balance_def store_simps)
    moreover have "zrep (?set (-1)) rt fs (Nd L s ks (set_bal w (-1)) R)"
      using Z by (rule zrep_set_word)
    ultimately show ?thesis using 1 b G
      by (intro exI [of _ True] exI [of _ "Nd L s ks (set_bal w (-1)) R"] exI [of _ "?set (-1)"])
        (auto simp: bits_simps same_mem_def)
  next
    case 2
    have "insert_balance (-1) (Some (cpar rt fs)) (Some s) (ptr_of L) p st = Some (False, ?set 0)"
      using cell 2 by (simp add: insert_balance_def store_simps)
    moreover have "zrep (?set 0) rt fs (Nd L s ks (set_bal w 0) R)"
      using Z by (rule zrep_set_word)
    ultimately show ?thesis using 2 b G
      by (intro exI [of _ False] exI [of _ "Nd L s ks (set_bal w 0) R"] exI [of _ "?set 0"])
        (auto simp: bits_simps same_mem_def)
  next
    case 3
    with b G have h0: "h0 = Suc (ht R)" and "tbal L \<noteq> 0" by auto
    then obtain A r kr u B where eq: "L = Nd A r kr u B" and "bal_of u \<noteq> 0"
      by (cases L) auto
    have rcell: "cells st r = Some (node kr (ptr_of A) (ptr_of B) (Some s) u)"
      using Z eq by (simp add: zrep_def)
    from b(1) eq \<open>bal_of u \<noteq> 0\<close> consider "bal_of u = -1" | "bal_of u = 1" by auto
    then show ?thesis
    proof cases
      case 1
      let ?u = "rot_right 0 0 A r kr u B s ks w R"
      obtain st1 where st1: "insert_single_rotation (-1) (Some s) (Some r) st = Some (Some r, st1)"
          "drep st1 rt fs (Some s) (Some s) ?u" "same_mem st st1"
        using single_rotation_right [OF Z [unfolded zrep_drep eq]] by auto
      moreover have "ptr_of ?u = Some r" "s \<in> set (addrs ?u)"
        by (simp_all add: rot_defs)
      ultimately obtain st2 where st2:
          "insert_finish (Some (cpar rt fs)) (Some s) (Some r) st1 = Some st2"
          "zrep st2 rt fs ?u" "same_mem st1 st2"
        using insert_finish_zrep by blast
      have "insert_balance (-1) (Some (cpar rt fs)) (Some s) (ptr_of L) p st = Some (False, st2)"
        using cell rcell 3 1 eq st1 st2 by (simp add: insert_balance_def store_simps)
      moreover have "balanced ?u" "ht ?u = Suc (max h0 (ht R))"
        using b G eq h0 1 3 by (auto simp: balanced_rot)
      moreover have "ranked (Nd L s ks w R) \<longrightarrow> ranked ?u" "keys ?u = keys (Nd L s ks w R)"
        using eq by (auto simp: keys_rot intro: ranked_rot)
      ultimately show ?thesis
        using 3 st1(3) st2(2,3) same_mem_trans [OF st1(3) st2(3)]
        by (intro exI [of _ False] exI [of _ ?u] exI [of _ st2]) simp
    next
      case 2
      with b eq G h0 obtain B1 q kq v C where Beq: "B = Nd B1 q kq v C"
        by (cases B) auto
      let ?u = "rot_double_right A r kr u B1 q kq v C s ks w R"
      obtain st1 where st1: "insert_double_rotation (-1) (Some s) (Some r) st = Some (Some q, st1)"
          "drep st1 rt fs (Some s) (Some r) ?u" "same_mem st st1"
        using double_rotation_right [OF Z [unfolded zrep_drep eq Beq]] by auto
      moreover have "ptr_of ?u = Some q" "s \<in> set (addrs ?u)"
        by (simp_all add: rot_defs Let_def)
      ultimately obtain st2 where st2:
          "insert_finish (Some (cpar rt fs)) (Some s) (Some q) st1 = Some st2"
          "zrep st2 rt fs ?u" "same_mem st1 st2"
        using insert_finish_zrep by blast
      have "insert_balance (-1) (Some (cpar rt fs)) (Some s) (ptr_of L) p st = Some (False, st2)"
        using cell rcell 3 2 eq st1 st2 by (simp add: insert_balance_def store_simps)
      moreover have "balanced ?u" "ht ?u = Suc (max h0 (ht R))"
        using b G eq Beq h0 2 3 by (auto simp: balanced_rot)
      moreover have "ranked (Nd L s ks w R) \<longrightarrow> ranked ?u" "keys ?u = keys (Nd L s ks w R)"
        using eq Beq by (auto simp: keys_rot intro: ranked_rot)
      ultimately show ?thesis
        using 3 st1(3) st2(2,3) same_mem_trans [OF st1(3) st2(3)]
        by (intro exI [of _ False] exI [of _ ?u] exI [of _ st2]) simp
    qed
  qed
qed

lemma insert_balance_right:
  assumes Z: "zrep st rt fs (Nd L s ks w R)"
    and b: "balanced L" "balanced R" "bal_of w = int h0 - int (ht L)" "bal_of w \<in> {-1, 0, 1}"
    and G: "ht R = Suc h0" "h0 = 0 \<or> tbal R \<noteq> 0"
  shows "\<exists>g u st'. insert_balance 1 (Some (cpar rt fs)) (Some s) (ptr_of R) p st = Some (g, st') \<and>
     zrep st' rt fs u \<and> same_mem st st' \<and> keys u = keys (Nd L s ks w R) \<and>
     (ranked (Nd L s ks w R) \<longrightarrow> ranked u) \<and> balanced u \<and>
     ht u = Suc (max (ht L) h0) + (if bal_of w = 0 then 1 else 0) \<and> g = (bal_of w = 0)"
proof -
  have cell: "cells st s = Some (node ks (ptr_of L) (ptr_of R) (Some (cpar rt fs)) w)"
    using Z by (rule zrep_node)
  let ?set = "\<lambda>b. st\<lparr>cells := (cells st)(s \<mapsto>
    node ks (ptr_of L) (ptr_of R) (Some (cpar rt fs)) (set_bal w b))\<rparr>"
  consider "bal_of w = 0" | "bal_of w = -1" | "bal_of w = 1"
    using b(4) by auto
  then show ?thesis
  proof cases
    case 1
    have "insert_balance 1 (Some (cpar rt fs)) (Some s) (ptr_of R) p st = Some (True, ?set 1)"
      using cell 1 by (simp add: insert_balance_def store_simps)
    moreover have "zrep (?set 1) rt fs (Nd L s ks (set_bal w 1) R)"
      using Z by (rule zrep_set_word)
    ultimately show ?thesis using 1 b G
      by (intro exI [of _ True] exI [of _ "Nd L s ks (set_bal w 1) R"] exI [of _ "?set 1"])
        (auto simp: bits_simps same_mem_def)
  next
    case 2
    have "insert_balance 1 (Some (cpar rt fs)) (Some s) (ptr_of R) p st = Some (False, ?set 0)"
      using cell 2 by (simp add: insert_balance_def store_simps)
    moreover have "zrep (?set 0) rt fs (Nd L s ks (set_bal w 0) R)"
      using Z by (rule zrep_set_word)
    ultimately show ?thesis using 2 b G
      by (intro exI [of _ False] exI [of _ "Nd L s ks (set_bal w 0) R"] exI [of _ "?set 0"])
        (auto simp: bits_simps same_mem_def)
  next
    case 3
    with b G have h0: "h0 = Suc (ht L)" and "tbal R \<noteq> 0" by auto
    then obtain A r kr u B where eq: "R = Nd B r kr u A" and "bal_of u \<noteq> 0"
      by (cases R) auto
    have rcell: "cells st r = Some (node kr (ptr_of B) (ptr_of A) (Some s) u)"
      using Z eq by (simp add: zrep_def)
    from b(2) eq \<open>bal_of u \<noteq> 0\<close> consider "bal_of u = 1" | "bal_of u = -1" by auto
    then show ?thesis
    proof cases
      case 1
      let ?u = "rot_left 0 0 L s ks w B r kr u A"
      obtain st1 where st1: "insert_single_rotation 1 (Some s) (Some r) st = Some (Some r, st1)"
          "drep st1 rt fs (Some s) (Some s) ?u" "same_mem st st1"
        using single_rotation_left [OF Z [unfolded zrep_drep eq]] by auto
      moreover have "ptr_of ?u = Some r" "s \<in> set (addrs ?u)"
        by (simp_all add: rot_defs)
      ultimately obtain st2 where st2:
          "insert_finish (Some (cpar rt fs)) (Some s) (Some r) st1 = Some st2"
          "zrep st2 rt fs ?u" "same_mem st1 st2"
        using insert_finish_zrep by blast
      have "insert_balance 1 (Some (cpar rt fs)) (Some s) (ptr_of R) p st = Some (False, st2)"
        using cell rcell 3 1 eq st1 st2 by (simp add: insert_balance_def store_simps)
      moreover have "balanced ?u" "ht ?u = Suc (max (ht L) h0)"
        using b G eq h0 1 3 by (auto simp: balanced_rot)
      moreover have "ranked (Nd L s ks w R) \<longrightarrow> ranked ?u" "keys ?u = keys (Nd L s ks w R)"
        using eq by (auto simp: keys_rot intro: ranked_rot)
      ultimately show ?thesis
        using 3 st1(3) st2(2,3) same_mem_trans [OF st1(3) st2(3)]
        by (intro exI [of _ False] exI [of _ ?u] exI [of _ st2]) simp
    next
      case 2
      with b eq G h0 obtain B1 q kq v C where Beq: "B = Nd B1 q kq v C"
        by (cases B) auto
      let ?u = "rot_double_left L s ks w B1 q kq v C r kr u A"
      obtain st1 where st1: "insert_double_rotation 1 (Some s) (Some r) st = Some (Some q, st1)"
          "drep st1 rt fs (Some s) (Some r) ?u" "same_mem st st1"
        using double_rotation_left [OF Z [unfolded zrep_drep eq Beq]] by auto
      moreover have "ptr_of ?u = Some q" "s \<in> set (addrs ?u)"
        by (simp_all add: rot_defs Let_def)
      ultimately obtain st2 where st2:
          "insert_finish (Some (cpar rt fs)) (Some s) (Some q) st1 = Some st2"
          "zrep st2 rt fs ?u" "same_mem st1 st2"
        using insert_finish_zrep by blast
      have "insert_balance 1 (Some (cpar rt fs)) (Some s) (ptr_of R) p st = Some (False, st2)"
        using cell rcell 3 2 eq st1 st2 by (simp add: insert_balance_def store_simps)
      moreover have "balanced ?u" "ht ?u = Suc (max (ht L) h0)"
        using b G eq Beq h0 2 3 by (auto simp: balanced_rot)
      moreover have "ranked (Nd L s ks w R) \<longrightarrow> ranked ?u" "keys ?u = keys (Nd L s ks w R)"
        using eq Beq by (auto simp: keys_rot intro: ranked_rot)
      ultimately show ?thesis
        using 3 st1(3) st2(2,3) same_mem_trans [OF st1(3) st2(3)]
        by (intro exI [of _ False] exI [of _ ?u] exI [of _ st2]) simp
    qed
  qed
qed

subsection \<open>The descent\<close>

definition bump :: "32 word \<Rightarrow> 32 word" where
  "bump w = set_rank w (drop_bit 2 w + 1)"

lemma bump_simps [bits_simps]: "bal_of (bump w) = bal_of w" "rk (bump w) = rk w + 1"
  by (simp_all add: bump_def bits_simps)

text \<open>The tree after the descent: the new leaf is there, ranks on left turns are one up.\<close>

fun ins_raw :: "('k \<Rightarrow> 'k \<Rightarrow> int) \<Rightarrow> 'k \<Rightarrow> addr \<Rightarrow> 'k atree \<Rightarrow> 'k atree" where
  "ins_raw cmp x a Tip = Nd Tip a x rb_new Tip"
| "ins_raw cmp x a (Nd l b k w r) =
     (if cmp x k < 1 then Nd (ins_raw cmp x a l) b k (bump w) r
      else Nd l b k w (ins_raw cmp x a r))"

text \<open>The deepest node with a balance on the search path below the top, with its position.\<close>

fun crit :: "('k \<Rightarrow> 'k \<Rightarrow> int) \<Rightarrow> 'k \<Rightarrow> 'k frame list \<Rightarrow> 'k atree \<Rightarrow>
    ('k frame list \<times> 'k atree) option" where
  "crit cmp x fs Tip = None"
| "crit cmp x fs (Nd l b k w r) =
     (if cmp x k < 1 then
        (case crit cmp x (FL b k (bump w) r # fs) l of
           Some c \<Rightarrow> Some c
         | None \<Rightarrow> if tbal l \<noteq> 0 then Some (FL b k (bump w) r # fs, l) else None)
      else
        (case crit cmp x (FR l b k w # fs) r of
           Some c \<Rightarrow> Some c
         | None \<Rightarrow> if tbal r \<noteq> 0 then Some (FR l b k w # fs, r) else None))"

text \<open>No node on the search path has a balance.\<close>

fun zpath :: "('k \<Rightarrow> 'k \<Rightarrow> int) \<Rightarrow> 'k \<Rightarrow> 'k atree \<Rightarrow> bool" where
  "zpath cmp x Tip \<longleftrightarrow> True"
| "zpath cmp x (Nd l b k w r) \<longleftrightarrow>
     bal_of w = 0 \<and> (if cmp x k < 1 then zpath cmp x l else zpath cmp x r)"

fun on_path :: "('k \<Rightarrow> 'k \<Rightarrow> int) \<Rightarrow> 'k \<Rightarrow> 'k atree \<Rightarrow> 'k atree" where
  "on_path cmp x Tip = Tip"
| "on_path cmp x (Nd l b k w r) = (if cmp x k < 1 then l else r)"

definition can_malloc :: "'k store \<Rightarrow> bool" where
  "can_malloc st \<longleftrightarrow> (case limit st of Some l \<Rightarrow> brk st < l | None \<Rightarrow> True)"

definition one_more :: "'k store \<Rightarrow> 'k store \<Rightarrow> bool" where
  "one_more st st' \<longleftrightarrow> brk st' = Suc (brk st) \<and> limit st' = limit st"

lemma malloc_ok:
  "can_malloc st \<Longrightarrow> malloc st = (Some (brk st), st\<lparr>brk := Suc (brk st)\<rparr>)"
  by (auto simp: malloc_def can_malloc_def split: option.splits)

lemma node_new_eq:
  "AVL_SET_RANK 1 (AVL_SET_BALANCE 0
     \<lparr>key = k, left = l, right = r, parent = p, rank_and_balance = 0\<rparr>) =
   \<lparr>key = k, left = l, right = r, parent = p, rank_and_balance = rb_new\<rparr>"
  by (simp add: store_simps rb_new_def)

lemma can_malloc_cells [simp]: "can_malloc (cells_update f st) = can_malloc st"
  by (simp add: can_malloc_def split: option.split)

lemma avl_node_new_ok:
  "can_malloc st \<Longrightarrow> avl_node_new k p st =
     (Some (brk st), st\<lparr>cells := (cells st)(brk st \<mapsto>
        \<lparr>key = k, left = None, right = None, parent = p, rank_and_balance = rb_new\<rparr>),
        brk := Suc (brk st)\<rparr>)"
  by (simp add: avl_node_new_def malloc_ok node_new_eq)

lemma zrep_new_left:
  assumes "zrep st rt (FL b k w r # fs) Tip"
  defines "a \<equiv> brk st"
  shows "zrep (st\<lparr>cells := (cells st)(a \<mapsto> node x None None (Some b) rb_new,
      b \<mapsto> node k (Some a) (ptr_of r) (Some (cpar rt fs)) w), brk := Suc a\<rparr>) rt
      (FL b k w r # fs) (Nd Tip a x rb_new Tip)"
proof -
  have "c < a" if "c \<in> set (rt # faddrs (FL b k w r # fs))" for c
    using assms(1) that unfolding a_def by (auto simp: zrep_def)
  then have "a \<notin> set (rt # faddrs (FL b k w r # fs))" by blast
  then show ?thesis using assms(1) unfolding zrep_def a_def by (auto intro: less_SucI)
qed

lemma zrep_new_right:
  assumes "zrep st rt (FR l b k w # fs) Tip"
  defines "a \<equiv> brk st"
  shows "zrep (st\<lparr>cells := (cells st)(a \<mapsto> node x None None (Some b) rb_new,
      b \<mapsto> node k (ptr_of l) (Some a) (Some (cpar rt fs)) w), brk := Suc a\<rparr>) rt
      (FR l b k w # fs) (Nd Tip a x rb_new Tip)"
proof -
  have "c < a" if "c \<in> set (rt # faddrs (FR l b k w # fs))" for c
    using assms(1) that unfolding a_def by (auto simp: zrep_def)
  then have "a \<notin> set (rt # faddrs (FR l b k w # fs))" by blast
  then show ?thesis using assms(1) unfolding zrep_def a_def by (auto intro: less_SucI)
qed


abbreviation crit_ptrs where
  "crit_ptrs cmp x rt fs t s u \<equiv>
     (case crit cmp x fs u of None \<Rightarrow> (t, s) | Some (C, S) \<Rightarrow> (Some (cpar rt C), ptr_of S))"

text \<open>One round of the loop, by what it finds.\<close>

lemma insert_descend_left_new:
  assumes "cells st b = Some (node k None r par w)" and "cmp x k < 1" and "can_malloc st"
    and "cells st (brk st) = None"
  shows "insert_descend cmp x t s (Some b) st =
    Some (Some (t, s, Some (brk st)), st\<lparr>cells := (cells st)(brk st \<mapsto> node x None None (Some b) rb_new,
      b \<mapsto> node k (Some (brk st)) r par (bump w)), brk := Suc (brk st)\<rparr>)"
proof -
  have "b \<noteq> brk st" using assms(1,4) by auto
  with assms show ?thesis
    by (subst insert_descend.simps)
      (simp add: store_simps avl_node_new_ok bump_def fun_upd_twist)
qed

lemma insert_descend_right_new:
  assumes "cells st b = Some (node k l None par w)" and "\<not> cmp x k < 1" and "can_malloc st"
    and "cells st (brk st) = None"
  shows "insert_descend cmp x t s (Some b) st =
    Some (Some (t, s, Some (brk st)), st\<lparr>cells := (cells st)(brk st \<mapsto> node x None None (Some b) rb_new,
      b \<mapsto> node k l (Some (brk st)) par w), brk := Suc (brk st)\<rparr>)"
proof -
  have "b \<noteq> brk st" using assms(1,4) by auto
  with assms show ?thesis
    by (subst insert_descend.simps) (simp add: store_simps avl_node_new_ok)
qed

lemma insert_descend_left_go:
  assumes "cells st b = Some (node k (Some c) r par w)" and "cmp x k < 1" and "b \<noteq> c"
    and "cells st c = Some n"
  shows "insert_descend cmp x t s (Some b) st =
    (let st1 = st\<lparr>cells := (cells st)(b \<mapsto> node k (Some c) r par (bump w))\<rparr> in
     if bal_of (rank_and_balance n) \<noteq> 0 then insert_descend cmp x (Some b) (Some c) (Some c) st1
     else insert_descend cmp x t s (Some c) st1)"
  using assms
  by (subst insert_descend.simps) (simp add: store_simps bump_def Let_def)

lemma insert_descend_right_go:
  assumes "cells st b = Some (node k l (Some c) par w)" and "\<not> cmp x k < 1"
    and "cells st c = Some n"
  shows "insert_descend cmp x t s (Some b) st =
    (if bal_of (rank_and_balance n) \<noteq> 0 then insert_descend cmp x (Some b) (Some c) (Some c) st
     else insert_descend cmp x t s (Some c) st)"
  using assms
  by (subst insert_descend.simps) (simp add: store_simps)

lemma zrep_brk_free: "zrep st rt fs u \<Longrightarrow> cells st (brk st) = None"
  by (auto simp: zrep_def dom_def)

lemma insert_descend_zrep:
  assumes "zrep st rt fs u" and "u \<noteq> Tip" and "can_malloc st"
  shows "\<exists>st'. insert_descend cmp x t s (ptr_of u) st =
       Some (Some (fst (crit_ptrs cmp x rt fs t s u), snd (crit_ptrs cmp x rt fs t s u),
                   Some (brk st)), st') \<and>
     zrep st' rt fs (ins_raw cmp x (brk st) u) \<and> one_more st st'"
  using assms
proof (induction u arbitrary: fs st t s)
  case (Nd l b k w r)
  have cell: "cells st b = Some (node k (ptr_of l) (ptr_of r) (Some (cpar rt fs)) w)"
    using Nd.prems(1) by (rule zrep_node)
  have free: "cells st (brk st) = None"
    using Nd.prems(1) by (rule zrep_brk_free)
  show ?case
  proof (cases "cmp x k < 1")
    case True
    let ?st1 = "st\<lparr>cells := (cells st)(b \<mapsto> node k (ptr_of l) (ptr_of r) (Some (cpar rt fs)) (bump w))\<rparr>"
    have Z1: "zrep ?st1 rt (FL b k (bump w) r # fs) l"
      using zrep_set_word [OF Nd.prems(1)] by (simp add: zrep_left)
    show ?thesis
    proof (cases l)
      case Tip
      show ?thesis
        using insert_descend_left_new [of st b k "ptr_of r" "Some (cpar rt fs)" w cmp x t s]
          True cell free zrep_new_left [OF Z1 [unfolded Tip], of x] Nd.prems(3) Tip
        by (simp add: one_more_def zrep_left fun_upd_twist)
    next
      case l: (Nd ll lb lk lw lr)
      have lcell: "cells st lb = Some (node lk (ptr_of ll) (ptr_of lr) (Some b) lw)" and "b \<noteq> lb"
        using Nd.prems(1) l by (auto simp: zrep_def)
      then have go: "insert_descend cmp x t s (Some b) st =
          (if bal_of lw \<noteq> 0 then insert_descend cmp x (Some b) (ptr_of l) (ptr_of l) ?st1
           else insert_descend cmp x t s (ptr_of l) ?st1)"
        using insert_descend_left_go [of st b k lb "ptr_of r" "Some (cpar rt fs)" w cmp x] cell True l
        by simp
      show ?thesis
        using Nd.IH(1) [OF Z1, of "Some b" "ptr_of l"] Nd.IH(1) [OF Z1, of t s] Nd.prems(3) go True l
        by (auto simp: one_more_def zrep_left split: option.splits if_splits)
    qed
  next
    case False
    have Z1: "zrep st rt (FR l b k w # fs) r"
      using Nd.prems(1) by (simp add: zrep_right)
    show ?thesis
    proof (cases r)
      case Tip
      show ?thesis
        using insert_descend_right_new [of st b k "ptr_of l" "Some (cpar rt fs)" w cmp x t s]
          False cell free zrep_new_right [OF Z1 [unfolded Tip], of x] Nd.prems(3) Tip
        by (simp add: one_more_def zrep_right)
    next
      case r: (Nd rl rb rk rw rr)
      have rcell: "cells st rb = Some (node rk (ptr_of rl) (ptr_of rr) (Some b) rw)"
        using Nd.prems(1) r by (auto simp: zrep_def)
      then have go: "insert_descend cmp x t s (Some b) st =
          (if bal_of rw \<noteq> 0 then insert_descend cmp x (Some b) (ptr_of r) (ptr_of r) st
           else insert_descend cmp x t s (ptr_of r) st)"
        using insert_descend_right_go [of st b k "ptr_of l" rb "Some (cpar rt fs)" w cmp x] cell False r
        by simp
      show ?thesis
        using Nd.IH(2) [OF Z1, of "Some b" "ptr_of r"] Nd.IH(2) [OF Z1, of t s] Nd.prems(3) go False r
        by (auto simp: one_more_def zrep_right split: option.splits if_splits)
    qed
  qed
qed simp

lemma zpath_child: "zpath cmp x t \<longleftrightarrow> tbal t = 0 \<and> zpath cmp x (on_path cmp x t)"
  by (cases t) auto

lemma crit_None: "crit cmp x fs u = None \<Longrightarrow> zpath cmp x (on_path cmp x u)"
proof (induction u arbitrary: fs)
  case (Nd l b k w r)
  show ?case
    using Nd.prems Nd.IH(1) [of "FL b k (bump w) r # fs"] Nd.IH(2) [of "FR l b k w # fs"]
      zpath_child [of cmp x l] zpath_child [of cmp x r]
    by (auto split: option.splits if_splits)
qed simp

lemma crit_Some:
  "crit cmp x fs u = Some (C, S) \<Longrightarrow>
   S \<noteq> Tip \<and> tbal S \<noteq> 0 \<and> zpath cmp x (on_path cmp x S) \<and>
   plug C (ins_raw cmp x a S) = plug fs (ins_raw cmp x a u) \<and>
   (balanced (plug fs u) \<longrightarrow> balanced (plug C S) \<and> ht (plug C S) = ht (plug fs u))"
proof (induction u arbitrary: fs)
  case (Nd l b k w r)
  have bal: "balanced (plug fs (Nd l b k w r)) \<Longrightarrow> balanced (plug fs (Nd l b k (bump w) r)) \<and>
      ht (plug fs (Nd l b k (bump w) r)) = ht (plug fs (Nd l b k w r))"
    using balanced_plug_replace [of fs "Nd l b k w r" "Nd l b k (bump w) r"]
      balanced_plugD [of fs "Nd l b k w r"] by (auto simp: bits_simps)
  show ?case
    using Nd.prems Nd.IH(1) [of "FL b k (bump w) r # fs"] Nd.IH(2) [of "FR l b k w # fs"] bal
      crit_None [of cmp x "FL b k (bump w) r # fs" l] crit_None [of cmp x "FR l b k w # fs" r]
    by (auto split: option.splits if_splits)
qed simp

subsection \<open>The adjustment of the balance factors\<close>

fun ins_adj :: "('k \<Rightarrow> 'k \<Rightarrow> int) \<Rightarrow> 'k \<Rightarrow> addr \<Rightarrow> 'k atree \<Rightarrow> 'k atree" where
  "ins_adj cmp x a Tip = Nd Tip a x rb_new Tip"
| "ins_adj cmp x a (Nd l b k w r) =
     (if cmp x k < 1 then Nd (ins_adj cmp x a l) b k (set_bal (bump w) (-1)) r
      else Nd l b k (set_bal w 1) (ins_adj cmp x a r))"

lemma insert_adjust_zrep:
  assumes "zrep st rt fs (ins_raw cmp x a v)" and "a \<notin> set (addrs v)"
  shows "\<exists>st'. insert_adjust cmp x (ptr_of (ins_raw cmp x a v)) (Some a) st = Some st' \<and>
     zrep st' rt fs (ins_adj cmp x a v) \<and> same_mem st st'"
  using assms
proof (induction v arbitrary: fs st)
  case Tip
  then show ?case by (subst insert_adjust.simps) auto
next
  case (Nd l b k w r)
  show ?case
  proof (cases "cmp x k < 1")
    case True
    let ?l = "ins_raw cmp x a l"
    let ?st1 = "st\<lparr>cells := (cells st)(b \<mapsto> node k (ptr_of ?l) (ptr_of r) (Some (cpar rt fs)) (set_bal (bump w) (-1)))\<rparr>"
    have Z: "zrep st rt fs (Nd ?l b k (bump w) r)"
      using Nd.prems(1) True by simp
    have step: "insert_adjust cmp x (Some b) (Some a) st = insert_adjust cmp x (ptr_of ?l) (Some a) ?st1"
      using zrep_node [OF Z] True Nd.prems(2)
      by (subst insert_adjust.simps) (simp add: store_simps)
    have "zrep ?st1 rt (FL b k (set_bal (bump w) (-1)) r # fs) ?l"
      using zrep_set_word [OF Z] by (simp add: zrep_left)
    from Nd.IH(1) [OF this] Nd.prems(2) step True show ?thesis
      by (auto simp: zrep_left same_mem_def)
  next
    case False
    let ?r = "ins_raw cmp x a r"
    let ?st1 = "st\<lparr>cells := (cells st)(b \<mapsto> node k (ptr_of l) (ptr_of ?r) (Some (cpar rt fs)) (set_bal w 1))\<rparr>"
    have Z: "zrep st rt fs (Nd l b k w ?r)"
      using Nd.prems(1) False by simp
    have step: "insert_adjust cmp x (Some b) (Some a) st = insert_adjust cmp x (ptr_of ?r) (Some a) ?st1"
      using zrep_node [OF Z] False Nd.prems(2)
      by (subst insert_adjust.simps) (simp add: store_simps)
    have "zrep ?st1 rt (FR l b k (set_bal w 1) # fs) ?r"
      using zrep_set_word [OF Z] by (simp add: zrep_right)
    from Nd.IH(2) [OF this] Nd.prems(2) step False show ?thesis
      by (auto simp: zrep_right same_mem_def)
  qed
qed

lemma ins_adj_balanced:
  "zpath cmp x v \<Longrightarrow> balanced v \<Longrightarrow>
   balanced (ins_adj cmp x a v) \<and> ht (ins_adj cmp x a v) = Suc (ht v) \<and>
   (v \<noteq> Tip \<longrightarrow> tbal (ins_adj cmp x a v) \<noteq> 0)"
  by (induction v) (auto simp: bits_simps)

lemma keys_ins_adj: "keys (ins_adj cmp x a v) = keys (ins_raw cmp x a v)"
  by (induction v) auto

lemma length_keys_ins_raw: "length (keys (ins_raw cmp x a v)) = Suc (length (keys v))"
  by (induction v) auto

lemma ranked_ins_raw: "ranked v \<Longrightarrow> ranked (ins_raw cmp x a v)"
  by (induction v) (auto simp: bits_simps length_keys_ins_raw)

lemma ranked_ins_adj: "ranked v \<Longrightarrow> ranked (ins_adj cmp x a v)"
  by (induction v) (auto simp: bits_simps length_keys_ins_raw keys_ins_adj)

subsection \<open>The whole insertion\<close>

definition tree_rep :: "'k avl_tree \<Rightarrow> 'k atree \<Rightarrow> bool" where
  "tree_rep t T \<longleftrightarrow> (\<exists>rt. root t = Some rt \<and> zrep (store t) rt [] T)"

text \<open>The node \<open>s\<close>, with its position, where the balancing act happens.\<close>

definition crit_top :: "('k \<Rightarrow> 'k \<Rightarrow> int) \<Rightarrow> 'k \<Rightarrow> 'k atree \<Rightarrow> 'k frame list \<times> 'k atree" where
  "crit_top cmp x T = (case crit cmp x [] T of None \<Rightarrow> ([], T) | Some c \<Rightarrow> c)"

lemma crit_top_props:
  assumes "crit_top cmp x T = (C, S)" and "T \<noteq> Tip" and "balanced T"
  shows "S \<noteq> Tip" "zpath cmp x (on_path cmp x S)" "balanced (plug C S)"
    "plug C (ins_raw cmp x a S) = ins_raw cmp x a T" "C = [] \<and> S = T \<or> tbal S \<noteq> 0"
    "ht (plug C S) = ht T"
  using assms crit_None [of cmp x "[]" T] crit_Some [of cmp x "[]" T C S a]
  by (auto simp: crit_top_def split: option.splits)

lemma ptr_of_ins_raw: "u \<noteq> Tip \<Longrightarrow> ptr_of (ins_raw cmp x a u) = ptr_of u"
  by (cases u) auto

lemma zrep_brk_notin: "zrep st rt fs u \<Longrightarrow> brk st \<notin> set (rt # faddrs fs @ addrs u)"
  by (auto simp: zrep_def)

lemma addrs_ins_raw: "set (addrs (ins_raw cmp x a u)) = insert a (set (addrs u))"
  by (induction u) auto

lemma insert_phases23:
  assumes Z: "zrep st rt C (ins_raw cmp x a S)" and "S = Nd l s k w r"
    and a: "a \<notin> set (addrs S)" and zp: "zpath cmp x (on_path cmp x S)" and b: "balanced S"
  shows "\<exists>g u st1 st2. insert_adjust cmp x (ptr_of (ins_raw cmp x a (on_path cmp x S))) (Some a) st = Some st1 \<and>
     rd st1 (Some s) \<noteq> None \<and> key (the (cells st1 s)) = Some k \<and>
     insert_balance (if cmp x k < 1 then -1 else 1) (Some (cpar rt C)) (Some s)
        (ptr_of (ins_raw cmp x a (on_path cmp x S))) (Some a) st1 = Some (g, st2) \<and>
     zrep st2 rt C u \<and> same_mem st st2 \<and> keys u = keys (ins_raw cmp x a S) \<and>
     (ranked S \<longrightarrow> ranked u) \<and> balanced u \<and>
     ht u = ht S + (if tbal S = 0 then 1 else 0) \<and> g = (tbal S = 0)"
proof (cases "cmp x k < 1")
  case True
  let ?L = "ins_adj cmp x a l"
  have "zrep st rt (FL s k (bump w) r # C) (ins_raw cmp x a l)"
    using Z assms(2) True by (simp add: zrep_left)
  from insert_adjust_zrep [OF this] obtain st1 where
    1: "insert_adjust cmp x (ptr_of (ins_raw cmp x a l)) (Some a) st = Some st1"
       "zrep st1 rt C (Nd ?L s k (bump w) r)" "same_mem st st1"
    using a assms(2) by (auto simp: zrep_left)
  have L: "balanced ?L" "ht ?L = Suc (ht l)" "ht l = 0 \<or> tbal ?L \<noteq> 0"
    using ins_adj_balanced [of cmp x l a] zp b assms(2) True by auto
  have p: "ptr_of (ins_raw cmp x a l) = ptr_of ?L"
    by (cases l) auto
  have B: "balanced r" "bal_of (bump w) = int (ht r) - int (ht l)" "bal_of (bump w) \<in> {-1, 0, 1}"
    using b assms(2) by (auto simp: bits_simps)
  obtain g u st2 where
    2: "insert_balance (-1) (Some (cpar rt C)) (Some s) (ptr_of ?L) (Some a) st1 = Some (g, st2)"
       "zrep st2 rt C u" "same_mem st1 st2" "keys u = keys (Nd ?L s k (bump w) r)"
       "ranked (Nd ?L s k (bump w) r) \<longrightarrow> ranked u" "balanced u"
       "ht u = Suc (max (ht l) (ht r)) + (if bal_of (bump w) = 0 then 1 else 0)"
       "g = (bal_of (bump w) = 0)"
    using insert_balance_left [OF 1(2) L(1) B L(2,3), of "Some a"] by blast
  have "ranked S \<longrightarrow> ranked (Nd ?L s k (bump w) r)"
    using assms(2) by (auto simp: bits_simps ranked_ins_adj keys_ins_adj length_keys_ins_raw)
  then show ?thesis
    using 1 2 True assms(2) p zrep_node [OF 1(2)] same_mem_trans [OF 1(3) 2(3)]
    by (intro exI [of _ g] exI [of _ u] exI [of _ st1] exI [of _ st2])
      (simp add: keys_ins_adj store_simps bits_simps)
next
  case False
  let ?R = "ins_adj cmp x a r"
  have "zrep st rt (FR l s k w # C) (ins_raw cmp x a r)"
    using Z assms(2) False by (simp add: zrep_right)
  from insert_adjust_zrep [OF this] obtain st1 where
    1: "insert_adjust cmp x (ptr_of (ins_raw cmp x a r)) (Some a) st = Some st1"
       "zrep st1 rt C (Nd l s k w ?R)" "same_mem st st1"
    using a assms(2) by (auto simp: zrep_right)
  have L: "balanced ?R" "ht ?R = Suc (ht r)" "ht r = 0 \<or> tbal ?R \<noteq> 0"
    using ins_adj_balanced [of cmp x r a] zp b assms(2) False by auto
  have p: "ptr_of (ins_raw cmp x a r) = ptr_of ?R"
    by (cases r) auto
  have B: "balanced l" "bal_of w = int (ht r) - int (ht l)" "bal_of w \<in> {-1, 0, 1}"
    using b assms(2) by auto
  obtain g u st2 where
    2: "insert_balance 1 (Some (cpar rt C)) (Some s) (ptr_of ?R) (Some a) st1 = Some (g, st2)"
       "zrep st2 rt C u" "same_mem st1 st2" "keys u = keys (Nd l s k w ?R)"
       "ranked (Nd l s k w ?R) \<longrightarrow> ranked u" "balanced u"
       "ht u = Suc (max (ht l) (ht r)) + (if bal_of w = 0 then 1 else 0)" "g = (bal_of w = 0)"
    using insert_balance_right [OF 1(2) B(1) L(1) B(2,3) L(2,3), of "Some a"] by blast
  have "ranked S \<longrightarrow> ranked (Nd l s k w ?R)"
    using assms(2) by (auto simp: bits_simps ranked_ins_adj)
  then show ?thesis
    using 1 2 False assms(2) p zrep_node [OF 1(2)] same_mem_trans [OF 1(3) 2(3)]
    by (intro exI [of _ g] exI [of _ u] exI [of _ st1] exI [of _ st2])
      (simp add: keys_ins_adj store_simps bits_simps)
qed

end
