(* ===== verification/Avl_Insert_Main.thy ===== *)
theory Avl_Insert_Main
  imports Avl_Insert_Correct
begin

section \<open>avl_insert as a whole\<close>

text \<open>
  The three phases composed: on a store that holds a balanced tree \<open>avl_insert\<close> returns 0
  and the store holds a balanced tree with the key added; when the node cannot be
  allocated it returns -1 and leaves the ranks on the search path counted up.
\<close>

definition same_tree :: "'k avl_tree \<Rightarrow> 'k avl_tree \<Rightarrow> bool" where
  "same_tree t t' \<longleftrightarrow> root t' = root t \<and> compare_fun t' = compare_fun t"

text \<open>What insertion makes of the tree behind the store.\<close>

definition inserted :: "'k avl_tree \<Rightarrow> 'k \<Rightarrow> 'k atree \<Rightarrow> 'k avl_tree \<Rightarrow> 'k atree \<Rightarrow> bool" where
  "inserted t x T t' T' \<longleftrightarrow>
     tree_rep t' T' \<and> balanced T' \<and>
     keys T' = keys (ins_raw (compare_fun t) x (brk (store t)) T) \<and>
     (ranked T \<longrightarrow> ranked T') \<and> same_tree t t' \<and> tlength t' = tlength t + 1 \<and>
     one_more (store t) (store t') \<and> height t' = height t + of_nat (ht T' - max 1 (ht T))"

lemma zrep_new_root:
  assumes "zrep st rt [] Tip"
  defines "a \<equiv> brk st"
  shows "\<exists>st'. wr (st\<lparr>cells := (cells st)(a \<mapsto> node x None None (Some rt) rb_new), brk := Suc a\<rparr>)
       (Some rt) (right_update (\<lambda>_. Some a)) = Some st' \<and>
     zrep st' rt [] (Nd Tip a x rb_new Tip) \<and> one_more st st'"
proof -
  have "rt < a" using assms(1) unfolding a_def by (auto simp: zrep_def)
  then show ?thesis using assms(1) unfolding zrep_def a_def
    by (auto simp: store_simps one_more_def)
qed

lemma avl_insert_empty:
  assumes "tree_rep t Tip" and "can_malloc (store t)"
  shows "\<exists>t' T'. avl_insert t x = Some (0, t') \<and> inserted t x Tip t' T'"
proof -
  obtain rt where rt: "root t = Some rt" and Z: "zrep (store t) rt [] Tip"
    using assms(1) by (auto simp: tree_rep_def)
  obtain w where "cells (store t) rt = Some (sentinel None w)"
    using zrep_sentinel [OF Z] by auto
  moreover obtain st' where st':
    "wr ((store t)\<lparr>cells := (cells (store t))(brk (store t) \<mapsto> node x None None (Some rt) rb_new),
       brk := Suc (brk (store t))\<rparr>) (Some rt) (right_update (\<lambda>_. Some (brk (store t)))) = Some st'"
    "zrep st' rt [] (Nd Tip (brk (store t)) x rb_new Tip)" "one_more (store t) st'"
    using zrep_new_root [OF Z] by blast
  ultimately have "avl_insert t x = Some (0, t\<lparr>store := st', tlength := tlength t + 1\<rparr>)"
    using rt assms(2) by (simp add: avl_insert_def store_simps avl_node_new_ok)
  moreover have "inserted t x Tip (t\<lparr>store := st', tlength := tlength t + 1\<rparr>)
      (Nd Tip (brk (store t)) x rb_new Tip)"
    using st' rt by (auto simp: inserted_def tree_rep_def same_tree_def bits_simps)
  ultimately show ?thesis by blast
qed

lemma distinct_ins_raw: "distinct (addrs (ins_raw cmp x a u)) \<Longrightarrow> a \<notin> set (addrs u)"
  by (induction u) (auto simp: addrs_ins_raw split: if_splits)

lemma ranked_ins_rawD: "ranked (ins_raw cmp x a u) \<Longrightarrow> ranked u"
  by (induction u) (auto simp: bits_simps length_keys_ins_raw split: if_splits)

text \<open>The tree around \<open>s\<close> once the subtree at \<open>s\<close> is rebalanced.\<close>

lemma rebalanced_plug:
  assumes "crit_top cmp x T = (C, S)" and "T \<noteq> Tip" and "balanced T"
    and "keys u = keys (ins_raw cmp x a S)" and "balanced u"
    and "ht u = ht S + (if tbal S = 0 then 1 else 0)" and "ranked S \<longrightarrow> ranked u"
  shows "balanced (plug C u)" "keys (plug C u) = keys (ins_raw cmp x a T)"
    "ranked T \<longrightarrow> ranked (plug C u)" "ht (plug C u) = ht T + (if tbal S = 0 then 1 else 0)"
proof -
  note props = crit_top_props [OF assms(1-3)]
  have plug: "plug C (ins_raw cmp x a S) = ins_raw cmp x a T" by (rule props(4))
  show "keys (plug C u) = keys (ins_raw cmp x a T)"
    using assms(4) by (simp add: plug [symmetric] keys_plug)
  show "ranked T \<longrightarrow> ranked (plug C u)"
  proof
    assume "ranked T"
    then have R: "ranked (plug C (ins_raw cmp x a S))"
      by (simp add: plug ranked_ins_raw)
    then have "ranked S" by (blast dest: ranked_plugD ranked_ins_rawD)
    then show "ranked (plug C u)"
      using ranked_plug_replace [OF R] assms(4,7) by simp
  qed
  show "balanced (plug C u)" "ht (plug C u) = ht T + (if tbal S = 0 then 1 else 0)"
    using props(3,5,6) balanced_plug_replace [OF props(3) assms(5)] assms(5,6) by auto
qed

lemma avl_insert_nonempty:
  assumes "tree_rep t T" and "can_malloc (store t)" and "balanced T" and "T \<noteq> Tip"
  shows "\<exists>t' T'. avl_insert t x = Some (0, t') \<and> inserted t x T t' T'"
proof -
  let ?cmp = "compare_fun t" and ?a = "brk (store t)"
  obtain rt where rt: "root t = Some rt" and Z: "zrep (store t) rt [] T"
    using assms(1) by (auto simp: tree_rep_def)
  obtain w where w: "cells (store t) rt = Some (sentinel (ptr_of T) w)"
    using zrep_sentinel [OF Z] by auto
  obtain C S where CS: "crit_top ?cmp x T = (C, S)"
    by force
  note props = crit_top_props [OF CS assms(4,3)]
  obtain l s k v r where S: "S = Nd l s k v r"
    using props(1) by (cases S) auto
  obtain st1 where d: "insert_descend ?cmp x (Some rt) (ptr_of T) (ptr_of T) (store t) =
        Some (Some (Some (cpar rt C), Some s, Some ?a), st1)"
      and Z1: "zrep st1 rt [] (ins_raw ?cmp x ?a T)" and m1: "one_more (store t) st1"
    using insert_descend_zrep [OF Z assms(4,2), of ?cmp x "Some rt" "ptr_of T"] CS S
    by (auto simp: crit_top_def split: option.splits)
  have Z1': "zrep st1 rt C (ins_raw ?cmp x ?a S)"
    using Z1 props(4) [of ?a] zrep_plug [of st1 rt C] by simp
  have fresh: "?a \<notin> set (addrs S)"
    using zrep_distinct [OF Z1'] by (auto dest: distinct_ins_raw)
  have bS: "balanced S"
    using props(3) by (rule balanced_plugD)
  obtain g u st2 st3 where
    ph: "insert_adjust ?cmp x (ptr_of (ins_raw ?cmp x ?a (on_path ?cmp x S))) (Some ?a) st1 = Some st2"
     "rd st2 (Some s) \<noteq> None" "key (the (cells st2 s)) = Some k"
     "insert_balance (if ?cmp x k < 1 then -1 else 1) (Some (cpar rt C)) (Some s)
        (ptr_of (ins_raw ?cmp x ?a (on_path ?cmp x S))) (Some ?a) st2 = Some (g, st3)"
     "zrep st3 rt C u" "same_mem st1 st3" "keys u = keys (ins_raw ?cmp x ?a S)"
     "ranked S \<longrightarrow> ranked u" "balanced u"
     "ht u = ht S + (if tbal S = 0 then 1 else 0)" "g = (tbal S = 0)"
    using insert_phases23 [OF Z1' S fresh props(2) bS] by blast
  have cell: "\<exists>l' w' r'. cells st1 s = Some (node k l' r' (Some (cpar rt C)) w') \<and>
      (if ?cmp x k < 1 then l' else r') = ptr_of (ins_raw ?cmp x ?a (on_path ?cmp x S))"
  proof (cases "?cmp x k < 1")
    case True
    then have "zrep st1 rt C (Nd (ins_raw ?cmp x ?a l) s k (bump v) r)"
      using Z1' S by simp
    from zrep_node [OF this] True S show ?thesis by simp
  next
    case False
    then have "zrep st1 rt C (Nd l s k v (ins_raw ?cmp x ?a r))"
      using Z1' S by simp
    from zrep_node [OF this] False S show ?thesis by simp
  qed
  let ?t' = "t\<lparr>store := st3, tlength := tlength t + 1,
      height := (if g then height t + 1 else height t)\<rparr>"
  have "avl_insert t x = Some (0, ?t')"
    using rt w assms(4) d ph(1-4) cell unfolding avl_insert_def
    by (auto simp: store_simps cmp_key_def rd_def Let_def)
  moreover have "inserted t x T ?t' (plug C u)"
    using rebalanced_plug [OF CS assms(4,3) ph(7,9,10,8)] ph(5,6,11) m1 rt assms(4)
      zrep_plug [of st3 rt C u]
    by (cases T) (auto simp: inserted_def tree_rep_def same_tree_def one_more_def same_mem_def)
  ultimately show ?thesis by blast
qed

theorem avl_insert_inserts:
  assumes "tree_rep t T" and "can_malloc (store t)" and "balanced T"
  shows "\<exists>t' T'. avl_insert t x = Some (0, t') \<and> inserted t x T t' T'"
  using avl_insert_empty [of t x] avl_insert_nonempty [OF assms] assms by (cases T) auto

end
