(* ===== verification/Avl_Delete_Rot.thy ===== *)
theory Avl_Delete_Rot
  imports Avl_Delete Avl_Insert_Main
begin

section \<open>The rotations of the deletion on the store\<close>

text \<open>
  The deletion rotates with code of its own (the top's parent pointer is set first, and the
  balance factors it ends in differ), but makes the same trees as the insertion.
\<close>

lemma delete_single_left:
  assumes A: "drep st rt fs q0 pp (Nd A p kp v (Nd B q kq u D))"
  shows "\<exists>st'. Option.bind (delete_single_rotation (-1) (Some p) (Some q) st)
       (\<lambda>st. Option.bind (wr st (Some q) (AVL_SET_BALANCE bq))
          (\<lambda>st. wr st (Some p) (AVL_SET_BALANCE bp))) = Some st' \<and>
     drep st' rt fs q0 pp (rot_left bp bq A p kp v B q kq u D) \<and> same_mem st st'"
  by (insert A; cases B; hypsubst?; drule drep_facts;
      clarsimp simp: delete_single_rotation_def set_parent_if_def store_simps same_mem_def
        rot_left_def;
      rule drepI, assumption; simp add: domI insert_absorb)

lemma delete_single_right:
  assumes A: "drep st rt fs q0 pp (Nd (Nd A q kq u B) p kp v D)"
  shows "\<exists>st'. Option.bind (delete_single_rotation 1 (Some p) (Some q) st)
       (\<lambda>st. Option.bind (wr st (Some q) (AVL_SET_BALANCE bq))
          (\<lambda>st. wr st (Some p) (AVL_SET_BALANCE bp))) = Some st' \<and>
     drep st' rt fs q0 pp (rot_right bq bp A q kq u B p kp v D) \<and> same_mem st st'"
  by (insert A; cases B; hypsubst?; drule drep_facts;
      clarsimp simp: delete_single_rotation_def set_parent_if_def store_simps same_mem_def
        rot_right_def;
      rule drepI, assumption; simp add: domI insert_absorb)

lemma delete_pointers_right:
  assumes A: "drep st rt fs q0 pp (Nd (Nd A q kq u (Nd B r kr w C)) p kp v D)"
  shows "\<exists>st'. delete_double_pointers 1 (Some p) (Some q) st = Some (Some r, st') \<and>
     drep st' rt fs q0 pp
       (let w' = set_rank w (drop_bit 2 w + drop_bit 2 u) in
        Nd (Nd A q kq u B) r kr w' (Nd C p kp (set_rank v (drop_bit 2 v - drop_bit 2 w')) D)) \<and>
     same_mem st st'"
  by (insert A; cases B; cases C; hypsubst?; drule drep_facts;
      clarsimp simp: delete_double_pointers_def set_parent_if_def store_simps same_mem_def
        Let_def;
      rule drepI, assumption; simp add: domI insert_absorb)

lemma delete_pointers_left:
  assumes A: "drep st rt fs q0 pp (Nd A p kp v (Nd (Nd B r kr w C) q kq u D))"
  shows "\<exists>st'. delete_double_pointers (-1) (Some p) (Some q) st = Some (Some r, st') \<and>
     drep st' rt fs q0 pp
       (Nd (Nd A p kp v B) r kr (set_rank w (drop_bit 2 w + drop_bit 2 v))
          (Nd C q kq (set_rank u (drop_bit 2 u - drop_bit 2 w)) D)) \<and>
     same_mem st st'"
  by (insert A; cases B; cases C; hypsubst?; drule drep_facts;
      clarsimp simp: delete_double_pointers_def set_parent_if_def store_simps same_mem_def
        Let_def;
      rule drepI, assumption; simp add: domI insert_absorb)

lemma delete_double_right:
  assumes A: "drep st rt fs q0 pp (Nd (Nd A q kq u (Nd B r kr w C)) p kp v D)"
  shows "\<exists>st'. delete_double_rotation 1 (Some p) (Some q) st = Some (Some r, st') \<and>
     drep st' rt fs q0 pp (rot_double_right A q kq u B r kr w C p kp v D) \<and> same_mem st st'"
proof -
  define w' where "w' = set_rank w (drop_bit 2 w + drop_bit 2 u)"
  define v' where "v' = set_rank v (drop_bit 2 v - drop_bit 2 w')"
  obtain st1 where 1: "delete_double_pointers 1 (Some p) (Some q) st = Some (Some r, st1)"
    and D: "drep st1 rt fs q0 pp (Nd (Nd A q kq u B) r kr w' (Nd C p kp v' D))"
    and M: "same_mem st st1"
    using delete_pointers_right [OF A] by (auto simp: w'_def v'_def Let_def)
  have [simp]: "bal_of w' = bal_of w"
    by (simp add: w'_def bits_simps)
  show ?thesis
    unfolding rot_double_right_def Let_def w'_def [symmetric] v'_def [symmetric]
    by (insert D M; cases "bal_of w = 1"; cases "bal_of w = -1"; drule drep_facts;
        clarsimp simp: 1 delete_double_rotation_def store_simps same_mem_def;
        rule drepI, assumption; simp add: domI insert_absorb)
qed

lemma delete_double_left:
  assumes A: "drep st rt fs q0 pp (Nd A p kp v (Nd (Nd B r kr w C) q kq u D))"
  shows "\<exists>st'. delete_double_rotation (-1) (Some p) (Some q) st = Some (Some r, st') \<and>
     drep st' rt fs q0 pp (rot_double_left A p kp v B r kr w C q kq u D) \<and> same_mem st st'"
proof -
  define w' where "w' = set_rank w (drop_bit 2 w + drop_bit 2 v)"
  define u' where "u' = set_rank u (drop_bit 2 u - drop_bit 2 w)"
  obtain st1 where 1: "delete_double_pointers (-1) (Some p) (Some q) st = Some (Some r, st1)"
    and D: "drep st1 rt fs q0 pp (Nd (Nd A p kp v B) r kr w' (Nd C q kq u' D))"
    and M: "same_mem st st1"
    using delete_pointers_left [OF A] by (auto simp: w'_def u'_def)
  have [simp]: "bal_of w' = bal_of w"
    by (simp add: w'_def bits_simps)
  show ?thesis
    unfolding rot_double_left_def w'_def [symmetric] u'_def [symmetric]
    by (insert D M; cases "bal_of w = 1"; cases "bal_of w = -1"; drule drep_facts;
        clarsimp simp: 1 delete_double_rotation_def store_simps same_mem_def;
        rule drepI, assumption; simp add: domI insert_absorb)
qed

lemma delete_relink_zrep:
  assumes "drep st rt fs (Some p) (Some (cpar rt fs)) u" and "ptr_of u = Some q" and "p \<in> set (addrs u)"
  shows "\<exists>st'. delete_relink (Some (cpar rt fs)) (Some p) (Some q) st = Some st' \<and>
     zrep st' rt fs u \<and> same_mem st st'"
proof -
  from assms(2) obtain A k w B where u: "u = Nd A q k w B"
    by (cases u) auto
  show ?thesis
  proof (cases fs rule: faddrs.cases)
    case 1
    then show ?thesis using assms u
      by (auto simp: drep_def zrep_def delete_relink_def store_simps same_mem_def)
  next
    case (2 a k' w' r fs')
    then show ?thesis using assms u
      by (auto simp: drep_def zrep_def delete_relink_def store_simps same_mem_def)
  next
    case (3 l a k' w' fs')
    have "ptr_of l \<noteq> Some p"
      using assms 3 ptr_of_Some_in [of l p] by (auto simp: drep_def)
    then show ?thesis using assms u 3
      by (auto simp: drep_def zrep_def delete_relink_def store_simps same_mem_def)
  qed
qed

end
