(* ===== verification/Avl_Delete_Find.thy ===== *)
theory Avl_Delete_Find
  imports Avl_Delete_Rot
begin

section \<open>The search of the deletion\<close>

text \<open>
  What the descent of \<open>avl_delete\<close> finds and what it does to the ranks: on a hit the
  position of the first equal key from the top; on a miss, once the undoing has run, the tree
  as it was, except that the rank of the last node counts one more when the search ended to its
  right.
\<close>

definition dec :: "32 word \<Rightarrow> 32 word" where
  "dec w = set_rank w (drop_bit 2 w - 1)"

lemma bal_of_bump [bits_simps]: "bal_of (bump w) = bal_of w"
  by (simp add: bump_def bits_simps)

lemma bal_of_dec [bits_simps]: "bal_of (dec w) = bal_of w"
  by (simp add: dec_def bits_simps)

lemma rk_dec [bits_simps]: "rk (dec w) = rk w - 1"
  by (simp add: dec_def bits_simps)

lemma push_drop_set_rank: "push_bit 2 (drop_bit 2 (set_rank w r) + 1) = push_bit 2 (r + 1)"
proof -
  have "drop_bit 2 (set_rank w r) = take_bit 30 r"
    unfolding set_rank_def mask2
    by (rule bit_word_eqI) (auto simp: bit_simps)
  moreover have "push_bit 2 (take_bit 30 r + 1) = push_bit 2 (r + 1)"
  proof -
    have "push_bit 2 (take_bit 30 r) = push_bit 2 r"
      by (rule bit_word_eqI) (auto simp: bit_simps)
    then show ?thesis by (simp add: push_bit_eq_mult algebra_simps)
  qed
  ultimately show ?thesis by simp
qed

lemma bump_dec [simp]: "bump (dec w) = w"
proof -
  have "set_rank w r AND 3 = w AND 3" for r
  proof -
    have "take_bit 2 (push_bit 2 r :: 32 word) = 0"
      by (simp add: take_bit_push_bit)
    then show ?thesis by (simp add: set_rank_def and3 take_bit_or)
  qed
  then have "bump (dec w) = (w AND 3) OR push_bit 2 (drop_bit 2 w)"
    unfolding bump_def dec_def set_rank_def [of "set_rank w (drop_bit 2 w - 1)"]
    by (simp add: push_drop_set_rank)
  also have "\<dots> = w"
  proof (rule bit_word_eqI)
    fix n assume "n < LENGTH(32)"
    then show "bit ((w AND 3) OR push_bit 2 (drop_bit 2 w)) n = bit w n"
      unfolding mask2 by (cases "n < 2") (auto simp: bit_simps not_less le_iff_add)
  qed
  finally show ?thesis .
qed

fun dfind :: "('k \<Rightarrow> 'k \<Rightarrow> int) \<Rightarrow> 'k \<Rightarrow> 'k frame list \<Rightarrow> 'k atree \<Rightarrow> 'k frame list \<times> 'k atree \<times> bool" where
  "dfind cmp ky fs Tip = (fs, Tip, False)"
| "dfind cmp ky fs (Nd l a k w r) =
     (if cmp ky k < 0 then
        (if l \<noteq> Tip then dfind cmp ky (FL a k (dec w) r # fs) l else (fs, Nd l a k w r, False))
      else if cmp ky k > 0 then
        (if r \<noteq> Tip then dfind cmp ky (FR l a k w # fs) r else (fs, Nd l a k (bump w) r, False))
      else (fs, Nd l a k w r, True))"

lemma delete_find_zrep:
  assumes "zrep st rt fs u" and "u \<noteq> Tip" and "dfind cmp ky fs u = (fs', u', b)"
  shows "\<exists>st'. delete_find cmp ky (ptr_of u) st = Some (ptr_of u', b, st') \<and> zrep st' rt fs' u' \<and>
     u' \<noteq> Tip \<and> same_mem st st'"
  using assms
proof (induction u arbitrary: fs st)
  case (Nd l a k w r)
  have cell: "cells st a = Some (node k (ptr_of l) (ptr_of r) (Some (cpar rt fs)) w)"
    using Nd.prems(1) by (rule zrep_node)
  consider "cmp ky k < 0" | "cmp ky k > 0" | "cmp ky k = 0" by linarith
  then show ?case
  proof cases
    case 1
    let ?st1 = "st\<lparr>cells := (cells st)(a \<mapsto> node k (ptr_of l) (ptr_of r) (Some (cpar rt fs)) (dec w))\<rparr>"
    have Z1: "zrep ?st1 rt (FL a k (dec w) r # fs) l"
      using zrep_set_word [OF Nd.prems(1)] by (simp add: zrep_left)
    show ?thesis
    proof (cases "l = Tip")
      case True
      have undone: "zrep (st\<lparr>cells := (cells st)(a \<mapsto> node k (ptr_of l) (ptr_of r) (Some (cpar rt fs)) w)\<rparr>)
          rt fs (Nd l a k w r)"
        using zrep_set_word [OF Nd.prems(1), of w] by simp
      have "bump (dec w) = w" by simp
      then have "set_rank (dec w) (drop_bit 2 (dec w) + 1) = w" by (simp add: bump_def)
      then show ?thesis using 1 True cell undone Nd.prems(3)
        by (subst delete_find.simps) (auto simp: store_simps dec_def same_mem_def)
    next
      case False
      have "delete_find cmp ky (Some a) st = delete_find cmp ky (ptr_of l) ?st1"
        using 1 False cell by (subst delete_find.simps) (simp add: store_simps dec_def)
      then show ?thesis
        using Nd.IH(1) [OF Z1] 1 False Nd.prems(3) by (auto simp: same_mem_def)
    qed
  next
    case 2
    have Z1: "zrep st rt (FR l a k w # fs) r"
      using Nd.prems(1) by (simp add: zrep_right)
    show ?thesis
    proof (cases "r = Tip")
      case True
      then show ?thesis
        using 2 cell Nd.prems(3) zrep_set_word [OF Nd.prems(1), of "bump w"]
        by (subst delete_find.simps) (auto simp: store_simps bump_def same_mem_def)
    next
      case False
      have "delete_find cmp ky (Some a) st = delete_find cmp ky (ptr_of r) st"
        using 2 False cell by (subst delete_find.simps) (simp add: store_simps)
      then show ?thesis
        using Nd.IH(2) [OF Z1] 2 False Nd.prems(3) by (auto simp: same_mem_def)
    qed
  next
    case 3
    then show ?thesis
      using cell Nd.prems(1,3) by (subst delete_find.simps) (auto simp: store_simps)
  qed
qed simp

subsection \<open>A miss\<close>

fun undo :: "'k frame \<Rightarrow> 'k frame" where
  "undo (FL a k w r) = FL a k (bump w) r"
| "undo (FR l a k w) = FR l a k w"

lemma delete_undo_zrep:
  assumes "zrep st rt fs u" and "u \<noteq> Tip"
  shows "\<exists>st'. delete_undo (Some rt) (ptr_of u) st = Some st' \<and>
     zrep st' rt [] (plug (map undo fs) u) \<and> same_mem st st'"
  using assms
proof (induction fs arbitrary: st u)
  case Nil
  then show ?case using zrep_sentinel [of st rt u]
    by (subst delete_undo.simps) (auto simp: store_simps)
next
  case (Cons f fs)
  obtain l a k w r where u: "u = Nd l a k w r"
    using Cons.prems(2) by (cases u) auto
  let ?p = "cpar rt (f # fs)"
  have ucell: "cells st a = Some (node k (ptr_of l) (ptr_of r) (Some ?p) w)"
    using Cons.prems(1) u by (auto dest: zrep_node)
  have Z0: "zrep st rt [] (plug fs (plug1 f u))"
    using Cons.prems(1) zrep_plug [of st rt "f # fs" u] by simp
  obtain w0 where root: "cells st rt = Some (sentinel (ptr_of (plug fs (plug1 f u))) w0)"
    using zrep_sentinel [OF Z0] by auto
  have "a \<notin> set (faddrs (f # fs))" and rt: "a \<noteq> rt" "?p \<noteq> rt"
    using zrep_distinct [OF Cons.prems(1)] u by (cases f; auto)+
  have "ptr_of (plug gs v) \<noteq> Some a" if "gs \<noteq> []" "a \<notin> set (faddrs gs)" for gs :: "'a frame list" and v
    using that
  proof (induction gs arbitrary: v)
    case (Cons g gs)
    then show ?case by (cases g; cases gs) auto
  qed simp
  from this [of "f # fs" u] have top: "ptr_of (plug fs (plug1 f u)) \<noteq> Some a"
    using \<open>a \<notin> set (faddrs (f # fs))\<close> by simp
  show ?case
  proof (cases f)
    case (FL b k' w' r')
    have Z: "zrep st rt fs (Nd u b k' w' r')"
      using Cons.prems(1) FL by (simp add: zrep_left)
    let ?st1 = "st\<lparr>cells := (cells st)(b \<mapsto> node k' (ptr_of u) (ptr_of r') (Some (cpar rt fs)) (bump w'))\<rparr>"
    have "a \<noteq> b" using zrep_distinct [OF Z] u by auto
    then have "delete_undo (Some rt) (ptr_of u) st = delete_undo (Some rt) (Some b) ?st1"
      using root ucell zrep_node [OF Z] u FL rt top
      by (subst delete_undo.simps) (auto simp: store_simps bump_def)
    then show ?thesis
      using Cons.IH [OF zrep_set_word [OF Z, of "bump w'"]] FL by (auto simp: same_mem_def)
  next
    case (FR l' b k' w')
    have Z: "zrep st rt fs (Nd l' b k' w' u)"
      using Cons.prems(1) FR by (simp add: zrep_right)
    have "ptr_of l' \<noteq> Some a"
      using zrep_distinct [OF Z] u ptr_of_Some_in [of l' a] by auto
    then have "delete_undo (Some rt) (ptr_of u) st = delete_undo (Some rt) (Some b) st"
      using root ucell zrep_node [OF Z] u FR rt top
      by (subst delete_undo.simps) (auto simp: store_simps)
    then show ?thesis
      using Cons.IH [OF Z] FR by (auto simp: same_mem_def)
  qed
qed

fun del_miss :: "('k \<Rightarrow> 'k \<Rightarrow> int) \<Rightarrow> 'k \<Rightarrow> 'k atree \<Rightarrow> 'k atree" where
  "del_miss cmp ky Tip = Tip"
| "del_miss cmp ky (Nd l a k w r) =
     (if cmp ky k < 0 then Nd (del_miss cmp ky l) a k w r
      else if r = Tip then Nd l a k (bump w) r
      else Nd l a k w (del_miss cmp ky r))"

lemma dfind_miss:
  "dfind cmp ky fs u = (fs', u', False) \<Longrightarrow>
   plug (map undo fs') u' = plug (map undo fs) (del_miss cmp ky u)"
  by (induction cmp ky fs u arbitrary: rule: dfind.induct) (auto split: if_splits)

lemma keys_del_miss: "keys (del_miss cmp ky T) = keys T"
  by (induction T) auto

lemma ht_del_miss: "ht (del_miss cmp ky T) = ht T"
  by (induction T) auto

lemma balanced_del_miss: "balanced T \<Longrightarrow> balanced (del_miss cmp ky T)"
  by (induction T) (auto simp: bits_simps ht_del_miss)

subsection \<open>A hit\<close>

lemma dfind_hit:
  "dfind cmp ky fs u = (fs', U, True) \<Longrightarrow> u \<noteq> Tip \<Longrightarrow>
   \<exists>gs l a k w r. fs' = gs @ fs \<and> U = Nd l a k w r \<and> cmp ky k = 0 \<and>
     keys (plug gs U) = keys u \<and>
     (balanced u \<longrightarrow> balanced (plug gs U) \<and> ht (plug gs U) = ht u) \<and>
     (ranked u \<longrightarrow> ranked U \<and>
        (\<forall>U'. ranked U' \<longrightarrow> length (keys U) = Suc (length (keys U')) \<longrightarrow> ranked (plug gs U')))"
proof (induction cmp ky fs u rule: dfind.induct)
  case (2 cmp ky fs l a k w r)
  consider "cmp ky k < 0" "l \<noteq> Tip" | "cmp ky k > 0" "r \<noteq> Tip" | "cmp ky k = 0"
    using "2.prems" by (cases "cmp ky k < 0"; cases "cmp ky k > 0") (auto split: if_splits)
  then show ?case
  proof cases
    case 1
    then obtain gs l' a' k' w' r' where IH: "fs' = gs @ FL a k (dec w) r # fs" "U = Nd l' a' k' w' r'"
      "cmp ky k' = 0" "keys (plug gs U) = keys l"
      "balanced l \<longrightarrow> balanced (plug gs U) \<and> ht (plug gs U) = ht l"
      "ranked l \<longrightarrow> ranked U \<and>
        (\<forall>U'. ranked U' \<longrightarrow> length (keys U) = Suc (length (keys U')) \<longrightarrow> ranked (plug gs U'))"
      using "2.IH"(1) "2.prems" by auto
    have len: "length (keys l) = Suc (length (keys (plug gs U')))"
      if "length (keys U) = Suc (length (keys U'))" for U'
      using that IH(4) by (simp add: keys_plug [of gs] flip: IH(4))
    show ?thesis
      using IH(1-3) IH(4) IH(5,6) len
      by (intro exI [of _ "gs @ [FL a k (dec w) r]"] exI [of _ l'] exI [of _ a'] exI [of _ k']
          exI [of _ w'] exI [of _ r']) (auto simp: bits_simps)
  next
    case 2
    then obtain gs l' a' k' w' r' where IH: "fs' = gs @ FR l a k w # fs" "U = Nd l' a' k' w' r'"
      "cmp ky k' = 0" "keys (plug gs U) = keys r"
      "balanced r \<longrightarrow> balanced (plug gs U) \<and> ht (plug gs U) = ht r"
      "ranked r \<longrightarrow> ranked U \<and>
        (\<forall>U'. ranked U' \<longrightarrow> length (keys U) = Suc (length (keys U')) \<longrightarrow> ranked (plug gs U'))"
      using "2.IH"(2) "2.prems" by auto
    show ?thesis
      using IH(1-3) IH(4) IH(5,6)
      by (intro exI [of _ "gs @ [FR l a k w]"] exI [of _ l'] exI [of _ a'] exI [of _ k']
          exI [of _ w'] exI [of _ r']) (auto simp: bits_simps)
  next
    case 3
    then show ?thesis
      using "2.prems" by (intro exI [of _ "[]"]) auto
  qed
qed simp

end
