(* ===== verification/Avl_Delete_Climb.thy ===== *)
theory Avl_Delete_Climb
  imports Avl_Delete_Find
begin

section \<open>Taking the node out and climbing back\<close>

text \<open>
  The three later phases of \<open>avl_delete\<close>: the swap with the predecessor, the removal of a
  node with at most one child, and the climb, one round of which restores the balance at one
  node and says whether its subtree became lower.
\<close>

subsection \<open>The swap with the predecessor\<close>

fun rmost :: "'k frame list \<Rightarrow> 'k atree \<Rightarrow> 'k frame list \<times> 'k atree" where
  "rmost fs (Nd l a k w (Nd b c kc v d)) = rmost (FR l a k w # fs) (Nd b c kc v d)"
| "rmost fs (Nd l a k w Tip) = (fs, Nd l a k w Tip)"
| "rmost fs Tip = (fs, Tip)"

lemma rmost_props:
  "u \<noteq> Tip \<Longrightarrow> \<exists>ys yl y ky yw. rmost fs u = (ys @ fs, Nd yl y ky yw Tip) \<and>
     u = plug ys (Nd yl y ky yw Tip) \<and> keys_r ys = []"
proof (induction fs u rule: rmost.induct)
  case (1 fs l a k w b c kc v d)
  then obtain ys yl y ky yw where IH:
    "rmost (FR l a k w # fs) (Nd b c kc v d) = (ys @ FR l a k w # fs, Nd yl y ky yw Tip)"
    "Nd b c kc v d = plug ys (Nd yl y ky yw Tip)" "keys_r ys = []"
    by auto
  have "keys_r (ys @ [FR l a k w]) = []"
    using IH(3) by (induction ys rule: keys_r.induct) auto
  with IH(1) show ?case
    by (intro exI [of _ "ys @ [FR l a k w]"] exI [of _ yl] exI [of _ y] exI [of _ ky] exI [of _ yw])
      (simp flip: IH(2))
qed (auto intro: exI [of _ "[]"])

lemma ranked_plug_rmost:
  "keys_r ys = [] \<Longrightarrow> ranked (plug ys u) \<Longrightarrow> ranked u' \<Longrightarrow> ranked (plug ys u')"
proof (induction ys arbitrary: u u')
  case (Cons f ys)
  then show ?case
    using ranked_plugD [of ys "plug1 f u"] by (cases f) auto
qed simp

lemma go_rightmost_zrep:
  "zrep st rt fs u \<Longrightarrow> u \<noteq> Tip \<Longrightarrow> go_rightmost (ptr_of u) st = Some (ptr_of (snd (rmost fs u)))"
proof (induction fs u rule: rmost.induct)
  case (1 fs l a k w b c kc v d)
  then show ?case using zrep_node [OF 1(2)]
    by (subst go_rightmost.simps) (simp add: store_simps zrep_right)
next
  case (2 fs l a k w)
  then show ?case using zrep_node [OF 2(1)]
    by (subst go_rightmost.simps) (simp add: store_simps)
qed simp

lemma ptr_of_plug: "ptr_of u' = ptr_of u \<Longrightarrow> ptr_of (plug fs u') = ptr_of (plug fs u)"
proof (induction fs arbitrary: u u')
  case (Cons f fs)
  then show ?case by (cases f) auto
qed simp

lemma delete_swap_zrep:
  assumes Z: "zrep st rt fs (Nd l x k w r)" and nt: "l \<noteq> Tip" "r \<noteq> Tip"
  shows "\<exists>ys yl y ky yw st'. l = plug ys (Nd yl y ky yw Tip) \<and> keys_r ys = [] \<and>
     delete_swap (Some x) st = Some (Some y, st') \<and> same_mem st st' \<and>
     zrep st' rt (ys @ FL x ky (dec w) r # fs) (Nd yl y k yw Tip)"
proof -
  obtain ys yl y ky yw where
    l: "l = plug ys (Nd yl y ky yw Tip)" and kr: "keys_r ys = []"
    and rm: "snd (rmost (FL x k w r # fs) l) = Nd yl y ky yw Tip"
    using rmost_props [OF nt(1), of "FL x k w r # fs"] by auto
  have ycell: "zrep st rt (ys @ FL x k w r # fs) (Nd yl y ky yw Tip)"
    using Z by (simp add: zrep_append zrep_left flip: l)
  then have xy: "x \<noteq> y" by (auto simp: zrep_def)
  let ?p = "Some (cpar rt fs)"
  define l' where "l' = plug ys (Nd yl y k yw Tip)"
  have p: "ptr_of l' = ptr_of l"
    unfolding l l'_def by (rule ptr_of_plug) simp
  let ?st1 = "st\<lparr>cells := (cells st)(x \<mapsto> node ky (ptr_of l) (ptr_of r) ?p w)\<rparr>"
  have Z1: "zrep ?st1 rt (ys @ FL x ky w r # fs) (Nd yl y ky yw Tip)"
    using zrep_set_key [OF Z, of ky w] by (simp add: zrep_append zrep_left flip: l)
  let ?q = "Some (cpar rt (ys @ FL x ky w r # fs))"
  let ?st2 = "?st1\<lparr>cells := (cells ?st1)(y \<mapsto> node k (ptr_of yl) None ?q yw)\<rparr>"
  have Z2: "zrep ?st2 rt fs (Nd l' x ky w r)"
    using zrep_set_key [OF Z1, of k yw] by (simp add: zrep_append zrep_left l'_def)
  let ?st3 = "?st2\<lparr>cells := (cells ?st2)(x \<mapsto> node ky (ptr_of l) (ptr_of r) ?p (dec w))\<rparr>"
  have Z3: "zrep ?st3 rt (ys @ FL x ky (dec w) r # fs) (Nd yl y k yw Tip)"
    using zrep_set_word [OF Z2, of "dec w"] by (simp add: zrep_append zrep_left l'_def [symmetric] p)
  have "go_rightmost (ptr_of l) st = Some (Some y)"
    using go_rightmost_zrep [of st rt "FL x k w r # fs" l] Z nt(1) rm by (simp add: zrep_left)
  then have "delete_swap (Some x) st = Some (Some y, ?st3)"
    using zrep_node [OF Z] zrep_node [OF ycell] xy nt
    by (simp add: delete_swap_def store_simps dec_def)
  then show ?thesis using Z3 l kr
    by (intro exI [of _ ys] exI [of _ yl] exI [of _ y] exI [of _ ky] exI [of _ yw] exI [of _ ?st3])
      (simp add: same_mem_def)
qed

subsection \<open>Taking out a node with at most one child\<close>

fun side_of :: "'k frame list \<Rightarrow> int" where
  "side_of (FL a k w r # fs) = -1"
| "side_of fs = 1"

text \<open>The only child points to its new parent; the node itself is still linked in.\<close>

definition splicing :: "'k store \<Rightarrow> addr \<Rightarrow> 'k frame list \<Rightarrow> addr \<Rightarrow> 'k avl_node \<Rightarrow> 'k atree \<Rightarrow> bool" where
  "splicing st rt fs x n c \<longleftrightarrow>
     crep (cells st) rt fs (Some x) \<and> cells st x = Some n \<and> rep (cells st) (Some (cpar rt fs)) c \<and>
     distinct (rt # faddrs fs @ x # addrs c) \<and>
     dom (cells st) = set (rt # faddrs fs @ x # addrs c) \<and> (\<forall>b \<in> dom (cells st). b < brk st)"

lemma splicing_child:
  assumes Z: "zrep st rt fs (Nd l x k w r)" and tip: "l = Tip \<or> r = Tip"
  defines "c \<equiv> (if l \<noteq> Tip then l else r)"
  shows "\<exists>st'. (case ptr_of c of None \<Rightarrow> Some st | Some a \<Rightarrow>
       wr st (Some a) (parent_update (\<lambda>_. Some (cpar rt fs)))) = Some st' \<and>
     splicing st' rt fs x (node k (ptr_of l) (ptr_of r) (Some (cpar rt fs)) w) c \<and> same_mem st st'"
proof (cases c)
  case Tip
  then have "l = Tip" "r = Tip" using tip by (auto simp: c_def split: if_splits)
  then show ?thesis using Z by (auto simp: zrep_def splicing_def c_def)
next
  case (Nd cl ca ck cw cr)
  let ?n = "node ck (ptr_of cl) (ptr_of cr) (Some (cpar rt fs)) cw"
  let ?st = "st\<lparr>cells := (cells st)(ca \<mapsto> ?n)\<rparr>"
  have D: "distinct (rt # faddrs fs @ x # addrs c)"
    "set (rt # faddrs fs @ addrs (Nd l x k w r)) = set (rt # faddrs fs @ x # addrs c)"
    using zrep_distinct [OF Z] tip by (auto simp: c_def)
  then have ca: "ca \<noteq> rt" "ca \<noteq> x" "ca \<notin> set (faddrs fs)" "ca \<notin> set (addrs cl)" "ca \<notin> set (addrs cr)"
    by (auto simp: Nd)
  have c: "rep (cells st) (Some x) c" using Z by (simp add: zrep_def c_def)
  then have ccell: "cells st ca = Some (node ck (ptr_of cl) (ptr_of cr) (Some x) cw)"
    by (simp add: Nd)
  have "splicing ?st rt fs x (node k (ptr_of l) (ptr_of r) (Some (cpar rt fs)) w) c"
    unfolding splicing_def
  proof (intro conjI)
    have dom: "dom (cells ?st) = dom (cells st)" using ccell by auto
    show "dom (cells ?st) = set (rt # faddrs fs @ x # addrs c)"
      using Z unfolding zrep_def dom D(2) by simp
    show "\<forall>b\<in>dom (cells ?st). b < brk ?st"
      using Z unfolding dom by (simp add: zrep_def)
  qed (use Z D(1) ca c Nd in \<open>simp_all add: zrep_def\<close>)
  then show ?thesis using ccell Nd
    by (intro exI [of _ ?st]) (simp add: store_simps same_mem_def)
qed

lemma splicing_done:
  assumes "splicing st rt fs x (node k lp rp (Some (cpar rt fs)) w) c"
  shows "\<exists>pn st1 st2. rd st (Some (cpar rt fs)) = Some pn \<and>
     (Some x = left pn \<longleftrightarrow> side_of fs = -1) \<and>
     wr st (Some (cpar rt fs)) (if side_of fs = -1 then left_update (\<lambda>_. ptr_of c)
       else right_update (\<lambda>_. ptr_of c)) = Some st1 \<and>
     rd st1 (Some x) = rd st (Some x) \<and> free_node st1 (Some x) = Some st2 \<and>
     zrep st2 rt fs c \<and> same_mem st st2"
proof (cases fs rule: faddrs.cases)
  case 1
  then show ?thesis using assms
    by (auto simp: splicing_def zrep_def free_node_def store_simps same_mem_def)
next
  case (2 a k' w' r fs')
  then show ?thesis using assms
    by (simp add: splicing_def zrep_def free_node_def store_simps same_mem_def, elim conjE)
      (intro conjI; (fastforce simp only: insert_iff Diff_iff Un_iff set_eq_iff simp_thms)?)
next
  case (3 l a k' w' fs')
  have "ptr_of l \<noteq> Some x"
    using assms 3 ptr_of_Some_in [of l x] by (auto simp: splicing_def)
  then show ?thesis using assms 3
    by (simp add: splicing_def zrep_def free_node_def store_simps same_mem_def, elim conjE)
      (intro conjI; (fastforce simp only: insert_iff Diff_iff Un_iff set_eq_iff simp_thms)?)
qed

lemma delete_splice_zrep:
  assumes Z: "zrep st rt fs (Nd l x k w r)" and tip: "l = Tip \<or> r = Tip"
  shows "\<exists>st'. delete_splice (Some x) st = Some (Some (cpar rt fs), side_of fs, Some k, st') \<and>
     zrep st' rt fs (if l \<noteq> Tip then l else r) \<and> same_mem st st'"
proof -
  let ?c = "if l \<noteq> Tip then l else r"
  let ?n = "node k (ptr_of l) (ptr_of r) (Some (cpar rt fs)) w"
  obtain st0 where 0: "(case ptr_of ?c of None \<Rightarrow> Some st | Some a \<Rightarrow>
       wr st (Some a) (parent_update (\<lambda>_. Some (cpar rt fs)))) = Some st0"
      "splicing st0 rt fs x ?n ?c" "same_mem st st0"
    using splicing_child [OF assms] by blast
  obtain pn st1 st2 where 1: "rd st0 (Some (cpar rt fs)) = Some pn"
      "Some x = left pn \<longleftrightarrow> side_of fs = -1"
      "wr st0 (Some (cpar rt fs)) (if side_of fs = -1 then left_update (\<lambda>_. ptr_of ?c)
         else right_update (\<lambda>_. ptr_of ?c)) = Some st1"
      "rd st1 (Some x) = rd st0 (Some x)" "free_node st1 (Some x) = Some st2"
      "zrep st2 rt fs ?c" "same_mem st0 st2"
    using splicing_done [OF 0(2)] by (elim exE conjE) (rule that)
  have x: "rd st (Some x) = Some ?n" "rd st0 (Some x) = Some ?n"
    using zrep_node [OF Z] 0(2) by (simp_all add: store_simps splicing_def)
  have s: "side_of fs \<noteq> -1 \<Longrightarrow> side_of fs = 1"
    by (cases fs rule: side_of.cases) auto
  have pn: "rd st0 (parent ?n) = Some pn" using 1(1) by simp
  have a: "Some x = left pn \<Longrightarrow> wr st0 (Some (cpar rt fs)) (left_update (\<lambda>_. ptr_of ?c)) = Some st1 \<and> side_of fs = -1"
    "Some x \<noteq> left pn \<Longrightarrow> wr st0 (Some (cpar rt fs)) (right_update (\<lambda>_. ptr_of ?c)) = Some st1 \<and> side_of fs = 1"
    using 1(2,3) s by (simp_all split: if_splits)
  have child: "(if left ?n \<noteq> None then
        Option.bind (wr st (left ?n) (parent_update (\<lambda>_. parent ?n))) (\<lambda>st. Some (left ?n, st))
      else if right ?n \<noteq> None then
        Option.bind (wr st (right ?n) (parent_update (\<lambda>_. parent ?n))) (\<lambda>st. Some (right ?n, st))
      else Some (None, st)) = Some (ptr_of ?c, st0)"
    using 0(1) by (cases l; cases r) simp_all
  have "delete_splice (Some x) st = Some (Some (cpar rt fs), side_of fs, Some k, st2)"
    unfolding delete_splice_def x(1) bind.bind_lunit child 
    using x(2) 1(4,5) pn a
    by (cases "Some x = left pn") (simp_all del: not_None_eq not_Some_eq)
  then show ?thesis using 1(6) same_mem_trans [OF 0(3) 1(7)] by auto
qed

end
