(* ===== verification/Avl_Delete_Correct.thy ===== *)
theory Avl_Delete_Correct
  imports Avl_Delete_Climb
begin

section \<open>Correctness of the deletion\<close>

text \<open>
  One round of the climb for each side, the climb by induction on the frames above the
  shortened subtree, and \<open>avl_delete\<close> as a whole: on a hit one equal key leaves the tree, is
  freed exactly once, and the AVL and rank invariants hold again; on a miss the keys stay and -1
  is returned.
\<close>

subsection \<open>One round of the climb\<close>

text \<open>What a round makes of the tree \<open>U\<close> whose one child is one lower than its balance says.\<close>

definition round_ok ::
    "'k store \<Rightarrow> addr \<Rightarrow> 'k frame list \<Rightarrow> 'k atree \<Rightarrow> nat \<Rightarrow> (bool \<times> ptr \<times> 'k store) option \<Rightarrow> bool" where
  "round_ok st rt fs U h res \<longleftrightarrow>
     (\<exists>sh u st'. res = Some (sh, ptr_of u, st') \<and> zrep st' rt fs u \<and> u \<noteq> Tip \<and> same_mem st st' \<and>
        keys u = keys U \<and> (ranked U \<longrightarrow> ranked u) \<and> balanced u \<and>
        h = ht u + (if sh then 1 else 0))"

lemma delete_step_left:
  assumes Z: "zrep st rt fs (Nd c a k w R)" and b: "balanced c" "balanced R"
    "bal_of w = int (ht R) - int (Suc (ht c))" "bal_of w \<in> {-1, 0, 1}"
  shows "round_ok st rt fs (Nd c a k w R) (Suc (max (Suc (ht c)) (ht R))) (delete_step (Some a) (-1) st)"
proof -
  let ?U = "Nd c a k w R"
  have cell: "cells st a = Some (node k (ptr_of c) (ptr_of R) (Some (cpar rt fs)) w)"
    using Z by (rule zrep_node)
  let ?set = "\<lambda>b. st\<lparr>cells := (cells st)(a \<mapsto>
    node k (ptr_of c) (ptr_of R) (Some (cpar rt fs)) (set_bal w b))\<rparr>"
  have set: "zrep (?set b) rt fs (Nd c a k (set_bal w b) R)" for b
    using Z by (rule zrep_set_word)
  consider "bal_of w = 0" | "bal_of w = -1" | "bal_of w = 1"
    using b(4) by auto
  then show ?thesis
  proof cases
    case 1
    have "delete_step (Some a) (-1) st = Some (False, Some a, ?set 1)"
      using cell 1 by (simp add: delete_step_def store_simps)
    then show ?thesis using set [of 1] 1 b unfolding round_ok_def
      by (intro exI [of _ False] exI [of _ "Nd c a k (set_bal w 1) R"] exI [of _ "?set 1"])
        (auto simp: bits_simps same_mem_def)
  next
    case 2
    have "delete_step (Some a) (-1) st = Some (True, Some a, ?set 0)"
      using cell 2 by (simp add: delete_step_def store_simps)
    then show ?thesis using set [of 0] 2 b unfolding round_ok_def
      by (intro exI [of _ True] exI [of _ "Nd c a k (set_bal w 0) R"] exI [of _ "?set 0"])
        (auto simp: bits_simps same_mem_def)
  next
    case 3
    then obtain B q kq u D where R: "R = Nd B q kq u D"
      using b(3) by (cases R) auto
    have D: "drep st rt fs (Some a) (Some (cpar rt fs)) (Nd c a k w (Nd B q kq u D))"
      using Z by (simp add: zrep_drep R)
    have qcell: "rd st (Some q) = Some (node kq (ptr_of B) (ptr_of D) (Some a) u)"
      using Z R by (simp add: zrep_def store_simps)
    consider "bal_of u = 0" | "bal_of u = 1" | "bal_of u = -1"
      using b(2) R by auto
    then show ?thesis
    proof cases
      case 1
      let ?u = "rot_left 1 (-1) c a k w B q kq u D"
      obtain st1 st2 where r: "Option.bind (delete_single_rotation (-1) (Some a) (Some q) st)
         (\<lambda>st. Option.bind (wr st (Some q) (AVL_SET_BALANCE (-1)))
            (\<lambda>st. wr st (Some a) (AVL_SET_BALANCE 1))) = Some st1"
        "delete_relink (Some (cpar rt fs)) (Some a) (Some q) st1 = Some st2"
        "zrep st2 rt fs ?u" "same_mem st st2"
        using delete_single_left [OF D, of "-1" 1] delete_relink_zrep [of _ rt fs a ?u q]
        by (force simp: rot_defs intro: same_mem_trans)
      have "delete_step (Some a) (-1) st = Some (False, Some q, st2)"
        using r(1,2) cell qcell 3 1 R by (auto simp: delete_step_def store_simps bind_eq_Some_conv)
      moreover have "balanced ?u" "ht ?u = Suc (max (Suc (ht c)) (ht R))"
        using b R 1 3 by (auto simp: balanced_rot)
      moreover have "ranked ?U \<longrightarrow> ranked ?u" "keys ?u = keys ?U"
        using R by (auto simp: keys_rot intro: ranked_rot)
      moreover have "ptr_of ?u = Some q" "?u \<noteq> Tip"
        by (simp_all add: rot_defs)
      ultimately show ?thesis using r(3,4) unfolding round_ok_def
        by (intro exI [of _ False] exI [of _ ?u] exI [of _ st2]) simp
    next
      case 2
      let ?u = "rot_left 0 0 c a k w B q kq u D"
      obtain st1 st2 where r: "Option.bind (delete_single_rotation (-1) (Some a) (Some q) st)
         (\<lambda>st. Option.bind (wr st (Some q) (AVL_SET_BALANCE 0))
            (\<lambda>st. wr st (Some a) (AVL_SET_BALANCE 0))) = Some st1"
        "delete_relink (Some (cpar rt fs)) (Some a) (Some q) st1 = Some st2"
        "zrep st2 rt fs ?u" "same_mem st st2"
        using delete_single_left [OF D, of 0 0] delete_relink_zrep [of _ rt fs a ?u q]
        by (force simp: rot_defs intro: same_mem_trans)
      have "delete_step (Some a) (-1) st = Some (True, Some q, st2)"
        using r(1,2) cell qcell 3 2 R by (auto simp: delete_step_def store_simps bind_eq_Some_conv)
      moreover have "balanced ?u" "Suc (max (Suc (ht c)) (ht R)) = ht ?u + 1"
        using b R 2 3 by (auto simp: balanced_rot)
      moreover have "ranked ?U \<longrightarrow> ranked ?u" "keys ?u = keys ?U"
        using R by (auto simp: keys_rot intro: ranked_rot)
      moreover have "ptr_of ?u = Some q" "?u \<noteq> Tip"
        by (simp_all add: rot_defs)
      ultimately show ?thesis using r(3,4) unfolding round_ok_def
        by (intro exI [of _ True] exI [of _ ?u] exI [of _ st2]) simp
    next
      case d: 3
      with b(2) R obtain B1 p kp v C where B: "B = Nd B1 p kp v C"
        by (cases B) auto
      let ?u = "rot_double_left c a k w B1 p kp v C q kq u D"
      obtain st1 st2 where r: "delete_double_rotation (-1) (Some a) (Some q) st = Some (Some p, st1)"
        "delete_relink (Some (cpar rt fs)) (Some a) (Some p) st1 = Some st2"
        "zrep st2 rt fs ?u" "same_mem st st2"
        using delete_double_left [OF D [unfolded B]] delete_relink_zrep [of _ rt fs a ?u p]
        by (force simp: rot_defs intro: same_mem_trans)
      have "delete_step (Some a) (-1) st = Some (True, Some p, st2)"
        using r(1,2) cell qcell 3 d R by (auto simp: delete_step_def store_simps)
      moreover have "balanced ?u" "Suc (max (Suc (ht c)) (ht R)) = ht ?u + 1"
        using b R B d 3 by (auto simp: balanced_rot)
      moreover have "ranked ?U \<longrightarrow> ranked ?u" "keys ?u = keys ?U"
        using R B by (auto simp: keys_rot intro: ranked_rot)
      moreover have "ptr_of ?u = Some p" "?u \<noteq> Tip"
        by (simp_all add: rot_defs)
      ultimately show ?thesis using r(3,4) unfolding round_ok_def
        by (intro exI [of _ True] exI [of _ ?u] exI [of _ st2]) simp
    qed
  qed
qed

lemma delete_step_right:
  assumes Z: "zrep st rt fs (Nd L a k w c)" and b: "balanced c" "balanced L"
    "bal_of w = int (Suc (ht c)) - int (ht L)" "bal_of w \<in> {-1, 0, 1}"
  shows "round_ok st rt fs (Nd L a k w c) (Suc (max (ht L) (Suc (ht c)))) (delete_step (Some a) 1 st)"
proof -
  let ?U = "Nd L a k w c"
  have cell: "cells st a = Some (node k (ptr_of L) (ptr_of c) (Some (cpar rt fs)) w)"
    using Z by (rule zrep_node)
  let ?set = "\<lambda>b. st\<lparr>cells := (cells st)(a \<mapsto>
    node k (ptr_of L) (ptr_of c) (Some (cpar rt fs)) (set_bal w b))\<rparr>"
  have set: "zrep (?set b) rt fs (Nd L a k (set_bal w b) c)" for b
    using Z by (rule zrep_set_word)
  consider "bal_of w = 0" | "bal_of w = 1" | "bal_of w = -1"
    using b(4) by auto
  then show ?thesis
  proof cases
    case 1
    have "delete_step (Some a) 1 st = Some (False, Some a, ?set (-1))"
      using cell 1 by (simp add: delete_step_def store_simps)
    then show ?thesis using set [of "-1"] 1 b unfolding round_ok_def
      by (intro exI [of _ False] exI [of _ "Nd L a k (set_bal w (-1)) c"] exI [of _ "?set (-1)"])
        (auto simp: bits_simps same_mem_def)
  next
    case 2
    have "delete_step (Some a) 1 st = Some (True, Some a, ?set 0)"
      using cell 2 by (simp add: delete_step_def store_simps)
    then show ?thesis using set [of 0] 2 b unfolding round_ok_def
      by (intro exI [of _ True] exI [of _ "Nd L a k (set_bal w 0) c"] exI [of _ "?set 0"])
        (auto simp: bits_simps same_mem_def)
  next
    case 3
    then obtain B q kq u D where L: "L = Nd D q kq u B"
      using b(3) by (cases L) auto
    have D: "drep st rt fs (Some a) (Some (cpar rt fs)) (Nd (Nd D q kq u B) a k w c)"
      using Z by (simp add: zrep_drep L)
    have qcell: "rd st (Some q) = Some (node kq (ptr_of D) (ptr_of B) (Some a) u)"
      using Z L by (simp add: zrep_def store_simps)
    consider "bal_of u = 0" | "bal_of u = -1" | "bal_of u = 1"
      using b(2) L by auto
    then show ?thesis
    proof cases
      case 1
      let ?u = "rot_right 1 (-1) D q kq u B a k w c"
      obtain st1 st2 where r: "Option.bind (delete_single_rotation 1 (Some a) (Some q) st)
         (\<lambda>st. Option.bind (wr st (Some q) (AVL_SET_BALANCE 1))
            (\<lambda>st. wr st (Some a) (AVL_SET_BALANCE (-1)))) = Some st1"
        "delete_relink (Some (cpar rt fs)) (Some a) (Some q) st1 = Some st2"
        "zrep st2 rt fs ?u" "same_mem st st2"
        using delete_single_right [OF D, of 1 "-1"] delete_relink_zrep [of _ rt fs a ?u q]
        by (force simp: rot_defs Let_def intro: same_mem_trans)
      have "delete_step (Some a) 1 st = Some (False, Some q, st2)"
        using r(1,2) cell qcell 3 1 L by (auto simp: delete_step_def store_simps bind_eq_Some_conv)
      moreover have "balanced ?u" "ht ?u = Suc (max (ht L) (Suc (ht c)))"
        using b L 1 3 by (auto simp: balanced_rot)
      moreover have "ranked ?U \<longrightarrow> ranked ?u" "keys ?u = keys ?U"
        using L by (auto simp: keys_rot intro: ranked_rot)
      moreover have "ptr_of ?u = Some q" "?u \<noteq> Tip"
        by (simp_all add: rot_defs Let_def)
      ultimately show ?thesis using r(3,4) unfolding round_ok_def
        by (intro exI [of _ False] exI [of _ ?u] exI [of _ st2]) simp
    next
      case 2
      let ?u = "rot_right 0 0 D q kq u B a k w c"
      obtain st1 st2 where r: "Option.bind (delete_single_rotation 1 (Some a) (Some q) st)
         (\<lambda>st. Option.bind (wr st (Some q) (AVL_SET_BALANCE 0))
            (\<lambda>st. wr st (Some a) (AVL_SET_BALANCE 0))) = Some st1"
        "delete_relink (Some (cpar rt fs)) (Some a) (Some q) st1 = Some st2"
        "zrep st2 rt fs ?u" "same_mem st st2"
        using delete_single_right [OF D, of 0 0] delete_relink_zrep [of _ rt fs a ?u q]
        by (force simp: rot_defs Let_def intro: same_mem_trans)
      have "delete_step (Some a) 1 st = Some (True, Some q, st2)"
        using r(1,2) cell qcell 3 2 L by (auto simp: delete_step_def store_simps bind_eq_Some_conv)
      moreover have "balanced ?u" "Suc (max (ht L) (Suc (ht c))) = ht ?u + 1"
        using b L 2 3 by (auto simp: balanced_rot)
      moreover have "ranked ?U \<longrightarrow> ranked ?u" "keys ?u = keys ?U"
        using L by (auto simp: keys_rot intro: ranked_rot)
      moreover have "ptr_of ?u = Some q" "?u \<noteq> Tip"
        by (simp_all add: rot_defs Let_def)
      ultimately show ?thesis using r(3,4) unfolding round_ok_def
        by (intro exI [of _ True] exI [of _ ?u] exI [of _ st2]) simp
    next
      case d: 3
      with b(2) L obtain B1 p kp v C where B: "B = Nd B1 p kp v C"
        by (cases B) auto
      let ?u = "rot_double_right D q kq u B1 p kp v C a k w c"
      obtain st1 st2 where r: "delete_double_rotation 1 (Some a) (Some q) st = Some (Some p, st1)"
        "delete_relink (Some (cpar rt fs)) (Some a) (Some p) st1 = Some st2"
        "zrep st2 rt fs ?u" "same_mem st st2"
        using delete_double_right [OF D [unfolded B]] delete_relink_zrep [of _ rt fs a ?u p]
        by (force simp: rot_defs Let_def intro: same_mem_trans)
      have "delete_step (Some a) 1 st = Some (True, Some p, st2)"
        using r(1,2) cell qcell 3 d L by (auto simp: delete_step_def store_simps)
      moreover have "balanced ?u" "Suc (max (ht L) (Suc (ht c))) = ht ?u + 1"
        using b L B d 3 by (auto simp: balanced_rot)
      moreover have "ranked ?U \<longrightarrow> ranked ?u" "keys ?u = keys ?U"
        using L B by (auto simp: keys_rot intro: ranked_rot)
      moreover have "ptr_of ?u = Some p" "?u \<noteq> Tip"
        by (simp_all add: rot_defs Let_def)
      ultimately show ?thesis using r(3,4) unfolding round_ok_def
        by (intro exI [of _ True] exI [of _ ?u] exI [of _ st2]) simp
    qed
  qed
qed


subsection \<open>The climb\<close>

lemma delete_step_frame:
  assumes "zrep st rt (f # fs) c" and "balanced (plug1 f c0)" and "balanced c" and "ht c0 = Suc (ht c)"
  shows "round_ok st rt fs (plug1 f c) (ht (plug1 f c0))
     (delete_step (Some (cpar rt (f # fs))) (side_of (f # fs)) st)"
proof (cases f)
  case (FL a k w r)
  then show ?thesis
    using assms delete_step_left [of st rt fs c a k w r] by (auto simp: zrep_left)
next
  case (FR l a k w)
  then show ?thesis
    using assms delete_step_right [of st rt fs l a k w c] by (auto simp: zrep_right)
qed

lemma rd_cpar:
  assumes "zrep st rt fs (Nd l x k w r)"
  shows "\<exists>pn. rd st (Some (cpar rt fs)) = Some pn \<and> (Some x = left pn \<longleftrightarrow> side_of fs = -1) \<and>
     (parent pn = None \<longleftrightarrow> fs = [])"
  using assms ptr_of_Some_in [OF sym, of x]
  by (cases fs rule: faddrs.cases) (auto simp: zrep_def store_simps)

lemma rd_cpar_parent:
  assumes "zrep st rt fs u"
  shows "\<exists>pn. rd st (Some (cpar rt fs)) = Some pn \<and> (parent pn = None \<longleftrightarrow> fs = [])"
  using assms by (cases fs rule: faddrs.cases) (auto simp: zrep_def store_simps)

lemma delete_climb_stop: "delete_climb False p side st = Some st"
  by (subst delete_climb.simps) simp

lemma side_of_if: "(if side_of fs = -1 then -1 else 1) = side_of fs"
  by (cases fs rule: side_of.cases) auto

lemma delete_climb_round:
  assumes "zrep st rt (f # fs) c" and "delete_step (Some (cpar rt (f # fs))) (side_of (f # fs)) st = Some (sh, ptr_of u, st1)"
    and "zrep st1 rt fs u" and "u \<noteq> Tip"
  shows "delete_climb True (Some (cpar rt (f # fs))) (side_of (f # fs)) st =
     delete_climb sh (Some (cpar rt fs)) (side_of fs) st1"
proof -
  obtain l x k w r where u: "u = Nd l x k w r" using assms(4) by (cases u) auto
  obtain pn where pn: "rd st (Some (cpar rt (f # fs))) = Some pn" "parent pn \<noteq> None"
    using rd_cpar_parent [OF assms(1)] by blast
  obtain pn1 where pn1: "rd st1 (Some (cpar rt fs)) = Some pn1" "Some x = left pn1 \<longleftrightarrow> side_of fs = -1"
    using rd_cpar [OF assms(3) [unfolded u]] by blast
  have xn: "rd st1 (Some x) = Some (node k (ptr_of l) (ptr_of r) (Some (cpar rt fs)) w)"
    using zrep_node [OF assms(3) [unfolded u]] by (simp add: store_simps)
  have side: "(if Some x = left pn1 then -1 else 1) = side_of fs"
    unfolding pn1(2) by (rule side_of_if)
  show ?thesis
    using pn assms(2) xn pn1(1) side
    by (subst delete_climb.simps) (auto simp: Let_def u)
qed

lemma delete_climb_zrep:
  assumes "zrep st rt fs c" and "balanced (plug fs c0)" and "balanced c" and "ht c0 = Suc (ht c)"
  shows "\<exists>st' T'. delete_climb True (Some (cpar rt fs)) (side_of fs) st = Some st' \<and>
     zrep st' rt [] T' \<and> same_mem st st' \<and> keys T' = keys (plug fs c) \<and> balanced T' \<and>
     (ranked (plug fs c) \<longrightarrow> ranked T') \<and> (ht T' = ht (plug fs c0) \<or> Suc (ht T') = ht (plug fs c0))"
  using assms
proof (induction fs arbitrary: st c c0)
  case Nil
  have "delete_climb True (Some rt) 1 st = Some st"
    using rd_cpar_parent [OF Nil(1)] by (subst delete_climb.simps) auto
  then show ?case using Nil by auto
next
  case (Cons f fs)
  let ?U = "plug1 f c"
  have bal: "balanced (plug fs (plug1 f c0))" using Cons.prems(2) by simp
  obtain sh u st1 where 1: "delete_step (Some (cpar rt (f # fs))) (side_of (f # fs)) st = Some (sh, ptr_of u, st1)"
      "zrep st1 rt fs u" "u \<noteq> Tip" "same_mem st st1" "keys u = keys ?U" "ranked ?U \<longrightarrow> ranked u"
      "balanced u" "ht (plug1 f c0) = ht u + (if sh then 1 else 0)"
    using delete_step_frame [OF Cons.prems(1) balanced_plugD [OF bal] Cons.prems(3,4)]
    unfolding round_ok_def by blast
  note round = delete_climb_round [OF Cons.prems(1) 1(1-3)]
  have keys: "keys (plug fs u) = keys (plug fs ?U)"
    using 1(5) by (simp add: keys_plug)
  have ranked: "ranked (plug fs ?U) \<longrightarrow> ranked (plug fs u)"
    using ranked_plug_replace [of fs ?U u] ranked_plugD [of fs ?U] 1(5,6) by auto
  show ?case
  proof (cases sh)
    case True
    obtain st' T' where "delete_climb True (Some (cpar rt fs)) (side_of fs) st1 = Some st'"
      "zrep st' rt [] T'" "same_mem st1 st'" "keys T' = keys (plug fs u)" "balanced T'"
      "ranked (plug fs u) \<longrightarrow> ranked T'"
      "ht T' = ht (plug fs (plug1 f c0)) \<or> Suc (ht T') = ht (plug fs (plug1 f c0))"
      using Cons.IH [OF 1(2) bal 1(7)] 1(8) True by auto
    then show ?thesis using round keys ranked same_mem_trans [OF 1(4)] True by auto
  next
    case False
    then show ?thesis
      using round delete_climb_stop 1(2,4,7,8) zrep_plug [of st1 rt fs u] keys ranked
        balanced_plug_replace [OF bal 1(7)] by auto
  qed
qed


subsection \<open>The whole deletion\<close>

text \<open>Splice and climb: the node at the position leaves the tree.\<close>

lemma delete_splice_climb:
  assumes Z: "zrep st rt fs (Nd l x k w r)" and tip: "l = Tip \<or> r = Tip"
    and b: "balanced (plug fs (Nd l x k w r))"
  shows "\<exists>st1 st' T'. delete_splice (Some x) st = Some (Some (cpar rt fs), side_of fs, Some k, st1) \<and>
     delete_climb True (Some (cpar rt fs)) (side_of fs) st1 = Some st' \<and>
     zrep st' rt [] T' \<and> same_mem st st' \<and> keys T' = keys_l fs @ keys l @ keys r @ keys_r fs \<and>
     balanced T' \<and> (ranked (plug fs (if l \<noteq> Tip then l else r)) \<longrightarrow> ranked T')"
proof -
  let ?c = "if l \<noteq> Tip then l else r"
  obtain st1 where 1: "delete_splice (Some x) st = Some (Some (cpar rt fs), side_of fs, Some k, st1)"
      "zrep st1 rt fs ?c" "same_mem st st1"
    using delete_splice_zrep [OF Z tip] by blast
  have c: "balanced ?c" "ht (Nd l x k w r) = Suc (ht ?c)"
    using balanced_plugD [OF b] tip by auto
  obtain st' T' where 2: "delete_climb True (Some (cpar rt fs)) (side_of fs) st1 = Some st'"
      "zrep st' rt [] T'" "same_mem st1 st'" "keys T' = keys (plug fs ?c)" "balanced T'"
      "ranked (plug fs ?c) \<longrightarrow> ranked T'"
    using delete_climb_zrep [OF 1(2) b c] by blast
  have "keys ?c = keys l @ keys r" using tip by auto
  then show ?thesis using 1(1) 2 same_mem_trans [OF 1(3) 2(3)]
    by (auto simp: keys_plug)
qed

text \<open>From the position of the node with the key, which may have two children.\<close>

lemma delete_at:
  assumes Z: "zrep st rt fs (Nd l a k w r)" and b: "balanced (plug fs (Nd l a k w r))"
  shows "\<exists>x st1 p side st2 st' T'. delete_swap (Some a) st = Some (x, st1) \<and>
     delete_splice x st1 = Some (p, side, Some k, st2) \<and> delete_climb True p side st2 = Some st' \<and>
     zrep st' rt [] T' \<and> same_mem st st' \<and> keys T' = keys_l fs @ keys l @ keys r @ keys_r fs \<and>
     balanced T' \<and>
     (ranked (Nd l a k w r) \<and>
      (\<forall>U'. ranked U' \<longrightarrow> length (keys (Nd l a k w r)) = Suc (length (keys U')) \<longrightarrow> ranked (plug fs U'))
      \<longrightarrow> ranked T')"
proof (cases "l \<noteq> Tip \<and> r \<noteq> Tip")
  case False
  then have swap: "delete_swap (Some a) st = Some (Some a, st)"
    using zrep_node [OF Z] by (auto simp: delete_swap_def store_simps)
  have "l = Tip \<or> r = Tip" using False by blast
  from delete_splice_climb [OF Z this b] obtain st1 st' T' where
    1: "delete_splice (Some a) st = Some (Some (cpar rt fs), side_of fs, Some k, st1)"
       "delete_climb True (Some (cpar rt fs)) (side_of fs) st1 = Some st'"
       "zrep st' rt [] T'" "same_mem st st'" "keys T' = keys_l fs @ keys l @ keys r @ keys_r fs"
       "balanced T'" "ranked (plug fs (if l \<noteq> Tip then l else r)) \<longrightarrow> ranked T'"
    by blast
  have "ranked (if l \<noteq> Tip then l else r)" if "ranked (Nd l a k w r)"
    using that by auto
  moreover have "length (keys (Nd l a k w r)) = Suc (length (keys (if l \<noteq> Tip then l else r)))"
    using False by auto
  ultimately show ?thesis using swap 1 by blast
next
  case True
  then obtain ys yl y ky yw st0 where
    l: "l = plug ys (Nd yl y ky yw Tip)" and kr: "keys_r ys = []"
    and sw: "delete_swap (Some a) st = Some (Some y, st0)" "same_mem st st0"
    and Z0: "zrep st0 rt (ys @ FL a ky (dec w) r # fs) (Nd yl y k yw Tip)"
    using delete_swap_zrep [OF Z] by blast
  let ?fs = "ys @ FL a ky (dec w) r # fs"
  have "balanced (Nd l a ky (dec w) r)" and "ht (Nd l a ky (dec w) r) = ht (Nd l a k w r)"
    using balanced_plugD [OF b] by (auto simp: bits_simps)
  then have b1: "balanced (plug fs (Nd l a ky (dec w) r))"
    using balanced_plug_replace [OF b] by blast
  then have b1: "balanced (plug ?fs (Nd yl y ky yw Tip))" by (simp add: l)
  have b2: "balanced (plug ?fs (Nd yl y k yw Tip))"
    using balanced_plug_replace [OF b1, of "Nd yl y k yw Tip"] balanced_plugD [OF b1] by auto
  obtain st1 st' T' where
    1: "delete_splice (Some y) st0 = Some (Some (cpar rt ?fs), side_of ?fs, Some k, st1)"
       "delete_climb True (Some (cpar rt ?fs)) (side_of ?fs) st1 = Some st'"
       "zrep st' rt [] T'" "same_mem st0 st'" "keys T' = keys_l ?fs @ keys yl @ keys_r ?fs"
       "balanced T'" "ranked (plug ?fs yl) \<longrightarrow> ranked T'"
    using delete_splice_climb [OF Z0 _ b2] by (cases "yl = Tip") auto
  have keys_app: "keys_l (ps @ qs) = keys_l qs @ keys_l ps" "keys_r (ps @ qs) = keys_r ps @ keys_r qs"
    for ps qs :: "'a frame list"
    by (induction ps rule: keys_l.induct) auto
  have keys: "keys T' = keys_l fs @ keys l @ keys r @ keys_r fs"
    using 1(5) kr by (simp add: keys_app l keys_plug)
  have "ranked (plug ?fs yl)" if R: "ranked (Nd l a k w r)"
    and P: "\<forall>U'. ranked U' \<longrightarrow> length (keys (Nd l a k w r)) = Suc (length (keys U')) \<longrightarrow> ranked (plug fs U')"
  proof -
    let ?l = "plug ys yl"
    have "ranked (plug ys (Nd yl y ky yw Tip))" using R l by simp
    then have "ranked ?l"
      using kr ranked_plug_rmost [of ys "Nd yl y ky yw Tip" yl] ranked_plugD [of ys "Nd yl y ky yw Tip"]
      by simp
    moreover have "length (keys l) = Suc (length (keys ?l))"
      by (simp add: l keys_plug)
    ultimately show ?thesis
      using R P [rule_format, of "Nd ?l a ky (dec w) r"] by (simp add: bits_simps)
  qed
  then show ?thesis
    using sw 1(1-4,6,7) keys same_mem_trans [OF sw(2) 1(4)] by blast
qed

definition deleted :: "'k avl_tree \<Rightarrow> 'k \<Rightarrow> 'k atree \<Rightarrow> 'k \<Rightarrow> 'k avl_tree \<Rightarrow> 'k atree \<Rightarrow> bool" where
  "deleted t x T k t' T' \<longleftrightarrow>
     tree_rep t' T' \<and> balanced T' \<and> compare_fun t x k = 0 \<and>
     (\<exists>xs ys. keys T = xs @ k # ys \<and> keys T' = xs @ ys) \<and> (ranked T \<longrightarrow> ranked T') \<and>
     same_tree t t' \<and> height t' = height t \<and> tlength t' = tlength t - 1 \<and>
     same_mem (store t) (store t')"

lemma avl_delete_hit:
  assumes "tree_rep t T" and "balanced T" and "T \<noteq> Tip"
    and D: "dfind (compare_fun t) x [] T = (fs, U, True)"
  shows "\<exists>k t' T'. avl_delete t x = Some (0, [k], t') \<and> deleted t x T k t' T'"
proof -
  obtain rt where rt: "root t = Some rt" and Z: "zrep (store t) rt [] T"
    using assms(1) by (auto simp: tree_rep_def)
  obtain wr where root: "cells (store t) rt = Some (sentinel (ptr_of T) wr)"
    using zrep_sentinel [OF Z] by auto
  obtain l a k w r where U: "U = Nd l a k w r" and k: "compare_fun t x k = 0"
    and P: "keys (plug fs U) = keys T" "balanced (plug fs U)"
      "ranked T \<longrightarrow> ranked U \<and>
        (\<forall>U'. ranked U' \<longrightarrow> length (keys U) = Suc (length (keys U')) \<longrightarrow> ranked (plug fs U'))"
    using dfind_hit [OF D assms(3)] assms(2) by auto
  obtain st1 where 1: "delete_find (compare_fun t) x (ptr_of T) (store t) = Some (Some a, True, st1)"
      "zrep st1 rt fs (Nd l a k w r)" "same_mem (store t) st1"
    using delete_find_zrep [OF Z assms(3) D] U by auto
  obtain y st2 p side st3 st' T' where 2: "delete_swap (Some a) st1 = Some (y, st2)"
      "delete_splice y st2 = Some (p, side, Some k, st3)" "delete_climb True p side st3 = Some st'"
      "zrep st' rt [] T'" "same_mem st1 st'" "keys T' = keys_l fs @ keys l @ keys r @ keys_r fs"
      "balanced T'"
      "ranked (Nd l a k w r) \<and>
        (\<forall>U'. ranked U' \<longrightarrow> length (keys (Nd l a k w r)) = Suc (length (keys U')) \<longrightarrow> ranked (plug fs U'))
         \<longrightarrow> ranked T'"
    using delete_at [OF 1(2) P(2) [unfolded U]] by (elim exE conjE) (rule that)
  let ?t' = "t\<lparr>store := st', tlength := tlength t - 1\<rparr>"
  have "avl_delete t x = Some (0, [k], ?t')"
    using rt root assms(3) 1(1) 2(1-3) by (simp add: avl_delete_def store_simps)
  moreover have "\<exists>xs ys. keys T = xs @ k # ys \<and> keys T' = xs @ ys"
    using P(1) 2(6) by (intro exI [of _ "keys_l fs @ keys l"] exI [of _ "keys r @ keys_r fs"])
      (simp add: U keys_plug)
  moreover have "ranked T \<longrightarrow> ranked T'"
    using P(3) [unfolded U] 2(8) by blast
  moreover have "tree_rep ?t' T'"
    using rt 2(4) by (simp add: tree_rep_def)
  ultimately show ?thesis
    using k 2(7) same_mem_trans [OF 1(3) 2(5)]
    by (intro exI [of _ k] exI [of _ ?t'] exI [of _ T']) (simp add: deleted_def same_tree_def)
qed

lemma avl_delete_miss:
  assumes "tree_rep t T" and "T \<noteq> Tip" and D: "dfind (compare_fun t) x [] T = (fs, U, False)"
  shows "\<exists>st'. avl_delete t x = Some (-1, [], t\<lparr>store := st'\<rparr>) \<and>
     tree_rep (t\<lparr>store := st'\<rparr>) (del_miss (compare_fun t) x T) \<and> same_mem (store t) st'"
proof -
  obtain rt where rt: "root t = Some rt" and Z: "zrep (store t) rt [] T"
    using assms(1) by (auto simp: tree_rep_def)
  obtain wr where root: "cells (store t) rt = Some (sentinel (ptr_of T) wr)"
    using zrep_sentinel [OF Z] by auto
  obtain st1 where 1: "delete_find (compare_fun t) x (ptr_of T) (store t) = Some (ptr_of U, False, st1)"
      "zrep st1 rt fs U" "U \<noteq> Tip" "same_mem (store t) st1"
    using delete_find_zrep [OF Z assms(2) D] by auto
  obtain st' where 2: "delete_undo (Some rt) (ptr_of U) st1 = Some st'"
      "zrep st' rt [] (plug (map undo fs) U)" "same_mem st1 st'"
    using delete_undo_zrep [OF 1(2,3)] by auto
  have "avl_delete t x = Some (-1, [], t\<lparr>store := st'\<rparr>)"
    using rt root assms(2) 1(1) 2(1) by (simp add: avl_delete_def store_simps)
  then show ?thesis
    using rt 2(2) dfind_miss [OF D] same_mem_trans [OF 1(4) 2(3)]
    by (auto simp: tree_rep_def)
qed

lemma avl_delete_empty:
  assumes "tree_rep t Tip"
  shows "avl_delete t x = Some (-1, [], t)"
  using assms zrep_sentinel [of "store t" _ Tip]
  by (fastforce simp: tree_rep_def avl_delete_def store_simps)

end
