(* ===== verification/Avl_Search.thy ===== *)
theory Avl_Search
  imports Avl_Insert
begin

section \<open>Searching, walking and iterating\<close>

text \<open>
  The operations of \<open>src/avl/avl.c\<close> that only read the tree. \<open>unsigned long\<close> is a
  64-bit word. A callback takes and returns the caller's state, and its C return value.
\<close>

subsection \<open>Lookup by index and by key\<close>

partial_function (option) get_by_index_loop ::
    "ptr \<Rightarrow> 64 word \<Rightarrow> 'k store \<Rightarrow> (int \<times> 'k option) option" where
  "get_by_index_loop p m st =
     (if p = None then Some (-1, None)
      else do {
        pn \<leftarrow> rd st p;
        if m < ucast (AVL_GET_RANK pn) then get_by_index_loop (left pn) m st
        else if m > ucast (AVL_GET_RANK pn) then
          get_by_index_loop (right pn) (m - ucast (AVL_GET_RANK pn)) st
        else Some (0, key pn)
      })"

text \<open>The result: the return value and what is written to \<open>*value_address\<close>.\<close>

definition avl_get_by_index :: "'k avl_tree \<Rightarrow> 64 word \<Rightarrow> (int \<times> 'k option) option" where
  "avl_get_by_index tree index = do {
     rootn \<leftarrow> rd (store tree) (root tree);
     get_by_index_loop (right rootn) (index + 1) (store tree)
   }"

partial_function (option) get_by_key_loop ::
    "('k \<Rightarrow> 'k \<Rightarrow> int) \<Rightarrow> 'k \<Rightarrow> ptr \<Rightarrow> 'k store \<Rightarrow> (int \<times> 'k option) option" where
  "get_by_key_loop cmp ky x st = do {
     xn \<leftarrow> rd st x;
     c \<leftarrow> cmp_key cmp ky xn;
     if c < 0 then
       (if left xn \<noteq> None then get_by_key_loop cmp ky (left xn) st else Some (-1, None))
     else if c > 0 then
       (if right xn \<noteq> None then get_by_key_loop cmp ky (right xn) st else Some (-1, None))
     else Some (0, key xn)
   }"

definition avl_get_by_key :: "'k avl_tree \<Rightarrow> 'k \<Rightarrow> (int \<times> 'k option) option" where
  "avl_get_by_key tree ky = do {
     rootn \<leftarrow> rd (store tree) (root tree);
     if right rootn = None then Some (-1, None)
     else get_by_key_loop (compare_fun tree) ky (right rootn) (store tree)
   }"

text \<open>
  \<open>avl_get_item_by_key_most\<close> and \<open>_least\<close>: an equal key, or the nearest smaller (greater)
  one; \<open>v\<close> is \<open>*value_address\<close>.
\<close>

partial_function (option) key_most_loop ::
    "('k \<Rightarrow> 'k \<Rightarrow> int) \<Rightarrow> 'k \<Rightarrow> ptr \<Rightarrow> 'k option \<Rightarrow> 'k store \<Rightarrow> (int \<times> 'k option) option" where
  "key_most_loop cmp ky x v st = do {
     xn \<leftarrow> rd st x;
     c \<leftarrow> cmp_key cmp ky xn;
     if c = 0 then Some (0, key xn)
     else if c < 0 then
       (if left xn \<noteq> None then key_most_loop cmp ky (left xn) v st
        else if v \<noteq> None then Some (0, v) else Some (-1, v))
     else
       (if right xn \<noteq> None then key_most_loop cmp ky (right xn) (key xn) st
        else if key xn \<noteq> None then Some (0, key xn) else Some (-1, key xn))
   }"

definition avl_get_item_by_key_most :: "'k avl_tree \<Rightarrow> 'k \<Rightarrow> (int \<times> 'k option) option" where
  "avl_get_item_by_key_most tree ky = do {
     rootn \<leftarrow> rd (store tree) (root tree);
     if right rootn = None then Some (-1, None)
     else key_most_loop (compare_fun tree) ky (right rootn) None (store tree)
   }"

partial_function (option) key_least_loop ::
    "('k \<Rightarrow> 'k \<Rightarrow> int) \<Rightarrow> 'k \<Rightarrow> ptr \<Rightarrow> 'k option \<Rightarrow> 'k store \<Rightarrow> (int \<times> 'k option) option" where
  "key_least_loop cmp ky x v st = do {
     xn \<leftarrow> rd st x;
     c \<leftarrow> cmp_key cmp ky xn;
     if c = 0 then Some (0, key xn)
     else if c < 0 then
       (if left xn \<noteq> None then key_least_loop cmp ky (left xn) (key xn) st
        else if key xn \<noteq> None then Some (0, key xn) else Some (-1, key xn))
     else
       (if right xn \<noteq> None then key_least_loop cmp ky (right xn) v st
        else if v \<noteq> None then Some (0, v) else Some (-1, v))
   }"

definition avl_get_item_by_key_least :: "'k avl_tree \<Rightarrow> 'k \<Rightarrow> (int \<times> 'k option) option" where
  "avl_get_item_by_key_least tree ky = do {
     rootn \<leftarrow> rd (store tree) (root tree);
     if right rootn = None then Some (-1, None)
     else key_least_loop (compare_fun tree) ky (right rootn) None (store tree)
   }"

subsection \<open>Walking from node to node\<close>

partial_function (option) go_left :: "ptr \<Rightarrow> 'k store \<Rightarrow> ptr option" where
  "go_left p st = do {
     n \<leftarrow> rd st p;
     if left n \<noteq> None then go_left (left n) st else Some p
   }"

partial_function (option) go_right :: "ptr \<Rightarrow> 'k store \<Rightarrow> ptr option" where
  "go_right p st = do {
     n \<leftarrow> rd st p;
     if right n \<noteq> None then go_right (right n) st else Some p
   }"

text \<open>\<open>while (node->parent && node->parent->key)\<close>: climb until \<open>child\<close> was on the other side.\<close>

partial_function (option) climb_from_right :: "ptr \<Rightarrow> ptr \<Rightarrow> 'k store \<Rightarrow> ptr option" where
  "climb_from_right child nd st = do {
     n \<leftarrow> rd st nd;
     if parent n = None then Some None
     else do {
       pn \<leftarrow> rd st (parent n);
       if key pn = None then Some None
       else if child = right pn then Some (parent n)
       else climb_from_right (parent n) (parent n) st
     }
   }"

partial_function (option) climb_from_left :: "ptr \<Rightarrow> ptr \<Rightarrow> 'k store \<Rightarrow> ptr option" where
  "climb_from_left child nd st = do {
     n \<leftarrow> rd st nd;
     if parent n = None then Some None
     else do {
       pn \<leftarrow> rd st (parent n);
       if key pn = None then Some None
       else if child = left pn then Some (parent n)
       else climb_from_left (parent n) (parent n) st
     }
   }"

definition avl_get_first :: "'k avl_tree \<Rightarrow> ptr option" where
  "avl_get_first tree = do {
     rootn \<leftarrow> rd (store tree) (root tree);
     if right rootn = None then Some None
     else do {
       n \<leftarrow> rd (store tree) (right rootn);
       if key n = None then Some None else go_left (right rootn) (store tree)
     }
   }"

definition avl_get_prev :: "'k store \<Rightarrow> ptr \<Rightarrow> ptr option" where
  "avl_get_prev st nd = do {
     n \<leftarrow> rd st nd;
     if left n \<noteq> None then go_right (left n) st else climb_from_right nd nd st
   }"

definition avl_get_next :: "'k store \<Rightarrow> ptr \<Rightarrow> ptr option" where
  "avl_get_next st nd = do {
     n \<leftarrow> rd st nd;
     if right n \<noteq> None then go_left (right n) st else climb_from_left nd nd st
   }"

subsection \<open>Iteration\<close>

partial_function (option) avl_iterate_inorder_helper ::
    "('k option \<Rightarrow> 's \<Rightarrow> int \<times> 's) \<Rightarrow> 'k store \<Rightarrow> ptr \<Rightarrow> 's \<Rightarrow> (int \<times> 's) option" where
  "avl_iterate_inorder_helper iter_fun st nd s = do {
     n \<leftarrow> rd st nd;
     (result, s) \<leftarrow> (if left n \<noteq> None then avl_iterate_inorder_helper iter_fun st (left n) s
                      else Some (0, s));
     if result \<noteq> 0 then Some (result, s)
     else (case iter_fun (key n) s of (result, s) \<Rightarrow>
       if result \<noteq> 0 then Some (result, s)
       else if right n \<noteq> None then avl_iterate_inorder_helper iter_fun st (right n) s
       else Some (0, s))
   }"

definition avl_iterate_inorder ::
    "'k avl_tree \<Rightarrow> ('k option \<Rightarrow> 's \<Rightarrow> int \<times> 's) \<Rightarrow> 's \<Rightarrow> (int \<times> 's) option" where
  "avl_iterate_inorder tree iter_fun s =
     (if tlength tree \<noteq> 0 then do {
        rootn \<leftarrow> rd (store tree) (root tree);
        avl_iterate_inorder_helper iter_fun (store tree) (right rootn) s
      } else Some (0, s))"

partial_function (option) index_range_find :: "ptr \<Rightarrow> 64 word \<Rightarrow> 'k store \<Rightarrow> ptr option" where
  "index_range_find nd m st = do {
     n \<leftarrow> rd st nd;
     if m < ucast (AVL_GET_RANK n) then index_range_find (left n) m st
     else if m > ucast (AVL_GET_RANK n) then
       index_range_find (right n) (m - ucast (AVL_GET_RANK n)) st
     else Some nd
   }"

partial_function (option) index_range_loop ::
    "(64 word \<Rightarrow> 'k option \<Rightarrow> 's \<Rightarrow> int \<times> 's) \<Rightarrow> 'k store \<Rightarrow> 64 word \<Rightarrow> ptr \<Rightarrow> 's \<Rightarrow> (int \<times> 's) option" where
  "index_range_loop iter_fun st num_left nd s =
     (if num_left = 0 then Some (0, s)
      else do {
        n \<leftarrow> rd st nd;
        (case iter_fun (num_left - 1) (key n) s of (result, s) \<Rightarrow>
           if result \<noteq> 0 then Some (-1, s)
           else do {
             nd \<leftarrow> avl_get_prev st nd;
             index_range_loop iter_fun st (num_left - 1) nd s
           })
      })"

definition avl_iterate_index_range ::
    "'k avl_tree \<Rightarrow> (64 word \<Rightarrow> 'k option \<Rightarrow> 's \<Rightarrow> int \<times> 's) \<Rightarrow> 64 word \<Rightarrow> 64 word \<Rightarrow> 's \<Rightarrow>
       (int \<times> 's) option" where
  "avl_iterate_index_range tree iter_fun low high s =
     (if high > ucast (tlength tree) then Some (-1, s)
      else do {
        rootn \<leftarrow> rd (store tree) (root tree);
        nd \<leftarrow> index_range_find (right rootn) high (store tree);
        index_range_loop iter_fun (store tree) (high - low) nd s
      })"

end
