(* ===== verification/Avl_Search_Correct.thy ===== *)
theory Avl_Search_Correct
  imports Avl_Delete_Correct Avl_Search
begin

section \<open>What the searches and walks return\<close>

text \<open>
  The lookups against the list of keys, and the walks as movements of a cursor: \<open>cursor\<close>
  says that a pointer stands at the \<open>i\<close>-th key of the tree a store holds.
\<close>

lemma tree_rep_root:
  assumes "tree_rep t T"
  shows "\<exists>rt rootn. root t = Some rt \<and> zrep (store t) rt [] T \<and>
     rd (store t) (root t) = Some rootn \<and> right rootn = ptr_of T \<and> key rootn = None"
  using assms zrep_sentinel by (fastforce simp: tree_rep_def store_simps)

subsection \<open>Ranks as numbers\<close>

lemma unat_rank:
  assumes "ranked (Nd l a k w r)" and "Suc (length (keys l)) < 2 ^ 30"
  shows "unat (drop_bit 2 w) = Suc (length (keys l))"
proof -
  have "unat (drop_bit 2 w) = unat (rk w)"
  proof -
    have "unat w < 2 ^ LENGTH(32)" by (rule unsigned_less)
    then have "unat (drop_bit 2 w) < 2 ^ 30"
      by (simp add: drop_bit_eq_div unat_div)
    then show ?thesis by (simp add: rk_def unsigned_ucast_eq take_bit_nat_eq_self)
  qed
  also have "\<dots> = Suc (length (keys l))"
  proof -
    have "rk w = of_nat (Suc (length (keys l)))" using assms(1) by (simp only: ranked.simps)
    then have "unat (rk w) = take_bit 30 (Suc (length (keys l)))"
      by (simp only: unsigned_of_nat) simp
    then show ?thesis using assms(2) by (simp add: take_bit_nat_eq_self)
  qed
  finally show ?thesis .
qed

lemma unat_rank64:
  assumes "ranked (Nd l a k w r)" and "length (keys (Nd l a k w r)) < 2 ^ 30"
  shows "unat (ucast (drop_bit 2 w) :: 64 word) = Suc (length (keys l))"
  using unat_rank [OF assms(1)] assms(2) by (simp add: unsigned_ucast_eq take_bit_nat_eq_self)

lemma get_by_index_loop_zrep:
  assumes "zrep st rt fs u" and "ranked u" and "length (keys u) < 2 ^ 30" and "m \<noteq> 0"
  shows "get_by_index_loop (ptr_of u) m st =
    Some (if unat m \<le> length (keys u) then (0, Some (keys u ! (unat m - 1))) else (-1, None))"
  using assms
proof (induction u arbitrary: fs m)
  case Tip
  then show ?case by (subst get_by_index_loop.simps) (simp add: unat_eq_0)
next
  case (Nd l a k w r)
  let ?rk = "ucast (drop_bit 2 w) :: 64 word"
  have cell: "rd st (Some a) = Some (node k (ptr_of l) (ptr_of r) (Some (cpar rt fs)) w)"
    using zrep_node [OF Nd.prems(1)] by (simp add: store_simps)
  have rk: "unat ?rk = Suc (length (keys l))"
    using unat_rank64 [OF Nd.prems(2,3)] .
  have m: "0 < unat m" using Nd.prems(4) by (simp add: unat_gt_0)
  have step: "get_by_index_loop (Some a) m st =
     (if m < ?rk then get_by_index_loop (ptr_of l) m st
      else if m > ?rk then get_by_index_loop (ptr_of r) (m - ?rk) st else Some (0, Some k))"
    using cell by (subst get_by_index_loop.simps) (simp add: store_simps)
  consider "m < ?rk" | "?rk < m" | "m = ?rk" by (rule linorder_cases)
  then show ?case
  proof cases
    case 1
    then have "unat m \<le> length (keys l)" using rk by (simp add: word_less_nat_alt)
    moreover from this have "unat m - Suc 0 < length (keys l)" using m by linarith
    ultimately show ?thesis
      using 1 step m Nd.IH(1) [of "FL a k w r # fs" m] Nd.prems by (simp add: zrep_left nth_append)
  next
    case 2
    then have d: "unat (m - ?rk) = unat m - Suc (length (keys l))" "unat m > Suc (length (keys l))"
      using rk by (simp_all add: word_less_nat_alt unat_sub_if_size)
    moreover have "m - ?rk \<noteq> 0" using 2 by simp
    moreover have "(keys l @ k # keys r) ! (unat m - Suc 0) = keys r ! (unat m - Suc (length (keys l)) - 1)"
    proof -
      have "unat m - Suc 0 = length (keys l) + Suc (unat m - Suc (length (keys l)) - 1)"
        using d(2) by linarith
      then show ?thesis by (simp only: nth_append_length_plus nth_Cons_Suc)
    qed
    ultimately show ?thesis
      using 2 step Nd.IH(2) [of "FR l a k w # fs" "m - ?rk"] Nd.prems by (auto simp: zrep_right)
  next
    case 3
    then show ?thesis using step rk by (simp add: nth_append)
  qed
qed

text \<open>Lookup by index is exact as long as the 30 bits of the ranks suffice.\<close>

lemma avl_get_by_index_nth:
  assumes "tree_rep t T" and "ranked T" and "length (keys T) < 2 ^ 30" and that: "i \<noteq> -1"
  shows "avl_get_by_index t i =
    Some (if unat i < length (keys T) then (0, Some (keys T ! unat i)) else (-1, None))"
proof -
  obtain rt rootn where r: "zrep (store t) rt [] T" "rd (store t) (root t) = Some rootn"
      "right rootn = ptr_of T"
    using tree_rep_root [OF assms(1)] by auto
  have i: "i + 1 \<noteq> 0" using that by (simp add: eq_neg_iff_add_eq_0)
  then have "unat (i + 1) = Suc (unat i)" by (metis add.commute unatSuc)
  then show ?thesis
    using r get_by_index_loop_zrep [OF r(1) assms(2,3) i]
    by (simp add: avl_get_by_index_def Suc_le_eq)
qed

subsection \<open>Cursors\<close>

definition cursor :: "'k store \<Rightarrow> addr \<Rightarrow> 'k atree \<Rightarrow> nat \<Rightarrow> ptr \<Rightarrow> bool" where
  "cursor st rt T i p \<longleftrightarrow> (\<exists>fs l a k w r. zrep st rt fs (Nd l a k w r) \<and> plug fs (Nd l a k w r) = T \<and>
     p = Some a \<and> i = length (keys_l fs) + length (keys l))"

lemma cursor_key:
  assumes "cursor st rt T i p"
  shows "\<exists>n. rd st p = Some n \<and> key n = Some (keys T ! i) \<and> i < length (keys T)"
proof -
  obtain fs l a k w r where c: "zrep st rt fs (Nd l a k w r)" "plug fs (Nd l a k w r) = T"
      "p = Some a" "i = length (keys_l fs) + length (keys l)"
    using assms by (auto simp: cursor_def)
  have "keys T = (keys_l fs @ keys l) @ k # keys r @ keys_r fs"
    using c(2) keys_plug [of fs "Nd l a k w r"] by simp
  then show ?thesis using zrep_node [OF c(1)] c(3,4)
    by (simp add: store_simps nth_append del: append_assoc)
qed

text \<open>The leftmost and rightmost node below a position.\<close>

lemma go_left_cursor:
  assumes "zrep st rt fs u" and "u \<noteq> Tip" and "plug fs u = T"
  shows "\<exists>q. go_left (ptr_of u) st = Some q \<and> cursor st rt T (length (keys_l fs)) q"
  using assms
proof (induction u arbitrary: fs)
  case (Nd l a k w r)
  have cell: "rd st (Some a) = Some (node k (ptr_of l) (ptr_of r) (Some (cpar rt fs)) w)"
    using zrep_node [OF Nd.prems(1)] by (simp add: store_simps)
  show ?case
  proof (cases "l = Tip")
    case True
    then have "cursor st rt T (length (keys_l fs)) (Some a)"
      using Nd.prems unfolding cursor_def by force
    then show ?thesis using True cell by (subst go_left.simps) simp
  next
    case False
    then have "go_left (Some a) st = go_left (ptr_of l) st"
      using cell by (subst go_left.simps) simp
    then show ?thesis using Nd.IH(1) [of "FL a k w r # fs"] False Nd.prems by (simp add: zrep_left)
  qed
qed simp

lemma go_right_cursor:
  assumes "zrep st rt fs u" and "u \<noteq> Tip" and "plug fs u = T"
  shows "\<exists>q. go_right (ptr_of u) st = Some q \<and>
     cursor st rt T (length (keys_l fs) + length (keys u) - 1) q"
  using assms
proof (induction u arbitrary: fs)
  case (Nd l a k w r)
  have cell: "rd st (Some a) = Some (node k (ptr_of l) (ptr_of r) (Some (cpar rt fs)) w)"
    using zrep_node [OF Nd.prems(1)] by (simp add: store_simps)
  show ?case
  proof (cases "r = Tip")
    case True
    then have "cursor st rt T (length (keys_l fs) + length (keys l)) (Some a)"
      using Nd.prems unfolding cursor_def by force
    then show ?thesis using True cell by (subst go_right.simps) simp
  next
    case False
    then have go: "go_right (Some a) st = go_right (ptr_of r) st"
      using cell by (subst go_right.simps) simp
    have "0 < length (keys r)" using False by (cases r) auto
    then show ?thesis
      using Nd.IH(2) [of "FR l a k w # fs"] False Nd.prems go by (simp add: zrep_right algebra_simps)
  qed
qed simp

text \<open>Climbing to the first ancestor on the other side.\<close>

lemma climb_from_left_cursor:
  assumes "zrep st rt fs u" and "u \<noteq> Tip" and "plug fs u = T"
  shows "\<exists>q. climb_from_left (ptr_of u) (ptr_of u) st = Some q \<and>
     (if length (keys_l fs) + length (keys u) < length (keys T)
      then cursor st rt T (length (keys_l fs) + length (keys u)) q else q = None)"
  using assms
proof (induction fs arbitrary: u)
  case Nil
  obtain l a k w r where u: "u = Nd l a k w r" using Nil.prems(2) by (cases u) auto
  obtain w0 where "cells st rt = Some (sentinel (ptr_of u) w0)"
    using zrep_sentinel [OF Nil.prems(1)] by auto
  then show ?case
    using zrep_node [OF Nil.prems(1) [unfolded u]] Nil.prems(3) [symmetric] u
    by (subst climb_from_left.simps) (simp add: store_simps)
next
  case (Cons f fs)
  obtain l a k w r where u: "u = Nd l a k w r" using Cons.prems(2) by (cases u) auto
  have ucell: "rd st (Some a) = Some (node k (ptr_of l) (ptr_of r) (Some (cpar rt (f # fs))) w)"
    using zrep_node [of st rt "f # fs"] Cons.prems(1) u by (simp add: store_simps)
  show ?case
  proof (cases f)
    case (FL b k' w' r')
    have Z: "zrep st rt fs (Nd u b k' w' r')"
      using Cons.prems(1) FL by (simp add: zrep_left)
    have "climb_from_left (ptr_of u) (ptr_of u) st = Some (Some b)"
      using ucell zrep_node [OF Z] FL u
      by (subst climb_from_left.simps) (simp add: store_simps)
    moreover have "cursor st rt T (length (keys_l fs) + length (keys u)) (Some b)"
      using Z Cons.prems(3) FL unfolding cursor_def by force
    moreover have "keys T = keys_l fs @ (keys u @ k' # keys r') @ keys_r fs"
      using Cons.prems(3) FL keys_plug [of fs "Nd u b k' w' r'"] by simp
    ultimately show ?thesis using FL by simp
  next
    case (FR l' b k' w')
    have Z: "zrep st rt fs (Nd l' b k' w' u)"
      using Cons.prems(1) FR by (simp add: zrep_right)
    have ne: "ptr_of l' \<noteq> Some a"
      using zrep_distinct [OF Z] u ptr_of_Some_in [of l' a] by auto
    have "climb_from_left (ptr_of u) (ptr_of u) st = climb_from_left (Some b) (Some b) st"
      using ucell zrep_node [OF Z] FR u ne
      by (subst climb_from_left.simps) (simp add: store_simps)
    then show ?thesis
      using Cons.IH [OF Z] Cons.prems(3) FR by (auto simp: algebra_simps)
  qed
qed

lemma climb_from_right_cursor:
  assumes "zrep st rt fs u" and "u \<noteq> Tip" and "plug fs u = T"
  shows "\<exists>q. climb_from_right (ptr_of u) (ptr_of u) st = Some q \<and>
     (if 0 < length (keys_l fs) then cursor st rt T (length (keys_l fs) - 1) q else q = None)"
  using assms
proof (induction fs arbitrary: u)
  case Nil
  obtain l a k w r where u: "u = Nd l a k w r" using Nil.prems(2) by (cases u) auto
  obtain w0 where "cells st rt = Some (sentinel (ptr_of u) w0)"
    using zrep_sentinel [OF Nil.prems(1)] by auto
  then show ?case
    using zrep_node [OF Nil.prems(1) [unfolded u]] u
    by (subst climb_from_right.simps) (simp add: store_simps)
next
  case (Cons f fs)
  obtain l a k w r where u: "u = Nd l a k w r" using Cons.prems(2) by (cases u) auto
  have ucell: "rd st (Some a) = Some (node k (ptr_of l) (ptr_of r) (Some (cpar rt (f # fs))) w)"
    using zrep_node [of st rt "f # fs"] Cons.prems(1) u by (simp add: store_simps)
  show ?case
  proof (cases f)
    case (FR l' b k' w')
    have Z: "zrep st rt fs (Nd l' b k' w' u)"
      using Cons.prems(1) FR by (simp add: zrep_right)
    have "climb_from_right (ptr_of u) (ptr_of u) st = Some (Some b)"
      using ucell zrep_node [OF Z] FR u
      by (subst climb_from_right.simps) (simp add: store_simps)
    moreover have "cursor st rt T (length (keys_l fs) + length (keys l')) (Some b)"
      using Z Cons.prems(3) FR unfolding cursor_def by force
    ultimately show ?thesis using FR by simp
  next
    case (FL b k' w' r')
    have Z: "zrep st rt fs (Nd u b k' w' r')"
      using Cons.prems(1) FL by (simp add: zrep_left)
    have ne: "ptr_of r' \<noteq> Some a"
      using zrep_distinct [OF Z] u ptr_of_Some_in [of r' a] by auto
    have "climb_from_right (ptr_of u) (ptr_of u) st = climb_from_right (Some b) (Some b) st"
      using ucell zrep_node [OF Z] FL u ne
      by (subst climb_from_right.simps) (simp add: store_simps)
    then show ?thesis
      using Cons.IH [OF Z] Cons.prems(3) FL by auto
  qed
qed

lemma avl_get_first_cursor:
  assumes "tree_rep t T" and "root t = Some rt"
  shows "\<exists>q. avl_get_first t = Some q \<and> (if T = Tip then q = None else cursor (store t) rt T 0 q)"
proof -
  have Z: "zrep (store t) rt [] T" and root: "\<exists>rootn. rd (store t) (root t) = Some rootn \<and> right rootn = ptr_of T"
    using tree_rep_root [OF assms(1)] assms(2) by auto
  show ?thesis
  proof (cases T)
    case Tip
    then show ?thesis using root by (auto simp: avl_get_first_def)
  next
    case (Nd l a k w r)
    then show ?thesis
      using root go_left_cursor [OF Z] zrep_node [of "store t" rt "[]" l a k w r] Z
      by (auto simp: avl_get_first_def store_simps)
  qed
qed

lemma avl_get_next_cursor:
  assumes "cursor st rt T i p"
  shows "\<exists>q. avl_get_next st p = Some q \<and>
     (if Suc i < length (keys T) then cursor st rt T (Suc i) q else q = None)"
proof -
  obtain fs l a k w r where c: "zrep st rt fs (Nd l a k w r)" "plug fs (Nd l a k w r) = T"
      "p = Some a" "i = length (keys_l fs) + length (keys l)"
    using assms by (auto simp: cursor_def)
  have cell: "rd st p = Some (node k (ptr_of l) (ptr_of r) (Some (cpar rt fs)) w)"
    using zrep_node [OF c(1)] c(3) by (simp add: store_simps)
  have len: "length (keys T) = length (keys_l fs) + Suc (length (keys l) + length (keys r)) + length (keys_r fs)"
    using c(2) keys_plug [of fs "Nd l a k w r"] by simp
  show ?thesis
  proof (cases "r = Tip")
    case True
    then show ?thesis
      using cell climb_from_left_cursor [OF c(1) _ c(2)] c(3,4) by (auto simp: avl_get_next_def)
  next
    case False
    then have "0 < length (keys r)" by (cases r) auto
    then show ?thesis
      using False cell go_left_cursor [of st rt "FR l a k w # fs" r T] c len
      by (simp add: avl_get_next_def zrep_right)
  qed
qed

lemma avl_get_prev_cursor:
  assumes "cursor st rt T i p"
  shows "\<exists>q. avl_get_prev st p = Some q \<and> (if 0 < i then cursor st rt T (i - 1) q else q = None)"
proof -
  obtain fs l a k w r where c: "zrep st rt fs (Nd l a k w r)" "plug fs (Nd l a k w r) = T"
      "p = Some a" "i = length (keys_l fs) + length (keys l)"
    using assms by (auto simp: cursor_def)
  have cell: "rd st p = Some (node k (ptr_of l) (ptr_of r) (Some (cpar rt fs)) w)"
    using zrep_node [OF c(1)] c(3) by (simp add: store_simps)
  show ?thesis
  proof (cases "l = Tip")
    case True
    then show ?thesis
      using cell climb_from_right_cursor [OF c(1) _ c(2)] c(3,4) by (auto simp: avl_get_prev_def)
  next
    case False
    then have "0 < length (keys l)" by (cases l) auto
    then show ?thesis
      using False cell go_right_cursor [of st rt "FL a k w r # fs" l T] c
      by (simp add: avl_get_prev_def zrep_left)
  qed
qed

subsection \<open>Iteration\<close>

text \<open>Calling a callback on the keys in order until it returns a non-zero value.\<close>

fun iterate :: "('k option \<Rightarrow> 's \<Rightarrow> int \<times> 's) \<Rightarrow> 'k list \<Rightarrow> 's \<Rightarrow> int \<times> 's" where
  "iterate f [] s = (0, s)"
| "iterate f (k # ks) s = (case f (Some k) s of (r, s) \<Rightarrow> if r \<noteq> 0 then (r, s) else iterate f ks s)"

lemma iterate_append:
  "iterate f (xs @ ys) s = (case iterate f xs s of (r, s) \<Rightarrow> if r \<noteq> 0 then (r, s) else iterate f ys s)"
  by (induction xs arbitrary: s) (auto split: prod.splits)

lemma iterate_inorder_helper_zrep:
  assumes "zrep st rt fs u" and "u \<noteq> Tip"
  shows "avl_iterate_inorder_helper f st (ptr_of u) s = Some (iterate f (keys u) s)"
  using assms
proof (induction u arbitrary: fs s)
  case (Nd l a k w r)
  have cell: "rd st (Some a) = Some (node k (ptr_of l) (ptr_of r) (Some (cpar rt fs)) w)"
    using zrep_node [OF Nd.prems(1)] by (simp add: store_simps)
  have l: "l \<noteq> Tip \<Longrightarrow> avl_iterate_inorder_helper f st (ptr_of l) s = Some (iterate f (keys l) s)"
    using Nd.IH(1) [of "FL a k w r # fs"] Nd.prems(1) by (auto simp: zrep_left)
  have r: "r \<noteq> Tip \<Longrightarrow> avl_iterate_inorder_helper f st (ptr_of r) s' = Some (iterate f (keys r) s')" for s'
    using Nd.IH(2) [of "FR l a k w # fs"] Nd.prems(1) by (auto simp: zrep_right)
  obtain x s1 where it: "iterate f (keys l) s = (x, s1)" by force
  obtain y s2 where f: "f (Some k) s1 = (y, s2)" by force
  have "avl_iterate_inorder_helper f st (Some a) s =
      (if x \<noteq> 0 then Some (x, s1)
       else (case f (Some k) s1 of (x, s) \<Rightarrow> if x \<noteq> 0 then Some (x, s)
         else if r \<noteq> Tip then avl_iterate_inorder_helper f st (ptr_of r) s else Some (0, s)))"
    using l it cell f by (subst avl_iterate_inorder_helper.simps) (cases l; simp)
  then show ?case
    using r it by (auto simp: iterate_append split: prod.splits)
qed simp

lemma avl_iterate_inorder_eq:
  assumes "tree_rep t T" and "tlength t = 0 \<longleftrightarrow> T = Tip"
  shows "avl_iterate_inorder t f s = Some (iterate f (keys T) s)"
proof -
  obtain rt rootn where "zrep (store t) rt [] T" "rd (store t) (root t) = Some rootn"
      "right rootn = ptr_of T"
    using tree_rep_root [OF assms(1)] by auto
  then show ?thesis
    using iterate_inorder_helper_zrep assms(2) by (auto simp: avl_iterate_inorder_def)
qed

end
