(* ===== verification/Avl_Order.thy ===== *)
theory Avl_Order
  imports Avl_Search_Correct
begin

section \<open>Sorted keys\<close>

text \<open>
  With a comparison that is a total preorder: the keys stay sorted, insertion puts a key
  before its equals, lookups and deletion find a key whenever there is an equal one, and the
  indices the searches count are numbers of smaller keys.
\<close>

definition sorted_by :: "('k \<Rightarrow> 'k \<Rightarrow> int) \<Rightarrow> 'k list \<Rightarrow> bool" where
  "sorted_by cmp ks \<longleftrightarrow> sorted_wrt (\<lambda>a b. cmp a b \<le> 0) ks"

fun ins_by :: "('k \<Rightarrow> 'k \<Rightarrow> int) \<Rightarrow> 'k \<Rightarrow> 'k list \<Rightarrow> 'k list" where
  "ins_by cmp x [] = [x]"
| "ins_by cmp x (y # ys) = (if cmp x y \<le> 0 then x # y # ys else y # ins_by cmp x ys)"

text \<open>The number of smaller keys, and of keys that are smaller or equal.\<close>

definition n_less :: "('k \<Rightarrow> 'k \<Rightarrow> int) \<Rightarrow> 'k \<Rightarrow> 'k list \<Rightarrow> nat" where
  "n_less cmp x ks = length (filter (\<lambda>k. 0 < cmp x k) ks)"

definition n_leq :: "('k \<Rightarrow> 'k \<Rightarrow> int) \<Rightarrow> 'k \<Rightarrow> 'k list \<Rightarrow> nat" where
  "n_leq cmp x ks = length (filter (\<lambda>k. 0 \<le> cmp x k) ks)"

lemma set_ins_by: "set (ins_by cmp x ks) = insert x (set ks)"
  by (induction ks) auto

lemma length_ins_by: "length (ins_by cmp x ks) = Suc (length ks)"
  by (induction ks) auto

lemma sorted_by_Cons: "sorted_by cmp (x # xs) \<longleftrightarrow> (\<forall>y \<in> set xs. cmp x y \<le> 0) \<and> sorted_by cmp xs"
  by (simp add: sorted_by_def)

lemma sorted_by_append:
  "sorted_by cmp (xs @ ys) \<longleftrightarrow>
     sorted_by cmp xs \<and> sorted_by cmp ys \<and> (\<forall>x \<in> set xs. \<forall>y \<in> set ys. cmp x y \<le> 0)"
  by (auto simp: sorted_by_def sorted_wrt_append)

lemma sorted_by_Nil [simp]: "sorted_by cmp []"
  by (simp add: sorted_by_def)

lemma sorted_by_node:
  "sorted_by cmp (keys (Nd l a k w r)) \<longleftrightarrow>
     sorted_by cmp (keys l) \<and> sorted_by cmp (keys r) \<and>
     (\<forall>x \<in> set (keys l). cmp x k \<le> 0) \<and> (\<forall>y \<in> set (keys r). cmp k y \<le> 0) \<and>
     (\<forall>x \<in> set (keys l). \<forall>y \<in> set (keys r). cmp x y \<le> 0)"
  by (auto simp: sorted_by_append sorted_by_Cons)

lemma sorted_by_remove: "sorted_by cmp (xs @ k # ys) \<Longrightarrow> sorted_by cmp (xs @ ys)"
  by (auto simp: sorted_by_append sorted_by_Cons)

text \<open>What a lookup owes its caller.\<close>

definition lookup_ok :: "('k \<Rightarrow> 'k \<Rightarrow> int) \<Rightarrow> 'k \<Rightarrow> 'k list \<Rightarrow> int \<times> 'k option \<Rightarrow> bool" where
  "lookup_ok cmp x ks res \<longleftrightarrow>
     (\<exists>k \<in> set ks. cmp x k = 0 \<and> res = (0, Some k)) \<or>
     (\<forall>k \<in> set ks. cmp x k \<noteq> 0) \<and> res = (-1, None)"

text \<open>
  The nearest keys: an equal key; otherwise the last smaller (first greater) one below the
  position, or what was found above it.
\<close>

definition last_opt :: "'b list \<Rightarrow> 'b option \<Rightarrow> 'b option" where
  "last_opt xs d = (if xs = [] then d else Some (last xs))"

definition hd_opt :: "'b list \<Rightarrow> 'b option \<Rightarrow> 'b option" where
  "hd_opt xs d = (if xs = [] then d else Some (hd xs))"

definition nearest :: "'k option \<Rightarrow> int \<times> 'k option" where
  "nearest v = (if v = None then (-1, None) else (0, v))"

definition most_ok :: "('k \<Rightarrow> 'k \<Rightarrow> int) \<Rightarrow> 'k \<Rightarrow> 'k list \<Rightarrow> 'k option \<Rightarrow> int \<times> 'k option \<Rightarrow> bool" where
  "most_ok cmp x ks v res \<longleftrightarrow>
     (\<exists>k \<in> set ks. cmp x k = 0 \<and> res = (0, Some k)) \<or>
     (\<forall>k \<in> set ks. cmp x k \<noteq> 0) \<and> res = nearest (last_opt (filter (\<lambda>k. 0 < cmp x k) ks) v)"

definition least_ok :: "('k \<Rightarrow> 'k \<Rightarrow> int) \<Rightarrow> 'k \<Rightarrow> 'k list \<Rightarrow> 'k option \<Rightarrow> int \<times> 'k option \<Rightarrow> bool" where
  "least_ok cmp x ks v res \<longleftrightarrow>
     (\<exists>k \<in> set ks. cmp x k = 0 \<and> res = (0, Some k)) \<or>
     (\<forall>k \<in> set ks. cmp x k \<noteq> 0) \<and> res = nearest (hd_opt (filter (\<lambda>k. cmp x k < 0) ks) v)"

context key_order
begin

lemma sorted_ins_by: "sorted_by cmp ks \<Longrightarrow> sorted_by cmp (ins_by cmp x ks)"
proof (induction ks)
  case (Cons y ys)
  then show ?case
    using cmp_trans cmp_total [of x y] by (auto simp: sorted_by_Cons set_ins_by)
qed (simp add: sorted_by_Cons)

lemma ins_by_append_left:
  "sorted_by cmp (xs @ k # ys) \<Longrightarrow> cmp x k \<le> 0 \<Longrightarrow>
   ins_by cmp x (xs @ k # ys) = ins_by cmp x xs @ k # ys"
  by (induction xs) (auto simp: sorted_by_Cons)

lemma ins_by_append_right:
  "sorted_by cmp (xs @ k # ys) \<Longrightarrow> \<not> cmp x k \<le> 0 \<Longrightarrow>
   ins_by cmp x (xs @ k # ys) = xs @ k # ins_by cmp x ys"
proof (induction xs)
  case (Cons z xs)
  then have "cmp z k \<le> 0" by (simp add: sorted_by_Cons)
  then have "\<not> cmp x z \<le> 0" using Cons.prems(2) cmp_trans by blast
  then show ?case using Cons by (simp add: sorted_by_Cons)
qed simp

lemma keys_ins_raw_sorted:
  "sorted_by cmp (keys T) \<Longrightarrow> keys (ins_raw cmp x a T) = ins_by cmp x (keys T)"
proof (induction T)
  case (Nd l b k w r)
  have s: "sorted_by cmp (keys l @ k # keys r)" using Nd.prems by simp
  show ?case
    using Nd.IH Nd.prems ins_by_append_left [OF s, of x] ins_by_append_right [OF s, of x]
    by (simp only: sorted_by_node) auto
qed simp

text \<open>Which way a search goes decides for a whole subtree.\<close>

lemma less_right: "cmp x k < 0 \<Longrightarrow> cmp k y \<le> 0 \<Longrightarrow> cmp x y < 0"
  by (rule cmp_less_le_trans)

lemma greater_left: "0 < cmp x k \<Longrightarrow> cmp y k \<le> 0 \<Longrightarrow> 0 < cmp x y"
  using cmp_le_less_trans [of y k x] cmp_antisym [of x k] cmp_antisym [of x y]
    cmp_antisym [of k x] by simp

lemma go_left_absent:
  "sorted_by cmp (keys (Nd l a k w r)) \<Longrightarrow> cmp x k < 0 \<Longrightarrow> y \<in> set (keys r) \<Longrightarrow> cmp x y < 0"
  unfolding sorted_by_node using less_right by blast

lemma go_right_absent:
  "sorted_by cmp (keys (Nd l a k w r)) \<Longrightarrow> 0 < cmp x k \<Longrightarrow> y \<in> set (keys l) \<Longrightarrow> 0 < cmp x y"
  unfolding sorted_by_node using greater_left by blast

lemma n_less_left:
  "sorted_by cmp (keys (Nd l a k w r)) \<Longrightarrow> cmp x k < 0 \<Longrightarrow>
   n_less cmp x (keys (Nd l a k w r)) = n_less cmp x (keys l)"
  using go_left_absent [of l a k w r x] unfolding n_less_def
  by (fastforce simp: filter_empty_conv)

lemma n_less_right:
  "sorted_by cmp (keys (Nd l a k w r)) \<Longrightarrow> 0 < cmp x k \<Longrightarrow>
   n_less cmp x (keys (Nd l a k w r)) = Suc (length (keys l) + n_less cmp x (keys r))"
  using go_right_absent [of l a k w r x] unfolding n_less_def
  by (simp add: filter_True)

text \<open>The search of the deletion finds a key exactly when there is an equal one.\<close>

lemma dfind_iff:
  "sorted_by cmp (keys u) \<Longrightarrow> u \<noteq> Tip \<Longrightarrow>
   snd (snd (dfind cmp x fs u)) \<longleftrightarrow> (\<exists>k \<in> set (keys u). cmp x k = 0)"
proof (induction u arbitrary: fs)
  case (Nd l a k w r)
  have s: "sorted_by cmp (keys l)" "sorted_by cmp (keys r)"
    using Nd.prems(1) by (simp_all only: sorted_by_node)
  consider "cmp x k < 0" | "0 < cmp x k" | "cmp x k = 0" by linarith
  then show ?case
  proof cases
    case 1
    then show ?thesis
      using Nd.IH(1) [OF s(1)] go_left_absent [OF Nd.prems(1) 1] by (cases "l = Tip") fastforce+
  next
    case 2
    then show ?thesis
      using Nd.IH(2) [OF s(2)] go_right_absent [OF Nd.prems(1) 2] by (cases "r = Tip") fastforce+
  qed auto
qed simp

lemma get_by_key_loop_zrep:
  assumes "zrep st rt fs u" and "u \<noteq> Tip" and "sorted_by cmp (keys u)"
  shows "\<exists>res. get_by_key_loop cmp x (ptr_of u) st = Some res \<and> lookup_ok cmp x (keys u) res"
  using assms
proof (induction u arbitrary: fs)
  case (Nd l a k w r)
  have cell: "rd st (Some a) = Some (node k (ptr_of l) (ptr_of r) (Some (cpar rt fs)) w)"
    using zrep_node [OF Nd.prems(1)] by (simp add: store_simps)
  have s: "sorted_by cmp (keys l)" "sorted_by cmp (keys r)"
    using Nd.prems(3) by (simp_all only: sorted_by_node)
  have step: "get_by_key_loop cmp x (Some a) st =
     (if cmp x k < 0 then if l \<noteq> Tip then get_by_key_loop cmp x (ptr_of l) st else Some (-1, None)
      else if 0 < cmp x k then if r \<noteq> Tip then get_by_key_loop cmp x (ptr_of r) st else Some (-1, None)
      else Some (0, Some k))"
    using cell by (subst get_by_key_loop.simps) (simp add: store_simps)
  consider "cmp x k < 0" | "0 < cmp x k" | "cmp x k = 0" by linarith
  then show ?case
  proof cases
    case 1
    have "\<forall>y \<in> set (k # keys r). cmp x y \<noteq> 0"
      using go_left_absent [OF Nd.prems(3) 1] 1 by fastforce
    then show ?thesis
      using Nd.IH(1) [of "FL a k w r # fs"] Nd.prems(1) s step 1
      by (cases "l = Tip") (auto simp: zrep_left lookup_ok_def)
  next
    case 2
    have "\<forall>y \<in> set (k # keys l). cmp x y \<noteq> 0"
      using go_right_absent [OF Nd.prems(3) 2] 2 by fastforce
    then show ?thesis
      using Nd.IH(2) [of "FR l a k w # fs"] Nd.prems(1) s step 2
      by (cases "r = Tip") (auto simp: zrep_right lookup_ok_def)
  next
    case 3
    then show ?thesis using step by (simp add: lookup_ok_def)
  qed
qed simp

lemma filter_left:
  assumes "sorted_by cmp (keys (Nd l a k w r))" and "cmp x k < 0"
  shows "filter (\<lambda>k. 0 < cmp x k) (keys (Nd l a k w r)) = filter (\<lambda>k. 0 < cmp x k) (keys l)"
    and "filter (\<lambda>k. cmp x k < 0) (keys (Nd l a k w r)) = filter (\<lambda>k. cmp x k < 0) (keys l) @ k # keys r"
    and "\<forall>y \<in> set (k # keys r). cmp x y \<noteq> 0"
  using go_left_absent [OF assms] go_left_absent [OF assms, THEN less_imp_neq] assms(2)
  by (auto simp: filter_empty_conv filter_id_conv not_less less_imp_le)

lemma filter_right:
  assumes "sorted_by cmp (keys (Nd l a k w r))" and "0 < cmp x k"
  shows "filter (\<lambda>k. 0 < cmp x k) (keys (Nd l a k w r)) = keys l @ k # filter (\<lambda>k. 0 < cmp x k) (keys r)"
    and "filter (\<lambda>k. cmp x k < 0) (keys (Nd l a k w r)) = filter (\<lambda>k. cmp x k < 0) (keys r)"
    and "\<forall>y \<in> set (k # keys l). cmp x y \<noteq> 0"
  using go_right_absent [OF assms] go_right_absent [OF assms, THEN less_imp_neq] assms(2)
  by (auto simp: filter_empty_conv filter_id_conv not_less less_imp_le)

lemma key_most_loop_zrep:
  assumes "zrep st rt fs u" and "u \<noteq> Tip" and "sorted_by cmp (keys u)"
  shows "\<exists>res. key_most_loop cmp x (ptr_of u) v st = Some res \<and> most_ok cmp x (keys u) v res"
  using assms
proof (induction u arbitrary: fs v)
  case (Nd l a k w r)
  have cell: "rd st (Some a) = Some (node k (ptr_of l) (ptr_of r) (Some (cpar rt fs)) w)"
    using zrep_node [OF Nd.prems(1)] by (simp add: store_simps)
  have s: "sorted_by cmp (keys l)" "sorted_by cmp (keys r)"
    using Nd.prems(3) by (simp_all only: sorted_by_node)
  have step: "key_most_loop cmp x (Some a) v st =
     (if cmp x k = 0 then Some (0, Some k)
      else if cmp x k < 0 then if l \<noteq> Tip then key_most_loop cmp x (ptr_of l) v st else Some (nearest v)
      else if r \<noteq> Tip then key_most_loop cmp x (ptr_of r) (Some k) st else Some (nearest (Some k)))"
    using cell by (subst key_most_loop.simps) (auto simp: store_simps nearest_def)
  consider "cmp x k < 0" | "0 < cmp x k" | "cmp x k = 0" by linarith
  then show ?case
  proof cases
    case 1
    then show ?thesis
      using filter_left [OF Nd.prems(3) 1] Nd.IH(1) [of "FL a k w r # fs" v] Nd.prems(1) s step
      by (cases "l = Tip") (fastforce simp: zrep_left most_ok_def last_opt_def)+
  next
    case 2
    then show ?thesis
      using filter_right [OF Nd.prems(3) 2] Nd.IH(2) [of "FR l a k w # fs" "Some k"] Nd.prems(1) s step
      by (cases "r = Tip") (fastforce simp: zrep_right most_ok_def last_opt_def)+
  next
    case 3
    then show ?thesis using step by (simp add: most_ok_def)
  qed
qed simp

lemma key_least_loop_zrep:
  assumes "zrep st rt fs u" and "u \<noteq> Tip" and "sorted_by cmp (keys u)"
  shows "\<exists>res. key_least_loop cmp x (ptr_of u) v st = Some res \<and> least_ok cmp x (keys u) v res"
  using assms
proof (induction u arbitrary: fs v)
  case (Nd l a k w r)
  have cell: "rd st (Some a) = Some (node k (ptr_of l) (ptr_of r) (Some (cpar rt fs)) w)"
    using zrep_node [OF Nd.prems(1)] by (simp add: store_simps)
  have s: "sorted_by cmp (keys l)" "sorted_by cmp (keys r)"
    using Nd.prems(3) by (simp_all only: sorted_by_node)
  have step: "key_least_loop cmp x (Some a) v st =
     (if cmp x k = 0 then Some (0, Some k)
      else if cmp x k < 0 then if l \<noteq> Tip then key_least_loop cmp x (ptr_of l) (Some k) st else Some (nearest (Some k))
      else if r \<noteq> Tip then key_least_loop cmp x (ptr_of r) v st else Some (nearest v))"
    using cell by (subst key_least_loop.simps) (auto simp: store_simps nearest_def)
  consider "cmp x k < 0" | "0 < cmp x k" | "cmp x k = 0" by linarith
  then show ?case
  proof cases
    case 1
    then show ?thesis
      using filter_left [OF Nd.prems(3) 1] Nd.IH(1) [of "FL a k w r # fs" "Some k"] Nd.prems(1) s step
      by (cases "l = Tip") (fastforce simp: zrep_left least_ok_def hd_opt_def)+
  next
    case 2
    then show ?thesis
      using filter_right [OF Nd.prems(3) 2] Nd.IH(2) [of "FR l a k w # fs" v] Nd.prems(1) s step
      by (cases "r = Tip") (fastforce simp: zrep_right least_ok_def hd_opt_def)+
  next
    case 3
    then show ?thesis using step by (simp add: least_ok_def)
  qed
qed simp

end

end
