(* ===== verification/Avl_Check.thy ===== *)
theory Avl_Check
  imports Avl_Search_Correct
begin

section \<open>Freeing a tree, checking it and printing it\<close>

text \<open>
  \<open>avl_tree_free\<close> hands every key to the callback once, in order, and leaves no node
  behind. \<open>avl_verify\<close> walks the tree three times; only the rank check can fail (it exits the
  process, the outcome \<open>Inl\<close>). The printer of \<open>avl_print_tree\<close> gives the text it writes.
\<close>

subsection \<open>Freeing\<close>

text \<open>The callback is called when it is not NULL; the keys it got are the result.\<close>

partial_function (option) avl_tree_free_helper ::
    "bool \<Rightarrow> ptr \<Rightarrow> 'k store \<Rightarrow> ('k option list \<times> 'k store) option" where
  "avl_tree_free_helper has_fun nd st = do {
     n \<leftarrow> rd st nd;
     (ks1, st) \<leftarrow> (if left n \<noteq> None then avl_tree_free_helper has_fun (left n) st else Some ([], st));
     n \<leftarrow> rd st nd;
     (ks2, st) \<leftarrow> (if right n \<noteq> None then avl_tree_free_helper has_fun (right n) st else Some ([], st));
     st \<leftarrow> free_node st nd;
     Some (ks1 @ (if has_fun then [key n] else []) @ ks2, st)
   }"

definition avl_tree_free :: "'k avl_tree \<Rightarrow> bool \<Rightarrow> ('k option list \<times> 'k store) option" where
  "avl_tree_free tree has_fun = do {
     (ks, st) \<leftarrow> (if tlength tree \<noteq> 0 then do {
         rootn \<leftarrow> rd (store tree) (root tree);
         avl_tree_free_helper has_fun (right rootn) (store tree)
       } else Some ([], store tree));
     st \<leftarrow> (if root tree \<noteq> None then free_node st (root tree) else Some st);
     Some (ks, st)
   }"

subsection \<open>The self-check\<close>

partial_function (option) avl_verify_balance :: "'k store \<Rightarrow> ptr \<Rightarrow> int option" where
  "avl_verify_balance st nd =
     (if nd = None then Some 0
      else do {
        n \<leftarrow> rd st nd;
        lh \<leftarrow> avl_verify_balance st (left n);
        rh \<leftarrow> avl_verify_balance st (right n);
        (if rh - lh \<noteq> AVL_GET_BALANCE n then Some 0
         else if lh - rh > 1 \<or> lh - rh < -1 then Some 0
         else Some (1 + max lh rh))
      })"

partial_function (option) avl_verify_parent :: "'k store \<Rightarrow> ptr \<Rightarrow> ptr \<Rightarrow> unit option" where
  "avl_verify_parent st nd par = do {
     n \<leftarrow> rd st nd;
     if parent n \<noteq> par then Some ()
     else do {
       (if left n \<noteq> None then avl_verify_parent st (left n) nd else Some ());
       (if right n \<noteq> None then avl_verify_parent st (right n) nd else Some ())
     }
   }"

text \<open>\<open>exit (1)\<close> is \<open>Inl 1\<close>.\<close>

partial_function (option) avl_verify_rank :: "'k store \<Rightarrow> ptr \<Rightarrow> (int + 64 word) option" where
  "avl_verify_rank st nd =
     (if nd = None then Some (Inr 0)
      else do {
        n \<leftarrow> rd st nd;
        num_left \<leftarrow> (if left n \<noteq> None then avl_verify_rank st (left n) else Some (Inr 0));
        (case num_left of
           Inl e \<Rightarrow> Some (Inl e)
         | Inr num_left \<Rightarrow> do {
             num_right \<leftarrow> (if right n \<noteq> None then avl_verify_rank st (right n) else Some (Inr 0));
             (case num_right of
                Inl e \<Rightarrow> Some (Inl e)
              | Inr num_right \<Rightarrow>
                  if ucast (AVL_GET_RANK n) \<noteq> num_left + 1 then Some (Inl 1)
                  else Some (Inr (num_left + num_right + 1)))
           })
      })"

definition avl_verify :: "'k avl_tree \<Rightarrow> (int + int) option" where
  "avl_verify tree =
     (if tlength tree \<noteq> 0 then do {
        rootn \<leftarrow> rd (store tree) (root tree);
        h \<leftarrow> avl_verify_balance (store tree) (right rootn);
        u \<leftarrow> avl_verify_parent (store tree) (right rootn) (root tree);
        r \<leftarrow> avl_verify_rank (store tree) (right rootn);
        (case r of Inl e \<Rightarrow> Some (Inl e) | Inr n \<Rightarrow> Some (Inr 0))
      } else Some (Inr 0))"

subsection \<open>Freeing gives back every node\<close>

lemma restrict_all: "m |` UNIV = m"
  by (simp add: restrict_map_def)

lemma free_helper_rep:
  assumes "rep (cells st) par u" and "u \<noteq> Tip" and "distinct (addrs u)"
  shows "avl_tree_free_helper True (ptr_of u) st =
    Some (map Some (keys u), st\<lparr>cells := (cells st) |` (- set (addrs u))\<rparr>)"
  using assms
proof (induction u arbitrary: par st)
  case (Nd l a k w r)
  let ?n = "node k (ptr_of l) (ptr_of r) par w"
  have cell: "cells st a = Some ?n" using Nd.prems(1) by simp
  have disj: "a \<notin> set (addrs l)" "a \<notin> set (addrs r)" "set (addrs l) \<inter> set (addrs r) = {}"
    "distinct (addrs l)" "distinct (addrs r)"
    using Nd.prems(3) by auto
  let ?st1 = "st\<lparr>cells := (cells st) |` (- set (addrs l))\<rparr>"
  have l: "l \<noteq> Tip \<Longrightarrow> avl_tree_free_helper True (ptr_of l) st = Some (map Some (keys l), ?st1)"
    "l = Tip \<Longrightarrow> ?st1 = st"
    using Nd.IH(1) [of st "Some a"] Nd.prems(1) disj by (simp_all add: restrict_all)
  have cell1: "cells ?st1 a = Some ?n" using cell disj by simp
  have rep_r: "rep (cells ?st1) (Some a) r"
  proof -
    have "rep (cells ?st1) (Some a) r = rep (cells st) (Some a) r"
      by (rule rep_cong) (use disj in \<open>auto simp: restrict_map_def\<close>)
    then show ?thesis using Nd.prems(1) by simp
  qed
  let ?st2 = "?st1\<lparr>cells := (cells ?st1) |` (- set (addrs r))\<rparr>"
  have r: "r \<noteq> Tip \<Longrightarrow> avl_tree_free_helper True (ptr_of r) ?st1 = Some (map Some (keys r), ?st2)"
    "r = Tip \<Longrightarrow> ?st2 = ?st1"
    using Nd.IH(2) [OF rep_r] disj by (simp_all add: restrict_all)
  have cell2: "cells ?st2 a = Some ?n" using cell disj by simp
  have fin: "free_node ?st2 (Some a) = Some (st\<lparr>cells := (cells st) |` (- set (addrs (Nd l a k w r)))\<rparr>)"
    using cell2 by (auto simp: free_node_def restrict_map_def fun_eq_iff)
  show ?case
    using cell cell1 l r fin
    by (subst avl_tree_free_helper.simps) (cases "l = Tip"; cases "r = Tip"; simp add: store_simps)
qed simp

lemma avl_tree_free_all:
  assumes "tree_rep t T" and "tlength t = 0 \<longleftrightarrow> T = Tip"
  shows "\<exists>st. avl_tree_free t True = Some (map Some (keys T), st) \<and> cells st = Map.empty"
proof -
  obtain rt rootn where r: "root t = Some rt" "zrep (store t) rt [] T"
      "rd (store t) (root t) = Some rootn" "right rootn = ptr_of T"
    using tree_rep_root [OF assms(1)] by auto
  let ?st = "(store t)\<lparr>cells := (cells (store t)) |` (- set (addrs T))\<rparr>"
  have T: "rep (cells (store t)) (Some rt) T" "distinct (addrs T)" "rt \<notin> set (addrs T)"
    and dom: "dom (cells (store t)) = insert rt (set (addrs T))"
    using r(2) by (auto simp: zrep_def)
  have "(if tlength t \<noteq> 0 then Option.bind (rd (store t) (root t))
         (\<lambda>rootn. avl_tree_free_helper True (right rootn) (store t)) else Some ([], store t)) =
      Some (map Some (keys T), ?st)"
    using free_helper_rep [OF T(1) _ T(2)] r(3,4) assms(2) by (cases T) (simp_all add: restrict_all)
  moreover have "\<exists>n. cells ?st rt = Some n"
    using dom T(3) by (auto simp: restrict_map_def)
  moreover have "(cells ?st)(rt := None) = Map.empty"
    using dom by (auto simp: restrict_map_def fun_eq_iff)
  ultimately show ?thesis
    using r(1) by (auto simp: avl_tree_free_def free_node_def)
qed

subsection \<open>A correct tree passes the check\<close>

lemma verify_balance_rep:
  "rep (cells st) par u \<Longrightarrow> balanced u \<Longrightarrow> avl_verify_balance st (ptr_of u) = Some (int (ht u))"
proof (induction u arbitrary: par)
  case Tip
  then show ?case by (subst avl_verify_balance.simps) simp
next
  case (Nd l a k w r)
  then show ?case
    using Nd.IH(1) [of "Some a"] Nd.IH(2) [of "Some a"]
    by (subst avl_verify_balance.simps) (auto simp: store_simps)
qed

lemma verify_parent_rep:
  "rep (cells st) par u \<Longrightarrow> u \<noteq> Tip \<Longrightarrow> avl_verify_parent st (ptr_of u) par = Some ()"
proof (induction u arbitrary: par)
  case (Nd l a k w r)
  then show ?case
    using Nd.IH(1) [of "Some a"] Nd.IH(2) [of "Some a"]
    by (subst avl_verify_parent.simps) (auto simp: store_simps)
qed simp

lemma verify_rank_rep:
  "rep (cells st) par u \<Longrightarrow> ranked u \<Longrightarrow> length (keys u) < 2 ^ 30 \<Longrightarrow>
   avl_verify_rank st (ptr_of u) = Some (Inr (of_nat (length (keys u))))"
proof (induction u arbitrary: par)
  case Tip
  then show ?case by (subst avl_verify_rank.simps) simp
next
  case (Nd l a k w r)
  let ?n = "node k (ptr_of l) (ptr_of r) par w"
  have cell: "rd st (Some a) = Some ?n" using Nd.prems(1) by (simp add: store_simps)
  have "unat (ucast (drop_bit 2 w) :: 64 word) = Suc (length (keys l))"
    using unat_rank64 [OF Nd.prems(2,3)] .
  from arg_cong [OF this, of "of_nat :: nat \<Rightarrow> 64 word"]
  have rk: "ucast (drop_bit 2 w) = (of_nat (Suc (length (keys l))) :: 64 word)"
    by simp
  have l: "avl_verify_rank st (ptr_of l) = Some (Inr (of_nat (length (keys l))))"
    using Nd.IH(1) [of "Some a"] Nd.prems by auto
  have r: "avl_verify_rank st (ptr_of r) = Some (Inr (of_nat (length (keys r))))"
    using Nd.IH(2) [of "Some a"] Nd.prems by auto
  show ?case
    using cell l r rk by (subst avl_verify_rank.simps)
      (cases "l = Tip"; cases "r = Tip"; simp add: store_simps algebra_simps)
qed

lemma avl_verify_passes:
  assumes "tree_rep t T" and "balanced T" and "ranked T" and "length (keys T) < 2 ^ 30"
    and "tlength t = 0 \<longleftrightarrow> T = Tip"
  shows "avl_verify t = Some (Inr 0)"
proof -
  obtain rt rootn where r: "root t = Some rt" "zrep (store t) rt [] T"
      "rd (store t) (root t) = Some rootn" "right rootn = ptr_of T"
    using tree_rep_root [OF assms(1)] by auto
  then have rep: "rep (cells (store t)) (root t) T" by (simp add: zrep_def)
  show ?thesis
    using r(3,4) verify_balance_rep [OF rep assms(2)] verify_parent_rep [OF rep]
      verify_rank_rep [OF rep assms(3,4)] assms(5)
    by (auto simp: avl_verify_def)
qed

end
