(* ===== verification/Avl_Dict.thy ===== *)
theory Avl_Dict
  imports Avl_Order Avl_Check
begin

section \<open>The tree as an ordered dictionary\<close>

text \<open>
  The interface the other components use the AVL library through, as a locale: what
  insertion, deletion and lookup promise about the sorted list of keys. The clients' patterns
  (replace an entry, remove it, look it up) are derived from the contract once. The AVL trees
  provide the contract for every comparison that is a total preorder.
\<close>

subsection \<open>The contract\<close>

definition strict_by :: "('k \<Rightarrow> 'k \<Rightarrow> int) \<Rightarrow> 'k list \<Rightarrow> bool" where
  "strict_by cmp ks \<longleftrightarrow> sorted_wrt (\<lambda>a b. cmp a b < 0) ks"

definition find_by :: "('k \<Rightarrow> 'k \<Rightarrow> int) \<Rightarrow> 'k \<Rightarrow> 'k list \<Rightarrow> 'k option" where
  "find_by cmp x ks = find (\<lambda>k. cmp x k = 0) ks"

definition del_by :: "('k \<Rightarrow> 'k \<Rightarrow> int) \<Rightarrow> 'k \<Rightarrow> 'k list \<Rightarrow> 'k list" where
  "del_by cmp x ks = filter (\<lambda>k. cmp x k \<noteq> 0) ks"

definition put_by :: "('k \<Rightarrow> 'k \<Rightarrow> int) \<Rightarrow> 'k \<Rightarrow> 'k list \<Rightarrow> 'k list" where
  "put_by cmp x ks = ins_by cmp x (del_by cmp x ks)"

locale ordered_dict = key_order cmp
  for cmp :: "'k \<Rightarrow> 'k \<Rightarrow> int" +
  fixes ins :: "'d \<Rightarrow> 'k \<Rightarrow> (int \<times> 'd) option"
    and del :: "'d \<Rightarrow> 'k \<Rightarrow> (int \<times> 'k list \<times> 'd) option"
    and get :: "'d \<Rightarrow> 'k \<Rightarrow> (int \<times> 'k option) option"
    and rep :: "'d \<Rightarrow> 'k list \<Rightarrow> bool"
  assumes ins_ok: "rep d ks \<Longrightarrow> sorted_by cmp ks \<Longrightarrow> \<exists>d'. ins d x = Some (0, d') \<and> rep d' (ins_by cmp x ks)"
    and del_hit: "rep d ks \<Longrightarrow> sorted_by cmp ks \<Longrightarrow> \<exists>k \<in> set ks. cmp x k = 0 \<Longrightarrow>
      \<exists>k d' xs ys. del d x = Some (0, [k], d') \<and> rep d' (xs @ ys) \<and> ks = xs @ k # ys \<and> cmp x k = 0"
    and del_miss: "rep d ks \<Longrightarrow> sorted_by cmp ks \<Longrightarrow> \<forall>k \<in> set ks. cmp x k \<noteq> 0 \<Longrightarrow>
      \<exists>d'. del d x = Some (-1, [], d') \<and> rep d' ks"
    and get_ok: "rep d ks \<Longrightarrow> sorted_by cmp ks \<Longrightarrow> \<exists>res. get d x = Some res \<and> lookup_ok cmp x ks res"

context key_order
begin

lemma strict_sorted: "strict_by cmp ks \<Longrightarrow> sorted_by cmp ks"
  unfolding strict_by_def sorted_by_def by (rule sorted_wrt_mono_rel) auto

lemma strict_by_Cons: "strict_by cmp (x # xs) \<longleftrightarrow> (\<forall>y \<in> set xs. cmp x y < 0) \<and> strict_by cmp xs"
  by (simp add: strict_by_def)

lemma strict_by_append:
  "strict_by cmp (xs @ ys) \<longleftrightarrow>
     strict_by cmp xs \<and> strict_by cmp ys \<and> (\<forall>x \<in> set xs. \<forall>y \<in> set ys. cmp x y < 0)"
  by (auto simp: strict_by_def sorted_wrt_append)

lemma strict_del: "strict_by cmp ks \<Longrightarrow> strict_by cmp (del_by cmp x ks)"
  unfolding strict_by_def del_by_def by (rule sorted_wrt_filter)

lemma strict_ins:
  "strict_by cmp ks \<Longrightarrow> \<forall>k \<in> set ks. cmp x k \<noteq> 0 \<Longrightarrow> strict_by cmp (ins_by cmp x ks)"
proof (induction ks)
  case (Cons y ys)
  have "cmp x y \<noteq> 0" using Cons.prems(2) by simp
  show ?case
  proof (cases "cmp x y \<le> 0")
    case True
    then have "cmp x y < 0" using \<open>cmp x y \<noteq> 0\<close> by simp
    then show ?thesis
      using Cons.prems(1) cmp_less_le_trans [of x y] by (auto simp: strict_by_Cons less_imp_le)
  next
    case False
    then show ?thesis
      using Cons cmp_antisym [of x y] by (auto simp: strict_by_Cons set_ins_by)
  qed
qed (simp add: strict_by_Cons strict_by_def)

lemma strict_put: "strict_by cmp ks \<Longrightarrow> strict_by cmp (put_by cmp x ks)"
  unfolding put_by_def by (rule strict_ins, erule strict_del) (simp add: del_by_def)

text \<open>In a strictly sorted list there is at most one equal key.\<close>

lemma strict_unique:
  assumes "strict_by cmp (xs @ k # ys)" and "cmp x k = 0"
  shows "del_by cmp x (xs @ k # ys) = xs @ ys" and "find_by cmp x (xs @ k # ys) = Some k"
proof -
  have no: "cmp x y \<noteq> 0" if "y \<in> set xs \<union> set ys" for y
  proof -
    have "cmp y k < 0 \<or> cmp k y < 0" using that assms(1) by (auto simp: strict_by_append strict_by_Cons)
    moreover have "cmp y k = 0 \<and> cmp k y = 0" if "cmp x y = 0"
      using cmp_equal_left_eq [of x k y] cmp_zero_sym [of k y] assms(2) that by auto
    ultimately show ?thesis by auto
  qed
  then show "del_by cmp x (xs @ k # ys) = xs @ ys"
    using assms(2) by (simp add: del_by_def filter_id_conv)
  have "find (\<lambda>k. cmp x k = 0) xs = None"
    using no by (simp add: find_None_iff)
  then have "find (\<lambda>k. cmp x k = 0) (xs @ zs) = find (\<lambda>k. cmp x k = 0) zs" for zs
    by (induction xs) (auto split: if_splits)
  then show "find_by cmp x (xs @ k # ys) = Some k"
    using assms(2) by (simp add: find_by_def)
qed

lemma find_del: "find_by cmp y (del_by cmp x ks) = (if cmp x y = 0 then None else find_by cmp y ks)"
proof (induction ks)
  case (Cons k ks)
  have "cmp x y = 0 \<Longrightarrow> cmp y k = 0 \<longleftrightarrow> cmp x k = 0"
    by (metis cmp_equal_left_eq)
  moreover have "cmp y k = 0 \<Longrightarrow> cmp x k = 0 \<Longrightarrow> cmp x y = 0"
    by (metis cmp_equal_left_eq cmp_zero_sym)
  ultimately show ?case using Cons by (auto simp: find_by_def del_by_def)
qed (simp add: find_by_def del_by_def)

lemma find_ins:
  "\<forall>k \<in> set ks. cmp x k \<noteq> 0 \<Longrightarrow>
   find_by cmp y (ins_by cmp x ks) = (if cmp x y = 0 then Some x else find_by cmp y ks)"
proof (induction ks)
  case Nil
  then show ?case using cmp_zero_sym by (auto simp: find_by_def)
next
  case (Cons k ks)
  have "cmp x y = 0 \<Longrightarrow> cmp y k \<noteq> 0" "cmp y x = 0 \<longleftrightarrow> cmp x y = 0"
    using Cons.prems cmp_equal_left_eq [of x y k] cmp_zero_sym by auto
  then show ?case using Cons by (auto simp: find_by_def)
qed

lemma find_put: "find_by cmp y (put_by cmp x ks) = (if cmp x y = 0 then Some x else find_by cmp y ks)"
  using find_ins [of "del_by cmp x ks" x y] find_del [of y x ks]
  by (simp add: put_by_def del_by_def)

lemma set_put: "set (put_by cmp x ks) = insert x {k \<in> set ks. cmp x k \<noteq> 0}"
  by (auto simp: put_by_def set_ins_by del_by_def)

end

subsection \<open>What clients do with a dictionary\<close>

context ordered_dict
begin

lemma get_find:
  assumes "rep d ks" and "strict_by cmp ks"
  shows "get d x = Some (case find_by cmp x ks of None \<Rightarrow> (-1, None) | Some k \<Rightarrow> (0, Some k))"
proof -
  obtain res where res: "get d x = Some res" "lookup_ok cmp x ks res"
    using get_ok [OF assms(1) strict_sorted [OF assms(2)]] by blast
  show ?thesis
  proof (cases "\<exists>k \<in> set ks. cmp x k = 0")
    case True
    then obtain k where k: "k \<in> set ks" "cmp x k = 0" "res = (0, Some k)"
      using res(2) by (auto simp: lookup_ok_def)
    obtain xs ys where "ks = xs @ k # ys" using k(1) by (auto dest: split_list)
    then show ?thesis using strict_unique(2) [of xs k ys x] assms(2) k res(1) by simp
  next
    case False
    then have "find_by cmp x ks = None" by (auto simp: find_by_def find_None_iff)
    then show ?thesis using res False by (auto simp: lookup_ok_def)
  qed
qed

lemma del_del:
  assumes "rep d ks" and "strict_by cmp ks"
  shows "\<exists>d'. del d x = Some (case find_by cmp x ks of None \<Rightarrow> (-1, [], d') | Some k \<Rightarrow> (0, [k], d')) \<and>
     rep d' (del_by cmp x ks)"
proof (cases "\<exists>k \<in> set ks. cmp x k = 0")
  case True
  then obtain k d' xs ys where "del d x = Some (0, [k], d')" "rep d' (xs @ ys)" "ks = xs @ k # ys" "cmp x k = 0"
    using del_hit [OF assms(1) strict_sorted [OF assms(2)]] by blast
  then show ?thesis using strict_unique [of xs k ys x] assms(2) by auto
next
  case False
  then have "find_by cmp x ks = None" "del_by cmp x ks = ks"
    by (auto simp: find_by_def find_None_iff del_by_def filter_id_conv)
  then show ?thesis using del_miss [OF assms(1) strict_sorted [OF assms(2)]] False by auto
qed

lemma ins_new:
  assumes "rep d ks" and "strict_by cmp ks" and "find_by cmp x ks = None"
  shows "\<exists>d'. ins d x = Some (0, d') \<and> rep d' (put_by cmp x ks)"
proof -
  have "del_by cmp x ks = ks"
    using assms(3) by (simp add: find_by_def find_None_iff del_by_def filter_id_conv)
  then show ?thesis
    using ins_ok [OF assms(1) strict_sorted [OF assms(2)]] by (simp add: put_by_def)
qed

text \<open>Replacing an entry: delete what is equal, then insert.\<close>

lemma del_ins:
  assumes "rep d ks" and "strict_by cmp ks"
  shows "\<exists>d1 d2 c. del d x = Some (c, (case find_by cmp x ks of None \<Rightarrow> [] | Some k \<Rightarrow> [k]), d1) \<and>
     ins d1 x = Some (0, d2) \<and> rep d2 (put_by cmp x ks)"
proof -
  obtain d1 where d1: "del d x = Some (case find_by cmp x ks of None \<Rightarrow> (-1, [], d1) | Some k \<Rightarrow> (0, [k], d1))"
      "rep d1 (del_by cmp x ks)"
    using del_del [OF assms] by blast
  obtain d2 where "ins d1 x = Some (0, d2)" "rep d2 (put_by cmp x ks)"
    using ins_ok [OF d1(2) strict_sorted [OF strict_del [OF assms(2)]]] by (auto simp: put_by_def)
  then show ?thesis using d1(1) by (auto split: option.splits)
qed

end

subsection \<open>AVL trees provide it\<close>

definition avl_rep :: "('k \<Rightarrow> 'k \<Rightarrow> int) \<Rightarrow> 'k avl_tree \<Rightarrow> 'k list \<Rightarrow> bool" where
  "avl_rep cmp t ks \<longleftrightarrow> (\<exists>T. tree_rep t T \<and> balanced T \<and> keys T = ks) \<and> compare_fun t = cmp \<and>
     limit (store t) = None \<and> tlength t = of_nat (length ks)"

lemma avl_rep_new:
  assumes "limit st = None" and "cells st = Map.empty"
  shows "\<exists>t. avl_tree_new cmp st = Some t \<and> avl_rep cmp t []"
proof -
  let ?t = "the (avl_tree_new cmp st)"
  have t: "avl_tree_new cmp st = Some ?t" "compare_fun ?t = cmp" "limit (store ?t) = None" "tlength ?t = 0"
    using assms(1) by (simp_all add: avl_tree_new_def malloc_def avl_node_new_def)
  obtain n where "root ?t = Some (Suc (brk st))" "brk (store ?t) = Suc (Suc (brk st))"
      "cells (store ?t) = [Suc (brk st) \<mapsto> sentinel None n]"
    using assms by (simp add: avl_tree_new_def malloc_def avl_node_new_def store_simps)
  then have "tree_rep ?t Tip"
    by (simp add: tree_rep_def zrep_def)
  then have "\<exists>T. tree_rep ?t T \<and> balanced T \<and> keys T = []"
    by (intro exI [of _ Tip]) simp
  then show ?thesis using t unfolding avl_rep_def by (intro exI [of _ ?t]) simp
qed

lemma avl_rep_insert:
  assumes "key_order cmp" and "avl_rep cmp t ks" and "sorted_by cmp ks"
  shows "\<exists>t'. avl_insert t x = Some (0, t') \<and> avl_rep cmp t' (ins_by cmp x ks)"
proof -
  obtain T where T: "tree_rep t T" "balanced T" "keys T = ks" "compare_fun t = cmp" "limit (store t) = None"
      "tlength t = of_nat (length ks)"
    using assms(2) by (auto simp: avl_rep_def)
  have "can_malloc (store t)" using T(5) by (simp add: can_malloc_def)
  then obtain t' T' where t': "avl_insert t x = Some (0, t')" "inserted t x T t' T'"
    using avl_insert_inserts [OF T(1) _ T(2)] by blast
  have "keys T' = ins_by cmp x ks"
    using t'(2) T(3,4) key_order.keys_ins_raw_sorted [OF assms(1), of T] assms(3)
    by (simp add: inserted_def)
  moreover have "compare_fun t' = cmp" "limit (store t') = None"
      "tlength t' = of_nat (length (ins_by cmp x ks))" "tree_rep t' T'" "balanced T'"
    using t'(2) T(4,5,6) by (simp_all add: inserted_def same_tree_def one_more_def length_ins_by)
  ultimately show ?thesis
    using t'(1) unfolding avl_rep_def by blast
qed

lemma avl_rep_delete_hit:
  assumes "key_order cmp" and "avl_rep cmp t ks" and "sorted_by cmp ks" and "\<exists>k \<in> set ks. cmp x k = 0"
  shows "\<exists>k t' xs ys. avl_delete t x = Some (0, [k], t') \<and> avl_rep cmp t' (xs @ ys) \<and>
     ks = xs @ k # ys \<and> cmp x k = 0"
proof -
  obtain T where T: "tree_rep t T" "balanced T" "keys T = ks" "compare_fun t = cmp" "limit (store t) = None"
      "tlength t = of_nat (length ks)"
    using assms(2) by (auto simp: avl_rep_def)
  have nt: "T \<noteq> Tip" using T(3) assms(4) by auto
  have "snd (snd (dfind cmp x [] T))"
    using key_order.dfind_iff [OF assms(1) _ nt] T(3) assms(3,4) by auto
  then obtain fs U where "dfind (compare_fun t) x [] T = (fs, U, True)"
    using T(4) by (metis prod.collapse)
  from avl_delete_hit [OF T(1,2) nt this] obtain k t' T' where
    t': "avl_delete t x = Some (0, [k], t')" "deleted t x T k t' T'" by blast
  then obtain xs ys where "ks = xs @ k # ys" "keys T' = xs @ ys"
    using T(3) by (auto simp: deleted_def)
  moreover have "avl_rep cmp t' (xs @ ys)"
  proof -
    have "compare_fun t' = cmp" "limit (store t') = None" "tlength t' = of_nat (length (xs @ ys))"
        "tree_rep t' T'" "balanced T'"
      using t'(2) T(4-6) calculation(1) by (simp_all add: deleted_def same_tree_def same_mem_def)
    then show ?thesis using calculation(2) unfolding avl_rep_def by blast
  qed
  moreover have "cmp x k = 0" using t'(2) T(4) by (simp add: deleted_def)
  ultimately show ?thesis using t'(1) by blast
qed

lemma avl_rep_delete_miss:
  assumes "key_order cmp" and "avl_rep cmp t ks" and "sorted_by cmp ks" and "\<forall>k \<in> set ks. cmp x k \<noteq> 0"
  shows "\<exists>t'. avl_delete t x = Some (-1, [], t') \<and> avl_rep cmp t' ks"
proof -
  obtain T where T: "tree_rep t T" "balanced T" "keys T = ks" "compare_fun t = cmp" "limit (store t) = None"
      "tlength t = of_nat (length ks)"
    using assms(2) by (auto simp: avl_rep_def)
  show ?thesis
  proof (cases "T = Tip")
    case True
    then show ?thesis using avl_delete_empty [of t x] T assms(2) by auto
  next
    case False
    have "\<not> snd (snd (dfind cmp x [] T))"
      using key_order.dfind_iff [OF assms(1) _ False] T(3) assms(3,4) by auto
    then obtain fs U where "dfind (compare_fun t) x [] T = (fs, U, False)"
      using T(4) by (metis prod.collapse)
    from avl_delete_miss [OF T(1) False this] obtain st' where
      "avl_delete t x = Some (-1, [], t\<lparr>store := st'\<rparr>)"
      "tree_rep (t\<lparr>store := st'\<rparr>) (del_miss (compare_fun t) x T)" "same_mem (store t) st'" by blast
    moreover from this have "avl_rep cmp (t\<lparr>store := st'\<rparr>) ks"
      using T balanced_del_miss [OF T(2), of "compare_fun t" x] keys_del_miss [of "compare_fun t" x T]
      unfolding avl_rep_def same_mem_def by (intro conjI exI [of _ "del_miss (compare_fun t) x T"]) simp_all
    ultimately show ?thesis by blast
  qed
qed

lemma avl_rep_get:
  assumes "key_order cmp" and "avl_rep cmp t ks" and "sorted_by cmp ks"
  shows "\<exists>res. avl_get_by_key t x = Some res \<and> lookup_ok cmp x ks res"
proof -
  obtain T where T: "tree_rep t T" "keys T = ks" "compare_fun t = cmp"
    using assms(2) by (auto simp: avl_rep_def)
  obtain rt rootn where r: "root t = Some rt" "zrep (store t) rt [] T"
      "rd (store t) (root t) = Some rootn" "right rootn = ptr_of T"
    using tree_rep_root [OF T(1)] by auto
  show ?thesis
  proof (cases "T = Tip")
    case True
    then show ?thesis using r T(2) by (auto simp: avl_get_by_key_def lookup_ok_def)
  next
    case False
    then show ?thesis
      using key_order.get_by_key_loop_zrep [OF assms(1) r(2) False, of x] assms(3) r(3,4) T(2,3)
      by (simp add: avl_get_by_key_def)
  qed
qed

sublocale key_order \<subseteq> avl: ordered_dict cmp avl_insert avl_delete avl_get_by_key "avl_rep cmp"
proof
  have K: "key_order cmp" by unfold_locales
  show "\<exists>d'. avl_insert d x = Some (0, d') \<and> avl_rep cmp d' (ins_by cmp x ks)"
    if "avl_rep cmp d ks" "sorted_by cmp ks" for d ks x
    using that by (rule avl_rep_insert [OF K])
  show "\<exists>k d' xs ys. avl_delete d x = Some (0, [k], d') \<and> avl_rep cmp d' (xs @ ys) \<and> ks = xs @ k # ys \<and> cmp x k = 0"
    if "avl_rep cmp d ks" "sorted_by cmp ks" "\<exists>k \<in> set ks. cmp x k = 0" for d ks x
    using that by (rule avl_rep_delete_hit [OF K])
  show "\<exists>d'. avl_delete d x = Some (-1, [], d') \<and> avl_rep cmp d' ks"
    if "avl_rep cmp d ks" "sorted_by cmp ks" "\<forall>k \<in> set ks. cmp x k \<noteq> 0" for d ks x
    using that by (rule avl_rep_delete_miss [OF K])
  show "\<exists>res. avl_get_by_key d x = Some res \<and> lookup_ok cmp x ks res"
    if "avl_rep cmp d ks" "sorted_by cmp ks" for d ks x
    using that by (rule avl_rep_get [OF K])
qed

end
