(* ===== verification/Avl_Span.thy ===== *)
theory Avl_Span
  imports Avl_Order
begin

section \<open>The indices of the keys equal to a key\<close>

text \<open>
  \<open>avl_get_index_by_key\<close>, \<open>avl_get_span_by_key\<close> and \<open>avl_get_span_by_two_keys\<close>: the search
  that counts ranks, and the loops that go to the first and the last equal key. An index is a
  64-bit \<open>unsigned long\<close>; one that the code never wrote is \<open>None\<close> (the search in an empty
  tree does not set \<open>*index\<close>, and the callers copy what their variable holds).
\<close>

subsection \<open>The code\<close>

partial_function (option) index_by_key_loop ::
    "('k \<Rightarrow> 'k \<Rightarrow> int) \<Rightarrow> 'k \<Rightarrow> ptr \<Rightarrow> 64 word \<Rightarrow> 'k store \<Rightarrow> (ptr \<times> 64 word) option" where
  "index_by_key_loop cmp ky x m st = do {
     xn \<leftarrow> rd st x;
     c \<leftarrow> cmp_key cmp ky xn;
     if c < 0 then
       (if left xn \<noteq> None then do {
          ln \<leftarrow> rd st (left xn);
          index_by_key_loop cmp ky (left xn)
            (m - ucast (AVL_GET_RANK xn) + ucast (AVL_GET_RANK ln)) st
        } else Some (None, m - 2))
     else if c > 0 then
       (if right xn \<noteq> None then do {
          rn \<leftarrow> rd st (right xn);
          index_by_key_loop cmp ky (right xn) (m + ucast (AVL_GET_RANK rn)) st
        } else Some (None, m - 1))
     else Some (x, m - 1)
   }"

text \<open>The node found, and what \<open>*index\<close> holds afterwards.\<close>

definition avl_get_index_by_key :: "'k avl_tree \<Rightarrow> 'k \<Rightarrow> (ptr \<times> 64 word option) option" where
  "avl_get_index_by_key tree ky = do {
     rootn \<leftarrow> rd (store tree) (root tree);
     if right rootn = None then Some (None, None)
     else do {
       xn \<leftarrow> rd (store tree) (right rootn);
       (x, m) \<leftarrow> index_by_key_loop (compare_fun tree) ky (right rootn) (ucast (AVL_GET_RANK xn)) (store tree);
       Some (x, Some m)
     }
   }"

text \<open>The two loops over equal neighbours; they return the index they have counted to.\<close>

partial_function (option) span_left_loop ::
    "('k \<Rightarrow> 'k \<Rightarrow> int) \<Rightarrow> 'k \<Rightarrow> ptr \<Rightarrow> 64 word \<Rightarrow> 'k store \<Rightarrow> 64 word option" where
  "span_left_loop cmp ky p i st =
     (if p \<noteq> None \<and> i > 0 then do {
        n \<leftarrow> rd st p;
        c \<leftarrow> cmp_key cmp ky n;
        if c = 0 then do {
          q \<leftarrow> avl_get_prev st p;
          span_left_loop cmp ky q (i - 1) st
        } else Some i
      } else Some i)"

partial_function (option) span_right_loop ::
    "('k \<Rightarrow> 'k \<Rightarrow> int) \<Rightarrow> 'k \<Rightarrow> 64 word \<Rightarrow> ptr \<Rightarrow> 64 word \<Rightarrow> 'k store \<Rightarrow> 64 word option" where
  "span_right_loop cmp ky len p j st =
     (if p \<noteq> None \<and> j \<le> len then do {
        n \<leftarrow> rd st p;
        c \<leftarrow> cmp_key cmp ky n;
        if c = 0 then do {
          q \<leftarrow> avl_get_next st p;
          span_right_loop cmp ky len q (j + 1) st
        } else Some j
      } else Some j)"

text \<open>A loop that counts reads its counter; the counter was written whenever a node was found.\<close>

definition avl_get_span_by_key ::
    "'k avl_tree \<Rightarrow> 'k \<Rightarrow> (int \<times> 64 word option \<times> 64 word option) option" where
  "avl_get_span_by_key tree ky = do {
     (nd, m) \<leftarrow> avl_get_index_by_key tree ky;
     if nd \<noteq> None then do {
       m \<leftarrow> m;
       l \<leftarrow> avl_get_prev (store tree) nd;
       i \<leftarrow> span_left_loop (compare_fun tree) ky l m (store tree);
       r \<leftarrow> avl_get_next (store tree) nd;
       j \<leftarrow> span_right_loop (compare_fun tree) ky (ucast (tlength tree)) r m (store tree);
       Some (0, Some i, Some (j + 1))
     } else Some (0, m, m)
   }"

definition avl_get_span_by_two_keys ::
    "'k avl_tree \<Rightarrow> 'k \<Rightarrow> 'k \<Rightarrow> (int \<times> 64 word option \<times> 64 word option) option" where
  "avl_get_span_by_two_keys tree low_key high_key =
     (case (if compare_fun tree low_key high_key > 0 then (high_key, low_key) else (low_key, high_key)) of
        (low_key, high_key) \<Rightarrow> do {
          (low_node, i) \<leftarrow> avl_get_index_by_key tree low_key;
          (high_node, j) \<leftarrow> avl_get_index_by_key tree high_key;
          i \<leftarrow> (if low_node \<noteq> None then do {
                  i \<leftarrow> i;
                  l \<leftarrow> avl_get_prev (store tree) low_node;
                  i \<leftarrow> span_left_loop (compare_fun tree) low_key l i (store tree);
                  Some (Some i)
                } else Some (map_option (\<lambda>i. i + 1) i));
          j \<leftarrow> (if high_node \<noteq> None then do {
                  j \<leftarrow> j;
                  r \<leftarrow> avl_get_next (store tree) high_node;
                  j \<leftarrow> span_right_loop (compare_fun tree) high_key (ucast (tlength tree)) r j (store tree);
                  Some (Some j)
                } else Some (map_option (\<lambda>j. j + 1) j));
          Some (0, i, j)
        })"

subsection \<open>Counting in a sorted list\<close>

lemma nth_iff_count:
  assumes "\<And>i j. i < j \<Longrightarrow> j < length ks \<Longrightarrow> P (ks ! j) \<Longrightarrow> P (ks ! i)" and "j < length ks"
  shows "P (ks ! j) \<longleftrightarrow> j < length (filter P ks)"
  using assms
proof (induction ks arbitrary: j)
  case (Cons k ks)
  have tl: "P (ks ! i)" if "i < j" "j < length ks" "P (ks ! j)" for i j
    using Cons.prems(1) [of "Suc i" "Suc j"] that by simp
  show ?case
  proof (cases j)
    case 0
    have "filter P ks = []" if "\<not> P k"
    proof -
      have "\<not> P y" if "y \<in> set ks" for y
        using Cons.prems(1) [of 0] \<open>\<not> P k\<close> that by (fastforce simp: in_set_conv_nth)
      then show ?thesis by (simp add: filter_empty_conv)
    qed
    then show ?thesis using 0 by auto
  next
    case (Suc i)
    then have "P k" if "P (ks ! i)" using Cons.prems(1) [of 0 j] Cons.prems(2) that by simp
    moreover have "\<not> P (ks ! i)" if "\<not> P k" using calculation that by blast
    moreover have "P (ks ! i) \<longleftrightarrow> i < length (filter P ks)"
      using Cons.IH [of i] tl Cons.prems(2) Suc by simp
    ultimately show ?thesis using Suc by (cases "P k") auto
  qed
qed simp

context key_order
begin

lemma sorted_nth_le: "sorted_by cmp ks \<Longrightarrow> i < j \<Longrightarrow> j < length ks \<Longrightarrow> cmp (ks ! i) (ks ! j) \<le> 0"
  unfolding sorted_by_def by (rule sorted_wrt_nth_less)

lemma greater_nth: "sorted_by cmp ks \<Longrightarrow> j < length ks \<Longrightarrow> 0 < cmp x (ks ! j) \<longleftrightarrow> j < n_less cmp x ks"
  unfolding n_less_def
  by (rule nth_iff_count) (use sorted_nth_le greater_left in blast)+

lemma geq_nth: "sorted_by cmp ks \<Longrightarrow> j < length ks \<Longrightarrow> 0 \<le> cmp x (ks ! j) \<longleftrightarrow> j < n_leq cmp x ks"
  unfolding n_leq_def
proof (rule nth_iff_count)
  fix i j
  assume s: "sorted_by cmp ks" "i < j" "j < length ks" "0 \<le> cmp x (ks ! j)"
  have "cmp (ks ! j) x \<le> 0" using s(4) cmp_antisym [of "ks ! j" x] by linarith
  then have "cmp (ks ! i) x \<le> 0" using cmp_trans [OF sorted_nth_le [OF s(1-3)]] by blast
  then show "0 \<le> cmp x (ks ! i)" using cmp_antisym [of "ks ! i" x] by linarith
qed auto

text \<open>The keys equal to \<open>x\<close> are those from number \<open>n_less\<close> to before number \<open>n_leq\<close>.\<close>

lemma equal_nth:
  assumes "sorted_by cmp ks" and "j < length ks"
  shows "cmp x (ks ! j) = 0 \<longleftrightarrow> n_less cmp x ks \<le> j \<and> j < n_leq cmp x ks"
  using greater_nth [OF assms, of x] geq_nth [OF assms, of x] by linarith

lemma n_leq_length: "n_leq cmp x ks \<le> length ks"
  by (simp add: n_leq_def)

lemma n_less_absent: "\<forall>k \<in> set ks. cmp x k \<noteq> 0 \<Longrightarrow> n_leq cmp x ks = n_less cmp x ks"
proof -
  assume "\<forall>k \<in> set ks. cmp x k \<noteq> 0"
  then have "filter (\<lambda>k. 0 \<le> cmp x k) ks = filter (\<lambda>k. 0 < cmp x k) ks"
    by (intro filter_cong) force+
  then show ?thesis by (simp add: n_leq_def n_less_def)
qed

end

subsection \<open>The search that counts\<close>

text \<open>What the search owes: the node and number of an equal key, or the place before the keys that are not smaller.\<close>

definition index_ok ::
    "'k store \<Rightarrow> addr \<Rightarrow> 'k atree \<Rightarrow> ('k \<Rightarrow> 'k \<Rightarrow> int) \<Rightarrow> 'k \<Rightarrow> nat \<Rightarrow> 'k list \<Rightarrow> ptr \<times> 64 word \<Rightarrow> bool" where
  "index_ok st rt T cmp x b ks res \<longleftrightarrow>
     (\<exists>i. cursor st rt T i (fst res) \<and> cmp x (keys T ! i) = 0 \<and> snd res = of_nat i) \<or>
     (\<forall>k \<in> set ks. cmp x k \<noteq> 0) \<and> res = (None, of_nat (b + n_less cmp x ks) - 1)"

lemma rank64:
  assumes "ranked (Nd l a k w r)" and "length (keys (Nd l a k w r)) < 2 ^ 30"
  shows "(ucast (drop_bit 2 w) :: 64 word) = of_nat (length (keys l)) + 1"
  using unat_rank64 [OF assms] by (metis of_nat_Suc add.commute of_nat_unat ucast_id)

context key_order
begin

lemma index_by_key_loop_zrep:
  assumes "zrep st rt fs u" and "plug fs u = T" and "ranked u" and "length (keys u) < 2 ^ 30"
    and "sorted_by cmp (keys u)" and "u = Nd l a k w r"
    and "m = of_nat (length (keys_l fs)) + of_nat (length (keys l)) + 1"
  shows "\<exists>res. index_by_key_loop cmp x (ptr_of u) m st = Some res \<and>
     index_ok st rt T cmp x (length (keys_l fs)) (keys u) res"
  using assms
proof (induction u arbitrary: fs m l a k w r)
  case (Nd l' a' k' w' r')
  then have [simp]: "l' = l" "a' = a" "k' = k" "w' = w" "r' = r" by simp_all
  let ?rk = "of_nat (length (keys l)) + 1 :: 64 word"
  have cell: "rd st (Some a) = Some (node k (ptr_of l) (ptr_of r) (Some (cpar rt fs)) w)"
    using zrep_node [OF Nd.prems(1)] by (simp add: store_simps)
  have s: "sorted_by cmp (keys l)" "sorted_by cmp (keys r)" "sorted_by cmp (keys (Nd l a k w r))"
    using Nd.prems(5) by (simp_all only: sorted_by_node) simp_all
  have rk: "(ucast (drop_bit 2 w) :: 64 word) = ?rk"
    using rank64 [of l a k w r] Nd.prems(3,4) by simp
  consider "cmp x k < 0" | "0 < cmp x k" | "cmp x k = 0" by linarith
  then show ?case
  proof cases
    case 1
    have nl: "n_less cmp x (keys (Nd l a k w r)) = n_less cmp x (keys l)"
      using n_less_left [OF s(3) 1] .
    have abs: "\<forall>y \<in> set (k # keys r). cmp x y \<noteq> 0" using filter_left(3) [OF s(3) 1] .
    show ?thesis
    proof (cases l)
      case Tip
      then show ?thesis using 1 cell Nd.prems(7) nl abs
        by (subst index_by_key_loop.simps)
          (simp add: store_simps index_ok_def n_less_def del: of_nat_add)
    next
      case L: (Nd ll la lk lw lr)
      have lcell: "rd st (Some la) = Some (node lk (ptr_of ll) (ptr_of lr) (Some a) lw)"
        using zrep_node [of st rt "FL a k w r # fs" ll la lk lw lr] Nd.prems(1) L
        by (simp add: store_simps zrep_left)
      have lrk: "(ucast (drop_bit 2 lw) :: 64 word) = of_nat (length (keys ll)) + 1"
        using rank64 [of ll la lk lw lr] Nd.prems(3,4) L by simp
      have "index_by_key_loop cmp x (Some a) m st =
          index_by_key_loop cmp x (ptr_of l) (of_nat (length (keys_l fs)) + of_nat (length (keys ll)) + 1) st"
        using 1 cell lcell rk lrk Nd.prems(7) L
        by (subst index_by_key_loop.simps) (simp add: store_simps algebra_simps)
      moreover have "\<exists>res. index_by_key_loop cmp x (ptr_of l) (of_nat (length (keys_l fs)) + of_nat (length (keys ll)) + 1) st = Some res \<and>
          index_ok st rt T cmp x (length (keys_l fs)) (keys l) res"
        using Nd.IH(1) [of "FL a k w r # fs" ll la lk lw lr] Nd.prems s L by (simp add: zrep_left)
      ultimately show ?thesis using nl abs by (auto simp: index_ok_def)
    qed
  next
    case 2
    have nl: "n_less cmp x (keys (Nd l a k w r)) = Suc (length (keys l) + n_less cmp x (keys r))"
      using n_less_right [OF s(3) 2] .
    have abs: "\<forall>y \<in> set (k # keys l). cmp x y \<noteq> 0" using filter_right(3) [OF s(3) 2] .
    show ?thesis
    proof (cases r)
      case Tip
      then show ?thesis using 2 cell Nd.prems(7) nl abs
        by (subst index_by_key_loop.simps) (simp add: store_simps index_ok_def n_less_def)
    next
      case R: (Nd rl ra rk' rw rr)
      have rcell: "rd st (Some ra) = Some (node rk' (ptr_of rl) (ptr_of rr) (Some a) rw)"
        using zrep_node [of st rt "FR l a k w # fs" rl ra rk' rw rr] Nd.prems(1) R
        by (simp add: store_simps zrep_right)
      have rrk: "(ucast (drop_bit 2 rw) :: 64 word) = of_nat (length (keys rl)) + 1"
        using rank64 [of rl ra rk' rw rr] Nd.prems(3,4) R by simp
      let ?m = "of_nat (length (keys_l (FR l a k w # fs))) + of_nat (length (keys rl)) + 1 :: 64 word"
      have "index_by_key_loop cmp x (Some a) m st = index_by_key_loop cmp x (ptr_of r) ?m st"
        using 2 cell rcell rrk Nd.prems(7) R
        by (subst index_by_key_loop.simps) (simp add: store_simps algebra_simps)
      moreover have "\<exists>res. index_by_key_loop cmp x (ptr_of r) ?m st = Some res \<and>
          index_ok st rt T cmp x (length (keys_l (FR l a k w # fs))) (keys r) res"
        using Nd.IH(2) [of "FR l a k w # fs" rl ra rk' rw rr] Nd.prems s R by (simp add: zrep_right)
      ultimately show ?thesis using nl abs by (auto simp: index_ok_def algebra_simps)
    qed
  next
    case 3
    have "keys T ! (length (keys_l fs) + length (keys l)) = k"
      using Nd.prems(2) keys_plug [of fs "Nd l a k w r"] by (auto simp: nth_append)
    moreover have "cursor st rt T (length (keys_l fs) + length (keys l)) (Some a)"
      using Nd.prems(1,2) unfolding cursor_def by force
    moreover have "index_by_key_loop cmp x (Some a) m st = Some (Some a, m - 1)"
      using 3 cell by (subst index_by_key_loop.simps) (simp add: store_simps)
    ultimately show ?thesis using 3 Nd.prems(7) by (auto simp: index_ok_def)
  qed
qed simp

text \<open>The whole search: on a tree that is not empty it writes the index.\<close>

lemma avl_get_index_by_key_ok:
  assumes "compare_fun t = cmp" and "root t = Some rt" and "tree_rep t T" and "ranked T"
    and "sorted_by cmp (keys T)" and "length (keys T) < 2 ^ 30"
  shows "\<exists>p m. avl_get_index_by_key t x = Some (p, m) \<and>
    (if T = Tip then p = None \<and> m = None
     else \<exists>i. m = Some i \<and> index_ok (store t) rt T cmp x 0 (keys T) (p, i))"
proof -
  obtain rootn where r: "zrep (store t) rt [] T" "rd (store t) (root t) = Some rootn" "right rootn = ptr_of T"
    using tree_rep_root [OF assms(3)] assms(2) by auto
  show ?thesis
  proof (cases T)
    case Tip
    then show ?thesis using r by (simp add: avl_get_index_by_key_def)
  next
    case (Nd l a k w rr)
    have "rd (store t) (Some a) = Some (node k (ptr_of l) (ptr_of rr) (Some rt) w)"
      using zrep_node [of "store t" rt "[]" l a k w rr] r(1) Nd by (simp add: store_simps)
    moreover have "(ucast (drop_bit 2 w) :: 64 word) = of_nat (length (keys l)) + 1"
      using rank64 [of l a k w rr] assms(4,6) Nd by simp
    moreover obtain p i where "index_by_key_loop cmp x (Some a) (of_nat (length (keys l)) + 1) (store t) = Some (p, i)"
        "index_ok (store t) rt T cmp x 0 (keys T) (p, i)"
      using index_by_key_loop_zrep [OF r(1) _ assms(4,6,5) Nd, of T _ x] Nd by auto
    ultimately show ?thesis using r(2,3) Nd assms(1) by (simp add: avl_get_index_by_key_def store_simps)
  qed
qed

subsection \<open>The loops over equal neighbours\<close>

lemma span_left_loop_cursor:
  assumes "sorted_by cmp (keys T)" and "i < 2 ^ 30" and "n_less cmp x (keys T) \<le> i"
    and "i \<le> n_leq cmp x (keys T)"
    and "if 0 < i then cursor st rt T (i - 1) p else p = None"
  shows "span_left_loop cmp x p (of_nat i) st = Some (of_nat (n_less cmp x (keys T)))"
  using assms(2-5)
proof (induction i arbitrary: p)
  case 0
  then show ?case by (subst span_left_loop.simps) simp
next
  case (Suc i)
  have c: "cursor st rt T i p" using Suc.prems(4) by simp
  then obtain n where n: "rd st p = Some n" "key n = Some (keys T ! i)" "i < length (keys T)"
    using cursor_key by blast
  obtain q where q: "avl_get_prev st p = Some q" "if 0 < i then cursor st rt T (i - 1) q else q = None"
    using avl_get_prev_cursor [OF c] by auto
  have p: "p \<noteq> None" using c by (auto simp: cursor_def)
  have pos: "(0 :: 64 word) < of_nat (Suc i)"
    using Suc.prems(1) by (simp add: word_less_nat_alt unsigned_of_nat take_bit_nat_eq_self del: of_nat_Suc)
  have eq: "cmp x (keys T ! i) = 0 \<longleftrightarrow> n_less cmp x (keys T) \<le> i"
    using equal_nth [OF assms(1) n(3), of x] Suc.prems(3) by simp
  have step: "span_left_loop cmp x p (of_nat (Suc i)) st =
      (if n_less cmp x (keys T) \<le> i then span_left_loop cmp x q (of_nat i) st else Some (of_nat (Suc i)))"
    using n(1,2) q(1) p pos eq by (subst span_left_loop.simps) (simp add: store_simps)
  show ?case
  proof (cases "n_less cmp x (keys T) \<le> i")
    case True
    then show ?thesis using Suc.IH [OF _ True _ q(2)] Suc.prems step by simp
  next
    case False
    then show ?thesis using Suc.prems(2) step by (simp add: le_Suc_eq)
  qed
qed

lemma span_right_loop_cursor:
  assumes "sorted_by cmp (keys T)" and "length (keys T) < 2 ^ 30" and "n_less cmp x (keys T) \<le> Suc j"
    and "Suc j \<le> n_leq cmp x (keys T)"
    and "if Suc j < length (keys T) then cursor st rt T (Suc j) p else p = None"
    and "len = of_nat (length (keys T))"
  shows "span_right_loop cmp x len p (of_nat j) st = Some (of_nat (n_leq cmp x (keys T)) - 1)"
  using assms(3-5)
proof (induction "n_leq cmp x (keys T) - Suc j" arbitrary: j p)
  case 0
  then have j: "n_leq cmp x (keys T) = Suc j" by simp
  show ?case
  proof (cases "Suc j < length (keys T)")
    case True
    then obtain n where n: "rd st p = Some n" "key n = Some (keys T ! Suc j)"
      using 0(4) cursor_key by fastforce
    have "cmp x (keys T ! Suc j) \<noteq> 0" using equal_nth [OF assms(1) True, of x] j by simp
    then show ?thesis using n j by (subst span_right_loop.simps) (simp add: store_simps)
  next
    case False
    then show ?thesis using 0(4) j by (subst span_right_loop.simps) simp
  qed
next
  case (Suc d)
  have lt: "Suc j < n_leq cmp x (keys T)" using Suc.hyps(2) by simp
  then have lt': "Suc j < length (keys T)" using n_leq_length [of x "keys T"] by simp
  then have c: "cursor st rt T (Suc j) p" using Suc.prems(3) by simp
  then obtain n where n: "rd st p = Some n" "key n = Some (keys T ! Suc j)"
    using cursor_key by blast
  obtain q where q: "avl_get_next st p = Some q"
      "if Suc (Suc j) < length (keys T) then cursor st rt T (Suc (Suc j)) q else q = None"
    using avl_get_next_cursor [OF c] by auto
  have "cmp x (keys T ! Suc j) = 0" using equal_nth [OF assms(1) lt', of x] lt Suc.prems(1) by simp
  moreover have "(of_nat j :: 64 word) \<le> len"
    using lt' assms(2,6) by (simp add: word_le_nat_alt unsigned_of_nat take_bit_nat_eq_self)
  moreover have "p \<noteq> None" using c by (auto simp: cursor_def)
  ultimately have "span_right_loop cmp x len p (of_nat j) st = span_right_loop cmp x len q (of_nat (Suc j)) st"
    using n q(1) by (subst span_right_loop.simps) (simp add: store_simps add.commute)
  then show ?case using Suc.hyps(1) [of "Suc j" q] Suc.hyps(2) Suc.prems(1) lt q(2) by simp
qed

text \<open>Both loops, started beside a node that was found.\<close>

lemma span_loops:
  assumes "sorted_by cmp (keys T)" and "length (keys T) < 2 ^ 30" and "cursor st rt T i p"
    and "cmp x (keys T ! i) = 0" and "len = of_nat (length (keys T))"
  shows "\<exists>l r. avl_get_prev st p = Some l \<and> avl_get_next st p = Some r \<and>
     span_left_loop cmp x l (of_nat i) st = Some (of_nat (n_less cmp x (keys T))) \<and>
     span_right_loop cmp x len r (of_nat i) st = Some (of_nat (n_leq cmp x (keys T)) - 1)"
proof -
  have i: "i < length (keys T)" using cursor_key [OF assms(3)] by auto
  then have b: "n_less cmp x (keys T) \<le> i" "i < n_leq cmp x (keys T)"
    using equal_nth [OF assms(1), of i x] assms(4) by auto
  obtain l r where "avl_get_prev st p = Some l" "if 0 < i then cursor st rt T (i - 1) l else l = None"
      "avl_get_next st p = Some r" "if Suc i < length (keys T) then cursor st rt T (Suc i) r else r = None"
    using avl_get_prev_cursor [OF assms(3)] avl_get_next_cursor [OF assms(3)] by auto
  then show ?thesis
    using span_left_loop_cursor [OF assms(1), of i x] span_right_loop_cursor [OF assms(1,2), of x i]
      b i assms(2,5) by auto
qed

end

subsection \<open>The spans\<close>

text \<open>
  The span of one key: from the number of smaller keys to the number of smaller or equal ones.
  Without an equal key both are the number of smaller keys minus one.
\<close>

definition span_of :: "('k \<Rightarrow> 'k \<Rightarrow> int) \<Rightarrow> 'k \<Rightarrow> 'k list \<Rightarrow> 64 word option \<times> 64 word option" where
  "span_of cmp x ks =
     (if ks = [] then (None, None)
      else if \<exists>k \<in> set ks. cmp x k = 0 then (Some (of_nat (n_less cmp x ks)), Some (of_nat (n_leq cmp x ks)))
      else (Some (of_nat (n_less cmp x ks) - 1), Some (of_nat (n_less cmp x ks) - 1)))"

text \<open>The span of two keys: its end is the last equal key when there is one, not behind it.\<close>

definition two_span_of :: "('k \<Rightarrow> 'k \<Rightarrow> int) \<Rightarrow> 'k \<Rightarrow> 'k \<Rightarrow> 'k list \<Rightarrow> 64 word option \<times> 64 word option" where
  "two_span_of cmp lo hi ks =
     (if ks = [] then (None, None)
      else (Some (of_nat (n_less cmp lo ks)),
            Some (if \<exists>k \<in> set ks. cmp hi k = 0 then of_nat (n_leq cmp hi ks) - 1 else of_nat (n_less cmp hi ks))))"

lemma keys_Nil [simp]: "keys T = [] \<longleftrightarrow> T = Tip"
  by (cases T) auto

context key_order
begin

lemma index_ok_cases:
  assumes "index_ok st rt T cmp x 0 (keys T) (p, m)" and "sorted_by cmp (keys T)"
  obtains (hit) i where "p \<noteq> None" "cursor st rt T i p" "cmp x (keys T ! i) = 0" "m = of_nat i"
      "\<exists>k \<in> set (keys T). cmp x k = 0"
    | (miss) "p = None" "\<forall>k \<in> set (keys T). cmp x k \<noteq> 0" "m = of_nat (n_less cmp x (keys T)) - 1"
  using assms(1) cursor_key [of st rt T _ p] that
  by (fastforce simp: index_ok_def cursor_def in_set_conv_nth)

lemma index_span_cases:
  assumes "compare_fun t = cmp" and "tree_rep t T" and "ranked T" and "T \<noteq> Tip"
    and "sorted_by cmp (keys T)" and "length (keys T) < 2 ^ 30" and "tlength t = of_nat (length (keys T))"
  obtains (hit) p i l r where "avl_get_index_by_key t x = Some (p, Some i)" "p \<noteq> None"
      "\<exists>k \<in> set (keys T). cmp x k = 0"
      "avl_get_prev (store t) p = Some l" "avl_get_next (store t) p = Some r"
      "span_left_loop cmp x l i (store t) = Some (of_nat (n_less cmp x (keys T)))"
      "span_right_loop cmp x (ucast (tlength t)) r i (store t) = Some (of_nat (n_leq cmp x (keys T)) - 1)"
    | (miss) "avl_get_index_by_key t x = Some (None, Some (of_nat (n_less cmp x (keys T)) - 1))"
      "\<forall>k \<in> set (keys T). cmp x k \<noteq> 0"
proof -
  obtain rt where rt: "root t = Some rt" using assms(2) by (auto simp: tree_rep_def)
  have len: "(ucast (tlength t) :: 64 word) = of_nat (length (keys T))"
    using assms(6,7) by (simp add: unsigned_of_nat take_bit_nat_eq_self)
  obtain p m where pm: "avl_get_index_by_key t x = Some (p, Some m)"
      and ok: "index_ok (store t) rt T cmp x 0 (keys T) (p, m)"
    using avl_get_index_by_key_ok [OF assms(1) rt assms(2,3,5,6), of x] assms(4) by auto
  from ok assms(5) show ?thesis
  proof (cases rule: index_ok_cases)
    case (hit j)
    then show ?thesis
      using that(1) [OF pm] span_loops [OF assms(5,6) hit(2,3) len] by auto
  next
    case miss
    then show ?thesis using that(2) pm by simp
  qed
qed

lemma avl_get_index_by_key_Tip:
  "tree_rep t Tip \<Longrightarrow> avl_get_index_by_key t x = Some (None, None)"
  using tree_rep_root [of t Tip] by (auto simp: avl_get_index_by_key_def)

lemma avl_get_span_by_key_eq:
  assumes "compare_fun t = cmp" and "tree_rep t T" and "ranked T"
    and "sorted_by cmp (keys T)" and "length (keys T) < 2 ^ 30" and "tlength t = of_nat (length (keys T))"
  shows "\<exists>lo hi. avl_get_span_by_key t x = Some (0, lo, hi) \<and> (lo, hi) = span_of cmp x (keys T)"
proof (cases "T = Tip")
  case True
  then show ?thesis
    using avl_get_index_by_key_Tip [of t x] assms(2) by (simp add: avl_get_span_by_key_def span_of_def)
next
  case False
  from assms(1-3) False assms(4-6) show ?thesis
  proof (cases rule: index_span_cases [where x = x])
    case hit
    then show ?thesis using False assms(1) by (auto simp: avl_get_span_by_key_def span_of_def)
  next
    case miss
    then show ?thesis using False by (auto simp: avl_get_span_by_key_def span_of_def)
  qed
qed

text \<open>The two sides of a span of two keys, one after the other.\<close>

lemma two_span_low:
  assumes "compare_fun t = cmp" and "tree_rep t T" and "ranked T" and "T \<noteq> Tip"
    and "sorted_by cmp (keys T)" and "length (keys T) < 2 ^ 30" and "tlength t = of_nat (length (keys T))"
  shows "\<exists>p i. avl_get_index_by_key t x = Some (p, Some i) \<and>
    (if p \<noteq> None
     then \<exists>l. avl_get_prev (store t) p = Some l \<and>
            span_left_loop cmp x l i (store t) = Some (of_nat (n_less cmp x (keys T)))
     else i + 1 = of_nat (n_less cmp x (keys T)))"
  using assms by (cases rule: index_span_cases [where x = x]) auto

lemma two_span_high:
  assumes "compare_fun t = cmp" and "tree_rep t T" and "ranked T" and "T \<noteq> Tip"
    and "sorted_by cmp (keys T)" and "length (keys T) < 2 ^ 30" and "tlength t = of_nat (length (keys T))"
  shows "\<exists>p i. avl_get_index_by_key t x = Some (p, Some i) \<and>
    (if p \<noteq> None
     then (\<exists>k \<in> set (keys T). cmp x k = 0) \<and> (\<exists>r. avl_get_next (store t) p = Some r \<and>
            span_right_loop cmp x (ucast (tlength t)) r i (store t) = Some (of_nat (n_leq cmp x (keys T)) - 1))
     else (\<forall>k \<in> set (keys T). cmp x k \<noteq> 0) \<and> i + 1 = of_nat (n_less cmp x (keys T)))"
  using assms by (cases rule: index_span_cases [where x = x]) auto

lemma avl_get_span_by_two_keys_eq:
  assumes "compare_fun t = cmp" and "tree_rep t T" and "ranked T"
    and "sorted_by cmp (keys T)" and "length (keys T) < 2 ^ 30" and "tlength t = of_nat (length (keys T))"
  shows "\<exists>lo hi. avl_get_span_by_two_keys t a b = Some (0, lo, hi) \<and>
    (lo, hi) = (if cmp a b > 0 then two_span_of cmp b a (keys T) else two_span_of cmp a b (keys T))"
proof (cases "T = Tip")
  case True
  then show ?thesis
    using avl_get_index_by_key_Tip [of t] assms(1,2)
    by (simp add: avl_get_span_by_two_keys_def two_span_of_def)
next
  case False
  define x y where "x = (if cmp a b > 0 then b else a)" and "y = (if cmp a b > 0 then a else b)"
  obtain p i where low: "avl_get_index_by_key t x = Some (p, Some i)"
    "if p \<noteq> None
     then \<exists>l. avl_get_prev (store t) p = Some l \<and>
            span_left_loop cmp x l i (store t) = Some (of_nat (n_less cmp x (keys T)))
     else i + 1 = of_nat (n_less cmp x (keys T))"
    using two_span_low [OF assms(1-3) False assms(4-6), of x] by blast
  obtain q j where high: "avl_get_index_by_key t y = Some (q, Some j)"
    "if q \<noteq> None
     then (\<exists>k \<in> set (keys T). cmp y k = 0) \<and> (\<exists>r. avl_get_next (store t) q = Some r \<and>
            span_right_loop cmp y (ucast (tlength t)) r j (store t) = Some (of_nat (n_leq cmp y (keys T)) - 1))
     else (\<forall>k \<in> set (keys T). cmp y k \<noteq> 0) \<and> j + 1 = of_nat (n_less cmp y (keys T))"
    using two_span_high [OF assms(1-3) False assms(4-6), of y] by blast
  have xy: "(if compare_fun t a b > 0 then (b, a) else (a, b)) = (x, y)"
    using assms(1) by (simp add: x_def y_def)
  have "\<exists>lo hi. avl_get_span_by_two_keys t a b = Some (0, lo, hi) \<and> (lo, hi) = two_span_of cmp x y (keys T)"
    using low high False assms(1) unfolding avl_get_span_by_two_keys_def xy
    by (cases "p = None"; cases "q = None") (auto simp: two_span_of_def)
  then show ?thesis by (simp add: x_def y_def split: if_splits)
qed

end

end
