(* ===== verification/Avl_Print.thy ===== *)
theory Avl_Print
  imports Avl_Search_Correct
begin

section \<open>Printing a tree\<close>

text \<open>
  \<open>avl_print_tree\<close> and its helpers: a picture of the tree on its side, the greatest key on
  the first line. The result is what is written to \<open>stdout\<close> (whose failures the code
  ignores). The list of \<open>link_node\<close>s that the code builds on the stack is a list, the
  innermost first. The key printer is the caller's: what it puts into the buffer, and the
  width it returns; a text that fills the buffer is undefined behaviour.
\<close>

subsection \<open>The code\<close>

record link_node =
  direction :: int
  width :: int

definition AVL_KEY_PRINTER_BUFLEN :: nat where
  "AVL_KEY_PRINTER_BUFLEN = 256"

definition balance_chars :: "char list" where
  "balance_chars = [CHR 0x5C, CHR ''-'', CHR ''/'']"

text \<open>The text \<open>%p\<close> gives for a pointer is the system's.\<close>

definition default_key_printer :: "('k option \<Rightarrow> string) \<Rightarrow> 'k option \<Rightarrow> string \<times> int" where
  "default_key_printer fmt_p ky = (take (AVL_KEY_PRINTER_BUFLEN - 1) (fmt_p ky), int (length (fmt_p ky)))"

abbreviation spaces :: "int \<Rightarrow> string" where
  "spaces n \<equiv> replicate (nat n) CHR '' ''"

fun print_connectors :: "link_node \<Rightarrow> link_node list \<Rightarrow> string" where
  "print_connectors l [] = spaces (width l)"
| "print_connectors l (p # ps) = print_connectors p ps @
     (if direction p \<noteq> direction l \<and> ps \<noteq> [] then CHR ''|'' # spaces (width l - 1) else spaces (width l))"

text \<open>\<open>%03d\<close> of a number that is not negative.\<close>

fun decimal :: "nat \<Rightarrow> string" where
  "decimal n = (if n < 10 then [char_of (48 + n)] else decimal (n div 10) @ [char_of (48 + n mod 10)])"

declare decimal.simps [simp del]

definition fmt_03d :: "nat \<Rightarrow> string" where
  "fmt_03d n = replicate (3 - length (decimal n)) CHR ''0'' @ decimal n"

partial_function (option) print_node ::
    "('k option \<Rightarrow> string \<times> int) \<Rightarrow> 'k store \<Rightarrow> ptr \<Rightarrow> link_node \<Rightarrow> link_node list \<Rightarrow> string option" where
  "print_node key_printer st nd link ups = do {
     n \<leftarrow> rd st nd;
     (case key_printer (key n) of (buffer, w) \<Rightarrow>
       if length buffer \<ge> AVL_KEY_PRINTER_BUFLEN then None
       else do {
         above \<leftarrow> (if right n \<noteq> None
                  then print_node key_printer st (right n)
                         \<lparr>direction = 1, width = sint (word_of_int w + 11 :: 32 word)\<rparr> (link # ups)
                  else Some '''');
         c \<leftarrow> (if AVL_GET_BALANCE n + 1 < 3 then Some (balance_chars ! nat (AVL_GET_BALANCE n + 1)) else None);
         below \<leftarrow> (if left n \<noteq> None
                  then print_node key_printer st (left n)
                         \<lparr>direction = -1, width = sint (word_of_int w + 11 :: 32 word)\<rparr> (link # ups)
                  else Some '''');
         Some (above @ print_connectors link ups @
               ''+-['' @ [c] @ '' '' @ buffer @ '' '' @ fmt_03d (unat (AVL_GET_RANK n)) @ '']'' @
               (if left n \<noteq> None \<or> right n \<noteq> None then ''-|'' @ [CHR 0x0A] else [CHR 0x0A]) @ below)
       })
   }"

definition avl_print_tree ::
    "('k option \<Rightarrow> string) \<Rightarrow> 'k avl_tree \<Rightarrow> ('k option \<Rightarrow> string \<times> int) option \<Rightarrow> string option" where
  "avl_print_tree fmt_p tree key_printer =
     (case (case key_printer of None \<Rightarrow> default_key_printer fmt_p | Some f \<Rightarrow> f) of printer \<Rightarrow>
        if tlength tree \<noteq> 0 then do {
          rootn \<leftarrow> rd (store tree) (root tree);
          print_node printer (store tree) (right rootn) \<lparr>direction = 0, width = 0\<rparr> []
        } else Some (''<empty tree>'' @ [CHR 0x0A]))"

subsection \<open>The picture\<close>

text \<open>The nodes in order: key, packed word, and whether there are children.\<close>

fun entries :: "'k atree \<Rightarrow> ('k \<times> 32 word \<times> bool) list" where
  "entries Tip = []"
| "entries (Nd l a k w r) = entries l @ (k, w, l \<noteq> Tip \<or> r \<noteq> Tip) # entries r"

lemma keys_entries: "map fst (entries T) = keys T"
  by (induction T) auto

text \<open>The text of a node, and the lines that show it: connectors, then the text.\<close>

definition node_text :: "('k option \<Rightarrow> string \<times> int) \<Rightarrow> 'k \<times> 32 word \<times> bool \<Rightarrow> string" where
  "node_text printer e = (case e of (k, w, inner) \<Rightarrow>
     ''+-['' @ [if bal_of w = -1 then CHR 0x5C else if bal_of w = 0 then CHR ''-'' else CHR ''/''] @ '' '' @
     fst (printer (Some k)) @ '' '' @ fmt_03d (unat (drop_bit 2 w)) @ '']'' @
     (if inner then ''-|'' @ [CHR 0x0A] else [CHR 0x0A]))"

definition shown :: "('k option \<Rightarrow> string \<times> int) \<Rightarrow> 'k \<times> 32 word \<times> bool \<Rightarrow> string \<Rightarrow> bool" where
  "shown printer e line \<longleftrightarrow> (\<exists>pre. set pre \<subseteq> {CHR '' '', CHR ''|''} \<and> line = pre @ node_text printer e)"

lemma connectors_set: "set (print_connectors l ps) \<subseteq> {CHR '' '', CHR ''|''}"
  by (induction l ps rule: print_connectors.induct) auto

lemma print_node_rep:
  assumes "rep (cells st) par (Nd l a k w r)" and "balanced (Nd l a k w r)"
    and "\<And>k. length (fst (printer (Some k))) < AVL_KEY_PRINTER_BUFLEN"
  shows "\<exists>ls. print_node printer st (Some a) lk ups = Some (concat ls) \<and>
     list_all2 (shown printer) (rev (entries (Nd l a k w r))) ls"
  using assms(1,2)
proof (induction "Nd l a k w r" arbitrary: par l a k w r lk ups)
  case (Nd l a k w r)
  let ?link = "\<lambda>d. \<lparr>direction = d, width = sint (word_of_int (snd (printer (Some k))) + 11 :: 32 word)\<rparr>"
  have cell: "rd st (Some a) = Some (node k (ptr_of l) (ptr_of r) par w)"
    using Nd.prems(1) by (simp add: store_simps)
  have bal: "bal_of w \<in> {-1, 0, 1}" using Nd.prems(2) unfolding balanced.simps by blast
  obtain above where above: "(if r \<noteq> Tip then print_node printer st (ptr_of r) (?link 1) (lk # ups) else Some '''') = Some (concat above)"
      "list_all2 (shown printer) (rev (entries r)) above"
  proof (cases r)
    case Tip
    then show ?thesis using that [of "[]"] by simp
  next
    case (Nd rl ra rk rw rr)
    then show ?thesis using Nd.hyps(2) [OF Nd, of "Some a" "?link 1" "lk # ups"] Nd.prems that by auto
  qed
  obtain below where below: "(if l \<noteq> Tip then print_node printer st (ptr_of l) (?link (-1)) (lk # ups) else Some '''') = Some (concat below)"
      "list_all2 (shown printer) (rev (entries l)) below"
  proof (cases l)
    case Tip
    then show ?thesis using that [of "[]"] by simp
  next
    case (Nd ll la lk' lw lr)
    then show ?thesis using Nd.hyps(1) [OF Nd, of "Some a" "?link (-1)" "lk # ups"] Nd.prems that by auto
  qed
  let ?line = "print_connectors lk ups @ node_text printer (k, w, l \<noteq> Tip \<or> r \<noteq> Tip)"
  have c: "bal_of w + 1 < 3"
      "balance_chars ! nat (bal_of w + 1) = (if bal_of w = -1 then CHR 0x5C else if bal_of w = 0 then CHR ''-'' else CHR ''/'')"
    using bal by (auto simp: balance_chars_def)
  define A B where "A = concat above" and "B = concat below"
  have "print_node printer st (Some a) lk ups = Some (A @ ?line @ B)"
    using cell above(1) [folded A_def] below(1) [folded B_def] c assms(3) [of k]
    by (cases "l = Tip"; cases "r = Tip"; subst print_node.simps)
      (simp_all add: store_simps node_text_def case_prod_unfold not_le)
  moreover have "shown printer (k, w, l \<noteq> Tip \<or> r \<noteq> Tip) ?line"
    using connectors_set unfolding shown_def by blast
  ultimately show ?case
    using above(2) below(2) by (intro exI [of _ "above @ ?line # below"]) (simp add: list_all2_appendI A_def B_def)
qed

lemma avl_print_tree_lines:
  assumes "tree_rep t T" and "balanced T" and "T \<noteq> Tip" and "tlength t \<noteq> 0"
    and "\<And>k. length (fst (printer (Some k))) < AVL_KEY_PRINTER_BUFLEN"
  shows "\<exists>ls. avl_print_tree fmt_p t (Some printer) = Some (concat ls) \<and>
     list_all2 (shown printer) (rev (entries T)) ls"
proof -
  obtain rt rootn where r: "zrep (store t) rt [] T" "rd (store t) (root t) = Some rootn" "right rootn = ptr_of T"
    using tree_rep_root [OF assms(1)] by auto
  obtain l a k w rr where T: "T = Nd l a k w rr" using assms(3) by (cases T) auto
  have "rep (cells (store t)) (Some rt) (Nd l a k w rr)" and "balanced (Nd l a k w rr)"
    using r(1) assms(2) T by (simp_all only: zrep_def cpar.simps)
  from print_node_rep [of _ _ _ _ _ _ _ printer, OF this assms(5)] show ?thesis
    using r(2,3) assms(4) T by (simp add: avl_print_tree_def)
qed

end
