(* ===== verification/Avl_Props.thy ===== *)
theory Avl_Props
  imports Avl_Dict Avl_Span Avl_Print
begin

section \<open>The properties of the AVL library\<close>

text \<open>
  The properties of \<open>src/avl\<close> in terms of trees and lists of keys, each applied to a
  concrete store of three nodes.
\<close>

subsection \<open>An insertion that runs out of memory\<close>

text \<open>What the descent has done when the node cannot be allocated.\<close>

fun bump_path :: "('k \<Rightarrow> 'k \<Rightarrow> int) \<Rightarrow> 'k \<Rightarrow> 'k atree \<Rightarrow> 'k atree" where
  "bump_path cmp x Tip = Tip"
| "bump_path cmp x (Nd l a k w r) =
     (if cmp x k < 1 then Nd (bump_path cmp x l) a k (bump w) r
      else Nd l a k w (bump_path cmp x r))"

lemma avl_node_new_fail: "\<not> can_malloc st \<Longrightarrow> avl_node_new k p st = (None, st)"
  by (auto simp: avl_node_new_def malloc_def can_malloc_def split: option.splits)

lemma insert_descend_fail:
  assumes "zrep st rt fs u" and "u \<noteq> Tip" and "\<not> can_malloc st"
  shows "\<exists>st'. insert_descend cmp x t s (ptr_of u) st = Some (None, st') \<and>
     zrep st' rt fs (bump_path cmp x u)"
  using assms
proof (induction u arbitrary: fs st t s)
  case (Nd l b k w r)
  have cell: "rd st (Some b) = Some (node k (ptr_of l) (ptr_of r) (Some (cpar rt fs)) w)"
    using zrep_node [OF Nd.prems(1)] by (simp add: store_simps)
  show ?case
  proof (cases "cmp x k < 1")
    case True
    let ?st1 = "st\<lparr>cells := (cells st)(b \<mapsto> node k (ptr_of l) (ptr_of r) (Some (cpar rt fs)) (bump w))\<rparr>"
    have Z1: "zrep ?st1 rt (FL b k (bump w) r # fs) l"
      using zrep_set_word [OF Nd.prems(1)] by (simp add: zrep_left)
    have nomem: "\<not> can_malloc ?st1" using Nd.prems(3) by (auto simp: can_malloc_def split: option.splits)
    show ?thesis
    proof (cases l)
      case Tip
      have "insert_descend cmp x t s (Some b) st = Some (None, ?st1)"
        using True cell Tip avl_node_new_fail [OF nomem] by (subst insert_descend.simps) (simp add: store_simps bump_def)
      then show ?thesis using Z1 True Tip by (simp add: zrep_left)
    next
      case l: (Nd ll lb lk lw lr)
      have lcell: "cells st lb = Some (node lk (ptr_of ll) (ptr_of lr) (Some b) lw)" and "b \<noteq> lb"
        using Nd.prems(1) l by (auto simp: zrep_def)
      then have go: "insert_descend cmp x t s (Some b) st =
          (if bal_of lw \<noteq> 0 then insert_descend cmp x (Some b) (ptr_of l) (ptr_of l) ?st1
           else insert_descend cmp x t s (ptr_of l) ?st1)"
        using insert_descend_left_go [of st b k lb "ptr_of r" "Some (cpar rt fs)" w cmp x] cell True l
        by (simp add: store_simps)
      show ?thesis
        using Nd.IH(1) [OF Z1, of "Some b" "ptr_of l"] Nd.IH(1) [OF Z1, of t s] nomem go True l
        by (auto simp: zrep_left)
    qed
  next
    case False
    have Z1: "zrep st rt (FR l b k w # fs) r"
      using Nd.prems(1) by (simp add: zrep_right)
    show ?thesis
    proof (cases r)
      case Tip
      have "insert_descend cmp x t s (Some b) st = Some (None, st)"
        using False cell Tip avl_node_new_fail [OF Nd.prems(3)]
        by (subst insert_descend.simps) (simp add: store_simps)
      then show ?thesis using Z1 False Tip by (simp add: zrep_right)
    next
      case r: (Nd rl rb rk rw rr)
      have rcell: "cells st rb = Some (node rk (ptr_of rl) (ptr_of rr) (Some b) rw)"
        using Nd.prems(1) r by (auto simp: zrep_def)
      then have go: "insert_descend cmp x t s (Some b) st =
          (if bal_of rw \<noteq> 0 then insert_descend cmp x (Some b) (ptr_of r) (ptr_of r) st
           else insert_descend cmp x t s (ptr_of r) st)"
        using insert_descend_right_go [of st b k "ptr_of l" rb "Some (cpar rt fs)" w cmp x] cell False r
        by (simp add: store_simps)
      show ?thesis
        using Nd.IH(2) [OF Z1, of "Some b" "ptr_of r"] Nd.IH(2) [OF Z1, of t s] Nd.prems(3) go False r
        by (auto simp: zrep_right)
    qed
  qed
qed simp

lemma keys_bump_path: "keys (bump_path cmp x T) = keys T"
  by (induction T) auto

subsection \<open>The walk over the whole tree\<close>

text \<open>\<open>for (node = avl_get_first (t); node; node = avl_get_next (node))\<close>, as clients write it.\<close>

partial_function (option) walk :: "'k store \<Rightarrow> ptr \<Rightarrow> 'k option list option" where
  "walk st p =
     (if p = None then Some []
      else do {
        n \<leftarrow> rd st p;
        q \<leftarrow> avl_get_next st p;
        ks \<leftarrow> walk st q;
        Some (key n # ks)
      })"

lemma walk_cursor:
  "cursor st rt T i p \<Longrightarrow> walk st p = Some (map Some (drop i (keys T)))"
proof (induction "length (keys T) - i" arbitrary: i p)
  case 0
  then show ?case using cursor_key by fastforce
next
  case (Suc n)
  obtain nd where nd: "rd st p = Some nd" "key nd = Some (keys T ! i)" "i < length (keys T)"
    using cursor_key [OF Suc.prems] by auto
  obtain q where q: "avl_get_next st p = Some q"
      "if Suc i < length (keys T) then cursor st rt T (Suc i) q else q = None"
    using avl_get_next_cursor [OF Suc.prems] by auto
  have "walk st q = Some (map Some (drop (Suc i) (keys T)))"
  proof (cases "Suc i < length (keys T)")
    case True
    then show ?thesis using Suc.hyps(1) [of "Suc i" q] Suc.hyps(2) q(2) by simp
  next
    case False
    then show ?thesis using q(2) by (subst walk.simps) simp
  qed
  then show ?case
    using nd q(1) Suc.prems by (subst walk.simps) (auto simp: cursor_def Cons_nth_drop_Suc [symmetric])
qed

subsection \<open>A concrete tree\<close>

definition int_cmp :: "int \<Rightarrow> int \<Rightarrow> int" where
  "int_cmp a b = a - b"

definition demo_atree :: "int atree" where
  "demo_atree = Nd (Nd Tip 2 3 5 Tip) 1 5 9 (Nd Tip 3 8 5 Tip)"

definition demo_store :: "nat option \<Rightarrow> int store" where
  "demo_store lim =
     \<lparr>cells = [0 \<mapsto> sentinel (Some 1) 5, 1 \<mapsto> node 5 (Some 2) (Some 3) (Some 0) 9,
               2 \<mapsto> node 3 None None (Some 1) 5, 3 \<mapsto> node 8 None None (Some 1) 5],
      brk = 4, limit = lim\<rparr>"

definition demo_tree :: "nat option \<Rightarrow> int avl_tree" where
  "demo_tree lim = \<lparr>root = Some 0, height = 1, tlength = 3, compare_fun = int_cmp, store = demo_store lim\<rparr>"

lemma demo_order: "key_order int_cmp"
  by unfold_locales (auto simp: int_cmp_def)

lemma demo_rep: "tree_rep (demo_tree lim) demo_atree"
  by (auto simp: tree_rep_def zrep_def demo_tree_def demo_store_def demo_atree_def split: if_splits)

lemma demo_balanced: "balanced demo_atree"
  by (simp add: demo_atree_def bal_of_def)

lemma demo_ranked: "ranked demo_atree"
  by (simp add: demo_atree_def rk_def)

lemma demo_keys: "keys demo_atree = [3, 5, 8]"
  by (simp add: demo_atree_def)

lemma demo_sorted: "sorted_by int_cmp (keys demo_atree)"
  by (simp add: demo_keys sorted_by_def int_cmp_def)

lemma demo_fields: "compare_fun (demo_tree lim) = int_cmp" "tlength (demo_tree lim) = 3"
    "can_malloc (store (demo_tree None))" "\<not> can_malloc (store (demo_tree (Some 4)))"
    "root (demo_tree lim) = Some 0"
  by (simp_all add: demo_tree_def demo_store_def can_malloc_def)

lemma demo_contract:
  "key_order (compare_fun (demo_tree lim))" "sorted_by (compare_fun (demo_tree lim)) (keys demo_atree)"
  using demo_order demo_sorted by (simp_all add: demo_fields)

lemmas demo_simps = demo_balanced demo_ranked demo_keys demo_fields

subsection \<open>The properties\<close>

text \<open>
  C1: On a store that holds a balanced, ranked tree with sorted keys, and with memory left,
  \<open>avl_insert\<close> returns 0 without following a bad pointer; the store then holds a balanced,
  ranked tree (all left, right and parent pointers consistent) whose keys are the old ones with
  the new key before its equals; the length counts one more.
\<close>

theorem avl_insert_correct:
  assumes "key_order (compare_fun t)" and "tree_rep t T" and "balanced T" and "ranked T"
    and "sorted_by (compare_fun t) (keys T)" and "can_malloc (store t)"
  shows "\<exists>t' T'. avl_insert t x = Some (0, t') \<and> tree_rep t' T' \<and> balanced T' \<and> ranked T' \<and>
     keys T' = ins_by (compare_fun t) x (keys T) \<and> sorted_by (compare_fun t) (keys T') \<and>
     tlength t' = tlength t + 1 \<and> root t' = root t \<and> compare_fun t' = compare_fun t"
proof -
  obtain t' T' where "avl_insert t x = Some (0, t')" "inserted t x T t' T'"
    using avl_insert_inserts [OF assms(2,6,3)] by blast
  then show ?thesis
    using assms(4) key_order.keys_ins_raw_sorted [OF assms(1,5)] key_order.sorted_ins_by [OF assms(1,5)]
    by (auto simp: inserted_def same_tree_def)
qed

lemma avl_insert_correct_witness:
  "\<exists>t' T'. avl_insert (demo_tree None) 6 = Some (0, t') \<and> tree_rep t' T' \<and> balanced T' \<and>
     keys T' = [3, 5, 6, 8]"
  using avl_insert_correct [of "demo_tree None" demo_atree 6] demo_order demo_rep demo_sorted
  by (fastforce simp: demo_simps int_cmp_def)

text \<open>
  C2: \<open>avl_delete\<close> of a key that is there returns 0, hands exactly one key to the free
  callback (an equal one), and leaves a balanced, ranked tree with the other keys in order in a
  store from which the node is gone (no node is leaked and none is shared).
\<close>

theorem avl_delete_present:
  assumes "key_order (compare_fun t)" and "tree_rep t T" and "balanced T" and "ranked T"
    and "sorted_by (compare_fun t) (keys T)" and "\<exists>k \<in> set (keys T). compare_fun t x k = 0"
  shows "\<exists>k t' T' xs ys. avl_delete t x = Some (0, [k], t') \<and> compare_fun t x k = 0 \<and>
     keys T = xs @ k # ys \<and> keys T' = xs @ ys \<and> tree_rep t' T' \<and> balanced T' \<and> ranked T' \<and>
     tlength t' = tlength t - 1 \<and> root t' = root t \<and> compare_fun t' = compare_fun t"
proof -
  have nt: "T \<noteq> Tip" using assms(6) by auto
  have "snd (snd (dfind (compare_fun t) x [] T))"
    using key_order.dfind_iff [OF assms(1,5) nt] assms(6) by simp
  then obtain fs U where "dfind (compare_fun t) x [] T = (fs, U, True)"
    by (metis prod.collapse)
  from avl_delete_hit [OF assms(2,3) nt this] obtain k t' T' where
    "avl_delete t x = Some (0, [k], t')" "deleted t x T k t' T'" by blast
  then show ?thesis using assms(4) by (auto simp: deleted_def same_tree_def)
qed

lemma avl_delete_present_witness:
  "\<exists>k t' T' xs ys. avl_delete (demo_tree None) 5 = Some (0, [k], t') \<and> int_cmp 5 k = 0 \<and>
     [3, 5, 8] = xs @ k # ys \<and> keys T' = xs @ ys \<and> tree_rep t' T' \<and> balanced T' \<and> ranked T'"
proof -
  have ex: "\<exists>k \<in> set (keys demo_atree). compare_fun (demo_tree None) 5 k = 0"
    by (simp add: demo_simps int_cmp_def)
  from avl_delete_present [OF demo_contract(1) demo_rep demo_balanced demo_ranked demo_contract(2) ex]
  show ?thesis unfolding demo_simps by blast
qed

text \<open>
  C3: \<open>avl_delete\<close> of a key that is not there returns -1 and frees nothing; tree, keys and
  balance stay, but the ranks do not all: a node's rank counts one more afterwards when the
  search ended to its right (\<open>del_miss\<close>), because the undo adds what was never subtracted.
\<close>

theorem avl_delete_absent:
  assumes "key_order (compare_fun t)" and "tree_rep t T" and "balanced T"
    and "sorted_by (compare_fun t) (keys T)" and "\<forall>k \<in> set (keys T). compare_fun t x k \<noteq> 0"
  shows "\<exists>t'. avl_delete t x = Some (-1, [], t') \<and> tree_rep t' (del_miss (compare_fun t) x T) \<and>
     balanced (del_miss (compare_fun t) x T) \<and> keys (del_miss (compare_fun t) x T) = keys T \<and>
     tlength t' = tlength t \<and> root t' = root t"
proof (cases "T = Tip")
  case True
  then show ?thesis using avl_delete_empty [of t x] assms(2) by auto
next
  case False
  have "\<not> snd (snd (dfind (compare_fun t) x [] T))"
    using key_order.dfind_iff [OF assms(1,4) False] assms(5) by simp
  then obtain fs U where "dfind (compare_fun t) x [] T = (fs, U, False)"
    by (metis prod.collapse)
  from avl_delete_miss [OF assms(2) False this] obtain st' where
    "avl_delete t x = Some (-1, [], t\<lparr>store := st'\<rparr>)"
    "tree_rep (t\<lparr>store := st'\<rparr>) (del_miss (compare_fun t) x T)" by blast
  then show ?thesis
    using balanced_del_miss [OF assms(3)] keys_del_miss
    by (intro exI [of _ "t\<lparr>store := st'\<rparr>"]) simp
qed

lemma avl_delete_absent_witness:
  "\<exists>t' T'. avl_delete (demo_tree None) 9 = Some (-1, [], t') \<and> tree_rep t' T' \<and> \<not> ranked T'"
proof -
  have "\<not> ranked (del_miss int_cmp 9 demo_atree)"
    by (simp add: demo_atree_def int_cmp_def bump_def rk_def set_rank_def)
  then show ?thesis
    using avl_delete_absent [of "demo_tree None" demo_atree 9] demo_order demo_rep demo_sorted
    by (fastforce simp: demo_simps int_cmp_def)
qed

text \<open>
  C4: When no node can be allocated, \<open>avl_insert\<close> into a non-empty tree returns -1 with the
  keys and the length as they were, but leaves the ranks on the search path counted up
  (\<open>bump_path\<close>).
\<close>

theorem avl_insert_out_of_memory:
  assumes "tree_rep t T" and "T \<noteq> Tip" and "\<not> can_malloc (store t)"
  shows "\<exists>t'. avl_insert t x = Some (-1, t') \<and> tree_rep t' (bump_path (compare_fun t) x T) \<and>
     keys (bump_path (compare_fun t) x T) = keys T \<and> tlength t' = tlength t"
proof -
  obtain rt rootn where r: "root t = Some rt" "zrep (store t) rt [] T"
      "rd (store t) (root t) = Some rootn" "right rootn = ptr_of T"
    using tree_rep_root [OF assms(1)] by auto
  obtain st' where "insert_descend (compare_fun t) x (root t) (ptr_of T) (ptr_of T) (store t) = Some (None, st')"
      "zrep st' rt [] (bump_path (compare_fun t) x T)"
    using insert_descend_fail [OF r(2) assms(2,3)] by blast
  then show ?thesis
    using r assms(2) keys_bump_path by (auto simp: avl_insert_def tree_rep_def)
qed

lemma avl_insert_out_of_memory_witness:
  "\<exists>t' T'. avl_insert (demo_tree (Some 4)) 4 = Some (-1, t') \<and> tree_rep t' T' \<and> \<not> ranked T'"
proof -
  have "\<not> ranked (bump_path int_cmp 4 demo_atree)"
    by (simp add: demo_atree_def int_cmp_def bump_def rk_def set_rank_def)
  moreover have "demo_atree \<noteq> Tip" by (simp add: demo_atree_def)
  ultimately show ?thesis
    using avl_insert_out_of_memory [of "demo_tree (Some 4)" demo_atree 4] demo_rep
    by (fastforce simp: demo_simps)
qed

text \<open>
  \<open>avl_get_by_key\<close> returns 0 and an equal key when there is one, and -1 otherwise; it
  never follows a bad pointer.
\<close>

theorem avl_get_by_key_correct:
  assumes "key_order (compare_fun t)" and "tree_rep t T" and "sorted_by (compare_fun t) (keys T)"
  shows "\<exists>res. avl_get_by_key t x = Some res \<and>
     ((\<exists>k \<in> set (keys T). compare_fun t x k = 0 \<and> res = (0, Some k)) \<or>
      (\<forall>k \<in> set (keys T). compare_fun t x k \<noteq> 0) \<and> res = (-1, None))"
proof -
  obtain rt rootn where r: "root t = Some rt" "zrep (store t) rt [] T"
      "rd (store t) (root t) = Some rootn" "right rootn = ptr_of T"
    using tree_rep_root [OF assms(2)] by auto
  show ?thesis
    using key_order.get_by_key_loop_zrep [OF assms(1) r(2) _ assms(3), of x] r(3,4)
    by (cases "T = Tip") (simp_all add: avl_get_by_key_def lookup_ok_def)
qed

text \<open>
  \<open>avl_get_by_index\<close> returns the key with that number, counted from 0, and -1 beyond the
  end, as long as the 30 bits of the ranks can count the keys.
\<close>

theorem avl_get_by_index_correct:
  assumes "tree_rep t T" and "ranked T" and "length (keys T) < 2 ^ 30" and "i \<noteq> -1"
  shows "avl_get_by_index t i =
    Some (if unat i < length (keys T) then (0, Some (keys T ! unat i)) else (-1, None))"
  using assms by (rule avl_get_by_index_nth)

lemma avl_get_by_index_correct_witness: "avl_get_by_index (demo_tree None) 2 = Some (0, Some 8)"
  using avl_get_by_index_correct [of "demo_tree None" demo_atree 2] demo_rep by (simp add: demo_simps)

text \<open>
  C6: Starting at \<open>avl_get_first\<close> and following \<open>avl_get_next\<close> until NULL visits every key
  once, in order (and so ends).
\<close>

theorem avl_walk_visits_all:
  assumes "tree_rep t T"
  shows "\<exists>p. avl_get_first t = Some p \<and> walk (store t) p = Some (map Some (keys T))"
proof -
  obtain rt where rt: "root t = Some rt" using assms by (auto simp: tree_rep_def)
  obtain p where p: "avl_get_first t = Some p" "if T = Tip then p = None else cursor (store t) rt T 0 p"
    using avl_get_first_cursor [OF assms rt] by auto
  show ?thesis
  proof (cases "T = Tip")
    case True
    then show ?thesis using p by (subst walk.simps) simp
  next
    case False
    then show ?thesis using p walk_cursor [of "store t" rt T 0 p] by simp
  qed
qed

lemma avl_walk_visits_all_witness:
  "\<exists>p. avl_get_first (demo_tree None) = Some p \<and> walk (store (demo_tree None)) p = Some [Some 3, Some 5, Some 8]"
  using avl_walk_visits_all [OF demo_rep [of None]] by (simp add: demo_simps)

text \<open>
  \<open>avl_get_prev\<close> undoes \<open>avl_get_next\<close>: from the node of the \<open>i\<close>-th key they move to
  the node of the next and of the previous key, and return NULL at the ends.
\<close>

theorem avl_next_prev:
  assumes "cursor st rt T i p"
  shows "\<exists>q. avl_get_next st p = Some q \<and>
     (if Suc i < length (keys T) then cursor st rt T (Suc i) q \<and>
        (\<exists>p'. avl_get_prev st q = Some p' \<and> cursor st rt T i p') else q = None)"
proof -
  obtain q where q: "avl_get_next st p = Some q"
      "if Suc i < length (keys T) then cursor st rt T (Suc i) q else q = None"
    using avl_get_next_cursor [OF assms] by auto
  then show ?thesis using avl_get_prev_cursor [of st rt T "Suc i" q] by auto
qed

lemma avl_next_prev_witness:
  "\<exists>q p'. avl_get_next (demo_store None) (Some 1) = Some q \<and> avl_get_prev (demo_store None) q = Some p' \<and>
     cursor (demo_store None) 0 demo_atree 1 p'"
proof -
  have "zrep (demo_store None) 0 [] demo_atree"
    using demo_rep [of None] by (simp add: tree_rep_def demo_tree_def)
  then have "cursor (demo_store None) 0 demo_atree 1 (Some 1)"
    unfolding cursor_def demo_atree_def by (intro exI [of _ "[]"]) auto
  from avl_next_prev [OF this] show ?thesis by (auto simp: demo_keys)
qed

text \<open>
  \<open>avl_iterate_inorder\<close> calls the callback on the keys in order and stops at the first
  non-zero result, which it returns.
\<close>

theorem avl_iterate_inorder_correct:
  assumes "tree_rep t T" and "tlength t = 0 \<longleftrightarrow> T = Tip"
  shows "avl_iterate_inorder t f s = Some (iterate f (keys T) s)"
  using assms by (rule avl_iterate_inorder_eq)

lemma avl_iterate_inorder_correct_witness:
  "avl_iterate_inorder (demo_tree None) (\<lambda>k s. (if k = Some 5 then 7 else 0, the k # s)) [] = Some (7, [5, 3])"
proof -
  have "tlength (demo_tree None) = 0 \<longleftrightarrow> demo_atree = Tip"
    by (simp add: demo_simps) (simp add: demo_atree_def)
  then show ?thesis by (simp add: demo_keys avl_iterate_inorder_correct [OF demo_rep])
qed

text \<open>
  C7: \<open>avl_tree_free\<close> hands every key of the tree to the callback exactly once, in order, and
  frees every node of the tree, the root included, exactly once (nothing is left in the store).
\<close>

theorem avl_tree_free_correct:
  assumes "tree_rep t T" and "tlength t = 0 \<longleftrightarrow> T = Tip"
  shows "\<exists>st. avl_tree_free t True = Some (map Some (keys T), st) \<and> cells st = Map.empty"
  using assms by (rule avl_tree_free_all)

lemma avl_tree_free_correct_witness:
  "\<exists>st. avl_tree_free (demo_tree None) True = Some ([Some 3, Some 5, Some 8], st) \<and> cells st = Map.empty"
proof -
  have "tlength (demo_tree None) = 0 \<longleftrightarrow> demo_atree = Tip"
    by (simp add: demo_simps) (simp add: demo_atree_def)
  from avl_tree_free_correct [OF demo_rep this] show ?thesis by (simp add: demo_keys)
qed

text \<open>
  The self-check \<open>avl_verify\<close> accepts every well-formed tree (it does not exit), and
  the height its first pass computes is the height of the tree.
\<close>

theorem avl_verify_accepts:
  assumes "tree_rep t T" and "balanced T" and "ranked T" and "length (keys T) < 2 ^ 30"
    and "tlength t = 0 \<longleftrightarrow> T = Tip"
  shows "avl_verify t = Some (Inr 0) \<and> avl_verify_balance (store t) (ptr_of T) = Some (int (ht T))"
proof
  show "avl_verify t = Some (Inr 0)" using assms by (rule avl_verify_passes)
  show "avl_verify_balance (store t) (ptr_of T) = Some (int (ht T))"
    using tree_rep_root [OF assms(1)] assms(2) verify_balance_rep by (auto simp: zrep_def)
qed

lemma avl_verify_accepts_witness: "avl_verify (demo_tree None) = Some (Inr 0)"
proof -
  have "tlength (demo_tree None) = 0 \<longleftrightarrow> demo_atree = Tip"
    by (simp add: demo_simps) (simp add: demo_atree_def)
  from avl_verify_accepts [OF demo_rep demo_balanced demo_ranked _ this] show ?thesis
    by (simp add: demo_keys)
qed

text \<open>
  The nearest-key searches: an equal key if there is one; otherwise
  \<open>avl_get_item_by_key_most\<close> gives the greatest smaller key and
  \<open>avl_get_item_by_key_least\<close> the least greater key, or -1 when there is none.
\<close>

theorem avl_nearest_correct:
  assumes "key_order (compare_fun t)" and "tree_rep t T" and "sorted_by (compare_fun t) (keys T)"
  shows "\<exists>most least. avl_get_item_by_key_most t x = Some most \<and> most_ok (compare_fun t) x (keys T) None most \<and>
     avl_get_item_by_key_least t x = Some least \<and> least_ok (compare_fun t) x (keys T) None least"
proof -
  obtain rt rootn where r: "root t = Some rt" "zrep (store t) rt [] T"
      "rd (store t) (root t) = Some rootn" "right rootn = ptr_of T"
    using tree_rep_root [OF assms(2)] by auto
  show ?thesis
    using key_order.key_most_loop_zrep [OF assms(1) r(2) _ assms(3), of x None]
      key_order.key_least_loop_zrep [OF assms(1) r(2) _ assms(3), of x None] r(3,4)
    by (cases "T = Tip") (auto simp: avl_get_item_by_key_most_def avl_get_item_by_key_least_def
      most_ok_def least_ok_def nearest_def last_opt_def hd_opt_def)
qed

text \<open>
  C5: The lookups by key never follow a bad pointer. \<open>avl_get_by_key\<close> returns 0 and an equal
  key when there is one, and -1 otherwise. \<open>avl_get_item_by_key_most\<close> and
  \<open>avl_get_item_by_key_least\<close> return an equal key if there is one; otherwise the greatest
  smaller key and the least greater key, or -1 when there is none.
\<close>

theorem avl_lookups_correct:
  assumes "key_order (compare_fun t)" and "tree_rep t T" and "sorted_by (compare_fun t) (keys T)"
  shows "\<exists>res most least.
     avl_get_by_key t x = Some res \<and> lookup_ok (compare_fun t) x (keys T) res \<and>
     avl_get_item_by_key_most t x = Some most \<and> most_ok (compare_fun t) x (keys T) None most \<and>
     avl_get_item_by_key_least t x = Some least \<and> least_ok (compare_fun t) x (keys T) None least"
proof -
  obtain res where "avl_get_by_key t x = Some res" "lookup_ok (compare_fun t) x (keys T) res"
    using avl_get_by_key_correct [OF assms, of x, folded lookup_ok_def] by blast
  then show ?thesis using avl_nearest_correct [OF assms, of x] by auto
qed

lemma avl_lookups_correct_witness:
  "avl_get_by_key (demo_tree None) 8 = Some (0, Some 8) \<and>
   avl_get_by_key (demo_tree None) 7 = Some (-1, None) \<and>
   avl_get_item_by_key_most (demo_tree None) 7 = Some (0, Some 5) \<and>
   avl_get_item_by_key_least (demo_tree None) 7 = Some (0, Some 8)"
  using avl_lookups_correct [of "demo_tree None" demo_atree 7] avl_lookups_correct [of "demo_tree None" demo_atree 8]
    demo_order demo_rep demo_sorted
  by (auto simp: demo_simps int_cmp_def lookup_ok_def most_ok_def least_ok_def nearest_def last_opt_def hd_opt_def)

text \<open>
  C8: The spans are counts of keys: \<open>avl_get_span_by_key\<close> returns 0 and, when there are keys
  equal to \<open>x\<close>, the number of smaller keys and the number of smaller or equal ones (so the
  equal keys are exactly those with an index in between). Without an equal key both
  bounds are the number of smaller keys minus one, modulo 2^64 (\<open>span_of\<close>).
  \<open>avl_get_span_by_two_keys\<close> takes the two keys in either order and counts the keys smaller than the
  lesser one, but as upper bound gives the index of the last key equal to the greater one
  when there is one, and the number of smaller keys otherwise (\<open>two_span_of\<close>). In an
  empty tree neither writes its bounds from anything (\<open>None\<close>).
\<close>

theorem avl_spans_count_keys:
  assumes "key_order (compare_fun t)" and "tree_rep t T" and "ranked T"
    and "sorted_by (compare_fun t) (keys T)" and "length (keys T) < 2 ^ 30" and "tlength t = of_nat (length (keys T))"
  shows "\<exists>lo hi lo2 hi2. avl_get_span_by_key t x = Some (0, lo, hi) \<and>
     (lo, hi) = span_of (compare_fun t) x (keys T) \<and>
     avl_get_span_by_two_keys t a b = Some (0, lo2, hi2) \<and>
     (lo2, hi2) = (if compare_fun t a b > 0 then two_span_of (compare_fun t) b a (keys T)
                   else two_span_of (compare_fun t) a b (keys T)) \<and>
     (\<forall>i < length (keys T). compare_fun t x (keys T ! i) = 0 \<longleftrightarrow>
        n_less (compare_fun t) x (keys T) \<le> i \<and> i < n_leq (compare_fun t) x (keys T))"
  using key_order.avl_get_span_by_key_eq [OF assms(1) refl assms(2-6), of x]
    key_order.avl_get_span_by_two_keys_eq [OF assms(1) refl assms(2-6), of a b]
    key_order.equal_nth [OF assms(1,4)] by blast

lemma avl_spans_count_keys_witness:
  "avl_get_span_by_key (demo_tree None) 5 = Some (0, Some 1, Some 2) \<and>
   avl_get_span_by_key (demo_tree None) 2 = Some (0, Some (-1), Some (-1)) \<and>
   avl_get_span_by_two_keys (demo_tree None) 8 4 = Some (0, Some 1, Some 2)"
proof -
  have len: "length (keys demo_atree) < 2 ^ 30" "tlength (demo_tree None) = of_nat (length (keys demo_atree))"
    by (simp_all add: demo_simps)
  note span = avl_spans_count_keys [OF demo_contract(1) demo_rep demo_ranked demo_contract(2) len]
  show ?thesis
    using span [of 5 8 4] span [of 2 8 4] unfolding demo_simps
    by (auto simp: int_cmp_def span_of_def two_span_of_def n_less_def n_leq_def)
qed

text \<open>
  \<open>avl_print_tree\<close> prints one line for every key, the greatest first: connectors (spaces and
  bars), then the node's balance, its text from the key printer and its rank, and the mark of
  a node that has children. The key printer's texts must fit into its buffer of 256.
\<close>

theorem avl_print_tree_correct:
  assumes "tree_rep t T" and "balanced T" and "tlength t = 0 \<longleftrightarrow> T = Tip"
    and "\<And>k. length (fst (printer (Some k))) < AVL_KEY_PRINTER_BUFLEN"
  shows "\<exists>ls. avl_print_tree fmt_p t (Some printer) = Some (concat ls) \<and>
     (if T = Tip then ls = [''<empty tree>'' @ [CHR 0x0A]]
      else list_all2 (shown printer) (rev (entries T)) ls)"
proof (cases "T = Tip")
  case True
  then show ?thesis
    using assms(3) by (intro exI [of _ "[''<empty tree>'' @ [CHR 0x0A]]"]) (simp add: avl_print_tree_def)
next
  case False
  then show ?thesis using avl_print_tree_lines [OF assms(1,2), of printer] assms(3,4) by simp
qed

lemma avl_print_tree_correct_witness:
  "\<exists>ls. avl_print_tree (\<lambda>k. ''0x1'') (demo_tree None) (Some (\<lambda>k. (''k'', 1))) = Some (concat ls) \<and> length ls = 3"
proof -
  have "tlength (demo_tree None) = 0 \<longleftrightarrow> demo_atree = Tip"
    by (simp add: demo_simps) (simp add: demo_atree_def)
  moreover have "length (entries demo_atree) = 3" "demo_atree \<noteq> Tip" by (simp_all add: demo_atree_def)
  ultimately show ?thesis
    using avl_print_tree_correct [OF demo_rep [of None] demo_balanced, of "\<lambda>k. (''k'', 1)" "\<lambda>k. ''0x1''"]
    by (fastforce simp: AVL_KEY_PRINTER_BUFLEN_def dest: list_all2_lengthD)
qed

end
