(* ===== verification/CString.thy ===== *)
theory CString
  imports Prelude
begin

section \<open>The C library's strings\<close>

text \<open>
  What the code uses of \<open>string.h\<close>, \<open>strings.h\<close>, \<open>ctype.h\<close> and \<open>stdlib.h\<close>,
  in the C locale. A character array is a list of characters; a C string is read from it up to
  the first NUL or the end of the list (where the terminator stands).
\<close>

definition NUL :: char where
  "NUL = CHR 0x00"

definition CR :: char where
  "CR = CHR 0x0D"

definition LF :: char where
  "LF = CHR 0x0A"

definition cstr :: "string \<Rightarrow> string" where
  "cstr s = takeWhile (\<lambda>c. c \<noteq> NUL) s"

text \<open>The C string at an index of an array.\<close>

definition str_at :: "string \<Rightarrow> nat \<Rightarrow> string" where
  "str_at d i = cstr (drop i d)"

definition tolower :: "char \<Rightarrow> char" where
  "tolower c = (let n = of_char c :: nat in if 65 \<le> n \<and> n \<le> 90 then char_of (n + 32) else c)"

fun char0 :: "string \<Rightarrow> int" where
  "char0 [] = 0"
| "char0 (c # cs) = int (of_char c)"

function strcmp :: "string \<Rightarrow> string \<Rightarrow> int" where
  "strcmp a b =
     (if char0 a \<noteq> char0 b then char0 a - char0 b
      else if char0 a = 0 then 0
      else strcmp (tl a) (tl b))"
  by auto
termination
proof (relation "measure (\<lambda>(a, b). length a)")
  show "((tl a, tl b), a, b) \<in> measure (\<lambda>(a, b). length a)"
    if "\<not> char0 a \<noteq> char0 b" "char0 a \<noteq> 0" for a b
    using that by (cases a) auto
qed simp

declare strcmp.simps [simp del]

definition strcasecmp :: "string \<Rightarrow> string \<Rightarrow> int" where
  "strcasecmp a b = strcmp (map tolower (cstr a)) (map tolower (cstr b))"

text \<open>
  \<open>strchr\<close> gives the rest of the string from the character on. A number is read by skipping white
  space, taking a sign and reading digits; \<open>atoi\<close> gives it when it fits \<open>int\<close>, and \<open>None\<close>
  otherwise: C leaves that undefined.
\<close>

definition strchr :: "string \<Rightarrow> char \<Rightarrow> string option" where
  "strchr s c = (case dropWhile (\<lambda>x. x \<noteq> c) (cstr s) of [] \<Rightarrow> None | r \<Rightarrow> Some r)"

definition is_digit :: "char \<Rightarrow> bool" where
  "is_digit c \<longleftrightarrow> (let n = of_char c :: nat in 48 \<le> n \<and> n \<le> 57)"

definition is_space :: "char \<Rightarrow> bool" where
  "is_space c \<longleftrightarrow> (let n = of_char c :: nat in n = 32 \<or> 9 \<le> n \<and> n \<le> 13)"

fun digits_val :: "int \<Rightarrow> string \<Rightarrow> int" where
  "digits_val acc [] = acc"
| "digits_val acc (c # cs) = (if is_digit c then digits_val (10 * acc + int (of_char c) - 48) cs else acc)"

definition number_of :: "string \<Rightarrow> int" where
  "number_of s = (case dropWhile is_space (cstr s) of
     [] \<Rightarrow> 0
   | c # cs \<Rightarrow> if c = CHR ''-'' then - digits_val 0 cs
              else if c = CHR ''+'' then digits_val 0 cs else digits_val 0 (c # cs))"

definition atoi :: "string \<Rightarrow> int option" where
  "atoi s = (let n = number_of s in if - (2 ^ 31) \<le> n \<and> n < 2 ^ 31 then Some n else None)"

subsection \<open>strcmp is a total preorder\<close>

lemma char0_nonneg [simp]: "0 \<le> char0 s"
  by (cases s) auto

lemma strcmp_antisym: "strcmp a b = - strcmp b a"
proof (induction a b rule: strcmp.induct)
  case (1 a b)
  then show ?case by (subst (1 2) strcmp.simps) auto
qed

lemma strcmp_trans: "strcmp a b \<le> 0 \<Longrightarrow> strcmp b c \<le> 0 \<Longrightarrow> strcmp a c \<le> 0"
proof (induction a c arbitrary: b rule: strcmp.induct)
  case (1 a c)
  have ab: "char0 a \<le> char0 b"
    using "1.prems"(1) by (subst (asm) strcmp.simps) (auto split: if_splits)
  have bc: "char0 b \<le> char0 c"
    using "1.prems"(2) by (subst (asm) strcmp.simps) (auto split: if_splits)
  show ?case
  proof (cases "char0 a = char0 c \<and> char0 a \<noteq> 0")
    case True
    then have eq: "char0 b = char0 a" using ab bc by simp
    have "strcmp (tl a) (tl b) \<le> 0" "strcmp (tl b) (tl c) \<le> 0"
      using "1.prems" True eq by (subst (asm) (1 2) strcmp.simps, simp)+
    then show ?thesis using "1.IH" True by (subst strcmp.simps) auto
  next
    case False
    then show ?thesis using ab bc by (subst strcmp.simps) auto
  qed
qed

interpretation str_order: key_order strcmp
proof
  show "0 < strcmp b a \<longleftrightarrow> strcmp a b < 0" for a b
    using strcmp_antisym [of a b] by simp
  show "strcmp a c \<le> 0" if "strcmp a b \<le> 0" "strcmp b c \<le> 0" for a b c
    using that by (rule strcmp_trans)
qed

lemma cstr_simps [simp]:
  "cstr [] = []" "cstr (c # cs) = (if c = NUL then [] else c # cstr cs)"
  by (simp_all add: cstr_def)

lemma of_char_NUL [simp]: "of_char c = (0 :: nat) \<longleftrightarrow> c = NUL"
  using of_char_eq_iff [of c NUL, where 'a = nat] by (simp add: NUL_def)

lemma char0_cstr: "char0 a = 0 \<longleftrightarrow> cstr a = []"
  by (cases a) auto

lemma strcmp_eq_0: "strcmp a b = 0 \<longleftrightarrow> cstr a = cstr b"
proof (induction a b rule: strcmp.induct)
  case (1 a b)
  show ?case
  proof (cases "char0 a = char0 b \<and> char0 a \<noteq> 0")
    case True
    then obtain c as bs where "a = c # as" "b = c # bs" "c \<noteq> NUL"
      by (cases a; cases b) auto
    then show ?thesis using 1 True by (subst strcmp.simps) auto
  next
    case False
    then show ?thesis
      using char0_cstr [of a] char0_cstr [of b]
      by (subst strcmp.simps) (cases a; cases b; auto)
  qed
qed

lemma cstr_id: "NUL \<notin> set s \<Longrightarrow> cstr s = s"
  by (induction s) auto

lemma cstr_append: "NUL \<notin> set s \<Longrightarrow> cstr (s @ NUL # r) = s"
  by (induction s) auto

lemma NUL_notin_cstr [simp]: "NUL \<notin> set (cstr s)"
  by (induction s) auto

lemma cstr_idem [simp]: "cstr (cstr s) = cstr s"
  by (rule cstr_id) simp

lemma tolower_NUL [simp]: "tolower c = NUL \<longleftrightarrow> c = NUL"
proof -
  have "tolower c = NUL \<longleftrightarrow> of_char (tolower c) = (0 :: nat)" by simp
  also have "\<dots> \<longleftrightarrow> of_char c = (0 :: nat)" by (simp add: tolower_def Let_def del: of_char_NUL)
  finally show ?thesis by simp
qed

lemma tolower_idem [simp]: "tolower (tolower c) = tolower c"
  by (simp add: tolower_def Let_def)

lemma cstr_map_tolower: "cstr (map tolower s) = map tolower (cstr s)"
  by (induction s) auto

lemma strcasecmp_eq_0: "strcasecmp a b = 0 \<longleftrightarrow> map tolower (cstr a) = map tolower (cstr b)"
  by (simp add: strcasecmp_def strcmp_eq_0 cstr_map_tolower)

end
