(* ===== verification/Httpp_Vars.thy ===== *)
theory Httpp_Vars
  imports Avl_Dict CString
begin

section \<open>The parser's variables\<close>

text \<open>
  Models the data of \<open>src/httpp/httpp.h\<close> and the variable store of
  \<open>src/httpp/httpp.c\<close>: three AVL trees of variables (name and array of values), ordered by
  name, used through \<open>avl_insert\<close>, \<open>avl_delete\<close> and \<open>avl_get_by_key\<close>. Every
  operation is \<open>None\<close> where the code would follow a bad pointer. Allocations of the parser
  itself are taken to succeed.
\<close>

subsection \<open>Data\<close>

datatype httpp_ns_t = HTTPP_NS_VAR | HTTPP_NS_HEADER | HTTPP_NS_QUERY_STRING | HTTPP_NS_POST_BODY

datatype httpp_request_type_e =
    httpp_req_none | httpp_req_get | httpp_req_post | httpp_req_put | httpp_req_head
  | httpp_req_options | httpp_req_delete | httpp_req_trace | httpp_req_connect
  | httpp_req_source | httpp_req_play | httpp_req_stats | httpp_req_unknown

text \<open>\<open>value\<close> with its length \<open>values\<close> is a list.\<close>

record http_var_t =
  vname :: string
  vvalue :: "string list"

record http_parser_t =
  refc :: "64 word"
  req_type :: httpp_request_type_e
  uri :: "string option"
  vars :: "http_var_t avl_tree"
  queryvars :: "http_var_t avl_tree"
  postvars :: "http_var_t avl_tree"

definition HTTPP_VAR_PROTOCOL :: string where "HTTPP_VAR_PROTOCOL = ''__protocol''"
definition HTTPP_VAR_VERSION :: string where "HTTPP_VAR_VERSION = ''__version''"
definition HTTPP_VAR_URI :: string where "HTTPP_VAR_URI = ''__uri''"
definition HTTPP_VAR_RAWURI :: string where "HTTPP_VAR_RAWURI = ''__rawuri''"
definition HTTPP_VAR_QUERYARGS :: string where "HTTPP_VAR_QUERYARGS = ''__queryargs''"
definition HTTPP_VAR_REQ_TYPE :: string where "HTTPP_VAR_REQ_TYPE = ''__req_type''"
definition HTTPP_VAR_ERROR_MESSAGE :: string where "HTTPP_VAR_ERROR_MESSAGE = ''__errormessage''"
definition HTTPP_VAR_ERROR_CODE :: string where "HTTPP_VAR_ERROR_CODE = ''__errorcode''"

lemmas var_names = HTTPP_VAR_PROTOCOL_def HTTPP_VAR_VERSION_def HTTPP_VAR_URI_def HTTPP_VAR_RAWURI_def
  HTTPP_VAR_QUERYARGS_def HTTPP_VAR_REQ_TYPE_def HTTPP_VAR_ERROR_MESSAGE_def HTTPP_VAR_ERROR_CODE_def

definition compare_vars :: "http_var_t \<Rightarrow> http_var_t \<Rightarrow> int" where
  "compare_vars a b = strcmp (vname a) (vname b)"

subsection \<open>Methods and what is known of them\<close>

definition httpp_str_to_method :: "string \<Rightarrow> httpp_request_type_e" where
  "httpp_str_to_method m =
     (if strcasecmp ''GET'' m = 0 then httpp_req_get
      else if strcasecmp ''POST'' m = 0 then httpp_req_post
      else if strcasecmp ''PUT'' m = 0 then httpp_req_put
      else if strcasecmp ''HEAD'' m = 0 then httpp_req_head
      else if strcasecmp ''OPTIONS'' m = 0 then httpp_req_options
      else if strcasecmp ''DELETE'' m = 0 then httpp_req_delete
      else if strcasecmp ''TRACE'' m = 0 then httpp_req_trace
      else if strcasecmp ''CONNECT'' m = 0 then httpp_req_connect
      else if strcasecmp ''SOURCE'' m = 0 then httpp_req_source
      else if strcasecmp ''PLAY'' m = 0 then httpp_req_play
      else if strcasecmp ''STATS'' m = 0 then httpp_req_stats
      else httpp_req_unknown)"

definition HTTPP_REQUEST_IS_SAFE :: "32 word" where "HTTPP_REQUEST_IS_SAFE = 0x0001"
definition HTTPP_REQUEST_IS_IDEMPOTENT :: "32 word" where "HTTPP_REQUEST_IS_IDEMPOTENT = 0x0002"
definition HTTPP_REQUEST_IS_CACHEABLE :: "32 word" where "HTTPP_REQUEST_IS_CACHEABLE = 0x0004"
definition HTTPP_REQUEST_HAS_RESPONSE_BODY :: "32 word" where "HTTPP_REQUEST_HAS_RESPONSE_BODY = 0x0010"
definition HTTPP_REQUEST_HAS_REQUEST_BODY :: "32 word" where "HTTPP_REQUEST_HAS_REQUEST_BODY = 0x0100"
definition HTTPP_REQUEST_HAS_OPTIONAL_REQUEST_BODY :: "32 word" where
  "HTTPP_REQUEST_HAS_OPTIONAL_REQUEST_BODY = 0x0200"

lemmas request_flags = HTTPP_REQUEST_IS_SAFE_def HTTPP_REQUEST_IS_IDEMPOTENT_def
  HTTPP_REQUEST_IS_CACHEABLE_def HTTPP_REQUEST_HAS_RESPONSE_BODY_def
  HTTPP_REQUEST_HAS_REQUEST_BODY_def HTTPP_REQUEST_HAS_OPTIONAL_REQUEST_BODY_def

definition httpp_request_info :: "httpp_request_type_e \<Rightarrow> 32 word" where
  "httpp_request_info req = (case req of
     httpp_req_get \<Rightarrow> HTTPP_REQUEST_IS_SAFE OR HTTPP_REQUEST_IS_IDEMPOTENT OR HTTPP_REQUEST_IS_CACHEABLE OR
       HTTPP_REQUEST_HAS_RESPONSE_BODY OR HTTPP_REQUEST_HAS_OPTIONAL_REQUEST_BODY
   | httpp_req_post \<Rightarrow> HTTPP_REQUEST_IS_CACHEABLE OR HTTPP_REQUEST_HAS_RESPONSE_BODY OR HTTPP_REQUEST_HAS_REQUEST_BODY
   | httpp_req_put \<Rightarrow> HTTPP_REQUEST_IS_IDEMPOTENT OR HTTPP_REQUEST_HAS_RESPONSE_BODY OR HTTPP_REQUEST_HAS_REQUEST_BODY
   | httpp_req_head \<Rightarrow> HTTPP_REQUEST_IS_SAFE OR HTTPP_REQUEST_IS_IDEMPOTENT OR HTTPP_REQUEST_IS_CACHEABLE
   | httpp_req_options \<Rightarrow> HTTPP_REQUEST_IS_SAFE OR HTTPP_REQUEST_IS_IDEMPOTENT OR
       HTTPP_REQUEST_HAS_RESPONSE_BODY OR HTTPP_REQUEST_HAS_OPTIONAL_REQUEST_BODY
   | httpp_req_delete \<Rightarrow> HTTPP_REQUEST_IS_IDEMPOTENT OR HTTPP_REQUEST_HAS_RESPONSE_BODY
   | httpp_req_trace \<Rightarrow> HTTPP_REQUEST_IS_SAFE OR HTTPP_REQUEST_IS_IDEMPOTENT OR HTTPP_REQUEST_HAS_RESPONSE_BODY
   | httpp_req_connect \<Rightarrow> HTTPP_REQUEST_HAS_RESPONSE_BODY OR HTTPP_REQUEST_HAS_REQUEST_BODY
   | httpp_req_source \<Rightarrow> HTTPP_REQUEST_HAS_RESPONSE_BODY OR HTTPP_REQUEST_HAS_REQUEST_BODY
   | httpp_req_play \<Rightarrow> HTTPP_REQUEST_IS_SAFE OR HTTPP_REQUEST_HAS_RESPONSE_BODY OR HTTPP_REQUEST_HAS_OPTIONAL_REQUEST_BODY
   | httpp_req_stats \<Rightarrow> HTTPP_REQUEST_IS_SAFE OR HTTPP_REQUEST_HAS_RESPONSE_BODY OR HTTPP_REQUEST_HAS_OPTIONAL_REQUEST_BODY
   | _ \<Rightarrow> HTTPP_REQUEST_HAS_RESPONSE_BODY OR HTTPP_REQUEST_HAS_OPTIONAL_REQUEST_BODY)"

subsection \<open>Single trees\<close>

text \<open>A variable that only serves as a search key.\<close>

definition key_var :: "string \<Rightarrow> http_var_t" where
  "key_var name = \<lparr>vname = name, vvalue = []\<rparr>"

definition httpp_get_param_var_in :: "http_var_t avl_tree \<Rightarrow> string \<Rightarrow> http_var_t option option" where
  "httpp_get_param_var_in tree name = do {
     (r, found) \<leftarrow> avl_get_by_key tree (key_var name);
     Some (if r = 0 then found else None)
   }"

definition httpp_get_param_in :: "http_var_t avl_tree \<Rightarrow> string \<Rightarrow> string option option" where
  "httpp_get_param_in tree name = do {
     res \<leftarrow> httpp_get_param_var_in tree name;
     Some (case res of None \<Rightarrow> None | Some var \<Rightarrow> (case vvalue var of [] \<Rightarrow> None | v # vs \<Rightarrow> Some v))
   }"

text \<open>
  The object a lookup returned is the one the tree's node points to; changing it through that
  pointer changes the node's key. \<open>modify_found\<close> follows the lookup and changes the object.
\<close>

partial_function (option) modify_found ::
    "('k \<Rightarrow> 'k \<Rightarrow> int) \<Rightarrow> 'k \<Rightarrow> ('k \<Rightarrow> 'k) \<Rightarrow> ptr \<Rightarrow> 'k store \<Rightarrow> 'k store option" where
  "modify_found cmp ky f x st = do {
     xn \<leftarrow> rd st x;
     c \<leftarrow> cmp_key cmp ky xn;
     if c < 0 then modify_found cmp ky f (left xn) st
     else if c > 0 then modify_found cmp ky f (right xn) st
     else wr st x (key_update (map_option f))
   }"

definition modify_found_in :: "'k avl_tree \<Rightarrow> 'k \<Rightarrow> ('k \<Rightarrow> 'k) \<Rightarrow> 'k avl_tree option" where
  "modify_found_in tree ky f = do {
     rootn \<leftarrow> rd (store tree) (root tree);
     st \<leftarrow> modify_found (compare_fun tree) ky f (right rootn) (store tree);
     Some (tree\<lparr>store := st\<rparr>)
   }"

definition httpp_set_param_nocopy ::
    "http_var_t avl_tree \<Rightarrow> string \<Rightarrow> string option \<Rightarrow> bool \<Rightarrow> http_var_t avl_tree option" where
  "httpp_set_param_nocopy tree name value replace = (case value of
     None \<Rightarrow> Some tree
   | Some value \<Rightarrow> do {
       found \<leftarrow> httpp_get_param_var_in tree name;
       (case found of
          Some var \<Rightarrow>
            (if replace then do {
               (r, freed, tree) \<leftarrow> avl_delete tree var;
               (r, tree) \<leftarrow> avl_insert tree \<lparr>vname = name, vvalue = [value]\<rparr>;
               Some tree
             } else modify_found_in tree (key_var name) (vvalue_update (\<lambda>vs. vs @ [value])))
        | None \<Rightarrow> do {
            (r, tree) \<leftarrow> avl_insert tree \<lparr>vname = name, vvalue = [value]\<rparr>;
            Some tree
          })
     })"

subsection \<open>The parser's operations on its trees\<close>

definition httpp_getvar :: "http_parser_t \<Rightarrow> string \<Rightarrow> string option option" where
  "httpp_getvar parser name = do {
     (r, found) \<leftarrow> avl_get_by_key (vars parser) (key_var name);
     (if r = 0 then do {
        found \<leftarrow> found;
        Some (case vvalue found of [] \<Rightarrow> None | v # vs \<Rightarrow> Some v)
      } else Some None)
   }"

definition httpp_setvar :: "http_parser_t \<Rightarrow> string option \<Rightarrow> string option \<Rightarrow> http_parser_t option" where
  "httpp_setvar parser name value = (case (name, value) of
     (Some name, Some value) \<Rightarrow> do {
       let var = \<lparr>vname = name, vvalue = [value]\<rparr>;
       old \<leftarrow> httpp_getvar parser name;
       (if old = None then do {
          (r, t) \<leftarrow> avl_insert (vars parser) var;
          Some (parser\<lparr>vars := t\<rparr>)
        } else do {
          (r, freed, t) \<leftarrow> avl_delete (vars parser) var;
          (r, t) \<leftarrow> avl_insert t var;
          Some (parser\<lparr>vars := t\<rparr>)
        })
     }
   | _ \<Rightarrow> Some parser)"

definition httpp_deletevar :: "http_parser_t option \<Rightarrow> string option \<Rightarrow> http_parser_t option option" where
  "httpp_deletevar parser name = (case (parser, name) of
     (Some parser, Some name) \<Rightarrow> do {
       (r, freed, t) \<leftarrow> avl_delete (vars parser) (key_var name);
       Some (Some (parser\<lparr>vars := t\<rparr>))
     }
   | _ \<Rightarrow> Some parser)"

end
