(* ===== verification/Httpp_Parse.thy ===== *)
theory Httpp_Parse
  imports Httpp_Vars
begin

section \<open>The HTTP parser\<close>

text \<open>
  The rest of \<open>src/httpp/httpp.c\<close>. The local copy of the request is an array of characters,
  into which the code writes NULs; the pointers into it are indices. \<open>line\<close> is the array of
  line starts, of which the entries not yet written are \<open>None\<close>. Every access to an array is
  checked against its bounds, and gives \<open>None\<close> outside, where C has no defined behaviour. The
  allocation of the copy is taken to succeed.
\<close>

definition MAX_HEADERS :: nat where
  "MAX_HEADERS = 32"

subsection \<open>Accesses\<close>

definition get_char :: "string \<Rightarrow> nat \<Rightarrow> char option" where
  "get_char data i = (if i < length data then Some (data ! i) else None)"

definition set_char :: "string \<Rightarrow> nat \<Rightarrow> char \<Rightarrow> string option" where
  "set_char data i c = (if i < length data then Some (data[i := c]) else None)"

text \<open>The C string at an index: it must end within the array.\<close>

definition get_str :: "string \<Rightarrow> nat \<Rightarrow> string option" where
  "get_str data i = (if NUL \<in> set (drop i data) then Some (str_at data i) else None)"

definition get_str_if :: "string \<Rightarrow> nat option \<Rightarrow> string option option" where
  "get_str_if data p = (case p of None \<Rightarrow> Some None | Some i \<Rightarrow> map_option Some (get_str data i))"

text \<open>The copy with its terminator: \<open>memcpy\<close> must not read beyond the data of the caller.\<close>

definition copy_data :: "string \<Rightarrow> nat \<Rightarrow> string option" where
  "copy_data http_data len = (if len \<le> length http_data then Some (take len http_data @ [NUL]) else None)"

text \<open>The array \<open>line\<close> of \<open>MAX_HEADERS\<close> pointers.\<close>

definition set_line :: "(nat \<Rightarrow> nat option) \<Rightarrow> nat \<Rightarrow> nat \<Rightarrow> (nat \<Rightarrow> nat option) option" where
  "set_line line n p = (if n < MAX_HEADERS then Some (line(n \<mapsto> p)) else None)"

definition get_line :: "(nat \<Rightarrow> nat option) \<Rightarrow> nat \<Rightarrow> nat option" where
  "get_line line n = (if n < MAX_HEADERS then line n else None)"

text \<open>The length of a string as the \<open>int\<close> it is stored in; loops up to a negative one do not run.\<close>

definition int_size :: "nat \<Rightarrow> nat" where
  "int_size n = nat (sint (word_of_nat n :: 32 word))"

subsection \<open>Splitting into lines\<close>

text \<open>
  The loop of \<open>split_headers\<close> from index \<open>i\<close> on; the result is the array, the number
  of lines and the line starts. What follows the loop in the code has no effect.
\<close>

function split_loop ::
    "string \<Rightarrow> nat \<Rightarrow> nat \<Rightarrow> nat \<Rightarrow> (nat \<Rightarrow> nat option) \<Rightarrow> (string \<times> nat \<times> (nat \<Rightarrow> nat option)) option" where
  "split_loop data len i lines line =
     (if i < len \<and> lines < MAX_HEADERS then do {
        c \<leftarrow> get_char data i;
        data \<leftarrow> (if c = CR then set_char data i NUL else Some data);
        c \<leftarrow> get_char data i;
        (if c = LF then do {
           let lines = lines + 1;
           data \<leftarrow> set_char data i NUL;
           (if lines \<ge> MAX_HEADERS then Some (data, MAX_HEADERS, line)
            else if i + 1 < len then do {
              d \<leftarrow> get_char data (i + 1);
              (if d = LF \<or> d = CR then Some (data, lines, line)
               else do {
                 line \<leftarrow> set_line line lines (i + 1);
                 split_loop data len (i + 1) lines line
               })
            } else split_loop data len (i + 1) lines line)
         } else split_loop data len (i + 1) lines line)
      } else Some (data, lines, line))"
  by auto
termination
  by (relation "measure (\<lambda>(data, len, i, lines, line). len - i)") auto

definition split_headers :: "string \<Rightarrow> nat \<Rightarrow> (string \<times> nat \<times> (nat \<Rightarrow> nat option)) option" where
  "split_headers data len = do {
     line \<leftarrow> set_line (\<lambda>_. None) 0 0;
     split_loop data len 0 0 line
   }"

subsection \<open>Header lines\<close>

function skip_spaces :: "string \<Rightarrow> nat \<Rightarrow> nat \<Rightarrow> nat \<Rightarrow> nat option" where
  "skip_spaces data b slen i =
     (if i < slen then do {
        c \<leftarrow> get_char data (b + i);
        (if c = CHR '' '' then skip_spaces data b slen (i + 1) else Some i)
      } else Some i)"
  by auto
termination
  by (relation "measure (\<lambda>(data, b, slen, i). slen - i)") auto

text \<open>The scan of one line, which starts at \<open>b\<close>: the array and the index of the value.\<close>

function header_loop :: "string \<Rightarrow> nat \<Rightarrow> nat \<Rightarrow> nat \<Rightarrow> bool \<Rightarrow> (string \<times> nat option) option" where
  "header_loop data b slen i whitespace =
     (if i < slen then do {
        c \<leftarrow> get_char data (b + i);
        (if c = CHR '':'' then do {
           data \<leftarrow> set_char data (b + i) NUL;
           header_loop data b slen (i + 1) True
         } else if whitespace then do {
           i \<leftarrow> skip_spaces data b slen i;
           Some (data, if i < slen then Some (b + i) else None)
         } else header_loop data b slen (i + 1) whitespace)
      } else Some (data, None))"
  by auto
termination
  by (relation "measure (\<lambda>(data, b, slen, i, ws). slen - i)") auto

text \<open>
  \<open>_lowercase\<close> works in place. \<open>tolower\<close> is given a \<open>char\<close> that may be negative, which the GNU C
  library allows.
\<close>

function lowercase :: "string \<Rightarrow> nat \<Rightarrow> string option" where
  "lowercase data p = do {
     c \<leftarrow> get_char data p;
     (if c \<noteq> NUL then lowercase (data[p := tolower c]) (p + 1) else Some data)
   }"
  by auto
termination
  by (relation "measure (\<lambda>(data, p). length data - p)") (auto simp: get_char_def split: if_split_asm)

text \<open>\<open>for (l = 1; l < lines; l++)\<close>, with an uninitialised line start as \<open>None\<close>.\<close>

function parse_headers_loop ::
    "http_parser_t \<Rightarrow> string \<Rightarrow> (nat \<Rightarrow> nat option) \<Rightarrow> nat \<Rightarrow> nat \<Rightarrow> http_parser_t option" where
  "parse_headers_loop parser data line lines l =
     (if l < lines then do {
        b \<leftarrow> get_line line l;
        s \<leftarrow> get_str data b;
        (data, v) \<leftarrow> header_loop data b (int_size (length s)) 0 False;
        (case v of
           None \<Rightarrow> parse_headers_loop parser data line lines (l + 1)
         | Some v \<Rightarrow> do {
             data \<leftarrow> lowercase data b;
             n \<leftarrow> get_str data b;
             w \<leftarrow> get_str data v;
             parser \<leftarrow> httpp_setvar parser (Some n) (Some w);
             parse_headers_loop parser data line lines (l + 1)
           })
      } else Some parser)"
  by auto
termination
  by (relation "measure (\<lambda>(parser, data, line, lines, l). lines - l)") auto

definition parse_headers ::
    "http_parser_t \<Rightarrow> string \<Rightarrow> (nat \<Rightarrow> nat option) \<Rightarrow> nat \<Rightarrow> http_parser_t option" where
  "parse_headers parser data line lines = parse_headers_loop parser data line lines 1"

subsection \<open>Queries\<close>

definition hex :: "char \<Rightarrow> int" where
  "hex c = (let n = of_char c :: nat in
     if 48 \<le> n \<and> n \<le> 57 then int n - 48
     else if 65 \<le> n \<and> n \<le> 70 then int n - 65 + 10
     else if 97 \<le> n \<and> n \<le> 102 then int n - 97 + 10
     else -1)"

text \<open>
  \<open>url_unescape\<close> on the characters that are left; the result is what the loop appends to the
  buffer, or \<open>None\<close> for NULL.
\<close>

fun url_unescape :: "string \<Rightarrow> string option" where
  "url_unescape [] = Some []"
| "url_unescape (c # cs) =
     (if c = CHR ''%'' then
        (case cs of
           a # b # rest \<Rightarrow>
             if hex a = -1 \<or> hex b = -1 then None
             else map_option (\<lambda>s. char_of (nat (hex a * 16 + hex b)) # s) (url_unescape rest)
         | _ \<Rightarrow> None)
      else if c = CHR ''+'' then map_option (\<lambda>s. CHR '' '' # s) (url_unescape cs)
      else if c = CHR 0x23 then Some []
      else if c = NUL then None
      else map_option (\<lambda>s. c # s) (url_unescape cs))"

text \<open>\<open>start\<close>, \<open>mid\<close> and \<open>end\<close> are indices into \<open>query\<close>.\<close>

definition parse_query_element ::
    "http_var_t avl_tree \<Rightarrow> string \<Rightarrow> nat \<Rightarrow> nat option \<Rightarrow> nat \<Rightarrow> http_var_t avl_tree option" where
  "parse_query_element tree query start mid stop =
     (if start \<ge> stop then Some tree
      else case mid of
        None \<Rightarrow> Some tree
      | Some mid \<Rightarrow>
          (let keylen = mid - start; valuelen = stop - mid - 1 in
           if keylen = 0 \<or> valuelen = 0 then Some tree
           else httpp_set_param_nocopy tree (take keylen (drop start query))
                  (url_unescape (take valuelen (drop (mid + 1) query))) False))"

function parse_query_loop ::
    "http_var_t avl_tree \<Rightarrow> string \<Rightarrow> nat \<Rightarrow> nat \<Rightarrow> nat \<Rightarrow> nat option \<Rightarrow> http_var_t avl_tree option" where
  "parse_query_loop tree query len i start mid =
     (if i < len then do {
        c \<leftarrow> get_char query i;
        (if c = CHR ''&'' then do {
           tree \<leftarrow> parse_query_element tree query start mid i;
           parse_query_loop tree query len (i + 1) (i + 1) None
         } else if c = CHR ''='' then parse_query_loop tree query len (i + 1) start (Some i)
         else parse_query_loop tree query len (i + 1) start mid)
      } else parse_query_element tree query start mid i)"
  by auto
termination
  by (relation "measure (\<lambda>(tree, query, len, i, start, mid). len - i)") auto

text \<open>\<open>query\<close> is NULL or an array, which is followed by a NUL.\<close>

definition parse_query ::
    "http_var_t avl_tree \<Rightarrow> string option \<Rightarrow> nat \<Rightarrow> http_var_t avl_tree option" where
  "parse_query tree query len = (case query of
     None \<Rightarrow> Some tree
   | Some query \<Rightarrow> if cstr query = [] then Some tree else parse_query_loop tree query len 0 0 None)"

subsection \<open>Requests and responses\<close>

text \<open>
  The scan of the request line: the array and the indices of URI and version, or
  \<open>Some None\<close> when there is a fourth word.
\<close>

function request_line_loop ::
    "string \<Rightarrow> nat \<Rightarrow> nat \<Rightarrow> bool \<Rightarrow> nat \<Rightarrow> nat option \<Rightarrow> nat option \<Rightarrow>
     (string \<times> nat option \<times> nat option) option option" where
  "request_line_loop data slen i whitespace wh uri_p version =
     (if i < slen then do {
        c \<leftarrow> get_char data i;
        (if c = CHR '' '' then do {
           data \<leftarrow> set_char data i NUL;
           request_line_loop data slen (i + 1) True wh uri_p version
         } else if whitespace then
           (let wh = wh + 1 in
            if wh = 1 then request_line_loop data slen (i + 1) False wh (Some i) version
            else if wh = 2 then request_line_loop data slen (i + 1) False wh uri_p (Some i)
            else if wh = 3 then Some None
            else request_line_loop data slen (i + 1) False wh uri_p version)
         else request_line_loop data slen (i + 1) whitespace wh uri_p version)
      } else Some (Some (data, uri_p, version)))"
  by auto
termination
  by (relation "measure (\<lambda>(data, slen, i, ws, wh, u, v). slen - i)") auto

definition method_name :: "httpp_request_type_e \<Rightarrow> string option" where
  "method_name m = (case m of
     httpp_req_get \<Rightarrow> Some ''GET'' | httpp_req_post \<Rightarrow> Some ''POST'' | httpp_req_put \<Rightarrow> Some ''PUT''
   | httpp_req_head \<Rightarrow> Some ''HEAD'' | httpp_req_options \<Rightarrow> Some ''OPTIONS''
   | httpp_req_delete \<Rightarrow> Some ''DELETE'' | httpp_req_trace \<Rightarrow> Some ''TRACE''
   | httpp_req_connect \<Rightarrow> Some ''CONNECT'' | httpp_req_source \<Rightarrow> Some ''SOURCE''
   | httpp_req_play \<Rightarrow> Some ''PLAY'' | httpp_req_stats \<Rightarrow> Some ''STATS'' | _ \<Rightarrow> None)"

text \<open>
  The steps of \<open>httpp_parse\<close> after the request line is split: the URI and its query, the
  version, the method. \<open>Inl\<close> is a \<open>return 0\<close>.
\<close>

definition parse_uri :: "http_parser_t \<Rightarrow> string option \<Rightarrow> (http_parser_t + http_parser_t) option" where
  "parse_uri parser u = (case u of
     None \<Rightarrow> Some (Inl parser)
   | Some u \<Rightarrow>
       (if length u > 0 then do {
          (case strchr u CHR ''?'' of
             None \<Rightarrow> Some (Inr (parser\<lparr>uri := Some u\<rparr>))
           | Some query \<Rightarrow> do {
               parser \<leftarrow> httpp_setvar parser (Some HTTPP_VAR_RAWURI) (Some u);
               parser \<leftarrow> httpp_setvar parser (Some HTTPP_VAR_QUERYARGS) (Some query);
               t \<leftarrow> parse_query (queryvars parser) (Some (tl query)) (length (tl query));
               Some (Inr (parser\<lparr>queryvars := t, uri := Some (takeWhile (\<lambda>c. c \<noteq> CHR ''?'') u)\<rparr>))
             })
        } else Some (Inl parser)))"

definition parse_version :: "http_parser_t \<Rightarrow> string option \<Rightarrow> (http_parser_t + http_parser_t) option" where
  "parse_version parser version = (case version of
     None \<Rightarrow> Some (Inl parser)
   | Some version \<Rightarrow>
       (case strchr version CHR ''/'' of
          None \<Rightarrow> Some (Inl parser)
        | Some tmp \<Rightarrow>
            (let protocol = takeWhile (\<lambda>c. c \<noteq> CHR ''/'') version in
             if length protocol > 0 \<and> length (tl tmp) > 0 then do {
               parser \<leftarrow> httpp_setvar parser (Some HTTPP_VAR_PROTOCOL) (Some protocol);
               parser \<leftarrow> httpp_setvar parser (Some HTTPP_VAR_VERSION) (Some (tl tmp));
               Some (Inr parser)
             } else Some (Inl parser))))"

text \<open>The method, and what is done when the method and the URI are known.\<close>

definition parse_method ::
    "http_parser_t \<Rightarrow> string \<Rightarrow> (nat \<Rightarrow> nat option) \<Rightarrow> nat \<Rightarrow> (int \<times> http_parser_t) option" where
  "parse_method parser data line lines =
     (if req_type parser \<noteq> httpp_req_none \<and> req_type parser \<noteq> httpp_req_unknown then do {
        parser \<leftarrow> httpp_setvar parser (Some HTTPP_VAR_REQ_TYPE) (method_name (req_type parser));
        (if uri parser \<noteq> None then do {
           parser \<leftarrow> httpp_setvar parser (Some HTTPP_VAR_URI) (uri parser);
           parser \<leftarrow> parse_headers parser data line lines;
           Some (1, parser)
         } else Some (0, parser))
      } else Some (0, parser))"

definition httpp_parse :: "http_parser_t \<Rightarrow> string option \<Rightarrow> nat \<Rightarrow> (int \<times> http_parser_t) option" where
  "httpp_parse parser http_data len = (case http_data of
     None \<Rightarrow> Some (0, parser)
   | Some http_data \<Rightarrow> do {
       data \<leftarrow> copy_data http_data len;
       (data, lines, line) \<leftarrow> split_headers data len;
       first \<leftarrow> get_str data 0;
       words \<leftarrow> request_line_loop data (int_size (length first)) 0 False 0 None None;
       (case words of
          None \<Rightarrow> Some (0, parser)
        | Some (data, uri_p, version) \<Rightarrow> do {
            req \<leftarrow> get_str data 0;
            u \<leftarrow> get_str_if data uri_p;
            v \<leftarrow> get_str_if data version;
            let parser = parser\<lparr>req_type := httpp_str_to_method req\<rparr>;
            r \<leftarrow> parse_uri parser u;
            (case r of
               Inl parser \<Rightarrow> Some (0, parser)
             | Inr parser \<Rightarrow> do {
                 r \<leftarrow> parse_version parser v;
                 (case r of
                    Inl parser \<Rightarrow> Some (0, parser)
                  | Inr parser \<Rightarrow> parse_method parser data line lines)
               })
          })
     })"

text \<open>The scan of a status line: the array and the indices of code and message.\<close>

function status_line_loop ::
    "string \<Rightarrow> nat \<Rightarrow> nat \<Rightarrow> bool \<Rightarrow> nat \<Rightarrow> nat option \<Rightarrow> (string \<times> nat option \<times> nat option) option" where
  "status_line_loop data slen i whitespace wh resp_code =
     (if i < slen then do {
        c \<leftarrow> get_char data i;
        (if c = CHR '' '' then do {
           data \<leftarrow> set_char data i NUL;
           status_line_loop data slen (i + 1) True wh resp_code
         } else if whitespace then
           (let wh = wh + 1 in
            if wh = 1 then status_line_loop data slen (i + 1) False wh (Some i)
            else Some (data, resp_code, Some i))
         else status_line_loop data slen (i + 1) whitespace wh resp_code)
      } else Some (data, resp_code, None))"
  by auto
termination
  by (relation "measure (\<lambda>(data, slen, i, ws, wh, c). slen - i)") auto

text \<open>The words of the status line: the array with them, the code and the message.\<close>

definition status_words ::
    "string \<Rightarrow> nat \<Rightarrow> (string \<times> nat \<times> (nat \<Rightarrow> nat option) \<times> string option \<times> string option) option" where
  "status_words http_data len = do {
     data \<leftarrow> copy_data http_data len;
     (data, lines, line) \<leftarrow> split_headers data len;
     first \<leftarrow> get_str data 0;
     (data, resp_code, message) \<leftarrow> status_line_loop data (int_size (length first)) 0 False 0 None;
     c \<leftarrow> get_str_if data resp_code;
     m \<leftarrow> get_str_if data message;
     Some (data, lines, line, c, m)
   }"

definition httpp_parse_response ::
    "http_parser_t \<Rightarrow> string option \<Rightarrow> nat \<Rightarrow> string option \<Rightarrow> (int \<times> http_parser_t) option" where
  "httpp_parse_response parser http_data len u = (case http_data of
     None \<Rightarrow> Some (0, parser)
   | Some http_data \<Rightarrow> do {
       (data, lines, line, resp_code, message) \<leftarrow> status_words http_data len;
       (case (resp_code, message) of
          (Some resp_code, Some message) \<Rightarrow> do {
            parser \<leftarrow> httpp_setvar parser (Some HTTPP_VAR_ERROR_CODE) (Some resp_code);
            code \<leftarrow> atoi resp_code;
            parser \<leftarrow> (if code < 200 \<or> code \<ge> 300
              then httpp_setvar parser (Some HTTPP_VAR_ERROR_MESSAGE) (Some message)
              else Some parser);
            parser \<leftarrow> httpp_setvar parser (Some HTTPP_VAR_URI) u;
            parser \<leftarrow> httpp_setvar parser (Some HTTPP_VAR_REQ_TYPE) (Some ''NONE'');
            parser \<leftarrow> parse_headers parser data line lines;
            Some (1, parser)
          }
        | _ \<Rightarrow> Some (0, parser))
     })"

text \<open>A missing content type is passed to \<open>strcasecmp\<close> as NULL: no behaviour.\<close>

definition httpp_parse_postdata ::
    "http_parser_t \<Rightarrow> string option \<Rightarrow> nat \<Rightarrow> (int \<times> http_parser_t) option" where
  "httpp_parse_postdata parser body_data len = do {
     header \<leftarrow> httpp_getvar parser ''content-type'';
     header \<leftarrow> header;
     (if strcasecmp header ''application/x-www-form-urlencoded'' \<noteq> 0 then Some (-1, parser)
      else do {
        t \<leftarrow> parse_query (postvars parser) body_data len;
        Some (0, parser\<lparr>postvars := t\<rparr>)
      })
   }"

subsection \<open>Parameters\<close>

definition httpp_set_param :: "http_var_t avl_tree \<Rightarrow> string option \<Rightarrow> string option \<Rightarrow> http_var_t avl_tree option" where
  "httpp_set_param tree name value = (case (name, value) of
     (Some name, Some value) \<Rightarrow> httpp_set_param_nocopy tree name (url_unescape value) True
   | _ \<Rightarrow> Some tree)"

definition httpp_set_query_param :: "http_parser_t \<Rightarrow> string option \<Rightarrow> string option \<Rightarrow> http_parser_t option" where
  "httpp_set_query_param parser name value = do {
     t \<leftarrow> httpp_set_param (queryvars parser) name value;
     Some (parser\<lparr>queryvars := t\<rparr>)
   }"

definition httpp_get_query_param :: "http_parser_t \<Rightarrow> string \<Rightarrow> string option option" where
  "httpp_get_query_param parser name = httpp_get_param_in (queryvars parser) name"

definition httpp_set_post_param :: "http_parser_t \<Rightarrow> string option \<Rightarrow> string option \<Rightarrow> http_parser_t option" where
  "httpp_set_post_param parser name value = do {
     t \<leftarrow> httpp_set_param (postvars parser) name value;
     Some (parser\<lparr>postvars := t\<rparr>)
   }"

definition httpp_get_post_param :: "http_parser_t \<Rightarrow> string \<Rightarrow> string option option" where
  "httpp_get_post_param parser name = httpp_get_param_in (postvars parser) name"

definition httpp_get_param_var :: "http_parser_t \<Rightarrow> string \<Rightarrow> http_var_t option option" where
  "httpp_get_param_var parser name = do {
     ret \<leftarrow> httpp_get_param_var_in (postvars parser) name;
     (if ret \<noteq> None then Some ret else httpp_get_param_var_in (queryvars parser) name)
   }"

definition httpp_get_param :: "http_parser_t \<Rightarrow> string \<Rightarrow> string option option" where
  "httpp_get_param parser name = do {
     ret \<leftarrow> httpp_get_param_in (postvars parser) name;
     (if ret \<noteq> None then Some ret else httpp_get_param_in (queryvars parser) name)
   }"

text \<open>\<open>name[0]\<close> and \<open>name[1]\<close>, the terminator included.\<close>

definition name_at :: "string \<Rightarrow> nat \<Rightarrow> char" where
  "name_at name i = (if i < length name then name ! i else NUL)"

definition httpp_get_any_var ::
    "http_parser_t option \<Rightarrow> httpp_ns_t \<Rightarrow> string option \<Rightarrow> http_var_t option option" where
  "httpp_get_any_var parser ns name = (case (parser, name) of
     (Some parser, Some name) \<Rightarrow>
       (case ns of
          HTTPP_NS_VAR \<Rightarrow>
            if name_at name 0 \<noteq> CHR ''_'' \<or> name_at name 1 \<noteq> CHR ''_'' then Some None
            else httpp_get_param_var_in (vars parser) name
        | HTTPP_NS_HEADER \<Rightarrow>
            if name_at name 0 = CHR ''_'' \<and> name_at name 1 = CHR ''_'' then Some None
            else httpp_get_param_var_in (vars parser) name
        | HTTPP_NS_QUERY_STRING \<Rightarrow> httpp_get_param_var_in (queryvars parser) name
        | HTTPP_NS_POST_BODY \<Rightarrow> httpp_get_param_var_in (postvars parser) name)
   | _ \<Rightarrow> Some None)"

subsection \<open>Listing the names\<close>

definition key_skipped :: "httpp_ns_t \<Rightarrow> http_var_t \<Rightarrow> bool" where
  "key_skipped ns var =
     (ns = HTTPP_NS_VAR \<and> (name_at (vname var) 0 \<noteq> CHR ''_'' \<or> name_at (vname var) 1 \<noteq> CHR ''_'') \<or>
      ns = HTTPP_NS_HEADER \<and> name_at (vname var) 0 = CHR ''_'' \<and> name_at (vname var) 1 = CHR ''_'')"

text \<open>
  The loop over the tree. \<open>ret\<close> is the array of \<open>len\<close> pointers, \<open>pos\<close> the number of
  names so far; a write beyond the array is \<open>None\<close>.
\<close>

partial_function (option) any_key_loop ::
    "httpp_ns_t \<Rightarrow> http_var_t store \<Rightarrow> ptr \<Rightarrow> string option list \<Rightarrow> nat \<Rightarrow> string option list option" where
  "any_key_loop ns st nd ret pos =
     (if nd = None then Some ret
      else do {
        n \<leftarrow> rd st nd;
        var \<leftarrow> key n;
        nxt \<leftarrow> avl_get_next st nd;
        (if key_skipped ns var then any_key_loop ns st nxt ret pos
         else
           (case (if pos = length ret - 1 then ret @ replicate 8 None else ret) of ret \<Rightarrow>
              if pos < length ret then
                any_key_loop ns st nxt (ret[pos := Some (cstr (vname var))]) (pos + 1)
              else None))
      })"

definition httpp_get_any_key :: "http_parser_t option \<Rightarrow> httpp_ns_t \<Rightarrow> string option list option option" where
  "httpp_get_any_key parser ns = (case parser of
     None \<Rightarrow> Some None
   | Some parser \<Rightarrow> do {
       let tree = (case ns of HTTPP_NS_VAR \<Rightarrow> vars parser | HTTPP_NS_HEADER \<Rightarrow> vars parser
         | HTTPP_NS_QUERY_STRING \<Rightarrow> queryvars parser | HTTPP_NS_POST_BODY \<Rightarrow> postvars parser);
       nd \<leftarrow> avl_get_first tree;
       ret \<leftarrow> any_key_loop ns (store tree) nd (replicate 8 None) 0;
       Some (Some ret)
     })"

text \<open>\<open>httpp_free_any_key\<close> frees up to the first NULL: the strings it frees, if there is one.\<close>

fun free_any_key_loop :: "string option list \<Rightarrow> string list option" where
  "free_any_key_loop [] = None"
| "free_any_key_loop (None # ps) = Some []"
| "free_any_key_loop (Some s # ps) = map_option (\<lambda>ss. s # ss) (free_any_key_loop ps)"

definition httpp_free_any_key :: "string option list option \<Rightarrow> string list option" where
  "httpp_free_any_key ks = (case ks of None \<Rightarrow> Some [] | Some ks \<Rightarrow> free_any_key_loop ks)"

subsection \<open>Life time\<close>

definition empty_store :: "'k store" where
  "empty_store = \<lparr>cells = Map.empty, brk = 0, limit = None\<rparr>"

definition httpp_create_parser :: "http_parser_t option" where
  "httpp_create_parser = do {
     v \<leftarrow> avl_tree_new compare_vars empty_store;
     q \<leftarrow> avl_tree_new compare_vars empty_store;
     p \<leftarrow> avl_tree_new compare_vars empty_store;
     Some \<lparr>refc = 1, req_type = httpp_req_none, uri = None, vars = v, queryvars = q, postvars = p\<rparr>
   }"

fun setvar_values :: "http_parser_t \<Rightarrow> string \<Rightarrow> string list \<Rightarrow> http_parser_t option" where
  "setvar_values parser name [] = Some parser"
| "setvar_values parser name (v # vs) = do {
     parser \<leftarrow> httpp_setvar parser (Some name) (Some v);
     setvar_values parser name vs
   }"

fun httpp_initialize :: "http_parser_t \<Rightarrow> http_var_t list \<Rightarrow> http_parser_t option" where
  "httpp_initialize parser [] = Some parser"
| "httpp_initialize parser (d # ds) = do {
     parser \<leftarrow> setvar_values parser (vname d) (vvalue d);
     httpp_initialize parser ds
   }"

definition httpp_addref :: "http_parser_t option \<Rightarrow> int \<times> http_parser_t option" where
  "httpp_addref parser = (case parser of
     None \<Rightarrow> (-1, None)
   | Some parser \<Rightarrow> (0, Some (parser\<lparr>refc := refc parser + 1\<rparr>)))"

text \<open>
  \<open>httpp_clear\<close>: the variables handed to \<open>_free_vars\<close>, tree by tree. \<open>httpp_release\<close>
  gives the parser that is left, if it is not freed, and the freed variables.
\<close>

definition httpp_clear :: "http_parser_t \<Rightarrow> http_var_t option list option" where
  "httpp_clear parser = do {
     (v, st) \<leftarrow> avl_tree_free (vars parser) True;
     (q, st) \<leftarrow> avl_tree_free (queryvars parser) True;
     (p, st) \<leftarrow> avl_tree_free (postvars parser) True;
     Some (v @ q @ p)
   }"

definition httpp_release ::
    "http_parser_t option \<Rightarrow> (int \<times> http_parser_t option \<times> http_var_t option list) option" where
  "httpp_release parser = (case parser of
     None \<Rightarrow> Some (-1, None, [])
   | Some parser \<Rightarrow>
       (let parser = parser\<lparr>refc := refc parser - 1\<rparr> in
        if refc parser \<noteq> 0 then Some (0, Some parser, [])
        else do {
          freed \<leftarrow> httpp_clear parser;
          Some (0, None, freed)
        }))"

declare split_loop.simps [simp del] skip_spaces.simps [simp del] header_loop.simps [simp del]
  lowercase.simps [simp del] parse_headers_loop.simps [simp del] parse_query_loop.simps [simp del]
  request_line_loop.simps [simp del] status_line_loop.simps [simp del]

end
