(* ===== verification/Httpp_Vars_Correct.thy ===== *)
theory Httpp_Vars_Correct
  imports Httpp_Vars
begin

section \<open>The variable store as a map from names to values\<close>

text \<open>
  The contract of a dictionary whose entries can be changed in place, which the AVL trees also
  meet; then what setting, getting, appending and deleting do to the list of variables a tree
  holds, and to the map from names to values behind it.
\<close>

subsection \<open>Changing an entry in place\<close>

definition upd_by :: "('k \<Rightarrow> 'k \<Rightarrow> int) \<Rightarrow> 'k \<Rightarrow> ('k \<Rightarrow> 'k) \<Rightarrow> 'k list \<Rightarrow> 'k list" where
  "upd_by cmp x f ks = map (\<lambda>k. if cmp x k = 0 then f k else k) ks"

locale mutable_dict = ordered_dict cmp ins del get rep
  for cmp :: "'k \<Rightarrow> 'k \<Rightarrow> int" and ins :: "'d \<Rightarrow> 'k \<Rightarrow> (int \<times> 'd) option"
    and del :: "'d \<Rightarrow> 'k \<Rightarrow> (int \<times> 'k list \<times> 'd) option"
    and get :: "'d \<Rightarrow> 'k \<Rightarrow> (int \<times> 'k option) option" and rep :: "'d \<Rightarrow> 'k list \<Rightarrow> bool" +
  fixes modify :: "'d \<Rightarrow> 'k \<Rightarrow> ('k \<Rightarrow> 'k) \<Rightarrow> 'd option"
  assumes modify_ok: "rep d ks \<Longrightarrow> sorted_by cmp ks \<Longrightarrow> \<exists>k \<in> set ks. cmp x k = 0 \<Longrightarrow>
      \<exists>d' xs k ys. modify d x f = Some d' \<and> rep d' (xs @ f k # ys) \<and> ks = xs @ k # ys \<and> cmp x k = 0"
begin

lemma modify_upd:
  assumes "rep d ks" and "strict_by cmp ks" and "find_by cmp x ks \<noteq> None"
  shows "\<exists>d'. modify d x f = Some d' \<and> rep d' (upd_by cmp x f ks)"
proof -
  have "\<exists>k \<in> set ks. cmp x k = 0"
    using assms(3) by (auto simp: find_by_def find_None_iff)
  then obtain d' xs k ys where d': "modify d x f = Some d'" "rep d' (xs @ f k # ys)"
      "ks = xs @ k # ys" "cmp x k = 0"
    using modify_ok [OF assms(1) strict_sorted [OF assms(2)]] by blast
  have "del_by cmp x ks = xs @ ys"
    using strict_unique(1) [of xs k ys x] assms(2) d'(3,4) by simp
  moreover have "\<forall>y \<in> set (del_by cmp x ks). cmp x y \<noteq> 0"
    by (simp add: del_by_def)
  ultimately have "\<forall>y \<in> set (xs @ ys). cmp x y \<noteq> 0" by simp
  then have "upd_by cmp x f ks = xs @ f k # ys"
    using d'(3,4) by (simp add: upd_by_def map_idI)
  then show ?thesis using d'(1,2) by auto
qed

end

context key_order
begin

text \<open>A change that keeps the order class keeps the order.\<close>

lemma strict_upd:
  assumes "strict_by cmp ks" and "\<And>k y. cmp (f k) y = cmp k y" and "\<And>k y. cmp y (f k) = cmp y k"
  shows "strict_by cmp (upd_by cmp x f ks)"
  using assms(1) by (simp add: strict_by_def upd_by_def sorted_wrt_map assms(2,3) if_distrib [of "cmp _"]
      if_distrib [of "\<lambda>z. cmp z _"] cong: if_cong)

lemma find_upd:
  assumes "\<And>k. cmp y (f k) = cmp y k"
  shows "find_by cmp y (upd_by cmp x f ks) =
    map_option (\<lambda>k. if cmp x k = 0 then f k else k) (find_by cmp y ks)"
  by (induction ks) (auto simp: find_by_def upd_by_def assms)

end

lemma modify_found_zrep:
  assumes "key_order cmp" and "zrep st rt fs u" and "sorted_by cmp (keys u)" and "\<exists>k \<in> set (keys u). cmp x k = 0"
  shows "\<exists>st' u' xs k ys. modify_found cmp x f (ptr_of u) st = Some st' \<and> zrep st' rt fs u' \<and>
     keys u = xs @ k # ys \<and> cmp x k = 0 \<and> keys u' = xs @ f k # ys \<and>
     (balanced u \<longrightarrow> balanced u' \<and> ht u' = ht u) \<and> same_mem st st'"
  using assms(2-4)
proof (induction u arbitrary: fs)
  case (Nd l a k w r)
  have cell: "rd st (Some a) = Some (node k (ptr_of l) (ptr_of r) (Some (cpar rt fs)) w)"
    using zrep_node [OF Nd.prems(1)] by (simp add: store_simps)
  have s: "sorted_by cmp (keys l)" "sorted_by cmp (keys r)"
    using Nd.prems(2) by (simp_all only: sorted_by_node)
  consider "cmp x k < 0" | "0 < cmp x k" | "cmp x k = 0" by linarith
  then show ?case
  proof cases
    case 1
    have "\<exists>k \<in> set (keys l). cmp x k = 0"
      using Nd.prems(3) 1 key_order.filter_left(3) [OF assms(1) Nd.prems(2) 1] by auto
    then obtain st' u' xs k' ys where IH: "modify_found cmp x f (ptr_of l) st = Some st'"
        "zrep st' rt (FL a k w r # fs) u'" "keys l = xs @ k' # ys" "cmp x k' = 0" "keys u' = xs @ f k' # ys"
        "balanced l \<longrightarrow> balanced u' \<and> ht u' = ht l" "same_mem st st'"
      using Nd.IH(1) [of "FL a k w r # fs"] Nd.prems(1) s by (auto simp: zrep_left)
    have "modify_found cmp x f (Some a) st = Some st'"
      using cell 1 IH(1) by (subst modify_found.simps) (simp add: store_simps)
    then show ?thesis using IH
      by (intro exI [of _ st'] exI [of _ "Nd u' a k w r"] exI [of _ xs] exI [of _ k'] exI [of _ "ys @ k # keys r"])
        (auto simp: zrep_left)
  next
    case 2
    have "\<exists>k \<in> set (keys r). cmp x k = 0"
      using Nd.prems(3) 2 key_order.filter_right(3) [OF assms(1) Nd.prems(2) 2] by auto
    then obtain st' u' xs k' ys where IH: "modify_found cmp x f (ptr_of r) st = Some st'"
        "zrep st' rt (FR l a k w # fs) u'" "keys r = xs @ k' # ys" "cmp x k' = 0" "keys u' = xs @ f k' # ys"
        "balanced r \<longrightarrow> balanced u' \<and> ht u' = ht r" "same_mem st st'"
      using Nd.IH(2) [of "FR l a k w # fs"] Nd.prems(1) s by (auto simp: zrep_right)
    have "modify_found cmp x f (Some a) st = Some st'"
      using cell 2 IH(1) by (subst modify_found.simps) (simp add: store_simps)
    then show ?thesis using IH
      by (intro exI [of _ st'] exI [of _ "Nd l a k w u'"] exI [of _ "keys l @ k # xs"] exI [of _ k'] exI [of _ ys])
        (auto simp: zrep_right)
  next
    case 3
    have "modify_found cmp x f (Some a) st =
        Some (st\<lparr>cells := (cells st)(a \<mapsto> node (f k) (ptr_of l) (ptr_of r) (Some (cpar rt fs)) w)\<rparr>)"
      using cell 3 by (subst modify_found.simps) (simp add: store_simps)
    then show ?thesis using zrep_set_key [OF Nd.prems(1), of "f k" w] 3
      by (intro exI [of _ "Nd l a (f k) w r"] exI) (auto simp: same_mem_def)
  qed
qed simp

lemma avl_rep_modify:
  assumes "key_order cmp" and "avl_rep cmp t ks" and "sorted_by cmp ks" and "\<exists>k \<in> set ks. cmp x k = 0"
  shows "\<exists>t' xs k ys. modify_found_in t x f = Some t' \<and> avl_rep cmp t' (xs @ f k # ys) \<and>
     ks = xs @ k # ys \<and> cmp x k = 0"
proof -
  obtain T where T: "tree_rep t T" "balanced T" "keys T = ks" "compare_fun t = cmp" "limit (store t) = None"
      "tlength t = of_nat (length ks)"
    using assms(2) by (auto simp: avl_rep_def)
  obtain rt rootn where r: "root t = Some rt" "zrep (store t) rt [] T"
      "rd (store t) (root t) = Some rootn" "right rootn = ptr_of T"
    using tree_rep_root [OF T(1)] by auto
  obtain st' u' xs k ys where m: "modify_found cmp x f (ptr_of T) (store t) = Some st'" "zrep st' rt [] u'"
      "keys T = xs @ k # ys" "cmp x k = 0" "keys u' = xs @ f k # ys"
      "balanced T \<longrightarrow> balanced u' \<and> ht u' = ht T" "same_mem (store t) st'"
    using modify_found_zrep [OF assms(1) r(2), of x f] assms(3,4) T(3) by blast
  have "length ks = length (xs @ f k # ys)" using m(3) T(3) by simp
  moreover have "tree_rep (t\<lparr>store := st'\<rparr>) u'" using r(1) m(2) by (simp add: tree_rep_def)
  ultimately have "avl_rep cmp (t\<lparr>store := st'\<rparr>) (xs @ f k # ys)"
    using T(2,4-6) m(5-7) unfolding avl_rep_def same_mem_def by (intro conjI exI [of _ u']) simp_all
  then show ?thesis
    using r(3,4) m(1,3,4) T(3,4) by (auto simp: modify_found_in_def)
qed

sublocale key_order \<subseteq> avlm: mutable_dict cmp avl_insert avl_delete avl_get_by_key "avl_rep cmp" modify_found_in
proof
  have K: "key_order cmp" by unfold_locales
  show "\<exists>d' xs k ys. modify_found_in d x f = Some d' \<and> avl_rep cmp d' (xs @ f k # ys) \<and>
      ks = xs @ k # ys \<and> cmp x k = 0"
    if "avl_rep cmp d ks" "sorted_by cmp ks" "\<exists>k \<in> set ks. cmp x k = 0" for d ks x f
    using that by (rule avl_rep_modify [OF K])
qed

interpretation var_order: key_order compare_vars
proof
  show "0 < compare_vars b a \<longleftrightarrow> compare_vars a b < 0" for a b
    by (simp add: compare_vars_def str_order.cmp_antisym)
  show "compare_vars a c \<le> 0" if "compare_vars a b \<le> 0" "compare_vars b c \<le> 0" for a b c
    using that by (auto simp: compare_vars_def intro: str_order.cmp_trans)
qed

subsection \<open>Variables of one tree\<close>

definition vars_rep :: "http_var_t avl_tree \<Rightarrow> http_var_t list \<Rightarrow> bool" where
  "vars_rep t vs \<longleftrightarrow> avl_rep compare_vars t vs \<and> strict_by compare_vars vs"

text \<open>The map from names to values that a list of variables stands for.\<close>

definition values_of :: "http_var_t list \<Rightarrow> string \<Rightarrow> string list option" where
  "values_of vs n = map_option vvalue (find_by compare_vars (key_var n) vs)"

definition first_value :: "http_var_t list \<Rightarrow> string \<Rightarrow> string option" where
  "first_value vs n = (case values_of vs n of Some (v # _) \<Rightarrow> Some v | _ \<Rightarrow> None)"

lemma compare_key [simp]: "compare_vars (key_var n) v = strcmp n (vname v)"
  by (simp add: compare_vars_def key_var_def)

lemma compare_same_name: "vname v = vname u \<Longrightarrow> compare_vars v = compare_vars u"
  by (rule ext) (simp add: compare_vars_def)

lemma find_same_name: "find_by compare_vars \<lparr>vname = n, vvalue = x\<rparr> vs = find_by compare_vars (key_var n) vs"
  by (simp add: find_by_def compare_vars_def key_var_def)

lemma get_param_var_eq:
  assumes "vars_rep t vs"
  shows "httpp_get_param_var_in t n = Some (find_by compare_vars (key_var n) vs)"
  using var_order.avl.get_find [of t vs "key_var n"] assms
  by (auto simp: vars_rep_def httpp_get_param_var_in_def split: option.splits)

lemma get_param_eq:
  assumes "vars_rep t vs"
  shows "httpp_get_param_in t n = Some (first_value vs n)"
  using get_param_var_eq [OF assms]
  by (auto simp: httpp_get_param_in_def first_value_def values_of_def split: option.splits list.splits)

lemma values_put:
  "values_of (put_by compare_vars v vs) n =
     (if cstr n = cstr (vname v) then Some (vvalue v) else values_of vs n)"
proof -
  have "compare_vars v (key_var n) = 0 \<longleftrightarrow> cstr n = cstr (vname v)"
    by (auto simp: compare_vars_def key_var_def strcmp_eq_0)
  then show ?thesis
    using var_order.find_put [of "key_var n" v vs] by (simp add: values_of_def)
qed

lemma values_upd:
  "values_of (upd_by compare_vars (key_var m) (vvalue_update g) vs) n =
     (if cstr n = cstr m then map_option g (values_of vs n) else values_of vs n)"
proof -
  have "map_option (\<lambda>k. if compare_vars (key_var m) k = 0 then vvalue_update g k else k)
      (find_by compare_vars (key_var n) vs) =
    (if cstr n = cstr m then map_option (vvalue_update g) else id) (find_by compare_vars (key_var n) vs)"
  proof (cases "find_by compare_vars (key_var n) vs")
    case (Some k)
    then have "compare_vars (key_var n) k = 0"
      by (auto simp: find_by_def find_Some_iff)
    then show ?thesis using Some by (auto simp: strcmp_eq_0)
  qed simp
  then show ?thesis
    using var_order.find_upd [of "key_var n" "vvalue_update g" "key_var m" vs]
    by (simp add: values_of_def compare_vars_def option.map_comp comp_def)
qed

lemma set_param_new:
  assumes "vars_rep t vs" and "find_by compare_vars (key_var n) vs = None"
  shows "\<exists>t'. httpp_set_param_nocopy t n (Some v) b = Some t' \<and>
     vars_rep t' (put_by compare_vars \<lparr>vname = n, vvalue = [v]\<rparr> vs)"
  using assms get_param_var_eq [OF assms(1), of n]
    var_order.avl.ins_new [of t vs "\<lparr>vname = n, vvalue = [v]\<rparr>"] var_order.strict_put
  by (auto simp: httpp_set_param_nocopy_def vars_rep_def find_same_name)

lemma set_param_append:
  assumes "vars_rep t vs" and "find_by compare_vars (key_var n) vs \<noteq> None"
  shows "\<exists>t'. httpp_set_param_nocopy t n (Some v) False = Some t' \<and>
     vars_rep t' (upd_by compare_vars (key_var n) (vvalue_update (\<lambda>xs. xs @ [v])) vs)"
proof -
  have "strict_by compare_vars (upd_by compare_vars (key_var n) (vvalue_update (\<lambda>xs. xs @ [v])) vs)"
    by (rule var_order.strict_upd) (use assms(1) in \<open>auto simp: vars_rep_def compare_vars_def\<close>)
  then show ?thesis
    using assms get_param_var_eq [OF assms(1), of n]
      var_order.avlm.modify_upd [of t vs "key_var n" "vvalue_update (\<lambda>xs. xs @ [v])"]
    by (auto simp: httpp_set_param_nocopy_def vars_rep_def)
qed

lemma set_param_replace:
  assumes "vars_rep t vs" and "find_by compare_vars (key_var n) vs \<noteq> None"
  shows "\<exists>t'. httpp_set_param_nocopy t n (Some v) True = Some t' \<and>
     vars_rep t' (put_by compare_vars \<lparr>vname = n, vvalue = [v]\<rparr> vs)"
proof -
  obtain var where var: "find_by compare_vars (key_var n) vs = Some var" using assms(2) by auto
  have r: "avl_rep compare_vars t vs" "strict_by compare_vars vs" using assms(1) by (auto simp: vars_rep_def)
  have z: "compare_vars (key_var n) var = 0" using var by (auto simp: find_by_def find_Some_iff)
  have d: "del_by compare_vars var vs = del_by compare_vars \<lparr>vname = n, vvalue = [v]\<rparr> vs"
    unfolding del_by_def
    by (rule filter_cong) (use z in \<open>auto simp: compare_vars_def key_var_def strcmp_eq_0\<close>)
  obtain t1 c fr where 1: "avl_delete t var = Some (c, fr, t1)" "avl_rep compare_vars t1 (del_by compare_vars var vs)"
    using var_order.avl.del_del [OF r, of var] by (auto split: option.splits)
  have "sorted_by compare_vars (del_by compare_vars var vs)"
    by (rule var_order.strict_sorted [OF var_order.strict_del [OF r(2)]])
  from var_order.avl.ins_ok [OF 1(2) this] obtain t2 where
    2: "avl_insert t1 \<lparr>vname = n, vvalue = [v]\<rparr> = Some (0, t2)"
       "avl_rep compare_vars t2 (put_by compare_vars \<lparr>vname = n, vvalue = [v]\<rparr> vs)"
    by (auto simp: put_by_def d)
  show ?thesis
    using get_param_var_eq [OF assms(1), of n] var 1(1) 2 var_order.strict_put [OF r(2)]
    by (simp add: httpp_set_param_nocopy_def vars_rep_def)
qed

text \<open>The effect on the map, whichever way it was done.\<close>

definition set_values :: "bool \<Rightarrow> string \<Rightarrow> string \<Rightarrow> (string \<Rightarrow> string list option) \<Rightarrow> string \<Rightarrow> string list option" where
  "set_values replace n v f m =
     (if cstr m = cstr n
      then Some ((if replace then [] else case f n of None \<Rightarrow> [] | Some xs \<Rightarrow> xs) @ [v])
      else f m)"

lemma values_of_same: "cstr m = cstr n \<Longrightarrow> values_of vs m = values_of vs n"
  by (simp add: values_of_def find_by_def strcmp_eq_0)

lemma set_param_values:
  assumes "vars_rep t vs"
  shows "\<exists>t' vs'. httpp_set_param_nocopy t n (Some v) b = Some t' \<and> vars_rep t' vs' \<and>
     values_of vs' = set_values b n v (values_of vs)"
proof (cases "find_by compare_vars (key_var n) vs")
  case None
  then have "values_of vs n = None" by (simp add: values_of_def)
  then have "values_of (put_by compare_vars \<lparr>vname = n, vvalue = [v]\<rparr> vs) = set_values b n v (values_of vs)"
    by (auto simp: set_values_def values_put fun_eq_iff)
  then show ?thesis using set_param_new [OF assms None, of v b] by auto
next
  case (Some k)
  show ?thesis
  proof (cases b)
    case True
    have "values_of (put_by compare_vars \<lparr>vname = n, vvalue = [v]\<rparr> vs) = set_values b n v (values_of vs)"
      using True by (auto simp: set_values_def values_put fun_eq_iff)
    then show ?thesis using set_param_replace [OF assms, of n v] Some True by auto
  next
    case False
    have "values_of vs n = Some (vvalue k)" using Some by (simp add: values_of_def)
    then have "values_of (upd_by compare_vars (key_var n) (vvalue_update (\<lambda>xs. xs @ [v])) vs) m =
        set_values b n v (values_of vs) m" for m
      using False values_of_same [of m n vs] by (cases "cstr m = cstr n") (simp_all add: set_values_def values_upd)
    then have "values_of (upd_by compare_vars (key_var n) (vvalue_update (\<lambda>xs. xs @ [v])) vs) =
        set_values b n v (values_of vs)" ..
    then show ?thesis using set_param_append [OF assms, of n v] Some False by auto
  qed
qed

lemma set_param_None: "httpp_set_param_nocopy t n None b = Some t"
  by (simp add: httpp_set_param_nocopy_def)

subsection \<open>The parser's own variables\<close>

lemma getvar_eq:
  assumes "vars_rep (vars p) vs"
  shows "httpp_getvar p n = Some (first_value vs n)"
  using var_order.avl.get_find [of "vars p" vs "key_var n"] assms
  by (auto simp: vars_rep_def httpp_getvar_def first_value_def values_of_def split: option.splits list.splits)

text \<open>Every variable of a parser has at least one value.\<close>

definition has_values :: "http_var_t list \<Rightarrow> bool" where
  "has_values vs \<longleftrightarrow> (\<forall>v \<in> set vs. vvalue v \<noteq> [])"

lemma first_value_None:
  "has_values vs \<Longrightarrow> first_value vs n = None \<longleftrightarrow> find_by compare_vars (key_var n) vs = None"
  by (auto simp: has_values_def first_value_def values_of_def find_by_def find_Some_iff
      split: option.splits list.splits)

lemma setvar_eq:
  assumes "vars_rep (vars p) vs" and "has_values vs"
  shows "\<exists>t'. httpp_setvar p (Some n) (Some v) = Some (p\<lparr>vars := t'\<rparr>) \<and>
     vars_rep t' (put_by compare_vars \<lparr>vname = n, vvalue = [v]\<rparr> vs) \<and>
     has_values (put_by compare_vars \<lparr>vname = n, vvalue = [v]\<rparr> vs)"
proof -
  let ?v = "\<lparr>vname = n, vvalue = [v]\<rparr>"
  have r: "avl_rep compare_vars (vars p) vs" "strict_by compare_vars vs"
    using assms(1) by (auto simp: vars_rep_def)
  have hv: "has_values (put_by compare_vars ?v vs)"
    using assms(2) by (auto simp: has_values_def var_order.set_put)
  show ?thesis
  proof (cases "first_value vs n = None")
    case True
    then have "find_by compare_vars ?v vs = None"
      using first_value_None [OF assms(2)] by (simp add: find_same_name)
    from var_order.avl.ins_new [OF r this] show ?thesis
      using getvar_eq [OF assms(1)] True hv var_order.strict_put [OF r(2)]
      by (auto simp: httpp_setvar_def vars_rep_def)
  next
    case False
    then show ?thesis
      using var_order.avl.del_ins [OF r, of ?v] getvar_eq [OF assms(1)] hv var_order.strict_put [OF r(2)]
      by (auto simp: httpp_setvar_def vars_rep_def)
  qed
qed

lemma deletevar_eq:
  assumes "vars_rep (vars p) vs"
  shows "\<exists>t'. httpp_deletevar (Some p) (Some n) = Some (Some (p\<lparr>vars := t'\<rparr>)) \<and>
     vars_rep t' (del_by compare_vars (key_var n) vs)"
  using var_order.avl.del_del [of "vars p" vs "key_var n"] assms var_order.strict_del
  by (auto simp: httpp_deletevar_def vars_rep_def split: option.splits)

lemma values_del:
  "values_of (del_by compare_vars (key_var m) vs) n = (if cstr n = cstr m then None else values_of vs n)"
proof -
  have "compare_vars (key_var m) (key_var n) = 0 \<longleftrightarrow> cstr n = cstr m"
    by (auto simp: compare_vars_def key_var_def strcmp_eq_0)
  then show ?thesis
    using var_order.find_del [of "key_var n" "key_var m" vs] by (simp add: values_of_def)
qed

end
