(* ===== verification/Httpp_Query.thy ===== *)
theory Httpp_Query
  imports Httpp_Parse Httpp_Vars_Correct
begin

section \<open>URL decoding and query strings\<close>

text \<open>
  Decoding undoes encoding and fits the buffer; a query string that lists encoded values
  appends each value to its variable, in order.
\<close>

subsection \<open>Hexadecimal digits\<close>

definition hexdigit :: "nat \<Rightarrow> char" where
  "hexdigit n = char_of (if n < 10 then 48 + n else 55 + n)"

lemma hex_hexdigit: "n < 16 \<Longrightarrow> hex (hexdigit n) = int n"
  by (auto simp: hex_def hexdigit_def Let_def)

lemma hex_range: "hex c \<in> {-1..15}"
  by (auto simp: hex_def Let_def)

subsection \<open>Encoding\<close>

text \<open>An encoder may leave any character alone that has no meaning of its own.\<close>

definition plain :: "char \<Rightarrow> bool" where
  "plain c \<longleftrightarrow> c \<noteq> CHR ''%'' \<and> c \<noteq> CHR ''+'' \<and> c \<noteq> CHR 0x23 \<and> c \<noteq> NUL"

fun url_escape :: "(char \<Rightarrow> bool) \<Rightarrow> string \<Rightarrow> string" where
  "url_escape keep [] = []"
| "url_escape keep (c # cs) =
     (if keep c then c # url_escape keep cs
      else CHR ''%'' # hexdigit (of_char c div 16) # hexdigit (of_char c mod 16) # url_escape keep cs)"

lemma url_unescape_escape:
  assumes "\<And>c. keep c \<Longrightarrow> plain c"
  shows "url_unescape (url_escape keep s) = Some s"
proof (induction s)
  case (Cons c cs)
  show ?case
  proof (cases "keep c")
    case True
    then show ?thesis using Cons assms [OF True] by (simp add: plain_def)
  next
    case False
    have "(of_char c :: nat) div 16 < 16"
      using nat_of_char_less_256 [of c] by (simp add: less_mult_imp_div_less)
    then have "hex (hexdigit (of_char c div 16)) = int (of_char c div 16)"
      "hex (hexdigit (of_char c mod 16)) = int (of_char c mod 16)"
      by (simp_all add: hex_hexdigit)
    moreover have "nat (int ((of_char c :: nat) div 16) * 16 + int ((of_char c :: nat) mod 16)) = of_char c"
      by (metis div_mult_mod_eq nat_int of_nat_add of_nat_mult of_nat_numeral)
    ultimately show ?thesis using False Cons by simp
  qed
qed simp

lemma url_unescape_length: "url_unescape s = Some t \<Longrightarrow> length t \<le> length s"
proof (induction s arbitrary: t rule: url_unescape.induct)
  case (2 c cs)
  then show ?case by (auto split: if_splits list.splits) fastforce+
qed simp

subsection \<open>Query strings\<close>

text \<open>What \<open>parse_query\<close> does to the map, element by element.\<close>

fun apply_params :: "(string \<times> string) list \<Rightarrow> (string \<Rightarrow> string list option) \<Rightarrow> string \<Rightarrow> string list option" where
  "apply_params [] f = f"
| "apply_params ((k, v) # kvs) f = apply_params kvs (set_values False k v f)"

definition render_param :: "(char \<Rightarrow> bool) \<Rightarrow> string \<times> string \<Rightarrow> string" where
  "render_param keep kv = fst kv @ CHR ''='' # url_escape keep (snd kv)"

fun render_query :: "(char \<Rightarrow> bool) \<Rightarrow> (string \<times> string) list \<Rightarrow> string" where
  "render_query keep [] = []"
| "render_query keep [kv] = render_param keep kv"
| "render_query keep (kv # kvs) = render_param keep kv @ CHR ''&'' # render_query keep kvs"

text \<open>Scanning characters that are neither separators.\<close>

lemma query_scan:
  assumes "query = pre @ w @ post" and "\<forall>c \<in> set w. c \<noteq> CHR ''&'' \<and> c \<noteq> CHR ''=''" and "len = length query"
  shows "parse_query_loop tree query len (length pre) start mid =
    parse_query_loop tree query len (length pre + length w) start mid"
  using assms
proof (induction w arbitrary: pre)
  case (Cons c w)
  have "parse_query_loop tree query len (length pre) start mid =
      parse_query_loop tree query len (length pre + 1) start mid"
    using Cons.prems by (subst parse_query_loop.simps) (simp add: get_char_def)
  also have "\<dots> = parse_query_loop tree query len (length (pre @ [c]) + length w) start mid"
    using Cons.IH [of "pre @ [c]"] Cons.prems by simp
  finally show ?case by simp
qed simp

lemma query_param_scan:
  assumes "query = pre @ k @ CHR ''='' # v @ post" and "\<forall>c \<in> set (k @ v). c \<noteq> CHR ''&'' \<and> c \<noteq> CHR ''=''"
    and "len = length query"
  shows "parse_query_loop tree query len (length pre) start None =
    parse_query_loop tree query len (length pre + length k + 1 + length v) start (Some (length pre + length k))"
proof -
  have "parse_query_loop tree query len (length pre) start None =
      parse_query_loop tree query len (length (pre @ k)) start None"
    using query_scan [of query pre k "CHR ''='' # v @ post" len] assms by simp
  also have "\<dots> = parse_query_loop tree query len (length (pre @ k @ [CHR ''=''])) start (Some (length pre + length k))"
    using assms(1,3) by (subst parse_query_loop.simps) (simp add: get_char_def nth_append)
  also have "\<dots> = parse_query_loop tree query len (length (pre @ k @ [CHR ''='']) + length v) start (Some (length pre + length k))"
    by (rule query_scan) (use assms in auto)
  finally show ?thesis by (simp add: add.assoc)
qed

lemma query_element:
  assumes "query = pre @ k @ CHR ''='' # e @ post" and "k \<noteq> []" and "e \<noteq> []"
  shows "parse_query_element tree query (length pre) (Some (length pre + length k)) (length pre + length k + 1 + length e) =
    httpp_set_param_nocopy tree k (url_unescape e) False"
  using assms by (simp add: parse_query_element_def)

lemma url_escape_set:
  assumes "\<And>c. keep c \<Longrightarrow> plain c \<and> c \<noteq> CHR ''&'' \<and> c \<noteq> CHR ''=''"
  shows "\<forall>c \<in> set (url_escape keep s). c \<noteq> CHR ''&'' \<and> c \<noteq> CHR ''=''"
proof -
  have d: "hexdigit n \<noteq> CHR ''&'' \<and> hexdigit n \<noteq> CHR ''=''" if "n < 16" for n
  proof -
    have "hex (hexdigit n) \<noteq> -1" using hex_hexdigit [OF that] by simp
    moreover have "hex (CHR ''&'') = -1" "hex (CHR ''='') = -1" by (simp_all add: hex_def)
    ultimately show ?thesis by metis
  qed
  have "(of_char c :: nat) div 16 < 16" for c
    using nat_of_char_less_256 [of c] by (simp add: less_mult_imp_div_less)
  then show ?thesis using assms d by (induction s) auto
qed

definition good_params :: "(char \<Rightarrow> bool) \<Rightarrow> (string \<times> string) list \<Rightarrow> bool" where
  "good_params keep kvs \<longleftrightarrow>
     (\<forall>c. keep c \<longrightarrow> plain c \<and> c \<noteq> CHR ''&'' \<and> c \<noteq> CHR ''='') \<and>
     (\<forall>(k, v) \<in> set kvs. k \<noteq> [] \<and> v \<noteq> [] \<and> (\<forall>c \<in> set k. c \<noteq> CHR ''&'' \<and> c \<noteq> CHR ''=''))"

lemma good_paramsD:
  assumes "good_params keep ((k, v) # kvs)"
  shows "k \<noteq> []" "v \<noteq> []" "\<forall>c \<in> set (k @ url_escape keep v). c \<noteq> CHR ''&'' \<and> c \<noteq> CHR ''=''"
    "url_unescape (url_escape keep v) = Some v" "good_params keep kvs"
proof -
  have keep: "plain c \<and> c \<noteq> CHR ''&'' \<and> c \<noteq> CHR ''=''" if "keep c" for c
    using assms that by (simp add: good_params_def)
  show "k \<noteq> []" "v \<noteq> []" "good_params keep kvs"
    using assms by (simp_all add: good_params_def)
  show "\<forall>c \<in> set (k @ url_escape keep v). c \<noteq> CHR ''&'' \<and> c \<noteq> CHR ''=''"
    using assms url_escape_set [OF keep, of keep v] by (simp add: good_params_def ball_Un)
  show "url_unescape (url_escape keep v) = Some v"
    using keep by (intro url_unescape_escape) blast
qed

lemma parse_query_loop_render:
  assumes "good_params keep kvs" and "kvs \<noteq> []" and "query = pre @ render_query keep kvs"
    and "len = length query" and "vars_rep t vs"
  shows "\<exists>t' vs'. parse_query_loop t query len (length pre) (length pre) None = Some t' \<and>
     vars_rep t' vs' \<and> values_of vs' = apply_params kvs (values_of vs)"
  using assms
proof (induction keep kvs arbitrary: pre t vs rule: render_query.induct)
  case (2 keep kv)
  obtain k v where kv: "kv = (k, v)" by force
  let ?e = "url_escape keep v"
  note g = good_paramsD [OF "2.prems"(1) [unfolded kv]] and un = good_paramsD(4) [OF "2.prems"(1) [unfolded kv]]
  have e: "?e \<noteq> []" using g(2) by (cases v) auto
  have q: "query = pre @ k @ CHR ''='' # ?e @ []"
    using "2.prems"(3) by (simp add: render_param_def kv)
  have "parse_query_loop t query len (length pre) (length pre) None =
      parse_query_element t query (length pre) (Some (length pre + length k)) (length pre + length k + 1 + length ?e)"
    unfolding query_param_scan [OF q g(3) "2.prems"(4)]
    by (subst parse_query_loop.simps) (simp add: get_char_def "2.prems"(4) q)
  also have "\<dots> = httpp_set_param_nocopy t k (Some v) False"
    using query_element [OF q g(1) e] un by simp
  finally show ?case
    using set_param_values [OF "2.prems"(5), of k v False] kv by simp
next
  case (3 keep kv kv' kvs)
  obtain k v where kv: "kv = (k, v)" by force
  let ?e = "url_escape keep v"
  let ?rest = "render_query keep (kv' # kvs)"
  note g = good_paramsD [OF "3.prems"(1) [unfolded kv]] and un = good_paramsD(4) [OF "3.prems"(1) [unfolded kv]]
    and good = good_paramsD(5) [OF "3.prems"(1) [unfolded kv]]
  have e: "?e \<noteq> []" using g(2) by (cases v) auto
  have q: "query = pre @ k @ CHR ''='' # ?e @ CHR ''&'' # ?rest"
    using "3.prems"(3) by (simp add: render_param_def kv)
  let ?pre = "pre @ k @ CHR ''='' # ?e @ [CHR ''&'']"
  obtain t1 vs1 where t1: "httpp_set_param_nocopy t k (Some v) False = Some t1" "vars_rep t1 vs1"
      "values_of vs1 = set_values False k v (values_of vs)"
    using set_param_values [OF "3.prems"(5), of k v False] by blast
  have "query ! (length pre + length k + 1 + length ?e) = CHR ''&''"
    using q by (simp add: nth_append)
  then have "parse_query_loop t query len (length pre) (length pre) None =
      Option.bind (parse_query_element t query (length pre) (Some (length pre + length k)) (length pre + length k + 1 + length ?e))
        (\<lambda>t. parse_query_loop t query len (length ?pre) (length ?pre) None)"
    unfolding query_param_scan [OF q g(3) "3.prems"(4)]
    by (subst parse_query_loop.simps) (simp add: get_char_def "3.prems"(4) q add.assoc)
  then have "parse_query_loop t query len (length pre) (length pre) None =
      parse_query_loop t1 query len (length ?pre) (length ?pre) None"
    using query_element [OF q g(1) e, of t] un t1(1) by simp
  moreover have "query = ?pre @ ?rest" using q by simp
  ultimately show ?case
    using "3.IH" [OF good _ _ "3.prems"(4) t1(2), of ?pre] t1(3) kv by simp
qed simp

lemma parse_query_render:
  assumes "good_params keep kvs" and "kvs \<noteq> []" and "\<forall>(k, v) \<in> set kvs. NUL \<notin> set k" and "vars_rep t vs"
  shows "\<exists>t' vs'. parse_query t (Some (render_query keep kvs)) (length (render_query keep kvs)) = Some t' \<and>
     vars_rep t' vs' \<and> values_of vs' = apply_params kvs (values_of vs)"
proof -
  obtain k v rest where "kvs = (k, v) # rest" using assms(2) by (cases kvs) auto
  then obtain c w where "render_query keep kvs = c # w" "c \<noteq> NUL"
    using assms(1,3) by (cases k; cases rest) (auto simp: good_params_def render_param_def)
  then have "cstr (render_query keep kvs) \<noteq> []" by simp
  then show ?thesis
    using parse_query_loop_render [OF assms(1,2) _ _ assms(4), of _ "[]"] by (simp add: parse_query_def)
qed

end
