(* ===== verification/Httpp_Request.thy ===== *)
theory Httpp_Request
  imports Httpp_Query
begin

section \<open>Parsing what was rendered\<close>

text \<open>
  The scanning loops on a request that is laid out as lines: splitting, the request line, the
  header lines; and what \<open>httpp_parse\<close> makes of the whole.
\<close>

subsection \<open>Reading strings\<close>

lemma get_str_append: "NUL \<notin> set s \<Longrightarrow> get_str (pre @ s @ NUL # post) (length pre) = Some s"
  by (simp add: get_str_def str_at_def cstr_append)

lemma int_size_id: "n < 2 ^ 31 \<Longrightarrow> int_size n = n"
proof -
  assume n: "n < 2 ^ 31"
  then have "uint (word_of_nat n :: 32 word) = int n"
    by (simp add: unsigned_of_nat take_bit_nat_eq_self)
  then have "sint (word_of_nat n :: 32 word) = int n"
    using n by (simp add: sint_uint signed_take_bit_int_eq_self)
  then show ?thesis by (simp add: int_size_def)
qed

lemma int_size_le: "int_size n \<le> n"
proof -
  have "- (2 ^ 31) \<le> uint (word_of_nat n :: 32 word)"
    by (rule order_trans [OF _ uint_ge_0]) simp
  then have "sint (word_of_nat n :: 32 word) \<le> uint (word_of_nat n :: 32 word)"
    by (simp add: sint_uint signed_take_bit_int_less_eq_self_iff)
  moreover have "uint (word_of_nat n :: 32 word) \<le> int n"
    by (simp add: unsigned_of_nat take_bit_nat_less_eq_self)
  ultimately show ?thesis by (simp add: int_size_def)
qed

subsection \<open>Splitting into lines\<close>

definition lines_of :: "string \<Rightarrow> string list \<Rightarrow> string" where
  "lines_of sep ls = concat (map (\<lambda>l. l @ sep) ls)"

fun starts :: "nat \<Rightarrow> string list \<Rightarrow> nat list" where
  "starts p [] = []"
| "starts p (l # ls) = p # starts (p + length l + 2) ls"

lemma lines_of_simps [simp]:
  "lines_of sep [] = []" "lines_of sep (l # ls) = l @ sep @ lines_of sep ls"
  by (simp_all add: lines_of_def)

lemma length_lines_of: "length a = length b \<Longrightarrow> length (lines_of a ls) = length (lines_of b ls)"
  by (induction ls) auto

lemma length_starts [simp]: "length (starts p ls) = length ls"
  by (induction ls arbitrary: p) auto

lemma CR_LF [simp]: "CR \<noteq> LF" "LF \<noteq> CR" "NUL \<noteq> CR" "NUL \<noteq> LF" "CR \<noteq> NUL" "LF \<noteq> NUL"
  by (simp_all add: CR_def LF_def NUL_def)

definition clean :: "string \<Rightarrow> bool" where
  "clean s \<longleftrightarrow> (\<forall>c \<in> set s. c \<noteq> CR \<and> c \<noteq> LF \<and> c \<noteq> NUL)"

lemma clean_NUL: "clean s \<Longrightarrow> NUL \<notin> set s"
  by (auto simp: clean_def)

lemma split_scan:
  assumes "data = pre @ w @ post" and "clean w" and "length pre + length w \<le> len" and "n < MAX_HEADERS"
  shows "split_loop data len (length pre) n line = split_loop data len (length pre + length w) n line"
  using assms
proof (induction w arbitrary: pre)
  case (Cons c w)
  have "split_loop data len (length pre) n line = split_loop data len (length pre + 1) n line"
    using Cons.prems by (subst split_loop.simps) (simp add: clean_def get_char_def)
  also have "\<dots> = split_loop data len (length (pre @ [c]) + length w) n line"
    using Cons.IH [of "pre @ [c]"] Cons.prems by (simp add: clean_def)
  finally show ?case by simp
qed simp

lemma split_line:
  assumes "data = pre @ w @ CR # LF # c # post" and "clean w" and "length pre + length w + 2 < len"
    and "Suc n < MAX_HEADERS"
  shows "split_loop data len (length pre) n line =
    (let data = pre @ w @ NUL # NUL # c # post in
     if c = LF \<or> c = CR then Some (data, Suc n, line)
     else split_loop data len (length pre + length w + 2) (Suc n) (line(Suc n \<mapsto> length pre + length w + 2)))"
proof -
  let ?i = "length pre + length w"
  have at: "?i < length data" "data ! ?i = CR" "data[?i := NUL] = pre @ w @ NUL # LF # c # post"
    using assms(1) by (simp_all add: nth_append list_update_append)
  have "split_loop data len (length pre) n line = split_loop data len ?i n line"
    by (rule split_scan) (use assms in auto)
  also have "\<dots> = split_loop (pre @ w @ NUL # LF # c # post) len (Suc ?i) n line"
    using assms(3,4) at by (subst split_loop.simps) (simp add: nth_append get_char_def set_char_def)
  also have "\<dots> = (let data = pre @ w @ NUL # NUL # c # post in
     if c = LF \<or> c = CR then Some (data, Suc n, line)
     else split_loop data len (?i + 2) (Suc n) (line(Suc n \<mapsto> ?i + 2)))"
    using assms(3,4) by (subst split_loop.simps) (auto simp: nth_append list_update_append Let_def get_char_def set_char_def set_line_def)
  finally show ?thesis .
qed

lemma split_lines:
  assumes "data = pre @ lines_of [CR, LF] ls @ CR # post" and "ls \<noteq> []"
    and "\<forall>l \<in> set ls. clean l \<and> l \<noteq> []" and "length pre + length (lines_of [CR, LF] ls) < len"
    and "n + length ls < MAX_HEADERS" and "line n = Some (length pre)"
  shows "\<exists>line'. split_loop data len (length pre) n line =
       Some (pre @ lines_of [NUL, NUL] ls @ CR # post, n + length ls, line') \<and>
     (\<forall>j < length ls. line' (n + j) = Some (starts (length pre) ls ! j)) \<and> (\<forall>j \<le> n. line' j = line j)"
  using assms
proof (induction ls arbitrary: data pre n line)
  case (Cons l ls)
  have l: "clean l" using Cons.prems(3) by simp
  show ?case
  proof (cases ls)
    case Nil
    have "data = pre @ l @ CR # LF # CR # post" using Cons.prems(1) Nil by simp
    from split_line [OF this l] show ?thesis using Cons.prems(4,5,6) Nil
      by (intro exI [of _ line]) (simp add: Let_def)
  next
    case (Cons l' ls')
    then obtain c w where l': "l' = c # w" "c \<noteq> LF" "c \<noteq> CR"
      using Cons.prems(3) by (cases l') (auto simp: clean_def)
    let ?rest = "w @ [CR, LF] @ lines_of [CR, LF] ls' @ CR # post"
    have d: "data = pre @ l @ CR # LF # c # ?rest"
      using Cons.prems(1) Cons l' by simp
    let ?pre = "pre @ l @ [NUL, NUL]"
    let ?line = "line(Suc n \<mapsto> length ?pre)"
    have step: "split_loop data len (length pre) n line =
        split_loop (?pre @ lines_of [CR, LF] ls @ CR # post) len (length ?pre) (Suc n) ?line"
      using split_line [OF d l, of len n line] Cons.prems(4,5) l' Cons by (simp add: Let_def)
    have "\<exists>line'. split_loop (?pre @ lines_of [CR, LF] ls @ CR # post) len (length ?pre) (Suc n) ?line =
        Some (?pre @ lines_of [NUL, NUL] ls @ CR # post, Suc n + length ls, line') \<and>
      (\<forall>j < length ls. line' (Suc n + j) = Some (starts (length ?pre) ls ! j)) \<and> (\<forall>j \<le> Suc n. line' j = ?line j)"
      by (rule Cons.IH) (use Cons.prems Cons in auto)
    then obtain line' where IH: "split_loop (?pre @ lines_of [CR, LF] ls @ CR # post) len (length ?pre) (Suc n) ?line =
        Some (?pre @ lines_of [NUL, NUL] ls @ CR # post, Suc n + length ls, line')"
      "\<forall>j < length ls. line' (Suc n + j) = Some (starts (length ?pre) ls ! j)" "\<forall>j \<le> Suc n. line' j = ?line j"
      by blast
    have "line' (n + j) = Some (starts (length pre) (l # ls) ! j)" if "j < length (l # ls)" for j
      using that IH(2,3) Cons.prems(6) by (cases j) auto
    then show ?thesis using step IH by auto
  qed
qed simp

subsection \<open>The request line\<close>

lemma request_scan:
  assumes "data = pre @ w @ post" and "CHR '' '' \<notin> set w" and "length pre + length w \<le> slen"
  shows "request_line_loop data slen (length pre) False wh u v =
    request_line_loop data slen (length pre + length w) False wh u v"
  using assms
proof (induction w arbitrary: pre)
  case (Cons c w)
  have "request_line_loop data slen (length pre) False wh u v = request_line_loop data slen (length pre + 1) False wh u v"
    using Cons.prems by (subst request_line_loop.simps) (auto simp: get_char_def set_char_def)
  also have "\<dots> = request_line_loop data slen (length (pre @ [c]) + length w) False wh u v"
    using Cons.IH [of "pre @ [c]"] Cons.prems by simp
  finally show ?case by simp
qed simp

lemma request_word:
  assumes "data = pre @ CHR '' '' # w @ post" and "CHR '' '' \<notin> set w" and "w \<noteq> []"
    and "length pre + 1 + length w \<le> slen" and "Suc wh \<in> {1, 2}"
  shows "request_line_loop data slen (length pre) b wh u v =
    request_line_loop (pre @ NUL # w @ post) slen (length pre + 1 + length w) False (Suc wh)
      (if wh = 0 then Some (length pre + 1) else u) (if wh = 0 then v else Some (length pre + 1))"
proof -
  obtain c w' where w: "w = c # w'" "c \<noteq> CHR '' ''" using assms(2,3) by (cases w) auto
  let ?d = "pre @ NUL # w @ post" and ?u = "if wh = 0 then Some (length pre + 1) else u"
  let ?v = "if wh = 0 then v else Some (length pre + 1)"
  have "request_line_loop data slen (length pre) b wh u v = request_line_loop ?d slen (length pre + 1) True wh u v"
    using assms(1,4) by (subst request_line_loop.simps) (simp add: get_char_def set_char_def list_update_append)
  also have "\<dots> = request_line_loop ?d slen (length pre + 2) False (Suc wh) ?u ?v"
    using assms(4,5) w by (subst request_line_loop.simps) (auto simp: get_char_def set_char_def nth_append)
  also have "\<dots> = request_line_loop ?d slen (length (pre @ [NUL, c]) + length w') False (Suc wh) ?u ?v"
    using request_scan [of ?d "pre @ [NUL, c]" w' post slen] assms(2,4) w by simp
  finally show ?thesis using w by simp
qed

lemma request_line:
  assumes "data = m @ CHR '' '' # u @ CHR '' '' # v @ post"
    and "CHR '' '' \<notin> set m" and "CHR '' '' \<notin> set u" and "CHR '' '' \<notin> set v" and "u \<noteq> []" and "v \<noteq> []"
    and "slen = length m + 1 + length u + 1 + length v"
  shows "request_line_loop data slen 0 False 0 None None =
    Some (Some (m @ NUL # u @ NUL # v @ post, Some (length m + 1), Some (length m + 1 + length u + 1)))"
proof -
  have "request_line_loop data slen 0 False 0 None None =
      request_line_loop data slen (length m) False 0 None None"
    using request_scan [of data "[]" m _ slen] assms by simp
  also have "\<dots> = request_line_loop (m @ NUL # u @ CHR '' '' # v @ post) slen (length m + 1 + length u) False 1
      (Some (length m + 1)) None"
    using request_word [of data m u "CHR '' '' # v @ post" slen 0] assms by simp
  also have "\<dots> = request_line_loop (m @ NUL # u @ NUL # v @ post) slen (length m + 1 + length u + 1 + length v) False 2
      (Some (length m + 1)) (Some (length m + 1 + length u + 1))"
    using request_word [of "m @ NUL # u @ CHR '' '' # v @ post" "m @ NUL # u" v post slen 1] assms
    by (simp add: numeral_2_eq_2)
  also have "\<dots> = Some (Some (m @ NUL # u @ NUL # v @ post, Some (length m + 1), Some (length m + 1 + length u + 1)))"
    using assms(7) by (subst request_line_loop.simps) (simp add: get_char_def)
  finally show ?thesis .
qed

subsection \<open>Header lines\<close>

lemma lowercase_str:
  "NUL \<notin> set n \<Longrightarrow> lowercase (pre @ n @ NUL # post) (length pre) = Some (pre @ map tolower n @ NUL # post)"
proof (induction n arbitrary: pre)
  case Nil
  then show ?case by (subst lowercase.simps) (simp add: get_char_def)
next
  case (Cons c n)
  have "lowercase (pre @ (c # n) @ NUL # post) (length pre) =
      lowercase ((pre @ [tolower c]) @ n @ NUL # post) (length (pre @ [tolower c]))"
    using Cons.prems by (subst lowercase.simps) (auto simp: get_char_def set_char_def list_update_append)
  then show ?case using Cons.IH [of "pre @ [tolower c]"] Cons.prems by simp
qed

lemma skip_spaces_str:
  assumes "data = pre @ w @ replicate k (CHR '' '') @ c # post" and "c \<noteq> CHR '' ''" and "length w + k < slen"
  shows "skip_spaces data (length pre) slen (length w) = Some (length w + k)"
  using assms
proof (induction k arbitrary: w)
  case 0
  then show ?case by (subst skip_spaces.simps) (simp add: get_char_def set_char_def nth_append)
next
  case (Suc k)
  have "skip_spaces data (length pre) slen (length w) = skip_spaces data (length pre) slen (length (w @ [CHR '' '']))"
    using Suc.prems by (subst skip_spaces.simps) (simp add: get_char_def set_char_def nth_append)
  also have "\<dots> = Some (length (w @ [CHR '' '']) + k)"
    by (rule Suc.IH) (use Suc.prems in auto)
  finally show ?case by simp
qed

lemma header_scan:
  assumes "data = pre @ w @ n @ post" and "CHR '':'' \<notin> set n" and "length w + length n \<le> slen"
  shows "header_loop data (length pre) slen (length w) False =
    header_loop data (length pre) slen (length w + length n) False"
  using assms
proof (induction n arbitrary: w)
  case (Cons c n)
  have "header_loop data (length pre) slen (length w) False =
      header_loop data (length pre) slen (length (w @ [c])) False"
    using Cons.prems by (subst header_loop.simps) (auto simp: get_char_def set_char_def nth_append)
  also have "\<dots> = header_loop data (length pre) slen (length (w @ [c]) + length n) False"
    by (rule Cons.IH) (use Cons.prems in auto)
  finally show ?case by simp
qed simp

text \<open>
  A header: its name, the number of blanks after the colon, and its value. The length of the
  line is kept in an \<open>int\<close>.
\<close>

definition header_line :: "string \<times> nat \<times> string \<Rightarrow> string" where
  "header_line h = (case h of (n, k, v) \<Rightarrow> n @ CHR '':'' # replicate k (CHR '' '') @ v)"

definition good_header :: "string \<times> nat \<times> string \<Rightarrow> bool" where
  "good_header h \<longleftrightarrow> (case h of (n, k, v) \<Rightarrow>
     clean n \<and> CHR '':'' \<notin> set n \<and> clean v \<and> v \<noteq> [] \<and> hd v \<noteq> CHR '' '' \<and> (k = 0 \<longrightarrow> hd v \<noteq> CHR '':'') \<and>
     length (header_line (n, k, v)) < 2 ^ 31)"

lemma header_line_loop:
  assumes "good_header (n, k, v)" and "data = pre @ header_line (n, k, v) @ NUL # post"
  shows "header_loop data (length pre) (length (header_line (n, k, v))) 0 False =
    Some (pre @ n @ NUL # replicate k (CHR '' '') @ v @ NUL # post, Some (length pre + length n + 1 + k))"
proof -
  obtain c v' where v: "v = c # v'" "c \<noteq> CHR '' ''" "k = 0 \<longrightarrow> c \<noteq> CHR '':''"
    using assms(1) by (cases v) (auto simp: good_header_def)
  let ?slen = "length (header_line (n, k, v))"
  let ?d = "pre @ n @ NUL # replicate k (CHR '' '') @ v @ NUL # post"
  have d: "data = pre @ [] @ n @ CHR '':'' # replicate k (CHR '' '') @ v @ NUL # post"
    using assms(2) by (simp add: header_line_def)
  have slen: "?slen = length n + 1 + k + length v" by (simp add: header_line_def)
  have "header_loop data (length pre) ?slen 0 False = header_loop data (length pre) ?slen (length n) False"
    using header_scan [OF d, of ?slen] assms(1) slen by (simp add: good_header_def)
  also have "\<dots> = header_loop ?d (length pre) ?slen (length n + 1) True"
    using d slen by (subst header_loop.simps) (simp add: get_char_def set_char_def nth_append list_update_append)
  also have "\<dots> = Some (?d, Some (length pre + length n + 1 + k))"
  proof -
    have "?d ! (length pre + (length n + 1)) \<noteq> CHR '':''"
      using v by (cases k) (simp_all add: nth_append)
    moreover have "skip_spaces ?d (length pre) ?slen (length (n @ [NUL])) = Some (length (n @ [NUL]) + k)"
      by (rule skip_spaces_str [where c = c and post = "v' @ NUL # post"]) (use v slen in auto)
    ultimately show ?thesis
      using slen v(1) by (subst header_loop.simps) (simp add: get_char_def set_char_def Let_def)
  qed
  finally show ?thesis .
qed

text \<open>The effect of a list of assignments on the map.\<close>

fun apply_sets :: "(string \<times> string) list \<Rightarrow> (string \<Rightarrow> string list option) \<Rightarrow> string \<Rightarrow> string list option" where
  "apply_sets [] f = f"
| "apply_sets ((k, v) # kvs) f = apply_sets kvs (set_values True k v f)"

lemma apply_sets_append: "apply_sets (a @ b) f = apply_sets b (apply_sets a f)"
  by (induction a f rule: apply_sets.induct) auto

text \<open>The variables a parser holds.\<close>

definition parser_vars :: "http_parser_t \<Rightarrow> http_var_t list \<Rightarrow> bool" where
  "parser_vars p vs \<longleftrightarrow> vars_rep (vars p) vs \<and> has_values vs"

lemma setvar_values_of:
  assumes "parser_vars p vs"
  shows "\<exists>t' vs'. httpp_setvar p (Some n) (Some v) = Some (p\<lparr>vars := t'\<rparr>) \<and> parser_vars (p\<lparr>vars := t'\<rparr>) vs' \<and>
     values_of vs' = apply_sets [(n, v)] (values_of vs)"
proof -
  have "values_of (put_by compare_vars \<lparr>vname = n, vvalue = [v]\<rparr> vs) = set_values True n v (values_of vs)"
    by (auto simp: set_values_def values_put fun_eq_iff)
  then show ?thesis
    using setvar_eq [of p vs n v] assms by (auto simp: parser_vars_def)
qed

definition header_var :: "string \<times> nat \<times> string \<Rightarrow> string \<times> string" where
  "header_var h = (case h of (n, k, v) \<Rightarrow> (map tolower n, v))"

lemma parse_headers_lines:
  assumes "data = pre @ lines_of [NUL, NUL] (map header_line hs) @ post" and "\<forall>h \<in> set hs. good_header h"
    and "\<forall>j < length hs. line (l + j) = Some (starts (length pre) (map header_line hs) ! j)"
    and "parser_vars p vs" and "l + length hs \<le> MAX_HEADERS"
  shows "\<exists>t' vs'. parse_headers_loop p data line (l + length hs) l = Some (p\<lparr>vars := t'\<rparr>) \<and>
     parser_vars (p\<lparr>vars := t'\<rparr>) vs' \<and> values_of vs' = apply_sets (map header_var hs) (values_of vs)"
  using assms
proof (induction hs arbitrary: data pre l p vs)
  case Nil
  then show ?case by (intro exI [of _ "vars p"] exI [of _ vs]) (subst parse_headers_loop.simps, simp)
next
  case (Cons h hs)
  obtain n k v where h: "h = (n, k, v)" by (cases h)
  let ?rest = "NUL # lines_of [NUL, NUL] (map header_line hs) @ post"
  have g: "good_header (n, k, v)" using Cons.prems(2) h by simp
  have cl: "NUL \<notin> set n" "NUL \<notin> set v" "NUL \<notin> set (header_line h)"
    using g clean_NUL [of n] clean_NUL [of v] by (simp_all add: good_header_def header_line_def h NUL_def)
  have d: "data = pre @ header_line (n, k, v) @ NUL # ?rest"
    using Cons.prems(1) h by simp
  have l: "get_line line l = Some (length pre)"
    using Cons.prems(3) [rule_format, of 0] Cons.prems(5) by (simp add: get_line_def)
  have s0: "get_str data (length pre) = Some (header_line (n, k, v))"
    using get_str_append [OF cl(3), of "pre" ?rest] d h by simp
  have slen: "int_size (length (header_line (n, k, v))) = length (header_line (n, k, v))"
    using g by (intro int_size_id) (simp add: good_header_def)
  let ?d1 = "pre @ n @ NUL # replicate k (CHR '' '') @ v @ NUL # ?rest"
  let ?d2 = "pre @ map tolower n @ NUL # replicate k (CHR '' '') @ v @ NUL # ?rest"
  have hl: "header_loop data (length pre) (int_size (length (header_line (n, k, v)))) 0 False =
      Some (?d1, Some (length pre + length n + 1 + k))"
    unfolding slen by (rule header_line_loop [OF g d])
  have low: "lowercase ?d1 (length pre) = Some ?d2"
    using lowercase_str [OF cl(1)] by simp
  have "NUL \<notin> set (map tolower n)" using cl(1) tolower_NUL by (metis image_iff set_map)
  then have s1: "get_str ?d2 (length pre) = Some (map tolower n)"
    by (rule get_str_append)
  have s2: "get_str ?d2 (length pre + length n + 1 + k) = Some v"
    using get_str_append [OF cl(2), of "pre @ map tolower n @ NUL # replicate k (CHR '' '')" ?rest]
    by (simp add: add.assoc)
  obtain t1 vs1 where 1: "httpp_setvar p (Some (map tolower n)) (Some v) = Some (p\<lparr>vars := t1\<rparr>)"
      "parser_vars (p\<lparr>vars := t1\<rparr>) vs1" "values_of vs1 = apply_sets [(map tolower n, v)] (values_of vs)"
    using setvar_values_of [OF Cons.prems(4)] by blast
  have step: "parse_headers_loop p data line (l + length (h # hs)) l =
      parse_headers_loop (p\<lparr>vars := t1\<rparr>) ?d2 line (Suc l + length hs) (Suc l)"
    using l s0 hl low s1 s2 1(1) by (subst parse_headers_loop.simps) simp
  let ?pre = "pre @ map tolower n @ NUL # replicate k (CHR '' '') @ v @ [NUL, NUL]"
  have lp: "length ?pre = length pre + length (header_line h) + 2"
    by (simp add: header_line_def h)
  have "\<forall>j < length hs. line (Suc l + j) = Some (starts (length ?pre) (map header_line hs) ! j)"
  proof (intro allI impI)
    fix j assume "j < length hs"
    then show "line (Suc l + j) = Some (starts (length ?pre) (map header_line hs) ! j)"
      using Cons.prems(3) [rule_format, of "Suc j"] unfolding lp by simp
  qed
  then obtain t' vs' where
    "parse_headers_loop (p\<lparr>vars := t1\<rparr>) ?d2 line (Suc l + length hs) (Suc l) = Some (p\<lparr>vars := t1\<rparr>\<lparr>vars := t'\<rparr>)"
    "parser_vars (p\<lparr>vars := t1\<rparr>\<lparr>vars := t'\<rparr>) vs'" "values_of vs' = apply_sets (map header_var hs) (values_of vs1)"
    using Cons.IH [OF _ _ _ 1(2), of ?d2 ?pre "Suc l"] Cons.prems(2,5) by auto
  moreover have "header_var h = (map tolower n, v)" by (simp add: header_var_def h)
  ultimately show ?case
    using step 1(3) by (intro exI [of _ t'] exI [of _ vs']) simp
qed

subsection \<open>Whole requests\<close>

definition parser_ok :: "http_parser_t \<Rightarrow> http_var_t list \<Rightarrow> http_var_t list \<Rightarrow> http_var_t list \<Rightarrow> bool" where
  "parser_ok p vs qs ps \<longleftrightarrow> parser_vars p vs \<and> vars_rep (queryvars p) qs \<and> vars_rep (postvars p) ps"

lemma setvar_ok:
  assumes "parser_ok p vs qs ps"
  shows "\<exists>t' vs'. httpp_setvar p (Some n) (Some v) = Some (p\<lparr>vars := t'\<rparr>) \<and>
     parser_ok (p\<lparr>vars := t'\<rparr>) vs' qs ps \<and> values_of vs' = apply_sets [(n, v)] (values_of vs)"
  using setvar_values_of [of p vs n v] assms by (auto simp: parser_ok_def)

lemma setvar2_ok:
  assumes "parser_ok p vs qs ps"
  shows "\<exists>t' vs'. Option.bind (httpp_setvar p (Some n) (Some v)) (\<lambda>p. httpp_setvar p (Some m) (Some w)) =
       Some (p\<lparr>vars := t'\<rparr>) \<and>
     parser_ok (p\<lparr>vars := t'\<rparr>) vs' qs ps \<and> values_of vs' = apply_sets [(n, v), (m, w)] (values_of vs)"
proof -
  obtain t1 vs1 where 1: "httpp_setvar p (Some n) (Some v) = Some (p\<lparr>vars := t1\<rparr>)"
      "parser_ok (p\<lparr>vars := t1\<rparr>) vs1 qs ps" "values_of vs1 = apply_sets [(n, v)] (values_of vs)"
    using setvar_ok [OF assms] by blast
  show ?thesis using setvar_ok [OF 1(2), of m w] 1(1,3) by auto
qed

text \<open>A word of the request line.\<close>

definition token :: "string \<Rightarrow> bool" where
  "token s \<longleftrightarrow> clean s \<and> CHR '' '' \<notin> set s"

text \<open>The URI as a path and, possibly, a query of encoded parameters.\<close>

definition render_uri :: "(char \<Rightarrow> bool) \<Rightarrow> string \<Rightarrow> (string \<times> string) list \<Rightarrow> string" where
  "render_uri keep path kvs = path @ (if kvs = [] then [] else CHR ''?'' # render_query keep kvs)"

definition uri_sets :: "(char \<Rightarrow> bool) \<Rightarrow> string \<Rightarrow> (string \<times> string) list \<Rightarrow> (string \<times> string) list" where
  "uri_sets keep path kvs = (if kvs = [] then []
     else [(HTTPP_VAR_RAWURI, render_uri keep path kvs), (HTTPP_VAR_QUERYARGS, CHR ''?'' # render_query keep kvs)])"

lemma dropWhile_split: "c \<notin> set a \<Longrightarrow> dropWhile (\<lambda>x. x \<noteq> c) (a @ c # b) = c # b"
  by (induction a) auto

lemma takeWhile_split: "c \<notin> set a \<Longrightarrow> takeWhile (\<lambda>x. x \<noteq> c) (a @ c # b) = a"
  by (induction a) auto

lemma strchr_split: "NUL \<notin> set (a @ c # b) \<Longrightarrow> c \<notin> set a \<Longrightarrow> strchr (a @ c # b) c = Some (c # b)"
  using cstr_id [of "a @ c # b"] dropWhile_split [of c a b] by (simp add: strchr_def)

lemma strchr_none: "NUL \<notin> set a \<Longrightarrow> c \<notin> set a \<Longrightarrow> strchr a c = None"
proof -
  assume "NUL \<notin> set a" and c: "c \<notin> set a"
  moreover have "dropWhile (\<lambda>x. x \<noteq> c) a = []" using c by (induction a) auto
  ultimately show ?thesis using cstr_id [of a] by (simp add: strchr_def del: dropWhile_eq_Nil_conv)
qed

lemma parse_uri_render:
  assumes "parser_ok p vs qs ps" and "CHR ''?'' \<notin> set path" and "path \<noteq> []" and "NUL \<notin> set (render_uri keep path kvs)"
    and "kvs \<noteq> [] \<longrightarrow> good_params keep kvs"
  shows "\<exists>t' q' vs' qs'. parse_uri p (Some (render_uri keep path kvs)) =
       Some (Inr (p\<lparr>vars := t', queryvars := q', uri := Some path\<rparr>)) \<and>
     parser_ok (p\<lparr>vars := t', queryvars := q', uri := Some path\<rparr>) vs' qs' ps \<and>
     values_of vs' = apply_sets (uri_sets keep path kvs) (values_of vs) \<and>
     values_of qs' = apply_params kvs (values_of qs)"
proof (cases "kvs = []")
  case True
  have e: "p\<lparr>vars := vars p, queryvars := queryvars p, uri := Some path\<rparr> = p\<lparr>uri := Some path\<rparr>" by simp
  have "parse_uri p (Some (render_uri keep path kvs)) =
      Some (Inr (p\<lparr>vars := vars p, queryvars := queryvars p, uri := Some path\<rparr>))"
    unfolding e using True assms(2-4) strchr_none [of path "CHR ''?''"] by (simp add: parse_uri_def render_uri_def)
  then show ?thesis using assms(1) True
    by (intro exI [of _ "vars p"] exI [of _ "queryvars p"] exI [of _ vs] exI [of _ qs])
      (simp add: parser_ok_def parser_vars_def uri_sets_def)
next
  case False
  let ?q = "render_query keep kvs" and ?u = "render_uri keep path kvs"
  have u: "?u = path @ CHR ''?'' # ?q" using False by (simp add: render_uri_def)
  have nul: "NUL \<notin> set ?q" using assms(4) u by auto
  have keys_ok: "\<forall>(k, v) \<in> set kvs. NUL \<notin> set k"
    using nul by (induction keep kvs rule: render_query.induct) (auto simp: render_param_def)
  obtain t1 vs1 where 1: "Option.bind (httpp_setvar p (Some HTTPP_VAR_RAWURI) (Some ?u))
        (\<lambda>p. httpp_setvar p (Some HTTPP_VAR_QUERYARGS) (Some (CHR ''?'' # ?q))) = Some (p\<lparr>vars := t1\<rparr>)"
      "parser_ok (p\<lparr>vars := t1\<rparr>) vs1 qs ps"
      "values_of vs1 = apply_sets [(HTTPP_VAR_RAWURI, ?u), (HTTPP_VAR_QUERYARGS, CHR ''?'' # ?q)] (values_of vs)"
    using setvar2_ok [OF assms(1)] by blast
  obtain q' qs' where 2: "parse_query (queryvars p) (Some ?q) (length ?q) = Some q'" "vars_rep q' qs'"
      "values_of qs' = apply_params kvs (values_of qs)"
    using parse_query_render [of keep kvs "queryvars p" qs] assms(1,5) False keys_ok
    by (auto simp: parser_ok_def)
  have "strchr ?u (CHR ''?'') = Some (CHR ''?'' # ?q)" "takeWhile (\<lambda>c. c \<noteq> CHR ''?'') ?u = path"
    using strchr_split [of path "CHR ''?''" ?q] takeWhile_split [of "CHR ''?''" path ?q] assms(2,4) u by simp_all
  then have "parse_uri p (Some ?u) = Some (Inr (p\<lparr>vars := t1, queryvars := q', uri := Some path\<rparr>))"
    using 1(1) 2(1) u by (cases "httpp_setvar p (Some HTTPP_VAR_RAWURI) (Some ?u)") (simp_all add: parse_uri_def)
  then show ?thesis using 1(2,3) 2(2,3) False
    by (intro exI [of _ t1] exI [of _ q'] exI [of _ vs1] exI [of _ qs'])
      (simp add: parser_ok_def parser_vars_def uri_sets_def)
qed

lemma parse_version_render:
  assumes "parser_ok p vs qs ps" and "NUL \<notin> set (pr @ CHR ''/'' # ver)" and "CHR ''/'' \<notin> set pr" and "pr \<noteq> []" and "ver \<noteq> []"
  shows "\<exists>t' vs'. parse_version p (Some (pr @ CHR ''/'' # ver)) = Some (Inr (p\<lparr>vars := t'\<rparr>)) \<and>
     parser_ok (p\<lparr>vars := t'\<rparr>) vs' qs ps \<and>
     values_of vs' = apply_sets [(HTTPP_VAR_PROTOCOL, pr), (HTTPP_VAR_VERSION, ver)] (values_of vs)"
proof -
  obtain t1 vs1 where 1: "Option.bind (httpp_setvar p (Some HTTPP_VAR_PROTOCOL) (Some pr))
        (\<lambda>p. httpp_setvar p (Some HTTPP_VAR_VERSION) (Some ver)) = Some (p\<lparr>vars := t1\<rparr>)"
      "parser_ok (p\<lparr>vars := t1\<rparr>) vs1 qs ps"
      "values_of vs1 = apply_sets [(HTTPP_VAR_PROTOCOL, pr), (HTTPP_VAR_VERSION, ver)] (values_of vs)"
    using setvar2_ok [OF assms(1)] by blast
  have "parse_version p (Some (pr @ CHR ''/'' # ver)) = Some (Inr (p\<lparr>vars := t1\<rparr>))"
    using 1(1) strchr_split [OF assms(2,3)] takeWhile_split [OF assms(3), of ver] assms(4,5)
    by (cases "httpp_setvar p (Some HTTPP_VAR_PROTOCOL) (Some pr)") (simp_all add: parse_version_def)
  then show ?thesis using 1(2,3) by blast
qed

lemma method_name_known: "m \<noteq> httpp_req_none \<Longrightarrow> m \<noteq> httpp_req_unknown \<Longrightarrow> \<exists>s. method_name m = Some s"
  by (cases m) (auto simp: method_name_def)

lemma str_to_method_not_none: "httpp_str_to_method m \<noteq> httpp_req_none"
  by (simp add: httpp_str_to_method_def)

text \<open>A request with its method, path, query, protocol, headers and body.\<close>

definition request_line_of :: "string \<Rightarrow> string \<Rightarrow> string \<Rightarrow> string" where
  "request_line_of m u v = m @ CHR '' '' # u @ CHR '' '' # v"

definition render_request :: "string \<Rightarrow> string \<Rightarrow> string \<Rightarrow> (string \<times> nat \<times> string) list \<Rightarrow> string \<Rightarrow> string" where
  "render_request m u v hs body =
     lines_of [CR, LF] (request_line_of m u v # map header_line hs) @ CR # LF # body"

lemma clean_Cons: "clean (c # s) \<longleftrightarrow> c \<noteq> CR \<and> c \<noteq> LF \<and> c \<noteq> NUL \<and> clean s"
  by (auto simp: clean_def)

lemma clean_append: "clean (s @ t) \<longleftrightarrow> clean s \<and> clean t"
  by (auto simp: clean_def)

lemma clean_blanks: "clean (replicate k (CHR '' ''))"
  by (simp add: clean_def CR_def LF_def NUL_def)

lemma clean_header_line: "good_header h \<Longrightarrow> clean (header_line h) \<and> header_line h \<noteq> []"
proof -
  obtain n k v where h: "h = (n, k, v)" by (cases h)
  assume "good_header h"
  then show ?thesis using clean_blanks [of k]
    by (simp add: h good_header_def header_line_def clean_append clean_Cons CR_def LF_def NUL_def)
qed

lemma clean_request_line:
  "token m \<Longrightarrow> token u \<Longrightarrow> token v \<Longrightarrow> clean (request_line_of m u v)"
  unfolding token_def request_line_of_def by (elim conjE) (simp add: clean_append clean_Cons CR_def LF_def NUL_def)

text \<open>Splitting a first line and header lines.\<close>

lemma split_headers_lines:
  assumes "clean fl" and "fl \<noteq> []" and "\<forall>h \<in> set hs. good_header h" and "Suc (length hs) < MAX_HEADERS"
    and req: "req = lines_of [CR, LF] (fl # map header_line hs) @ CR # LF # body"
  shows "\<exists>line. split_headers (req @ [NUL]) (length req) =
       Some (fl @ NUL # NUL # lines_of [NUL, NUL] (map header_line hs) @ CR # LF # body @ [NUL],
        Suc (length hs), line) \<and>
     (\<forall>j < length hs. line (Suc j) = Some (starts (length fl + 2) (map header_line hs) ! j))"
proof -
  let ?ls = "fl # map header_line hs"
  have "\<forall>l \<in> set ?ls. clean l \<and> l \<noteq> []"
    using assms(1,2,3) clean_header_line by auto
  moreover have "req @ [NUL] = [] @ lines_of [CR, LF] ?ls @ CR # LF # body @ [NUL]"
    by (simp add: req)
  moreover have "length ([] :: string) + length (lines_of [CR, LF] ?ls) < length req"
    by (simp add: req)
  moreover have "0 + length ?ls < MAX_HEADERS" using assms(4) by simp
  ultimately have "\<exists>line'. split_loop (req @ [NUL]) (length req) (length ([] :: string)) 0 [0 \<mapsto> 0] =
       Some ([] @ lines_of [NUL, NUL] ?ls @ CR # LF # body @ [NUL], 0 + length ?ls, line') \<and>
     (\<forall>j < length ?ls. line' (0 + j) = Some (starts (length ([] :: string)) ?ls ! j)) \<and> (\<forall>j \<le> 0. line' j = [0 \<mapsto> 0] j)"
    by (intro split_lines) simp_all
  then obtain line' where line': "split_loop (req @ [NUL]) (length req) 0 0 [0 \<mapsto> 0] =
       Some (lines_of [NUL, NUL] ?ls @ CR # LF # body @ [NUL], length ?ls, line')"
     "\<forall>j < length ?ls. line' j = Some (starts 0 ?ls ! j)"
    by auto
  have "line' (Suc j) = Some (starts (length fl + 2) (map header_line hs) ! j)" if "j < length hs" for j
    using line'(2) [rule_format, of "Suc j"] that by simp
  then show ?thesis using line'(1) by (intro exI [of _ line']) (simp add: split_headers_def set_line_def MAX_HEADERS_def)
qed

lemma httpp_parse_render:
  assumes ok: "parser_ok p vs qs ps"
    and m: "token m" "httpp_str_to_method m = meth" "meth \<noteq> httpp_req_unknown" "method_name meth = Some mname"
    and u: "token (render_uri keep path kvs)" "CHR ''?'' \<notin> set path" "path \<noteq> []" "kvs \<noteq> [] \<longrightarrow> good_params keep kvs"
    and v: "token (pr @ CHR ''/'' # ver)" "CHR ''/'' \<notin> set pr" "pr \<noteq> []" "ver \<noteq> []"
    and hs: "\<forall>h \<in> set hs. good_header h" "Suc (length hs) < MAX_HEADERS"
    and req_def: "req = render_request m (render_uri keep path kvs) (pr @ CHR ''/'' # ver) hs body"
    and len: "length (request_line_of m (render_uri keep path kvs) (pr @ CHR ''/'' # ver)) < 2 ^ 31"
  shows "\<exists>p' vs' qs'. httpp_parse p (Some req) (length req) = Some (1, p') \<and> parser_ok p' vs' qs' ps \<and>
     req_type p' = meth \<and> uri p' = Some path \<and>
     values_of vs' = apply_sets (uri_sets keep path kvs @
        [(HTTPP_VAR_PROTOCOL, pr), (HTTPP_VAR_VERSION, ver), (HTTPP_VAR_REQ_TYPE, mname), (HTTPP_VAR_URI, path)] @
        map header_var hs) (values_of vs) \<and>
     values_of qs' = apply_params kvs (values_of qs)"
proof -
  let ?u = "render_uri keep path kvs" and ?v = "pr @ CHR ''/'' # ver"
  let ?post = "lines_of [NUL, NUL] (map header_line hs) @ CR # LF # body @ [NUL]"
  let ?rl = "request_line_of m ?u ?v"
  let ?d = "?rl @ NUL # NUL # ?post" and ?d1 = "m @ NUL # ?u @ NUL # ?v @ NUL # NUL # ?post"
  obtain line where sp: "split_headers (req @ [NUL]) (length req) = Some (?d, Suc (length hs), line)"
      "\<forall>j < length hs. line (1 + j) = Some (starts (length ?rl + 2) (map header_line hs) ! j)"
    using split_headers_lines [OF clean_request_line [OF m(1) u(1) v(1)] _ hs req_def [unfolded render_request_def]]
    by (auto simp: request_line_of_def)
  have nul: "NUL \<notin> set m" "NUL \<notin> set ?u" "NUL \<notin> set ?v" and sp_free: "CHR '' '' \<notin> set m" "CHR '' '' \<notin> set ?u" "CHR '' '' \<notin> set ?v"
    using m(1) u(1) v(1) by (simp_all only: token_def clean_NUL simp_thms)
  have une: "?u \<noteq> []" using u(3) by (simp add: render_uri_def)
  have "NUL \<notin> set ?rl" using clean_NUL [OF clean_request_line [OF m(1) u(1) v(1)]] .
  then have first: "get_str ?d 0 = Some ?rl"
    using get_str_append [of ?rl "[]" "NUL # ?post"] by simp
  have "int_size (length ?rl) = length ?rl" using len by (rule int_size_id)
  then have slen: "int_size (length ?rl) = length m + 1 + length ?u + 1 + length ?v"
    by (simp add: request_line_of_def)
  have rl: "request_line_loop ?d (int_size (length ?rl)) 0 False 0 None None =
      Some (Some (?d1, Some (length m + 1), Some (length m + 1 + length ?u + 1)))"
    by (rule request_line) (use sp_free une slen in \<open>auto simp: request_line_of_def\<close>)
  have s0: "get_str ?d1 0 = Some m" using get_str_append [OF nul(1), of "[]"] by simp
  have s1: "get_str_if ?d1 (Some (length m + 1)) = Some (Some ?u)"
    using get_str_append [OF nul(2), of "m @ [NUL]"] by (simp add: get_str_if_def)
  have s2: "get_str_if ?d1 (Some (length m + 1 + length ?u + 1)) = Some (Some ?v)"
    using get_str_append [OF nul(3), of "m @ NUL # ?u @ [NUL]" "NUL # ?post"] by (simp add: get_str_if_def)
  let ?p = "p\<lparr>req_type := meth\<rparr>"
  have "parser_ok ?p vs qs ps" using ok by (simp add: parser_ok_def parser_vars_def)
  from parse_uri_render [OF this u(2,3) nul(2) u(4)] obtain t1 q1 vs1 qs1 where
    1: "parse_uri ?p (Some ?u) = Some (Inr (?p\<lparr>vars := t1, queryvars := q1, uri := Some path\<rparr>))"
       "parser_ok (?p\<lparr>vars := t1, queryvars := q1, uri := Some path\<rparr>) vs1 qs1 ps"
       "values_of vs1 = apply_sets (uri_sets keep path kvs) (values_of vs)"
       "values_of qs1 = apply_params kvs (values_of qs)"
    by blast
  let ?p1 = "?p\<lparr>vars := t1, queryvars := q1, uri := Some path\<rparr>"
  from parse_version_render [OF 1(2) nul(3) v(2-4)] obtain t2 vs2 where
    2: "parse_version ?p1 (Some ?v) = Some (Inr (?p1\<lparr>vars := t2\<rparr>))" "parser_ok (?p1\<lparr>vars := t2\<rparr>) vs2 qs1 ps"
       "values_of vs2 = apply_sets [(HTTPP_VAR_PROTOCOL, pr), (HTTPP_VAR_VERSION, ver)] (values_of vs1)"
    by blast
  from setvar_ok [OF 2(2)] obtain t3 vs3 where
    3: "httpp_setvar (?p1\<lparr>vars := t2\<rparr>) (Some HTTPP_VAR_REQ_TYPE) (Some mname) = Some (?p1\<lparr>vars := t2\<rparr>\<lparr>vars := t3\<rparr>)"
       "parser_ok (?p1\<lparr>vars := t2\<rparr>\<lparr>vars := t3\<rparr>) vs3 qs1 ps"
       "values_of vs3 = apply_sets [(HTTPP_VAR_REQ_TYPE, mname)] (values_of vs2)"
    by blast
  from setvar_ok [OF 3(2)] obtain t4 vs4 where
    4: "httpp_setvar (?p1\<lparr>vars := t2\<rparr>\<lparr>vars := t3\<rparr>) (Some HTTPP_VAR_URI) (Some path) = Some (?p1\<lparr>vars := t2\<rparr>\<lparr>vars := t3\<rparr>\<lparr>vars := t4\<rparr>)"
       "parser_ok (?p1\<lparr>vars := t2\<rparr>\<lparr>vars := t3\<rparr>\<lparr>vars := t4\<rparr>) vs4 qs1 ps"
       "values_of vs4 = apply_sets [(HTTPP_VAR_URI, path)] (values_of vs3)"
    by blast
  let ?pre = "m @ NUL # ?u @ NUL # ?v @ [NUL, NUL]"
  have "length ?pre = length ?rl + 2" by (simp add: request_line_of_def)
  then have line: "\<forall>j < length hs. line (1 + j) = Some (starts (length ?pre) (map header_line hs) ! j)"
    using sp(2) by simp
  have d1: "?d1 = ?pre @ lines_of [NUL, NUL] (map header_line hs) @ CR # LF # body @ [NUL]" by simp
  from 4(2) have "parser_vars (?p1\<lparr>vars := t4\<rparr>) vs4" by (simp add: parser_ok_def)
  from parse_headers_lines [OF d1 hs(1) line this] obtain t5 vs5 where
    5: "parse_headers_loop (?p1\<lparr>vars := t4\<rparr>) ?d1 line (1 + length hs) 1 = Some (?p1\<lparr>vars := t4\<rparr>\<lparr>vars := t5\<rparr>)"
       "parser_vars (?p1\<lparr>vars := t4\<rparr>\<lparr>vars := t5\<rparr>) vs5" "values_of vs5 = apply_sets (map header_var hs) (values_of vs4)"
    using hs(2) by force
  have mn: "meth \<noteq> httpp_req_none" using m(2) str_to_method_not_none by blast
  have cp: "copy_data req (length req) = Some (req @ [NUL])" by (simp add: copy_data_def)
  have "httpp_parse p (Some req) (length req) = Some (1, ?p1\<lparr>vars := t5\<rparr>)"
    unfolding httpp_parse_def option.case cp sp(1) bind.bind_lunit prod.case first rl s0 s1 s2 m(2) Let_def 1(1)
      sum.case 2(1)
    using mn m(3,4) 3(1) 4(1) 5(1) by (simp add: parse_method_def parse_headers_def)
  moreover have "parser_ok (?p1\<lparr>vars := t5\<rparr>) vs5 qs1 ps"
    using 4(2) 5(2) by (simp add: parser_ok_def)
  moreover have "values_of vs5 = apply_sets (uri_sets keep path kvs @
        [(HTTPP_VAR_PROTOCOL, pr), (HTTPP_VAR_VERSION, ver), (HTTPP_VAR_REQ_TYPE, mname), (HTTPP_VAR_URI, path)] @
        map header_var hs) (values_of vs)"
    using 1(3) 2(3) 3(3) 4(3) 5(3) by (simp add: apply_sets_append)
  ultimately show ?thesis using 1(4)
    by (intro exI [of _ "?p1\<lparr>vars := t5\<rparr>"] exI [of _ vs5] exI [of _ qs1]) simp
qed

end
