(* ===== verification/Httpp_Response.thy ===== *)
theory Httpp_Response
  imports Httpp_Request
begin

section \<open>Parsing a response that was rendered\<close>

text \<open>
  The scan of the status line, and what \<open>httpp_parse_response\<close> makes of a response that is
  laid out as status line, header lines and body.
\<close>

text \<open>A status line: version, code and message; the message may contain blanks.\<close>

definition status_line_of :: "string \<Rightarrow> string \<Rightarrow> string \<Rightarrow> string" where
  "status_line_of v c msg = v @ CHR '' '' # c @ CHR '' '' # msg"

definition render_response :: "string \<Rightarrow> string \<Rightarrow> string \<Rightarrow> (string \<times> nat \<times> string) list \<Rightarrow> string \<Rightarrow> string" where
  "render_response v c msg hs body =
     lines_of [CR, LF] (status_line_of v c msg # map header_line hs) @ CR # LF # body"

lemma status_scan:
  assumes "data = pre @ w @ post" and "CHR '' '' \<notin> set w" and "length pre + length w \<le> slen"
  shows "status_line_loop data slen (length pre) False wh c =
    status_line_loop data slen (length pre + length w) False wh c"
  using assms
proof (induction w arbitrary: pre)
  case (Cons x w)
  have "status_line_loop data slen (length pre) False wh c = status_line_loop data slen (length (pre @ [x])) False wh c"
    using Cons.prems by (subst status_line_loop.simps) (auto simp: get_char_def)
  also have "\<dots> = status_line_loop data slen (length (pre @ [x]) + length w) False wh c"
    by (rule Cons.IH) (use Cons.prems in auto)
  finally show ?case by simp
qed simp

lemma status_line:
  assumes "data = status_line_of v (x # c) (y # msg) @ post" and "CHR '' '' \<notin> set v"
    and "CHR '' '' \<notin> set (x # c)" and "y \<noteq> CHR '' ''" and "slen = length (status_line_of v (x # c) (y # msg))"
  shows "status_line_loop data slen 0 False 0 None =
    Some (v @ NUL # (x # c) @ NUL # y # msg @ post, Some (length v + 1), Some (length v + 1 + length (x # c) + 1))"
proof -
  let ?a = "v @ NUL # x # c @ CHR '' '' # y # msg @ post" and ?b = "v @ NUL # x # c @ NUL # y # msg @ post"
  let ?i = "length (v @ NUL # x # c)"
  have data: "data = v @ CHR '' '' # x # c @ CHR '' '' # y # msg @ post"
    using assms(1) by (simp add: status_line_of_def)
  have slen: "slen = length v + 1 + length (x # c) + 1 + length (y # msg)"
    using assms(5) by (simp add: status_line_of_def)
  have "status_line_loop data slen 0 False 0 None = status_line_loop data slen (length v) False 0 None"
    using status_scan [of data "[]" v _ slen] data slen assms(2) by simp
  also have "\<dots> = status_line_loop ?a slen (length v + 1) True 0 None"
    using data slen by (subst status_line_loop.simps) (simp add: get_char_def set_char_def list_update_append)
  also have "\<dots> = status_line_loop ?a slen (length (v @ [NUL, x])) False 1 (Some (length v + 1))"
    using slen assms(3) by (subst status_line_loop.simps) (auto simp: get_char_def set_char_def nth_append)
  also have "\<dots> = status_line_loop ?a slen (length (v @ [NUL, x]) + length c) False 1 (Some (length v + 1))"
    by (rule status_scan [where post = "CHR '' '' # y # msg @ post"]) (use slen assms(3) in auto)
  also have "\<dots> = status_line_loop ?a slen ?i False 1 (Some (length v + 1))" by simp
  also have "\<dots> = status_line_loop ?b slen (?i + 1) True 1 (Some (length v + 1))"
    using slen by (subst status_line_loop.simps) (simp add: get_char_def set_char_def nth_append list_update_append)
  also have "\<dots> = Some (?b, Some (length v + 1), Some (?i + 1))"
    using slen assms(4) by (subst status_line_loop.simps) (simp add: get_char_def set_char_def nth_append)
  finally show ?thesis by simp
qed

lemma clean_status_line: "token v \<Longrightarrow> token c \<Longrightarrow> clean msg \<Longrightarrow> clean (status_line_of v c msg)"
  unfolding token_def status_line_of_def
  by (elim conjE) (simp add: clean_append clean_Cons CR_def LF_def NUL_def)

text \<open>The variables a response sets, in order: the message only for a code that is no success.\<close>

definition response_sets :: "string \<Rightarrow> int \<Rightarrow> string \<Rightarrow> string \<Rightarrow> (string \<times> string) list" where
  "response_sets c code msg u =
     (HTTPP_VAR_ERROR_CODE, c) #
     (if code < 200 \<or> 300 \<le> code then [(HTTPP_VAR_ERROR_MESSAGE, msg)] else []) @
     [(HTTPP_VAR_URI, u), (HTTPP_VAR_REQ_TYPE, ''NONE'')]"

lemma setvar_if_ok:
  assumes "parser_ok p vs qs ps"
  shows "\<exists>t' vs'. (if b then httpp_setvar p (Some n) (Some v) else Some p) = Some (p\<lparr>vars := t'\<rparr>) \<and>
     parser_ok (p\<lparr>vars := t'\<rparr>) vs' qs ps \<and> values_of vs' = apply_sets (if b then [(n, v)] else []) (values_of vs)"
proof (cases b)
  case True
  then show ?thesis using setvar_ok [OF assms, of n v] by simp
next
  case False
  then show ?thesis using assms by (intro exI [of _ "vars p"] exI [of _ vs]) simp
qed

lemma httpp_parse_response_render:
  assumes ok: "parser_ok p vs qs ps"
    and v: "token v" and c: "token c" "c \<noteq> []" and msg: "clean msg" "msg \<noteq> []" "hd msg \<noteq> CHR '' ''"
    and hs: "\<forall>h \<in> set hs. good_header h" "Suc (length hs) < MAX_HEADERS"
    and resp_def: "resp = render_response v c msg hs body" and len: "length (status_line_of v c msg) < 2 ^ 31"
    and code: "atoi c = Some code"
  shows "\<exists>p' vs'. httpp_parse_response p (Some resp) (length resp) (Some u) = Some (1, p') \<and>
     parser_ok p' vs' qs ps \<and>
     values_of vs' = apply_sets (response_sets c code msg u @ map header_var hs) (values_of vs)"
proof -
  let ?post = "lines_of [NUL, NUL] (map header_line hs) @ CR # LF # body @ [NUL]"
  let ?sl = "status_line_of v c msg"
  let ?d = "?sl @ NUL # NUL # ?post" and ?d1 = "v @ NUL # c @ NUL # msg @ NUL # NUL # ?post"
  have ne: "?sl \<noteq> []" by (simp add: status_line_of_def)
  note cl = clean_status_line [OF v c(1) msg(1)]
  obtain line where sp: "split_headers (resp @ [NUL]) (length resp) = Some (?d, Suc (length hs), line)"
      "\<forall>j < length hs. line (1 + j) = Some (starts (length ?sl + 2) (map header_line hs) ! j)"
    using split_headers_lines [OF cl ne hs resp_def [unfolded render_response_def]] by auto
  have nul: "NUL \<notin> set c" "NUL \<notin> set msg" and sp_free: "CHR '' '' \<notin> set v" "CHR '' '' \<notin> set c"
    using v c(1) msg(1) by (simp_all only: token_def clean_NUL simp_thms)
  have first: "get_str ?d 0 = Some ?sl"
    using get_str_append [OF clean_NUL [OF cl], of "[]" "NUL # ?post"] by simp
  have slen: "int_size (length ?sl) = length ?sl" using len by (rule int_size_id)
  obtain x c' y msg' where cons: "c = x # c'" "msg = y # msg'" "y \<noteq> CHR '' ''"
    using c(2) msg(2,3) by (cases c; cases msg) auto
  have sl: "status_line_loop ?d (int_size (length ?sl)) 0 False 0 None =
      Some (?d1, Some (length v + 1), Some (length v + 1 + length c + 1))"
    unfolding slen using status_line [of ?d v x c' y msg' "NUL # NUL # ?post"] sp_free cons by simp
  have s1: "get_str_if ?d1 (Some (length v + 1)) = Some (Some c)"
    using get_str_append [OF nul(1), of "v @ [NUL]"] by (simp add: get_str_if_def)
  have s2: "get_str_if ?d1 (Some (length v + 1 + length c + 1)) = Some (Some msg)"
    using get_str_append [OF nul(2), of "v @ NUL # c @ [NUL]" "NUL # ?post"] by (simp add: get_str_if_def)
  have words: "status_words resp (length resp) = Some (?d1, Suc (length hs), line, Some c, Some msg)"
    unfolding status_words_def copy_data_def using sp(1) first sl s1 s2 by simp
  from setvar_ok [OF ok] obtain t1 vs1 where
    1: "httpp_setvar p (Some HTTPP_VAR_ERROR_CODE) (Some c) = Some (p\<lparr>vars := t1\<rparr>)" "parser_ok (p\<lparr>vars := t1\<rparr>) vs1 qs ps"
       "values_of vs1 = apply_sets [(HTTPP_VAR_ERROR_CODE, c)] (values_of vs)" by blast
  let ?bad = "code < 200 \<or> code \<ge> 300"
  from setvar_if_ok [OF 1(2)] obtain t2 vs2 where
    2: "(if ?bad then httpp_setvar (p\<lparr>vars := t1\<rparr>) (Some HTTPP_VAR_ERROR_MESSAGE) (Some msg) else Some (p\<lparr>vars := t1\<rparr>)) =
          Some (p\<lparr>vars := t1\<rparr>\<lparr>vars := t2\<rparr>)" "parser_ok (p\<lparr>vars := t1\<rparr>\<lparr>vars := t2\<rparr>) vs2 qs ps"
       "values_of vs2 = apply_sets (if ?bad then [(HTTPP_VAR_ERROR_MESSAGE, msg)] else []) (values_of vs1)" by blast
  let ?p2 = "p\<lparr>vars := t1\<rparr>\<lparr>vars := t2\<rparr>"
  from setvar2_ok [OF 2(2)] obtain t3 vs3 where
    3: "Option.bind (httpp_setvar ?p2 (Some HTTPP_VAR_URI) (Some u))
          (\<lambda>p. httpp_setvar p (Some HTTPP_VAR_REQ_TYPE) (Some ''NONE'')) = Some (?p2\<lparr>vars := t3\<rparr>)"
       "parser_ok (?p2\<lparr>vars := t3\<rparr>) vs3 qs ps"
       "values_of vs3 = apply_sets [(HTTPP_VAR_URI, u), (HTTPP_VAR_REQ_TYPE, ''NONE'')] (values_of vs2)" by blast
  let ?pre = "v @ NUL # c @ NUL # msg @ [NUL, NUL]"
  have "length ?pre = length ?sl + 2" by (simp add: status_line_of_def)
  then have line: "\<forall>j < length hs. line (1 + j) = Some (starts (length ?pre) (map header_line hs) ! j)"
    using sp(2) by simp
  have d1: "?d1 = ?pre @ lines_of [NUL, NUL] (map header_line hs) @ CR # LF # body @ [NUL]" by simp
  from 3(2) have "parser_vars (?p2\<lparr>vars := t3\<rparr>) vs3" by (simp add: parser_ok_def)
  from parse_headers_lines [OF d1 hs(1) line this] obtain t4 vs4 where
    4: "parse_headers_loop (?p2\<lparr>vars := t3\<rparr>) ?d1 line (1 + length hs) 1 = Some (?p2\<lparr>vars := t3\<rparr>\<lparr>vars := t4\<rparr>)"
       "parser_vars (?p2\<lparr>vars := t3\<rparr>\<lparr>vars := t4\<rparr>) vs4" "values_of vs4 = apply_sets (map header_var hs) (values_of vs3)"
    using hs(2) by force
  have "httpp_parse_response p (Some resp) (length resp) (Some u) = Some (1, ?p2\<lparr>vars := t3\<rparr>\<lparr>vars := t4\<rparr>)"
    unfolding httpp_parse_response_def option.case words bind.bind_lunit prod.case code 1(1) 2(1)
    using 3(1) 4(1)
    by (cases "httpp_setvar ?p2 (Some HTTPP_VAR_URI) (Some u)") (simp_all add: parse_headers_def)
  moreover have "parser_ok (?p2\<lparr>vars := t3\<rparr>\<lparr>vars := t4\<rparr>) vs4 qs ps"
    using 3(2) 4(2) by (simp add: parser_ok_def)
  moreover have "values_of vs4 = apply_sets (response_sets c code msg u @ map header_var hs) (values_of vs)"
    using 1(3) 2(3) 3(3) 4(3) by (simp add: response_sets_def apply_sets_append)
  ultimately show ?thesis by blast
qed

end
