(* ===== verification/Httpp_Safe.thy ===== *)
theory Httpp_Safe
  imports Httpp_Request Httpp_Response
begin

section \<open>The parser on any input\<close>

text \<open>
  Whatever the bytes of a request, a response or a body, the parser reads and writes only
  within the data and its copy of it, sets and reads only entries of the array of line starts
  that exist, reads none that was not set, and leaves its three trees in order.
\<close>

subsection \<open>Strings that end\<close>

definition terminated :: "nat \<Rightarrow> string \<Rightarrow> bool" where
  "terminated k data \<longleftrightarrow> k < length data \<and> data ! k = NUL"

lemma terminated_upd: "terminated k data \<Longrightarrow> terminated k (data[i := NUL])"
  by (cases "i = k") (auto simp: terminated_def)

lemma terminated_other: "terminated k data \<Longrightarrow> i \<noteq> k \<Longrightarrow> terminated k (data[i := c])"
  by (simp add: terminated_def)

lemma terminated_read: "terminated k data \<Longrightarrow> i \<le> k \<Longrightarrow> get_char data i = Some (data ! i)"
  by (simp add: terminated_def get_char_def)

lemma terminated_write: "terminated k data \<Longrightarrow> i \<le> k \<Longrightarrow> set_char data i c = Some (data[i := c])"
  by (simp add: terminated_def set_char_def)

lemma cstr_length: "i < length s \<Longrightarrow> s ! i = NUL \<Longrightarrow> length (cstr s) \<le> i"
  by (induction s arbitrary: i) (auto simp: nth_Cons split: nat.split_asm)

lemma terminated_str:
  assumes "terminated k data" and "b \<le> k"
  shows "\<exists>s. get_str data b = Some s \<and> b + length s \<le> k"
proof -
  have "drop b data ! (k - b) = NUL" "k - b < length (drop b data)"
    using assms by (auto simp: terminated_def)
  then have "NUL \<in> set (drop b data)" "length (str_at data b) \<le> k - b"
    using nth_mem [of "k - b" "drop b data"] cstr_length [of "k - b" "drop b data"]
    by (simp_all add: str_at_def)
  then show ?thesis using assms(2) by (simp add: get_str_def)
qed

lemma terminated_str_if:
  assumes "terminated k data" and "\<forall>i. p = Some i \<longrightarrow> i \<le> k"
  shows "\<exists>s. get_str_if data p = Some s"
  using terminated_str [OF assms(1)] assms(2) by (cases p) (fastforce simp: get_str_if_def)+

lemma copy_data_ok: "len \<le> length bytes \<Longrightarrow> \<exists>d. copy_data bytes len = Some d \<and> terminated len d"
  by (simp add: copy_data_def terminated_def nth_append)

lemmas within = terminated_read terminated_write terminated_upd

subsection \<open>Line starts\<close>

definition lines_ok :: "nat \<Rightarrow> nat \<Rightarrow> (nat \<Rightarrow> nat option) \<Rightarrow> bool" where
  "lines_ok len n line \<longleftrightarrow> n \<le> MAX_HEADERS \<and> (\<forall>j < n. \<exists>b \<le> len. line j = Some b)"

lemma lines_okD: "lines_ok len n line \<Longrightarrow> j < n \<Longrightarrow> \<exists>b \<le> len. get_line line j = Some b"
  by (simp add: lines_ok_def get_line_def)

lemma lines_ok_Suc:
  "lines_ok len n line \<Longrightarrow> n < MAX_HEADERS \<Longrightarrow> line n = Some b \<Longrightarrow> b \<le> len \<Longrightarrow> lines_ok len (Suc n) line"
  by (auto simp: lines_ok_def less_Suc_eq)

lemma lines_ok_upd: "lines_ok len n line \<Longrightarrow> lines_ok len n (line(n \<mapsto> b))"
  by (auto simp: lines_ok_def)

text \<open>The next line feed or the end of the data.\<close>

lemma split_loop_ok:
  assumes "terminated len data" and "lines_ok len n line" and "i < len \<Longrightarrow> \<exists>b \<le> len. line n = Some b"
  shows "\<exists>data' n' line'. split_loop data len i n line = Some (data', n', line') \<and>
     lines_ok len n' line' \<and> terminated len data'"
  using assms
proof (induction "len - i" arbitrary: data i n line rule: less_induct)
  case less
  let ?d = "if data ! i = CR then data[i := NUL] else data"
  have d: "terminated len ?d" "terminated len (?d[i := NUL])" using less.prems(1) terminated_upd by auto
  show ?case
  proof (cases "i < len \<and> n < MAX_HEADERS")
    case False
    then show ?thesis using less.prems(1,2) by (subst split_loop.simps) auto
  next
    case go: True
    have suc: "lines_ok len (Suc n) line" using less.prems(2,3) go lines_ok_Suc by blast
    have read: "get_char data i = Some (data ! i)"
        "(if data ! i = CR then set_char data i NUL else Some data) = Some ?d"
        "get_char ?d i = Some (?d ! i)" "set_char ?d i NUL = Some (?d[i := NUL])"
      using go d(1) less.prems(1) by (simp_all add: within)
    have ahead: "get_char (?d[i := NUL]) (i + 1) = Some (?d[i := NUL] ! (i + 1))" if "i + 1 < len"
      using that by (intro terminated_read [OF d(2)]) simp
    note step = split_loop.simps [of data len i n line, unfolded read(1) bind.bind_lunit read(2,3,4)]
    note IH = less.hyps [of "i + 1"]
    have next_line: "\<exists>data' n' line'. split_loop (?d[i := NUL]) len (i + 1) (Suc n) (line(Suc n \<mapsto> i + 1)) =
        Some (data', n', line') \<and> lines_ok len n' line' \<and> terminated len data'" if "i + 1 < len"
      by (rule IH) (use go that d(2) lines_ok_upd [OF suc] in auto)
    have last_line: "\<exists>data' n' line'. split_loop (?d[i := NUL]) len (i + 1) (Suc n) line =
        Some (data', n', line') \<and> lines_ok len n' line' \<and> terminated len data'" if "\<not> i + 1 < len"
      by (rule IH) (use go that d(2) suc in auto)
    have other: "\<exists>data' n' line'. split_loop ?d len (i + 1) n line =
        Some (data', n', line') \<and> lines_ok len n' line' \<and> terminated len data'"
      by (rule IH) (use go d(1) less.prems in auto)
    have full: "lines_ok len MAX_HEADERS line" if "MAX_HEADERS \<le> Suc n"
      using that go suc by (metis Suc_leI antisym)
    show ?thesis
      using go next_line last_line other suc d(2) ahead full
      by (subst step) (auto simp: Let_def set_line_def)
  qed
qed

lemma split_headers_ok:
  "terminated len data \<Longrightarrow> \<exists>data' n line. split_headers data len = Some (data', n, line) \<and>
     lines_ok len n line \<and> terminated len data'"
  unfolding split_headers_def set_line_def
  by (simp add: MAX_HEADERS_def, rule split_loop_ok) (auto simp: lines_ok_def)

subsection \<open>Header lines\<close>

lemma skip_spaces_ok:
  "terminated k data \<Longrightarrow> b + slen \<le> k \<Longrightarrow> \<exists>j. skip_spaces data b slen i = Some j"
proof (induction "slen - i" arbitrary: i rule: less_induct)
  case less
  then show ?case by (subst skip_spaces.simps) (auto simp: within)
qed

lemma header_loop_ok:
  "terminated k data \<Longrightarrow> b + slen \<le> k \<Longrightarrow>
   \<exists>d v. header_loop data b slen i ws = Some (d, v) \<and> terminated k d \<and> (\<forall>w. v = Some w \<longrightarrow> w \<le> k)"
proof (induction "slen - i" arbitrary: data i ws rule: less_induct)
  case less
  obtain j where j: "skip_spaces data b slen i = Some j" using skip_spaces_ok [OF less.prems] by blast
  show ?case
    using less j by (subst header_loop.simps) (auto simp: within)
qed

lemma lowercase_ok:
  "terminated k data \<Longrightarrow> p \<le> k \<Longrightarrow> \<exists>d. lowercase data p = Some d \<and> terminated k d"
proof (induction "k - p" arbitrary: data p rule: less_induct)
  case less
  show ?case
  proof (cases "data ! p = NUL")
    case True
    then show ?thesis using less.prems by (subst lowercase.simps) (simp add: within)
  next
    case False
    then have "p < k" using less.prems by (cases "p = k") (auto simp: terminated_def)
    then show ?thesis
      using less.hyps [of "p + 1" "data[p := tolower (data ! p)]"] less.prems False terminated_other [OF less.prems(1), of p]
      by (subst lowercase.simps) (simp add: within)
  qed
qed

subsection \<open>The first line\<close>

lemma request_line_ok:
  "terminated k data \<Longrightarrow> slen \<le> k \<Longrightarrow> \<forall>w. u = Some w \<longrightarrow> w \<le> k \<Longrightarrow> \<forall>w. v = Some w \<longrightarrow> w \<le> k \<Longrightarrow>
   request_line_loop data slen i ws wh u v = Some None \<or>
   (\<exists>d u' v'. request_line_loop data slen i ws wh u v = Some (Some (d, u', v')) \<and> terminated k d \<and>
      (\<forall>w. u' = Some w \<longrightarrow> w \<le> k) \<and> (\<forall>w. v' = Some w \<longrightarrow> w \<le> k))"
proof (induction "slen - i" arbitrary: data i ws wh u v rule: less_induct)
  case less
  show ?case
  proof (cases "i < slen")
    case True
    note IH = less.hyps [of "i + 1"]
    show ?thesis
    proof (cases "data ! i = CHR '' ''")
      case blank: True
      show ?thesis using IH [of "data[i := NUL]" u v True wh] less.prems True blank
        by (subst (1 2) request_line_loop.simps) (simp add: within)
    next
      case False
      show ?thesis
        using IH [of data u v ws wh] IH [of data "Some i" v False "Suc wh"] IH [of data u "Some i" False "Suc wh"]
          IH [of data u v False "Suc wh"] less.prems True False
        by (subst (1 2) request_line_loop.simps) (auto simp: within Let_def)
    qed
  next
    case False
    then show ?thesis using less.prems by (subst (1 2) request_line_loop.simps) simp
  qed
qed

lemma status_line_ok:
  "terminated k data \<Longrightarrow> slen \<le> k \<Longrightarrow> \<forall>w. c = Some w \<longrightarrow> w \<le> k \<Longrightarrow>
   \<exists>d c' m. status_line_loop data slen i ws wh c = Some (d, c', m) \<and> terminated k d \<and>
      (\<forall>w. c' = Some w \<longrightarrow> w \<le> k) \<and> (\<forall>w. m = Some w \<longrightarrow> w \<le> k)"
proof (induction "slen - i" arbitrary: data i ws wh c rule: less_induct)
  case less
  show ?case
  proof (cases "i < slen")
    case True
    note IH = less.hyps [of "i + 1"]
    show ?thesis
      using IH [of "data[i := NUL]" c True wh] IH [of data c ws wh] IH [of data "Some i" False "Suc wh"] less.prems True
      by (subst status_line_loop.simps) (auto simp: within Let_def)
  next
    case False
    then show ?thesis using less.prems by (subst status_line_loop.simps) simp
  qed
qed

subsection \<open>Every step is defined\<close>

lemma setvar_parser_ok:
  assumes "parser_ok p vs qs ps"
  shows "\<exists>t' vs'. httpp_setvar p n v = Some (p\<lparr>vars := t'\<rparr>) \<and> parser_ok (p\<lparr>vars := t'\<rparr>) vs' qs ps"
proof (cases "n = None \<or> v = None")
  case True
  then have "httpp_setvar p n v = Some (p\<lparr>vars := vars p\<rparr>)" by (auto simp: httpp_setvar_def split: option.splits)
  then show ?thesis using assms by (intro exI [of _ "vars p"] exI [of _ vs]) simp
next
  case False
  then obtain n' v' where "n = Some n'" "v = Some v'" by auto
  then show ?thesis using setvar_ok [OF assms, of n' v'] by blast
qed

lemma parse_headers_total:
  assumes "lines_ok len lines line" and "terminated len data" and "parser_ok p vs qs ps"
  shows "\<exists>p' vs'. parse_headers_loop p data line lines l = Some p' \<and> parser_ok p' vs' qs ps \<and>
     uri p' = uri p \<and> req_type p' = req_type p \<and> refc p' = refc p"
  using assms(2,3)
proof (induction "lines - l" arbitrary: p data l vs rule: less_induct)
  case less
  show ?case
  proof (cases "l < lines")
    case False
    then show ?thesis using less.prems by (subst parse_headers_loop.simps) auto
  next
    case l: True
    then obtain b where b: "get_line line l = Some b" "b \<le> len" using lines_okD [OF assms(1)] by blast
    obtain s where s: "get_str data b = Some s" "b + length s \<le> len"
      using terminated_str [OF less.prems(1) b(2)] by blast
    have slen: "b + int_size (length s) \<le> len" using s(2) int_size_le [of "length s"] by linarith
    obtain d v where h: "header_loop data b (int_size (length s)) 0 False = Some (d, v)" "terminated len d"
        "\<forall>w. v = Some w \<longrightarrow> w \<le> len"
      using header_loop_ok [OF less.prems(1) slen] by blast
    have shorter: "lines - (l + 1) < lines - l" using l by simp
    show ?thesis
    proof (cases v)
      case None
      show ?thesis using less.hyps [OF shorter h(2) less.prems(2)] l b(1) s(1) h(1) None
        by (subst parse_headers_loop.simps) simp
    next
      case (Some w)
      obtain d2 where low: "lowercase d b = Some d2" "terminated len d2"
        using lowercase_ok [OF h(2) b(2)] by blast
      obtain n x where nx: "get_str d2 b = Some n" "get_str d2 w = Some x"
        using terminated_str [OF low(2)] b(2) h(3) Some by blast
      obtain t' vs' where set: "httpp_setvar p (Some n) (Some x) = Some (p\<lparr>vars := t'\<rparr>)"
          "parser_ok (p\<lparr>vars := t'\<rparr>) vs' qs ps"
        using setvar_parser_ok [OF less.prems(2)] by blast
      show ?thesis using less.hyps [OF shorter low(2) set(2)] l b(1) s(1) h(1) low(1) nx Some set(1)
        by (subst parse_headers_loop.simps) simp
    qed
  qed
qed

lemma parse_query_element_total:
  assumes "vars_rep t vs"
  shows "\<exists>t' vs'. parse_query_element t query start mid stop = Some t' \<and> vars_rep t' vs'"
proof -
  have "\<exists>t' vs'. httpp_set_param_nocopy t n v b = Some t' \<and> vars_rep t' vs'" for n v b
    using set_param_values [OF assms] set_param_None assms by (cases v) blast+
  then show ?thesis using assms
    by (auto simp: parse_query_element_def Let_def split: option.splits)
qed

lemma parse_query_loop_total:
  "vars_rep t vs \<Longrightarrow> len \<le> length query \<Longrightarrow>
   \<exists>t' vs'. parse_query_loop t query len i start mid = Some t' \<and> vars_rep t' vs'"
proof (induction "len - i" arbitrary: t i start mid vs rule: less_induct)
  case less
  obtain t1 vs1 where e: "parse_query_element t query start mid i = Some t1" "vars_rep t1 vs1"
    using parse_query_element_total [OF less.prems(1)] by blast
  show ?case
  proof (cases "i < len")
    case True
    then have "get_char query i = Some (query ! i)" using less.prems(2) by (simp add: get_char_def)
    then show ?thesis
      using less.hyps [of "i + 1", OF _ e(2)] less.hyps [of "i + 1", OF _ less.prems(1)] less.prems(2) e True
      by (subst parse_query_loop.simps) simp
  next
    case False
    then show ?thesis using e by (subst parse_query_loop.simps) auto
  qed
qed

lemma parse_query_total:
  "vars_rep t vs \<Longrightarrow> \<forall>q. query = Some q \<longrightarrow> len \<le> length q \<Longrightarrow>
   \<exists>t' vs'. parse_query t query len = Some t' \<and> vars_rep t' vs'"
  using parse_query_loop_total by (auto simp: parse_query_def split: option.splits)

lemma parse_uri_total:
  assumes "parser_ok p vs qs ps"
  shows "\<exists>r vs' qs'. parse_uri p u = Some r \<and> (case r of Inl q \<Rightarrow> parser_ok q vs' qs' ps | Inr q \<Rightarrow> parser_ok q vs' qs' ps)"
proof -
  have uri_ok: "parser_ok (q\<lparr>uri := x\<rparr>) vs qs ps = parser_ok q vs qs ps" for q x vs qs
    by (simp add: parser_ok_def parser_vars_def)
  show ?thesis
  proof (cases "u = None \<or> u = Some [] \<or> (\<exists>x. u = Some x \<and> strchr x CHR ''?'' = None)")
    case True
    have "parse_uri p u = Some (Inl p) \<or> parse_uri p u = Some (Inr (p\<lparr>uri := u\<rparr>))"
      using True by (auto simp: parse_uri_def split: if_split_asm)
    then show ?thesis using assms uri_ok by fastforce
  next
    case False
    then obtain x where "u = Some x" "x \<noteq> []" "strchr x CHR ''?'' \<noteq> None" by (cases u) auto
    then obtain q where x: "u = Some x" "x \<noteq> []" "strchr x CHR ''?'' = Some q" by auto
    obtain t1 vs1 where 1: "httpp_setvar p (Some HTTPP_VAR_RAWURI) (Some x) = Some (p\<lparr>vars := t1\<rparr>)"
        "parser_ok (p\<lparr>vars := t1\<rparr>) vs1 qs ps" using setvar_parser_ok [OF assms] by blast
    obtain t2 vs2 where 2: "httpp_setvar (p\<lparr>vars := t1\<rparr>) (Some HTTPP_VAR_QUERYARGS) (Some q) = Some (p\<lparr>vars := t2\<rparr>)"
        "parser_ok (p\<lparr>vars := t2\<rparr>) vs2 qs ps" using setvar_parser_ok [OF 1(2)] by fastforce
    obtain t3 qs3 where 3: "parse_query (queryvars p) (Some (tl q)) (length (tl q)) = Some t3" "vars_rep t3 qs3"
      using parse_query_total [of "queryvars p" qs "Some (tl q)" "length (tl q)"] assms by (auto simp: parser_ok_def)
    let ?p = "p\<lparr>vars := t2, queryvars := t3, uri := Some (takeWhile (\<lambda>c. c \<noteq> CHR ''?'') x)\<rparr>"
    have "parse_uri p u = Some (Inr ?p)" using x 1(1) 2(1) 3(1) by (simp add: parse_uri_def)
    moreover have "parser_ok ?p vs2 qs3 ps"
      using 2(2) 3(2) by (simp add: parser_ok_def parser_vars_def)
    ultimately show ?thesis by fastforce
  qed
qed

lemma parse_version_total:
  assumes "parser_ok p vs qs ps"
  shows "\<exists>r vs'. parse_version p v = Some r \<and> (case r of Inl q \<Rightarrow> parser_ok q vs' qs ps | Inr q \<Rightarrow> parser_ok q vs' qs ps)"
proof -
  have two: "\<exists>q vs'. Option.bind (httpp_setvar p (Some HTTPP_VAR_PROTOCOL) (Some a))
      (\<lambda>p. Option.bind (httpp_setvar p (Some HTTPP_VAR_VERSION) (Some b)) (\<lambda>p. Some (Inr p))) = Some (Inr q) \<and>
      parser_ok q vs' qs ps" for a b
  proof -
    obtain t1 vs1 where 1: "httpp_setvar p (Some HTTPP_VAR_PROTOCOL) (Some a) = Some (p\<lparr>vars := t1\<rparr>)"
        "parser_ok (p\<lparr>vars := t1\<rparr>) vs1 qs ps" using setvar_parser_ok [OF assms] by blast
    obtain t2 vs2 where "httpp_setvar (p\<lparr>vars := t1\<rparr>) (Some HTTPP_VAR_VERSION) (Some b) = Some (p\<lparr>vars := t1\<rparr>\<lparr>vars := t2\<rparr>)"
        "parser_ok (p\<lparr>vars := t1\<rparr>\<lparr>vars := t2\<rparr>) vs2 qs ps" using setvar_parser_ok [OF 1(2)] by blast
    then show ?thesis using 1(1) by fastforce
  qed
  show ?thesis
    using assms two by (fastforce simp: parse_version_def Let_def split: option.splits sum.splits)
qed

text \<open>A parser in order: some variables for each of its trees.\<close>

definition parser_valid :: "http_parser_t \<Rightarrow> bool" where
  "parser_valid p \<longleftrightarrow> (\<exists>vs qs ps. parser_ok p vs qs ps)"

lemma parser_validI: "parser_ok p vs qs ps \<Longrightarrow> parser_valid p"
  by (auto simp: parser_valid_def)

lemma parser_valid_upd [simp]:
  "parser_valid (p\<lparr>uri := u\<rparr>) = parser_valid p" "parser_valid (p\<lparr>req_type := m\<rparr>) = parser_valid p"
  "parser_valid (p\<lparr>refc := r\<rparr>) = parser_valid p"
  by (simp_all add: parser_valid_def parser_ok_def parser_vars_def)

lemma setvar_valid:
  assumes "parser_valid p"
  shows "\<exists>t'. httpp_setvar p n v = Some (p\<lparr>vars := t'\<rparr>) \<and> parser_valid (p\<lparr>vars := t'\<rparr>)"
  using assms setvar_parser_ok unfolding parser_valid_def by blast

lemma parse_headers_valid:
  assumes "lines_ok len lines line" and "terminated len data" and "parser_valid p"
  shows "\<exists>p'. parse_headers p data line lines = Some p' \<and> parser_valid p' \<and>
     uri p' = uri p \<and> req_type p' = req_type p \<and> refc p' = refc p"
  using assms parse_headers_total unfolding parser_valid_def parse_headers_def by blast

lemma parse_uri_valid:
  assumes "parser_valid p"
  shows "(\<exists>q. parse_uri p u = Some (Inl q) \<and> parser_valid q) \<or> (\<exists>q. parse_uri p u = Some (Inr q) \<and> parser_valid q)"
proof -
  obtain vs qs ps where "parser_ok p vs qs ps" using assms by (auto simp: parser_valid_def)
  from parse_uri_total [OF this, of u] show ?thesis
    unfolding parser_valid_def by (elim exE conjE, rename_tac r vs' qs', case_tac r) auto
qed

lemma parse_version_valid:
  assumes "parser_valid p"
  shows "(\<exists>q. parse_version p v = Some (Inl q) \<and> parser_valid q) \<or> (\<exists>q. parse_version p v = Some (Inr q) \<and> parser_valid q)"
proof -
  obtain vs qs ps where "parser_ok p vs qs ps" using assms by (auto simp: parser_valid_def)
  from parse_version_total [OF this, of v] show ?thesis
    unfolding parser_valid_def by (elim exE conjE, rename_tac r vs', case_tac r) auto
qed

lemma parse_method_valid:
  assumes "lines_ok len lines line" and "terminated len data" and "parser_valid p"
  shows "\<exists>r p'. parse_method p data line lines = Some (r, p') \<and> parser_valid p' \<and> r \<in> {0, 1}"
proof -
  obtain t1 where 1: "httpp_setvar p (Some HTTPP_VAR_REQ_TYPE) (method_name (req_type p)) = Some (p\<lparr>vars := t1\<rparr>)"
      "parser_valid (p\<lparr>vars := t1\<rparr>)"
    using setvar_valid [OF assms(3)] by blast
  obtain t2 where 2: "httpp_setvar (p\<lparr>vars := t1\<rparr>) (Some HTTPP_VAR_URI) (uri p) = Some (p\<lparr>vars := t1\<rparr>\<lparr>vars := t2\<rparr>)"
      "parser_valid (p\<lparr>vars := t1\<rparr>\<lparr>vars := t2\<rparr>)"
    using setvar_valid [OF 1(2)] by blast
  obtain p' where "parse_headers (p\<lparr>vars := t1\<rparr>\<lparr>vars := t2\<rparr>) data line lines = Some p'" "parser_valid p'"
    using parse_headers_valid [OF assms(1,2) 2(2)] by blast
  then show ?thesis using 1 2 assms(3) by (simp add: parse_method_def)
qed

subsection \<open>Requests\<close>

lemma httpp_parse_total:
  assumes "parser_valid p" and "\<forall>bytes. data = Some bytes \<longrightarrow> len \<le> length bytes"
  shows "\<exists>r p'. httpp_parse p data len = Some (r, p') \<and> parser_valid p' \<and> r \<in> {0, 1}"
proof (cases data)
  case None
  then show ?thesis using assms by (simp add: httpp_parse_def)
next
  case (Some bytes)
  obtain d0 where cp: "copy_data bytes len = Some d0" "terminated len d0"
    using copy_data_ok assms(2) Some by blast
  obtain d n line where sp: "split_headers d0 len = Some (d, n, line)" "lines_ok len n line" "terminated len d"
    using split_headers_ok [OF cp(2)] by blast
  obtain first where first: "get_str d 0 = Some first" "length first \<le> len"
    using terminated_str [OF sp(3), of 0] by auto
  have "int_size (length first) \<le> len" using first(2) int_size_le [of "length first"] by linarith
  from request_line_ok [OF sp(3) this, of None None 0 False 0, simplified] show ?thesis
  proof (elim disjE exE conjE)
    assume "request_line_loop d (int_size (length first)) 0 False 0 None None = Some None"
    then show ?thesis using assms(1) Some cp(1) sp(1) first(1) by (simp add: httpp_parse_def)
  next
    fix d1 u v
    assume rl: "request_line_loop d (int_size (length first)) 0 False 0 None None = Some (Some (d1, u, v))"
      and d1: "terminated len d1" and "\<forall>w. u = Some w \<longrightarrow> w \<le> len" "\<forall>w. v = Some w \<longrightarrow> w \<le> len"
    then obtain u' v' m where words: "get_str_if d1 u = Some u'" "get_str_if d1 v = Some v'" "get_str d1 0 = Some m"
      using terminated_str_if [OF d1] terminated_str [OF d1, of 0] by blast
    let ?p = "p\<lparr>req_type := httpp_str_to_method m\<rparr>"
    have p: "parser_valid ?p" using assms by simp
    note parse = httpp_parse_def Some cp(1) sp(1) first(1) rl words
    from parse_uri_valid [OF p, of u'] show ?thesis
    proof (elim disjE exE conjE)
      fix q assume "parse_uri ?p u' = Some (Inl q)" "parser_valid q"
      then show ?thesis by (simp add: parse)
    next
      fix q assume q: "parse_uri ?p u' = Some (Inr q)" "parser_valid q"
      from parse_version_valid [OF q(2), of v'] show ?thesis
      proof (elim disjE exE conjE)
        fix r assume "parse_version q v' = Some (Inl r)" "parser_valid r"
        then show ?thesis using q by (simp add: parse)
      next
        fix r assume r: "parse_version q v' = Some (Inr r)" "parser_valid r"
        show ?thesis using parse_method_valid [OF sp(2) d1 r(2)] r q by (simp add: parse)
      qed
    qed
  qed
qed

subsection \<open>Responses\<close>

lemma status_words_ok:
  assumes "len \<le> length bytes"
  shows "\<exists>d n line c m. status_words bytes len = Some (d, n, line, c, m) \<and> lines_ok len n line \<and> terminated len d"
proof -
  obtain d0 where cp: "copy_data bytes len = Some d0" "terminated len d0"
    using copy_data_ok [OF assms] by blast
  obtain d n line where sp: "split_headers d0 len = Some (d, n, line)" "lines_ok len n line" "terminated len d"
    using split_headers_ok [OF cp(2)] by blast
  obtain first where first: "get_str d 0 = Some first" "length first \<le> len"
    using terminated_str [OF sp(3), of 0] by auto
  have "int_size (length first) \<le> len" using first(2) int_size_le [of "length first"] by linarith
  then obtain d1 c m where sl: "status_line_loop d (int_size (length first)) 0 False 0 None = Some (d1, c, m)"
      "terminated len d1" "\<forall>w. c = Some w \<longrightarrow> w \<le> len" "\<forall>w. m = Some w \<longrightarrow> w \<le> len"
    using status_line_ok [OF sp(3), of "int_size (length first)" None 0 False 0] by auto
  obtain c' m' where "get_str_if d1 c = Some c'" "get_str_if d1 m = Some m'"
    using terminated_str_if [OF sl(2)] sl(3,4) by blast
  then show ?thesis using cp(1) sp first(1) sl(1,2) by (simp add: status_words_def)
qed

text \<open>The code of a response must fit \<open>int\<close>, where it is read.\<close>

definition code_fits :: "string \<Rightarrow> nat \<Rightarrow> bool" where
  "code_fits bytes len \<longleftrightarrow>
     (case status_words bytes len of Some (d, n, line, Some c, Some m) \<Rightarrow> atoi c \<noteq> None | _ \<Rightarrow> True)"

lemma httpp_parse_response_total:
  assumes "parser_valid p" and "len \<le> length bytes"
  shows "if code_fits bytes len
     then \<exists>r p'. httpp_parse_response p (Some bytes) len u = Some (r, p') \<and> parser_valid p' \<and> r \<in> {0, 1}
     else httpp_parse_response p (Some bytes) len u = None"
proof -
  obtain d n line c m where sw: "status_words bytes len = Some (d, n, line, c, m)" "lines_ok len n line" "terminated len d"
    using status_words_ok [OF assms(2)] by blast
  show ?thesis
  proof (cases "c = None \<or> m = None")
    case True
    then show ?thesis using assms(1) sw(1)
      by (auto simp: httpp_parse_response_def code_fits_def split: option.splits)
  next
    case False
    then obtain c' m' where cm: "c = Some c'" "m = Some m'" by auto
    obtain t1 where 1: "httpp_setvar p (Some HTTPP_VAR_ERROR_CODE) (Some c') = Some (p\<lparr>vars := t1\<rparr>)"
        "parser_valid (p\<lparr>vars := t1\<rparr>)" using setvar_valid [OF assms(1)] by blast
    show ?thesis
    proof (cases "atoi c'")
      case None
      then show ?thesis using sw(1) cm 1(1) by (simp add: httpp_parse_response_def code_fits_def)
    next
      case (Some code)
      have "\<exists>p2. (if code < 200 \<or> code \<ge> 300
          then httpp_setvar (p\<lparr>vars := t1\<rparr>) (Some HTTPP_VAR_ERROR_MESSAGE) (Some m')
          else Some (p\<lparr>vars := t1\<rparr>)) = Some p2 \<and> parser_valid p2"
        using setvar_valid [OF 1(2)] 1(2) by (metis (full_types))
      then obtain p2 where 2: "(if code < 200 \<or> code \<ge> 300
          then httpp_setvar (p\<lparr>vars := t1\<rparr>) (Some HTTPP_VAR_ERROR_MESSAGE) (Some m')
          else Some (p\<lparr>vars := t1\<rparr>)) = Some p2" "parser_valid p2" by blast
      obtain t3 where 3: "httpp_setvar p2 (Some HTTPP_VAR_URI) u = Some (p2\<lparr>vars := t3\<rparr>)"
          "parser_valid (p2\<lparr>vars := t3\<rparr>)" using setvar_valid [OF 2(2)] by blast
      obtain t4 where 4: "httpp_setvar (p2\<lparr>vars := t3\<rparr>) (Some HTTPP_VAR_REQ_TYPE) (Some ''NONE'') =
            Some (p2\<lparr>vars := t3\<rparr>\<lparr>vars := t4\<rparr>)"
          "parser_valid (p2\<lparr>vars := t3\<rparr>\<lparr>vars := t4\<rparr>)" using setvar_valid [OF 3(2)] by blast
      obtain p5 where 5: "parse_headers (p2\<lparr>vars := t3\<rparr>\<lparr>vars := t4\<rparr>) d line n = Some p5" "parser_valid p5"
        using parse_headers_valid [OF sw(2,3) 4(2)] by blast
      have "httpp_parse_response p (Some bytes) len u = Some (1, p5)"
        unfolding httpp_parse_response_def option.case sw(1) prod.case cm bind.bind_lunit 1(1) Some 2(1) 3(1) 4(1) 5(1) ..
      then show ?thesis using 5(2) sw(1) cm Some by (simp add: code_fits_def)
    qed
  qed
qed

lemma httpp_parse_postdata_total:
  assumes "parser_ok p vs qs ps" and "\<forall>b. body = Some b \<longrightarrow> len \<le> length b"
  shows "(if first_value vs ''content-type'' = None then httpp_parse_postdata p body len = None
     else \<exists>r p'. httpp_parse_postdata p body len = Some (r, p') \<and> parser_valid p' \<and>
       (r = 0 \<longleftrightarrow> strcasecmp (the (first_value vs ''content-type'')) ''application/x-www-form-urlencoded'' = 0))"
proof -
  have g: "httpp_getvar p ''content-type'' = Some (first_value vs ''content-type'')"
    using assms by (intro getvar_eq) (simp add: parser_ok_def parser_vars_def)
  obtain t ps' where t: "parse_query (postvars p) body len = Some t" "vars_rep t ps'"
    using parse_query_total [of "postvars p" ps body len] assms by (auto simp: parser_ok_def)
  have "parser_valid (p\<lparr>postvars := t\<rparr>)"
    using assms t(2) by (intro parser_validI [of _ vs qs ps']) (simp add: parser_ok_def parser_vars_def)
  then show ?thesis using g t(1) assms parser_validI
    by (auto simp: httpp_parse_postdata_def split: option.splits)
qed

end
