(* ===== verification/Httpp_Life.thy ===== *)
theory Httpp_Life
  imports Httpp_Safe
begin

section \<open>Listing the variables and the life of a parser\<close>

text \<open>
  The name arrays that \<open>httpp_get_any_key\<close> builds, and creation, initialisation, reference
  counting and release of a parser.
\<close>

subsection \<open>Name arrays\<close>

definition listed :: "httpp_ns_t \<Rightarrow> http_var_t list \<Rightarrow> string list" where
  "listed ns vs = map (\<lambda>v. cstr (vname v)) (filter (\<lambda>v. \<not> key_skipped ns v) vs)"

lemma listed_simps [simp]:
  "listed ns [] = []"
  "listed ns (v # vs) = (if key_skipped ns v then listed ns vs else cstr (vname v) # listed ns vs)"
  by (simp_all add: listed_def)

text \<open>An array of names, closed by at least one NULL.\<close>

definition name_array :: "string list \<Rightarrow> string option list \<Rightarrow> bool" where
  "name_array ns ret \<longleftrightarrow> (\<exists>k. ret = map Some ns @ replicate (Suc k) None)"

lemma replicate8: "replicate 8 x = x # replicate 7 x"
  by (simp add: eval_nat_numeral)

lemma name_array_add:
  assumes "name_array ns ret"
  shows "let ret = (if length ns = length ret - 1 then ret @ replicate 8 None else ret) in
     length ns < length ret \<and> name_array (ns @ [s]) (ret[length ns := Some s])"
proof -
  obtain k where k: "ret = map Some ns @ replicate (Suc k) None"
    using assms by (auto simp: name_array_def)
  show ?thesis
  proof (cases k)
    case 0
    have "(map Some ns @ None # replicate 8 None)[length ns := Some s] = map Some (ns @ [s]) @ replicate (Suc 7) None"
      by (simp add: list_update_append)
    then show ?thesis using k 0 by (auto simp: name_array_def Let_def intro!: exI [of _ 7] replicate8)
  next
    case (Suc j)
    then show ?thesis using k by (auto simp: name_array_def list_update_append Let_def)
  qed
qed

lemma any_key_loop_end: "any_key_loop ns st None ret pos = Some ret"
  by (subst any_key_loop.simps) simp

lemma any_key_loop_rep:
  assumes "if i < length (keys T) then cursor st rt T i p else p = None" and "name_array acc ret"
  shows "\<exists>ret'. any_key_loop ns st p ret (length acc) = Some ret' \<and>
     name_array (acc @ listed ns (drop i (keys T))) ret'"
  using assms
proof (induction "length (keys T) - i" arbitrary: i p acc ret)
  case 0
  then have "p = None" "drop i (keys T) = []" by (simp_all split: if_splits)
  then show ?case using 0 by (simp add: any_key_loop_end)
next
  case (Suc m)
  then have i: "i < length (keys T)" and c: "cursor st rt T i p" by auto
  obtain n where n: "rd st p = Some n" "key n = Some (keys T ! i)"
    using cursor_key [OF c] by blast
  obtain a where p: "p = Some a" using c by (auto simp: cursor_def)
  obtain q where q: "avl_get_next st p = Some q" "if Suc i < length (keys T) then cursor st rt T (Suc i) q else q = None"
    using avl_get_next_cursor [OF c] by blast
  have m: "m = length (keys T) - Suc i" using Suc.hyps(2) by simp
  have d: "drop i (keys T) = keys T ! i # drop (Suc i) (keys T)"
    using i by (simp add: Cons_nth_drop_Suc)
  show ?case
  proof (cases "key_skipped ns (keys T ! i)")
    case True
    have "any_key_loop ns st p ret (length acc) = any_key_loop ns st q ret (length acc)"
      using n p q(1) True by (subst any_key_loop.simps) simp
    then show ?thesis using Suc.hyps(1) [OF m q(2) Suc.prems(2)] d True by simp
  next
    case False
    let ?ret = "if length acc = length ret - 1 then ret @ replicate 8 None else ret"
    let ?s = "cstr (vname (keys T ! i))"
    have add: "length acc < length ?ret" "name_array (acc @ [?s]) (?ret[length acc := Some ?s])"
      using name_array_add [OF Suc.prems(2), of ?s] by (simp_all only: Let_def)
    have "any_key_loop ns st p ret (length acc) =
        any_key_loop ns st q (?ret[length acc := Some ?s]) (length (acc @ [?s]))"
      using n p q(1) False add(1) by (subst any_key_loop.simps) (simp add: Let_def)
    then show ?thesis using Suc.hyps(1) [OF m q(2) add(2)] d False by simp
  qed
qed

lemma free_name_array: "name_array ns ret \<Longrightarrow> httpp_free_any_key (Some ret) = Some ns"
proof -
  have "free_any_key_loop (map Some ns @ replicate (Suc k) None) = Some ns" for k
    by (induction ns) auto
  then show "name_array ns ret \<Longrightarrow> httpp_free_any_key (Some ret) = Some ns"
    by (auto simp: name_array_def httpp_free_any_key_def)
qed

definition ns_vars :: "httpp_ns_t \<Rightarrow> http_var_t list \<Rightarrow> http_var_t list \<Rightarrow> http_var_t list \<Rightarrow> http_var_t list" where
  "ns_vars ns vs qs ps = (case ns of HTTPP_NS_VAR \<Rightarrow> vs | HTTPP_NS_HEADER \<Rightarrow> vs
     | HTTPP_NS_QUERY_STRING \<Rightarrow> qs | HTTPP_NS_POST_BODY \<Rightarrow> ps)"

definition ns_tree :: "httpp_ns_t \<Rightarrow> http_parser_t \<Rightarrow> http_var_t avl_tree" where
  "ns_tree ns p = (case ns of HTTPP_NS_VAR \<Rightarrow> vars p | HTTPP_NS_HEADER \<Rightarrow> vars p
     | HTTPP_NS_QUERY_STRING \<Rightarrow> queryvars p | HTTPP_NS_POST_BODY \<Rightarrow> postvars p)"

lemma ns_rep: "parser_ok p vs qs ps \<Longrightarrow> vars_rep (ns_tree ns p) (ns_vars ns vs qs ps)"
  by (cases ns) (auto simp: parser_ok_def parser_vars_def ns_tree_def ns_vars_def)

lemma get_any_key_listed:
  assumes "parser_ok p vs qs ps"
  shows "\<exists>ret. httpp_get_any_key (Some p) ns = Some (Some ret) \<and>
     name_array (listed ns (ns_vars ns vs qs ps)) ret"
proof -
  let ?t = "ns_tree ns p"
  obtain T where T: "tree_rep ?t T" "keys T = ns_vars ns vs qs ps"
    using ns_rep [OF assms, of ns] by (auto simp: vars_rep_def avl_rep_def)
  obtain rt where rt: "root ?t = Some rt" using tree_rep_root [OF T(1)] by auto
  obtain q where q: "avl_get_first ?t = Some q" "if T = Tip then q = None else cursor (store ?t) rt T 0 q"
    using avl_get_first_cursor [OF T(1) rt] by blast
  have "if 0 < length (keys T) then cursor (store ?t) rt T 0 q else q = None"
    using q(2) by (cases T) auto
  moreover have "name_array [] (replicate 8 None)"
    by (auto simp: name_array_def intro!: exI [of _ 7] replicate8)
  ultimately obtain ret where "any_key_loop ns (store ?t) q (replicate 8 None) 0 = Some ret"
      "name_array (listed ns (ns_vars ns vs qs ps)) ret"
    using any_key_loop_rep [of 0 T "store ?t" rt q "[]" "replicate 8 None" ns] T(2) by auto
  then show ?thesis using q(1) by (auto simp: httpp_get_any_key_def ns_tree_def)
qed

subsection \<open>Creation and initialisation\<close>

lemma create_parser_ok:
  "\<exists>p. httpp_create_parser = Some p \<and> parser_ok p [] [] [] \<and> refc p = 1 \<and> uri p = None \<and> req_type p = httpp_req_none"
proof -
  have "limit empty_store = None" "cells empty_store = Map.empty"
    by (simp_all add: empty_store_def)
  from avl_rep_new [OF this, of compare_vars] obtain t where
    t: "avl_tree_new compare_vars empty_store = Some t" "vars_rep t []"
    by (auto simp: vars_rep_def strict_by_def)
  then show ?thesis
    by (auto simp: httpp_create_parser_def parser_ok_def parser_vars_def has_values_def)
qed

lemma setvar_values_sets:
  assumes "parser_ok p vs qs ps"
  shows "\<exists>t' vs'. setvar_values p n xs = Some (p\<lparr>vars := t'\<rparr>) \<and> parser_ok (p\<lparr>vars := t'\<rparr>) vs' qs ps \<and>
     values_of vs' = apply_sets (map (Pair n) xs) (values_of vs)"
  using assms
proof (induction xs arbitrary: p vs)
  case Nil
  then show ?case by (intro exI [of _ "vars p"] exI [of _ vs]) simp
next
  case (Cons x xs)
  obtain t1 vs1 where 1: "httpp_setvar p (Some n) (Some x) = Some (p\<lparr>vars := t1\<rparr>)"
      "parser_ok (p\<lparr>vars := t1\<rparr>) vs1 qs ps" "values_of vs1 = apply_sets [(n, x)] (values_of vs)"
    using setvar_ok [OF Cons.prems] by blast
  show ?case using Cons.IH [OF 1(2)] 1(1,3) by auto
qed

lemma initialize_sets:
  assumes "parser_ok p vs qs ps"
  shows "\<exists>t' vs'. httpp_initialize p ds = Some (p\<lparr>vars := t'\<rparr>) \<and> parser_ok (p\<lparr>vars := t'\<rparr>) vs' qs ps \<and>
     values_of vs' = apply_sets (concat (map (\<lambda>d. map (Pair (vname d)) (vvalue d)) ds)) (values_of vs)"
  using assms
proof (induction ds arbitrary: p vs)
  case Nil
  then show ?case by (intro exI [of _ "vars p"] exI [of _ vs]) simp
next
  case (Cons d ds)
  obtain t1 vs1 where 1: "setvar_values p (vname d) (vvalue d) = Some (p\<lparr>vars := t1\<rparr>)"
      "parser_ok (p\<lparr>vars := t1\<rparr>) vs1 qs ps" "values_of vs1 = apply_sets (map (Pair (vname d)) (vvalue d)) (values_of vs)"
    using setvar_values_sets [OF Cons.prems] by blast
  show ?case using Cons.IH [OF 1(2)] 1(1,3) by (auto simp: apply_sets_append)
qed

subsection \<open>References\<close>

lemma vars_free:
  assumes "vars_rep t vs" and "length vs < 2 ^ 32"
  shows "\<exists>st. avl_tree_free t True = Some (map Some vs, st) \<and> cells st = Map.empty"
proof -
  obtain T where T: "tree_rep t T" "keys T = vs" "tlength t = of_nat (length vs)"
    using assms(1) by (auto simp: vars_rep_def avl_rep_def)
  have "unat (of_nat (length vs) :: 32 word) = length vs"
    using assms(2) by (simp add: unat_of_nat)
  then have "tlength t = 0 \<longleftrightarrow> T = Tip"
    using T(2,3) by (cases T) (auto simp: unat_eq_0 [symmetric])
  from avl_tree_free_all [OF T(1) this] show ?thesis using T(2) by simp
qed

definition small :: "http_var_t list \<Rightarrow> bool" where
  "small vs \<longleftrightarrow> length vs < 2 ^ 32"

lemma clear_frees:
  assumes "parser_ok p vs qs ps" and "small vs" and "small qs" and "small ps"
  shows "httpp_clear p = Some (map Some (vs @ qs @ ps))"
  using assms vars_free [of "vars p" vs] vars_free [of "queryvars p" qs] vars_free [of "postvars p" ps]
  by (auto simp: httpp_clear_def parser_ok_def parser_vars_def small_def)

text \<open>\<open>n\<close> references taken and as many given back.\<close>

fun addrefs :: "nat \<Rightarrow> http_parser_t \<Rightarrow> http_parser_t" where
  "addrefs 0 p = p"
| "addrefs (Suc n) p = (case snd (httpp_addref (Some p)) of None \<Rightarrow> p | Some p \<Rightarrow> addrefs n p)"

fun releases :: "nat \<Rightarrow> http_parser_t \<Rightarrow> (http_parser_t option \<times> http_var_t option list) option" where
  "releases 0 p = Some (Some p, [])"
| "releases (Suc n) p = do {
     (r, q, freed) \<leftarrow> httpp_release (Some p);
     (case q of None \<Rightarrow> Some (None, freed) | Some q \<Rightarrow> releases n q)
   }"

lemma addrefs_refc: "addrefs n p = p\<lparr>refc := refc p + of_nat n\<rparr>"
  by (induction n arbitrary: p) (simp_all add: httpp_addref_def algebra_simps)

lemma release_keeps: "refc p \<noteq> 1 \<Longrightarrow> httpp_release (Some p) = Some (0, Some (p\<lparr>refc := refc p - 1\<rparr>), [])"
  by (simp add: httpp_release_def)

lemma release_frees:
  "refc p = 1 \<Longrightarrow> httpp_clear (p\<lparr>refc := 0\<rparr>) = Some vs \<Longrightarrow> httpp_release (Some p) = Some (0, None, vs)"
  by (simp add: httpp_release_def)

lemma releases_keep:
  "refc p = of_nat n + 1 \<Longrightarrow> m \<le> n \<Longrightarrow> n < 2 ^ 63 \<Longrightarrow>
   releases m p = Some (Some (p\<lparr>refc := refc p - of_nat m\<rparr>), [])"
proof (induction m arbitrary: n p)
  case (Suc m)
  then obtain n' where n: "n = Suc n'" by (cases n) auto
  have "refc p \<noteq> 1"
  proof
    assume "refc p = 1"
    then have "(of_nat n :: 64 word) = 0" using Suc.prems(1) by simp
    then show False using Suc.prems(3) n by (simp add: word_of_nat_eq_0_iff nat_dvd_not_less del: of_nat_Suc)
  qed
  then show ?case
    using Suc.IH [of "p\<lparr>refc := refc p - 1\<rparr>" n'] Suc.prems n
    by (simp add: release_keeps algebra_simps)
qed simp

end
