(* ===== verification/Httpp_Props.thy ===== *)
theory Httpp_Props
  imports Httpp_Life
begin

section \<open>The properties of the HTTP parser\<close>

text \<open>
  The properties of \<open>src/httpp/httpp.c\<close>, each applied to a parser made by
  \<open>httpp_create_parser\<close>.
\<close>

text \<open>The first of the values of a variable, which is what the getters return.\<close>

definition first_of :: "string list option \<Rightarrow> string option" where
  "first_of vs = (case vs of Some (v # _) \<Rightarrow> Some v | _ \<Rightarrow> None)"

lemma first_of_simps [simp]: "first_of None = None" "first_of (Some []) = None" "first_of (Some (v # vs)) = Some v"
  by (simp_all add: first_of_def)

lemma first_value_first_of: "first_value vs n = first_of (values_of vs n)"
  by (simp add: first_value_def first_of_def)

lemma getvar_ok: "parser_ok p vs qs ps \<Longrightarrow> httpp_getvar p n = Some (first_of (values_of vs n))"
  using getvar_eq [of p vs n] by (simp add: parser_ok_def parser_vars_def first_value_first_of)

lemma get_query_param_ok: "parser_ok p vs qs ps \<Longrightarrow> httpp_get_query_param p n = Some (first_of (values_of qs n))"
  using get_param_eq [of "queryvars p" qs n]
  by (simp add: parser_ok_def httpp_get_query_param_def first_value_first_of)

lemma get_post_param_ok: "parser_ok p vs qs ps \<Longrightarrow> httpp_get_post_param p n = Some (first_of (values_of ps n))"
  using get_param_eq [of "postvars p" ps n]
  by (simp add: parser_ok_def httpp_get_post_param_def first_value_first_of)

lemma values_of_Nil [simp]: "values_of [] n = None"
  by (simp add: values_of_def find_by_def)

lemma create_parser_valid: "\<exists>p. httpp_create_parser = Some p \<and> parser_valid p \<and> refc p = 1"
  using create_parser_ok parser_validI by blast

subsection \<open>Requests\<close>

text \<open>
  C9: Parsing a request that is laid out as method, URI with encoded query, protocol and version,
  header lines and body returns 1 and yields exactly what was laid out: the method, the path
  as URI, the internal variables, each header under its lower-case name with blanks after the
  colon skipped (a later one replaces an earlier one), and each query parameter decoded, in order.
  The lines are shorter than \<open>2 ^ 31\<close> characters each, the body may be of any length.\<close>

theorem httpp_parse_request:
  assumes "parser_ok p vs qs ps"
    and "token m" and "httpp_str_to_method m = meth" and "meth \<noteq> httpp_req_unknown" and "method_name meth = Some mname"
    and "token (render_uri keep path kvs)" and "CHR ''?'' \<notin> set path" and "path \<noteq> []"
    and "kvs \<noteq> [] \<longrightarrow> good_params keep kvs"
    and "token (pr @ CHR ''/'' # ver)" and "CHR ''/'' \<notin> set pr" and "pr \<noteq> []" and "ver \<noteq> []"
    and "\<forall>h \<in> set hs. good_header h" and "Suc (length hs) < MAX_HEADERS"
    and "req = render_request m (render_uri keep path kvs) (pr @ CHR ''/'' # ver) hs body"
    and "length (request_line_of m (render_uri keep path kvs) (pr @ CHR ''/'' # ver)) < 2 ^ 31"
  shows "\<exists>p'. httpp_parse p (Some req) (length req) = Some (1, p') \<and> parser_valid p' \<and>
     req_type p' = meth \<and> uri p' = Some path \<and>
     (\<forall>n. httpp_getvar p' n = Some (first_of (apply_sets (uri_sets keep path kvs @
        [(HTTPP_VAR_PROTOCOL, pr), (HTTPP_VAR_VERSION, ver), (HTTPP_VAR_REQ_TYPE, mname), (HTTPP_VAR_URI, path)] @
        map header_var hs) (values_of vs) n))) \<and>
     (\<forall>n. httpp_get_query_param p' n = Some (first_of (apply_params kvs (values_of qs) n))) \<and>
     (\<forall>n. httpp_get_post_param p' n = httpp_get_post_param p n)"
proof -
  obtain p' vs' qs' where p': "httpp_parse p (Some req) (length req) = Some (1, p')" "parser_ok p' vs' qs' ps"
      "req_type p' = meth" "uri p' = Some path"
      "values_of vs' = apply_sets (uri_sets keep path kvs @
        [(HTTPP_VAR_PROTOCOL, pr), (HTTPP_VAR_VERSION, ver), (HTTPP_VAR_REQ_TYPE, mname), (HTTPP_VAR_URI, path)] @
        map header_var hs) (values_of vs)"
      "values_of qs' = apply_params kvs (values_of qs)"
    using httpp_parse_render [OF assms] by blast
  show ?thesis
    using p'(1-4) parser_validI [OF p'(2)] getvar_ok [OF p'(2)] get_query_param_ok [OF p'(2)]
      get_post_param_ok [OF p'(2)] get_post_param_ok [OF assms(1)]
    unfolding p'(5,6) by (intro exI [of _ p']) simp
qed

definition sample_request :: string where
  "sample_request = ''GET /s?x=%41 HTTP/1.0'' @ [CR, LF] @ ''Host: h'' @ [CR, LF, CR, LF]"

lemma hexdigit_41 [simp]: "hexdigit 4 = CHR ''4''" "hexdigit (Suc 0) = CHR ''1''"
  by code_simp+

lemma header_var_host: "header_var (''Host'', k, ''h'') = (''host'', ''h'')"
proof -
  have "map tolower ''Host'' = ''host''" by code_simp
  then show ?thesis unfolding header_var_def by (simp only: prod.case)
qed

lemma sample_request_render:
  "sample_request = render_request ''GET'' (render_uri (\<lambda>c. c \<in> set ''bcd'') ''/s'' [(''x'', ''A'')])
     (''HTTP'' @ CHR ''/'' # ''1.0'') [(''Host'', 1, ''h'')] []"
  by (simp add: sample_request_def render_request_def render_uri_def request_line_of_def render_param_def
      header_line_def)

lemma sample_request_good:
  "token ''GET''" "token (render_uri (\<lambda>c. c \<in> set ''bcd'') ''/s'' [(''x'', ''A'')])" "token (''HTTP'' @ CHR ''/'' # ''1.0'')"
  "\<forall>h \<in> set [(''Host'', 1 :: nat, ''h'')]. good_header h"
  "good_params (\<lambda>c. c \<in> set ''bcd'') [(''x'', ''A'')]"
  "length (request_line_of ''GET'' (render_uri (\<lambda>c. c \<in> set ''bcd'') ''/s'' [(''x'', ''A'')]) (''HTTP'' @ CHR ''/'' # ''1.0'')) < 2 ^ 31"
  by (simp_all add: request_line_of_def token_def clean_def render_uri_def render_param_def CR_def LF_def NUL_def
      good_header_def good_params_def plain_def header_line_def)

lemma get_is_get: "httpp_str_to_method ''GET'' = httpp_req_get"
  by (simp add: httpp_str_to_method_def strcasecmp_eq_0 NUL_def)

lemma httpp_parse_request_witness:
  "\<exists>p p'. httpp_create_parser = Some p \<and> httpp_parse p (Some sample_request) (length sample_request) = Some (1, p') \<and>
     req_type p' = httpp_req_get \<and> uri p' = Some ''/s'' \<and> httpp_getvar p' ''host'' = Some (Some ''h'') \<and>
     httpp_getvar p' ''__version'' = Some (Some ''1.0'') \<and> httpp_get_query_param p' ''x'' = Some (Some ''A'')"
proof -
  obtain p where p: "httpp_create_parser = Some p" "parser_ok p [] [] []"
    using create_parser_ok by blast
  note g = sample_request_good
  obtain p' where p': "httpp_parse p (Some sample_request) (length sample_request) = Some (1, p')"
      "req_type p' = httpp_req_get" "uri p' = Some ''/s''"
      "\<forall>n. httpp_getvar p' n = Some (first_of (apply_sets (uri_sets (\<lambda>c. c \<in> set ''bcd'') ''/s'' [(''x'', ''A'')] @
        [(HTTPP_VAR_PROTOCOL, ''HTTP''), (HTTPP_VAR_VERSION, ''1.0''), (HTTPP_VAR_REQ_TYPE, ''GET''), (HTTPP_VAR_URI, ''/s'')] @
        map header_var [(''Host'', 1, ''h'')]) (values_of []) n))"
      "\<forall>n. httpp_get_query_param p' n = Some (first_of (apply_params [(''x'', ''A'')] (values_of []) n))"
    using httpp_parse_request [OF p(2) g(1) get_is_get _ _ g(2) _ _ _ g(3) _ _ _ g(4) _ sample_request_render g(6), of "''GET''"] g(5)
    by (auto simp: method_name_def MAX_HEADERS_def)
  have "httpp_getvar p' ''host'' = Some (Some ''h'')" "httpp_getvar p' ''__version'' = Some (Some ''1.0'')"
    unfolding p'(4) [rule_format]
    by (simp_all add: apply_sets_append set_values_def header_var_host var_names NUL_def)
  moreover have "httpp_get_query_param p' ''x'' = Some (Some ''A'')"
    unfolding p'(5) [rule_format] by (simp add: set_values_def NUL_def)
  ultimately show ?thesis using p(1) p'(1-3) by blast
qed

text \<open>
  C13: Parsing a response that is laid out as version, code and message, header lines and body
  returns 1 and sets exactly: the code, the message (all of it, blanks included) when the code is
  no success, the URI the caller gave, the request type \<open>NONE\<close>, and each header under its
  lower-case name. The parameters stay as they were. The version is not stored. The code is one
  whose number fits \<open>int\<close> (for any other, \<open>atoi\<close> has no defined result), the lines are
  shorter than \<open>2 ^ 31\<close> characters.\<close>

theorem httpp_parse_response_correct:
  assumes "parser_ok p vs qs ps"
    and "token v" and "token c" and "c \<noteq> []" and "clean msg" and "msg \<noteq> []" and "hd msg \<noteq> CHR '' ''"
    and "\<forall>h \<in> set hs. good_header h" and "Suc (length hs) < MAX_HEADERS"
    and "resp = render_response v c msg hs body" and "length (status_line_of v c msg) < 2 ^ 31"
    and "atoi c = Some code"
  shows "\<exists>p'. httpp_parse_response p (Some resp) (length resp) (Some u) = Some (1, p') \<and> parser_valid p' \<and>
     (\<forall>n. httpp_getvar p' n =
        Some (first_of (apply_sets (response_sets c code msg u @ map header_var hs) (values_of vs) n))) \<and>
     (\<forall>n. httpp_get_query_param p' n = httpp_get_query_param p n) \<and>
     (\<forall>n. httpp_get_post_param p' n = httpp_get_post_param p n)"
proof -
  obtain p' vs' where p': "httpp_parse_response p (Some resp) (length resp) (Some u) = Some (1, p')"
      "parser_ok p' vs' qs ps"
      "values_of vs' = apply_sets (response_sets c code msg u @ map header_var hs) (values_of vs)"
    using httpp_parse_response_render [OF assms] by blast
  show ?thesis
    using p'(1) parser_validI [OF p'(2)] getvar_ok [OF p'(2)] get_query_param_ok [OF p'(2)]
      get_query_param_ok [OF assms(1)] get_post_param_ok [OF p'(2)] get_post_param_ok [OF assms(1)]
    unfolding p'(3) by (intro exI [of _ p']) simp
qed

definition sample_response :: string where
  "sample_response = ''HTTP/1.0 404 Not Found'' @ [CR, LF] @ ''Host: h'' @ [CR, LF, CR, LF]"

lemma sample_response_render:
  "sample_response = render_response ''HTTP/1.0'' ''404'' ''Not Found'' [(''Host'', 1, ''h'')] []"
  by (simp add: sample_response_def render_response_def status_line_of_def header_line_def)

lemma httpp_parse_response_correct_witness:
  "\<exists>p p'. httpp_create_parser = Some p \<and>
     httpp_parse_response p (Some sample_response) (length sample_response) (Some ''/x'') = Some (1, p') \<and>
     httpp_getvar p' ''host'' = Some (Some ''h'') \<and> httpp_getvar p' ''__errorcode'' = Some (Some ''404'') \<and>
     httpp_getvar p' ''__errormessage'' = Some (Some ''Not Found'')"
proof -
  obtain p where p: "httpp_create_parser = Some p" "parser_ok p [] [] []"
    using create_parser_ok by blast
  have len: "length (status_line_of ''HTTP/1.0'' ''404'' ''Not Found'') < 2 ^ 31"
    by (simp add: status_line_of_def)
  have code: "atoi ''404'' = Some 404" by code_simp
  have "token ''HTTP/1.0''" "token ''404''" "clean ''Not Found''"
    by (simp_all add: token_def clean_def CR_def LF_def NUL_def)
  then obtain p' where p': "httpp_parse_response p (Some sample_response) (length sample_response) (Some ''/x'') = Some (1, p')"
      "\<forall>n. httpp_getvar p' n = Some (first_of (apply_sets (response_sets ''404'' 404 ''Not Found'' ''/x'' @
        map header_var [(''Host'', 1, ''h'')]) (values_of []) n))"
    using httpp_parse_response_correct [OF p(2) _ _ _ _ _ _ sample_request_good(4) _ sample_response_render len code, of "''/x''"]
    by (auto simp: MAX_HEADERS_def)
  have "httpp_getvar p' ''host'' = Some (Some ''h'')" "httpp_getvar p' ''__errorcode'' = Some (Some ''404'')"
      "httpp_getvar p' ''__errormessage'' = Some (Some ''Not Found'')"
    unfolding p'(2) [rule_format]
    by (simp_all add: response_sets_def apply_sets_append set_values_def header_var_host var_names NUL_def)
  then show ?thesis using p(1) p'(1) by blast
qed

text \<open>
  C10: On any bytes, a length that they cover and a parser in order, \<open>httpp_parse\<close> reads and
  writes only inside the bytes, its copy of them and the 32 entries of the array of lines, reads
  no line start that was not set, has every string it reads end inside the copy, returns 0 or 1 and
  leaves the three trees in order. So does \<open>httpp_parse_response\<close>, unless the number of the code
  does not fit \<open>int\<close>: then it calls \<open>atoi\<close> outside its domain. A length beyond the bytes is an
  over-read in both. Allocations are taken to succeed and \<open>tolower\<close> to accept every \<open>char\<close>.\<close>

theorem httpp_parse_safe:
  assumes "parser_valid p"
  shows "(if len \<le> length bytes
      then \<exists>r p'. httpp_parse p (Some bytes) len = Some (r, p') \<and> parser_valid p' \<and> r \<in> {0, 1}
      else httpp_parse p (Some bytes) len = None) \<and>
    (if len \<le> length bytes \<and> code_fits bytes len
      then \<exists>r p'. httpp_parse_response p (Some bytes) len u = Some (r, p') \<and> parser_valid p' \<and> r \<in> {0, 1}
      else httpp_parse_response p (Some bytes) len u = None) \<and>
    httpp_parse p None len = Some (0, p) \<and> httpp_parse_response p None len u = Some (0, p)"
proof -
  have "httpp_parse p (Some bytes) len = None" "httpp_parse_response p (Some bytes) len u = None"
    if "\<not> len \<le> length bytes"
    using that by (simp_all add: httpp_parse_def httpp_parse_response_def status_words_def copy_data_def)
  moreover have "httpp_parse p None len = Some (0, p)" "httpp_parse_response p None len u = Some (0, p)"
    by (simp_all add: httpp_parse_def httpp_parse_response_def)
  ultimately show ?thesis
    using httpp_parse_total [OF assms, of "Some bytes" len] httpp_parse_response_total [OF assms, of len bytes u]
    by (cases "len \<le> length bytes") simp_all
qed

lemma long_code_unfit: "\<not> code_fits ''V 4294967496 M'' 14" "code_fits ''V 404 M'' 7"
  by code_simp+

lemma httpp_parse_safe_witness:
  "\<exists>p. httpp_create_parser = Some p \<and>
     (\<exists>r p'. httpp_parse p (Some (concat (replicate 40 [CHR ''a'', LF]))) 80 = Some (r, p') \<and> parser_valid p') \<and>
     httpp_parse p (Some ''GET'') 4 = None \<and>
     (\<exists>r p'. httpp_parse_response p (Some ''V 404 M'') 7 None = Some (r, p') \<and> parser_valid p') \<and>
     httpp_parse_response p (Some ''V 4294967496 M'') 14 None = None"
proof -
  obtain p where p: "httpp_create_parser = Some p" "parser_valid p" using create_parser_valid by blast
  have "length (concat (replicate 40 [CHR ''a'', LF])) = 80" by code_simp
  then show ?thesis
    using httpp_parse_safe [OF p(2), of 80 "concat (replicate 40 [CHR ''a'', LF])" None]
      httpp_parse_safe [OF p(2), of 4 "''GET''" None] httpp_parse_safe [OF p(2), of 7 "''V 404 M''" None]
      httpp_parse_safe [OF p(2), of 14 "''V 4294967496 M''" None] p(1) long_code_unfit
    by (intro exI [of _ p]) auto
qed

subsection \<open>Variables\<close>

text \<open>
  C11: The variables of a parser are a map from names to values: after \<open>httpp_setvar\<close> a name
  has the new value and every other name what it had, after \<open>httpp_deletevar\<close> the name has
  none, and NULL arguments change nothing.\<close>

theorem httpp_vars_map:
  assumes "parser_valid p"
  shows "\<exists>p1 p2 g. (\<forall>m. httpp_getvar p m = Some (g m)) \<and>
    httpp_setvar p (Some n) (Some v) = Some p1 \<and> parser_valid p1 \<and>
    (\<forall>m. httpp_getvar p1 m = Some (if cstr m = cstr n then Some v else g m)) \<and>
    httpp_deletevar (Some p) (Some n) = Some (Some p2) \<and> parser_valid p2 \<and>
    (\<forall>m. httpp_getvar p2 m = Some (if cstr m = cstr n then None else g m)) \<and>
    httpp_setvar p None (Some v) = Some p \<and> httpp_setvar p (Some n) None = Some p \<and>
    httpp_deletevar (Some p) None = Some (Some p)"
proof -
  obtain vs qs ps where ok: "parser_ok p vs qs ps" using assms by (auto simp: parser_valid_def)
  obtain t1 vs1 where 1: "httpp_setvar p (Some n) (Some v) = Some (p\<lparr>vars := t1\<rparr>)"
      "parser_ok (p\<lparr>vars := t1\<rparr>) vs1 qs ps" "values_of vs1 = apply_sets [(n, v)] (values_of vs)"
    using setvar_ok [OF ok] by blast
  obtain t2 where 2: "httpp_deletevar (Some p) (Some n) = Some (Some (p\<lparr>vars := t2\<rparr>))"
      "vars_rep t2 (del_by compare_vars (key_var n) vs)"
    using deletevar_eq ok by (fastforce simp: parser_ok_def parser_vars_def)
  have "has_values (del_by compare_vars (key_var n) vs)"
    using ok by (auto simp: parser_ok_def parser_vars_def has_values_def del_by_def)
  then have ok2: "parser_ok (p\<lparr>vars := t2\<rparr>) (del_by compare_vars (key_var n) vs) qs ps"
    using ok 2(2) by (simp add: parser_ok_def parser_vars_def)
  have "httpp_getvar (p\<lparr>vars := t1\<rparr>) m = Some (if cstr m = cstr n then Some v else first_of (values_of vs m))"
    "httpp_getvar (p\<lparr>vars := t2\<rparr>) m = Some (if cstr m = cstr n then None else first_of (values_of vs m))" for m
    using getvar_ok [OF 1(2)] getvar_ok [OF ok2] 1(3) by (simp_all add: set_values_def values_del)
  then show ?thesis
    using getvar_ok [OF ok] 1(1) 2(1) parser_validI [OF 1(2)] parser_validI [OF ok2]
    by (intro exI [of _ "p\<lparr>vars := t1\<rparr>"] exI [of _ "p\<lparr>vars := t2\<rparr>"] exI [of _ "\<lambda>m. first_of (values_of vs m)"])
      (simp add: httpp_setvar_def httpp_deletevar_def)
qed

lemma httpp_vars_map_witness:
  "\<exists>p p1. httpp_create_parser = Some p \<and> httpp_setvar p (Some ''a'') (Some ''1'') = Some p1 \<and>
     httpp_getvar p1 ''a'' = Some (Some ''1'')"
proof -
  obtain p where p: "httpp_create_parser = Some p" "parser_valid p" using create_parser_valid by blast
  obtain p1 g where "httpp_setvar p (Some ''a'') (Some ''1'') = Some p1"
      "\<forall>m. httpp_getvar p1 m = Some (if cstr m = cstr ''a'' then Some ''1'' else g m)"
    using httpp_vars_map [OF p(2), of "''a''" "''1''"] by blast
  then show ?thesis using p(1) by auto
qed

text \<open>
  Setting a query parameter decodes the value and replaces all values of the name; the
  combined lookup prefers the body's parameters to the query's. A value that cannot be decoded
  changes nothing.\<close>

theorem httpp_query_params_map:
  assumes "parser_valid p"
  shows "\<exists>p1 f g. (\<forall>m. httpp_get_query_param p m = Some (f m)) \<and> (\<forall>m. httpp_get_post_param p m = Some (g m)) \<and>
    httpp_set_query_param p (Some n) (Some v) = Some p1 \<and> parser_valid p1 \<and>
    (\<forall>m. httpp_get_query_param p1 m =
       Some (if cstr m = cstr n \<and> url_unescape v \<noteq> None then url_unescape v else f m)) \<and>
    (\<forall>m. httpp_get_post_param p1 m = Some (g m)) \<and>
    (\<forall>m. httpp_get_param p1 m = (if g m \<noteq> None then Some (g m) else httpp_get_query_param p1 m))"
proof -
  obtain vs qs ps where ok: "parser_ok p vs qs ps" using assms by (auto simp: parser_valid_def)
  have "\<exists>t qs'. httpp_set_param_nocopy (queryvars p) n (url_unescape v) True = Some t \<and> vars_rep t qs' \<and>
      values_of qs' = (case url_unescape v of None \<Rightarrow> values_of qs | Some w \<Rightarrow> set_values True n w (values_of qs))"
    using ok set_param_values [of "queryvars p" qs n _ True] set_param_None
    by (cases "url_unescape v") (auto simp: parser_ok_def)
  then obtain t qs' where t: "httpp_set_param_nocopy (queryvars p) n (url_unescape v) True = Some t" "vars_rep t qs'"
      "values_of qs' = (case url_unescape v of None \<Rightarrow> values_of qs | Some w \<Rightarrow> set_values True n w (values_of qs))"
    by blast
  let ?p = "p\<lparr>queryvars := t\<rparr>"
  have ok1: "parser_ok ?p vs qs' ps" using ok t(2) by (simp add: parser_ok_def parser_vars_def)
  have both: "httpp_get_param ?p m = (if first_of (values_of ps m) \<noteq> None then Some (first_of (values_of ps m))
      else httpp_get_query_param ?p m)" for m
    using get_post_param_ok [OF ok1, of m]
    by (simp add: httpp_get_param_def httpp_get_post_param_def httpp_get_query_param_def)
  have "httpp_set_query_param p (Some n) (Some v) = Some ?p"
    using t(1) by (simp add: httpp_set_query_param_def httpp_set_param_def)
  then show ?thesis
    using get_query_param_ok [OF ok] get_post_param_ok [OF ok] get_query_param_ok [OF ok1] get_post_param_ok [OF ok1]
      t(3) parser_validI [OF ok1] both
    by (intro exI [of _ ?p] exI [of _ "\<lambda>m. first_of (values_of qs m)"] exI [of _ "\<lambda>m. first_of (values_of ps m)"])
      (auto simp: set_values_def split: option.splits)
qed

lemma httpp_query_params_map_witness:
  "\<exists>p p1. httpp_create_parser = Some p \<and> httpp_set_query_param p (Some ''a'') (Some ''1+2'') = Some p1 \<and>
     httpp_get_query_param p1 ''a'' = Some (Some ''1 2'')"
proof -
  obtain p where p: "httpp_create_parser = Some p" "parser_valid p" using create_parser_valid by blast
  have "url_unescape ''1+2'' = Some ''1 2''" by (simp add: NUL_def)
  then show ?thesis using httpp_query_params_map [OF p(2), of "''a''" "''1+2''"] p(1) by auto
qed

text \<open>
  C12: A query string that lists encoded values appends each decoded value to its name's values,
  in the order of the string.\<close>

theorem parse_query_appends:
  assumes "good_params keep kvs" and "kvs \<noteq> []" and "\<forall>(k, v) \<in> set kvs. NUL \<notin> set k" and "vars_rep t vs"
    and "query = render_query keep kvs"
  shows "\<exists>t' vs'. parse_query t (Some query) (length query) = Some t' \<and> vars_rep t' vs' \<and>
     (\<forall>n. map_option (map_option vvalue) (httpp_get_param_var_in t' n) = Some (apply_params kvs (values_of vs) n))"
proof -
  obtain t' vs' where t': "parse_query t (Some query) (length query) = Some t'" "vars_rep t' vs'"
      "values_of vs' = apply_params kvs (values_of vs)"
    using parse_query_render [OF assms(1-4)] assms(5) by blast
  then show ?thesis using get_param_var_eq [OF t'(2)]
    by (intro exI [of _ t'] exI [of _ vs']) (simp add: values_of_def [symmetric])
qed

lemma parse_query_appends_witness:
  "\<exists>t t'. avl_tree_new compare_vars empty_store = Some t \<and> parse_query t (Some ''a=1&b=2&a=3'') 11 = Some t' \<and>
     map_option (map_option vvalue) (httpp_get_param_var_in t' ''a'') = Some (Some [''1'', ''3''])"
proof -
  let ?keep = "\<lambda>c. c \<in> set ''123''" and ?kvs = "[(''a'', ''1''), (''b'', ''2''), (''a'', ''3'')]"
  have "limit empty_store = None" "cells empty_store = Map.empty" by (simp_all add: empty_store_def)
  from avl_rep_new [OF this, of compare_vars] obtain t where
    t: "avl_tree_new compare_vars empty_store = Some t" "vars_rep t []"
    by (auto simp: vars_rep_def strict_by_def)
  have g: "good_params ?keep ?kvs" by (auto simp: good_params_def plain_def NUL_def)
  have q: "''a=1&b=2&a=3'' = render_query ?keep ?kvs" by (simp add: render_param_def)
  have "\<forall>(k, v) \<in> set ?kvs. NUL \<notin> set k" by (simp add: NUL_def)
  from parse_query_appends [OF g _ this t(2) q] obtain t' where
    "parse_query t (Some ''a=1&b=2&a=3'') (length ''a=1&b=2&a=3'') = Some t'"
    "map_option (map_option vvalue) (httpp_get_param_var_in t' ''a'') = Some (apply_params ?kvs (values_of []) ''a'')"
    by blast
  moreover have "length ''a=1&b=2&a=3'' = 11" by simp
  moreover have "apply_params ?kvs (values_of []) ''a'' = Some [''1'', ''3'']"
    by (simp add: set_values_def NUL_def)
  ultimately show ?thesis using t(1) by metis
qed

text \<open>
  Decoding undoes any encoding that leaves alone only characters with no meaning of their
  own, and decoded text is never longer than the text (the size of the buffer).\<close>

theorem url_unescape_roundtrip:
  "(\<forall>c. keep c \<longrightarrow> plain c) \<longrightarrow> url_unescape (url_escape keep s) = Some s \<and>
   (\<forall>e d. url_unescape e = Some d \<longrightarrow> length d \<le> length e)"
  using url_unescape_escape [of keep s] url_unescape_length by blast

lemma url_unescape_roundtrip_witness:
  "url_unescape (url_escape (\<lambda>c. c = CHR ''a'') ''a%b'') = Some ''a%b''"
  using url_unescape_roundtrip [of "\<lambda>c. c = CHR ''a''" "''a%b''"] by (simp add: plain_def NUL_def)

text \<open>
  \<open>httpp_get_any_key\<close> returns an array of the names of the name space in the order of
  the tree, closed by NULL (it grows by eight and is never written beyond its end), and
  \<open>httpp_free_any_key\<close> frees exactly these names.\<close>

theorem httpp_any_key_listed:
  assumes "parser_ok p vs qs ps"
  shows "\<exists>ret. httpp_get_any_key (Some p) ns = Some (Some ret) \<and>
     name_array (listed ns (ns_vars ns vs qs ps)) ret \<and>
     httpp_free_any_key (Some ret) = Some (listed ns (ns_vars ns vs qs ps))"
  using get_any_key_listed [OF assms] free_name_array by blast

lemma httpp_any_key_listed_witness:
  "\<exists>p p1 ret. httpp_create_parser = Some p \<and> httpp_setvar p (Some ''b'') (Some ''1'') = Some p1 \<and>
     httpp_get_any_key (Some p1) HTTPP_NS_HEADER = Some (Some ret) \<and> httpp_free_any_key (Some ret) = Some [''b'']"
proof -
  obtain p where p: "httpp_create_parser = Some p" "parser_ok p [] [] []" using create_parser_ok by blast
  then obtain t1 where 1: "httpp_setvar p (Some ''b'') (Some ''1'') = Some (p\<lparr>vars := t1\<rparr>)"
      "vars_rep t1 (put_by compare_vars \<lparr>vname = ''b'', vvalue = [''1'']\<rparr> [])"
      "has_values (put_by compare_vars \<lparr>vname = ''b'', vvalue = [''1'']\<rparr> [])"
    using setvar_eq [of p "[]" "''b''" "''1''"] by (auto simp: parser_ok_def parser_vars_def)
  have "put_by compare_vars \<lparr>vname = ''b'', vvalue = [''1'']\<rparr> [] = [\<lparr>vname = ''b'', vvalue = [''1'']\<rparr>]"
    by (simp add: put_by_def del_by_def)
  then have "parser_ok (p\<lparr>vars := t1\<rparr>) [\<lparr>vname = ''b'', vvalue = [''1'']\<rparr>] [] []"
    using p(2) 1(2,3) by (simp add: parser_ok_def parser_vars_def)
  from httpp_any_key_listed [OF this, of HTTPP_NS_HEADER] show ?thesis
    using p(1) 1(1) by (auto simp: ns_vars_def key_skipped_def name_at_def NUL_def)
qed

subsection \<open>Life time\<close>

text \<open>
  C14: A parser lives as long as it has references: after \<open>n\<close> further references, \<open>n\<close>
  releases leave it as it was, and one more frees every variable of the three trees once and
  the parser with them.\<close>

theorem httpp_release_last:
  assumes "parser_ok p vs qs ps" and "refc p = 1" and "n < 2 ^ 63" and "small vs" and "small qs" and "small ps"
  shows "releases n (addrefs n p) = Some (Some p, []) \<and> httpp_release (Some p) = Some (0, None, map Some (vs @ qs @ ps)) \<and>
     httpp_release None = Some (-1, None, []) \<and> httpp_addref None = (-1, None)"
proof -
  have "releases n (addrefs n p) = Some (Some ((addrefs n p)\<lparr>refc := refc (addrefs n p) - of_nat n\<rparr>), [])"
    by (rule releases_keep [of _ n]) (use assms(2,3) in \<open>simp_all add: addrefs_refc\<close>)
  moreover have "parser_ok (p\<lparr>refc := 0\<rparr>) vs qs ps" using assms(1) by (simp add: parser_ok_def parser_vars_def)
  then have "httpp_release (Some p) = Some (0, None, map Some (vs @ qs @ ps))"
    by (intro release_frees assms(2) clear_frees assms(4-6))
  ultimately show ?thesis by (simp add: addrefs_refc httpp_release_def httpp_addref_def)
qed

lemma httpp_release_last_witness:
  "\<exists>p. httpp_create_parser = Some p \<and> releases 3 (addrefs 3 p) = Some (Some p, []) \<and>
     httpp_release (Some p) = Some (0, None, [])"
proof -
  obtain p where p: "httpp_create_parser = Some p" "parser_ok p [] [] []" "refc p = 1" using create_parser_ok by blast
  show ?thesis
    using httpp_release_last [OF p(2,3), of 3] p(1) by (intro exI [of _ p]) (simp add: small_def del: releases.simps addrefs.simps)
qed

lemma if_elim: "(if c then a else b) = x \<Longrightarrow> (c \<Longrightarrow> x = a \<Longrightarrow> P) \<Longrightarrow> (\<not> c \<Longrightarrow> b = x \<Longrightarrow> P) \<Longrightarrow> P"
  by (cases c) auto

lemma lower_names:
  "map tolower ''GET'' = ''get''"
  "map tolower ''POST'' = ''post''"
  "map tolower ''PUT'' = ''put''"
  "map tolower ''HEAD'' = ''head''"
  "map tolower ''OPTIONS'' = ''options''"
  "map tolower ''DELETE'' = ''delete''"
  "map tolower ''TRACE'' = ''trace''"
  "map tolower ''CONNECT'' = ''connect''"
  "map tolower ''SOURCE'' = ''source''"
  "map tolower ''PLAY'' = ''play''"
  "map tolower ''STATS'' = ''stats''"
  by code_simp+

lemma cstr_names:
  "cstr ''GET'' = ''GET''"
  "cstr ''POST'' = ''POST''"
  "cstr ''PUT'' = ''PUT''"
  "cstr ''HEAD'' = ''HEAD''"
  "cstr ''OPTIONS'' = ''OPTIONS''"
  "cstr ''DELETE'' = ''DELETE''"
  "cstr ''TRACE'' = ''TRACE''"
  "cstr ''CONNECT'' = ''CONNECT''"
  "cstr ''SOURCE'' = ''SOURCE''"
  "cstr ''PLAY'' = ''PLAY''"
  "cstr ''STATS'' = ''STATS''"
  by (simp_all add: NUL_def)

text \<open>
  Every request method but the unknown ones has a name that \<open>httpp_str_to_method\<close> reads
  back, in any capitalisation, and only names of methods are read as methods.\<close>

theorem httpp_method_roundtrip:
  "(method_name m = Some s \<longrightarrow> map tolower (cstr s') = map tolower s \<longrightarrow> httpp_str_to_method s' = m) \<and>
   (httpp_str_to_method s' \<noteq> httpp_req_unknown \<longrightarrow>
     (\<exists>s. method_name (httpp_str_to_method s') = Some s \<and> map tolower (cstr s') = map tolower s))"
proof -
  obtain l where l: "map tolower (cstr s') = l" by simp
  have m: "httpp_str_to_method s' = (if ''get'' = l then httpp_req_get
      else if ''post'' = l then httpp_req_post
      else if ''put'' = l then httpp_req_put
      else if ''head'' = l then httpp_req_head
      else if ''options'' = l then httpp_req_options
      else if ''delete'' = l then httpp_req_delete
      else if ''trace'' = l then httpp_req_trace
      else if ''connect'' = l then httpp_req_connect
      else if ''source'' = l then httpp_req_source
      else if ''play'' = l then httpp_req_play
      else if ''stats'' = l then httpp_req_stats
      else httpp_req_unknown)"
    unfolding httpp_str_to_method_def strcasecmp_eq_0 cstr_names lower_names l ..
  have 1: "httpp_str_to_method s' = m" if "method_name m = Some s" "map tolower (cstr s') = map tolower s"
  proof -
    have "map tolower s = l" using that(2) l by simp
    with that(1) show ?thesis unfolding m
      by (cases m; clarsimp simp only: method_name_def httpp_request_type_e.case option.inject lower_names option.distinct; simp)
  qed
  have 2: "\<exists>s. method_name (httpp_str_to_method s') = Some s \<and> map tolower (cstr s') = map tolower s"
    if "httpp_str_to_method s' \<noteq> httpp_req_unknown"
  proof -
    have "\<exists>s. method_name x = Some s \<and> l = map tolower s" if "httpp_str_to_method s' = x" "x \<noteq> httpp_req_unknown" for x
      using that unfolding m
      by (elim if_elim; simp only: method_name_def httpp_request_type_e.case option.inject simp_thms lower_names)
    then show ?thesis using that l by blast
  qed
  show ?thesis using 1 2 by blast
qed

lemma httpp_method_roundtrip_witness: "httpp_str_to_method ''Get'' = httpp_req_get"
proof -
  have "map tolower (cstr ''Get'') = map tolower ''GET''" by code_simp
  then show ?thesis
    using httpp_method_roundtrip [of httpp_req_get "''GET''" "''Get''"] by (simp add: method_name_def)
qed

text \<open>
  A body is parsed only for the form content type; any other type gives -1 and, where the
  request had no content type at all, the code passes NULL to \<open>strcasecmp\<close> (no behaviour).\<close>

theorem httpp_postdata_content_type:
  assumes "parser_ok p vs qs ps" and "\<forall>b. body = Some b \<longrightarrow> len \<le> length b"
  shows "(httpp_parse_postdata p body len = None \<longleftrightarrow> httpp_getvar p ''content-type'' = Some None) \<and>
    (\<forall>h. httpp_getvar p ''content-type'' = Some (Some h) \<longrightarrow> (\<exists>r p'. httpp_parse_postdata p body len = Some (r, p') \<and>
       parser_valid p' \<and> (r = 0 \<longleftrightarrow> strcasecmp h ''application/x-www-form-urlencoded'' = 0)))"
  using httpp_parse_postdata_total [OF assms] getvar_ok [OF assms(1), of "''content-type''"]
  by (auto simp: first_value_first_of split: if_splits)

lemma httpp_postdata_content_type_witness:
  "\<exists>p. httpp_create_parser = Some p \<and> httpp_parse_postdata p (Some ''a=1'') 3 = None"
proof -
  obtain p where p: "httpp_create_parser = Some p" "parser_ok p [] [] []" using create_parser_ok by blast
  show ?thesis using httpp_postdata_content_type [OF p(2), of "Some ''a=1''" 3] getvar_ok [OF p(2), of "''content-type''"] p(1)
    by (intro exI [of _ p]) simp
qed

end
