(* ===== verification/Encoding.thy ===== *)
theory Encoding
  imports CString
begin

section \<open>The transfer encodings\<close>

text \<open>
  Models \<open>src/httpp/encoding.c\<close> and \<open>encoding.h\<close>. An encoder object is a record; its
  buffers are optional byte lists that hold the valid bytes, with the offset and length fields
  of the code. The backend callback and its user data are parameters: \<open>cb u n\<close> is what
  a call with user data \<open>u\<close> and room for \<open>n\<close> bytes returns, the bytes it stored and the
  new user data. \<open>mem n\<close> says that an allocation of \<open>n\<close> bytes succeeds. \<open>None\<close> is a
  run with no defined behaviour (an access outside a buffer, or a callback that breaks its
  contract). \<open>buf_write_raw\<close> is never used by the code.
\<close>

subsection \<open>Data\<close>

record httpp_meta_t =
  mkey :: "string option"
  mvalue :: "string option"
  mvalue_len :: nat

text \<open>The handlers \<open>process_read\<close> and \<open>process_write\<close> come in two pairs.\<close>

datatype enc_handlers = Enc_Identity | Enc_Chunked

record httpp_encoding_t =
  erefc :: "64 word"
  process :: enc_handlers
  meta_read :: "httpp_meta_t list"
  meta_write :: "httpp_meta_t list"
  buf_read_raw :: "string option"
  buf_read_raw_offset :: nat
  buf_read_raw_len :: nat
  buf_read_decoded :: "string option"
  buf_read_decoded_offset :: nat
  buf_read_decoded_len :: nat
  buf_write_encoded :: "string option"
  buf_write_encoded_offset :: nat
  buf_write_encoded_len :: nat
  bytes_till_eof :: int
  read_bytes_till_header :: "64 word"

type_synonym 'u read_cb = "'u \<Rightarrow> nat \<Rightarrow> int \<times> string \<times> 'u"
type_synonym 'u write_cb = "'u \<Rightarrow> string \<Rightarrow> int \<times> 'u"

text \<open>
  The contract of the callbacks: the result is -1, or the number of bytes that were stored or
  taken, which is at most what was asked for.
\<close>

definition call_read :: "'u read_cb \<Rightarrow> 'u \<Rightarrow> nat \<Rightarrow> (int \<times> string \<times> 'u) option" where
  "call_read cb u n = (case cb u n of (ret, bytes, u) \<Rightarrow>
     if -1 \<le> ret \<and> ret \<le> int n \<and> length bytes = nat ret then Some (ret, bytes, u) else None)"

definition call_write :: "'u write_cb \<Rightarrow> 'u \<Rightarrow> string \<Rightarrow> (int \<times> 'u) option" where
  "call_write cb u bytes = (case cb u bytes of (ret, u) \<Rightarrow>
     if -1 \<le> ret \<and> ret \<le> int (length bytes) then Some (ret, u) else None)"

subsection \<open>Buffers\<close>

text \<open>\<open>__copy_buffer\<close>: the result, the bytes copied, the buffer, its offset and its length.\<close>

definition copy_buffer ::
    "bool \<Rightarrow> string option \<Rightarrow> nat \<Rightarrow> nat \<Rightarrow> nat \<Rightarrow> (int \<times> string \<times> string option \<times> nat \<times> nat) option" where
  "copy_buffer dst src boffset blen len =
     (if len = 0 then Some (0, [], src, boffset, blen)
      else if \<not> dst then Some (-1, [], src, boffset, blen)
      else (case src of
        None \<Rightarrow> Some (-1, [], src, boffset, blen)
      | Some s \<Rightarrow>
          (let have_len = blen - boffset; todo = min len have_len in
           if boffset \<le> blen \<and> blen \<le> length s then
             (let copied = take todo (drop boffset s) in
              if boffset + todo = blen then Some (int todo, copied, None, 0, 0)
              else Some (int todo, copied, src, boffset + todo, blen))
           else None)))"

definition flush_output ::
    "httpp_encoding_t \<Rightarrow> 'u write_cb option \<Rightarrow> 'u \<Rightarrow> (httpp_encoding_t \<times> 'u) option" where
  "flush_output self cb u = (case (cb, buf_write_encoded self) of
     (Some cb, Some s) \<Rightarrow> do {
       (ret, u) \<leftarrow> call_write cb u
         (take (buf_write_encoded_len self - buf_write_encoded_offset self) (drop (buf_write_encoded_offset self) s));
       (if ret > 0 then
          (let off = buf_write_encoded_offset self + nat ret in
           if off = buf_write_encoded_len self
           then Some (self\<lparr>buf_write_encoded := None, buf_write_encoded_offset := 0, buf_write_encoded_len := 0\<rparr>, u)
           else Some (self\<lparr>buf_write_encoded_offset := off\<rparr>, u))
        else Some (self, u))
     }
   | _ \<Rightarrow> Some (self, u))"

subsection \<open>Meta data\<close>

definition SIZEOF_META :: nat where
  "SIZEOF_META = 32"

definition httpp_encoding_meta_new :: "(nat \<Rightarrow> bool) \<Rightarrow> string option \<Rightarrow> string option \<Rightarrow> httpp_meta_t option" where
  "httpp_encoding_meta_new mem key value =
     (if \<not> mem SIZEOF_META then None
      else if \<not> (case key of None \<Rightarrow> True | Some k \<Rightarrow> mem (length (cstr k) + 1)) then None
      else if \<not> (case value of None \<Rightarrow> True | Some v \<Rightarrow> mem (length (cstr v) + 1)) then None
      else Some \<lparr>mkey = map_option cstr key, mvalue = map_option cstr value,
        mvalue_len = (case value of None \<Rightarrow> 0 | Some v \<Rightarrow> length (cstr v))\<rparr>)"

text \<open>The result and the blocks that are freed: for each element its key, its value and itself.\<close>

fun httpp_encoding_meta_free :: "httpp_meta_t list \<Rightarrow> int \<times> httpp_meta_t list" where
  "httpp_encoding_meta_free [] = (0, [])"
| "httpp_encoding_meta_free (cur # self) =
     (case httpp_encoding_meta_free self of (r, freed) \<Rightarrow> (r, cur # freed))"

definition httpp_encoding_meta_append ::
    "httpp_meta_t list option \<Rightarrow> httpp_meta_t list \<Rightarrow> int \<times> httpp_meta_t list option" where
  "httpp_encoding_meta_append dst nxt = (case dst of
     None \<Rightarrow> (-1, None)
   | Some cur \<Rightarrow> if nxt = [] then (0, Some cur) else (0, Some (cur @ nxt)))"

subsection \<open>Setup\<close>

text \<open>A failed \<open>calloc\<close>, or an unknown encoding, gives NULL.\<close>

definition SIZEOF_ENCODING :: nat where
  "SIZEOF_ENCODING = 152"

definition httpp_encoding_new :: "(nat \<Rightarrow> bool) \<Rightarrow> string \<Rightarrow> httpp_encoding_t option" where
  "httpp_encoding_new mem encoding =
     (if \<not> mem SIZEOF_ENCODING then None
      else
        (let ret = (\<lambda>h. \<lparr>erefc = 1, process = h, meta_read = [], meta_write = [],
           buf_read_raw = None, buf_read_raw_offset = 0, buf_read_raw_len = 0,
           buf_read_decoded = None, buf_read_decoded_offset = 0, buf_read_decoded_len = 0,
           buf_write_encoded = None, buf_write_encoded_offset = 0, buf_write_encoded_len = 0,
           bytes_till_eof = -1, read_bytes_till_header = 0\<rparr>) in
         if strcasecmp encoding ''identity'' = 0 then Some (ret Enc_Identity)
         else if strcasecmp encoding ''chunked'' = 0 then Some (ret Enc_Chunked)
         else None))"

definition httpp_encoding_addref :: "httpp_encoding_t option \<Rightarrow> int \<times> httpp_encoding_t option" where
  "httpp_encoding_addref self = (case self of
     None \<Rightarrow> (-1, None)
   | Some self \<Rightarrow> (0, Some (self\<lparr>erefc := erefc self + 1\<rparr>)))"

text \<open>The result, the object that is left, and the meta data and buffers that are freed.\<close>

definition httpp_encoding_release ::
    "httpp_encoding_t option \<Rightarrow> int \<times> httpp_encoding_t option \<times> httpp_meta_t list \<times> string list" where
  "httpp_encoding_release self = (case self of
     None \<Rightarrow> (-1, None, [], [])
   | Some self \<Rightarrow>
       (let self = self\<lparr>erefc := erefc self - 1\<rparr> in
        if erefc self \<noteq> 0 then (0, Some self, [], [])
        else (0, None,
          snd (httpp_encoding_meta_free (meta_read self)) @ snd (httpp_encoding_meta_free (meta_write self)),
          List.map_filter id [buf_read_raw self, buf_read_decoded self, buf_write_encoded self])))"

subsection \<open>Reading chunk headers\<close>

text \<open>
  The \<open>%llx\<close> conversion of \<open>sscanf\<close>: white space, a sign, an optional prefix, digits; a
  value that does not fit gives the largest one.
\<close>

definition xval :: "char \<Rightarrow> nat option" where
  "xval c = (let n = of_char c :: nat in
     if 48 \<le> n \<and> n \<le> 57 then Some (n - 48)
     else if 65 \<le> n \<and> n \<le> 70 then Some (n - 55)
     else if 97 \<le> n \<and> n \<le> 102 then Some (n - 87)
     else None)"

definition strip_0x :: "string \<Rightarrow> string" where
  "strip_0x s = (case s of a # b # cs \<Rightarrow> if a = CHR ''0'' \<and> (b = CHR ''x'' \<or> b = CHR ''X'') then cs else s | _ \<Rightarrow> s)"

definition hex_value :: "string \<Rightarrow> nat" where
  "hex_value ds = foldl (\<lambda>n c. 16 * n + the (xval c)) 0 ds"

definition sscanf_llx :: "string \<Rightarrow> 64 word option" where
  "sscanf_llx s =
     (let s = dropWhile is_space (cstr s);
          neg = (case s of c # cs \<Rightarrow> c = CHR ''-'' | [] \<Rightarrow> False);
          s = (case s of c # cs \<Rightarrow> if c = CHR ''-'' \<or> c = CHR ''+'' then cs else s | [] \<Rightarrow> s);
          ds = takeWhile (\<lambda>c. xval c \<noteq> None) (strip_0x s);
          n = hex_value ds
      in if ds = [] then None
         else if n \<ge> 2 ^ 64 then Some (- 1)
         else Some (if neg then - of_nat n else of_nat n))"

text \<open>
  The search for the end of a header, from index \<open>i\<close> on: the offsets of the extensions, of the
  last CR and of the LF, -1 when there is none. \<open>q\<close> is \<open>in_quote\<close>.
\<close>

fun scan_header :: "string \<Rightarrow> int \<Rightarrow> nat \<Rightarrow> int \<Rightarrow> int \<Rightarrow> int \<times> int \<times> int" where
  "scan_header [] i q e cr = (e, cr, -1)"
| "scan_header (c # cs) i q e cr =
     (if q \<noteq> 0 then
        (if c = CHR 0x5C then scan_header cs (i + 1) 2 e cr
         else if c = CHR 0x22 then scan_header cs (i + 1) (q - 1) e cr
         else scan_header cs (i + 1) q e cr)
      else if c = CHR 0x22 then scan_header cs (i + 1) 1 e cr
      else if c = CHR '';'' \<and> e = -1 then scan_header cs (i + 1) q i cr
      else if c = CR then scan_header cs (i + 1) q e i
      else if c = LF \<and> cr = i - 1 then (e, cr, i)
      else scan_header cs (i + 1) q e cr)"

text \<open>\<open>value_span\<close> is the first loop over a value, \<open>value_decode\<close> the second one.\<close>

fun value_span :: "string \<Rightarrow> nat \<Rightarrow> nat" where
  "value_span [] q = 0"
| "value_span (c # cs) q =
     (if q \<noteq> 0 then
        (let q = (if c = CHR 0x5C then 2 else if c = CHR 0x22 then q - 1 else q) in
         if q \<noteq> 0 then Suc (value_span cs q) else 1)
      else if c = CHR 0x22 then Suc (value_span cs 1)
      else if c = CHR '';'' then 0
      else Suc (value_span cs q))"

text \<open>
  \<open>after\<close> are the valid bytes from \<open>p\<close> on, which has already moved past the value: the test
  \<open>p[value_len] == ';'\<close> looks there, as many bytes on as are left of the value.
\<close>

fun value_decode :: "string \<Rightarrow> nat \<Rightarrow> string \<Rightarrow> string option" where
  "value_decode [] q after = Some []"
| "value_decode (c # cs) q after =
     (if q \<noteq> 0 then
        (if c = CHR 0x5C then value_decode cs 2 after
         else if c = CHR 0x22 then
           (if q - 1 \<noteq> 0 then map_option (\<lambda>v. CHR 0x22 # v) (value_decode cs (q - 1) after) else Some [])
         else map_option (\<lambda>v. c # v) (value_decode cs q after))
      else if c = CHR 0x22 then value_decode cs 1 after
      else if Suc (length cs) < length after then
        (if after ! Suc (length cs) = CHR '';'' then Some []
         else map_option (\<lambda>v. c # v) (value_decode cs q after))
      else None)"

text \<open>
  \<open>__enc_chunked_read_extentions\<close>. \<open>p\<close> are the valid bytes from the pointer on, of which the
  first \<open>len\<close> are extensions. \<open>read_extension\<close> is one round of the loop, with \<open>p\<close> after the
  semicolon: the element appended to \<open>meta_read\<close> and, unless the loop is left, the pointer
  and length for the next round.
\<close>

definition read_extension ::
    "(nat \<Rightarrow> bool) \<Rightarrow> string \<Rightarrow> nat \<Rightarrow> (httpp_meta_t \<times> (string \<times> nat) option) option" where
  "read_extension mem p len =
     (let key = takeWhile (\<lambda>c. c \<noteq> CHR ''='') (take len p); key_len = length key in
      if \<not> mem SIZEOF_META then None
      else if \<not> mem (key_len + 1) then Some (\<lparr>mkey = None, mvalue = None, mvalue_len = 0\<rparr>, None)
      else
        (let p = drop key_len p; len = len - key_len;
             meta = \<lparr>mkey = Some key, mvalue = None, mvalue_len = 0\<rparr> in
         if len = 0 then Some (meta, None)
         else if p ! 0 \<noteq> CHR ''='' then Some (meta, Some (p, len))
         else
           (let p = drop 1 p; len = len - 1; value_len = value_span (take len p) 0 in
            if len = 0 then Some (meta, None)
            else if \<not> mem (value_len + 1) then Some (meta, None)
            else do {
              v \<leftarrow> value_decode (take value_len p) 0 (drop value_len p);
              Some (meta\<lparr>mvalue := Some v, mvalue_len := length v\<rparr>, Some (drop value_len p, len - value_len))
            })))"

lemma read_extension_less: "read_extension mem p len = Some (m, Some (p', len')) \<Longrightarrow> len' \<le> len"
  by (auto simp: read_extension_def Let_def bind_eq_Some_conv split: if_splits)

function read_extensions :: "(nat \<Rightarrow> bool) \<Rightarrow> string \<Rightarrow> nat \<Rightarrow> httpp_meta_t list option" where
  "read_extensions mem p len =
     (if len = 0 \<or> p ! 0 \<noteq> CHR '';'' then Some []
      else (case read_extension mem (drop 1 p) (len - 1) of
         None \<Rightarrow> None
       | Some (meta, None) \<Rightarrow> Some [meta]
       | Some (meta, Some (p, len)) \<Rightarrow> map_option (\<lambda>ms. meta # ms) (read_extensions mem p len)))"
  by auto
termination
proof (relation "measure (\<lambda>(mem, p, len). len)")
  show "((mem, p', len'), mem, p, len) \<in> measure (\<lambda>(mem, p, len). len)"
    if "\<not> (len = 0 \<or> p ! 0 \<noteq> CHR '';'')" and "read_extension mem (drop 1 p) (len - 1) = Some x"
      and "(meta, y) = x" and "y = Some z" and "(p', len') = z"
    for mem p len x meta y z p' len'
    using that read_extension_less [of mem "drop 1 p" "len - 1" meta p' len'] by auto
qed simp

declare read_extensions.simps [simp del]

end
