(* ===== verification/Encoding_Run.thy ===== *)
theory Encoding_Run
  imports Encoding
begin

section \<open>Reading and writing through an encoding\<close>

text \<open>
  The operations of \<open>src/httpp/encoding.c\<close> that move data: the two pairs of handlers and the
  public functions. The result of a read is the return value, the bytes stored in the
  caller's buffer, the object and the user data.
\<close>

subsection \<open>Identity\<close>

definition enc_identity_read :: "nat \<Rightarrow> 'u read_cb option \<Rightarrow> 'u \<Rightarrow> (int \<times> string \<times> 'u) option" where
  "enc_identity_read len cb u = (case cb of None \<Rightarrow> Some (-1, [], u) | Some cb \<Rightarrow> call_read cb u len)"

definition enc_identity_write :: "string \<Rightarrow> 'u write_cb option \<Rightarrow> 'u \<Rightarrow> (int \<times> 'u) option" where
  "enc_identity_write bytes cb u = (case cb of None \<Rightarrow> Some (-1, u) | Some cb \<Rightarrow> call_write cb u bytes)"

subsection \<open>Chunked reading\<close>

text \<open>Reading into the raw buffer; \<open>Inl\<close> is a return.\<close>

definition chunked_fill ::
    "(nat \<Rightarrow> bool) \<Rightarrow> httpp_encoding_t \<Rightarrow> 'u read_cb \<Rightarrow> 'u \<Rightarrow>
     ((int \<times> httpp_encoding_t \<times> 'u) + (httpp_encoding_t \<times> 'u)) option" where
  "chunked_fill mem self cb u =
     (let buflen = (if bytes_till_eof self \<noteq> -1 then nat (bytes_till_eof self) else 1024);
          need = (case buf_read_raw self of Some s \<Rightarrow> buf_read_raw_len self + buflen | None \<Rightarrow> buflen);
          self = (case buf_read_raw self of Some s \<Rightarrow> self
            | None \<Rightarrow> self\<lparr>buf_read_raw_offset := 0, buf_read_raw_len := 0\<rparr>) in
      if \<not> mem need then Some (Inl (-1, self, u))
      else
        (let s = (case buf_read_raw self of Some s \<Rightarrow> s | None \<Rightarrow> []) in do {
           (ret, bytes, u) \<leftarrow> call_read cb u buflen;
           (if ret < 1 then
              Some (Inl (ret, (if buf_read_raw_len self = 0 then self\<lparr>buf_read_raw := None\<rparr>
                               else self\<lparr>buf_read_raw := Some s\<rparr>), u))
            else Some (Inr (self\<lparr>buf_read_raw := Some (take (buf_read_raw_len self) s @ bytes),
                                 buf_read_raw_len := buf_read_raw_len self + nat ret\<rparr>, u)))
         }))"

definition free_raw :: "httpp_encoding_t \<Rightarrow> httpp_encoding_t" where
  "free_raw self = self\<lparr>buf_read_raw := None, buf_read_raw_offset := 0, buf_read_raw_len := 0\<rparr>"

text \<open>Skipping the end of the last chunk; \<open>True\<close> means that nothing else was read.\<close>

definition chunked_skip :: "httpp_encoding_t \<Rightarrow> bool \<times> httpp_encoding_t" where
  "chunked_skip self =
     (let have = buf_read_raw_len self - buf_read_raw_offset self; todo = unat (read_bytes_till_header self) in
      if have = todo then (True, (free_raw self)\<lparr>read_bytes_till_header := 0\<rparr>)
      else if have > todo then
        (False, self\<lparr>buf_read_raw_offset := buf_read_raw_offset self + todo, read_bytes_till_header := 0\<rparr>)
      else (False, self))"

definition chunked_eof_check :: "httpp_encoding_t \<Rightarrow> bool \<times> httpp_encoding_t" where
  "chunked_eof_check self =
     (if bytes_till_eof self \<noteq> -1 then
        (let self = (if read_bytes_till_header self = 0 then self\<lparr>bytes_till_eof := 0\<rparr> else self) in
         (bytes_till_eof self = 0, self))
      else (False, self))"

text \<open>The body: \<open>raw\<close> is the raw buffer, whose offset stands behind the header.\<close>

definition chunked_body ::
    "(nat \<Rightarrow> bool) \<Rightarrow> httpp_encoding_t \<Rightarrow> string \<Rightarrow> 64 word \<Rightarrow> int \<times> httpp_encoding_t" where
  "chunked_body mem self raw bodylen =
     (let self = (if bodylen = 0 then self\<lparr>bytes_till_eof := 2\<rparr> else self);
          off = buf_read_raw_offset self; have = buf_read_raw_len self - off in
      if off = buf_read_raw_len self then
        (0, (free_raw self)\<lparr>read_bytes_till_header := bodylen + 2\<rparr>)
      else if have \<le> unat bodylen then
        (0, (free_raw self)\<lparr>buf_read_decoded := Some raw, buf_read_decoded_offset := off,
              buf_read_decoded_len := buf_read_raw_len self,
              read_bytes_till_header := bodylen + 2 - of_nat have\<rparr>)
      else if \<not> mem (unat bodylen) then (-1, self\<lparr>buf_read_decoded := None\<rparr>)
      else
        (let self = self\<lparr>buf_read_decoded := Some (take (unat bodylen) (drop off raw)), buf_read_decoded_offset := 0,
               buf_read_decoded_len := unat bodylen, buf_read_raw_offset := off + unat bodylen,
               read_bytes_till_header := 2\<rparr> in
         if buf_read_raw_len self - buf_read_raw_offset self \<ge> 2 then
           (let self = self\<lparr>buf_read_raw_offset := buf_read_raw_offset self + 2, read_bytes_till_header := 0,
                  bytes_till_eof := (if bytes_till_eof self \<noteq> -1 then 0 else bytes_till_eof self)\<rparr> in
            (0, if buf_read_raw_len self - buf_read_raw_offset self = 0 then free_raw self else self))
         else (0, self)))"

text \<open>
  The header: the scan, the extensions, the length. The write of the terminating NUL is at the
  extensions or at the CR, whose offset can be -1.
\<close>

definition chunked_header ::
    "(nat \<Rightarrow> bool) \<Rightarrow> httpp_encoding_t \<Rightarrow> (int \<times> httpp_encoding_t) option" where
  "chunked_header mem self = do {
     raw \<leftarrow> buf_read_raw self;
     (let off = buf_read_raw_offset self in
      case scan_header (drop off (take (buf_read_raw_len self) raw)) (int off) 0 (-1) (-1) of
        (offset_extentions, offset_CR, offset_LF) \<Rightarrow>
          (if offset_LF = -1 then Some (0, self)
           else do {
             ms \<leftarrow> (if offset_extentions \<noteq> -1
               then read_extensions mem (drop (nat offset_extentions) raw) (nat (offset_CR - offset_extentions))
               else Some []);
             let self = self\<lparr>meta_read := meta_read self @ ms\<rparr>;
             let c = (if offset_extentions \<noteq> -1 then offset_extentions else offset_CR);
             (if c < 0 then None
              else
                (let raw = raw[nat c := NUL]; self = self\<lparr>buf_read_raw := Some raw\<rparr> in
                 case sscanf_llx (drop off raw) of
                   None \<Rightarrow> Some (-1, self)
                 | Some bodylen \<Rightarrow>
                     Some (chunked_body mem (self\<lparr>buf_read_raw_offset := nat offset_LF + 1\<rparr>) raw bodylen)))
           }))
   }"

definition enc_chunked_read ::
    "(nat \<Rightarrow> bool) \<Rightarrow> httpp_encoding_t \<Rightarrow> nat \<Rightarrow> 'u read_cb option \<Rightarrow> 'u \<Rightarrow>
     (int \<times> string \<times> httpp_encoding_t \<times> 'u) option" where
  "enc_chunked_read mem self len cb u = (case cb of
     None \<Rightarrow> Some (-1, [], self, u)
   | Some cb \<Rightarrow>
       (if read_bytes_till_header self > 2 then do {
          let todo = min len (unat (read_bytes_till_header self - 2));
          (ret, bytes, u) \<leftarrow> call_read cb u todo;
          (if ret < 1 then Some (ret, bytes, self, u)
           else Some (ret, bytes,
             self\<lparr>read_bytes_till_header := read_bytes_till_header self - of_nat (nat ret)\<rparr>, u))
        } else do {
          r \<leftarrow> chunked_fill mem self cb u;
          (case r of
             Inl (ret, self, u) \<Rightarrow> Some (ret, [], self, u)
           | Inr (self, u) \<Rightarrow>
               (case chunked_skip self of
                  (True, self) \<Rightarrow> Some (0, [], self, u)
                | (False, self) \<Rightarrow>
                    (case chunked_eof_check self of
                       (True, self) \<Rightarrow> Some (0, [], self, u)
                     | (False, self) \<Rightarrow> do {
                         (ret, self) \<leftarrow> chunked_header mem self;
                         Some (ret, [], self, u)
                       })))
        }))"

subsection \<open>Chunked writing\<close>

definition meta_written :: "httpp_meta_t \<Rightarrow> bool" where
  "meta_written cur \<longleftrightarrow> mkey cur \<noteq> None \<and> \<not> (mvalue_len cur \<noteq> 0 \<and> mvalue cur = None)"

definition meta_value :: "httpp_meta_t \<Rightarrow> string" where
  "meta_value cur = (case mvalue cur of None \<Rightarrow> [] | Some v \<Rightarrow> take (mvalue_len cur) v)"

definition write_extensions_valuelen :: "httpp_meta_t \<Rightarrow> nat" where
  "write_extensions_valuelen cur =
     (if mvalue cur = None \<or> mvalue_len cur = 0 then 0
      else mvalue_len cur + length (filter (\<lambda>c. c = CHR 0x22) (meta_value cur)))"

fun extensions_buflen :: "httpp_meta_t list \<Rightarrow> nat" where
  "extensions_buflen [] = 1"
| "extensions_buflen (cur # ms) =
     (if meta_written cur
      then 4 + length (cstr (the (mkey cur))) + write_extensions_valuelen cur + extensions_buflen ms
      else extensions_buflen ms)"

fun escape_value :: "string \<Rightarrow> string" where
  "escape_value [] = []"
| "escape_value (c # cs) = (if c = CHR 0x22 then [CHR 0x5C, c] else [c]) @ escape_value cs"

definition extension_text :: "httpp_meta_t \<Rightarrow> string" where
  "extension_text cur = CHR '';'' # cstr (the (mkey cur)) @
     (if mvalue_len cur \<noteq> 0 then CHR ''='' # CHR 0x22 # escape_value (meta_value cur) @ [CHR 0x22] else [])"

fun extensions_text :: "httpp_meta_t list \<Rightarrow> string" where
  "extensions_text [] = []"
| "extensions_text (cur # ms) = (if meta_written cur then extension_text cur @ extensions_text ms else extensions_text ms)"

text \<open>
  \<open>__enc_chunked_write_extensions\<close>: the buffer with its terminator, or NULL, and the meta data
  that is left. Writing past the buffer, or a value shorter than its length, is \<open>None\<close>.
\<close>

definition write_extensions ::
    "(nat \<Rightarrow> bool) \<Rightarrow> httpp_meta_t list \<Rightarrow> (string option \<times> httpp_meta_t list) option" where
  "write_extensions mem ms =
     (if ms = [] then Some (None, [])
      else if \<exists>m \<in> set ms. meta_written m \<and> length (meta_value m) \<noteq> mvalue_len m then None
      else if \<not> mem (extensions_buflen ms) then Some (None, ms)
      else
        (let p = extensions_text ms @ [NUL] in
         if length p \<le> extensions_buflen ms then Some (Some p, []) else None))"

fun hex_digits :: "nat \<Rightarrow> string" where
  "hex_digits n = (if n < 16 then [''0123456789abcdef'' ! n] else hex_digits (n div 16) @ [''0123456789abcdef'' ! (n mod 16)])"

declare hex_digits.simps [simp del]

definition httpp_encoding_pending :: "httpp_encoding_t option \<Rightarrow> int" where
  "httpp_encoding_pending self = (case self of
     None \<Rightarrow> -1
   | Some self \<Rightarrow> if buf_write_encoded self = None then 0
       else int (buf_write_encoded_len self - buf_write_encoded_offset self))"

text \<open>
  \<open>buf\<close> is NULL or an array of at least \<open>len\<close> bytes. The parts of the new buffer are written one
  after the other; \<open>snprintf\<close> is given the size of the buffer.
\<close>

definition enc_chunked_write ::
    "(nat \<Rightarrow> bool) \<Rightarrow> httpp_encoding_t \<Rightarrow> string option \<Rightarrow> nat \<Rightarrow> (int \<times> httpp_encoding_t) option" where
  "enc_chunked_write mem self buf len =
     (let len = (if buf = None then 0 else len) in
      if httpp_encoding_pending (Some self) > 0 then Some (0, self)
      else
        (let len = min len 1048576; encoded_length = hex_digits len in do {
           (extensions, mw) \<leftarrow> write_extensions mem (meta_write self);
           let self = self\<lparr>meta_write := mw\<rparr>;
           let ext = (case extensions of None \<Rightarrow> [] | Some p \<Rightarrow> cstr p);
           let header_length = length encoded_length + length ext + 2;
           let total_chunk_size = header_length + len + 2 + (if buf = None then 2 else 0);
           (if \<not> mem total_chunk_size then Some (-1, self\<lparr>buf_write_encoded := None\<rparr>)
            else do {
              let data = (case buf of None \<Rightarrow> [] | Some b \<Rightarrow> take len b);
              (if length data \<noteq> len then None
               else Some (int len, self\<lparr>
                 buf_write_encoded := Some (encoded_length @ ext @ [CR, LF] @ data @
                   take (if buf = None then 4 else 2) [CR, LF, CR, LF]),
                 buf_write_encoded_offset := 0, buf_write_encoded_len := total_chunk_size\<rparr>))
            })
         }))"

subsection \<open>The public functions\<close>

definition process_read ::
    "(nat \<Rightarrow> bool) \<Rightarrow> httpp_encoding_t \<Rightarrow> nat \<Rightarrow> 'u read_cb option \<Rightarrow> 'u \<Rightarrow>
     (int \<times> string \<times> httpp_encoding_t \<times> 'u) option" where
  "process_read mem self len cb u = (case process self of
     Enc_Identity \<Rightarrow> map_option (\<lambda>(ret, bytes, u). (ret, bytes, self, u)) (enc_identity_read len cb u)
   | Enc_Chunked \<Rightarrow> enc_chunked_read mem self len cb u)"

definition httpp_encoding_read ::
    "(nat \<Rightarrow> bool) \<Rightarrow> httpp_encoding_t option \<Rightarrow> bool \<Rightarrow> nat \<Rightarrow> 'u read_cb option \<Rightarrow> 'u \<Rightarrow>
     (int \<times> string \<times> httpp_encoding_t option \<times> 'u) option" where
  "httpp_encoding_read mem self buf len cb u = (case self of
     None \<Rightarrow> Some (-1, [], None, u)
   | Some self \<Rightarrow>
       (if \<not> buf then Some (-1, [], Some self, u)
        else if len = 0 then Some (0, [], Some self, u)
        else do {
          (ret, out, b, bo, bl) \<leftarrow>
            copy_buffer True (buf_read_decoded self) (buf_read_decoded_offset self) (buf_read_decoded_len self) len;
          let self = self\<lparr>buf_read_decoded := b, buf_read_decoded_offset := bo, buf_read_decoded_len := bl\<rparr>;
          (if ret = int len then Some (ret, out, Some self, u)
           else do {
             let nread = (if ret > 0 then ret else 0);
             let len = len - nat nread;
             (ret, out', self, u) \<leftarrow> process_read mem self len cb u;
             (if ret = -1 then Some (if nread \<noteq> 0 then nread else -1, out, Some self, u)
              else do {
                let nread = nread + ret;
                let len = len - nat ret;
                (if len \<noteq> 0 then do {
                   (ret, out'', b, bo, bl) \<leftarrow>
                     copy_buffer True (buf_read_decoded self) (buf_read_decoded_offset self) (buf_read_decoded_len self) len;
                   let self = self\<lparr>buf_read_decoded := b, buf_read_decoded_offset := bo, buf_read_decoded_len := bl\<rparr>;
                   Some (nread + (if ret > 0 then ret else 0), out @ out' @ out'', Some self, u)
                 } else Some (nread, out @ out', Some self, u))
              })
           })
        }))"

definition httpp_encoding_eof :: "httpp_encoding_t option \<Rightarrow> int option \<Rightarrow> int" where
  "httpp_encoding_eof self cb = (case self of
     None \<Rightarrow> -1
   | Some self \<Rightarrow>
       if buf_read_decoded_len self - buf_read_decoded_offset self \<noteq> 0 then 0
       else if bytes_till_eof self = 0 then 1
       else (case cb of Some r \<Rightarrow> r | None \<Rightarrow> 0))"

definition httpp_encoding_get_meta ::
    "httpp_encoding_t option \<Rightarrow> httpp_meta_t list \<times> httpp_encoding_t option" where
  "httpp_encoding_get_meta self = (case self of
     None \<Rightarrow> ([], None)
   | Some self \<Rightarrow> (meta_read self, Some (self\<lparr>meta_read := []\<rparr>)))"

definition process_write ::
    "(nat \<Rightarrow> bool) \<Rightarrow> httpp_encoding_t \<Rightarrow> string option \<Rightarrow> nat \<Rightarrow> 'u write_cb option \<Rightarrow> 'u \<Rightarrow>
     (int \<times> httpp_encoding_t \<times> 'u) option" where
  "process_write mem self buf len cb u = (case process self of
     Enc_Identity \<Rightarrow> map_option (\<lambda>(ret, u). (ret, self, u))
       (enc_identity_write (case buf of None \<Rightarrow> [] | Some b \<Rightarrow> take len b) cb u)
   | Enc_Chunked \<Rightarrow> map_option (\<lambda>(ret, self). (ret, self, u)) (enc_chunked_write mem self buf len))"

definition httpp_encoding_write ::
    "(nat \<Rightarrow> bool) \<Rightarrow> httpp_encoding_t option \<Rightarrow> string option \<Rightarrow> nat \<Rightarrow> 'u write_cb option \<Rightarrow> 'u \<Rightarrow>
     (int \<times> httpp_encoding_t option \<times> 'u) option" where
  "httpp_encoding_write mem self buf len cb u = (case (self, cb) of
     (Some self, Some f) \<Rightarrow> do {
       (self, u) \<leftarrow> flush_output self cb u;
       (ret, self, u) \<leftarrow> process_write mem self buf len cb u;
       (self, u) \<leftarrow> flush_output self cb u;
       Some (ret, Some self, u)
     }
   | _ \<Rightarrow> Some (-1, self, u))"

definition httpp_encoding_append_meta ::
    "httpp_encoding_t option \<Rightarrow> httpp_meta_t list \<Rightarrow> int \<times> httpp_encoding_t option" where
  "httpp_encoding_append_meta self meta = (case self of
     None \<Rightarrow> (-1, None)
   | Some self \<Rightarrow>
       (case httpp_encoding_meta_append (Some (meta_write self)) meta of
          (ret, Some ms) \<Rightarrow> (ret, Some (self\<lparr>meta_write := ms\<rparr>))
        | (ret, None) \<Rightarrow> (ret, Some self)))"

end
