(* ===== verification/Encoding_Header.thy ===== *)
theory Encoding_Header
  imports Encoding_Run
begin

section \<open>Chunk headers\<close>

text \<open>
  What the reader makes of the headers the writer makes: the scan ends at the line end and not
  before, the length is read back, and the extensions are read back.
\<close>

subsection \<open>The scan\<close>

abbreviation "scan0 s i \<equiv> scan_header s i 0 (-1) (-1)"

lemma scan_found_append:
  "scan_header w i q e cr = (e', cr', lf) \<Longrightarrow> lf \<noteq> -1 \<Longrightarrow> scan_header (w @ rest) i q e cr = (e', cr', lf)"
  by (induction w i q e cr rule: scan_header.induct) (auto simp: CR_def LF_def split: if_split_asm)

lemma scan_lf_range: "scan_header w i q e cr = (e', cr', lf) \<Longrightarrow> lf \<noteq> -1 \<Longrightarrow> i \<le> lf \<and> lf < i + int (length w)"
  by (induction w i q e cr rule: scan_header.induct) (auto simp: CR_def LF_def split: if_split_asm)

text \<open>Text without quotes, semicolons and line ends is passed over.\<close>

definition header_plain :: "char \<Rightarrow> bool" where
  "header_plain c \<longleftrightarrow> c \<noteq> CHR 0x22 \<and> c \<noteq> CR \<and> c \<noteq> LF"

lemma scan_plain:
  "\<forall>c \<in> set w. header_plain c \<and> (c = CHR '';'' \<longrightarrow> e \<noteq> -1) \<Longrightarrow>
   scan_header (w @ rest) i 0 e cr = scan_header rest (i + int (length w)) 0 e cr"
proof (induction w arbitrary: i)
  case (Cons c w)
  then have "scan_header ((c # w) @ rest) i 0 e cr = scan_header (w @ rest) (i + 1) 0 e cr"
    by (auto simp: header_plain_def)
  also have "\<dots> = scan_header rest (i + 1 + int (length w)) 0 e cr"
    using Cons by simp
  finally show ?case by (simp add: add.assoc)
qed simp

lemma scan_escaped:
  assumes "CHR 0x5C \<notin> set v"
  shows "scan_header (escape_value v @ rest) i 1 e cr = scan_header rest (i + int (length (escape_value v))) 1 e cr"
  using assms
proof (induction v arbitrary: i)
  case (Cons c v)
  show ?case
  proof (cases "c = CHR 0x22")
    case True
    then have "scan_header (escape_value (c # v) @ rest) i 1 e cr = scan_header (escape_value v @ rest) (i + 1 + 1) 1 e cr"
      by simp
    then show ?thesis using Cons True by (simp add: add.assoc)
  next
    case False
    then have "scan_header (escape_value (c # v) @ rest) i 1 e cr = scan_header (escape_value v @ rest) (i + 1) 1 e cr"
      using Cons.prems by auto
    then show ?thesis using Cons False by (simp add: add.assoc)
  qed
qed simp

text \<open>
  Meta data that survives: a key without \<open>=\<close>, quotes, line ends and NULs, and a value that is
  not empty and has no backslash and no NUL.
\<close>

definition good_meta :: "httpp_meta_t \<Rightarrow> bool" where
  "good_meta m \<longleftrightarrow> (\<exists>k v. m = \<lparr>mkey = Some k, mvalue = Some v, mvalue_len = length v\<rparr> \<and> v \<noteq> [] \<and>
     CHR 0x5C \<notin> set v \<and> NUL \<notin> set v \<and> NUL \<notin> set k \<and> CHR ''='' \<notin> set k \<and> (\<forall>c \<in> set k. header_plain c))"

lemma good_metaE:
  assumes "good_meta m"
  obtains k v where "m = \<lparr>mkey = Some k, mvalue = Some v, mvalue_len = length v\<rparr>" "v \<noteq> []"
    "CHR 0x5C \<notin> set v" "NUL \<notin> set v" "NUL \<notin> set k" "CHR ''='' \<notin> set k" "\<forall>c \<in> set k. header_plain c"
    "extension_text m = CHR '';'' # k @ CHR ''='' # CHR 0x22 # escape_value v @ [CHR 0x22]" "meta_written m"
  using assms by (auto simp: good_meta_def extension_text_def meta_value_def meta_written_def cstr_id)

lemma scan_extension:
  assumes "good_meta m" and "0 \<le> i"
  shows "scan_header (extension_text m @ rest) i 0 e cr =
    scan_header rest (i + int (length (extension_text m))) 0 (if e = -1 then i else e) cr"
proof -
  obtain k v where m: "CHR 0x5C \<notin> set v" "\<forall>c \<in> set k. header_plain c"
      "extension_text m = CHR '';'' # k @ CHR ''='' # CHR 0x22 # escape_value v @ [CHR 0x22]"
    using good_metaE [OF assms(1)] by metis
  let ?e = "if e = -1 then i else e"
  have e: "?e \<noteq> -1" using assms(2) by auto
  let ?rest = "CHR 0x22 # escape_value v @ CHR 0x22 # rest"
  have "scan_header (extension_text m @ rest) i 0 e cr = scan_header ((k @ [CHR ''='']) @ ?rest) (i + 1) 0 ?e cr"
    using e by (auto simp: m(3) CR_def LF_def)
  also have "\<dots> = scan_header ?rest (i + 1 + int (length (k @ [CHR ''='']))) 0 ?e cr"
    by (rule scan_plain) (use m(2) e in \<open>auto simp: header_plain_def CR_def LF_def\<close>)
  also have "\<dots> = scan_header (escape_value v @ CHR 0x22 # rest) (i + 1 + int (length (k @ [CHR ''=''])) + 1) 1 ?e cr"
    by simp
  also have "\<dots> = scan_header rest (i + 1 + int (length (k @ [CHR ''=''])) + 1 + int (length (escape_value v)) + 1) 0 ?e cr"
    by (simp add: scan_escaped [OF m(1), unfolded One_nat_def])
  also have "i + 1 + int (length (k @ [CHR ''=''])) + 1 + int (length (escape_value v)) + 1 = i + int (length (extension_text m))"
    by (simp add: m(3))
  finally show ?thesis .
qed

lemma good_metas_written: "\<forall>m \<in> set ms. good_meta m \<Longrightarrow> extensions_text ms = concat (map extension_text ms)"
  by (induction ms) (auto elim!: good_metaE)

lemma scan_extensions:
  assumes "\<forall>m \<in> set ms. good_meta m" and "0 \<le> i"
  shows "scan_header (concat (map extension_text ms) @ rest) i 0 e cr =
    scan_header rest (i + int (length (concat (map extension_text ms)))) 0 (if e = -1 \<and> ms \<noteq> [] then i else e) cr"
  using assms
proof (induction ms arbitrary: i e)
  case (Cons m ms)
  have "scan_header (concat (map extension_text (m # ms)) @ rest) i 0 e cr =
      scan_header (concat (map extension_text ms) @ rest) (i + int (length (extension_text m))) 0 (if e = -1 then i else e) cr"
    using scan_extension [of m i "concat (map extension_text ms) @ rest" e cr] Cons.prems by simp
  then show ?case using Cons.IH [of "i + int (length (extension_text m))" "if e = -1 then i else e"] Cons.prems
    by (simp add: add.assoc)
qed simp

subsection \<open>The length\<close>

definition hexdig :: "nat \<Rightarrow> char" where
  "hexdig n = ''0123456789abcdef'' ! n"

lemma hexdig_facts:
  assumes "n < 16"
  shows "xval (hexdig n) = Some n \<and> hexdig n \<noteq> NUL \<and> \<not> is_space (hexdig n) \<and> hexdig n \<noteq> CHR ''-'' \<and>
    hexdig n \<noteq> CHR ''+'' \<and> hexdig n \<noteq> CHR ''x'' \<and> hexdig n \<noteq> CHR ''X'' \<and> hexdig n \<noteq> CHR '';'' \<and> header_plain (hexdig n)"
proof -
  have "\<forall>n \<in> set [0..<16]. xval (hexdig n) = Some n \<and> hexdig n \<noteq> NUL \<and> \<not> is_space (hexdig n) \<and> hexdig n \<noteq> CHR ''-'' \<and>
    hexdig n \<noteq> CHR ''+'' \<and> hexdig n \<noteq> CHR ''x'' \<and> hexdig n \<noteq> CHR ''X'' \<and> hexdig n \<noteq> CHR '';'' \<and> header_plain (hexdig n)"
    by code_simp
  then show ?thesis using assms by simp
qed

lemma hex_digits_ind: "hex_digits n = (if n < 16 then [hexdig n] else hex_digits (n div 16) @ [hexdig (n mod 16)])"
  by (subst hex_digits.simps) (simp add: hexdig_def)

lemma hex_digits_set: "c \<in> set (hex_digits n) \<Longrightarrow> \<exists>d < 16. c = hexdig d"
proof (induction n rule: hex_digits.induct)
  case (1 n)
  show ?case
  proof (cases "n < 16")
    case True
    then show ?thesis using "1.prems" by (subst (asm) hex_digits_ind) auto
  next
    case False
    then have "c \<in> set (hex_digits (n div 16)) \<or> c = hexdig (n mod 16)"
      using "1.prems" by (subst (asm) hex_digits_ind) auto
    then show ?thesis using "1.IH" [OF False] by (metis mod_less_divisor zero_less_numeral)
  qed
qed

lemma hex_digits_ne: "hex_digits n \<noteq> []"
  by (subst hex_digits_ind) simp

lemma hex_value_snoc: "hex_value (ds @ [c]) = 16 * hex_value ds + the (xval c)"
  by (simp add: hex_value_def)

lemma hex_value_digits: "hex_value (hex_digits n) = n"
proof (induction n rule: hex_digits.induct)
  case (1 n)
  show ?case
  proof (cases "n < 16")
    case True
    then show ?thesis using hexdig_facts [of n] by (subst hex_digits_ind) (simp add: hex_value_def)
  next
    case False
    have "hex_value (hex_digits n) = 16 * hex_value (hex_digits (n div 16)) + n mod 16"
      using False hexdig_facts [of "n mod 16"] by (subst hex_digits_ind) (simp add: hex_value_snoc)
    then show ?thesis using "1.IH" [OF False] by simp
  qed
qed

lemma hex_digits_facts:
  assumes "c \<in> set (hex_digits n)"
  shows "xval c \<noteq> None" "c \<noteq> NUL" "\<not> is_space c" "c \<noteq> CHR ''-''" "c \<noteq> CHR ''+''" "c \<noteq> CHR ''x''" "c \<noteq> CHR ''X''"
    "c \<noteq> CHR '';''" "header_plain c"
  using hex_digits_set [OF assms] hexdig_facts by fastforce+

lemma sscanf_hex_digits:
  assumes "n < 2 ^ 64"
  shows "sscanf_llx (hex_digits n @ NUL # t) = Some (of_nat n)"
proof -
  let ?h = "hex_digits n"
  obtain c cs where h: "?h = c # cs" using hex_digits_ne by (cases ?h) auto
  have c: "cstr (?h @ NUL # t) = ?h"
    using hex_digits_facts(2) by (intro cstr_append) blast
  have sp: "dropWhile is_space ?h = ?h"
    using hex_digits_facts(3) [of c n] h by simp
  have sg: "c \<noteq> CHR ''-''" "c \<noteq> CHR ''+''" using hex_digits_facts(4,5) [of c n] h by simp_all
  have x: "strip_0x ?h = ?h"
    using hex_digits_facts(6,7) [of _ n] h by (auto simp: strip_0x_def split: list.splits)
  have d: "takeWhile (\<lambda>c. xval c \<noteq> None) ?h = ?h"
    using hex_digits_facts(1) by (intro takeWhile_eq_all_conv [THEN iffD2]) blast
  have e: "(case ?h of [] \<Rightarrow> ?h | c # cs \<Rightarrow> if c = CHR ''-'' \<or> c = CHR ''+'' then cs else ?h) = ?h"
    "(case ?h of [] \<Rightarrow> False | c # cs \<Rightarrow> c = CHR ''-'') = False"
    using sg by (simp_all add: h)
  then show ?thesis
    unfolding sscanf_llx_def Let_def c sp e x d hex_value_digits using assms hex_digits_ne [of n] by simp
qed

subsection \<open>The extensions\<close>

lemma value_span_escaped:
  assumes "CHR 0x5C \<notin> set v"
  shows "value_span (escape_value v @ CHR 0x22 # rest) 1 = Suc (length (escape_value v))"
  using assms by (induction v) auto

lemma value_decode_escaped:
  assumes "CHR 0x5C \<notin> set v"
  shows "value_decode (escape_value v @ [CHR 0x22]) 1 after = Some v"
  using assms by (induction v) auto

lemma takeWhile_stop: "c \<notin> set a \<Longrightarrow> takeWhile (\<lambda>x. x \<noteq> c) (a @ c # b) = a"
  by (induction a) auto

lemma take_length_add: "take (length xs + n) (xs @ ys) = xs @ take n ys"
  by simp

lemma read_extension_good:
  assumes "good_meta m" and "\<forall>n. mem n" and "len = length (extension_text m) + n - 1" and "n \<le> length rest"
  shows "read_extension mem (tl (extension_text m) @ rest) len = Some (m, Some (rest, n))"
proof -
  obtain k v where m: "m = \<lparr>mkey = Some k, mvalue = Some v, mvalue_len = length v\<rparr>" "CHR 0x5C \<notin> set v" "CHR ''='' \<notin> set k"
      "extension_text m = CHR '';'' # k @ CHR ''='' # CHR 0x22 # escape_value v @ [CHR 0x22]"
    using good_metaE [OF assms(1)] by metis
  let ?q = "CHR 0x22 # escape_value v @ [CHR 0x22]"
  have p: "tl (extension_text m) @ rest = k @ CHR ''='' # ?q @ rest" by (simp add: m(4))
  have len: "len = length k + 1 + length ?q + n" using assms(3) by (simp add: m(4))
  have "length (k @ CHR ''='' # ?q) + n = len" using len by simp
  then have "take len (k @ CHR ''='' # ?q @ rest) = k @ CHR ''='' # ?q @ take n rest"
    using take_length_add [of "k @ CHR ''='' # ?q" n rest] by simp
  then have key: "takeWhile (\<lambda>c. c \<noteq> CHR ''='') (take len (k @ CHR ''='' # ?q @ rest)) = k"
    using takeWhile_stop [OF m(3)] by simp
  have vs: "value_span (?q @ take n rest) 0 = length ?q"
    using value_span_escaped [OF m(2), of "take n rest"] by simp
  have dec: "value_decode ?q 0 rest = Some v"
    using value_decode_escaped [OF m(2), of rest] by simp
  have "len - length k - 1 = length ?q + n" "len - length k \<noteq> 0" using len by simp_all
  moreover have "take (length ?q + n) (?q @ rest) = ?q @ take n rest" by simp
  moreover have "drop 1 (drop (length k) (k @ CHR ''='' # ?q @ rest)) = ?q @ rest"
    "(drop (length k) (k @ CHR ''='' # ?q @ rest)) ! 0 = CHR ''=''" by simp_all
  moreover have "take (length ?q) (?q @ rest) = ?q" "drop (length ?q) (?q @ rest) = rest" by simp_all
  moreover have "length ?q + n \<noteq> 0" "length ?q + n - length ?q = n" by simp_all
  ultimately show ?thesis
    unfolding read_extension_def p key Let_def using assms(2) vs dec m(1)
    by (simp only: if_True if_False simp_thms bind.bind_lunit httpp_meta_t.update_convs)
qed

lemma read_extensions_good:
  assumes "\<forall>m \<in> set ms. good_meta m" and "\<forall>n. mem n"
  shows "read_extensions mem (concat (map extension_text ms) @ rest) (length (concat (map extension_text ms))) = Some ms"
  using assms(1)
proof (induction ms)
  case Nil
  then show ?case by (subst read_extensions.simps) simp
next
  case (Cons m ms)
  let ?t = "concat (map extension_text ms)"
  obtain w where w: "extension_text m = CHR '';'' # w"
    using Cons.prems by (auto elim!: good_metaE)
  have "read_extension mem (w @ ?t @ rest) (length w + length ?t) = Some (m, Some (?t @ rest, length ?t))"
    using read_extension_good [of m mem "length w + length ?t" "length ?t" "?t @ rest"] Cons.prems assms(2) w by simp
  then show ?case
    using Cons by (subst read_extensions.simps) (simp add: w)
qed

subsection \<open>Good headers\<close>

text \<open>
  A header that announces \<open>n\<close> bytes and carries the extensions \<open>ms\<close>, which start at \<open>k\<close>.
\<close>

definition header_ok :: "string \<Rightarrow> nat \<Rightarrow> nat \<Rightarrow> httpp_meta_t list \<Rightarrow> bool" where
  "header_ok h k n ms \<longleftrightarrow> k \<le> length h \<and> n + 2 < 2 ^ 64 \<and>
     (\<forall>rest i. 0 \<le> i \<longrightarrow> scan0 (h @ CR # LF # rest) i =
        (if k < length h then i + int k else -1, i + int (length h), i + int (length h) + 1)) \<and>
     (\<forall>t. sscanf_llx (take k h @ NUL # t) = Some (of_nat n)) \<and>
     (\<forall>mem t. (\<forall>n. mem n) \<longrightarrow> (if k < length h then read_extensions mem (drop k h @ t) (length h - k) = Some ms else ms = []))"

lemma header_ok_written:
  assumes "\<forall>m \<in> set ms. good_meta m" and "n + 2 < 2 ^ 64"
  shows "header_ok (hex_digits n @ extensions_text ms) (length (hex_digits n)) n ms"
proof -
  let ?t = "concat (map extension_text ms)" and ?d = "hex_digits n"
  have t: "extensions_text ms = ?t" by (rule good_metas_written [OF assms(1)])
  have ne: "?t = [] \<longleftrightarrow> ms = []"
    using assms(1) by (cases ms) (auto elim!: good_metaE)
  have scan: "scan0 ((?d @ ?t) @ CR # LF # rest) i =
      (if ms \<noteq> [] then i + int (length ?d) else -1, i + int (length (?d @ ?t)), i + int (length (?d @ ?t)) + 1)"
    if "0 \<le> i" for i rest
  proof -
    have "scan0 ((?d @ ?t) @ CR # LF # rest) i = scan0 (?t @ CR # LF # rest) (i + int (length ?d))"
      using scan_plain [of ?d "-1" "?t @ CR # LF # rest" i "-1"] hex_digits_facts(8,9) [of _ n] by auto
    also have "\<dots> = scan_header (CR # LF # rest) (i + int (length ?d) + int (length ?t)) 0
        (if ms \<noteq> [] then i + int (length ?d) else -1) (-1)"
      using scan_extensions [OF assms(1), of "i + int (length ?d)" "CR # LF # rest" "-1" "-1"] that by simp
    finally show ?thesis by (simp add: CR_def LF_def add.assoc)
  qed
  show ?thesis
    unfolding header_ok_def t
    using scan assms(2) sscanf_hex_digits [of n] read_extensions_good [OF assms(1)] ne
    by (auto simp del: append_assoc)
qed

end
