(* ===== verification/Encoding_Read.thy ===== *)
theory Encoding_Read
  imports Encoding_Header
begin

section \<open>Reading a chunked stream in any fragmentation\<close>

text \<open>
  The reader against a backend that delivers a chunked stream in pieces of any size. The
  relation \<open>reading\<close> says what an object and the rest of the stream still stand for: some
  bytes and some meta data. Every read takes the bytes it returns from the front of these.
\<close>

subsection \<open>Streams\<close>

text \<open>A chunk: its header, where the extensions start in it, its body and its meta data.\<close>

record chunk =
  chead :: string
  cext :: nat
  cbody :: string
  cmeta :: "httpp_meta_t list"

definition chunk_ok :: "chunk \<Rightarrow> bool" where
  "chunk_ok c \<longleftrightarrow> header_ok (chead c) (cext c) (length (cbody c)) (cmeta c)"

definition chunk_text :: "chunk \<Rightarrow> string" where
  "chunk_text c = chead c @ [CR, LF] @ cbody c @ [CR, LF]"

text \<open>
  The rest of a stream from a header on: data chunks, then nothing nxt or a last chunk without a
  body and another line end (what the writer makes of a NULL buffer).
\<close>

fun stream_ok :: "chunk list \<Rightarrow> bool" where
  "stream_ok [] \<longleftrightarrow> True"
| "stream_ok (c # cs) \<longleftrightarrow> chunk_ok c \<and> stream_ok cs \<and> (cbody c = [] \<longrightarrow> cs = [])"

fun stream_text :: "chunk list \<Rightarrow> string" where
  "stream_text [] = []"
| "stream_text (c # cs) = chunk_text c @ (if cbody c = [] then [CR, LF] else []) @ stream_text cs"

definition stream_data :: "chunk list \<Rightarrow> string" where
  "stream_data cs = concat (map cbody cs)"

definition stream_meta :: "chunk list \<Rightarrow> httpp_meta_t list" where
  "stream_meta cs = concat (map cmeta cs)"

lemma stream_simps [simp]:
  "stream_data [] = []" "stream_data (c # cs) = cbody c @ stream_data cs"
  "stream_meta [] = []" "stream_meta (c # cs) = cmeta c @ stream_meta cs"
  by (simp_all add: stream_data_def stream_meta_def)

subsection \<open>Where a reader stands\<close>

definition raw_rest :: "httpp_encoding_t \<Rightarrow> string" where
  "raw_rest s = (case buf_read_raw s of None \<Rightarrow> [] | Some r \<Rightarrow> drop (buf_read_raw_offset s) r)"

definition raw_ok :: "httpp_encoding_t \<Rightarrow> bool" where
  "raw_ok s \<longleftrightarrow> (case buf_read_raw s of None \<Rightarrow> True
     | Some r \<Rightarrow> buf_read_raw_len s = length r \<and> buf_read_raw_offset s \<le> length r)"

inductive reading :: "httpp_encoding_t \<Rightarrow> string \<Rightarrow> string \<Rightarrow> httpp_meta_t list \<Rightarrow> bool" where
  body: "process s = Enc_Chunked \<Longrightarrow> bytes_till_eof s = -1 \<Longrightarrow> buf_read_raw s = None \<Longrightarrow> stream_ok cs \<Longrightarrow>
    length b + 2 < 2 ^ 64 \<Longrightarrow> read_bytes_till_header s = of_nat (length b + 2) \<Longrightarrow>
    reading s (b @ CR # LF # stream_text cs) (b @ stream_data cs) (stream_meta cs)"
| cr: "process s = Enc_Chunked \<Longrightarrow> bytes_till_eof s = -1 \<Longrightarrow> raw_ok s \<Longrightarrow> buf_read_raw s \<noteq> None \<Longrightarrow> stream_ok cs \<Longrightarrow>
    raw_rest s = [CR] \<Longrightarrow> read_bytes_till_header s = 2 \<Longrightarrow>
    reading s (LF # stream_text cs) (stream_data cs) (stream_meta cs)"
| header: "process s = Enc_Chunked \<Longrightarrow> bytes_till_eof s = -1 \<Longrightarrow> raw_ok s \<Longrightarrow> stream_ok cs \<Longrightarrow>
    raw_rest s @ rest = stream_text cs \<Longrightarrow> read_bytes_till_header s = 0 \<Longrightarrow>
    reading s rest (stream_data cs) (stream_meta cs)"
| last_crlf: "process s = Enc_Chunked \<Longrightarrow> bytes_till_eof s = 2 \<Longrightarrow> buf_read_raw s = None \<Longrightarrow>
    read_bytes_till_header s = 2 \<Longrightarrow> reading s [CR, LF, CR, LF] [] []"
| last_lf: "process s = Enc_Chunked \<Longrightarrow> bytes_till_eof s = 2 \<Longrightarrow> raw_ok s \<Longrightarrow> buf_read_raw s \<noteq> None \<Longrightarrow>
    raw_rest s = [CR] \<Longrightarrow> read_bytes_till_header s = 2 \<Longrightarrow> reading s [LF, CR, LF] [] []"
| last_end: "process s = Enc_Chunked \<Longrightarrow> bytes_till_eof s = 2 \<Longrightarrow> buf_read_raw s = None \<Longrightarrow>
    read_bytes_till_header s = 0 \<Longrightarrow> reading s [CR, LF] [] []"
| eof: "process s = Enc_Chunked \<Longrightarrow> bytes_till_eof s = 0 \<Longrightarrow> raw_ok s \<Longrightarrow> read_bytes_till_header s = 0 \<Longrightarrow>
    reading s rest [] []"

lemma new_reading:
  assumes "httpp_encoding_new mem ''chunked'' = Some s" and "stream_ok cs"
  shows "reading s (stream_text cs) (stream_data cs) (stream_meta cs)"
proof -
  have "strcasecmp ''chunked'' ''identity'' \<noteq> 0"
    by (simp add: strcasecmp_eq_0) code_simp
  then have "process s = Enc_Chunked" "bytes_till_eof s = -1" "buf_read_raw s = None" "read_bytes_till_header s = 0"
    using assms(1) by (auto simp: httpp_encoding_new_def Let_def split: if_splits)
  then show ?thesis using assms(2) by (intro header) (auto simp: raw_ok_def raw_rest_def)
qed

text \<open>The decoded bytes that wait for a reader.\<close>

definition decoded_rest :: "httpp_encoding_t \<Rightarrow> string" where
  "decoded_rest s = (case buf_read_decoded s of None \<Rightarrow> [] | Some d \<Rightarrow> drop (buf_read_decoded_offset s) d)"

definition decoded_ok :: "httpp_encoding_t \<Rightarrow> bool" where
  "decoded_ok s \<longleftrightarrow> (case buf_read_decoded s of None \<Rightarrow> True
     | Some d \<Rightarrow> buf_read_decoded_len s = length d \<and> buf_read_decoded_offset s \<le> length d)"

lemma reading_cong:
  assumes "reading s rest data ms" and "process s' = process s" and "bytes_till_eof s' = bytes_till_eof s"
    and "buf_read_raw s' = buf_read_raw s" and "buf_read_raw_offset s' = buf_read_raw_offset s"
    and "buf_read_raw_len s' = buf_read_raw_len s" and "read_bytes_till_header s' = read_bytes_till_header s"
  shows "reading s' rest data ms"
proof -
  have raw: "raw_ok s' = raw_ok s" "raw_rest s' = raw_rest s"
    using assms(4-6) by (simp_all add: raw_ok_def raw_rest_def split: option.splits)
  from assms(1) show ?thesis
  proof (cases rule: reading.cases)
    case (body cs b) then show ?thesis using assms reading.body [of s' cs b] by simp
  next
    case (cr cs) then show ?thesis using assms raw reading.cr [of s' cs] by simp
  next
    case (header cs) then show ?thesis using assms raw reading.header [of s' cs rest] by simp
  next
    case last_crlf then show ?thesis using assms reading.last_crlf [of s'] by simp
  next
    case last_lf then show ?thesis using assms raw reading.last_lf [of s'] by simp
  next
    case last_end then show ?thesis using assms reading.last_end [of s'] by simp
  next
    case eof then show ?thesis using assms raw reading.eof [of s' rest] by simp
  qed
qed

lemma reading_decoded [simp]:
  "reading (s\<lparr>buf_read_decoded := d, buf_read_decoded_offset := n, buf_read_decoded_len := m\<rparr>) rest data ms =
   reading s rest data ms"
proof
  assume "reading s rest data ms"
  from reading_cong [OF this] show "reading (s\<lparr>buf_read_decoded := d, buf_read_decoded_offset := n, buf_read_decoded_len := m\<rparr>) rest data ms"
    by simp
next
  assume "reading (s\<lparr>buf_read_decoded := d, buf_read_decoded_offset := n, buf_read_decoded_len := m\<rparr>) rest data ms"
  from reading_cong [OF this, of s] show "reading s rest data ms" by simp
qed

subsection \<open>Parsing a header\<close>

text \<open>What a call to \<open>chunked_header\<close> does to an object whose raw bytes start a stream.\<close>

lemma incomplete_header:
  assumes "raw_ok s" and "buf_read_raw s = Some r" and "header_ok h k n ms"
    and "raw_rest s @ nxt = h @ CR # LF # rest" and "length (raw_rest s) < length h + 2"
  shows "chunked_header mem s = Some (0, s)"
proof -
  let ?w = "raw_rest s" and ?i = "int (buf_read_raw_offset s)"
  obtain e cr lf where sc: "scan0 ?w ?i = (e, cr, lf)" by (metis surj_pair)
  have full: "scan0 (?w @ nxt) ?i = (if k < length h then ?i + int k else -1, ?i + int (length h), ?i + int (length h) + 1)"
    using assms(3) unfolding assms(4) header_ok_def by simp
  have "lf = -1"
  proof (rule ccontr)
    assume ne: "lf \<noteq> -1"
    from scan_found_append [OF sc ne, of nxt] full have "lf = ?i + int (length h) + 1" by simp
    with scan_lf_range [OF sc ne] assms(5) show False by simp
  qed
  moreover have "drop (buf_read_raw_offset s) (take (buf_read_raw_len s) r) = ?w"
    using assms(1,2) by (simp add: raw_ok_def raw_rest_def)
  ultimately show ?thesis using sc assms(2) by (simp add: chunked_header_def Let_def)
qed

lemma complete_header:
  assumes "raw_ok s" and "buf_read_raw s = Some r" and "header_ok h k n ms"
    and "raw_rest s = h @ CR # LF # y" and "\<forall>n. mem n"
  shows "\<exists>r'. chunked_header mem s = Some (chunked_body mem (s\<lparr>meta_read := meta_read s @ ms, buf_read_raw := Some r',
       buf_read_raw_offset := buf_read_raw_offset s + length h + 2\<rparr>) r' (of_nat n)) \<and>
     length r' = length r \<and> drop (buf_read_raw_offset s + length h + 2) r' = y"
proof -
  let ?o = "buf_read_raw_offset s"
  let ?c = "?o + k"
  let ?r = "r[?c := NUL]"
  have w: "drop ?o (take (buf_read_raw_len s) r) = h @ CR # LF # y" "drop ?o r = h @ CR # LF # y"
    using assms(1,2,4) by (simp_all add: raw_ok_def raw_rest_def)
  have k: "k \<le> length h" using assms(3) by (simp add: header_ok_def)
  have sc: "scan0 (h @ CR # LF # y) (int ?o) = (if k < length h then int ?o + int k else -1, int ?o + int (length h), int ?o + int (length h) + 1)"
    using assms(3) by (simp add: header_ok_def)
  have ex: "(if k < length h then read_extensions mem (drop ?c r) (length h - k) else Some []) = Some ms"
  proof (cases "k < length h")
    case True
    have "drop ?c r = drop k (drop ?o r)" by (simp add: add.commute)
    also have "\<dots> = drop k h @ CR # LF # y" using k by (simp add: w(2))
    finally show ?thesis using True assms(3,5) unfolding header_ok_def by simp
  next
    case False
    then show ?thesis using assms(3,5) unfolding header_ok_def by auto
  qed
  have len: "?o + length h + 2 + length y = length r"
    using arg_cong [OF w(2), of length] by (cases "?o \<le> length r") auto
  then have cl: "?c < length r" using k by simp
  have "drop ?o ?r = (drop ?o r)[k := NUL]" by (simp add: drop_update_swap)
  also have "\<dots> = take k h @ NUL # drop (Suc k) (h @ CR # LF # y)"
    unfolding w(2) using k by (subst upd_conv_take_nth_drop) auto
  finally have ss: "sscanf_llx (drop ?o ?r) = Some (of_nat n)"
    using assms(3) by (simp add: header_ok_def)
  have "drop (?o + length h + 2) ?r = drop (?o + length h + 2) r"
    using k by simp
  also have "\<dots> = drop (length h + 2) (drop ?o r)" by (simp add: algebra_simps)
  finally have y: "drop (?o + length h + 2) ?r = y" by (simp add: w(2))
  have n: "nat (int ?o + int (length h) + 1) + 1 = ?o + length h + 2" "nat (int ?o + int k) = ?c"
    "nat (int ?o + int (length h) - (int ?o + int k)) = length h - k"
    "int ?o + int (length h) + 1 \<noteq> -1" "int ?o + int k \<noteq> -1" "\<not> int ?o + int k < 0" by simp_all
  have "chunked_header mem s = Some (chunked_body mem (s\<lparr>meta_read := meta_read s @ ms, buf_read_raw := Some ?r,
       buf_read_raw_offset := ?o + length h + 2\<rparr>) ?r (of_nat n))"
  proof (cases "k < length h")
    case True
    then show ?thesis using ex
      unfolding chunked_header_def assms(2) bind.bind_lunit Let_def w(1) sc prod.case if_P [OF True]
      by (simp only: n ss if_True if_False simp_thms bind.bind_lunit option.case httpp_encoding_t.update_convs)
  next
    case False
    then have "k = length h" "ms = []" using k ex by simp_all
    then show ?thesis using n ss
      unfolding chunked_header_def assms(2) bind.bind_lunit Let_def w(1) sc prod.case if_not_P [OF False]
      by simp
  qed
  then show ?thesis using y by (intro exI [of _ ?r]) simp
qed

subsection \<open>The body that follows\<close>

lemma unat64: "n < 2 ^ 64 \<Longrightarrow> unat (of_nat n :: 64 word) = n"
  by (simp add: unat_of_nat)

text \<open>An object whose raw buffer stands behind a header.\<close>

definition behind_header :: "httpp_encoding_t \<Rightarrow> string \<Rightarrow> string \<Rightarrow> bool" where
  "behind_header s r y \<longleftrightarrow> process s = Enc_Chunked \<and> bytes_till_eof s = -1 \<and> buf_read_raw s = Some r \<and>
     buf_read_raw_len s = length r \<and> buf_read_raw_offset s \<le> length r \<and> drop (buf_read_raw_offset s) r = y \<and>
     read_bytes_till_header s = 0 \<and> buf_read_decoded s = None"

lemma behind_headerD:
  assumes "behind_header s r y"
  shows "buf_read_raw_len s - buf_read_raw_offset s = length y" "buf_read_raw_offset s = buf_read_raw_len s \<longleftrightarrow> y = []"
    "buf_read_raw_offset s + length y = length r" "buf_read_raw_len s = length r"
  using assms by (auto simp: behind_header_def)

lemma append_eq_longer: "y @ r = b @ c \<Longrightarrow> length y \<le> length b \<Longrightarrow> \<exists>b2. b = y @ b2 \<and> r = b2 @ c"
  by (metis append_eq_append_conv_if append_take_drop_id append_eq_conv_conj)

lemma body_data:
  assumes s: "behind_header s r y" and "b \<noteq> []" and n: "length b + 2 < 2 ^ 64" and cs: "stream_ok cs"
    and y: "y @ rest = b @ CR # LF # stream_text cs" and mem: "\<forall>n. mem n"
  shows "\<exists>s' data. chunked_body mem s r (of_nat (length b)) = (0, s') \<and> reading s' rest data (stream_meta cs) \<and>
    decoded_rest s' @ data = b @ stream_data cs \<and> decoded_ok s' \<and> meta_read s' = meta_read s"
proof -
  note sf = s [unfolded behind_header_def]
  note d = behind_headerD [OF s]
  have u: "unat (of_nat (length b) :: 64 word) = length b" using n by (intro unat64) simp
  then have nz: "(of_nat (length b) :: 64 word) \<noteq> 0" using assms(2) by (metis length_0_conv unat_0)
  consider "y = []" | "y \<noteq> []" "length y \<le> length b" | "length y > length b" by force
  then show ?thesis
  proof cases
    case 1
    let ?s = "(free_raw s)\<lparr>read_bytes_till_header := of_nat (length b) + 2\<rparr>"
    have "chunked_body mem s r (of_nat (length b)) = (0, ?s)"
      using 1 nz d(2) by (simp add: chunked_body_def Let_def)
    moreover have "reading ?s (b @ CR # LF # stream_text cs) (b @ stream_data cs) (stream_meta cs)"
      using sf n cs by (intro reading.body) (simp_all add: free_raw_def)
    moreover have "rest = b @ CR # LF # stream_text cs" using y 1 by simp
    ultimately show ?thesis using sf by (simp add: decoded_rest_def decoded_ok_def free_raw_def)
  next
    case 2
    then obtain b2 where b2: "b = y @ b2" "rest = b2 @ CR # LF # stream_text cs"
      using append_eq_longer [OF y] by auto
    let ?s = "(free_raw s)\<lparr>buf_read_decoded := Some r, buf_read_decoded_offset := buf_read_raw_offset s,
              buf_read_decoded_len := buf_read_raw_len s,
              read_bytes_till_header := of_nat (length b) + 2 - of_nat (length y)\<rparr>"
    have "chunked_body mem s r (of_nat (length b)) = (0, ?s)"
      using 2 nz d u by (simp add: chunked_body_def Let_def)
    moreover have "reading ?s (b2 @ CR # LF # stream_text cs) (b2 @ stream_data cs) (stream_meta cs)"
      using sf n cs b2(1) by (intro reading.body) (simp_all add: free_raw_def)
    ultimately show ?thesis using sf b2 by (simp add: decoded_rest_def decoded_ok_def free_raw_def)
  next
    case 3
    then have lt: "\<not> length y \<le> length b" "y \<noteq> []" by auto
    from append_eq_longer [OF y [symmetric]] 3 obtain y2 where y2: "y = b @ y2" "CR # LF # stream_text cs = y2 @ rest"
      by auto
    have y2n: "y2 \<noteq> []" using y2(1) 3 by auto
    let ?o = "buf_read_raw_offset s + length b"
    let ?s = "s\<lparr>buf_read_decoded := Some (take (length b) y), buf_read_decoded_offset := 0,
               buf_read_decoded_len := length b, buf_read_raw_offset := ?o, read_bytes_till_header := 2\<rparr>"
    have have2: "buf_read_raw_len s - ?o = length y2" using d(1) y2(1) by simp
    have tk: "take (length b) y = b" by (simp add: y2(1))
    have dr: "drop ?o r = y2" using sf y2(1) by (metis add.commute append_eq_conv_conj drop_drop)
    have body: "chunked_body mem s r (of_nat (length b)) =
      (if length y2 \<ge> 2 then
         (let s = ?s\<lparr>buf_read_raw_offset := ?o + 2, read_bytes_till_header := 0, bytes_till_eof := -1\<rparr> in
          (0, if length y2 - 2 = 0 then free_raw s else s))
       else (0, ?s))"
      using lt nz d u mem sf have2 by (simp add: chunked_body_def Let_def)
    show ?thesis
    proof (cases "length y2 \<ge> 2")
      case False
      then obtain c where "y2 = [c]" using y2n by (cases y2) (auto simp: Suc_le_eq)
      then have c: "y2 = [CR]" "rest = LF # stream_text cs" using y2(2) by auto
      have "reading ?s (LF # stream_text cs) (stream_data cs) (stream_meta cs)"
        using sf cs dr c(1) d(3) y2(1) by (intro reading.cr) (simp_all add: raw_ok_def raw_rest_def)
      then show ?thesis using body False c(2) tk
        by (intro exI [of _ ?s] exI [of _ "stream_data cs"]) (simp add: decoded_rest_def decoded_ok_def)
    next
      case True
      then obtain y3 where y3: "y2 = CR # LF # y3" "stream_text cs = y3 @ rest"
        using y2(2) by (cases y2; cases "tl y2") auto
      let ?s1 = "?s\<lparr>buf_read_raw_offset := ?o + 2, read_bytes_till_header := 0, bytes_till_eof := -1\<rparr>"
      let ?s2 = "if length y2 - 2 = 0 then free_raw ?s1 else ?s1"
      have "drop (?o + 2) r = drop 2 (drop ?o r)" by (simp add: add.commute)
      then have dr3: "drop (?o + 2) r = y3" by (simp add: dr y3(1))
      have "reading ?s2 rest (stream_data cs) (stream_meta cs)"
        using sf cs dr3 d(3) y2(1) y3
        by (intro reading.header) (auto simp: raw_ok_def raw_rest_def free_raw_def)
      moreover have "chunked_body mem s r (of_nat (length b)) = (0, ?s2)"
        using body True by (simp add: Let_def)
      ultimately show ?thesis using tk
        by (intro exI [of _ ?s2] exI [of _ "stream_data cs"]) (simp add: decoded_rest_def decoded_ok_def free_raw_def)
    qed
  qed
qed

lemma body_last:
  assumes s: "behind_header s r y" and y: "y @ rest = [CR, LF, CR, LF]" and mem: "\<forall>n. mem n"
  shows "\<exists>s'. chunked_body mem s r 0 = (0, s') \<and> reading s' rest [] [] \<and>
    decoded_rest s' = [] \<and> decoded_ok s' \<and> meta_read s' = meta_read s"
proof -
  note sf = s [unfolded behind_header_def]
  note d = behind_headerD [OF s]
  show ?thesis
  proof (cases y)
    case Nil
    let ?s = "(free_raw (s\<lparr>bytes_till_eof := 2\<rparr>))\<lparr>read_bytes_till_header := 2\<rparr>"
    have "chunked_body mem s r 0 = (0, ?s)"
      using Nil d(2) by (simp add: chunked_body_def Let_def)
    moreover have "reading ?s [CR, LF, CR, LF] [] []"
      using sf by (intro reading.last_crlf) (simp_all add: free_raw_def)
    ultimately show ?thesis using sf y Nil by (simp add: decoded_rest_def decoded_ok_def free_raw_def)
  next
    case (Cons c w)
    let ?s = "s\<lparr>bytes_till_eof := 2, buf_read_decoded := Some [], buf_read_decoded_offset := 0,
               buf_read_decoded_len := 0, read_bytes_till_header := 2\<rparr>"
    let ?s1 = "?s\<lparr>buf_read_raw_offset := buf_read_raw_offset s + 2, read_bytes_till_header := 0, bytes_till_eof := 0\<rparr>"
    let ?s2 = "if buf_read_raw_len s - (buf_read_raw_offset s + 2) = 0 then free_raw ?s1 else ?s1"
    have ne: "buf_read_raw_offset s \<noteq> buf_read_raw_len s" using d(2) Cons by simp
    have body: "chunked_body mem s r 0 = (0, if length y \<ge> 2 then ?s2 else ?s)"
      using ne Cons d mem sf by (simp add: chunked_body_def Let_def)
    show ?thesis
    proof (cases w)
      case Nil
      then have "reading ?s [LF, CR, LF] [] []"
        using sf Cons y d(3) by (intro reading.last_lf) (simp_all add: raw_ok_def raw_rest_def)
      moreover have "rest = [LF, CR, LF]" using y Cons Nil by simp
      ultimately show ?thesis using body Cons Nil
        by (intro exI [of _ ?s]) (simp add: decoded_rest_def decoded_ok_def)
    next
      case (Cons c' w')
      have "reading ?s2 rest [] []"
        using sf d(3,4) \<open>y = c # w\<close> Cons by (intro reading.eof) (auto simp: free_raw_def raw_ok_def)
      then show ?thesis using body \<open>y = c # w\<close> Cons
        by (intro exI [of _ ?s2]) (simp add: decoded_rest_def decoded_ok_def free_raw_def)
    qed
  qed
qed

end
