(* ===== verification/Encoding_Stream.thy ===== *)
theory Encoding_Stream
  imports Encoding_Read
begin

section \<open>The reader over a byte source\<close>

text \<open>
  The interface of a backend that delivers a stream of bytes, and the reader as its client:
  each call takes from the stream, and what it returns is what the stream stands for.
\<close>

subsection \<open>Headers in the buffer\<close>

lemma header_cr_only:
  assumes "raw_ok s" and "buf_read_raw s = Some r" and "raw_rest s = [CR]"
  shows "chunked_header mem s = Some (0, s)"
proof -
  have "drop (buf_read_raw_offset s) (take (buf_read_raw_len s) r) = [CR]"
    using assms by (simp add: raw_ok_def raw_rest_def)
  then show ?thesis using assms(2) by (simp add: chunked_header_def Let_def CR_def)
qed

lemma header_step:
  assumes raw: "raw_ok s" "buf_read_raw s = Some r" "raw_rest s \<noteq> []"
    and st: "process s = Enc_Chunked" "bytes_till_eof s = -1" "read_bytes_till_header s = 0" "buf_read_decoded s = None"
    and cs: "stream_ok cs" "raw_rest s @ rest = stream_text cs" and mem: "\<forall>n. mem n"
  shows "\<exists>s' data ms. chunked_header mem s = Some (0, s') \<and> reading s' rest data ms \<and>
    decoded_rest s' @ data = stream_data cs \<and> decoded_ok s' \<and> meta_read s' @ ms = meta_read s @ stream_meta cs"
proof -
  obtain c cs' where c: "cs = c # cs'" using cs(2) raw(3) by (cases cs) auto
  let ?h = "chead c" and ?b = "cbody c"
  have ok: "header_ok ?h (cext c) (length ?b) (cmeta c)" and n: "length ?b + 2 < 2 ^ 64"
    using cs(1) c by (auto simp: chunk_ok_def header_ok_def)
  let ?tail = "?b @ CR # LF # (if ?b = [] then [CR, LF] else []) @ stream_text cs'"
  have tx: "raw_rest s @ rest = ?h @ CR # LF # ?tail"
    using cs(2) by (simp add: c chunk_text_def)
  show ?thesis
  proof (cases "length (raw_rest s) < length ?h + 2")
    case True
    have "reading s rest (stream_data cs) (stream_meta cs)"
      by (rule reading.header [OF st(1,2) raw(1) cs st(3)])
    then show ?thesis using incomplete_header [OF raw(1,2) ok tx True] st(4)
      by (intro exI [of _ s]) (auto simp: decoded_rest_def decoded_ok_def)
  next
    case False
    have "(?h @ [CR, LF]) @ ?tail = raw_rest s @ rest" using tx by simp
    from append_eq_longer [OF this] False obtain y where y: "raw_rest s = ?h @ CR # LF # y" "?tail = y @ rest"
      by auto
    obtain r' where r': "chunked_header mem s = Some (chunked_body mem (s\<lparr>meta_read := meta_read s @ cmeta c,
        buf_read_raw := Some r', buf_read_raw_offset := buf_read_raw_offset s + length ?h + 2\<rparr>) r' (of_nat (length ?b)))"
      "length r' = length r" "drop (buf_read_raw_offset s + length ?h + 2) r' = y"
      using complete_header [OF raw(1,2) ok y(1) mem] by blast
    let ?s = "s\<lparr>meta_read := meta_read s @ cmeta c, buf_read_raw := Some r',
      buf_read_raw_offset := buf_read_raw_offset s + length ?h + 2\<rparr>"
    have rr: "drop (buf_read_raw_offset s) r = ?h @ CR # LF # y" "buf_read_raw_len s = length r"
      "buf_read_raw_offset s \<le> length r"
      using raw y(1) by (simp_all add: raw_ok_def raw_rest_def)
    have "buf_read_raw_offset s + length ?h + 2 \<le> length r"
      using arg_cong [OF rr(1), of length] rr(3) by simp
    then have behind: "behind_header ?s r' y"
      using st r'(2,3) rr by (simp add: behind_header_def)
    show ?thesis
    proof (cases "?b = []")
      case True
      then have "cs' = []" using cs(1) c by simp
      then have "y @ rest = [CR, LF, CR, LF]" using y(2) True by simp
      from body_last [OF behind this mem] show ?thesis
        using r'(1) True c \<open>cs' = []\<close> by (auto simp: decoded_rest_def)
    next
      case b: False
      have "stream_ok cs'" "y @ rest = ?b @ CR # LF # stream_text cs'"
        using cs(1) c y(2) b by simp_all
      from body_data [OF behind b n this mem] show ?thesis
        using r'(1) c by auto
    qed
  qed
qed

subsection \<open>Byte sources\<close>

locale byte_source =
  fixes cb :: "'u read_cb" and remaining :: "'u \<Rightarrow> string"
  assumes source: "cb u n = (ret, bytes, u') \<Longrightarrow>
    -1 \<le> ret \<and> ret \<le> int n \<and> length bytes = nat ret \<and> remaining u = bytes @ remaining u'"
begin

lemma call: "\<exists>ret bytes u'. cb u n = (ret, bytes, u') \<and> call_read cb u n = Some (ret, bytes, u') \<and>
    -1 \<le> ret \<and> ret \<le> int n \<and> length bytes = nat ret \<and> remaining u = bytes @ remaining u'"
proof -
  obtain ret bytes u' where c: "cb u n = (ret, bytes, u')" by (metis surj_pair)
  then show ?thesis using source [OF c] by (simp add: call_read_def)
qed

text \<open>The stream advanced, or a call of the backend gave nothing.\<close>

definition advanced :: "'u \<Rightarrow> 'u \<Rightarrow> bool" where
  "advanced u u' \<longleftrightarrow> remaining u' \<noteq> remaining u \<or> (\<exists>n. fst (cb u n) < 1)"

text \<open>The object after a fill that got the bytes \<open>x\<close>.\<close>

definition filled :: "httpp_encoding_t \<Rightarrow> string \<Rightarrow> httpp_encoding_t \<Rightarrow> bool" where
  "filled s x s' \<longleftrightarrow> raw_ok s' \<and> buf_read_raw s' \<noteq> None \<and> raw_rest s' = raw_rest s @ x \<and> x \<noteq> [] \<and>
     process s' = process s \<and> bytes_till_eof s' = bytes_till_eof s \<and>
     read_bytes_till_header s' = read_bytes_till_header s \<and> buf_read_decoded s' = buf_read_decoded s \<and>
     meta_read s' = meta_read s"

lemma fill:
  assumes "raw_ok s" and mem: "\<forall>n. mem n"
  shows "(\<exists>ret s' u'. chunked_fill mem s cb u = Some (Inl (ret, s', u')) \<and> -1 \<le> ret \<and> ret < 1 \<and>
      remaining u' = remaining u \<and> (\<exists>n. fst (cb u n) < 1) \<and> meta_read s' = meta_read s \<and>
      buf_read_decoded s' = buf_read_decoded s \<and>
      (\<forall>rest data ms. reading s rest data ms \<longrightarrow> reading s' rest data ms)) \<or>
    (\<exists>s' u' x. chunked_fill mem s cb u = Some (Inr (s', u')) \<and> filled s x s' \<and> remaining u = x @ remaining u' \<and>
      int (length x) \<le> (if bytes_till_eof s = -1 then 1024 else int (nat (bytes_till_eof s))))"
proof -
  let ?n = "if bytes_till_eof s \<noteq> -1 then nat (bytes_till_eof s) else 1024"
  let ?r = "case buf_read_raw s of Some r \<Rightarrow> r | None \<Rightarrow> []"
  let ?s = "case buf_read_raw s of Some r \<Rightarrow> s | None \<Rightarrow> s\<lparr>buf_read_raw_offset := 0, buf_read_raw_len := 0\<rparr>"
  obtain ret x u' where c: "cb u ?n = (ret, x, u')" "call_read cb u ?n = Some (ret, x, u')" "-1 \<le> ret" "ret \<le> int ?n"
      "length x = nat ret" "remaining u = x @ remaining u'"
    using call [of u ?n] by blast
  have r: "raw_ok ?s" "raw_rest ?s = raw_rest s" "buf_read_raw_len ?s = length ?r" "process ?s = process s"
    "bytes_till_eof ?s = bytes_till_eof s" "read_bytes_till_header ?s = read_bytes_till_header s"
    "buf_read_decoded ?s = buf_read_decoded s" "meta_read ?s = meta_read s"
    "buf_read_raw ?s = buf_read_raw s" "buf_read_raw_offset ?s \<le> length ?r" "drop (buf_read_raw_offset ?s) ?r = raw_rest s"
    using assms(1) by (simp_all add: raw_ok_def raw_rest_def split: option.splits)
  show ?thesis
  proof (cases "ret < 1")
    case True
    let ?s' = "if buf_read_raw_len ?s = 0 then ?s\<lparr>buf_read_raw := None\<rparr> else ?s\<lparr>buf_read_raw := Some ?r\<rparr>"
    have f: "chunked_fill mem s cb u = Some (Inl (ret, ?s', u'))"
      using True mem c(2) r(9) by (simp add: chunked_fill_def Let_def)
    have same: "remaining u' = remaining u" using True c(5,6) by simp
    have keep: "raw_ok ?s'" "raw_rest ?s' = raw_rest s" "buf_read_raw s = None \<Longrightarrow> buf_read_raw ?s' = None"
      "raw_rest s \<noteq> [] \<Longrightarrow> buf_read_raw ?s' \<noteq> None" "process ?s' = process s" "bytes_till_eof ?s' = bytes_till_eof s"
      "read_bytes_till_header ?s' = read_bytes_till_header s" "meta_read ?s' = meta_read s"
      "buf_read_decoded ?s' = buf_read_decoded s"
      using assms(1) by (auto simp: raw_ok_def raw_rest_def split: option.splits)
    have "reading ?s' rest data ms" if "reading s rest data ms" for rest data ms
      using that
    proof (cases rule: reading.cases)
      case (body cs b) then show ?thesis using keep reading.body [of ?s' cs b] by simp
    next
      case (cr cs) then show ?thesis using keep reading.cr [of ?s' cs] by simp
    next
      case (header cs) then show ?thesis using keep reading.header [of ?s' cs rest] by simp
    next
      case last_crlf then show ?thesis using keep reading.last_crlf [of ?s'] by simp
    next
      case last_lf then show ?thesis using keep reading.last_lf [of ?s'] by simp
    next
      case last_end then show ?thesis using keep reading.last_end [of ?s'] by simp
    next
      case eof then show ?thesis using keep reading.eof [of ?s' rest] by simp
    qed
    moreover have "fst (cb u ?n) < 1" using c(1) True by simp
    ultimately show ?thesis using f same True c(3) keep(8,9) by blast
  next
    case False
    let ?s' = "?s\<lparr>buf_read_raw := Some (?r @ x), buf_read_raw_len := buf_read_raw_len ?s + nat ret\<rparr>"
    have f: "chunked_fill mem s cb u = Some (Inr (?s', u'))"
      using False mem c(2) r(3,9) by (simp add: chunked_fill_def Let_def)
    have "x \<noteq> []" using False c(5) by auto
    then have "filled s x ?s'"
      using r c(5) unfolding filled_def by (simp add: raw_ok_def raw_rest_def)
    moreover have "int (length x) \<le> (if bytes_till_eof s = -1 then 1024 else int (nat (bytes_till_eof s)))"
      using c(4,5) False by (cases "bytes_till_eof s = -1") auto
    ultimately show ?thesis using f c(6) by blast
  qed
qed

end

end
