(* ===== verification/Encoding_Client.thy ===== *)
theory Encoding_Client
  imports Encoding_Stream
begin

section \<open>One read of the decoder\<close>

text \<open>
  What a call of the chunked handler, and a call of \<open>httpp_encoding_read\<close>, does over any byte
  source, for each place where a reader can stand in the stream.
\<close>

subsection \<open>The decoded buffer\<close>

lemma copy_decoded:
  assumes "decoded_ok s" and "0 < len"
  shows "\<exists>ret out b bo bl.
    copy_buffer True (buf_read_decoded s) (buf_read_decoded_offset s) (buf_read_decoded_len s) len = Some (ret, out, b, bo, bl) \<and>
    decoded_ok (s\<lparr>buf_read_decoded := b, buf_read_decoded_offset := bo, buf_read_decoded_len := bl\<rparr>) \<and>
    decoded_rest s = out @ decoded_rest (s\<lparr>buf_read_decoded := b, buf_read_decoded_offset := bo, buf_read_decoded_len := bl\<rparr>) \<and>
    length out = nat ret \<and> -1 \<le> ret \<and> ret \<le> int len \<and> (ret \<noteq> int len \<longrightarrow> b = None)"
proof (cases "buf_read_decoded s")
  case None
  then show ?thesis using assms by (simp add: copy_buffer_def decoded_ok_def decoded_rest_def)
next
  case (Some d)
  let ?o = "buf_read_decoded_offset s"
  let ?t = "min len (length d - ?o)"
  have d: "buf_read_decoded_len s = length d" "?o \<le> length d" using assms(1) Some by (simp_all add: decoded_ok_def)
  have lt: "length (take ?t (drop ?o d)) = ?t" by simp
  show ?thesis
  proof (cases "?o + ?t = length d")
    case True
    then have t: "?t = length d - ?o" using d(2) by simp
    then have "take ?t (drop ?o d) = drop ?o d" by simp
    then show ?thesis using True Some d assms(2) t
      by (auto simp: copy_buffer_def decoded_ok_def decoded_rest_def Let_def)
  next
    case False
    then have t: "?t = len" using d(2) by (simp add: min_def split: if_splits)
    have "drop ?o d = take len (drop ?o d) @ drop (?o + len) d"
      by (metis append_take_drop_id drop_drop add.commute)
    then show ?thesis using False Some d assms(2) t
      by (simp add: copy_buffer_def decoded_ok_def decoded_rest_def Let_def)
  qed
qed

context byte_source
begin

text \<open>
  A good outcome of a read: it returns its bytes, and these, the decoded bytes that wait and
  what the rest of the stream stands for make up what the reader stood for before.
\<close>

definition good_read ::
    "nat \<Rightarrow> 'u \<Rightarrow> string \<Rightarrow> httpp_meta_t list \<Rightarrow> int \<Rightarrow> string \<Rightarrow> httpp_encoding_t \<Rightarrow> 'u \<Rightarrow> bool" where
  "good_read len u data ms ret out s' u' \<longleftrightarrow>
     -1 \<le> ret \<and> ret \<le> int len \<and> length out = nat ret \<and> decoded_ok s' \<and> advanced u u' \<and>
     (\<exists>data' ms'. reading s' (remaining u') data' ms' \<and> data = out @ decoded_rest s' @ data' \<and>
        meta_read s' @ ms' = ms)"

lemma good_read_nothing:
  assumes "reading s' (remaining u') data ms" and "buf_read_decoded s' = None" and "advanced u u'"
    and "-1 \<le> ret" and "ret < 1"
  shows "good_read len u data (meta_read s' @ ms) ret [] s' u'"
  using assms unfolding good_read_def decoded_ok_def decoded_rest_def by auto

text \<open>What happens after a fill that got something.\<close>

definition after_fill :: "(nat \<Rightarrow> bool) \<Rightarrow> httpp_encoding_t \<Rightarrow> 'u \<Rightarrow> (int \<times> string \<times> httpp_encoding_t \<times> 'u) option" where
  "after_fill mem s u = (case chunked_skip s of
     (True, s) \<Rightarrow> Some (0, [], s, u)
   | (False, s) \<Rightarrow> (case chunked_eof_check s of
       (True, s) \<Rightarrow> Some (0, [], s, u)
     | (False, s) \<Rightarrow> map_option (\<lambda>(ret, s). (ret, [], s, u)) (chunked_header mem s)))"

lemma read_after_fill:
  assumes "\<not> read_bytes_till_header s > 2" and "chunked_fill mem s cb u = Some (Inr (s', u'))"
  shows "enc_chunked_read mem s len (Some cb) u = after_fill mem s' u'"
proof -
  have b: "Option.bind m (\<lambda>(ret, self). Some (ret, [] :: string, self, u')) = map_option (\<lambda>(ret, s). (ret, [], s, u')) m"
    for m :: "(int \<times> httpp_encoding_t) option"
    by (cases m) auto
  show ?thesis using assms by (simp add: enc_chunked_read_def after_fill_def b split: prod.split bool.split)
qed

lemma filled_have:
  assumes "filled s x s'"
  shows "buf_read_raw_len s' - buf_read_raw_offset s' = length (raw_rest s) + length x"
  using assms unfolding filled_def raw_ok_def by (auto simp: raw_rest_def dest!: arg_cong [where f = length])

lemma skip_all:
  assumes "filled s x s'" and "unat (read_bytes_till_header s) = length (raw_rest s) + length x"
  shows "after_fill mem s' u' = Some (0, [], (free_raw s')\<lparr>read_bytes_till_header := 0\<rparr>, u')"
  using filled_have [OF assms(1)] assms unfolding filled_def
  by (simp add: after_fill_def chunked_skip_def Let_def)

lemma skip_less:
  assumes "filled s x s'" and "length (raw_rest s) + length x < unat (read_bytes_till_header s)"
  shows "chunked_skip s' = (False, s')"
  using filled_have [OF assms(1)] assms unfolding filled_def by (simp add: chunked_skip_def Let_def)

lemma skip_more:
  assumes "filled s x s'" and "unat (read_bytes_till_header s) < length (raw_rest s) + length x"
  shows "chunked_skip s' = (False, s'\<lparr>buf_read_raw_offset := buf_read_raw_offset s' + unat (read_bytes_till_header s),
    read_bytes_till_header := 0\<rparr>)"
  using filled_have [OF assms(1)] assms unfolding filled_def by (simp add: chunked_skip_def Let_def)

text \<open>The raw bytes after skipping \<open>n\<close> of them.\<close>

lemma skipped_raw:
  assumes "filled s x s'" and "n < length (raw_rest s) + length x"
  shows "raw_ok (s'\<lparr>buf_read_raw_offset := buf_read_raw_offset s' + n, read_bytes_till_header := 0\<rparr>)"
    and "raw_rest (s'\<lparr>buf_read_raw_offset := buf_read_raw_offset s' + n, read_bytes_till_header := 0\<rparr>) =
      drop n (raw_rest s @ x)"
proof -
  obtain r where r: "buf_read_raw s' = Some r" "buf_read_raw_len s' = length r" "buf_read_raw_offset s' \<le> length r"
      "drop (buf_read_raw_offset s') r = raw_rest s @ x"
    using assms(1) by (auto simp: filled_def raw_ok_def raw_rest_def)
  then show "raw_ok (s'\<lparr>buf_read_raw_offset := buf_read_raw_offset s' + n, read_bytes_till_header := 0\<rparr>)"
    using filled_have [OF assms(1)] assms(2) by (simp add: raw_ok_def)
  have "drop (buf_read_raw_offset s' + n) r = drop n (drop (buf_read_raw_offset s') r)"
    by (simp add: add.commute)
  then show "raw_rest (s'\<lparr>buf_read_raw_offset := buf_read_raw_offset s' + n, read_bytes_till_header := 0\<rparr>) =
      drop n (raw_rest s @ x)"
    using r by (simp add: raw_rest_def)
qed

lemma no_eof: "bytes_till_eof s = -1 \<Longrightarrow> chunked_eof_check s = (False, s)"
  by (simp add: chunked_eof_check_def)

text \<open>A header is due: the raw bytes after skipping \<open>n\<close> of them start a stream.\<close>

lemma header_due:
  assumes s: "process s = Enc_Chunked" "bytes_till_eof s = -1" "buf_read_decoded s = None"
    and f: "filled s x s'" and n: "unat (read_bytes_till_header s) < length (raw_rest s) + length x"
    and cs: "stream_ok cs" "drop (unat (read_bytes_till_header s)) (raw_rest s @ x) @ remaining u' = stream_text cs"
    and mem: "\<forall>n. mem n" and adv: "advanced u u'"
  shows "\<exists>s2. after_fill mem s' u' = Some (0, [], s2, u') \<and>
    good_read len u (stream_data cs) (meta_read s @ stream_meta cs) 0 [] s2 u'"
proof -
  let ?n = "unat (read_bytes_till_header s)"
  let ?s = "s'\<lparr>buf_read_raw_offset := buf_read_raw_offset s' + ?n, read_bytes_till_header := 0\<rparr>"
  note sk = skipped_raw [OF f n]
  have fs: "process s' = Enc_Chunked" "bytes_till_eof s' = -1" "buf_read_decoded s' = None" "meta_read s' = meta_read s"
    "buf_read_raw s' \<noteq> None"
    using f s by (simp_all add: filled_def)
  then obtain r where r: "buf_read_raw ?s = Some r" by auto
  have "0 < length (drop ?n (raw_rest s @ x))" using n by (simp only: length_drop length_append zero_less_diff)
  then have "drop ?n (raw_rest s @ x) \<noteq> []" by (metis length_0_conv less_irrefl)
  then have ne: "raw_rest ?s \<noteq> []" unfolding sk(2) .
  have cs2: "raw_rest ?s @ remaining u' = stream_text cs" unfolding sk(2) by (rule cs(2))
  have st: "process ?s = Enc_Chunked" "bytes_till_eof ?s = -1" "read_bytes_till_header ?s = 0" "buf_read_decoded ?s = None"
    using fs by simp_all
  from header_step [OF sk(1) r ne st cs(1) cs2 mem] obtain s2 data ms where
    s2: "chunked_header mem ?s = Some (0, s2)" "reading s2 (remaining u') data ms"
      "decoded_rest s2 @ data = stream_data cs" "decoded_ok s2" "meta_read s2 @ ms = meta_read ?s @ stream_meta cs"
    by blast
  have "after_fill mem s' u' = Some (0, [], s2, u')"
    using skip_more [OF f n] no_eof [of ?s] fs s2(1) by (simp add: after_fill_def)
  moreover have "good_read len u (stream_data cs) (meta_read s @ stream_meta cs) 0 [] s2 u'"
    using s2 fs adv unfolding good_read_def by (intro conjI exI [of _ data] exI [of _ ms]) auto
  ultimately show ?thesis by blast
qed

lemma advanced_fill: "remaining u = x @ remaining u' \<Longrightarrow> x \<noteq> [] \<Longrightarrow> advanced u u'"
  by (auto simp: advanced_def)

lemma two: "unat (2 :: 64 word) = 2" "\<not> (2 :: 64 word) > 2" "\<not> (0 :: 64 word) > 2"
  by simp_all

text \<open>Between chunks: the CR LF of the last chunk, of which \<open>raw_rest s\<close> is already there.\<close>

lemma skip_step:
  assumes s: "process s = Enc_Chunked" "bytes_till_eof s = -1" "buf_read_decoded s = None" "read_bytes_till_header s = 2"
    and f: "filled s x s'" and fit: "raw_rest s @ x @ remaining u' = CR # LF # stream_text cs"
    and cs: "stream_ok cs" and mem: "\<forall>n. mem n" and adv: "advanced u u'"
  shows "\<exists>s2. after_fill mem s' u' = Some (0, [], s2, u') \<and>
    good_read len u (stream_data cs) (meta_read s @ stream_meta cs) 0 [] s2 u'"
proof -
  have fs: "process s' = Enc_Chunked" "bytes_till_eof s' = -1" "buf_read_decoded s' = None" "meta_read s' = meta_read s"
    "read_bytes_till_header s' = 2" "raw_ok s'" "buf_read_raw s' \<noteq> None" "raw_rest s' = raw_rest s @ x" "x \<noteq> []"
    using f s by (simp_all add: filled_def)
  have fit2: "(raw_rest s @ x) @ remaining u' = CR # LF # stream_text cs" using fit by simp
  have "0 < length (raw_rest s @ x)" using fs(9) by simp
  then consider "length (raw_rest s @ x) = 1" | "length (raw_rest s @ x) = 2" | "length (raw_rest s @ x) > 2"
    by linarith
  then show ?thesis
  proof cases
    case 1
    then obtain z where "raw_rest s @ x = [z]" by (cases "raw_rest s @ x") auto
    then have x: "raw_rest s @ x = [CR]" "remaining u' = LF # stream_text cs"
      using fit2 by simp_all
    obtain r where "buf_read_raw s' = Some r" using fs(7) by auto
    from header_cr_only [OF fs(6) this] have "chunked_header mem s' = Some (0, s')"
      using fs(8) x(1) by simp
    then have "after_fill mem s' u' = Some (0, [], s', u')"
      using skip_less [OF f] 1 s(4) no_eof [OF fs(2)] by (simp add: after_fill_def)
    moreover have "reading s' (remaining u') (stream_data cs) (stream_meta cs)"
      unfolding x(2) using fs x(1) cs by (intro reading.cr) simp_all
    ultimately show ?thesis using good_read_nothing [OF _ fs(3) adv, of _ _ 0] fs(4) by auto
  next
    case 2
    let ?s = "(free_raw s')\<lparr>read_bytes_till_header := 0\<rparr>"
    obtain z1 z2 where "raw_rest s @ x = [z1, z2]"
      using 2 by (cases "raw_rest s @ x"; cases "tl (raw_rest s @ x)") auto
    then have x: "remaining u' = stream_text cs" using fit2 by simp
    have "after_fill mem s' u' = Some (0, [], ?s, u')"
      using skip_all [OF f] 2 s(4) by simp
    moreover have "reading ?s (remaining u') (stream_data cs) (stream_meta cs)"
      unfolding x using fs cs by (intro reading.header) (simp_all add: free_raw_def raw_ok_def raw_rest_def)
    moreover have "buf_read_decoded ?s = None" "meta_read ?s = meta_read s" using fs by (simp_all add: free_raw_def)
    ultimately show ?thesis using good_read_nothing [of ?s u' _ _ u 0] adv by auto
  next
    case 3
    have "drop 2 (raw_rest s @ x) @ remaining u' = stream_text cs"
    proof -
      have "drop 2 ((raw_rest s @ x) @ remaining u') = drop 2 (CR # LF # stream_text cs)" unfolding fit2 ..
      then show ?thesis using 3 by (subst (asm) drop_append) simp
    qed
    then show ?thesis using header_due [OF s(1-3) f _ cs _ mem adv] 3 s(4) by simp
  qed
qed

text \<open>The end of the stream.\<close>

lemma last_step:
  assumes s: "process s = Enc_Chunked" "bytes_till_eof s = 2" "buf_read_decoded s = None"
    and f: "filled s x s'" and x: "length x \<le> 2" and adv: "advanced u u'"
    and at: "read_bytes_till_header s = 2 \<and> raw_rest s = [] \<and> x @ remaining u' = [CR, LF, CR, LF] \<or>
       read_bytes_till_header s = 2 \<and> raw_rest s = [CR] \<and> x @ remaining u' = [LF, CR, LF] \<or>
       read_bytes_till_header s = 0 \<and> raw_rest s = [] \<and> x @ remaining u' = [CR, LF]"
  shows "\<exists>s2. after_fill mem s' u' = Some (0, [], s2, u') \<and> good_read len u [] (meta_read s) 0 [] s2 u'"
proof -
  have fs: "process s' = Enc_Chunked" "bytes_till_eof s' = 2" "buf_read_decoded s' = None" "meta_read s' = meta_read s"
    "read_bytes_till_header s' = read_bytes_till_header s" "raw_ok s'" "buf_read_raw s' \<noteq> None" "raw_rest s' = raw_rest s @ x" "x \<noteq> []"
    using f s by (simp_all add: filled_def)
  have done1: ?thesis if "after_fill mem s' u' = Some (0, [], s2, u')" "reading s2 (remaining u') [] []"
      "buf_read_decoded s2 = None" "meta_read s2 = meta_read s" for s2
    using good_read_nothing [OF that(2,3) adv, of 0 len] that by auto
  consider (a) "length (raw_rest s) + length x < unat (read_bytes_till_header s)"
    | (b) "length (raw_rest s) + length x = unat (read_bytes_till_header s)"
    | (c) "length (raw_rest s) + length x > unat (read_bytes_till_header s)" by linarith
  then show ?thesis
  proof cases
    case a
    obtain z w where z: "x = z # w" using fs(9) by (cases x) auto
    have x1: "read_bytes_till_header s = 2" "raw_rest s = []" "x = [CR]" "remaining u' = [LF, CR, LF]"
      using at a z by auto
    obtain r where "buf_read_raw s' = Some r" using fs(7) by auto
    from header_cr_only [OF fs(6) this] have "chunked_header mem s' = Some (0, s')"
      using fs(8) x1 by simp
    then have "after_fill mem s' u' = Some (0, [], s', u')"
      using skip_less [OF f a] fs(2,5) x1(1) by (simp add: after_fill_def chunked_eof_check_def)
    moreover have "reading s' (remaining u') [] []"
      unfolding x1(4) using fs x1 by (intro reading.last_lf) simp_all
    ultimately show ?thesis using fs by (intro done1)
  next
    case b
    let ?s = "(free_raw s')\<lparr>read_bytes_till_header := 0\<rparr>"
    obtain z w where z: "x = z # w" using fs(9) by (cases x) auto
    have r: "remaining u' = [CR, LF]" "read_bytes_till_header s = 2"
      using at b z by (auto simp: Cons_eq_append_conv append_eq_Cons_conv length_Suc_conv)
    have "after_fill mem s' u' = Some (0, [], ?s, u')"
      using skip_all [OF f] b by simp
    moreover have "reading ?s (remaining u') [] []"
      unfolding r(1) using fs by (intro reading.last_end) (simp_all add: free_raw_def)
    ultimately show ?thesis using fs by (intro done1 [of ?s]) (simp_all add: free_raw_def)
  next
    case c
    let ?s = "s'\<lparr>buf_read_raw_offset := buf_read_raw_offset s' + unat (read_bytes_till_header s),
      read_bytes_till_header := 0, bytes_till_eof := 0\<rparr>"
    have "after_fill mem s' u' = Some (0, [], ?s, u')"
      using skip_more [OF f c] fs(2) by (simp add: after_fill_def chunked_eof_check_def Let_def)
    moreover have "reading ?s (remaining u') [] []"
      using fs skipped_raw(1) [OF f c] by (intro reading.eof) (simp_all add: raw_ok_def split: option.splits)
    ultimately show ?thesis using fs by (intro done1 [of ?s]) simp_all
  qed
qed

subsection \<open>The handler\<close>

lemma reading_fill:
  assumes r: "reading s (remaining u) data ms" and ok: "raw_ok s" and small: "\<not> read_bytes_till_header s > 2"
    and d: "buf_read_decoded s = None" and mem: "\<forall>n. mem n"
    and go: "\<And>s' u' x. filled s x s' \<Longrightarrow> remaining u = x @ remaining u' \<Longrightarrow>
      int (length x) \<le> (if bytes_till_eof s = -1 then 1024 else int (nat (bytes_till_eof s))) \<Longrightarrow>
      advanced u u' \<Longrightarrow>
      \<exists>s2. after_fill mem s' u' = Some (0, [], s2, u') \<and> good_read len u data (meta_read s @ ms) 0 [] s2 u'"
  shows "\<exists>ret out s' u'. enc_chunked_read mem s len (Some cb) u = Some (ret, out, s', u') \<and>
    good_read len u data (meta_read s @ ms) ret out s' u'"
  using fill [OF ok mem, of u]
proof (elim disjE exE conjE)
  fix ret s' u' n
  assume f: "chunked_fill mem s cb u = Some (Inl (ret, s', u'))" and ret: "-1 \<le> ret" "ret < 1"
    and same: "remaining u' = remaining u" "meta_read s' = meta_read s" "buf_read_decoded s' = buf_read_decoded s"
    and n: "fst (cb u n) < 1" and k: "\<forall>rest data ms. reading s rest data ms \<longrightarrow> reading s' rest data ms"
  have "enc_chunked_read mem s len (Some cb) u = Some (ret, [], s', u')"
    using small f by (simp add: enc_chunked_read_def)
  moreover have "reading s' (remaining u') data ms" using k r same(1) by simp
  moreover have "advanced u u'" using n by (auto simp: advanced_def)
  ultimately show ?thesis
    using good_read_nothing [of s' u' data ms u ret len] same d ret by auto
next
  fix s' u' x
  assume f: "chunked_fill mem s cb u = Some (Inr (s', u'))" "filled s x s'" "remaining u = x @ remaining u'"
    "int (length x) \<le> (if bytes_till_eof s = -1 then 1024 else int (nat (bytes_till_eof s)))"
  have "x \<noteq> []" using f(2) by (simp add: filled_def)
  then have "advanced u u'" using f(3) by (rule advanced_fill [rotated])
  from go [OF f(2-4) this] show ?thesis using read_after_fill [OF small f(1)] by auto
qed

lemma body_read:
  assumes s: "process s = Enc_Chunked" "bytes_till_eof s = -1" "buf_read_raw s = None" "buf_read_decoded s = None"
    and cs: "stream_ok cs" and b: "length b + 2 < 2 ^ 64" "b \<noteq> []"
    and h: "read_bytes_till_header s = of_nat (length b + 2)" and u: "remaining u = b @ CR # LF # stream_text cs"
  shows "\<exists>ret out s' u'. enc_chunked_read mem s len (Some cb) u = Some (ret, out, s', u') \<and>
    good_read len u (b @ stream_data cs) (meta_read s @ stream_meta cs) ret out s' u'"
proof -
  have un: "unat (read_bytes_till_header s) = length b + 2" unfolding h by (rule unat64 [OF b(1)])
  then have gt: "read_bytes_till_header s > 2" using b(2) by (simp add: word_less_nat_alt)
  have "read_bytes_till_header s - 2 = of_nat (length b)" unfolding h by simp
  then have ub: "unat (read_bytes_till_header s - 2) = length b" using b(1) by (simp add: unat64)
  let ?todo = "min len (length b)"
  obtain ret x u' where c: "call_read cb u ?todo = Some (ret, x, u')" "cb u ?todo = (ret, x, u')" "-1 \<le> ret"
      "ret \<le> int ?todo" "length x = nat ret" "remaining u = x @ remaining u'"
    using call [of u ?todo] by blast
  show ?thesis
  proof (cases "ret < 1")
    case True
    then have "x = []" using c(5) by simp
    then have same: "remaining u' = remaining u" using c(6) by simp
    have "enc_chunked_read mem s len (Some cb) u = Some (ret, [], s, u')"
      using gt c(1) True ub \<open>x = []\<close> by (simp add: enc_chunked_read_def Let_def)
    moreover have "advanced u u'" using c(2) True by (auto simp: advanced_def intro: exI [of _ ?todo])
    moreover have "reading s (remaining u') (b @ stream_data cs) (stream_meta cs)"
      unfolding same u by (rule reading.body [OF s(1-3) cs b(1) h])
    ultimately show ?thesis using good_read_nothing s(4) c(3) True by blast
  next
    case False
    let ?s = "s\<lparr>read_bytes_till_header := read_bytes_till_header s - of_nat (nat ret)\<rparr>"
    have lx: "length x \<le> length b" "x \<noteq> []" using c(4,5) False by auto
    have "x @ remaining u' = b @ CR # LF # stream_text cs" using c(6) u by simp
    from append_eq_longer [OF this lx(1)] obtain b2 where b2: "b = x @ b2" "remaining u' = b2 @ CR # LF # stream_text cs"
      by blast
    have "read_bytes_till_header s - of_nat (nat ret) = of_nat (length b2 + 2)"
      using h b2(1) c(5) by simp
    then have "reading ?s (remaining u') (b2 @ stream_data cs) (stream_meta cs)"
      unfolding b2(2) using s cs b(1) b2(1) by (intro reading.body) simp_all
    moreover have "enc_chunked_read mem s len (Some cb) u = Some (ret, x, ?s, u')"
      using gt c(1) False ub by (simp add: enc_chunked_read_def Let_def)
    moreover have "advanced u u'" using c(6) lx(2) by (rule advanced_fill)
    ultimately show ?thesis
      using c(3-5) s(4) b2(1) by (fastforce simp: good_read_def decoded_ok_def decoded_rest_def)
  qed
qed

lemma chunked_read_step:
  assumes r: "reading s (remaining u) data ms" and d: "buf_read_decoded s = None" and mem: "\<forall>n. mem n"
  shows "\<exists>ret out s' u'. enc_chunked_read mem s len (Some cb) u = Some (ret, out, s', u') \<and>
    good_read len u data (meta_read s @ ms) ret out s' u'"
  using r
proof (cases rule: reading.cases)
  case (body cs b)
  show ?thesis
  proof (cases "b = []")
    case True
    have h: "read_bytes_till_header s = 2" "raw_rest s = []" "raw_ok s"
      using body True by (simp_all add: raw_rest_def raw_ok_def)
    show ?thesis
    proof (rule reading_fill [OF r h(3) _ d mem])
      show "\<not> read_bytes_till_header s > 2" using h(1) by simp
      fix s' u' x assume f: "filled s x s'" "remaining u = x @ remaining u'" "advanced u u'"
      have "raw_rest s @ x @ remaining u' = CR # LF # stream_text cs"
        using f(2) body True h(2) by simp
      from skip_step [OF body(4,5) d h(1) f(1) this body(7) mem f(3)]
      show "\<exists>s2. after_fill mem s' u' = Some (0, [], s2, u') \<and> good_read len u data (meta_read s @ ms) 0 [] s2 u'"
        using body True by simp
    qed
  next
    case False
    then show ?thesis using body_read [OF body(4-6) d body(7,8) False body(9,1)] body(2,3) by simp
  qed
next
  case (cr cs)
  show ?thesis
  proof (rule reading_fill [OF r cr(6) _ d mem])
    show "\<not> read_bytes_till_header s > 2" using cr by simp
    fix s' u' x assume f: "filled s x s'" "remaining u = x @ remaining u'" "advanced u u'"
    have "raw_rest s @ x @ remaining u' = CR # LF # stream_text cs"
      using f(2) cr by simp
    from skip_step [OF cr(4,5) d cr(10) f(1) this cr(8) mem f(3)]
    show "\<exists>s2. after_fill mem s' u' = Some (0, [], s2, u') \<and> good_read len u data (meta_read s @ ms) 0 [] s2 u'"
      using cr by simp
  qed
next
  case (header cs)
  show ?thesis
  proof (rule reading_fill [OF r header(5) _ d mem])
    show "\<not> read_bytes_till_header s > 2" using header by simp
    fix s' u' x assume f: "filled s x s'" "remaining u = x @ remaining u'" "advanced u u'"
    have n: "unat (read_bytes_till_header s) < length (raw_rest s) + length x"
      using header f(1) by (simp add: filled_def)
    have "drop (unat (read_bytes_till_header s)) (raw_rest s @ x) @ remaining u' = stream_text cs"
      using header f(2) by simp
    from header_due [OF header(3,4) d f(1) n header(6) this mem f(3)]
    show "\<exists>s2. after_fill mem s' u' = Some (0, [], s2, u') \<and> good_read len u data (meta_read s @ ms) 0 [] s2 u'"
      using header by simp
  qed
next
  case last_crlf
  have h: "raw_rest s = []" "raw_ok s" using last_crlf by (simp_all add: raw_rest_def raw_ok_def)
  show ?thesis
  proof (rule reading_fill [OF r h(2) _ d mem])
    show "\<not> read_bytes_till_header s > 2" using last_crlf by simp
    fix s' u' x assume f: "filled s x s'" "remaining u = x @ remaining u'" "advanced u u'"
      and x: "int (length x) \<le> (if bytes_till_eof s = -1 then 1024 else int (nat (bytes_till_eof s)))"
    show "\<exists>s2. after_fill mem s' u' = Some (0, [], s2, u') \<and> good_read len u data (meta_read s @ ms) 0 [] s2 u'"
      using last_step [of s x s' u u' mem len] last_crlf d f x h(1) by simp
  qed
next
  case last_lf
  show ?thesis
  proof (rule reading_fill [OF r last_lf(6) _ d mem])
    show "\<not> read_bytes_till_header s > 2" using last_lf by simp
    fix s' u' x assume f: "filled s x s'" "remaining u = x @ remaining u'" "advanced u u'"
      and x: "int (length x) \<le> (if bytes_till_eof s = -1 then 1024 else int (nat (bytes_till_eof s)))"
    show "\<exists>s2. after_fill mem s' u' = Some (0, [], s2, u') \<and> good_read len u data (meta_read s @ ms) 0 [] s2 u'"
      using last_step [of s x s' u u' mem len] last_lf d f x by simp
  qed
next
  case last_end
  have h: "raw_rest s = []" "raw_ok s" using last_end by (simp_all add: raw_rest_def raw_ok_def)
  show ?thesis
  proof (rule reading_fill [OF r h(2) _ d mem])
    show "\<not> read_bytes_till_header s > 2" using last_end by simp
    fix s' u' x assume f: "filled s x s'" "remaining u = x @ remaining u'" "advanced u u'"
      and x: "int (length x) \<le> (if bytes_till_eof s = -1 then 1024 else int (nat (bytes_till_eof s)))"
    show "\<exists>s2. after_fill mem s' u' = Some (0, [], s2, u') \<and> good_read len u data (meta_read s @ ms) 0 [] s2 u'"
      using last_step [of s x s' u u' mem len] last_end d f x h(1) by simp
  qed
next
  case eof
  show ?thesis
  proof (rule reading_fill [OF r eof(5) _ d mem])
    show "\<not> read_bytes_till_header s > 2" using eof by simp
    fix s' u' x assume "filled s x s'"
      and "int (length x) \<le> (if bytes_till_eof s = -1 then 1024 else int (nat (bytes_till_eof s)))"
    then show "\<exists>s2. after_fill mem s' u' = Some (0, [], s2, u') \<and> good_read len u data (meta_read s @ ms) 0 [] s2 u'"
      using eof by (simp add: filled_def)
  qed
qed

subsection \<open>The public function\<close>

lemma encoding_read_step:
  assumes r: "reading s (remaining u) data ms" and ok: "decoded_ok s" and mem: "\<forall>n. mem n" and len: "0 < len"
  shows "\<exists>ret out s' u' data' ms'. httpp_encoding_read mem (Some s) True len (Some cb) u = Some (ret, out, Some s', u') \<and>
    -1 \<le> ret \<and> ret \<le> int len \<and> length out = nat ret \<and> reading s' (remaining u') data' ms' \<and> decoded_ok s' \<and>
    decoded_rest s @ data = out @ decoded_rest s' @ data' \<and> meta_read s' @ ms' = meta_read s @ ms \<and>
    (0 < ret \<or> advanced u u')"
proof -
  have chunked: "process s = Enc_Chunked" using r by (auto elim: reading.cases)
  obtain ret out b bo bl where c: "copy_buffer True (buf_read_decoded s) (buf_read_decoded_offset s) (buf_read_decoded_len s) len =
      Some (ret, out, b, bo, bl)"
    "decoded_ok (s\<lparr>buf_read_decoded := b, buf_read_decoded_offset := bo, buf_read_decoded_len := bl\<rparr>)"
    "decoded_rest s = out @ decoded_rest (s\<lparr>buf_read_decoded := b, buf_read_decoded_offset := bo, buf_read_decoded_len := bl\<rparr>)"
    "length out = nat ret" "-1 \<le> ret" "ret \<le> int len" "ret \<noteq> int len \<longrightarrow> b = None"
    using copy_decoded [OF ok len] by blast
  let ?s = "s\<lparr>buf_read_decoded := b, buf_read_decoded_offset := bo, buf_read_decoded_len := bl\<rparr>"
  show ?thesis
  proof (cases "ret = int len")
    case True
    then have "httpp_encoding_read mem (Some s) True len (Some cb) u = Some (ret, out, Some ?s, u)"
      using len c(1) by (simp add: httpp_encoding_read_def Let_def)
    then show ?thesis using c r len True by fastforce
  next
    case False
    let ?nread = "if ret > 0 then ret else 0"
    let ?len = "len - nat ?nread"
    have b: "buf_read_decoded ?s = None" using c(7) False by simp
    then have dr: "decoded_rest s = out" using c(3) by (simp add: decoded_rest_def)
    have rs: "reading ?s (remaining u) data ms" using r by simp
    obtain ret2 out2 s2 u2 where st: "enc_chunked_read mem ?s ?len (Some cb) u = Some (ret2, out2, s2, u2)"
        "good_read ?len u data (meta_read ?s @ ms) ret2 out2 s2 u2"
      using chunked_read_step [OF rs b mem] by blast
    obtain data2 ms2 where g: "-1 \<le> ret2" "ret2 \<le> int ?len" "length out2 = nat ret2" "decoded_ok s2" "advanced u u2"
        "reading s2 (remaining u2) data2 ms2" "data = out2 @ decoded_rest s2 @ data2" "meta_read s2 @ ms2 = meta_read s @ ms"
      using st(2) by (auto simp: good_read_def)
    have pr: "process_read mem ?s ?len (Some cb) u = Some (ret2, out2, s2, u2)"
      using chunked st(1) by (simp add: process_read_def)
    show ?thesis
    proof (cases "ret2 = -1")
      case neg: True
      then have "out2 = []" using g(3) by simp
      have "httpp_encoding_read mem (Some s) True len (Some cb) u =
          Some (if ?nread \<noteq> 0 then ?nread else -1, out, Some s2, u2)"
        using len c(1) False pr neg by (simp add: httpp_encoding_read_def Let_def)
      moreover have "length out = nat (if ?nread \<noteq> 0 then ?nread else -1)" "-1 \<le> (if ?nread \<noteq> 0 then ?nread else -1)"
        "(if ?nread \<noteq> 0 then ?nread else -1) \<le> int len"
        using c(4-6) by auto
      ultimately show ?thesis using g \<open>out2 = []\<close> dr by fastforce
    next
      case pos: False
      then have r2: "0 \<le> ret2" using g(1) by simp
      let ?len2 = "?len - nat ret2"
      have nn: "int (length out) = ?nread" "?nread \<le> int len" using c(4-6) by auto
      show ?thesis
      proof (cases "?len2 = 0")
        case True
        have "httpp_encoding_read mem (Some s) True len (Some cb) u = Some (?nread + ret2, out @ out2, Some s2, u2)"
          using len c(1) False pr pos True by (simp add: httpp_encoding_read_def Let_def)
        moreover have "length (out @ out2) = nat (?nread + ret2)" "-1 \<le> ?nread + ret2" "?nread + ret2 \<le> int len"
          using nn g(2,3) r2 by auto
        ultimately show ?thesis using g dr by fastforce
      next
        case more_room: False
        obtain ret3 out3 b3 bo3 bl3 where c3: "copy_buffer True (buf_read_decoded s2) (buf_read_decoded_offset s2) (buf_read_decoded_len s2) ?len2 =
            Some (ret3, out3, b3, bo3, bl3)"
          "decoded_ok (s2\<lparr>buf_read_decoded := b3, buf_read_decoded_offset := bo3, buf_read_decoded_len := bl3\<rparr>)"
          "decoded_rest s2 = out3 @ decoded_rest (s2\<lparr>buf_read_decoded := b3, buf_read_decoded_offset := bo3, buf_read_decoded_len := bl3\<rparr>)"
          "length out3 = nat ret3" "-1 \<le> ret3" "ret3 \<le> int ?len2"
          using copy_decoded [OF g(4), of ?len2] more_room by blast
        let ?s3 = "s2\<lparr>buf_read_decoded := b3, buf_read_decoded_offset := bo3, buf_read_decoded_len := bl3\<rparr>"
        let ?r3 = "?nread + ret2 + (if ret3 > 0 then ret3 else 0)"
        have "httpp_encoding_read mem (Some s) True len (Some cb) u = Some (?r3, out @ out2 @ out3, Some ?s3, u2)"
          using len c(1) False pr pos more_room c3(1) by (simp add: httpp_encoding_read_def Let_def)
        moreover have "length (out @ out2 @ out3) = nat ?r3" "-1 \<le> ?r3" "?r3 \<le> int len"
          using nn g(2,3) r2 c3(4-6) by (auto simp: nat_add_distrib)
        moreover have "reading ?s3 (remaining u2) data2 ms2" using g(6) by simp
        moreover have "decoded_rest s @ data = (out @ out2 @ out3) @ decoded_rest ?s3 @ data2"
          using dr g(7) c3(3) by simp
        moreover have "meta_read ?s3 @ ms2 = meta_read s @ ms" using g(8) by simp
        ultimately show ?thesis using c3(2) g(5) by blast
      qed
    qed
  qed
qed

end

end
