(* ===== verification/Encoding_Write.thy ===== *)
theory Encoding_Write
  imports Encoding_Read
begin

section \<open>Writing a chunked stream\<close>

text \<open>
  The interface of a backend that takes bytes, and the chunked writer as its client: what was
  received and what waits in the buffer grows by exactly one chunk per accepted write.
\<close>

subsection \<open>Extensions\<close>

lemma length_escape_value: "length (escape_value v) = length v + length (filter (\<lambda>c. c = CHR 0x22) v)"
  by (induction v) auto

text \<open>The buffer that is computed first is large enough for what is written into it.\<close>

lemma extensions_fit:
  "\<forall>m \<in> set ms. meta_written m \<longrightarrow> length (meta_value m) = mvalue_len m \<Longrightarrow>
   length (extensions_text ms) + 1 \<le> extensions_buflen ms"
proof (induction ms)
  case (Cons m ms)
  have "length (extension_text m) \<le> 4 + length (cstr (the (mkey m))) + write_extensions_valuelen m"
    if "meta_written m" "length (meta_value m) = mvalue_len m"
  proof (cases "mvalue_len m = 0")
    case True
    then show ?thesis by (simp add: extension_text_def)
  next
    case False
    then have "mvalue m \<noteq> None" using that(1) by (simp add: meta_written_def)
    then show ?thesis using False that(2)
      by (simp add: extension_text_def length_escape_value write_extensions_valuelen_def)
  qed
  then show ?case using Cons by auto
qed simp

lemma NUL_escape_value: "NUL \<notin> set v \<Longrightarrow> NUL \<notin> set (escape_value v)"
  by (induction v) (auto simp: NUL_def)

lemma good_meta_text:
  assumes "good_meta m"
  shows "NUL \<notin> set (extension_text m)" "meta_written m" "length (meta_value m) = mvalue_len m"
proof -
  obtain k v where m: "m = \<lparr>mkey = Some k, mvalue = Some v, mvalue_len = length v\<rparr>" "NUL \<notin> set v" "NUL \<notin> set k"
      "extension_text m = CHR '';'' # k @ CHR ''='' # CHR 0x22 # escape_value v @ [CHR 0x22]" "meta_written m"
    using good_metaE [OF assms] by metis
  show "NUL \<notin> set (extension_text m)" using m(2,3,4) NUL_escape_value [OF m(2)] by (auto simp: NUL_def)
  show "meta_written m" by (rule m(5))
  show "length (meta_value m) = mvalue_len m" by (simp add: m(1) meta_value_def)
qed

lemma write_extensions_good:
  assumes "\<forall>m \<in> set ms. good_meta m" and "\<forall>n. mem n"
  shows "\<exists>e. write_extensions mem ms = Some (e, []) \<and>
    (case e of None \<Rightarrow> [] | Some p \<Rightarrow> cstr p) = extensions_text ms"
proof (cases "ms = []")
  case True
  then show ?thesis by (simp add: write_extensions_def)
next
  case False
  have "NUL \<notin> set (extensions_text ms)"
    using assms(1) good_meta_text(1) by (auto simp: good_metas_written)
  then have "cstr (extensions_text ms @ [NUL]) = extensions_text ms" by (rule cstr_append)
  moreover have "length (extensions_text ms) + 1 \<le> extensions_buflen ms"
    using assms(1) good_meta_text(3) by (intro extensions_fit) blast
  moreover have "\<not> (\<exists>m \<in> set ms. meta_written m \<and> length (meta_value m) \<noteq> mvalue_len m)"
    using assms(1) good_meta_text(3) by blast
  ultimately show ?thesis using False assms(2) by (auto simp: write_extensions_def Let_def)
qed

subsection \<open>Byte sinks\<close>

definition pend :: "httpp_encoding_t \<Rightarrow> string" where
  "pend s = (case buf_write_encoded s of None \<Rightarrow> [] | Some b \<Rightarrow> drop (buf_write_encoded_offset s) b)"

definition write_ok :: "httpp_encoding_t \<Rightarrow> bool" where
  "write_ok s \<longleftrightarrow> (case buf_write_encoded s of None \<Rightarrow> True
     | Some b \<Rightarrow> buf_write_encoded_len s = length b \<and> buf_write_encoded_offset s < length b)"

lemma pending_pend: "write_ok s \<Longrightarrow> httpp_encoding_pending (Some s) = int (length (pend s))"
  by (auto simp: write_ok_def pend_def httpp_encoding_pending_def split: option.splits)

lemma pend_empty: "write_ok s \<Longrightarrow> pend s = [] \<longleftrightarrow> buf_write_encoded s = None"
  by (auto simp: write_ok_def pend_def split: option.splits)

text \<open>The chunk that is written for some bytes with some meta data.\<close>

definition written_chunk :: "httpp_meta_t list \<Rightarrow> string \<Rightarrow> chunk" where
  "written_chunk ms b = \<lparr>chead = hex_digits (length b) @ extensions_text ms, cext = length (hex_digits (length b)),
     cbody = b, cmeta = ms\<rparr>"

lemma written_chunk_ok: "\<forall>m \<in> set ms. good_meta m \<Longrightarrow> length b + 2 < 2 ^ 64 \<Longrightarrow> chunk_ok (written_chunk ms b)"
  using header_ok_written [of ms "length b"] by (simp add: chunk_ok_def written_chunk_def)

lemma chunked_write_good:
  assumes good: "\<forall>m \<in> set (meta_write s). good_meta m" and mem: "\<forall>n. mem n" and ok: "write_ok s"
    and b: "case buf of None \<Rightarrow> True | Some b \<Rightarrow> len \<le> length b"
  shows "\<exists>ret s'. enc_chunked_write mem s buf len = Some (ret, s') \<and> write_ok s' \<and> process s' = process s \<and>
     (if pend s = []
      then ret = int (case buf of None \<Rightarrow> 0 | Some b \<Rightarrow> min len 1048576) \<and> meta_write s' = [] \<and>
        pend s' = chunk_text (written_chunk (meta_write s) (case buf of None \<Rightarrow> [] | Some b \<Rightarrow> take (min len 1048576) b)) @
          (if buf = None then [CR, LF] else [])
      else ret = 0 \<and> s' = s)"
proof (cases "pend s = []")
  case False
  then have "httpp_encoding_pending (Some s) > 0" using pending_pend [OF ok] by simp
  then show ?thesis using False ok by (simp add: enc_chunked_write_def Let_def)
next
  case True
  obtain e where e: "write_extensions mem (meta_write s) = Some (e, [])"
      "(case e of None \<Rightarrow> [] | Some p \<Rightarrow> cstr p) = extensions_text (meta_write s)"
    using write_extensions_good [OF good mem] by blast
  have p: "\<not> httpp_encoding_pending (Some s) > 0" using True pending_pend [OF ok] by simp
  let ?n = "min (if buf = None then 0 else len) 1048576"
  let ?d = "case buf of None \<Rightarrow> [] | Some b \<Rightarrow> take ?n b"
  let ?tail = "take (if buf = None then 4 else 2) [CR, LF, CR, LF]"
  let ?t = "hex_digits ?n @ extensions_text (meta_write s) @ [CR, LF] @ ?d @ ?tail"
  let ?len = "length (hex_digits ?n) + length (extensions_text (meta_write s)) + 2 + ?n + 2 + (if buf = None then 2 else 0)"
  let ?s = "s\<lparr>meta_write := [], buf_write_encoded := Some ?t, buf_write_encoded_offset := 0, buf_write_encoded_len := ?len\<rparr>"
  have d: "length ?d = ?n" using b by (auto split: option.splits)
  have w: "enc_chunked_write mem s buf len = Some (int ?n, ?s)"
    using p e d mem unfolding enc_chunked_write_def Let_def by (simp only: if_True if_False bind.bind_lunit prod.case simp_thms)
  have tl: "?tail = [CR, LF] @ (if buf = None then [CR, LF] else [])" by simp
  have len: "length ?t = ?len" using d by simp
  then have "write_ok ?s" by (simp add: write_ok_def)
  moreover have "pend ?s = ?t" by (simp add: pend_def)
  moreover have "?t = chunk_text (written_chunk (meta_write s) ?d) @ (if buf = None then [CR, LF] else [])"
    unfolding written_chunk_def d chunk_text_def by (simp add: tl)
  ultimately show ?thesis using w True by (cases buf) simp_all
qed

locale byte_sink =
  fixes cb :: "'u write_cb" and received :: "'u \<Rightarrow> string"
  assumes sink: "cb u b = (ret, u') \<Longrightarrow>
    -1 \<le> ret \<and> ret \<le> int (length b) \<and> received u' = received u @ take (nat ret) b"
begin

lemma flush_step:
  assumes "write_ok s"
  shows "\<exists>s' u'. flush_output s (Some cb) u = Some (s', u') \<and> write_ok s' \<and>
    received u' @ pend s' = received u @ pend s \<and> meta_write s' = meta_write s \<and> process s' = process s"
proof (cases "buf_write_encoded s")
  case None
  then show ?thesis using assms by (simp add: flush_output_def)
next
  case (Some b)
  let ?o = "buf_write_encoded_offset s"
  have ok: "buf_write_encoded_len s = length b" "?o < length b" using assms Some by (simp_all add: write_ok_def)
  have w: "take (buf_write_encoded_len s - ?o) (drop ?o b) = drop ?o b" using ok by simp
  obtain ret u' where c: "cb u (drop ?o b) = (ret, u')" by (metis surj_pair)
  note k = sink [OF c]
  then have cw: "call_write cb u (drop ?o b) = Some (ret, u')" using c by (simp add: call_write_def)
  show ?thesis
  proof (cases "ret > 0")
    case False
    then show ?thesis using Some w cw k assms by (simp add: flush_output_def)
  next
    case True
    have split: "take (nat ret) (drop ?o b) @ drop (?o + nat ret) b = drop ?o b"
      by (metis append_take_drop_id drop_drop add.commute)
    show ?thesis
    proof (cases "?o + nat ret = length b")
      case True
      then show ?thesis using Some w cw k \<open>ret > 0\<close> ok split
        by (auto simp: flush_output_def pend_def write_ok_def Let_def)
    next
      case False
      moreover have "nat ret \<le> length b - ?o" using k by (simp add: nat_le_iff)
      ultimately have "?o + nat ret < length b" using ok(2) by linarith
      then show ?thesis using Some w cw k \<open>ret > 0\<close> ok split
        by (auto simp: flush_output_def pend_def write_ok_def Let_def)
    qed
  qed
qed

text \<open>One call of \<open>httpp_encoding_write\<close>: it is accepted when the buffer could be emptied first.\<close>

lemma encoding_write_step:
  assumes ch: "process s = Enc_Chunked" and good: "\<forall>m \<in> set (meta_write s). good_meta m" and mem: "\<forall>n. mem n"
    and ok: "write_ok s" and b: "case buf of None \<Rightarrow> True | Some b \<Rightarrow> len \<le> length b"
  shows "\<exists>accepted ret s' u'. httpp_encoding_write mem (Some s) buf len (Some cb) u = Some (ret, Some s', u') \<and>
    write_ok s' \<and> process s' = Enc_Chunked \<and> (pend s = [] \<longrightarrow> accepted) \<and>
    (if accepted
     then ret = int (case buf of None \<Rightarrow> 0 | Some b \<Rightarrow> min len 1048576) \<and> meta_write s' = [] \<and>
       received u' @ pend s' = received u @ pend s @ chunk_text (written_chunk (meta_write s)
         (case buf of None \<Rightarrow> [] | Some b \<Rightarrow> take (min len 1048576) b)) @ (if buf = None then [CR, LF] else [])
     else ret = 0 \<and> meta_write s' = meta_write s \<and> received u' @ pend s' = received u @ pend s)"
proof -
  obtain s1 u1 where 1: "flush_output s (Some cb) u = Some (s1, u1)" "write_ok s1"
      "received u1 @ pend s1 = received u @ pend s" "meta_write s1 = meta_write s" "process s1 = process s"
    using flush_step [OF ok] by blast
  have good1: "\<forall>m \<in> set (meta_write s1). good_meta m" using good 1(4) by simp
  obtain ret s2 where 2: "enc_chunked_write mem s1 buf len = Some (ret, s2)" "write_ok s2" "process s2 = process s1"
      "if pend s1 = []
       then ret = int (case buf of None \<Rightarrow> 0 | Some b \<Rightarrow> min len 1048576) \<and> meta_write s2 = [] \<and>
         pend s2 = chunk_text (written_chunk (meta_write s1) (case buf of None \<Rightarrow> [] | Some b \<Rightarrow> take (min len 1048576) b)) @
           (if buf = None then [CR, LF] else [])
       else ret = 0 \<and> s2 = s1"
    using chunked_write_good [OF good1 mem 1(2) b] by blast
  obtain s3 u3 where 3: "flush_output s2 (Some cb) u1 = Some (s3, u3)" "write_ok s3"
      "received u3 @ pend s3 = received u1 @ pend s2" "meta_write s3 = meta_write s2" "process s3 = process s2"
    using flush_step [OF 2(2)] by blast
  have "httpp_encoding_write mem (Some s) buf len (Some cb) u = Some (ret, Some s3, u3)"
    using 1(1,5) 2(1) 3(1) ch by (simp add: httpp_encoding_write_def process_write_def)
  moreover have "pend s = [] \<longrightarrow> pend s1 = []"
  proof
    assume "pend s = []"
    then have "buf_write_encoded s = None" using pend_empty [OF ok] by simp
    then have "s1 = s" using 1(1) by (simp add: flush_output_def)
    then show "pend s1 = []" using \<open>pend s = []\<close> by simp
  qed
  moreover have "received u1 @ pend s1 @ x = received u @ pend s @ x" for x
    using 1(3) by (metis append.assoc)
  ultimately show ?thesis using 1(3-5) 2(3,4) 3(2-5) ch
    by (intro exI [of _ "pend s1 = []"] exI [of _ ret] exI [of _ s3] exI [of _ u3]) (auto split: if_splits)
qed

end

end
