(* ===== verification/Encoding_Props.thy ===== *)
theory Encoding_Props
  imports Encoding_Client Encoding_Write
begin

section \<open>The properties of the transfer encodings\<close>

text \<open>
  The properties of \<open>src/httpp/encoding.c\<close>, with the backends that a test would use: a list of
  packets to read from, a buffer to write to, and an identity encoding on top of another source.
\<close>

subsection \<open>Backends\<close>

text \<open>Packets: one call takes from the first packet, an empty packet is a call that gives nothing.\<close>

fun feed :: "string list read_cb" where
  "feed [] n = (0, [], [])"
| "feed (p # ps) n = (int (min n (length p)), take n p, if length p \<le> n then ps else drop n p # ps)"

interpretation packets: byte_source feed concat
proof
  fix u u' :: "string list" and n ret bytes
  assume "feed u n = (ret, bytes, u')"
  then show "-1 \<le> ret \<and> ret \<le> int n \<and> length bytes = nat ret \<and> concat u = bytes @ concat u'"
    by (cases u) auto
qed

definition store_bytes :: "string write_cb" where
  "store_bytes u b = (int (length b), u @ b)"

interpretation memory_sink: byte_sink store_bytes "\<lambda>u. u"
  by unfold_locales (auto simp: store_bytes_def)

text \<open>An identity encoding is a source again, so that encodings can be stacked.\<close>

definition layer_read :: "'u read_cb \<Rightarrow> (httpp_encoding_t \<times> 'u) read_cb" where
  "layer_read cb su n = (case su of (s, u) \<Rightarrow>
     if process s \<noteq> Enc_Identity \<or> buf_read_decoded s \<noteq> None then (-1, [], (s, u))
     else (case httpp_encoding_read (\<lambda>_. True) (Some s) True n (Some cb) u of
         Some (ret, out, Some s', u') \<Rightarrow> (ret, out, (s', u'))
       | _ \<Rightarrow> (-1, [], (s, u))))"

lemma identity_read:
  assumes "byte_source cb remaining" and "process s = Enc_Identity" and "buf_read_decoded s = None" and "0 < n"
  shows "\<exists>ret out s' u'. httpp_encoding_read mem (Some s) True n (Some cb) u = Some (ret, out, Some s', u') \<and>
    -1 \<le> ret \<and> ret \<le> int n \<and> length out = nat ret \<and> remaining u = out @ remaining u'"
proof -
  obtain ret bytes u' where c: "call_read cb u n = Some (ret, bytes, u')" "-1 \<le> ret" "ret \<le> int n"
      "length bytes = nat ret" "remaining u = bytes @ remaining u'"
    using byte_source.call [OF assms(1)] by blast
  then show ?thesis using assms(2-4)
    by (auto simp: httpp_encoding_read_def copy_buffer_def process_read_def enc_identity_read_def Let_def)
qed

lemma layer_source:
  assumes "byte_source cb remaining"
  shows "byte_source (layer_read cb) (\<lambda>su. remaining (snd su))"
proof
  fix su su' :: "httpp_encoding_t \<times> 'a" and n ret bytes
  assume l: "layer_read cb su n = (ret, bytes, su')"
  obtain s u where su: "su = (s, u)" by (cases su)
  show "-1 \<le> ret \<and> ret \<le> int n \<and> length bytes = nat ret \<and> remaining (snd su) = bytes @ remaining (snd su')"
  proof (cases "process s \<noteq> Enc_Identity \<or> buf_read_decoded s \<noteq> None \<or> n = 0")
    case True
    then show ?thesis using l su by (auto simp: layer_read_def httpp_encoding_read_def split: if_splits)
  next
    case False
    then show ?thesis using l su identity_read [OF assms, of s n "\<lambda>_. True" u] by (auto simp: layer_read_def)
  qed
qed

interpretation identity_over_packets: byte_source "layer_read feed" "\<lambda>su. concat (snd su)"
  by (rule layer_source [OF packets.byte_source_axioms])

subsection \<open>Reading\<close>

text \<open>
  C15: Over any source of bytes that delivers a chunked stream in pieces of any size, a read
  returns at most \<open>len\<close> bytes, and these are the next bytes of the stream's bodies: what the
  object and the stream stood for before is what was returned followed by what they stand for
  afterwards, and the same holds of the meta data.\<close>

theorem chunked_read_any_fragmentation:
  assumes "byte_source cb remaining" and "reading s (remaining u) data ms" and "decoded_ok s"
    and "\<forall>n. mem n" and "0 < len"
  shows "\<exists>ret out s' u' data' ms'. httpp_encoding_read mem (Some s) True len (Some cb) u = Some (ret, out, Some s', u') \<and>
    -1 \<le> ret \<and> ret \<le> int len \<and> length out = nat ret \<and> reading s' (remaining u') data' ms' \<and> decoded_ok s' \<and>
    decoded_rest s @ data = out @ decoded_rest s' @ data' \<and> meta_read s' @ ms' = meta_read s @ ms"
  using byte_source.encoding_read_step [OF assms] by blast

text \<open>A stream of two chunks, and the object a reader starts with.\<close>

definition two_chunks :: "chunk list" where
  "two_chunks = [written_chunk [] ''ab'', written_chunk [] ''c'']"

lemma two_chunks_ok: "stream_ok two_chunks" "stream_data two_chunks = ''abc'' \<and> stream_meta two_chunks = []"
  by (simp_all add: two_chunks_def written_chunk_ok) (simp_all add: written_chunk_def)

lemma new_encoding:
  "\<exists>s. httpp_encoding_new (\<lambda>_. True) ''chunked'' = Some s \<and> decoded_ok s \<and> decoded_rest s = [] \<and> write_ok s \<and>
     pend s = [] \<and> process s = Enc_Chunked \<and> meta_write s = [] \<and> meta_read s = [] \<and> buf_read_decoded s = None \<and>
     buf_read_raw s = None \<and> read_bytes_till_header s = 0 \<and> bytes_till_eof s = -1"
proof -
  have "strcasecmp ''chunked'' ''identity'' \<noteq> 0" "strcasecmp ''chunked'' ''chunked'' = 0"
    by (simp_all add: strcasecmp_eq_0) code_simp
  then show ?thesis
    by (simp add: httpp_encoding_new_def Let_def decoded_ok_def decoded_rest_def write_ok_def pend_def)
qed

lemma chunked_read_any_fragmentation_witness:
  "\<exists>s ret out s' u'. httpp_encoding_new (\<lambda>_. True) ''chunked'' = Some s \<and>
     httpp_encoding_read (\<lambda>_. True) (Some s) True 10 (Some feed) [stream_text two_chunks] = Some (ret, out, Some s', u') \<and>
     length out = nat ret"
proof -
  obtain s where s: "httpp_encoding_new (\<lambda>_. True) ''chunked'' = Some s" "decoded_ok s" using new_encoding by blast
  have "reading s (concat [stream_text two_chunks]) (stream_data two_chunks) (stream_meta two_chunks)"
    using new_reading [OF s(1) two_chunks_ok(1)] by simp
  from chunked_read_any_fragmentation [OF packets.byte_source_axioms this s(2), of "\<lambda>_. True" 10] show ?thesis
    using s(1) by auto
qed

subsection \<open>Writing\<close>

text \<open>
  C17: Over any sink, a write is refused only when earlier output still waits; an accepted one
  returns how much of the buffer it took (at most a mebibyte) and adds exactly one chunk with
  this body and the attached meta data to the output; a NULL buffer adds the last chunk.\<close>

theorem chunked_write_one_chunk:
  assumes "byte_sink cb received" and "process s = Enc_Chunked" and "\<forall>m \<in> set (meta_write s). good_meta m"
    and "\<forall>n. mem n" and "write_ok s" and "case buf of None \<Rightarrow> True | Some b \<Rightarrow> len \<le> length b"
  shows "\<exists>accepted ret s' u'. httpp_encoding_write mem (Some s) buf len (Some cb) u = Some (ret, Some s', u') \<and>
    write_ok s' \<and> process s' = Enc_Chunked \<and> (pend s = [] \<longrightarrow> accepted) \<and>
    (if accepted
     then ret = int (case buf of None \<Rightarrow> 0 | Some b \<Rightarrow> min len 1048576) \<and> meta_write s' = [] \<and>
       received u' @ pend s' = received u @ pend s @ chunk_text (written_chunk (meta_write s)
         (case buf of None \<Rightarrow> [] | Some b \<Rightarrow> take (min len 1048576) b)) @ (if buf = None then [CR, LF] else [])
     else ret = 0 \<and> meta_write s' = meta_write s \<and> received u' @ pend s' = received u @ pend s)"
  by (rule byte_sink.encoding_write_step [OF assms])

lemma chunked_write_one_chunk_witness:
  "\<exists>s s' u'. httpp_encoding_new (\<lambda>_. True) ''chunked'' = Some s \<and>
     httpp_encoding_write (\<lambda>_. True) (Some s) (Some ''abc'') 3 (Some store_bytes) [] = Some (3, Some s', u')"
proof -
  obtain s where s: "httpp_encoding_new (\<lambda>_. True) ''chunked'' = Some s" "process s = Enc_Chunked" "meta_write s = []"
      "write_ok s" "pend s = []" using new_encoding by blast
  then show ?thesis
    using chunked_write_one_chunk [OF memory_sink.byte_sink_axioms s(2) _ _ s(4), of "\<lambda>_. True" 3 "Some ''abc''" "[]"]
    by auto
qed

text \<open>The writer creates its buffer for the extensions large enough: no write goes past its end.\<close>

text \<open>
  The buffer for the extensions is as long as what is written into it, terminator included,
  whatever quotes the values hold, provided each value is as long as its length field says.\<close>

theorem extensions_never_overflow:
  assumes "\<forall>m \<in> set ms. meta_written m \<longrightarrow> length (meta_value m) = mvalue_len m"
  shows "write_extensions mem ms \<noteq> None \<and> length (extensions_text ms) + 1 \<le> extensions_buflen ms"
  using extensions_fit [OF assms] assms by (auto simp: write_extensions_def Let_def)

lemma extensions_never_overflow_witness:
  "write_extensions (\<lambda>_. True) [\<lparr>mkey = Some ''k'', mvalue = Some [CHR 0x22, CHR 0x22], mvalue_len = 2\<rparr>] \<noteq> None"
  using extensions_never_overflow [of "[\<lparr>mkey = Some ''k'', mvalue = Some [CHR 0x22, CHR 0x22], mvalue_len = 2\<rparr>]"]
  by (simp add: meta_value_def)

subsection \<open>From writer to reader\<close>

text \<open>Writing blocks and then the last chunk into a buffer; reading for \<open>k\<close> rounds.\<close>

fun write_all :: "httpp_encoding_t \<Rightarrow> string list \<Rightarrow> string \<Rightarrow> string option" where
  "write_all s [] u = do {
     (ret, s, u) \<leftarrow> httpp_encoding_write (\<lambda>_. True) (Some s) None 0 (Some store_bytes) u;
     Some u
   }"
| "write_all s (b # bs) u = do {
     (ret, s, u) \<leftarrow> httpp_encoding_write (\<lambda>_. True) (Some s) (Some b) (length b) (Some store_bytes) u;
     s \<leftarrow> s;
     write_all s bs u
   }"

fun read_rounds :: "nat \<Rightarrow> nat \<Rightarrow> httpp_encoding_t \<Rightarrow> string list \<Rightarrow> (string \<times> httpp_encoding_t) option" where
  "read_rounds 0 len s u = Some ([], s)"
| "read_rounds (Suc k) len s u = do {
     (ret, out, s, u) \<leftarrow> httpp_encoding_read (\<lambda>_. True) (Some s) True len (Some feed) u;
     s \<leftarrow> s;
     (out', s) \<leftarrow> read_rounds k len s u;
     Some (out @ out', s)
   }"

fun written_chunks :: "httpp_meta_t list \<Rightarrow> string list \<Rightarrow> chunk list" where
  "written_chunks ms [] = [written_chunk ms []]"
| "written_chunks ms (b # bs) = written_chunk ms b # written_chunks [] bs"

lemma flushed_store: "flush_output s (Some store_bytes) u = Some (s', u') \<Longrightarrow> write_ok s \<Longrightarrow> pend s' = []"
  by (auto simp: flush_output_def store_bytes_def call_write_def write_ok_def pend_def Let_def
      split: option.splits if_splits)

lemma write_flushed:
  assumes "httpp_encoding_write mem (Some s) buf len (Some store_bytes) u = Some (ret, Some s', u')"
    and "process s = Enc_Chunked" and "\<forall>m \<in> set (meta_write s). good_meta m" and "\<forall>n. mem n" and "write_ok s"
    and "case buf of None \<Rightarrow> True | Some b \<Rightarrow> len \<le> length b"
  shows "pend s' = []"
proof -
  obtain s1 u1 where 1: "flush_output s (Some store_bytes) u = Some (s1, u1)" "write_ok s1" "meta_write s1 = meta_write s"
      "process s1 = process s"
    using memory_sink.flush_step [OF assms(5)] by blast
  obtain ret2 s2 where 2: "enc_chunked_write mem s1 buf len = Some (ret2, s2)" "write_ok s2"
    using chunked_write_good [of s1 mem len buf] assms(3,4,6) 1 by auto
  have "flush_output s2 (Some store_bytes) u1 = Some (s', u')"
    using assms(1,2) 1 2 by (auto simp: httpp_encoding_write_def process_write_def bind_eq_Some_conv)
  then show ?thesis by (rule flushed_store [OF _ 2(2)])
qed

lemma write_all_text:
  assumes "process s = Enc_Chunked" and "\<forall>m \<in> set (meta_write s). good_meta m" and "write_ok s" and "pend s = []"
    and "\<forall>b \<in> set bs. length b \<le> 1048576 \<and> b \<noteq> []"
  shows "write_all s bs u = Some (u @ stream_text (written_chunks (meta_write s) bs))"
  using assms
proof (induction bs arbitrary: s u)
  case Nil
  obtain ret s' u' where w: "httpp_encoding_write (\<lambda>_. True) (Some s) None 0 (Some store_bytes) u = Some (ret, Some s', u')"
      "u' @ pend s' = u @ pend s @ chunk_text (written_chunk (meta_write s) []) @ [CR, LF]"
    using memory_sink.encoding_write_step [OF Nil(1,2) _ Nil(3), of "\<lambda>_. True" 0 None u] Nil(4) by auto
  have "pend s' = []" by (rule write_flushed [OF w(1) Nil(1,2) _ Nil(3)]) simp_all
  then show ?case using w Nil(4) by (simp add: written_chunk_def)
next
  case (Cons b bs)
  have b: "min (length b) 1048576 = length b" "b \<noteq> []" using Cons.prems(5) by (simp_all add: min_def)
  obtain ret s' u' where w: "httpp_encoding_write (\<lambda>_. True) (Some s) (Some b) (length b) (Some store_bytes) u = Some (ret, Some s', u')"
      "write_ok s'" "process s' = Enc_Chunked" "meta_write s' = []"
      "u' @ pend s' = u @ pend s @ chunk_text (written_chunk (meta_write s) b)"
    using memory_sink.encoding_write_step [OF Cons.prems(1,2) _ Cons.prems(3), of "\<lambda>_. True" "length b" "Some b" u]
      Cons.prems(4) b by auto
  have "pend s' = []" by (rule write_flushed [OF w(1) Cons.prems(1,2) _ Cons.prems(3)]) simp_all
  then show ?case using Cons.IH [of s' u'] Cons.prems(4,5) w b(2) by (simp add: written_chunk_def)
qed

lemma written_chunks_ok:
  "\<forall>m \<in> set ms. good_meta m \<Longrightarrow> \<forall>b \<in> set bs. length b \<le> 1048576 \<and> b \<noteq> [] \<Longrightarrow> stream_ok (written_chunks ms bs)"
proof (induction bs arbitrary: ms)
  case Nil
  then show ?case by (simp add: written_chunk_ok)
next
  case (Cons b bs)
  then show ?case by (simp add: written_chunk_ok) (simp add: written_chunk_def)
qed

lemma written_chunks_data: "stream_data (written_chunks ms bs) = concat bs" "stream_meta (written_chunks ms bs) = ms"
  by (induction ms bs rule: written_chunks.induct) (simp_all add: written_chunk_def)

lemma read_rounds_prefix:
  assumes "reading s (concat u) data ms" and "decoded_ok s" and "0 < len"
  shows "\<exists>out s' u' data' ms'. read_rounds k len s u = Some (out, s') \<and>
    reading s' (concat u') data' ms' \<and> decoded_rest s @ data = out @ decoded_rest s' @ data' \<and>
    meta_read s' @ ms' = meta_read s @ ms \<and> decoded_ok s'"
  using assms
proof (induction k arbitrary: s u data ms)
  case 0
  then show ?case by auto
next
  case (Suc k)
  obtain ret out s1 u1 data1 ms1 where 1: "httpp_encoding_read (\<lambda>_. True) (Some s) True len (Some feed) u = Some (ret, out, Some s1, u1)"
      "reading s1 (concat u1) data1 ms1" "decoded_ok s1" "decoded_rest s @ data = out @ decoded_rest s1 @ data1"
      "meta_read s1 @ ms1 = meta_read s @ ms"
    using packets.encoding_read_step [OF Suc.prems(1,2) _ Suc.prems(3), of "\<lambda>_. True"] by blast
  show ?case using Suc.IH [OF 1(2,3) Suc.prems(3)] 1(1,4,5) by fastforce
qed

lemma eof_reading:
  assumes "reading s rest data ms" and "decoded_ok s" and "httpp_encoding_eof (Some s) None = 1"
  shows "data = [] \<and> ms = [] \<and> decoded_rest s = []"
proof -
  have "bytes_till_eof s = 0" "buf_read_decoded_len s - buf_read_decoded_offset s = 0"
    using assms(3) by (auto simp: httpp_encoding_eof_def split: if_splits)
  moreover from assms(1) have "bytes_till_eof s = 0 \<longrightarrow> data = [] \<and> ms = []"
    by (cases rule: reading.cases) auto
  ultimately show ?thesis using assms(2)
    by (simp add: decoded_ok_def decoded_rest_def split: option.splits)
qed

text \<open>
  C16: What a chunked encoder writes for a list of blocks, with meta data attached, a decoder reads
  back: in whatever packets the stream arrives and however often it is read, what was read is
  the beginning of the blocks, and when the end is reported everything was read, the meta data
  included.\<close>

theorem chunked_roundtrip:
  assumes "httpp_encoding_new (\<lambda>_. True) ''chunked'' = Some s" and "\<forall>m \<in> set ms. good_meta m"
    and "\<forall>b \<in> set bs. length b \<le> 1048576 \<and> b \<noteq> []" and "0 < len"
  shows "\<exists>stream. write_all (s\<lparr>meta_write := ms\<rparr>) bs [] = Some stream \<and>
    (\<forall>ps k. concat ps = stream \<longrightarrow> (\<exists>out rest s'. read_rounds k len s ps = Some (out, s') \<and> concat bs = out @ rest \<and>
       (httpp_encoding_eof (Some s') None = 1 \<longrightarrow> out = concat bs \<and> meta_read s' = ms)))"
proof -
  have s: "decoded_ok s" "decoded_rest s = []" "write_ok s" "pend s = []" "process s = Enc_Chunked" "meta_read s = []"
    using new_encoding assms(1) by auto
  let ?cs = "written_chunks ms bs"
  have w: "write_all (s\<lparr>meta_write := ms\<rparr>) bs [] = Some (stream_text ?cs)"
  proof -
    have "process (s\<lparr>meta_write := ms\<rparr>) = Enc_Chunked" "write_ok (s\<lparr>meta_write := ms\<rparr>)" "pend (s\<lparr>meta_write := ms\<rparr>) = []"
      using s(3-5) by (simp_all add: write_ok_def pend_def split: option.splits)
    from write_all_text [OF this(1) _ this(2,3) assms(3), of "[]"] show ?thesis using assms(2) by simp
  qed
  have r: "reading s (stream_text ?cs) (concat bs) ms"
    using new_reading [OF assms(1) written_chunks_ok [OF assms(2,3)]] by (simp add: written_chunks_data)
  have "\<exists>out rest s'. read_rounds k len s ps = Some (out, s') \<and> concat bs = out @ rest \<and>
       (httpp_encoding_eof (Some s') None = 1 \<longrightarrow> out = concat bs \<and> meta_read s' = ms)"
    if ps: "concat ps = stream_text ?cs" for ps k
  proof -
    have "reading s (concat ps) (concat bs) ms" using r ps by simp
    from read_rounds_prefix [OF this s(1) assms(4)] obtain out s' u' data' ms' where
      o: "read_rounds k len s ps = Some (out, s')" "reading s' (concat u') data' ms'"
        "decoded_rest s @ concat bs = out @ decoded_rest s' @ data'" "meta_read s' @ ms' = meta_read s @ ms" "decoded_ok s'"
      by blast
    have "concat bs = out @ decoded_rest s' @ data'" using o(3) s(2) by simp
    moreover have "out = concat bs \<and> meta_read s' = ms" if "httpp_encoding_eof (Some s') None = 1"
    proof -
      from eof_reading [OF o(2,5) that] have e: "data' = []" "ms' = []" "decoded_rest s' = []" by blast+
      show ?thesis using o(3,4) unfolding e s(2,6) append_Nil append_Nil2 by (intro conjI) (rule sym)
    qed
    ultimately show ?thesis using o(1) by blast
  qed
  then show ?thesis using w by (intro exI [of _ "stream_text ?cs"]) simp
qed

lemma chunked_roundtrip_witness:
  "\<exists>s stream. httpp_encoding_new (\<lambda>_. True) ''chunked'' = Some s \<and>
     write_all (s\<lparr>meta_write := [\<lparr>mkey = Some ''k'', mvalue = Some ''v'', mvalue_len = 1\<rparr>]\<rparr>) [''ab'', ''c''] [] = Some stream"
proof -
  obtain s where s: "httpp_encoding_new (\<lambda>_. True) ''chunked'' = Some s" using new_encoding by blast
  have g: "good_meta \<lparr>mkey = Some ''k'', mvalue = Some ''v'', mvalue_len = 1\<rparr>"
    by (auto simp: good_meta_def header_plain_def CR_def LF_def NUL_def)
  show ?thesis
    using chunked_roundtrip [OF s, of "[\<lparr>mkey = Some ''k'', mvalue = Some ''v'', mvalue_len = 1\<rparr>]" "[''ab'', ''c'']" 1] g s
    by auto
qed

subsection \<open>What goes wrong\<close>

text \<open>
  C18: A chunk that is complete in the raw buffer is not delivered while the backend gives
  nothing: between chunks every read asks the backend first and returns its result, whatever
  the buffer holds, and nothing changes.\<close>

theorem chunked_read_stalls:
  assumes "process s = Enc_Chunked" and "buf_read_decoded s = None" and "\<not> read_bytes_till_header s > 2"
    and "raw_ok s" and "buf_read_raw s = Some r" and "r \<noteq> []" and "\<forall>n. mem n" and "0 < len"
    and "\<forall>n. cb u n = (ret, [], u)" and "-1 \<le> ret" and "ret < 1"
  shows "httpp_encoding_read mem (Some s) True len (Some cb) u = Some (ret, [], Some s, u)"
proof -
  have c: "call_read cb u n = Some (ret, [], u)" for n
    using assms(9-11) by (simp add: call_read_def)
  have "buf_read_raw_len s \<noteq> 0" using assms(4-6) by (simp add: raw_ok_def)
  moreover have "s\<lparr>buf_read_raw := Some r\<rparr> = s" using assms(5) by (metis httpp_encoding_t.surjective httpp_encoding_t.update_convs(5))
  ultimately have "chunked_fill mem s cb u = Some (Inl (ret, s, u))"
    using assms(5,7,11) c by (simp add: chunked_fill_def Let_def)
  then have "enc_chunked_read mem s len (Some cb) u = Some (ret, [], s, u)" for len
    using assms(3) by (simp add: enc_chunked_read_def)
  moreover have e: "s\<lparr>buf_read_decoded := None\<rparr> = s"
    using assms(2) by (metis httpp_encoding_t.surjective httpp_encoding_t.update_convs(8))
  ultimately have r: "enc_chunked_read mem (s\<lparr>buf_read_decoded := None\<rparr>) len (Some cb) u = Some (ret, [], s, u)" for len
    by (simp only: e)
  have "copy_buffer True None bo bl len = Some (-1, [], None, bo, bl)" if "0 < len" for bo bl len
    using that by (simp add: copy_buffer_def)
  then show ?thesis using assms(1,2,8,10,11) r
    by (cases s; cases "ret = -1") (simp_all add: httpp_encoding_read_def process_read_def Let_def)
qed

definition stalled :: httpp_encoding_t where
  "stalled = \<lparr>erefc = 1, process = Enc_Chunked, meta_read = [], meta_write = [],
     buf_read_raw = Some (''1'' @ [CR, LF] @ ''b'' @ [CR, LF]), buf_read_raw_offset = 0, buf_read_raw_len = 6,
     buf_read_decoded = None, buf_read_decoded_offset = 0, buf_read_decoded_len = 0,
     buf_write_encoded = None, buf_write_encoded_offset = 0, buf_write_encoded_len = 0,
     bytes_till_eof = -1, read_bytes_till_header = 0\<rparr>"

lemma chunked_read_stalls_witness:
  "httpp_encoding_read (\<lambda>_. True) (Some stalled) True 5 (Some feed) [] = Some (0, [], Some stalled, [])"
  by (rule chunked_read_stalls [of _ "''1'' @ [CR, LF] @ ''b'' @ [CR, LF]"])
    (simp_all add: stalled_def raw_ok_def)

text \<open>
  C19: A stream that starts with a line feed is taken for a complete header whose carriage return
  is at -1: the code writes a byte in front of its buffer (no defined behaviour).\<close>

theorem chunked_read_underwrite:
  assumes "process s = Enc_Chunked" and "buf_read_decoded s = None" and "read_bytes_till_header s = 0"
    and "bytes_till_eof s = -1" and "buf_read_raw s = None" and "\<forall>n. mem n" and "0 < len"
    and "cb u 1024 = (int (length x) + 1, LF # x, u')" and "length x < 1024"
  shows "httpp_encoding_read mem (Some s) True len (Some cb) u = None"
proof -
  have c: "call_read cb u 1024 = Some (int (length x) + 1, LF # x, u')"
    using assms(8,9) by (simp add: call_read_def nat_add_distrib)
  let ?s = "s\<lparr>buf_read_raw_offset := 0, buf_read_raw_len := Suc (length x), buf_read_raw := Some (LF # x)\<rparr>"
  have f: "chunked_fill mem s' cb u = Some (Inr (s'\<lparr>buf_read_raw_offset := 0, buf_read_raw_len := nat (int (length x) + 1),
      buf_read_raw := Some (LF # x)\<rparr>, u'))"
    if "bytes_till_eof s' = -1" "buf_read_raw s' = None" for s'
    using that assms(6) c by (simp add: chunked_fill_def Let_def)
  have h: "chunked_header mem s' = None"
    if "buf_read_raw s' = Some (LF # x)" "buf_read_raw_offset s' = 0" "buf_read_raw_len s' = nat (int (length x) + 1)" for s'
    using that by (simp add: chunked_header_def Let_def nat_add_distrib LF_def CR_def)
  have r: "enc_chunked_read mem s' n (Some cb) u = None"
    if "bytes_till_eof s' = -1" "buf_read_raw s' = None" "read_bytes_till_header s' = 0" for s' n
    using that f [of s'] h by (simp add: enc_chunked_read_def chunked_skip_def chunked_eof_check_def Let_def nat_add_distrib)
  show ?thesis using assms(1-5,7) r
    by (simp add: httpp_encoding_read_def copy_buffer_def process_read_def Let_def)
qed

lemma chunked_read_underwrite_witness:
  "\<exists>s. httpp_encoding_new (\<lambda>_. True) ''chunked'' = Some s \<and>
     httpp_encoding_read (\<lambda>_. True) (Some s) True 5 (Some feed) [[LF]] = None"
proof -
  obtain s where s: "httpp_encoding_new (\<lambda>_. True) ''chunked'' = Some s" "process s = Enc_Chunked"
      "buf_read_decoded s = None" "read_bytes_till_header s = 0" "bytes_till_eof s = -1" "buf_read_raw s = None"
    using new_encoding by blast
  then show ?thesis
    using chunked_read_underwrite [OF s(2-6), of "\<lambda>_. True" 5 feed "[[LF]]" "[]" "[]"] by simp
qed

end
