(* ===== verification/Log_Format.thy ===== *)
theory Log_Format
  imports CString
begin

section \<open>The formatter of the log library: \<open>__vsnprintf\<close> of \<open>log/log.c\<close>\<close>

text \<open>
  The library formats its lines with a \<open>vsnprintf\<close> of its own. The variable argument
  list is a list of tagged values: taking a value of another kind than the next one of the
  list is undefined behaviour and gives \<open>None\<close>. The loop carries the block state
  of a directive (\<open>in_block\<close> and the \<open>block_\<close> variables), the room left in the buffer and
  the arguments not yet taken, and gives the characters it stores. Characters are signed,
  as on the platforms the library is built for.
\<close>

datatype log_arg = A_int "32 word" | A_long "64 word" | A_ptr "64 word" | A_str "string option"

record vblock =
  in_block :: bool
  block_size :: int
  block_len :: int
  block_space :: bool
  block_alt :: bool

subsection \<open>What the C library prints for numbers\<close>

definition digit_char :: "nat \<Rightarrow> char" where
  "digit_char n = (if n < 10 then char_of (48 + n) else char_of (87 + n))"

fun show_base :: "nat \<Rightarrow> nat \<Rightarrow> string" where
  "show_base b n = (if n < b \<or> b < 2 then [digit_char (n mod 16)]
     else show_base b (n div b) @ [digit_char (n mod b)])"

declare show_base.simps [simp del]

definition show_int :: "int \<Rightarrow> string" where
  "show_int i = (if i < 0 then CHR ''-'' # show_base 10 (nat (- i)) else show_base 10 (nat i))"

definition show_ptr :: "64 word \<Rightarrow> string" where
  "show_ptr p = (if p = 0 then ''(nil)'' else ''0x'' @ show_base 16 (unat p))"

subsection \<open>Escaping and copying of strings\<close>

definition schar :: "char \<Rightarrow> int" where
  "schar c = (let n = int (of_char c) in if n < 128 then n else n - 256)"

definition is_print :: "int \<Rightarrow> bool \<Rightarrow> bool" where
  "is_print c allow_space \<longleftrightarrow>
     \<not> ((c \<le> 34 \<or> c = 96 \<or> c = 92) \<and> \<not> (allow_space \<and> c = 32))"

definition log_strlen :: "string option \<Rightarrow> bool \<Rightarrow> bool \<Rightarrow> nat" where
  "log_strlen str is_alt allow_space =
     (case str of
        None \<Rightarrow> if is_alt then length ''-'' else length ''(null)''
      | Some s \<Rightarrow> sum_list (map (\<lambda>c. if is_print (schar c) allow_space then 1 else 4) s)
                 + (if is_alt then 2 else 0))"

definition hextable :: string where
  "hextable = ''0123456789abcdef''"

definition escape_char :: "char \<Rightarrow> string" where
  "escape_char c = (let n = of_char c :: nat in
     [CHR 0x5C, CHR ''x'', hextable ! (n mod 16), hextable ! (n div 16 mod 16)])"

fun copy_plain :: "string \<Rightarrow> nat \<Rightarrow> int \<Rightarrow> string \<times> nat \<times> int" where
  "copy_plain [] room len = ([], room, len)"
| "copy_plain (c # cs) room len =
     (if len = 0 \<or> room = 0 then ([], room, len)
      else (let (out, room', len') = copy_plain cs (room - 1) (len - 1) in (c # out, room', len')))"

fun copy_escaped :: "bool \<Rightarrow> string \<Rightarrow> nat \<Rightarrow> int \<Rightarrow> string \<times> nat \<times> int" where
  "copy_escaped space [] room len = ([], room, len)"
| "copy_escaped space (c # cs) room len =
     (if len = 0 \<or> room = 0 then ([], room, len)
      else if \<not> is_print (schar c) space then
        (if room < 4 \<or> len < 4
         then (let (out, room', len') = copy_escaped space cs (room - 1) (len - 1)
               in (CHR ''.'' # out, room', len'))
         else (let (out, room', len') = copy_escaped space cs (room - 4) (len - 4)
               in (escape_char c @ out, room', len')))
      else (let (out, room', len') = copy_escaped space cs (room - 1) (len - 1)
            in (c # out, room', len')))"

definition put_quote :: "bool \<Rightarrow> char \<Rightarrow> nat \<Rightarrow> int \<Rightarrow> string \<times> nat \<times> int" where
  "put_quote wanted q room len =
     (if wanted \<and> room \<noteq> 0 \<and> len \<noteq> 0 then ([q], room - 1, len - 1) else ([], room, len))"

definition put_string :: "char \<Rightarrow> string option \<Rightarrow> bool \<Rightarrow> bool \<Rightarrow> nat \<Rightarrow> int \<Rightarrow> string \<times> nat" where
  "put_string c arg alt space room len =
     (case arg of
        None \<Rightarrow> (let (out, room', len') = put_quote True (CHR ''-'') room len in (out, room'))
      | Some s \<Rightarrow>
          if c = CHR ''H'' then
            (let (q1, size1, len1) = put_quote alt (CHR 0x22) room len;
                 (out, size2, len2) = copy_escaped space s size1 len1;
                 (q2, size3, len3) = put_quote alt (CHR 0x22) size2 len2
             in (q1 @ out @ q2, size3))
          else (let (out, room', len') = copy_plain s room len in (out, room')))"

subsection \<open>The directives\<close>

fun va_int :: "log_arg list \<Rightarrow> (32 word \<times> log_arg list) option" where
  "va_int (A_int w # ap) = Some (w, ap)"
| "va_int _ = None"

fun va_long :: "log_arg list \<Rightarrow> (64 word \<times> log_arg list) option" where
  "va_long (A_long w # ap) = Some (w, ap)"
| "va_long _ = None"

fun va_ptr :: "log_arg list \<Rightarrow> (64 word \<times> log_arg list) option" where
  "va_ptr (A_ptr w # ap) = Some (w, ap)"
| "va_ptr _ = None"

fun va_str :: "log_arg list \<Rightarrow> (string option \<times> log_arg list) option" where
  "va_str (A_str s # ap) = Some (map_option cstr s, ap)"
| "va_str _ = None"

definition number_text :: "char \<Rightarrow> int \<Rightarrow> log_arg list \<Rightarrow> (string \<times> log_arg list) option" where
  "number_text c bsize ap =
     (if bsize = 0 then do {
        (w, ap) \<leftarrow> va_int ap;
        Some (if c = CHR ''u'' then show_base 10 (unat w) else show_int (sint w), ap) }
      else if bsize = 1 \<or> bsize = 2 \<or> bsize = 122 then do {
        (w, ap) \<leftarrow> va_long ap;
        Some (if c = CHR ''u'' then show_base 10 (unat w) else show_int (sint w), ap) }
      else Some (''<<<invalid>>>'', ap))"

definition directive_arg :: "char \<Rightarrow> int \<Rightarrow> log_arg list \<Rightarrow> (string option \<times> log_arg list) option" where
  "directive_arg c bsize ap =
     (if c = CHR ''p'' then do { (w, ap) \<leftarrow> va_ptr ap; Some (Some (show_ptr w), ap) }
      else if c \<in> set ''diu'' then do { (t, ap) \<leftarrow> number_text c bsize ap; Some (Some t, ap) }
      else va_str ap)"

definition int_of_long :: "int \<Rightarrow> int" where
  "int_of_long i = sint (word_of_int i :: 32 word)"

definition put_directive ::
  "vblock \<Rightarrow> char \<Rightarrow> nat \<Rightarrow> log_arg list \<Rightarrow> (string \<times> nat \<times> log_arg list) option" where
  "put_directive b c room ap = do {
     (arg, ap) \<leftarrow> directive_arg c (block_size b) ap;
     let alt = (c = CHR ''H'' \<and> block_alt b);
     let arg = (if arg = None \<and> \<not> alt then Some ''(null)'' else arg);
     let len = (if block_len b = 0 then int_of_long (int (log_strlen arg alt (block_space b)))
                else block_len b);
     let (out, room) = put_string c arg alt (block_space b) room len;
     Some (out, room, ap) }"

definition vsn_directive ::
  "vblock \<Rightarrow> char \<Rightarrow> string \<Rightarrow> nat \<Rightarrow> log_arg list \<Rightarrow>
     (string \<times> vblock \<times> string \<times> nat \<times> log_arg list) option" where
  "vsn_directive b c cs room ap =
     (if c = CHR ''l'' then Some ([], b\<lparr>block_size := block_size b + 1\<rparr>, cs, room, ap)
      else if c = CHR ''z'' then Some ([], b\<lparr>block_size := 122\<rparr>, cs, room, ap)
      else if c = CHR ''.'' then Some ([], b, cs, room, ap)
      else if c = CHR ''*'' then do {
        (w, ap) \<leftarrow> va_int ap;
        Some ([], b\<lparr>block_len := sint w\<rparr>, cs, room, ap) }
      else if c = CHR '' '' then Some ([], b\<lparr>block_space := True\<rparr>, cs, room, ap)
      else if c = CHR ''#'' then Some ([], b\<lparr>block_alt := True\<rparr>, cs, room, ap)
      else if is_digit c \<and> c \<noteq> CHR ''0'' then do {
        n \<leftarrow> atoi (c # cs);
        Some ([], b\<lparr>block_len := n\<rparr>, dropWhile is_digit cs, room, ap) }
      else if c \<in> set ''pdiusH'' then do {
        (out, room, ap) \<leftarrow> put_directive b c room ap;
        Some (out, b\<lparr>in_block := False\<rparr>, cs, room, ap) }
      else Some ([], b, cs, room, ap))"

lemma vsn_directive_rest:
  assumes "vsn_directive b c cs room ap = Some (out, b', cs', room', ap')"
  shows "length cs' \<le> length cs"
  using assms length_dropWhile_le [of is_digit cs]
  unfolding vsn_directive_def
  by (auto split: if_split_asm elim!: bind_SomeE)

subsection \<open>The loop\<close>

definition put_front :: "string \<Rightarrow> (string \<times> nat) option \<Rightarrow> (string \<times> nat) option" where
  "put_front out r = map_option (apfst ((@) out)) r"

function vsn_loop :: "vblock \<Rightarrow> string \<Rightarrow> nat \<Rightarrow> log_arg list \<Rightarrow> (string \<times> nat) option" where
  "vsn_loop b [] room ap = Some ([], room)"
| "vsn_loop b (c # cs) room ap =
     (if room = 0 then Some ([], 0)
      else if \<not> in_block b then
        (if c = CHR ''%''
         then vsn_loop \<lparr>in_block = True, block_size = 0, block_len = 0,
                        block_space = False, block_alt = False\<rparr> cs room ap
         else put_front [c] (vsn_loop b cs (room - 1) ap))
      else (case vsn_directive b c cs room ap of
              None \<Rightarrow> None
            | Some (out, b', cs', room', ap') \<Rightarrow> put_front out (vsn_loop b' cs' room' ap')))"
  by pat_completeness auto

termination
  by (relation "measure (\<lambda>(b, cs, room, ap). length cs)")
    (auto dest: vsn_directive_rest)

definition no_block :: vblock where
  "no_block = \<lparr>in_block = False, block_size = 0, block_len = 0,
               block_space = False, block_alt = False\<rparr>"

definition vsnprintf_log :: "nat \<Rightarrow> string \<Rightarrow> log_arg list \<Rightarrow> string option" where
  "vsnprintf_log room format ap =
     (if room = 0 then None
      else do {
        (out, left_over) \<leftarrow> vsn_loop no_block (cstr format) room ap;
        Some (if left_over = 0 then butlast out else out) })"

subsection \<open>The buffer is never overrun\<close>

lemma copy_plain_room:
  "copy_plain s room len = (out, room', len') \<Longrightarrow> length out + room' = room \<and> set out \<subseteq> set s"
  by (induction s room len arbitrary: out room' len' rule: copy_plain.induct)
    (auto split: if_split_asm prod.split_asm)

lemma escape_char_length [simp]: "length (escape_char c) = 4"
  by (simp add: escape_char_def Let_def)

lemma copy_escaped_room:
  "copy_escaped sp s room len = (out, room', len') \<Longrightarrow> length out + room' = room"
  by (induction sp s room len arbitrary: out room' len' rule: copy_escaped.induct)
    (auto simp: Let_def split: if_split_asm prod.split_asm)

lemma put_quote_room:
  "put_quote w q room len = (out, room', len') \<Longrightarrow> length out + room' = room \<and> set out \<subseteq> {q}"
  by (auto simp: put_quote_def split: if_split_asm)

lemma put_string_room:
  assumes "put_string c arg alt sp room len = (out, room')"
  shows "length out + room' = room"
  using assms unfolding put_string_def
  by (auto simp: Let_def split: option.split_asm if_split_asm prod.split_asm
      dest!: put_quote_room copy_escaped_room copy_plain_room)

lemma put_directive_room:
  assumes "put_directive b c room ap = Some (out, room', ap')"
  shows "length out + room' = room"
  using assms unfolding put_directive_def
  by (auto simp: Let_def split: prod.split_asm elim!: bind_SomeE dest: put_string_room
      simp del: split_paired_Ex)

lemma vsn_directive_cases:
  assumes "vsn_directive b c cs room ap = Some (out, b', cs', room', ap')"
  shows "put_directive b c room ap = Some (out, room', ap') \<and> cs' = cs \<or>
    out = [] \<and> room' = room \<and> set cs' \<subseteq> set cs"
proof (cases "c \<in> set ''pdiusH'' \<and> \<not> is_digit c")
  case True
  then show ?thesis
    using assms by (auto simp: vsn_directive_def split: bind_split_asm)
next
  case False
  have "is_digit c \<Longrightarrow> c \<notin> set ''pdiusH''" by (auto simp: is_digit_def)
  with False assms show ?thesis
    by (auto simp: vsn_directive_def split: if_split_asm bind_split_asm dest: set_dropWhileD)
qed

lemma vsn_directive_room:
  assumes "vsn_directive b c cs room ap = Some (out, b', cs', room', ap')"
  shows "length out + room' = room"
  using vsn_directive_cases [OF assms] put_directive_room by auto

lemma put_front_Some:
  "put_front p r = Some (out, k) \<longleftrightarrow> (\<exists>o'. r = Some (o', k) \<and> out = p @ o')"
  by (cases r) (auto simp: put_front_def)

lemma vsn_loop_room:
  "vsn_loop b cs room ap = Some (out, k) \<Longrightarrow> length out + k = room"
  by (induction b cs room ap arbitrary: out k rule: vsn_loop.induct)
    (auto simp: put_front_Some split: if_split_asm option.split_asm prod.split_asm
      dest!: vsn_directive_room)

subsection \<open>The escaping of \<open>%H\<close>\<close>

text \<open>What the escaping is for: \<open>escape_string\<close> is the text with unlimited room,
\<open>unescape\<close> is a reader that gives the original string back.\<close>

definition escape_string :: "bool \<Rightarrow> string \<Rightarrow> string" where
  "escape_string sp s = concat (map (\<lambda>c. if is_print (schar c) sp then [c] else escape_char c) s)"

definition visible :: "char \<Rightarrow> bool" where
  "visible c \<longleftrightarrow> (let n = of_char c :: nat in 32 \<le> n \<and> n < 127)"

text \<open>The one control character that the code takes for a visible one.\<close>

definition DEL :: char where
  "DEL = CHR 0x7F"

definition hex_digit_value :: "char \<Rightarrow> nat" where
  "hex_digit_value c = (let n = of_char c in if n < 58 then n - 48 else n - 87)"

fun unescape :: "string \<Rightarrow> string" where
  "unescape (b # x # lo # hi # cs) =
     (if b = CHR 0x5C
      then char_of (hex_digit_value lo + 16 * hex_digit_value hi) # unescape cs
      else b # unescape (x # lo # hi # cs))"
| "unescape (b # cs) = b # unescape cs"
| "unescape [] = []"

lemma nibble_cases:
  assumes "n < (16::nat)"
  shows "n \<in> {0, 1, 2, 3, 4, 5, 6, 7, 8, 9, 10, 11, 12, 13, 14, 15}"
  using assms by (simp add: numeral_eq_Suc less_Suc_eq)

lemma hextable_value:
  assumes "n < 16"
  shows "hex_digit_value (hextable ! n) = n"
  using nibble_cases [OF assms]
  by (elim insertE emptyE) (simp_all add: hextable_def hex_digit_value_def Let_def)

lemma hextable_visible:
  assumes "n < 16"
  shows "visible (hextable ! n)"
  using nibble_cases [OF assms]
  by (auto simp: hextable_def visible_def)

lemma unescape_backslash:
  "unescape (CHR 0x5C # x # lo # hi # cs) =
     char_of (hex_digit_value lo + 16 * hex_digit_value hi) # unescape cs"
  by simp

lemma unescape_other: "b \<noteq> CHR 0x5C \<Longrightarrow> unescape (b # cs) = b # unescape cs"
  by (cases cs rule: unescape.cases) auto

lemma unescape_escape_char: "unescape (escape_char c @ cs) = c # unescape cs"
proof -
  let ?n = "of_char c :: nat"
  have "?n < 256" by simp
  then have "?n div 16 < 16" by linarith
  then have "hex_digit_value (hextable ! (?n div 16 mod 16)) = ?n div 16"
    by (simp add: hextable_value)
  moreover have "hex_digit_value (hextable ! (?n mod 16)) = ?n mod 16"
    by (simp add: hextable_value)
  moreover have "?n mod 16 + 16 * (?n div 16) = ?n" by presburger
  ultimately show ?thesis by (simp add: escape_char_def Let_def)
qed

lemma schar_backslash [simp]: "schar (CHR 0x5C) = 92"
  by (simp add: schar_def)

theorem unescape_escape_string: "unescape (escape_string sp s) = s"
proof (induction s)
  case Nil
  then show ?case by (simp add: escape_string_def)
next
  case (Cons c s)
  have "is_print (schar c) sp \<Longrightarrow> c \<noteq> CHR 0x5C" by (auto simp: is_print_def)
  with Cons show ?case
    by (simp add: escape_string_def unescape_escape_char unescape_other del: unescape.simps)
qed

lemma copy_escaped_all:
  assumes "length (escape_string sp s) < room"
    and "int (length (escape_string sp s)) \<le> len"
  shows "\<exists>len'. copy_escaped sp s room len =
    (escape_string sp s, room - length (escape_string sp s), len')"
  using assms
proof (induction s arbitrary: room len)
  case Nil
  then show ?case by (simp add: escape_string_def)
next
  case (Cons c s)
  show ?case
  proof (cases "is_print (schar c) sp")
    case True
    then have "length (escape_string sp s) < room - 1" "int (length (escape_string sp s)) \<le> len - 1"
      using Cons.prems by (auto simp: escape_string_def)
    from Cons.IH [OF this] True Cons.prems show ?thesis
      by (auto simp: escape_string_def)
  next
    case False
    then have "length (escape_string sp s) < room - 4" "int (length (escape_string sp s)) \<le> len - 4"
      using Cons.prems by (auto simp: escape_string_def)
    from Cons.IH [OF this] False Cons.prems show ?thesis
      by (auto simp: escape_string_def)
  qed
qed

lemma log_strlen_escape:
  "log_strlen (Some s) alt sp = length (escape_string sp s) + (if alt then 2 else 0)"
  by (induction s) (auto simp: log_strlen_def escape_string_def)

subsection \<open>Escaped text is visible text\<close>

lemma print_visible: "is_print (schar c) sp \<Longrightarrow> visible c \<or> c = DEL"
proof -
  define n where "n = (of_char c :: nat)"
  have "n < 256" by (simp add: n_def)
  moreover have "schar c = (if int n < 128 then int n else int n - 256)"
    by (simp only: schar_def n_def Let_def)
  moreover have "visible c \<longleftrightarrow> 32 \<le> n \<and> n < 127"
    by (simp only: visible_def n_def Let_def)
  moreover have "c = DEL" if "n = 127"
  proof -
    have "of_char c = (of_char DEL :: nat)" using that by (simp add: n_def DEL_def)
    then show ?thesis by (simp only: of_char_eq_iff)
  qed
  ultimately show "is_print (schar c) sp \<Longrightarrow> visible c \<or> c = DEL"
    by (auto simp: is_print_def split: if_split_asm)
qed

lemma visible_NUL: "visible c \<Longrightarrow> c \<noteq> NUL"
  by (auto simp: visible_def NUL_def)

lemma DEL_NUL: "DEL \<noteq> NUL"
  by (simp add: DEL_def NUL_def)

lemma escape_char_visible: "\<forall>d \<in> set (escape_char c). visible d"
proof -
  have "visible (CHR ''x'')" "visible (CHR 0x5C)" by (simp_all add: visible_def)
  then show ?thesis
    using hextable_visible [of "of_char c mod 16"] hextable_visible [of "of_char c div 16 mod 16"]
    by (simp add: escape_char_def Let_def)
qed

lemma copy_escaped_visible:
  "copy_escaped sp s room len = (out, room', len') \<Longrightarrow> \<forall>d \<in> set out. visible d \<or> d = DEL \<and> DEL \<in> set s"
proof (induction sp s room len arbitrary: out room' len' rule: copy_escaped.induct)
  case (1 sp room len)
  then show ?case by simp
next
  case (2 sp c cs room len)
  have "visible (CHR ''.'')" by (simp add: visible_def)
  with 2 show ?case
    using escape_char_visible [of c] print_visible [of c sp]
    by (fastforce simp: Let_def split: if_split_asm prod.split_asm)
qed

end
