(* ===== verification/Stdio.thy ===== *)
theory Stdio
  imports CString
begin

section \<open>The buffered files of the C library\<close>

text \<open>
  The part of the C standard library the log library calls: a directory of names, the
  contents of the files, and the open \<open>FILE\<close>s, each with the text it has not yet
  written and its buffering mode. Whether a name can be opened, whether a file accepts more
  text and whether a name can be changed is part of the state, so a proof covers both outcomes. Using a \<open>FILE\<close> that is
  NULL or closed is undefined behaviour and gives \<open>None\<close>. \<open>date_text\<close> is what
  \<open>strftime\<close> makes of a format at the current local time.
\<close>

type_synonym file_ptr = "nat option"

record stream =
  inode :: nat
  pending :: string
  line_buffered :: bool

record disk =
  names :: "string \<Rightarrow> nat option"
  bodies :: "nat \<Rightarrow> string"
  streams :: "nat \<Rightarrow> stream option"
  next_id :: nat
  refuses :: "string \<Rightarrow> bool"
  is_full :: "nat \<Rightarrow> bool"
  is_stuck :: "string \<Rightarrow> bool"
  date_text :: "string \<Rightarrow> string"

definition flushed :: "stream \<Rightarrow> string \<Rightarrow> disk \<Rightarrow> disk" where
  "flushed s t d = (if is_full d (inode s) then d
     else d\<lparr>bodies := (bodies d)(inode s := bodies d (inode s) @ t)\<rparr>)"

definition fopen_append :: "string \<Rightarrow> disk \<Rightarrow> file_ptr \<times> disk" where
  "fopen_append name d =
     (if refuses d name then (None, d)
      else (let f = next_id d in
        (case names d name of
           Some i \<Rightarrow> (Some f, d\<lparr>next_id := Suc f, streams := (streams d)
                       (f \<mapsto> \<lparr>inode = i, pending = [], line_buffered = False\<rparr>)\<rparr>)
         | None \<Rightarrow> (Some f, d\<lparr>next_id := Suc (Suc f), names := (names d)(name \<mapsto> Suc f),
                       bodies := (bodies d)(Suc f := []), streams := (streams d)
                       (f \<mapsto> \<lparr>inode = Suc f, pending = [], line_buffered = False\<rparr>)\<rparr>))))"

definition setvbuf_line :: "nat \<Rightarrow> disk \<Rightarrow> disk" where
  "setvbuf_line f d =
     d\<lparr>streams := (streams d)(f := map_option (line_buffered_update (\<lambda>_. True)) (streams d f))\<rparr>"

definition upto_last_lf :: "string \<Rightarrow> string" where
  "upto_last_lf t = rev (dropWhile (\<lambda>c. c \<noteq> LF) (rev t))"

definition after_last_lf :: "string \<Rightarrow> string" where
  "after_last_lf t = rev (takeWhile (\<lambda>c. c \<noteq> LF) (rev t))"

definition fprintf :: "file_ptr \<Rightarrow> string \<Rightarrow> disk \<Rightarrow> (int \<times> disk) option" where
  "fprintf fp t d = do {
     f \<leftarrow> fp;
     s \<leftarrow> streams d f;
     if is_full d (inode s) then Some (-1, d)
     else (let p = pending s @ t in
       if line_buffered s
       then Some (int (length t), (flushed s (upto_last_lf p) d)
              \<lparr>streams := (streams d)(f \<mapsto> s\<lparr>pending := after_last_lf p\<rparr>)\<rparr>)
       else Some (int (length t), d\<lparr>streams := (streams d)(f \<mapsto> s\<lparr>pending := p\<rparr>)\<rparr>)) }"

definition fflush_one :: "nat \<Rightarrow> disk \<Rightarrow> disk option" where
  "fflush_one f d = do {
     s \<leftarrow> streams d f;
     Some ((flushed s (pending s) d)\<lparr>streams := (streams d)(f \<mapsto> s\<lparr>pending := []\<rparr>)\<rparr>) }"

fun fflush_all :: "nat \<Rightarrow> disk \<Rightarrow> disk" where
  "fflush_all 0 d = d"
| "fflush_all (Suc f) d =
     (let d' = fflush_all f d in case fflush_one f d' of None \<Rightarrow> d' | Some d'' \<Rightarrow> d'')"

definition fflush :: "file_ptr \<Rightarrow> disk \<Rightarrow> disk option" where
  "fflush fp d = (case fp of None \<Rightarrow> Some (fflush_all (next_id d) d) | Some f \<Rightarrow> fflush_one f d)"

definition fclose :: "nat \<Rightarrow> disk \<Rightarrow> disk option" where
  "fclose f d = do {
     d \<leftarrow> fflush_one f d;
     Some (d\<lparr>streams := (streams d)(f := None)\<rparr>) }"

definition rename_file :: "string \<Rightarrow> string \<Rightarrow> disk \<Rightarrow> disk" where
  "rename_file old new d =
     (case names d old of
        None \<Rightarrow> d
      | Some i \<Rightarrow> if old = new \<or> is_stuck d old then d
                  else d\<lparr>names := (names d)(old := None, new \<mapsto> i)\<rparr>)"

definition stat_size :: "string \<Rightarrow> disk \<Rightarrow> 64 word option" where
  "stat_size name d = map_option (\<lambda>i. word_of_nat (length (bodies d i))) (names d name)"

definition strftime_text :: "nat \<Rightarrow> string \<Rightarrow> disk \<Rightarrow> string" where
  "strftime_text size_max fmt d =
     (let t = date_text d fmt in if length t < size_max then t else [])"

subsection \<open>Which files are open\<close>

text \<open>No operation but \<open>fclose\<close> closes a \<open>FILE\<close>, and identifiers are not used again.\<close>

definition disk_ok :: "disk \<Rightarrow> bool" where
  "disk_ok d \<longleftrightarrow> (\<forall>f. streams d f \<noteq> None \<longrightarrow> f < next_id d)"

definition open_file :: "disk \<Rightarrow> nat \<Rightarrow> bool" where
  "open_file d f \<longleftrightarrow> streams d f \<noteq> None"

lemma open_file_flushed [simp]: "open_file (flushed s t d) = open_file d"
  "next_id (flushed s t d) = next_id d" "streams (flushed s t d) = streams d"
  by (auto simp: flushed_def open_file_def fun_eq_iff)

lemma open_file_rename [simp]: "open_file (rename_file a b d) = open_file d"
  "next_id (rename_file a b d) = next_id d" "streams (rename_file a b d) = streams d"
  by (auto simp: rename_file_def open_file_def fun_eq_iff split: option.split)

lemma open_file_setvbuf [simp]: "open_file (setvbuf_line f d) = open_file d"
  "next_id (setvbuf_line f d) = next_id d"
  by (auto simp: setvbuf_line_def open_file_def fun_eq_iff)

lemma disk_ok_iff: "disk_ok d \<longleftrightarrow> (\<forall>f. open_file d f \<longrightarrow> f < next_id d)"
  by (simp add: disk_ok_def open_file_def)

lemma fprintf_total:
  assumes "open_file d f"
  shows "\<exists>n d'. fprintf (Some f) t d = Some (n, d') \<and> open_file d' = open_file d \<and>
    next_id d' = next_id d \<and> (n = -1 \<or> n = int (length t))"
  using assms by (auto simp: fprintf_def open_file_def fun_eq_iff Let_def)

lemma fflush_one_open:
  "fflush_one f d = Some d' \<Longrightarrow> open_file d' = open_file d \<and> next_id d' = next_id d"
  by (auto simp: fflush_one_def open_file_def fun_eq_iff split: if_split_asm elim!: bind_SomeE)

lemma fflush_one_total:
  assumes "open_file d f"
  shows "\<exists>d'. fflush_one f d = Some d' \<and> open_file d' = open_file d \<and> next_id d' = next_id d"
  using assms fflush_one_open [of f d]
  by (cases "fflush_one f d") (auto simp: fflush_one_def open_file_def)

lemma fflush_all_open [simp]:
  "open_file (fflush_all k d) = open_file d" "next_id (fflush_all k d) = next_id d"
  by (induction k) (auto simp: Let_def dest: fflush_one_open split: option.splits)

lemma fflush_total:
  assumes "\<And>f. fp = Some f \<Longrightarrow> open_file d f"
  shows "\<exists>d'. fflush fp d = Some d' \<and> open_file d' = open_file d \<and> next_id d' = next_id d"
  using assms fflush_one_total by (cases fp) (auto simp: fflush_def)

lemma fclose_total:
  assumes "open_file d f"
  shows "\<exists>d'. fclose f d = Some d' \<and> open_file d' = (open_file d)(f := False) \<and>
    next_id d' = next_id d"
  using assms by (auto simp: fclose_def fflush_one_def open_file_def fun_eq_iff)

lemma fopen_append_open:
  assumes "fopen_append name d = (fp, d')" and "disk_ok d"
  shows "disk_ok d' \<and> (case fp of None \<Rightarrow> d' = d | Some f \<Rightarrow>
    \<not> open_file d f \<and> open_file d' = (open_file d)(f := True))"
  using assms
  by (fastforce simp: fopen_append_def disk_ok_def open_file_def fun_eq_iff Let_def
      split: if_split_asm option.split_asm)

end
