(* ===== verification/Log_State.thy ===== *)
theory Log_State
  imports Log_Format Stdio
begin

section \<open>The log library: \<open>log/log.c\<close>\<close>

text \<open>
  The static table \<open>loglist\<close>, the mutex that guards it and the linked lines
  each log keeps in memory. Entries live in a heap of cells; freeing one removes its cell, and
  an address is never used again, so that reading or writing a freed entry gives
  \<open>None\<close>. \<open>log_tail\<close> is the address of a pointer: of \<open>log_head\<close>
  itself or of the \<open>next\<close> field of an entry. The calls of the C code to
  \<open>malloc\<close> are not checked and are modelled as succeeding. Every operation gives
  \<open>None\<close> where the C code has no defined behaviour.
\<close>

subsection \<open>Data\<close>

record log_entry =
  e_line :: string
  e_len :: "32 word"
  e_next :: ptr

datatype tail_ptr = Tail_Null | Tail_Head | Tail_Next addr

datatype cname = No_Name | Name string | Freed_Name

record log_t =
  l_in_use :: bool
  l_level :: "32 word"
  l_filename :: cname
  l_logfile :: file_ptr
  l_size :: "64 word"
  l_trigger :: "64 word"
  l_archive :: bool
  l_total :: "64 word"
  l_entries :: "32 word"
  l_keep :: "32 word"
  l_head :: ptr
  l_tail :: tail_ptr
  l_buffer :: "string option"

datatype mutex = No_Mutex | Unlocked | Locked

type_synonym entry_heap = "addr \<Rightarrow> log_entry option"

record logger =
  mutex :: mutex
  initialized :: bool
  loglist :: "log_t list"
  entry_heap :: entry_heap
  next_entry :: addr
  disk :: disk

definition LOG_MAXLOGS :: nat where "LOG_MAXLOGS = 25"
definition LOG_MAXLINELEN :: nat where "LOG_MAXLINELEN = 1024"
definition LOG_EINSANE :: int where "LOG_EINSANE = -1"
definition LOG_ENOMORELOGS :: int where "LOG_ENOMORELOGS = -2"
definition LOG_ENOTIMPL :: int where "LOG_ENOTIMPL = -5"

definition slot :: "logger \<Rightarrow> nat \<Rightarrow> log_t" where
  "slot g i = loglist g ! i"

definition set_slot :: "nat \<Rightarrow> log_t \<Rightarrow> logger \<Rightarrow> logger" where
  "set_slot i l g = g\<lparr>loglist := (loglist g)[i := l]\<rparr>"

definition bad_id :: "int \<Rightarrow> bool" where
  "bad_id log_id \<longleftrightarrow> log_id < 0 \<or> log_id \<ge> int LOG_MAXLOGS"

definition lock_logger :: "logger \<Rightarrow> logger option" where
  "lock_logger g = (if mutex g = Unlocked then Some (g\<lparr>mutex := Locked\<rparr>) else None)"

definition unlock_logger :: "logger \<Rightarrow> logger option" where
  "unlock_logger g = (if mutex g = Locked then Some (g\<lparr>mutex := Unlocked\<rparr>) else None)"

subsection \<open>Starting and stopping\<close>

definition fresh_log :: "log_t \<Rightarrow> log_t" where
  "fresh_log l = l\<lparr>l_in_use := False, l_level := 2, l_size := 0, l_trigger := 1000000000,
     l_filename := No_Name, l_logfile := None, l_buffer := None, l_total := 0, l_entries := 0,
     l_keep := 0, l_head := None, l_tail := Tail_Head\<rparr>"

definition log_initialize :: "logger \<Rightarrow> logger" where
  "log_initialize g =
     (if initialized g then g
      else g\<lparr>loglist := map fresh_log (loglist g), mutex := Unlocked, initialized := True\<rparr>)"

definition log_shutdown :: "logger \<Rightarrow> logger option" where
  "log_shutdown g =
     (if mutex g = Unlocked then Some (g\<lparr>mutex := No_Mutex, initialized := False\<rparr>) else None)"

text \<open>The static data before the first call: all zeros.\<close>

definition zero_log :: log_t where
  "zero_log = \<lparr>l_in_use = False, l_level = 0, l_filename = No_Name, l_logfile = None,
     l_size = 0, l_trigger = 0, l_archive = False, l_total = 0, l_entries = 0, l_keep = 0,
     l_head = None, l_tail = Tail_Null, l_buffer = None\<rparr>"

definition static_logger :: "disk \<Rightarrow> logger" where
  "static_logger d = \<lparr>mutex = No_Mutex, initialized = False,
     loglist = replicate LOG_MAXLOGS zero_log, entry_heap = (\<lambda>_. None), next_entry = 0, disk = d\<rparr>"

subsection \<open>Opening the file of a log\<close>

definition archive_name :: "log_t \<Rightarrow> string \<Rightarrow> disk \<Rightarrow> string" where
  "archive_name l f d = take 4095
     (f @ (if l_archive l then ''.'' @ strftime_text 128 ''%Y%m%d_%H%M%S'' d else ''.old''))"

definition wants_open :: "log_t \<Rightarrow> bool" where
  "wants_open l \<longleftrightarrow> l_logfile l = None \<or> l_trigger l \<noteq> 0 \<and> sint (l_trigger l) < sint (l_size l)"

definition archive_file :: "log_t \<Rightarrow> string \<Rightarrow> disk \<Rightarrow> disk option" where
  "archive_file l f d =
     (case l_logfile l of
        None \<Rightarrow> Some d
      | Some fp \<Rightarrow> do { d \<leftarrow> fclose fp d; Some (rename_file f (archive_name l f d) d) })"

definition open_log_file :: "log_t \<Rightarrow> string \<Rightarrow> disk \<Rightarrow> bool \<times> log_t \<times> disk" where
  "open_log_file l f d =
     (case fopen_append f d of
        (None, d) \<Rightarrow> (False, l\<lparr>l_logfile := None\<rparr>, d)
      | (Some fp, d) \<Rightarrow>
          (let d = setvbuf_line fp d in
             (True, l\<lparr>l_logfile := Some fp,
                l_size := (case stat_size f d of None \<Rightarrow> 0 | Some n \<Rightarrow> n)\<rparr>, d)))"

definition log_open_now :: "nat \<Rightarrow> logger \<Rightarrow> (bool \<times> logger) option" where
  "log_open_now lid g =
     (let l = slot g lid in
      if \<not> l_in_use l then Some (False, g)
      else if wants_open l then
        (case l_filename l of
           No_Name \<Rightarrow> Some (True, set_slot lid (l\<lparr>l_size := 0\<rparr>) g)
         | Freed_Name \<Rightarrow> None
         | Name f \<Rightarrow> do {
             d \<leftarrow> archive_file l f (disk g);
             let (r, l, d) = open_log_file l f d;
             Some (r, (set_slot lid l g)\<lparr>disk := d\<rparr>) })
      else Some (True, g))"

fun find_free :: "log_t list \<Rightarrow> nat \<Rightarrow> nat option" where
  "find_free [] i = None"
| "find_free (l # ls) i = (if l_in_use l then find_free ls (Suc i) else Some i)"

definition get_log_id :: "logger \<Rightarrow> (int \<times> logger) option" where
  "get_log_id g = do {
     g \<leftarrow> lock_logger g;
     let (lid, g) = (case find_free (loglist g) 0 of
         None \<Rightarrow> (-1, g)
       | Some i \<Rightarrow> (int i, set_slot i ((slot g i)\<lparr>l_in_use := True\<rparr>) g));
     g \<leftarrow> unlock_logger g;
     Some (lid, g) }"

definition log_open_file :: "file_ptr \<Rightarrow> logger \<Rightarrow> (int \<times> logger) option" where
  "log_open_file fp g =
     (if fp = None then Some (LOG_EINSANE, g)
      else do {
        (lid, g) \<leftarrow> get_log_id g;
        if lid < 0 then Some (LOG_ENOMORELOGS, g)
        else Some (lid, set_slot (nat lid)
          ((slot g (nat lid))\<lparr>l_logfile := fp, l_filename := No_Name, l_size := 0\<rparr>) g) })"

definition log_open :: "string option \<Rightarrow> logger \<Rightarrow> (int \<times> logger) option" where
  "log_open filename g =
     (case filename of
        None \<Rightarrow> Some (LOG_EINSANE, g)
      | Some f \<Rightarrow>
          if strcmp f [] = 0 then Some (LOG_EINSANE, g)
          else (let (fp, d) = fopen_append f (disk g) in do {
            (lid, g) \<leftarrow> log_open_file fp (g\<lparr>disk := d\<rparr>);
            if lid < 0 then Some (lid, g)
            else (let l = slot g (nat lid);
                      d = (case l_logfile l of None \<Rightarrow> disk g | Some p \<Rightarrow> setvbuf_line p (disk g));
                      l = l\<lparr>l_filename := Name f,
                            l_size := (case stat_size f d of None \<Rightarrow> l_size l | Some n \<Rightarrow> n),
                            l_entries := 0, l_head := None, l_tail := Tail_Head\<rparr>
                  in Some (lid, (set_slot (nat lid) l g)\<lparr>disk := d\<rparr>)) }))"

definition log_open_with_buffer :: "string option \<Rightarrow> int \<Rightarrow> logger \<Rightarrow> (int \<times> logger) option" where
  "log_open_with_buffer filename n g = Some (LOG_ENOTIMPL, g)"

subsection \<open>Settings\<close>

definition log_set_trigger :: "int \<Rightarrow> 32 word \<Rightarrow> logger \<Rightarrow> logger" where
  "log_set_trigger lid trigger g =
     (if \<not> bad_id lid \<and> l_in_use (slot g (nat lid))
      then set_slot (nat lid) ((slot g (nat lid))\<lparr>l_trigger := ucast (trigger * 1024)\<rparr>) g
      else g)"

definition log_set_filename :: "int \<Rightarrow> string option \<Rightarrow> logger \<Rightarrow> (int \<times> logger) option" where
  "log_set_filename lid filename g =
     (if bad_id lid then Some (LOG_EINSANE, g)
      else if (case filename of None \<Rightarrow> False | Some f \<Rightarrow> strcmp f [] = 0)
              \<or> \<not> l_in_use (slot g (nat lid)) then Some (LOG_EINSANE, g)
      else do {
        g \<leftarrow> lock_logger g;
        let l = slot g (nat lid);
        if l_filename l = Freed_Name then None
        else do {
          g \<leftarrow> unlock_logger (set_slot (nat lid)
            (l\<lparr>l_filename := (case filename of None \<Rightarrow> No_Name | Some f \<Rightarrow> Name f)\<rparr>) g);
          Some (lid, g) } })"

definition log_set_archive_timestamp :: "int \<Rightarrow> bool \<Rightarrow> logger \<Rightarrow> (int \<times> logger) option" where
  "log_set_archive_timestamp lid v g =
     (if bad_id lid then Some (LOG_EINSANE, g)
      else do {
        g \<leftarrow> lock_logger g;
        g \<leftarrow> unlock_logger (set_slot (nat lid) ((slot g (nat lid))\<lparr>l_archive := v\<rparr>) g);
        Some (lid, g) })"

definition log_set_level :: "int \<Rightarrow> 32 word \<Rightarrow> logger \<Rightarrow> logger" where
  "log_set_level lid level g =
     (if bad_id lid \<or> \<not> l_in_use (slot g (nat lid)) then g
      else set_slot (nat lid) ((slot g (nat lid))\<lparr>l_level := level\<rparr>) g)"

subsection \<open>The lines kept in memory\<close>

definition drop_head :: "entry_heap \<Rightarrow> log_t \<Rightarrow> (entry_heap \<times> log_t) option" where
  "drop_head h l = do {
     to_go \<leftarrow> l_head l;
     e \<leftarrow> h to_go;
     Some (h(to_go := None),
           l\<lparr>l_head := e_next e, l_total := l_total l - ucast (e_len e)\<rparr>) }"

lemma drop_head_entries: "drop_head h l = Some (h', l') \<Longrightarrow> l_entries l' = l_entries l"
  by (auto simp: drop_head_def elim!: bind_SomeE)

lemma word_decreases: "c < (w :: 32 word) \<Longrightarrow> unat (w - 1) < unat w"
  by (metis measure_unat not_less0 word_gt_0 word_not_simps(1))

function drop_kept :: "32 word \<Rightarrow> entry_heap \<Rightarrow> log_t \<Rightarrow> (entry_heap \<times> log_t) option" where
  "drop_kept count h l =
     (if count < l_entries l
      then (case drop_head h l of
              None \<Rightarrow> None
            | Some (h, l) \<Rightarrow> drop_kept count h (l\<lparr>l_entries := l_entries l - 1\<rparr>))
      else Some (h, l))"
  by pat_completeness auto

termination
  by (relation "measure (\<lambda>(count, h, l). unat (l_entries l))")
    (auto dest: drop_head_entries simp: word_decreases)

declare drop_kept.simps [simp del]

definition log_set_lines_kept :: "int \<Rightarrow> 32 word \<Rightarrow> logger \<Rightarrow> logger option" where
  "log_set_lines_kept log_id count g =
     (if bad_id log_id \<or> \<not> l_in_use (slot g (nat log_id)) then Some g
      else do {
        g \<leftarrow> lock_logger g;
        (h, l) \<leftarrow> drop_kept count (entry_heap g) ((slot g (nat log_id))\<lparr>l_keep := count\<rparr>);
        unlock_logger ((set_slot (nat log_id) l g)\<lparr>entry_heap := h\<rparr>) })"

definition store_tail :: "tail_ptr \<Rightarrow> addr \<Rightarrow> entry_heap \<Rightarrow> log_t \<Rightarrow> (entry_heap \<times> log_t) option" where
  "store_tail t a h l =
     (case t of
        Tail_Null \<Rightarrow> None
      | Tail_Head \<Rightarrow> Some (h, l\<lparr>l_head := Some a\<rparr>)
      | Tail_Next b \<Rightarrow> do { e \<leftarrow> h b; Some (h(b \<mapsto> e\<lparr>e_next := Some a\<rparr>), l) })"

definition create_log_entry :: "nat \<Rightarrow> string \<Rightarrow> string \<Rightarrow> logger \<Rightarrow> (int \<times> logger) option" where
  "create_log_entry lid pre line g =
     (let l = slot g lid in
      if l_keep l = 0 then do {
        (n, d) \<leftarrow> fprintf (l_logfile l) (pre @ line @ [LF]) (disk g);
        Some (n, g\<lparr>disk := d\<rparr>) }
      else (let len = word_of_nat (length pre + length line + 2);
                a = next_entry g;
                t = take (unat len - 1) (pre @ line @ [LF]);
                l = l\<lparr>l_total := l_total l + ucast len\<rparr> in do {
        (n, d) \<leftarrow> fprintf (l_logfile l) t (disk g);
        (h, l) \<leftarrow> store_tail (l_tail l) a
            ((entry_heap g)(a \<mapsto> \<lparr>e_line = t, e_len = len, e_next = None\<rparr>)) l;
        let l = l\<lparr>l_tail := Tail_Next a\<rparr>;
        (h, l) \<leftarrow> (if l_keep l \<le> l_entries l then drop_head h l
                   else Some (h, l\<lparr>l_entries := l_entries l + 1\<rparr>));
        Some (sint len, (set_slot lid l g)\<lparr>disk := d, entry_heap := h, next_entry := Suc a\<rparr>) }))"

fun contents_loop :: "nat \<Rightarrow> entry_heap \<Rightarrow> ptr \<Rightarrow> int \<Rightarrow> string \<Rightarrow> string option" where
  "contents_loop k h None remain out = Some out"
| "contents_loop 0 h (Some a) remain out = None"
| "contents_loop (Suc k) h (Some a) remain out = do {
     e \<leftarrow> h a;
     if remain < 0 then None
     else contents_loop k h (e_next e) (remain - int (length (e_line e)))
            (out @ take (nat (remain - 1)) (e_line e)) }"

definition log_contents :: "int \<Rightarrow> logger \<Rightarrow> ((string \<times> 32 word) option \<times> logger) option" where
  "log_contents log_id g =
     (if bad_id log_id then Some (None, g)
      else do {
        g \<leftarrow> lock_logger g;
        let l = slot g (nat log_id);
        let remain = sint (ucast (l_total l + 1) :: 32 word);
        if remain \<le> 0 then None
        else do {
          out \<leftarrow> contents_loop (next_entry g) (entry_heap g) (l_head l) remain [];
          g \<leftarrow> unlock_logger g;
          Some (Some (out, ucast (l_total l)), g) } })"

subsection \<open>Flushing, reopening, closing\<close>

definition log_flush :: "int \<Rightarrow> logger \<Rightarrow> logger option" where
  "log_flush log_id g =
     (if bad_id log_id \<or> \<not> l_in_use (slot g (nat log_id)) then Some g
      else do {
        g \<leftarrow> lock_logger g;
        d \<leftarrow> (case l_logfile (slot g (nat log_id)) of
               None \<Rightarrow> Some (disk g) | Some f \<Rightarrow> fflush (Some f) (disk g));
        unlock_logger (g\<lparr>disk := d\<rparr>) })"

definition log_reopen :: "int \<Rightarrow> logger \<Rightarrow> logger option" where
  "log_reopen log_id g =
     (if bad_id log_id then Some g
      else (let l = slot g (nat log_id) in
        case l_logfile l of
          None \<Rightarrow> Some g
        | Some f \<Rightarrow>
            if l_filename l = No_Name then Some g
            else do {
              g \<leftarrow> lock_logger g;
              d \<leftarrow> fclose f (disk g);
              unlock_logger ((set_slot (nat log_id) (l\<lparr>l_logfile := None\<rparr>) g)\<lparr>disk := d\<rparr>) }))"

definition free_name :: "cname \<Rightarrow> cname option" where
  "free_name n = (case n of No_Name \<Rightarrow> Some No_Name | Name f \<Rightarrow> Some Freed_Name | Freed_Name \<Rightarrow> None)"

definition log_close :: "int \<Rightarrow> logger \<Rightarrow> logger option" where
  "log_close log_id g =
     (if bad_id log_id then Some g
      else do {
        g \<leftarrow> lock_logger g;
        let l = slot g (nat log_id);
        if \<not> l_in_use l then unlock_logger g
        else do {
          name \<leftarrow> free_name (l_filename l);
          d \<leftarrow> (case l_logfile l of None \<Rightarrow> Some (disk g) | Some f \<Rightarrow> fclose f (disk g));
          (h, l) \<leftarrow> drop_kept 0 (entry_heap g)
             (l\<lparr>l_in_use := False, l_level := 2, l_filename := name, l_logfile := None\<rparr>);
          unlock_logger ((set_slot (nat log_id) l g)\<lparr>disk := d, entry_heap := h\<rparr>) } })"

subsection \<open>Writing\<close>

definition prior :: "string list" where
  "prior = [''EROR'', ''WARN'', ''INFO'', ''DBUG'']"

definition log_prefix :: "32 word \<Rightarrow> string \<Rightarrow> string \<Rightarrow> disk \<Rightarrow> string" where
  "log_prefix priority cat func d =
     (let date = strftime_text 256 ''[%Y-%m-%d  %H:%M:%S]'' d in
      date @ take (255 - length date)
        ('' '' @ prior ! (unat priority - 1) @ '' '' @ cstr cat @ cstr func @ '' ''))"

definition add_size :: "nat \<Rightarrow> int \<Rightarrow> logger \<Rightarrow> logger" where
  "add_size lid len g =
     (if 0 < len then set_slot lid ((slot g lid)\<lparr>l_size := l_size (slot g lid) + word_of_int len\<rparr>) g
      else g)"

definition write_entry :: "nat \<Rightarrow> string \<Rightarrow> string \<Rightarrow> logger \<Rightarrow> logger option" where
  "write_entry lid pre line g = do {
     (opened, g) \<leftarrow> log_open_now lid g;
     if opened then do {
       (len, g) \<leftarrow> create_log_entry lid pre line g;
       Some (add_size lid len g) }
     else Some g }"

definition log_write ::
  "int \<Rightarrow> 32 word \<Rightarrow> string \<Rightarrow> string \<Rightarrow> string \<Rightarrow> log_arg list \<Rightarrow> logger \<Rightarrow> logger option" where
  "log_write log_id priority cat func fmt ap g =
     (if bad_id log_id then Some g
      else if l_level (slot g (nat log_id)) < priority then Some g
      else if priority = 0 \<or> priority > word_of_nat (length prior) then Some g
      else do {
        line \<leftarrow> vsnprintf_log LOG_MAXLINELEN fmt ap;
        let pre = log_prefix priority cat func (disk g);
        g \<leftarrow> lock_logger g;
        g \<leftarrow> write_entry (nat log_id) pre line g;
        unlock_logger g })"

definition log_write_direct :: "int \<Rightarrow> string \<Rightarrow> log_arg list \<Rightarrow> logger \<Rightarrow> logger option" where
  "log_write_direct log_id fmt ap g =
     (if bad_id log_id then Some g
      else do {
        g \<leftarrow> lock_logger g;
        line \<leftarrow> vsnprintf_log LOG_MAXLINELEN fmt ap;
        g \<leftarrow> write_entry (nat log_id) [] line g;
        g \<leftarrow> unlock_logger g;
        d \<leftarrow> fflush (l_logfile (slot g (nat log_id))) (disk g);
        Some (g\<lparr>disk := d\<rparr>) })"

end
