(* ===== verification/Log_Queue.thy ===== *)
theory Log_Queue
  imports Log_State
begin

section \<open>The lines a log keeps: linked entries as a queue\<close>

text \<open>
  \<open>chain\<close> relates a pointer to the addresses of the entries reached from it;
  \<open>queue_ok\<close> is the representation invariant of one log (the entries linked from
  \<open>log_head\<close>, their number and their total length), \<open>tail_ok\<close> says where
  \<open>log_tail\<close> points. \<open>kept_lines\<close> is the abstraction: the lines, oldest first.
\<close>

fun chain :: "entry_heap \<Rightarrow> ptr \<Rightarrow> addr list \<Rightarrow> bool" where
  "chain h p [] \<longleftrightarrow> p = None"
| "chain h p (a # as) \<longleftrightarrow> p = Some a \<and> (case h a of None \<Rightarrow> False | Some e \<Rightarrow> chain h (e_next e) as)"

definition entry_at :: "entry_heap \<Rightarrow> addr \<Rightarrow> log_entry" where
  "entry_at h a = the (h a)"

definition line_at :: "entry_heap \<Rightarrow> addr \<Rightarrow> string" where
  "line_at h a = e_line (entry_at h a)"

definition lines_total :: "string list \<Rightarrow> nat" where
  "lines_total ts = sum_list (map (\<lambda>t. length t + 1) ts)"

definition entry_ok :: "log_entry \<Rightarrow> bool" where
  "entry_ok e \<longleftrightarrow> unat (e_len e) = length (e_line e) + 1 \<and> length (e_line e) < 2048 \<and> e_line e \<noteq> []"

definition queue_ok :: "entry_heap \<Rightarrow> log_t \<Rightarrow> addr list \<Rightarrow> bool" where
  "queue_ok h l as \<longleftrightarrow> chain h (l_head l) as \<and> distinct as \<and>
     l_total l = word_of_nat (lines_total (map (line_at h) as)) \<and>
     (\<forall>a \<in> set as. entry_ok (entry_at h a))"

definition tail_ok :: "log_t \<Rightarrow> addr list \<Rightarrow> bool" where
  "tail_ok l as \<longleftrightarrow> l_tail l = (if as = [] then Tail_Head else Tail_Next (last as))"

fun walk :: "nat \<Rightarrow> entry_heap \<Rightarrow> ptr \<Rightarrow> string list" where
  "walk k h None = []"
| "walk 0 h (Some a) = []"
| "walk (Suc k) h (Some a) =
     (case h a of None \<Rightarrow> [] | Some e \<Rightarrow> e_line e # walk k h (e_next e))"

definition kept_lines :: "logger \<Rightarrow> nat \<Rightarrow> string list" where
  "kept_lines g i = walk (next_entry g) (entry_heap g) (l_head (slot g i))"

subsection \<open>Chains\<close>

lemma chain_dom: "chain h p as \<Longrightarrow> a \<in> set as \<Longrightarrow> h a \<noteq> None"
  by (induction as arbitrary: p) (auto split: option.splits)

lemma chain_cong:
  "(\<And>a. a \<in> set as \<Longrightarrow> h' a = h a) \<Longrightarrow> chain h' p as = chain h p as"
  by (induction as arbitrary: p) (auto split: option.splits)

lemma line_at_cong:
  "(\<And>a. a \<in> set as \<Longrightarrow> h' a = h a) \<Longrightarrow> map (line_at h') as = map (line_at h) as"
  by (simp add: line_at_def entry_at_def)

lemma chain_walk:
  "chain h p as \<Longrightarrow> length as \<le> k \<Longrightarrow> walk k h p = map (line_at h) as"
proof (induction as arbitrary: p k)
  case Nil
  then show ?case by simp
next
  case (Cons a as)
  then show ?case
    by (cases k) (auto simp: line_at_def entry_at_def split: option.splits)
qed

lemma chain_snoc:
  assumes "chain h p (as @ [b])" and "a \<notin> set (as @ [b])" and "distinct (as @ [b])"
    and "h b = Some e" and "h' = (h(a \<mapsto> n))(b \<mapsto> e\<lparr>e_next := Some a\<rparr>)" and "e_next n = None"
  shows "chain h' p (as @ [b, a])"
  using assms
proof (induction as arbitrary: p)
  case Nil
  then show ?case by auto
next
  case (Cons c as)
  then show ?case by (auto split: option.splits)
qed

lemma queue_ok_cong:
  assumes "\<And>a. a \<in> set as \<Longrightarrow> h' a = h a" and "l_head l' = l_head l" and "l_total l' = l_total l"
  shows "queue_ok h' l' as = queue_ok h l as"
proof -
  have "chain h' p as = chain h p as" for p by (rule chain_cong) (rule assms(1))
  moreover have "map (line_at h') as = map (line_at h) as"
    by (rule line_at_cong) (rule assms(1))
  ultimately show ?thesis
    by (simp only: queue_ok_def assms(2,3)) (use assms(1) in \<open>auto simp: entry_at_def\<close>)
qed

lemma lines_total_simps [simp]:
  "lines_total [] = 0" "lines_total (t # ts) = length t + 1 + lines_total ts"
  "lines_total (ts @ us) = lines_total ts + lines_total us"
  by (simp_all add: lines_total_def)

lemma lines_total_bound:
  assumes "\<And>t. t \<in> set ts \<Longrightarrow> length t < 2048"
  shows "lines_total ts \<le> 2048 * length ts"
  using assms by (induction ts) fastforce+

lemma queue_ok_empty: "queue_ok h l [] \<longleftrightarrow> l_head l = None \<and> l_total l = 0"
  by (simp add: queue_ok_def)

subsection \<open>Removing the oldest line\<close>

lemma entry_ok_len:
  assumes "entry_ok e"
  shows "(ucast (e_len e) :: 64 word) = word_of_nat (length (e_line e) + 1)"
proof -
  have "ucast (e_len e) = (word_of_nat (unat (e_len e)) :: 64 word)" by simp
  with assms show ?thesis by (simp only: entry_ok_def)
qed

lemma drop_head_queue:
  assumes "queue_ok h l (a # as)"
  shows "\<exists>l'. drop_head h l = Some (h(a := None), l') \<and> queue_ok (h(a := None)) l' as \<and>
    l' = l\<lparr>l_head := l_head l', l_total := l_total l'\<rparr>"
proof -
  from assms obtain e where e: "l_head l = Some a" "h a = Some e" "chain h (e_next e) as"
    by (auto simp: queue_ok_def split: option.splits)
  have cong: "\<And>b. b \<in> set as \<Longrightarrow> (h(a := None)) b = h b"
    using assms by (auto simp: queue_ok_def)
  have ok: "entry_ok e" using assms e by (simp add: queue_ok_def entry_at_def)
  let ?l' = "l\<lparr>l_head := e_next e, l_total := l_total l - ucast (e_len e)\<rparr>"
  have "l_total ?l' = word_of_nat (lines_total (map (line_at h) as))"
    using assms e entry_ok_len [OF ok] by (simp add: queue_ok_def line_at_def entry_at_def)
  then have "queue_ok h ?l' as"
    using assms e by (simp add: queue_ok_def)
  then have "queue_ok (h(a := None)) ?l' as"
    using queue_ok_cong [of as "h(a := None)" h ?l' ?l'] cong by simp
  moreover have "drop_head h l = Some (h(a := None), ?l')"
    using e by (simp add: drop_head_def)
  ultimately show ?thesis by (intro exI [of _ ?l']) simp
qed

lemma drop_kept_queue:
  assumes "queue_ok h l as" and "unat (l_entries l) = length as"
  shows "\<exists>l' n. drop_kept count h l =
      Some (\<lambda>a. if a \<in> set (take n as) then None else h a, l') \<and>
    n = length as - unat count \<and>
    queue_ok (\<lambda>a. if a \<in> set (take n as) then None else h a) l' (drop n as) \<and>
    unat (l_entries l') = length (drop n as) \<and>
    l' = l\<lparr>l_head := l_head l', l_total := l_total l', l_entries := l_entries l'\<rparr>"
  using assms
proof (induction as arbitrary: h l)
  case Nil
  then have "\<not> count < l_entries l" by (simp add: unsigned_eq_0_iff)
  with Nil show ?case by (intro exI [of _ l]) (simp add: drop_kept.simps)
next
  case (Cons a as)
  show ?case
  proof (cases "count < l_entries l")
    case False
    then have "length (a # as) \<le> unat count" using Cons.prems by (simp add: word_less_nat_alt)
    with False Cons.prems show ?thesis by (intro exI [of _ l]) (simp add: drop_kept.simps)
  next
    case True
    obtain l1 where l1: "drop_head h l = Some (h(a := None), l1)" "queue_ok (h(a := None)) l1 as"
      "l1 = l\<lparr>l_head := l_head l1, l_total := l_total l1\<rparr>"
      using drop_head_queue [OF Cons.prems(1)] by blast
    let ?l2 = "l1\<lparr>l_entries := l_entries l - 1\<rparr>"
    have ent: "l_entries l1 = l_entries l" by (subst l1(3)) simp
    have "l_entries l \<noteq> 0" using True by auto
    then have "unat (l_entries ?l2) = length as" using Cons.prems(2)
      by (simp add: unat_minus_one)
    moreover have q2: "queue_ok (h(a := None)) ?l2 as"
      using l1(2) by (simp add: queue_ok_def)
    ultimately obtain l' n where ih: "drop_kept count (h(a := None)) ?l2 =
        Some (\<lambda>b. if b \<in> set (take n as) then None else (h(a := None)) b, l')"
      "n = length as - unat count"
      "queue_ok (\<lambda>b. if b \<in> set (take n as) then None else (h(a := None)) b) l' (drop n as)"
      "unat (l_entries l') = length (drop n as)"
      "l' = ?l2\<lparr>l_head := l_head l', l_total := l_total l', l_entries := l_entries l'\<rparr>"
      using Cons.IH [OF q2] by blast
    have m: "length (a # as) - unat count = Suc n"
      using True Cons.prems(2) ih(2) by (simp add: word_less_nat_alt)
    have heap: "(\<lambda>b. if b \<in> set (take n as) then None else (h(a := None)) b) =
        (\<lambda>b. if b \<in> set (take (Suc n) (a # as)) then None else h b)" by auto
    have upd: "l' = l\<lparr>l_head := l_head l', l_total := l_total l', l_entries := l_entries l'\<rparr>"
      by (subst ih(5), subst l1(3)) simp
    show ?thesis
      using True l1(1) ih(1,3,4) upd m heap ent
      by (intro exI [of _ l'] exI [of _ "Suc n"]) (simp add: drop_kept.simps [of count h l])
  qed
qed

subsection \<open>Adding a line\<close>

lemma store_tail_queue:
  assumes q: "queue_ok h l as" and t: "tail_ok l as" and a: "h a = None" "a \<notin> set as"
    and e: "entry_ok e" "e_next e = None"
  shows "\<exists>h' l'. store_tail (l_tail l) a (h(a \<mapsto> e)) (l\<lparr>l_total := l_total l + ucast (e_len e)\<rparr>) =
      Some (h', l') \<and> queue_ok h' l' (as @ [a]) \<and>
    map (line_at h') (as @ [a]) = map (line_at h) as @ [e_line e] \<and>
    (\<forall>b. b \<notin> set (as @ [a]) \<longrightarrow> h' b = h b) \<and>
    l' = l\<lparr>l_head := l_head l', l_total := l_total l'\<rparr>"
proof (cases as rule: rev_cases)
  case Nil
  let ?h' = "h(a \<mapsto> e)" and ?l' = "l\<lparr>l_total := l_total l + ucast (e_len e), l_head := Some a\<rparr>"
  have "queue_ok ?h' ?l' [a]"
    using q e entry_ok_len [OF e(1)] Nil by (simp add: queue_ok_def line_at_def entry_at_def)
  then show ?thesis
    using Nil t by (intro exI [of _ ?h'] exI [of _ ?l'])
      (simp add: store_tail_def tail_ok_def line_at_def entry_at_def)
next
  case (snoc bs b)
  obtain eb where eb: "h b = Some eb"
    using q snoc chain_dom [of h "l_head l" as b] by (auto simp: queue_ok_def)
  have ab: "a \<noteq> b" "a \<notin> set bs" "b \<notin> set bs" using a snoc q by (auto simp: queue_ok_def)
  let ?h' = "(h(a \<mapsto> e))(b \<mapsto> eb\<lparr>e_next := Some a\<rparr>)"
    and ?l' = "l\<lparr>l_total := l_total l + ucast (e_len e)\<rparr>"
  have lines: "map (line_at ?h') (as @ [a]) = map (line_at h) as @ [e_line e]"
    using snoc ab eb by (auto simp: line_at_def entry_at_def)
  have "chain ?h' (l_head l) (bs @ [b, a])"
    using q snoc a eb e by (intro chain_snoc [where e = eb and n = e and h = h]) (auto simp: queue_ok_def)
  moreover have "l_total ?l' = word_of_nat (lines_total (map (line_at ?h') (as @ [a])))"
    unfolding lines using q entry_ok_len [OF e(1)] by (simp add: queue_ok_def)
  moreover have "\<forall>c \<in> set (as @ [a]). entry_ok (entry_at ?h' c)"
  proof
    fix c assume "c \<in> set (as @ [a])"
    moreover have "entry_ok eb" using q eb snoc by (auto simp: queue_ok_def entry_at_def)
    ultimately show "entry_ok (entry_at ?h' c)"
      using q e(1) ab by (auto simp: queue_ok_def entry_at_def entry_ok_def)
  qed
  ultimately have "queue_ok ?h' ?l' (as @ [a])"
    using q a snoc by (simp add: queue_ok_def)
  then show ?thesis
    using lines snoc t eb ab by (intro exI [of _ ?h'] exI [of _ ?l'])
      (simp add: store_tail_def tail_ok_def)
qed

subsection \<open>Reading the lines back\<close>

lemma contents_loop_queue:
  assumes "chain h p as" and "length as \<le> k"
    and "int (lines_total (map (line_at h) as)) < remain \<or> as = [] "
  shows "contents_loop k h p remain out = Some (out @ concat (map (line_at h) as))"
  using assms
proof (induction as arbitrary: p k remain out)
  case Nil
  then show ?case by simp
next
  case (Cons a as)
  then obtain e k' where e: "p = Some a" "h a = Some e" "chain h (e_next e) as" "k = Suc k'"
    by (cases k) (auto split: option.splits)
  have line: "line_at h a = e_line e" using e by (simp add: line_at_def entry_at_def)
  show ?case
    using Cons.IH [of "e_next e" k' "remain - int (length (e_line e))" "out @ e_line e"]
      Cons.prems e line by simp
qed

end
