(* ===== verification/Log_Safe.thy ===== *)
theory Log_Safe
  imports Log_Queue
begin

section \<open>The invariant of the log table\<close>

text \<open>
  \<open>logger_core\<close> is the invariant between two operations: every slot represents
  a queue of lines with a good tail pointer, an unused slot has no lines and no file, every
  \<open>FILE\<close> a slot holds is open and held by that slot alone. One lemma, \<open>core_update\<close>, says which
  changes to one slot keep it; the operations follow from it.
\<close>

definition KEEP_MAX :: nat where "KEEP_MAX = 1000000"

definition files_ok :: "(nat \<Rightarrow> bool) \<Rightarrow> log_t \<Rightarrow> bool" where
  "files_ok opened l \<longleftrightarrow>
     (l_in_use l \<longrightarrow> l_filename l \<noteq> Freed_Name \<and> (l_logfile l = None \<longrightarrow> l_filename l \<noteq> No_Name)) \<and>
     (\<not> l_in_use l \<longrightarrow> l_logfile l = None) \<and>
     (\<forall>f. l_logfile l = Some f \<longrightarrow> opened f)"

definition slot_ok :: "(nat \<Rightarrow> bool) \<Rightarrow> entry_heap \<Rightarrow> log_t \<Rightarrow> addr list \<Rightarrow> bool" where
  "slot_ok opened h l as \<longleftrightarrow>
     queue_ok h l as \<and> unat (l_entries l) = length as \<and> length as \<le> unat (l_keep l) \<and>
     unat (l_keep l) \<le> KEEP_MAX \<and> (l_in_use l \<longrightarrow> tail_ok l as) \<and> (\<not> l_in_use l \<longrightarrow> as = []) \<and>
     files_ok opened l"

definition logger_core :: "logger \<Rightarrow> (nat \<Rightarrow> addr list) \<Rightarrow> bool" where
  "logger_core g ass \<longleftrightarrow>
     length (loglist g) = LOG_MAXLOGS \<and> disk_ok (disk g) \<and>
     (\<forall>a. entry_heap g a \<noteq> None \<longrightarrow> a < next_entry g) \<and>
     (\<forall>i < LOG_MAXLOGS. slot_ok (open_file (disk g)) (entry_heap g) (slot g i) (ass i)) \<and>
     (\<forall>i < LOG_MAXLOGS. \<forall>j < LOG_MAXLOGS. i \<noteq> j \<longrightarrow> set (ass i) \<inter> set (ass j) = {} \<and>
        (\<forall>f. l_logfile (slot g i) = Some f \<longrightarrow> l_logfile (slot g j) \<noteq> Some f))"

definition logger_ok :: "logger \<Rightarrow> bool" where
  "logger_ok g \<longleftrightarrow> mutex g = Unlocked \<and> (\<exists>ass. logger_core g ass)"

lemma logger_okI: "mutex g = Unlocked \<Longrightarrow> logger_core g ass \<Longrightarrow> logger_ok g"
  by (auto simp: logger_ok_def)

subsection \<open>Slots\<close>

lemma slot_set_slot:
  "i < length (loglist g) \<Longrightarrow> slot (set_slot i l g) j = (if j = i then l else slot g j)"
  by (simp add: slot_def set_slot_def)

lemma set_slot_simps [simp]:
  "entry_heap (set_slot i l g) = entry_heap g" "next_entry (set_slot i l g) = next_entry g"
  "disk (set_slot i l g) = disk g" "mutex (set_slot i l g) = mutex g"
  "initialized (set_slot i l g) = initialized g"
  "length (loglist (set_slot i l g)) = length (loglist g)"
  by (simp_all add: set_slot_def)

lemma slot_update_simps [simp]:
  "slot (g\<lparr>disk := d\<rparr>) i = slot g i" "slot (g\<lparr>entry_heap := h\<rparr>) i = slot g i"
  "slot (g\<lparr>next_entry := n\<rparr>) i = slot g i" "slot (g\<lparr>mutex := m\<rparr>) i = slot g i"
  by (simp_all add: slot_def)

lemma core_slot_length: "logger_core g ass \<Longrightarrow> length (loglist g) = LOG_MAXLOGS"
  by (simp add: logger_core_def)

lemma core_slot_ok:
  "logger_core g ass \<Longrightarrow> i < LOG_MAXLOGS \<Longrightarrow>
     slot_ok (open_file (disk g)) (entry_heap g) (slot g i) (ass i)"
  by (simp add: logger_core_def)

lemma core_addr:
  assumes "logger_core g ass" and "i < LOG_MAXLOGS" and "a \<in> set (ass i)"
  shows "a < next_entry g"
  using assms chain_dom [of "entry_heap g" "l_head (slot g i)" "ass i" a]
  by (auto simp: logger_core_def slot_ok_def queue_ok_def)

lemma core_kept_lines:
  assumes core: "logger_core g ass" and i: "i < LOG_MAXLOGS"
  shows "kept_lines g i = map (line_at (entry_heap g)) (ass i)"
proof -
  have q: "queue_ok (entry_heap g) (slot g i) (ass i)"
    using core_slot_ok [OF core i] by (simp add: slot_ok_def)
  have "set (ass i) \<subseteq> {..< next_entry g}" using core_addr [OF core i] by blast
  then have "card (set (ass i)) \<le> card {..< next_entry g}" by (intro card_mono) auto
  moreover have "card (set (ass i)) = length (ass i)"
    using q by (simp add: distinct_card queue_ok_def)
  ultimately show ?thesis
    using q by (auto simp: kept_lines_def queue_ok_def intro: chain_walk)
qed

lemma slot_ok_frame:
  assumes "slot_ok op h l as" and "\<And>a. a \<in> set as \<Longrightarrow> h' a = h a"
    and "\<And>f. l_logfile l = Some f \<Longrightarrow> op f \<Longrightarrow> op' f"
  shows "slot_ok op' h' l as"
  using assms queue_ok_cong [of as h' h l l] by (auto simp: slot_ok_def files_ok_def)

subsection \<open>Changing one slot\<close>

lemma core_update_held:
  assumes core: "logger_core g ass" and i: "i < LOG_MAXLOGS"
    and list: "loglist g' = (loglist g)[i := l']"
    and ok: "slot_ok (open_file (disk g')) (entry_heap g') l' as'"
    and same: "\<And>a. a < next_entry g \<Longrightarrow> a \<notin> set (ass i) \<Longrightarrow> entry_heap g' a = entry_heap g a"
    and as': "\<And>a. a \<in> set as' \<Longrightarrow> a \<in> set (ass i) \<or> next_entry g \<le> a"
    and nxt: "\<And>a. entry_heap g' a \<noteq> None \<Longrightarrow> a < next_entry g'"
    and d: "disk_ok (disk g')"
    and files: "\<And>f. open_file (disk g) f \<Longrightarrow> l_logfile (slot g i) \<noteq> Some f \<Longrightarrow> open_file (disk g') f"
    and new: "\<And>f. l_logfile l' = Some f \<Longrightarrow> l_logfile (slot g i) = Some f \<or>
      (\<forall>j < LOG_MAXLOGS. l_logfile (slot g j) \<noteq> Some f)"
  shows "logger_core g' (ass(i := as'))"
proof -
  have len: "length (loglist g) = LOG_MAXLOGS" using core by (simp add: logger_core_def)
  have slots: "slot g' j = (if j = i then l' else slot g j)" for j
    using list i len by (simp add: slot_def)
  have disj: "set (ass i) \<inter> set (ass j) = {}" if "j < LOG_MAXLOGS" "j \<noteq> i" for j
    using core i that by (simp add: logger_core_def)
  have own: "l_logfile (slot g i) \<noteq> Some f"
    if "j < LOG_MAXLOGS" "j \<noteq> i" "l_logfile (slot g j) = Some f" for j f
    using core i that unfolding logger_core_def by metis
  have other: "slot_ok (open_file (disk g')) (entry_heap g') (slot g j) (ass j)"
    if j: "j < LOG_MAXLOGS" "j \<noteq> i" for j
  proof (rule slot_ok_frame [OF core_slot_ok [OF core j(1)]])
    fix a assume "a \<in> set (ass j)"
    with core_addr [OF core j(1)] disj [OF j] same show "entry_heap g' a = entry_heap g a" by blast
  next
    fix f assume "l_logfile (slot g j) = Some f" "open_file (disk g) f"
    with files own [OF j] show "open_file (disk g') f" by blast
  qed
  have fresh: "set as' \<inter> set (ass j) = {}" if "j < LOG_MAXLOGS" "j \<noteq> i" for j
    using as' disj [OF that] core_addr [OF core that(1)] by (fastforce simp: disjoint_iff)
  have alone: "l_logfile l' \<noteq> Some f" if "j < LOG_MAXLOGS" "j \<noteq> i" "l_logfile (slot g j) = Some f" for j f
    using new own [OF that] that by blast
  show ?thesis
    unfolding logger_core_def
  proof (intro conjI allI impI)
    show "length (loglist g') = LOG_MAXLOGS" using list len by simp
    show "disk_ok (disk g')" by (rule d)
    show "a < next_entry g'" if "entry_heap g' a \<noteq> None" for a using nxt that by blast
    show "slot_ok (open_file (disk g')) (entry_heap g') (slot g' j) ((ass(i := as')) j)"
      if "j < LOG_MAXLOGS" for j using that ok other slots by simp
    fix j k assume jk: "j < LOG_MAXLOGS" "k < LOG_MAXLOGS" "j \<noteq> k"
    show "set ((ass(i := as')) j) \<inter> set ((ass(i := as')) k) = {}"
      using jk fresh [of j] fresh [of k] core by (auto simp: logger_core_def)
    show "l_logfile (slot g' k) \<noteq> Some f" if "l_logfile (slot g' j) = Some f" for f
    proof -
      have "l_logfile (slot g k) \<noteq> Some f" if "l_logfile (slot g j) = Some f"
        using core jk that unfolding logger_core_def by metis
      then show ?thesis using jk that alone slots by (metis (full_types))
    qed
  qed
qed

lemma core_update:
  assumes core: "logger_core g ass" and i: "i < LOG_MAXLOGS"
    and list: "loglist g' = (loglist g)[i := l']"
    and ok: "slot_ok (open_file (disk g')) (entry_heap g') l' as'"
    and same: "\<And>a. a < next_entry g \<Longrightarrow> a \<notin> set (ass i) \<Longrightarrow> entry_heap g' a = entry_heap g a"
    and as': "\<And>a. a \<in> set as' \<Longrightarrow> a \<in> set (ass i) \<or> next_entry g \<le> a"
    and nxt: "\<And>a. entry_heap g' a \<noteq> None \<Longrightarrow> a < next_entry g'"
    and d: "disk_ok (disk g')"
    and files: "\<And>f. open_file (disk g) f \<Longrightarrow> l_logfile (slot g i) \<noteq> Some f \<Longrightarrow> open_file (disk g') f"
    and new: "\<And>f. l_logfile l' = Some f \<Longrightarrow> l_logfile (slot g i) = Some f \<or> \<not> open_file (disk g) f"
  shows "logger_core g' (ass(i := as'))"
proof (rule core_update_held [OF core i list ok same as' nxt d files])
  show "l_logfile (slot g i) = Some f \<or> (\<forall>j < LOG_MAXLOGS. l_logfile (slot g j) \<noteq> Some f)"
    if "l_logfile l' = Some f" for f
    using new [OF that] core_slot_ok [OF core] by (auto simp: slot_ok_def files_ok_def)
qed

lemma core_slot:
  assumes core: "logger_core g ass" and i: "i < LOG_MAXLOGS"
    and ok: "slot_ok (open_file (disk g)) (entry_heap g) l' (ass i)"
    and "l_logfile l' = l_logfile (slot g i)"
  shows "logger_core (set_slot i l' g) ass"
proof -
  have "logger_core (set_slot i l' g) (ass(i := ass i))"
    using assms by (intro core_update [OF core i, of _ l']) (auto simp: set_slot_def logger_core_def)
  then show ?thesis by simp
qed

lemma core_disk:
  assumes "logger_core g ass" and "open_file d = open_file (disk g)" and "next_id d = next_id (disk g)"
  shows "logger_core (g\<lparr>disk := d\<rparr>) ass"
  using assms by (simp add: logger_core_def disk_ok_iff)

lemma core_mutex [simp]: "logger_core (g\<lparr>mutex := m\<rparr>) ass = logger_core g ass"
  by (simp add: logger_core_def)

lemma core_initialized [simp]: "logger_core (g\<lparr>initialized := b\<rparr>) ass = logger_core g ass"
  by (simp add: logger_core_def slot_def)

end
