(* ===== verification/Log_Calls.thy ===== *)
theory Log_Calls
  imports Log_Safe
begin

section \<open>What the operations of the log library do\<close>

text \<open>
  Each operation, run from a state that satisfies the invariant, returns, keeps the
  invariant, and changes the kept lines as the abstract operation \<open>put_line\<close> says.
\<close>

definition put_line :: "nat \<Rightarrow> string \<Rightarrow> string list \<Rightarrow> string list" where
  "put_line keep t ts = (if keep = 0 then ts
     else if keep \<le> length ts then tl (ts @ [t]) else ts @ [t])"

definition entry_text :: "string \<Rightarrow> string \<Rightarrow> string" where
  "entry_text pre line = pre @ line @ [LF]"

subsection \<open>Opening the file\<close>

lemma archive_file_total:
  assumes "disk_ok d" and "\<And>f. l_logfile l = Some f \<Longrightarrow> open_file d f"
  shows "\<exists>d'. archive_file l n d = Some d' \<and> disk_ok d' \<and> next_id d' = next_id d \<and>
    open_file d' = (\<lambda>f. open_file d f \<and> l_logfile l \<noteq> Some f)"
proof (cases "l_logfile l")
  case None
  then show ?thesis using assms by (simp add: archive_file_def)
next
  case (Some f)
  with assms fclose_total [of d f] obtain d' where
    "fclose f d = Some d'" "open_file d' = (open_file d)(f := False)" "next_id d' = next_id d"
    by blast
  then show ?thesis using Some assms
    by (auto simp: archive_file_def disk_ok_iff fun_eq_iff)
qed

lemma open_log_file_total:
  assumes "disk_ok d"
  shows "\<exists>b l' d'. open_log_file l n d = (b, l', d') \<and> disk_ok d' \<and>
    l' = l\<lparr>l_logfile := l_logfile l', l_size := l_size l'\<rparr> \<and>
    (b \<longleftrightarrow> l_logfile l' \<noteq> None) \<and>
    (\<forall>f. l_logfile l' = Some f \<longrightarrow> \<not> open_file d f) \<and>
    open_file d' = (\<lambda>f. open_file d f \<or> l_logfile l' = Some f)"
proof -
  obtain fp d1 where fo: "fopen_append n d = (fp, d1)" by (cases "fopen_append n d") auto
  note ok = fopen_append_open [OF fo assms]
  show ?thesis
  proof (cases fp)
    case None
    with fo ok show ?thesis by (auto simp: open_log_file_def)
  next
    case (Some f)
    with fo ok show ?thesis
      by (auto simp: open_log_file_def Let_def disk_ok_iff fun_eq_iff)
  qed
qed

lemma log_open_now_core:
  assumes core: "logger_core g ass" and i: "i < LOG_MAXLOGS"
  shows "\<exists>b g' l'. log_open_now i g = Some (b, g') \<and> logger_core g' ass \<and>
    g' = (set_slot i l' g)\<lparr>disk := disk g'\<rparr> \<and>
    l' = (slot g i)\<lparr>l_logfile := l_logfile l', l_size := l_size l'\<rparr> \<and>
    (b \<longrightarrow> l_in_use l' \<and> l_logfile l' \<noteq> None)"
proof -
  let ?l = "slot g i"
  have len: "i < length (loglist g)" using core i by (simp add: core_slot_length)
  have id_slot: "set_slot i ?l g = g" using len by (simp add: set_slot_def slot_def)
  have ok: "slot_ok (open_file (disk g)) (entry_heap g) ?l (ass i)" by (rule core_slot_ok [OF core i])
  then have files: "files_ok (open_file (disk g)) ?l" by (simp add: slot_ok_def)
  consider (unused) "\<not> l_in_use ?l" | (opened) "l_in_use ?l" "\<not> wants_open ?l"
    | (noname) "l_in_use ?l" "wants_open ?l" "l_filename ?l = No_Name"
    | (name) f where "l_in_use ?l" "wants_open ?l" "l_filename ?l = Name f"
    using files by (cases "l_filename ?l") (auto simp: files_ok_def)
  then show ?thesis
  proof cases
    case unused
    then show ?thesis using core id_slot
      by (intro exI [of _ False] exI [of _ g] exI [of _ ?l]) (simp add: log_open_now_def)
  next
    case opened
    then show ?thesis using core id_slot
      by (intro exI [of _ True] exI [of _ g] exI [of _ ?l])
        (auto simp: log_open_now_def wants_open_def)
  next
    case noname
    let ?l' = "?l\<lparr>l_size := 0\<rparr>"
    have "slot_ok (open_file (disk g)) (entry_heap g) ?l' (ass i)"
      using ok by (simp add: slot_ok_def files_ok_def queue_ok_def tail_ok_def)
    then have "logger_core (set_slot i ?l' g) ass"
      by (intro core_slot [OF core i]) simp_all
    then show ?thesis using noname files
      by (intro exI [of _ True] exI [of _ "set_slot i ?l' g"] exI [of _ ?l'])
        (auto simp: log_open_now_def files_ok_def)
  next
    case (name f)
    have d0: "disk_ok (disk g)" using core by (simp add: logger_core_def)
    obtain d1 where d1: "archive_file ?l f (disk g) = Some d1" "disk_ok d1"
      "open_file d1 = (\<lambda>p. open_file (disk g) p \<and> l_logfile ?l \<noteq> Some p)"
      using archive_file_total [OF d0, of ?l f] files by (auto simp: files_ok_def)
    obtain b l' d2 where d2: "open_log_file ?l f d1 = (b, l', d2)" "disk_ok d2"
      "l' = ?l\<lparr>l_logfile := l_logfile l', l_size := l_size l'\<rparr>"
      "b \<longleftrightarrow> l_logfile l' \<noteq> None" "\<forall>p. l_logfile l' = Some p \<longrightarrow> \<not> open_file d1 p"
      "open_file d2 = (\<lambda>p. open_file d1 p \<or> l_logfile l' = Some p)"
      using open_log_file_total [OF d1(2), of ?l f] by blast
    have same: "l_filename l' = l_filename ?l" "l_in_use l' = l_in_use ?l"
      "l_head l' = l_head ?l" "l_tail l' = l_tail ?l" "l_total l' = l_total ?l"
      "l_entries l' = l_entries ?l" "l_keep l' = l_keep ?l"
      by (subst d2(3), simp)+
    have ok': "slot_ok (open_file d2) (entry_heap g) l' (ass i)"
      using ok name d2(6) same by (auto simp: slot_ok_def files_ok_def queue_ok_def tail_ok_def)
    have "logger_core ((set_slot i l' g)\<lparr>disk := d2\<rparr>) (ass(i := ass i))"
    proof (rule core_update [OF core i, of _ l'])
      show "l_logfile ?l = Some p \<or> \<not> open_file (disk g) p" if "l_logfile l' = Some p" for p
        using that d2(5) d1(3) by auto
      show "open_file (disk ((set_slot i l' g)\<lparr>disk := d2\<rparr>)) p"
        if "open_file (disk g) p" "l_logfile ?l \<noteq> Some p" for p
        using that d2(6) d1(3) by simp
    qed (use core ok' d2(2) in \<open>simp_all add: set_slot_def logger_core_def\<close>)
    then show ?thesis using name d1 d2 same
      by (intro exI [of _ b] exI [of _ "(set_slot i l' g)\<lparr>disk := d2\<rparr>"] exI [of _ l'])
        (simp add: log_open_now_def)
  qed
qed

subsection \<open>Adding an entry\<close>

lemma word_increases:
  assumes "w < (k :: 32 word)"
  shows "unat (w + 1) = Suc (unat w)"
proof -
  have "Suc (unat w) < 2 ^ 32" using assms unsigned_less [of k, where 'a = nat] by (simp add: word_less_nat_alt)
  then show ?thesis by (simp add: unat_word_ariths)
qed

text \<open>Dropping the oldest entry when the log was full before the new entry came.\<close>

definition trimmed :: "log_t \<Rightarrow> 'a list \<Rightarrow> 'a list" where
  "trimmed l as = (if l_keep l \<le> l_entries l then tl as else as)"

lemma trim_queue:
  assumes q: "queue_ok h l (as @ [a])" and n: "unat (l_entries l) = length as"
    and k: "length as \<le> unat (l_keep l)"
  shows "\<exists>h' l'. (if l_keep l \<le> l_entries l then drop_head h l
                  else Some (h, l\<lparr>l_entries := l_entries l + 1\<rparr>)) = Some (h', l') \<and>
    queue_ok h' l' (trimmed l (as @ [a])) \<and>
    map (line_at h') (trimmed l (as @ [a])) = map (line_at h) (trimmed l (as @ [a])) \<and>
    (\<forall>b. b \<notin> set (as @ [a]) \<longrightarrow> h' b = h b) \<and>
    unat (l_entries l') = length (trimmed l (as @ [a])) \<and>
    l' = l\<lparr>l_head := l_head l', l_total := l_total l', l_entries := l_entries l'\<rparr>"
proof (cases "l_keep l \<le> l_entries l")
  case True
  obtain b bs where bs: "as @ [a] = b # bs" by (cases "as @ [a]") auto
  have dist: "b \<notin> set bs" using q unfolding bs by (simp add: queue_ok_def)
  obtain l' where l': "drop_head h l = Some (h(b := None), l')" "queue_ok (h(b := None)) l' bs"
    "l' = l\<lparr>l_head := l_head l', l_total := l_total l'\<rparr>"
    using drop_head_queue [of h l b bs] q unfolding bs by blast
  have same: "l_entries l' = l_entries l" by (subst l'(3)) simp
  then have "unat (l_entries l') = length bs"
    using n arg_cong [OF bs, of length] by simp
  moreover have "l' = l\<lparr>l_head := l_head l', l_total := l_total l', l_entries := l_entries l'\<rparr>"
    by (subst l'(3)) (simp add: same)
  moreover have "map (line_at (h(b := None))) bs = map (line_at h) bs"
    using dist by (intro line_at_cong) auto
  ultimately show ?thesis
    using True l'(1,2) bs
    by (intro exI [of _ "h(b := None)"] exI [of _ l']) (auto simp: trimmed_def)
next
  case False
  then have "unat (l_entries l + 1) = length as + 1"
    using n word_increases [of "l_entries l" "l_keep l"] by simp
  then show ?thesis using False q
    by (intro exI [of _ h] exI [of _ "l\<lparr>l_entries := l_entries l + 1\<rparr>"])
      (auto simp: trimmed_def queue_ok_def)
qed

text \<open>The whole change of the linked list: link the new entry in, then trim.\<close>

definition link_entry :: "addr \<Rightarrow> log_entry \<Rightarrow> entry_heap \<Rightarrow> log_t \<Rightarrow> (entry_heap \<times> log_t) option" where
  "link_entry a e h l = do {
     (h, l) \<leftarrow> store_tail (l_tail l) a (h(a \<mapsto> e)) (l\<lparr>l_total := l_total l + ucast (e_len e)\<rparr>);
     let l = l\<lparr>l_tail := Tail_Next a\<rparr>;
     if l_keep l \<le> l_entries l then drop_head h l
     else Some (h, l\<lparr>l_entries := l_entries l + 1\<rparr>) }"

lemma link_entry_slot:
  assumes ok: "slot_ok op h l as" and used: "l_in_use l" and keep: "l_keep l \<noteq> 0"
    and new: "h a = None" "a \<notin> set as" and e: "entry_ok e" "e_next e = None"
  shows "\<exists>h' l'. link_entry a e h l = Some (h', l') \<and>
    slot_ok op h' l' (trimmed l (as @ [a])) \<and>
    map (line_at h') (trimmed l (as @ [a])) =
      put_line (unat (l_keep l)) (e_line e) (map (line_at h) as) \<and>
    (\<forall>b. b \<notin> set (as @ [a]) \<longrightarrow> h' b = h b) \<and>
    l_in_use l' \<and> l_keep l' = l_keep l \<and> l_logfile l' = l_logfile l"
proof -
  have q: "queue_ok h l as" "tail_ok l as" and n: "unat (l_entries l) = length as"
    and k: "length as \<le> unat (l_keep l)" "0 < unat (l_keep l)"
    using ok used keep by (auto simp: slot_ok_def unat_gt_0)
  obtain h1 l1 where st: "store_tail (l_tail l) a (h(a \<mapsto> e))
      (l\<lparr>l_total := l_total l + ucast (e_len e)\<rparr>) = Some (h1, l1)"
    "queue_ok h1 l1 (as @ [a])" "map (line_at h1) (as @ [a]) = map (line_at h) as @ [e_line e]"
    "\<forall>b. b \<notin> set (as @ [a]) \<longrightarrow> h1 b = h b"
    "l1 = l\<lparr>l_head := l_head l1, l_total := l_total l1\<rparr>"
    using store_tail_queue [OF q new e] by blast
  let ?l2 = "l1\<lparr>l_tail := Tail_Next a\<rparr>"
  have same1: "l_keep l1 = l_keep l" "l_entries l1 = l_entries l" "l_in_use l1 = l_in_use l"
    "l_filename l1 = l_filename l" "l_logfile l1 = l_logfile l" by (subst st(5), simp)+
  have trim: "trimmed ?l2 as = trimmed l as" for as :: "addr list" by (simp add: trimmed_def same1)
  have q2: "queue_ok h1 ?l2 (as @ [a])" using st(2) by (simp add: queue_ok_def)
  have n2: "unat (l_entries ?l2) = length as" and k2: "length as \<le> unat (l_keep ?l2)"
    using n k same1 by simp_all
  obtain h2 l3 where r:
    "(if l_keep ?l2 \<le> l_entries ?l2 then drop_head h1 ?l2
      else Some (h1, ?l2\<lparr>l_entries := l_entries ?l2 + 1\<rparr>)) = Some (h2, l3)"
    "queue_ok h2 l3 (trimmed l (as @ [a]))"
    "map (line_at h2) (trimmed l (as @ [a])) = map (line_at h1) (trimmed l (as @ [a]))"
    "\<forall>b. b \<notin> set (as @ [a]) \<longrightarrow> h2 b = h1 b"
    "unat (l_entries l3) = length (trimmed l (as @ [a]))"
    "l3 = ?l2\<lparr>l_head := l_head l3, l_total := l_total l3, l_entries := l_entries l3\<rparr>"
    using trim_queue [OF q2 n2 k2] unfolding trim by blast
  have same3: "l_keep l3 = l_keep l" "l_in_use l3 = l_in_use l" "l_tail l3 = Tail_Next a"
    "l_filename l3 = l_filename l" "l_logfile l3 = l_logfile l" by (subst r(6), simp add: same1)+
  have full: "l_keep l \<le> l_entries l \<longleftrightarrow> unat (l_keep l) = length as"
    using k n by (auto simp: word_le_nat_alt)
  have tr: "trimmed l (as @ [a]) \<noteq> []" "last (trimmed l (as @ [a])) = a"
    "length (trimmed l (as @ [a])) \<le> unat (l_keep l)"
    using full k by (auto simp: trimmed_def tl_append split: list.splits)
  have "map (line_at h2) (trimmed l (as @ [a])) = trimmed l (map (line_at h) as @ [e_line e])"
    unfolding r(3) st(3) [symmetric] by (simp add: trimmed_def map_tl)
  also have "\<dots> = put_line (unat (l_keep l)) (e_line e) (map (line_at h) as)"
    using full k by (auto simp: trimmed_def put_line_def)
  finally have lines: "map (line_at h2) (trimmed l (as @ [a])) =
    put_line (unat (l_keep l)) (e_line e) (map (line_at h) as)" .
  have "slot_ok op h2 l3 (trimmed l (as @ [a]))"
    using r(2,5) same3 tr ok used by (simp add: slot_ok_def tail_ok_def files_ok_def)
  moreover have "link_entry a e h l = Some (h2, l3)"
    using st(1) r(1) by (simp add: link_entry_def)
  ultimately show ?thesis
    using lines r(4) st(4) same3 used by (intro exI [of _ h2] exI [of _ l3]) simp
qed

lemma create_log_entry_keep:
  assumes keep: "l_keep (slot g i) \<noteq> 0"
    and pr: "fprintf (l_logfile (slot g i)) (entry_text pre line) (disk g) = Some (n, d')"
    and len: "length pre + length line + 1 < 2048"
    and w: "w = word_of_nat (length pre + length line + 2)"
    and link: "link_entry (next_entry g) \<lparr>e_line = entry_text pre line, e_len = w, e_next = None\<rparr>
           (entry_heap g) (slot g i) = Some (h', l')"
  shows "create_log_entry i pre line g = Some (sint w,
          (set_slot i l' g)\<lparr>disk := d', entry_heap := h', next_entry := Suc (next_entry g)\<rparr>)"
proof -
  have "unat w = length pre + length line + 2"
    unfolding w by (rule of_nat_inverse [OF refl]) (use len in simp)
  then have "take (unat w - 1) (pre @ line @ [LF]) = entry_text pre line"
    by (simp add: entry_text_def)
  then show ?thesis
    using keep pr link unfolding create_log_entry_def link_entry_def w [symmetric]
    by (auto simp: Let_def elim!: bind_SomeE split: if_split_asm)
qed

lemma create_log_entry_disk:
  assumes "create_log_entry i pre line g = Some (n, g')" and len: "length pre + length line + 1 < 2048"
  shows "\<exists>m. fprintf (l_logfile (slot g i)) (entry_text pre line) (disk g) = Some (m, disk g')"
proof -
  have "unat (word_of_nat (length pre + length line + 2) :: 32 word) = length pre + length line + 2"
    by (rule of_nat_inverse [OF refl]) (use len in simp)
  then have "take (unat (word_of_nat (length pre + length line + 2) :: 32 word) - 1) (pre @ line @ [LF]) =
    entry_text pre line" by (simp only: entry_text_def) simp
  then show ?thesis
    using assms(1) unfolding create_log_entry_def Let_def
    by (auto simp: entry_text_def simp del: of_nat_add split: if_split_asm elim!: bind_SomeE)
qed

lemma create_log_entry_core:
  assumes core: "logger_core g ass" and i: "i < LOG_MAXLOGS"
    and used: "l_in_use (slot g i)" "l_logfile (slot g i) \<noteq> None"
    and len: "length pre + length line + 1 < 2048"
  shows "\<exists>n g' ass'. create_log_entry i pre line g = Some (n, g') \<and> logger_core g' ass' \<and>
    mutex g' = mutex g \<and> length (loglist g') = length (loglist g) \<and>
    l_in_use (slot g' i) \<and> l_keep (slot g' i) = l_keep (slot g i) \<and>
    l_logfile (slot g' i) = l_logfile (slot g i) \<and>
    map (line_at (entry_heap g')) (ass' i) =
      put_line (unat (l_keep (slot g i))) (entry_text pre line) (map (line_at (entry_heap g)) (ass i)) \<and>
    (\<forall>j < LOG_MAXLOGS. j \<noteq> i \<longrightarrow> slot g' j = slot g j \<and>
       map (line_at (entry_heap g')) (ass' j) = map (line_at (entry_heap g)) (ass j))"
proof -
  let ?l = "slot g i" and ?as = "ass i" and ?t = "entry_text pre line" and ?a = "next_entry g"
  have llen: "i < length (loglist g)" using core i by (simp add: core_slot_length)
  have ok: "slot_ok (open_file (disk g)) (entry_heap g) ?l ?as" by (rule core_slot_ok [OF core i])
  obtain fp where fp: "l_logfile ?l = Some fp" using used by blast
  then have op: "open_file (disk g) fp" using ok by (simp add: slot_ok_def files_ok_def)
  have dk: "disk_ok (disk g)" using core by (simp add: logger_core_def)
  show ?thesis
  proof (cases "l_keep ?l = 0")
    case True
    obtain n d' where pr: "fprintf (Some fp) ?t (disk g) = Some (n, d')" "open_file d' = open_file (disk g)"
      "next_id d' = next_id (disk g)" using fprintf_total [OF op] by blast
    then have "logger_core (g\<lparr>disk := d'\<rparr>) ass" by (intro core_disk [OF core])
    then show ?thesis using True fp pr used
      by (intro exI [of _ n] exI [of _ "g\<lparr>disk := d'\<rparr>"] exI [of _ ass])
        (simp add: create_log_entry_def put_line_def entry_text_def)
  next
    case False
    let ?len = "word_of_nat (length pre + length line + 2) :: 32 word"
    let ?e = "\<lparr>e_line = ?t, e_len = ?len, e_next = None\<rparr>" and ?as' = "trimmed ?l (?as @ [?a])"
    have "unat ?len = length pre + length line + 2"
      by (rule of_nat_inverse [OF refl]) (use len in simp)
    then have eok: "entry_ok ?e" using len by (simp add: entry_ok_def entry_text_def)
    have new: "entry_heap g ?a = None" "?a \<notin> set ?as"
      using core core_addr [OF core i] by (auto simp: logger_core_def)
    obtain n d' where pr: "fprintf (Some fp) ?t (disk g) = Some (n, d')" "open_file d' = open_file (disk g)"
      "next_id d' = next_id (disk g)" using fprintf_total [OF op] by blast
    obtain h2 l3 where r: "link_entry ?a ?e (entry_heap g) ?l = Some (h2, l3)"
      "slot_ok (open_file (disk g)) h2 l3 ?as'"
      "map (line_at h2) ?as' = put_line (unat (l_keep ?l)) ?t (map (line_at (entry_heap g)) ?as)"
      "\<forall>b. b \<notin> set (?as @ [?a]) \<longrightarrow> h2 b = entry_heap g b"
      "l_in_use l3" "l_keep l3 = l_keep ?l" "l_logfile l3 = l_logfile ?l"
      using link_entry_slot [OF ok used(1) False new eok] by auto
    let ?g' = "(set_slot i l3 g)\<lparr>disk := d', entry_heap := h2, next_entry := Suc ?a\<rparr>"
    have run: "create_log_entry i pre line g = Some (sint ?len, ?g')"
      using create_log_entry_keep [OF False _ len refl r(1)] fp pr(1) by simp
    have core': "logger_core ?g' (ass(i := ?as'))"
    proof (rule core_update [OF core i, of _ l3])
      show "slot_ok (open_file (disk ?g')) (entry_heap ?g') l3 ?as'"
        using r(2) pr(2) by simp
      show "entry_heap ?g' b = entry_heap g b" if "b < next_entry g" "b \<notin> set ?as" for b
        using that r(4) by simp
      show "b < next_entry ?g'" if "entry_heap ?g' b \<noteq> None" for b
      proof (rule ccontr)
        assume "\<not> b < next_entry ?g'"
        then have b: "\<not> b < ?a" "b \<noteq> ?a" by auto
        then have "b \<notin> set (?as @ [?a])" using core_addr [OF core i, of b] by auto
        moreover have "entry_heap g b = None" using core b(1) by (auto simp: logger_core_def)
        ultimately have "b \<notin> set (?as @ [?a])" "entry_heap g b = None" .
        then show False using that r(4) by simp
      qed
      show "b \<in> set ?as \<or> next_entry g \<le> b" if "b \<in> set ?as'" for b
        using that by (auto simp: trimmed_def split: if_split_asm dest: list.set_sel(2) [rotated])
    qed (use fp pr dk r(7) in \<open>simp_all add: set_slot_def disk_ok_iff\<close>)
    have others: "map (line_at h2) (ass j) = map (line_at (entry_heap g)) (ass j)"
      if "j < LOG_MAXLOGS" "j \<noteq> i" for j
    proof (rule line_at_cong)
      fix b assume "b \<in> set (ass j)"
      then have "b \<notin> set (?as @ [?a])"
        using core i that core_addr [OF core that(1)] unfolding logger_core_def by fastforce
      then show "h2 b = entry_heap g b" using r(4) by simp
    qed
    show ?thesis
      using run core' r(3,5,6,7) others llen used
      by (intro exI [of _ "sint ?len"] exI [of _ ?g'] exI [of _ "ass(i := ?as')"])
        (simp add: slot_set_slot)
  qed
qed

end
