(* ===== verification/Log_Run.thy ===== *)
theory Log_Run
  imports Log_Calls
begin

section \<open>Runs of the log library\<close>

text \<open>
  The calls an application makes, as a datatype, and the lemma that each of them returns and
  keeps the invariant. \<open>Call_Fopen\<close> is the application's own opening of a file, which
  it can then give to \<open>log_open_file\<close>. \<open>call_ok\<close> says when a call may be made. It excludes what
  the library does not survive: a call before \<open>log_initialize\<close> or after \<open>log_shutdown\<close>, asking for
  zero kept lines while there are some (see \<open>Log_Props\<close>), taking away the name of a log that
  has no open file, opening a log on a file in a slot whose tail dangles, a format that does not
  fit its arguments; and more than \<open>KEEP_MAX\<close> lines (their total would not fit the \<open>int\<close> of
  \<open>log_contents\<close>).
\<close>

datatype log_call =
    Call_Initialize
  | Call_Shutdown
  | Call_Fopen string
  | Call_Open_File file_ptr
  | Call_Open "string option"
  | Call_Open_Buffer "string option" int
  | Call_Close int
  | Call_Trigger int "32 word"
  | Call_Filename int "string option"
  | Call_Archive int bool
  | Call_Lines_Kept int "32 word"
  | Call_Level int "32 word"
  | Call_Flush int
  | Call_Reopen int
  | Call_Contents int
  | Call_Write int "32 word" string string string "log_arg list"
  | Call_Write_Direct int string "log_arg list"

fun run_call :: "log_call \<Rightarrow> logger \<Rightarrow> logger option" where
  "run_call Call_Initialize g = Some (log_initialize g)"
| "run_call Call_Shutdown g = log_shutdown g"
| "run_call (Call_Fopen f) g = Some (g\<lparr>disk := snd (fopen_append f (disk g))\<rparr>)"
| "run_call (Call_Open_File fp) g = map_option snd (log_open_file fp g)"
| "run_call (Call_Open f) g = map_option snd (log_open f g)"
| "run_call (Call_Open_Buffer f n) g = map_option snd (log_open_with_buffer f n g)"
| "run_call (Call_Close i) g = log_close i g"
| "run_call (Call_Trigger i n) g = Some (log_set_trigger i n g)"
| "run_call (Call_Filename i f) g = map_option snd (log_set_filename i f g)"
| "run_call (Call_Archive i v) g = map_option snd (log_set_archive_timestamp i v g)"
| "run_call (Call_Lines_Kept i n) g = log_set_lines_kept i n g"
| "run_call (Call_Level i n) g = Some (log_set_level i n g)"
| "run_call (Call_Flush i) g = log_flush i g"
| "run_call (Call_Reopen i) g = log_reopen i g"
| "run_call (Call_Contents i) g = map_option snd (log_contents i g)"
| "run_call (Call_Write i p c f fmt ap) g = log_write i p c f fmt ap g"
| "run_call (Call_Write_Direct i fmt ap) g = log_write_direct i fmt ap g"

fun run_calls :: "log_call list \<Rightarrow> logger \<Rightarrow> logger option" where
  "run_calls [] g = Some g"
| "run_calls (c # cs) g = Option.bind (run_call c g) (run_calls cs)"

definition names_log :: "int \<Rightarrow> logger \<Rightarrow> bool" where
  "names_log i g \<longleftrightarrow> \<not> bad_id i \<and> l_in_use (slot g (nat i))"

definition file_free :: "nat \<Rightarrow> logger \<Rightarrow> bool" where
  "file_free f g \<longleftrightarrow> open_file (disk g) f \<and> list_all (\<lambda>l. l_logfile l \<noteq> Some f) (loglist g)"

definition slot_clean :: "logger \<Rightarrow> bool" where
  "slot_clean g \<longleftrightarrow> (case find_free (loglist g) 0 of None \<Rightarrow> True | Some i \<Rightarrow> l_tail (slot g i) = Tail_Head)"

fun call_ok :: "logger \<Rightarrow> log_call \<Rightarrow> bool" where
  "call_ok g Call_Initialize \<longleftrightarrow> True"
| "call_ok g (Call_Fopen f) \<longleftrightarrow> True"
| "call_ok g (Call_Open_File (Some f)) \<longleftrightarrow> initialized g \<and> file_free f g \<and> slot_clean g"
| "call_ok g (Call_Filename i None) \<longleftrightarrow> initialized g \<and> (names_log i g \<longrightarrow> l_logfile (slot g (nat i)) \<noteq> None)"
| "call_ok g (Call_Lines_Kept i n) \<longleftrightarrow> initialized g \<and> unat n \<le> KEEP_MAX \<and>
     (n = 0 \<longrightarrow> names_log i g \<longrightarrow> l_entries (slot g (nat i)) = 0)"
| "call_ok g (Call_Write i p cat f fmt ap) \<longleftrightarrow> initialized g \<and> vsnprintf_log LOG_MAXLINELEN fmt ap \<noteq> None"
| "call_ok g (Call_Write_Direct i fmt ap) \<longleftrightarrow> initialized g \<and> vsnprintf_log LOG_MAXLINELEN fmt ap \<noteq> None"
| "call_ok g c \<longleftrightarrow> initialized g"

fun calls_ok :: "logger \<Rightarrow> log_call list \<Rightarrow> bool" where
  "calls_ok g [] \<longleftrightarrow> True"
| "calls_ok g (c # cs) \<longleftrightarrow> call_ok g c \<and> (case run_call c g of None \<Rightarrow> True | Some g' \<Rightarrow> calls_ok g' cs)"

subsection \<open>Locking\<close>

lemma lock_ok: "mutex g = Unlocked \<Longrightarrow> lock_logger g = Some (g\<lparr>mutex := Locked\<rparr>)"
  by (simp add: lock_logger_def)

lemma unlock_ok: "mutex g = Locked \<Longrightarrow> unlock_logger g = Some (g\<lparr>mutex := Unlocked\<rparr>)"
  by (simp add: unlock_logger_def)

lemma not_bad_id: "\<not> bad_id i \<Longrightarrow> nat i < LOG_MAXLOGS"
  by (auto simp: bad_id_def LOG_MAXLOGS_def)

subsection \<open>Writing\<close>

lemma vsnprintf_log_length: "vsnprintf_log n fmt ap = Some t \<Longrightarrow> length t < n"
  by (auto simp: vsnprintf_log_def elim!: bind_SomeE dest!: vsn_loop_room split: if_split_asm)

lemma log_prefix_length: "length (log_prefix p c f d) \<le> 255"
  by (auto simp: log_prefix_def strftime_text_def Let_def)

lemma write_entry_core:
  assumes core: "logger_core g ass" and i: "i < LOG_MAXLOGS"
    and len: "length pre + length line + 1 < 2048"
  shows "\<exists>b g1 g' ass'. log_open_now i g = Some (b, g1) \<and> write_entry i pre line g = Some g' \<and>
    logger_core g' ass' \<and> mutex g' = mutex g \<and>
    kept_lines g' i = (if b then put_line (unat (l_keep (slot g i))) (entry_text pre line) (kept_lines g i)
                       else kept_lines g i) \<and>
    (\<forall>j < LOG_MAXLOGS. j \<noteq> i \<longrightarrow> kept_lines g' j = kept_lines g j)"
proof -
  have llen: "length (loglist g) = LOG_MAXLOGS" by (rule core_slot_length [OF core])
  obtain b g1 l1 where o: "log_open_now i g = Some (b, g1)" "logger_core g1 ass"
    "g1 = (set_slot i l1 g)\<lparr>disk := disk g1\<rparr>"
    "l1 = (slot g i)\<lparr>l_logfile := l_logfile l1, l_size := l_size l1\<rparr>"
    "b \<longrightarrow> l_in_use l1 \<and> l_logfile l1 \<noteq> None"
    using log_open_now_core [OF core i] by blast
  have s1: "slot g1 j = (if j = i then l1 else slot g j)" for j
    using i llen by (subst o(3)) (simp add: slot_set_slot)
  have keep: "l_keep l1 = l_keep (slot g i)" by (subst o(4)) simp
  have h1: "entry_heap g1 = entry_heap g" "mutex g1 = mutex g" by (subst o(3), simp)+
  have kept1: "kept_lines g1 j = kept_lines g j" if "j < LOG_MAXLOGS" for j
    using core_kept_lines [OF core that] core_kept_lines [OF o(2) that] h1 by simp
  show ?thesis
  proof (cases b)
    case False
    then show ?thesis using o(1,2) h1 kept1 i
      by (intro exI [of _ b] exI [of _ g1] exI [of _ ass]) (simp add: write_entry_def)
  next
    case True
    obtain n g2 ass' where c: "create_log_entry i pre line g1 = Some (n, g2)" "logger_core g2 ass'"
      "mutex g2 = mutex g1" "length (loglist g2) = length (loglist g1)"
      "map (line_at (entry_heap g2)) (ass' i) = put_line (unat (l_keep (slot g1 i)))
         (entry_text pre line) (map (line_at (entry_heap g1)) (ass i))"
      "\<forall>j < LOG_MAXLOGS. j \<noteq> i \<longrightarrow> slot g2 j = slot g1 j \<and>
         map (line_at (entry_heap g2)) (ass' j) = map (line_at (entry_heap g1)) (ass j)"
      using create_log_entry_core [OF o(2) i _ _ len] o(5) True s1 by auto
    have core3: "logger_core (add_size i n g2) ass'"
      using core_slot_ok [OF c(2) i]
      by (auto simp: add_size_def slot_ok_def queue_ok_def tail_ok_def files_ok_def
          intro!: core_slot [OF c(2) i] c(2))
    have same: "entry_heap (add_size i n g2) = entry_heap g2" "mutex (add_size i n g2) = mutex g2"
      by (simp_all add: add_size_def)
    have kept: "kept_lines (add_size i n g2) j = map (line_at (entry_heap g2)) (ass' j)"
      if "j < LOG_MAXLOGS" for j using core_kept_lines [OF core3 that] same by simp
    show ?thesis
      using True o(1) c core3 same kept h1 s1 keep i core_kept_lines [OF core]
      by (intro exI [of _ b] exI [of _ g1] exI [of _ "add_size i n g2"] exI [of _ ass'])
        (simp add: write_entry_def)
  qed
qed

lemma log_write_ok:
  assumes ok: "logger_ok g" and fit: "vsnprintf_log LOG_MAXLINELEN fmt ap \<noteq> None"
  shows "\<exists>g'. log_write i p c f fmt ap g = Some g' \<and> logger_ok g'"
proof (cases "bad_id i \<or> l_level (slot g (nat i)) < p \<or> p = 0 \<or> p > word_of_nat (length prior)")
  case True
  then show ?thesis using ok by (auto simp: log_write_def)
next
  case False
  then have i: "nat i < LOG_MAXLOGS" by (simp add: not_bad_id)
  obtain ass where core: "logger_core (g\<lparr>mutex := Locked\<rparr>) ass" and m: "mutex g = Unlocked"
    using ok by (auto simp: logger_ok_def)
  obtain line where line: "vsnprintf_log LOG_MAXLINELEN fmt ap = Some line" using fit by blast
  have "length (log_prefix p c f (disk g)) + length line + 1 < 2048"
    using vsnprintf_log_length [OF line] log_prefix_length [of p c f "disk g"]
    by (simp add: LOG_MAXLINELEN_def)
  from write_entry_core [OF core i this] obtain g' ass' where
    "write_entry (nat i) (log_prefix p c f (disk g)) line (g\<lparr>mutex := Locked\<rparr>) = Some g'"
    "logger_core g' ass'" "mutex g' = Locked" by auto
  then show ?thesis using False line m
    by (auto simp: log_write_def lock_ok unlock_ok intro!: logger_okI [of _ ass'])
qed

lemma fflush_core:
  assumes core: "logger_core g ass" and i: "i < LOG_MAXLOGS"
  shows "\<exists>d. fflush (l_logfile (slot g i)) (disk g) = Some d \<and> logger_core (g\<lparr>disk := d\<rparr>) ass"
proof -
  have "\<And>f. l_logfile (slot g i) = Some f \<Longrightarrow> open_file (disk g) f"
    using core_slot_ok [OF core i] by (simp add: slot_ok_def files_ok_def)
  then obtain d where "fflush (l_logfile (slot g i)) (disk g) = Some d"
    "open_file d = open_file (disk g)" "next_id d = next_id (disk g)" using fflush_total by blast
  then show ?thesis using core_disk [OF core] by blast
qed

lemma log_write_direct_ok:
  assumes ok: "logger_ok g" and fit: "vsnprintf_log LOG_MAXLINELEN fmt ap \<noteq> None"
  shows "\<exists>g'. log_write_direct i fmt ap g = Some g' \<and> logger_ok g'"
proof (cases "bad_id i")
  case True
  then show ?thesis using ok by (auto simp: log_write_direct_def)
next
  case False
  then have i: "nat i < LOG_MAXLOGS" by (simp add: not_bad_id)
  obtain ass where core: "logger_core (g\<lparr>mutex := Locked\<rparr>) ass" and m: "mutex g = Unlocked"
    using ok by (auto simp: logger_ok_def)
  obtain line where line: "vsnprintf_log LOG_MAXLINELEN fmt ap = Some line" using fit by blast
  have "length [] + length line + 1 < 2048"
    using vsnprintf_log_length [OF line] by (simp add: LOG_MAXLINELEN_def)
  from write_entry_core [OF core i this] obtain g' ass' where
    w: "write_entry (nat i) [] line (g\<lparr>mutex := Locked\<rparr>) = Some g'"
    "logger_core g' ass'" "mutex g' = Locked" by auto
  then have "logger_core (g'\<lparr>mutex := Unlocked\<rparr>) ass'" by simp
  from fflush_core [OF this i] obtain d where
    "fflush (l_logfile (slot g' (nat i))) (disk g') = Some d"
    "logger_core (g'\<lparr>mutex := Unlocked, disk := d\<rparr>) ass'" by auto
  then show ?thesis using False line m w
    by (auto simp: log_write_direct_def lock_ok unlock_ok intro!: logger_okI [of _ ass'])
qed

subsection \<open>Reading the kept lines\<close>

lemma kept_total:
  assumes "slot_ok op h l as"
  shows "lines_total (map (line_at h) as) \<le> 2048000000"
proof -
  have "t \<in> set (map (line_at h) as) \<Longrightarrow> length t < 2048" for t
    using assms by (auto simp: slot_ok_def queue_ok_def line_at_def entry_ok_def)
  from lines_total_bound [of "map (line_at h) as", OF this]
  have "lines_total (map (line_at h) as) \<le> 2048 * length as" by simp
  moreover have "length as \<le> KEEP_MAX" using assms by (simp add: slot_ok_def)
  ultimately show ?thesis by (simp add: KEEP_MAX_def)
qed

lemma ucast_small: "n < 2 ^ 64 \<Longrightarrow> (ucast (word_of_nat n :: 64 word) :: 32 word) = word_of_nat n"
  by (simp add: unsigned_of_nat take_bit_nat_eq_self)

lemma small_word:
  assumes "n \<le> 2048000000"
  shows "sint (ucast (word_of_nat n + 1 :: 64 word) :: 32 word) = int n + 1"
    and "unat (ucast (word_of_nat n :: 64 word) :: 32 word) = n"
proof -
  have "word_of_nat n + 1 = (word_of_nat (n + 1) :: 64 word)" by simp
  moreover have "(ucast (word_of_nat (n + 1) :: 64 word) :: 32 word) = word_of_nat (n + 1)"
    by (rule ucast_small) (use assms in simp)
  ultimately have "(ucast (word_of_nat n + 1 :: 64 word) :: 32 word) = word_of_nat (n + 1)"
    by (simp only:)
  moreover have "sint (word_of_nat (n + 1) :: 32 word) = int (n + 1)"
    using assms by (simp add: signed_take_bit_int_eq_self signed_of_nat del: of_nat_Suc of_nat_add)
  ultimately show "sint (ucast (word_of_nat n + 1 :: 64 word) :: 32 word) = int n + 1" by simp
  have "(ucast (word_of_nat n :: 64 word) :: 32 word) = word_of_nat n"
    by (rule ucast_small) (use assms in simp)
  then show "unat (ucast (word_of_nat n :: 64 word) :: 32 word) = n"
    using of_nat_inverse [OF refl, of n, where 'a = 32] assms by simp
qed

lemma log_contents_ok:
  assumes ok: "logger_ok g" and i: "\<not> bad_id i"
  shows "\<exists>n. log_contents i g = Some (Some (concat (kept_lines g (nat i)), n), g) \<and>
    unat n = lines_total (kept_lines g (nat i))"
proof -
  have i': "nat i < LOG_MAXLOGS" using i by (simp add: not_bad_id)
  obtain ass where core: "logger_core g ass" and m: "mutex g = Unlocked"
    using ok by (auto simp: logger_ok_def)
  note sok = core_slot_ok [OF core i']
  let ?as = "ass (nat i)" and ?l = "slot g (nat i)"
  let ?ts = "map (line_at (entry_heap g)) ?as"
  have kept: "kept_lines g (nat i) = ?ts" by (rule core_kept_lines [OF core i'])
  have q: "chain (entry_heap g) (l_head ?l) ?as" "distinct ?as"
    "l_total ?l = word_of_nat (lines_total ?ts)" using sok by (auto simp: slot_ok_def queue_ok_def)
  note small = small_word [OF kept_total [OF sok]]
  have "set ?as \<subseteq> {..< next_entry g}" using core_addr [OF core i'] by blast
  then have "card (set ?as) \<le> card {..< next_entry g}" by (intro card_mono) auto
  then have "length ?as \<le> next_entry g" using q(2) by (simp add: distinct_card)
  then have "contents_loop (next_entry g) (entry_heap g) (l_head ?l) (int (lines_total ?ts) + 1) [] =
      Some ([] @ concat ?ts)"
    by (intro contents_loop_queue [OF q(1)]) simp_all
  then show ?thesis
    using i m small q(3) unfolding kept
    by (intro exI [of _ "ucast (l_total ?l)"]) (simp add: log_contents_def lock_ok unlock_ok)
qed

subsection \<open>Settings\<close>

lemma core_setting:
  assumes core: "logger_core g ass" and i: "i < LOG_MAXLOGS"
    and "l' = (slot g i)\<lparr>l_level := l_level l', l_trigger := l_trigger l', l_archive := l_archive l',
           l_size := l_size l'\<rparr>"
  shows "logger_core (set_slot i l' g) ass"
proof (rule core_slot [OF core i])
  have same: "l_logfile l' = l_logfile (slot g i)" "l_filename l' = l_filename (slot g i)"
    "l_in_use l' = l_in_use (slot g i)" "l_head l' = l_head (slot g i)" "l_tail l' = l_tail (slot g i)"
    "l_total l' = l_total (slot g i)" "l_entries l' = l_entries (slot g i)" "l_keep l' = l_keep (slot g i)"
    by (subst assms(3), simp)+
  show "l_logfile l' = l_logfile (slot g i)" by (rule same)
  show "slot_ok (open_file (disk g)) (entry_heap g) l' (ass i)"
    using core_slot_ok [OF core i] by (simp add: slot_ok_def queue_ok_def tail_ok_def files_ok_def same)
qed

lemma log_set_level_ok: "logger_ok g \<Longrightarrow> logger_ok (log_set_level i n g)"
  using not_bad_id [of i]
  by (auto simp: log_set_level_def logger_ok_def intro!: exI core_setting)

lemma log_set_trigger_ok: "logger_ok g \<Longrightarrow> logger_ok (log_set_trigger i n g)"
  using not_bad_id [of i]
  by (auto simp: log_set_trigger_def logger_ok_def intro!: exI core_setting)

lemma log_set_archive_ok:
  assumes "logger_ok g"
  shows "\<exists>r g'. log_set_archive_timestamp i v g = Some (r, g') \<and> logger_ok g'"
proof (cases "bad_id i")
  case True
  with assms show ?thesis by (simp add: log_set_archive_timestamp_def)
next
  case False
  obtain ass where core: "logger_core (g\<lparr>mutex := Locked\<rparr>) ass" and m: "mutex g = Unlocked"
    using assms by (auto simp: logger_ok_def)
  let ?g = "set_slot (nat i) ((slot g (nat i))\<lparr>l_archive := v\<rparr>) (g\<lparr>mutex := Locked\<rparr>)"
  have "logger_core ?g ass"
    using not_bad_id [OF False] by (intro core_setting [OF core]) simp_all
  with False m show ?thesis
    by (auto simp: log_set_archive_timestamp_def lock_ok unlock_ok intro!: logger_okI [of _ ass])
qed

lemma log_set_filename_ok:
  assumes "logger_ok g" and "f = None \<longrightarrow> names_log i g \<longrightarrow> l_logfile (slot g (nat i)) \<noteq> None"
  shows "\<exists>r g'. log_set_filename i f g = Some (r, g') \<and> logger_ok g'"
proof (cases "bad_id i \<or> (\<exists>n. f = Some n \<and> strcmp n [] = 0) \<or> \<not> l_in_use (slot g (nat i))")
  case True
  with assms show ?thesis by (auto simp: log_set_filename_def)
next
  case False
  then have i: "nat i < LOG_MAXLOGS" by (simp add: not_bad_id)
  obtain ass where core: "logger_core (g\<lparr>mutex := Locked\<rparr>) ass" and m: "mutex g = Unlocked"
    using assms by (auto simp: logger_ok_def)
  have ok: "slot_ok (open_file (disk g)) (entry_heap g) (slot g (nat i)) (ass (nat i))"
    using core_slot_ok [OF core i] by simp
  then have "l_filename (slot g (nat i)) \<noteq> Freed_Name" using False by (simp add: slot_ok_def files_ok_def)
  moreover have "logger_core (set_slot (nat i) ((slot g (nat i))\<lparr>l_filename :=
      (case f of None \<Rightarrow> No_Name | Some n \<Rightarrow> Name n)\<rparr>) (g\<lparr>mutex := Locked\<rparr>)) ass"
    using ok assms(2) False by (intro core_slot [OF core i])
      (auto simp: slot_ok_def queue_ok_def tail_ok_def files_ok_def names_log_def split: option.split)
  ultimately show ?thesis using False m
    by (auto simp: log_set_filename_def lock_ok unlock_ok split: option.split intro!: logger_okI [of _ ass])
qed

subsection \<open>Trimming and closing\<close>

lemma drop_kept_core:
  assumes core: "logger_core g ass" and i: "i < LOG_MAXLOGS"
    and l: "l = (slot g i)\<lparr>l_keep := l_keep l, l_in_use := l_in_use l, l_level := l_level l,
              l_filename := l_filename l, l_logfile := l_logfile l\<rparr>"
    and keep: "unat count \<le> unat (l_keep l)" "unat (l_keep l) \<le> KEEP_MAX"
    and used: "l_in_use l \<Longrightarrow> l_in_use (slot g i) \<and> 0 < count" "\<not> l_in_use l \<Longrightarrow> count = 0"
    and files: "files_ok (open_file d) l" "disk_ok d"
      "\<And>f. open_file (disk g) f \<Longrightarrow> l_logfile (slot g i) \<noteq> Some f \<Longrightarrow> open_file d f"
      "\<And>f. l_logfile l = Some f \<Longrightarrow> l_logfile (slot g i) = Some f"
  shows "\<exists>h' l'. drop_kept count (entry_heap g) l = Some (h', l') \<and>
    logger_core ((set_slot i l' g)\<lparr>disk := d, entry_heap := h'\<rparr>)
      (ass(i := drop (length (ass i) - unat count) (ass i))) \<and>
    map (line_at h') (drop (length (ass i) - unat count) (ass i)) =
      drop (length (ass i) - unat count) (map (line_at (entry_heap g)) (ass i))"
proof -
  let ?l = "slot g i" and ?as = "ass i" and ?n = "length (ass i) - unat count"
  have ok: "slot_ok (open_file (disk g)) (entry_heap g) ?l ?as" by (rule core_slot_ok [OF core i])
  have same: "l_head l = l_head ?l" "l_total l = l_total ?l" "l_entries l = l_entries ?l"
    "l_tail l = l_tail ?l" by (subst l, simp)+
  have "queue_ok (entry_heap g) l ?as" "unat (l_entries l) = length ?as"
    using ok same by (simp_all add: slot_ok_def queue_ok_def)
  from drop_kept_queue [OF this, of count] obtain l' where r:
    "drop_kept count (entry_heap g) l =
       Some (\<lambda>a. if a \<in> set (take ?n ?as) then None else entry_heap g a, l')"
    "queue_ok (\<lambda>a. if a \<in> set (take ?n ?as) then None else entry_heap g a) l' (drop ?n ?as)"
    "unat (l_entries l') = length (drop ?n ?as)"
    "l' = l\<lparr>l_head := l_head l', l_total := l_total l', l_entries := l_entries l'\<rparr>" by blast
  have same': "l_keep l' = l_keep l" "l_in_use l' = l_in_use l" "l_tail l' = l_tail ?l"
    "l_filename l' = l_filename l" "l_logfile l' = l_logfile l" by (subst r(4), simp add: same)+
  have tail: "tail_ok l' (drop ?n ?as)" if "l_in_use l"
  proof -
    have "tail_ok ?l ?as" "0 < unat count" using ok used(1) [OF that] by (auto simp: slot_ok_def unat_gt_0)
    moreover from this(2) have "\<not> length ?as \<le> ?n" if "?as \<noteq> []"
      using that by (cases ?as) auto
    ultimately show ?thesis using same'(3) by (cases "?as = []") (simp_all add: tail_ok_def)
  qed
  have "slot_ok (open_file d) (\<lambda>a. if a \<in> set (take ?n ?as) then None else entry_heap g a) l' (drop ?n ?as)"
    using r(2,3) tail keep used files(1) same' by (auto simp: slot_ok_def files_ok_def)
  then have "logger_core ((set_slot i l' g)\<lparr>disk := d, entry_heap :=
      (\<lambda>a. if a \<in> set (take ?n ?as) then None else entry_heap g a)\<rparr>) (ass(i := drop ?n ?as))"
  proof (intro core_update [OF core i, of _ l'])
    show "l_logfile ?l = Some f \<or> \<not> open_file (disk g) f" if "l_logfile l' = Some f" for f
      using that files(4) [of f] same'(5) by simp
  qed (use core files(2,3) in \<open>auto simp: set_slot_def logger_core_def
      dest: in_set_takeD in_set_dropD split: if_split_asm\<close>)
  moreover have "map (line_at (\<lambda>a. if a \<in> set (take ?n ?as) then None else entry_heap g a)) (drop ?n ?as) =
      map (line_at (entry_heap g)) (drop ?n ?as)"
  proof (rule line_at_cong)
    have "distinct ?as" using ok by (simp add: slot_ok_def queue_ok_def)
    then show "(if a \<in> set (take ?n ?as) then None else entry_heap g a) = entry_heap g a"
      if "a \<in> set (drop ?n ?as)" for a
      using that set_take_disj_set_drop_if_distinct [of ?as ?n ?n] by auto
  qed
  ultimately show ?thesis using r(1) by (simp add: drop_map)
qed

lemma log_set_lines_kept_ok:
  assumes ok: "logger_ok g" and n: "0 < n" "unat n \<le> KEEP_MAX"
  shows "\<exists>g'. log_set_lines_kept i n g = Some g' \<and> logger_ok g' \<and>
    (\<not> bad_id i \<and> l_in_use (slot g (nat i)) \<longrightarrow>
       kept_lines g' (nat i) = drop (length (kept_lines g (nat i)) - unat n) (kept_lines g (nat i)))"
proof (cases "bad_id i \<or> \<not> l_in_use (slot g (nat i))")
  case True
  with ok show ?thesis by (auto simp: log_set_lines_kept_def)
next
  case False
  then have i: "nat i < LOG_MAXLOGS" by (simp add: not_bad_id)
  let ?g = "g\<lparr>mutex := Locked\<rparr>" and ?l = "(slot g (nat i))\<lparr>l_keep := n\<rparr>"
  obtain ass where core: "logger_core ?g ass" and m: "mutex g = Unlocked"
    using ok by (auto simp: logger_ok_def)
  have sok: "slot_ok (open_file (disk g)) (entry_heap g) (slot g (nat i)) (ass (nat i))"
    using core_slot_ok [OF core i] by simp
  let ?as = "ass(nat i := drop (length (ass (nat i)) - unat n) (ass (nat i)))"
  obtain h' l' where r: "drop_kept n (entry_heap g) ?l = Some (h', l')"
    "logger_core ((set_slot (nat i) l' ?g)\<lparr>disk := disk g, entry_heap := h'\<rparr>) ?as"
    "map (line_at h') (?as (nat i)) =
       drop (length (ass (nat i)) - unat n) (map (line_at (entry_heap g)) (ass (nat i)))"
    using drop_kept_core [OF core i, of ?l n "disk g"] n False sok core
    by (auto simp: slot_ok_def files_ok_def logger_core_def)
  let ?g' = "(set_slot (nat i) l' g)\<lparr>entry_heap := h', mutex := Unlocked\<rparr>"
  have "?g' = (set_slot (nat i) l' ?g)\<lparr>disk := disk g, entry_heap := h', mutex := Unlocked\<rparr>"
    by (simp add: set_slot_def)
  then have core': "logger_core ?g' ?as" using r(2) by (simp del: slot_update_simps)
  have "kept_lines ?g' (nat i) = drop (length (kept_lines g (nat i)) - unat n) (kept_lines g (nat i))"
    using core_kept_lines [OF core' i] core_kept_lines [OF core i] r(3)
    by (simp add: kept_lines_def)
  then show ?thesis using False m r core' 
    by (auto simp: log_set_lines_kept_def lock_ok unlock_ok set_slot_def intro!: logger_okI [of _ ?as])
qed

text \<open>Asking for zero lines when none are kept changes nothing but the number.\<close>

lemma log_set_no_lines_ok:
  assumes ok: "logger_ok g" and none: "names_log i g \<longrightarrow> l_entries (slot g (nat i)) = 0"
  shows "\<exists>g'. log_set_lines_kept i 0 g = Some g' \<and> logger_ok g'"
proof (cases "names_log i g")
  case False
  with ok show ?thesis by (auto simp: log_set_lines_kept_def names_log_def)
next
  case True
  then have i: "nat i < LOG_MAXLOGS" by (simp add: not_bad_id names_log_def)
  let ?g = "g\<lparr>mutex := Locked\<rparr>" and ?l = "(slot g (nat i))\<lparr>l_keep := 0\<rparr>"
  obtain ass where core: "logger_core ?g ass" and m: "mutex g = Unlocked"
    using ok by (auto simp: logger_ok_def)
  have sok: "slot_ok (open_file (disk g)) (entry_heap g) (slot g (nat i)) (ass (nat i))"
    using core_slot_ok [OF core i] by simp
  then have "ass (nat i) = []" using none True by (simp add: slot_ok_def)
  moreover have core': "logger_core g ass" using core by simp
  ultimately have "logger_core (set_slot (nat i) ?l g) ass"
    using sok by (intro core_slot [OF core' i]) (auto simp: slot_ok_def queue_ok_def tail_ok_def files_ok_def)
  moreover have "drop_kept 0 (entry_heap g) ?l = Some (entry_heap g, ?l)"
    using none True by (simp add: drop_kept.simps)
  ultimately show ?thesis using True m
    by (auto simp: log_set_lines_kept_def names_log_def lock_ok unlock_ok set_slot_def slot_def intro!: logger_okI [of _ ass])
qed

end
