(* ===== verification/Log_Life.thy ===== *)
theory Log_Life
  imports Log_Run
begin

section \<open>Opening, reopening and closing logs\<close>

text \<open>The operations that change which files the log table holds, and whole runs.\<close>

lemma drop_kept_in_use: "drop_kept c h l = Some (h', l') \<Longrightarrow> l_in_use l' = l_in_use l"
proof (induction c h l rule: drop_kept.induct)
  case (1 c h l)
  show ?case
  proof (cases "c < l_entries l")
    case False
    with 1 show ?thesis by (simp add: drop_kept.simps)
  next
    case True
    with "1.prems" obtain h1 l1 where d: "drop_head h l = Some (h1, l1)"
      "drop_kept c h1 (l1\<lparr>l_entries := l_entries l1 - 1\<rparr>) = Some (h', l')"
      by (subst (asm) drop_kept.simps) (auto split: option.split_asm)
    have "l_in_use l1 = l_in_use l" using d(1) by (auto simp: drop_head_def elim!: bind_SomeE)
    then show ?thesis using "1.IH" [OF True d(1) refl d(2)] by simp
  qed
qed

lemma log_flush_ok:
  assumes ok: "logger_ok g"
  shows "\<exists>g'. log_flush i g = Some g' \<and> logger_ok g'"
proof (cases "bad_id i \<or> \<not> l_in_use (slot g (nat i))")
  case True
  with ok show ?thesis by (auto simp: log_flush_def)
next
  case False
  then have i: "nat i < LOG_MAXLOGS" by (simp add: not_bad_id)
  obtain ass where core: "logger_core (g\<lparr>mutex := Locked\<rparr>) ass" and m: "mutex g = Unlocked"
    using ok by (auto simp: logger_ok_def)
  obtain d where d: "fflush (l_logfile (slot g (nat i))) (disk g) = Some d"
    "logger_core (g\<lparr>mutex := Locked, disk := d\<rparr>) ass" using fflush_core [OF core i] by auto
  have "logger_core g ass" "logger_core (g\<lparr>disk := d\<rparr>) ass"
    using core d(2) by (simp_all add: logger_core_def)
  then show ?thesis using False m d
    by (cases "l_logfile (slot g (nat i))")
      (auto simp: log_flush_def lock_ok unlock_ok intro!: logger_okI [of _ ass])
qed

lemma log_reopen_ok:
  assumes ok: "logger_ok g"
  shows "\<exists>g'. log_reopen i g = Some g' \<and> logger_ok g'"
proof (cases "bad_id i \<or> l_logfile (slot g (nat i)) = None \<or> l_filename (slot g (nat i)) = No_Name")
  case True
  with ok show ?thesis by (auto simp: log_reopen_def Let_def split: option.splits)
next
  case False
  then have i: "nat i < LOG_MAXLOGS" by (simp add: not_bad_id)
  let ?g = "g\<lparr>mutex := Locked\<rparr>" and ?l = "slot g (nat i)"
  obtain ass where core: "logger_core ?g ass" and m: "mutex g = Unlocked"
    using ok by (auto simp: logger_ok_def)
  have sok: "slot_ok (open_file (disk g)) (entry_heap g) ?l (ass (nat i))"
    using core_slot_ok [OF core i] by simp
  obtain f where f: "l_logfile ?l = Some f" using False by (cases "l_logfile ?l") auto
  then have "open_file (disk g) f" using sok by (simp add: slot_ok_def files_ok_def)
  from fclose_total [OF this] obtain d where d: "fclose f (disk g) = Some d"
    "open_file d = (open_file (disk g))(f := False)" "next_id d = next_id (disk g)" by blast
  let ?l' = "?l\<lparr>l_logfile := None\<rparr>"
  have "slot_ok (open_file d) (entry_heap g) ?l' (ass (nat i))"
    using sok False by (auto simp: slot_ok_def queue_ok_def tail_ok_def files_ok_def)
  then have "logger_core ((set_slot (nat i) ?l' ?g)\<lparr>disk := d\<rparr>) (ass(nat i := ass (nat i)))"
    using core d f
    by (intro core_update [OF core i, of _ ?l'])
      (auto simp: set_slot_def logger_core_def disk_ok_iff split: if_split_asm)
  then show ?thesis using False m d f
    by (auto simp: log_reopen_def lock_ok unlock_ok intro!: logger_okI [of _ ass])
qed

lemma log_close_ok:
  assumes ok: "logger_ok g"
  shows "\<exists>g'. log_close i g = Some g' \<and> logger_ok g' \<and>
    (\<not> bad_id i \<longrightarrow> \<not> l_in_use (slot g' (nat i)) \<and> kept_lines g' (nat i) = [])"
proof (cases "bad_id i")
  case True
  with ok show ?thesis by (auto simp: log_close_def)
next
  case False
  then have i: "nat i < LOG_MAXLOGS" by (simp add: not_bad_id)
  let ?g = "g\<lparr>mutex := Locked\<rparr>" and ?l = "slot g (nat i)"
  obtain ass where core: "logger_core ?g ass" and m: "mutex g = Unlocked"
    using ok by (auto simp: logger_ok_def)
  have sok: "slot_ok (open_file (disk g)) (entry_heap g) ?l (ass (nat i))"
    using core_slot_ok [OF core i] by simp
  show ?thesis
  proof (cases "l_in_use ?l")
    case unused: False
    have "logger_core g ass" using core by simp
    from core_kept_lines [OF this i] have "kept_lines g (nat i) = []"
      using sok unused by (simp add: slot_ok_def)
    then have "kept_lines (g\<lparr>mutex := Unlocked\<rparr>) (nat i) = []" by (simp add: kept_lines_def)
    then show ?thesis using False unused m ok core
      by (auto simp: log_close_def lock_ok unlock_ok intro!: logger_okI [of _ ass])
  next
    case used: True
    then obtain name where name: "free_name (l_filename ?l) = Some name" "name \<noteq> Freed_Name \<longrightarrow> name = No_Name"
      using sok by (cases "l_filename ?l") (auto simp: slot_ok_def files_ok_def free_name_def)
    have "\<exists>d. (case l_logfile ?l of None \<Rightarrow> Some (disk g) | Some f \<Rightarrow> fclose f (disk g)) = Some d \<and>
        disk_ok d \<and> (\<forall>f. open_file (disk g) f \<longrightarrow> l_logfile ?l \<noteq> Some f \<longrightarrow> open_file d f)"
    proof (cases "l_logfile ?l")
      case None
      then show ?thesis using core by (simp add: logger_core_def)
    next
      case (Some f)
      then have "open_file (disk g) f" using sok by (simp add: slot_ok_def files_ok_def)
      from fclose_total [OF this] Some core show ?thesis
        by (auto simp: logger_core_def disk_ok_iff)
    qed
    then obtain d where d: "(case l_logfile ?l of None \<Rightarrow> Some (disk g) | Some f \<Rightarrow> fclose f (disk g)) = Some d"
      "disk_ok d" "\<And>f. open_file (disk g) f \<Longrightarrow> l_logfile ?l \<noteq> Some f \<Longrightarrow> open_file d f" by blast
    let ?l1 = "?l\<lparr>l_in_use := False, l_level := 2, l_filename := name, l_logfile := None\<rparr>"
    obtain h' l' where r: "drop_kept 0 (entry_heap g) ?l1 = Some (h', l')"
      "logger_core ((set_slot (nat i) l' ?g)\<lparr>disk := d, entry_heap := h'\<rparr>) (ass(nat i := []))"
      using drop_kept_core [OF core i, of ?l1 0 d] d sok by (auto simp: slot_ok_def files_ok_def)
    let ?g' = "(set_slot (nat i) l' g)\<lparr>disk := d, entry_heap := h', mutex := Unlocked\<rparr>"
    have eq: "?g' = (set_slot (nat i) l' ?g)\<lparr>disk := d, entry_heap := h', mutex := Unlocked\<rparr>"
      by (simp add: set_slot_def)
    have core': "logger_core ?g' (ass(nat i := []))" unfolding eq using r(2) by (simp only: core_mutex)
    have run: "log_close i g = Some ?g'"
      using False used name(1) d(1) r(1) m unfolding log_close_def
      by (cases "l_logfile ?l") (simp_all add: lock_ok unlock_ok set_slot_def)
    have kept: "kept_lines ?g' (nat i) = []" using core_kept_lines [OF core' i] by simp
    have len: "nat i < length (loglist g)" using core i by (simp add: logger_core_def)
    have "l_in_use l' = l_in_use ?l1"
      using drop_kept_in_use [OF r(1)] .
    then have "\<not> l_in_use (slot ?g' (nat i))" using len by (simp add: slot_set_slot)
    then show ?thesis using run core' kept by (auto intro!: logger_okI [of _ "ass(nat i := [])"])
  qed
qed

subsection \<open>Opening\<close>

lemma find_free_unused:
  "find_free ls k = Some i \<Longrightarrow> k \<le> i \<and> i - k < length ls \<and> \<not> l_in_use (ls ! (i - k))"
proof (induction ls k rule: find_free.induct)
  case (2 l ls k)
  have "Suc k \<le> i \<Longrightarrow> i - k = Suc (i - Suc k)" by simp
  with 2 show ?case by (auto split: if_split_asm)
qed simp

lemma core_more_open:
  assumes core: "logger_core g ass" and "disk_ok d" and "\<And>f. open_file (disk g) f \<Longrightarrow> open_file d f"
  shows "logger_core (g\<lparr>disk := d\<rparr>) ass"
  using assms slot_ok_frame [of "open_file (disk g)" "entry_heap g" _ _ "entry_heap g" "open_file d"]
  by (simp add: logger_core_def)

definition opened_log :: "log_t \<Rightarrow> nat \<Rightarrow> string \<Rightarrow> 64 word \<Rightarrow> log_t" where
  "opened_log l f n sz = l\<lparr>l_in_use := True, l_logfile := Some f, l_filename := Name n,
     l_size := sz, l_entries := 0, l_head := None, l_tail := Tail_Head\<rparr>"

lemma log_open_run:
  assumes m: "mutex g = Unlocked" and name: "strcmp n [] \<noteq> 0"
    and fo: "fopen_append n (disk g) = (Some f, d1)"
    and free: "find_free (loglist g) 0 = Some i"
  shows "log_open (Some n) g = Some (int i,
    (set_slot i (opened_log (slot g i) f n
       (case stat_size n (setvbuf_line f d1) of None \<Rightarrow> 0 | Some k \<Rightarrow> k)) g)
     \<lparr>disk := setvbuf_line f d1\<rparr>)"
proof -
  have i: "i < length (loglist g)" using find_free_unused [OF free] by simp
  show ?thesis
    using assms i
    by (cases g; cases "stat_size n (setvbuf_line f d1)")
      (simp_all add: log_open_def log_open_file_def get_log_id_def lock_ok unlock_ok set_slot_def
        slot_def opened_log_def Let_def)
qed

lemma log_open_ok:
  assumes ok: "logger_ok g"
  shows "\<exists>r g'. log_open fn g = Some (r, g') \<and> logger_ok g'"
proof (cases fn)
  case None
  with ok show ?thesis by (simp add: log_open_def)
next
  case (Some n)
  obtain fp d1 where fo: "fopen_append n (disk g) = (fp, d1)" by (cases "fopen_append n (disk g)") auto
  obtain ass where core: "logger_core g ass" and m: "mutex g = Unlocked"
    using ok by (auto simp: logger_ok_def)
  have dk: "disk_ok (disk g)" using core by (simp add: logger_core_def)
  note opn = fopen_append_open [OF fo dk]
  consider (empty) "strcmp n [] = 0" | (fail) "strcmp n [] \<noteq> 0" "fp = None"
    | (full) f where "strcmp n [] \<noteq> 0" "fp = Some f" "find_free (loglist g) 0 = None"
    | (good) f i where "strcmp n [] \<noteq> 0" "fp = Some f" "find_free (loglist g) 0 = Some i"
    by (cases fp; cases "find_free (loglist g) 0") auto
  then show ?thesis
  proof cases
    case empty
    with ok Some show ?thesis by (simp add: log_open_def)
  next
    case fail
    with ok Some fo opn show ?thesis by (simp add: log_open_def log_open_file_def LOG_EINSANE_def)
  next
    case full
    have "logger_core (g\<lparr>disk := d1\<rparr>) ass"
      using opn full by (intro core_more_open [OF core]) auto
    moreover have "g\<lparr>mutex := Unlocked, disk := d1\<rparr> = g\<lparr>disk := d1\<rparr>" using m by (cases g) simp
    ultimately show ?thesis using full Some fo m
      by (auto simp: log_open_def log_open_file_def get_log_id_def lock_ok unlock_ok
          LOG_ENOMORELOGS_def intro!: logger_okI [of _ ass])
  next
    case good
    have i: "i < LOG_MAXLOGS" "\<not> l_in_use (slot g i)"
      using find_free_unused [OF good(3)] core by (auto simp: logger_core_def slot_def)
    let ?d = "setvbuf_line f d1"
    let ?l = "opened_log (slot g i) f n (case stat_size n ?d of None \<Rightarrow> 0 | Some k \<Rightarrow> k)"
    have sok: "slot_ok (open_file (disk g)) (entry_heap g) (slot g i) (ass i)"
      by (rule core_slot_ok [OF core i(1)])
    have nof: "l_logfile (slot g i) = None" using sok i(2) by (simp add: slot_ok_def files_ok_def)
    have "slot_ok (open_file ?d) (entry_heap g) ?l (ass i)"
      using sok i(2) opn good(2)
      by (auto simp: slot_ok_def opened_log_def queue_ok_def tail_ok_def files_ok_def)
    then have "logger_core ((set_slot i ?l g)\<lparr>disk := ?d\<rparr>) (ass(i := ass i))"
      using core opn good(2) nof
      by (intro core_update [OF core i(1), of _ ?l])
        (auto simp: set_slot_def logger_core_def disk_ok_iff opened_log_def)
    then show ?thesis using log_open_run [OF m good(1) _ good(3)] fo good(2) Some m
      by (auto intro!: logger_okI [of _ ass])
  qed
qed

text \<open>A log on a file of the application.\<close>

lemma log_open_file_ok:
  assumes ok: "logger_ok g" and f: "\<And>f. fp = Some f \<Longrightarrow> file_free f g \<and> slot_clean g"
  shows "\<exists>r g'. log_open_file fp g = Some (r, g') \<and> logger_ok g'"
proof (cases fp)
  case None
  with ok show ?thesis by (simp add: log_open_file_def)
next
  case (Some p)
  obtain ass where core: "logger_core g ass" and m: "mutex g = Unlocked"
    using ok by (auto simp: logger_ok_def)
  have same: "g\<lparr>mutex := Unlocked\<rparr> = g" using m by (cases g) simp
  have ok': "logger_ok (g\<lparr>mutex := Unlocked\<rparr>)" unfolding same by (rule ok)
  show ?thesis
  proof (cases "find_free (loglist g) 0")
    case None
    then show ?thesis using Some m ok'
      by (auto simp: log_open_file_def get_log_id_def lock_ok unlock_ok LOG_ENOMORELOGS_def)
  next
    case (Some i)
    have len: "length (loglist g) = LOG_MAXLOGS" by (rule core_slot_length [OF core])
    have i: "i < LOG_MAXLOGS" "\<not> l_in_use (slot g i)"
      using find_free_unused [OF Some] len by (auto simp: slot_def)
    have held: "\<forall>j < LOG_MAXLOGS. l_logfile (slot g j) \<noteq> Some p" "open_file (disk g) p" "l_tail (slot g i) = Tail_Head"
      using f [OF \<open>fp = Some p\<close>] Some len by (auto simp: file_free_def slot_clean_def slot_def list_all_length)
    let ?l = "(slot g i)\<lparr>l_in_use := True, l_logfile := Some p, l_filename := No_Name, l_size := 0\<rparr>"
    have "slot_ok (open_file (disk g)) (entry_heap g) (slot g i) (ass i)" by (rule core_slot_ok [OF core i(1)])
    then have "slot_ok (open_file (disk g)) (entry_heap g) ?l (ass i)"
      using i(2) held by (auto simp: slot_ok_def queue_ok_def tail_ok_def files_ok_def)
    then have "logger_core (set_slot i ?l g) (ass(i := ass i))"
      using core held(1) by (intro core_update_held [OF core i(1), of _ ?l]) (auto simp: set_slot_def logger_core_def)
    moreover have "log_open_file fp g = Some (int i, set_slot i ?l g)"
      using Some \<open>fp = Some p\<close> m i(1) len
      by (cases g) (simp add: log_open_file_def get_log_id_def lock_ok unlock_ok set_slot_def slot_def)
    ultimately show ?thesis using m by (auto intro!: logger_okI [of _ ass])
  qed
qed

subsection \<open>Whole runs\<close>

text \<open>
  Between two calls the library is initialised and its table is sound, or it is not: then
  \<open>log_initialize\<close> makes the table new, whatever it holds.
\<close>

definition logger_down :: "logger \<Rightarrow> bool" where
  "logger_down g \<longleftrightarrow> length (loglist g) = LOG_MAXLOGS \<and> disk_ok (disk g) \<and>
     (\<forall>a. entry_heap g a \<noteq> None \<longrightarrow> a < next_entry g)"

definition log_inv :: "logger \<Rightarrow> bool" where
  "log_inv g \<longleftrightarrow> (if initialized g then logger_ok g else logger_down g)"

lemma static_down: "disk_ok d \<Longrightarrow> log_inv (static_logger d)"
  by (simp add: log_inv_def logger_down_def static_logger_def)

lemma log_initialize_inv:
  assumes "log_inv g"
  shows "log_inv (log_initialize g)"
proof (cases "initialized g")
  case True
  with assms show ?thesis by (simp add: log_initialize_def)
next
  case False
  then have "logger_core (log_initialize g) (\<lambda>_. [])"
    using assms
    by (auto simp: log_inv_def logger_down_def logger_core_def log_initialize_def slot_def slot_ok_def
        queue_ok_def tail_ok_def files_ok_def fresh_log_def)
  then show ?thesis using False
    by (auto simp: log_inv_def log_initialize_def intro!: logger_okI [of _ "\<lambda>_. []"])
qed

lemma shutdown_inv:
  assumes "logger_ok g"
  shows "\<exists>g'. log_shutdown g = Some g' \<and> log_inv g'"
  using assms by (auto simp: log_shutdown_def log_inv_def logger_ok_def logger_down_def logger_core_def)

lemma fopen_inv:
  assumes "log_inv g"
  shows "log_inv (g\<lparr>disk := snd (fopen_append f (disk g))\<rparr>)"
proof -
  obtain fp d where fo: "fopen_append f (disk g) = (fp, d)" by (cases "fopen_append f (disk g)") auto
  have opn: "disk_ok (disk g) \<Longrightarrow> disk_ok d \<and> (\<forall>p. open_file (disk g) p \<longrightarrow> open_file d p)"
    using fopen_append_open [OF fo] by (cases fp) auto
  show ?thesis
  proof (cases "initialized g")
    case True
    then obtain ass where core: "logger_core g ass" and m: "mutex g = Unlocked"
      using assms by (auto simp: log_inv_def logger_ok_def)
    have "logger_core (g\<lparr>disk := d\<rparr>) ass"
      using opn core by (intro core_more_open [OF core]) (auto simp: logger_core_def)
    then show ?thesis using True m fo by (auto simp: log_inv_def intro!: logger_okI [of _ ass])
  next
    case False
    then show ?thesis using assms opn fo by (simp add: log_inv_def logger_down_def)
  qed
qed

text \<open>Only \<open>log_initialize\<close> and \<open>log_shutdown\<close> change whether the library is initialised.\<close>

lemma lock_initialized:
  "lock_logger g = Some g' \<Longrightarrow> initialized g' = initialized g"
  "unlock_logger g = Some g' \<Longrightarrow> initialized g' = initialized g"
  by (auto simp: lock_logger_def unlock_logger_def split: if_split_asm)

lemma get_log_id_initialized: "get_log_id g = Some (r, g') \<Longrightarrow> initialized g' = initialized g"
  by (auto simp: get_log_id_def elim!: bind_SomeE dest!: lock_initialized split: option.split_asm prod.split_asm)

lemma log_open_file_initialized: "log_open_file fp g = Some (r, g') \<Longrightarrow> initialized g' = initialized g"
  by (auto simp: log_open_file_def elim!: bind_SomeE dest!: get_log_id_initialized split: if_split_asm prod.split_asm)

lemma log_open_initialized: "log_open f g = Some (r, g') \<Longrightarrow> initialized g' = initialized g"
  by (auto simp: log_open_def Let_def elim!: bind_SomeE dest!: log_open_file_initialized
      split: option.split_asm if_split_asm prod.split_asm)

lemma write_entry_initialized: "write_entry i pre line g = Some g' \<Longrightarrow> initialized g' = initialized g"
  by (auto simp: write_entry_def log_open_now_def create_log_entry_def add_size_def Let_def elim!: bind_SomeE
      split: if_split_asm prod.split_asm cname.split_asm option.split_asm)

lemma run_call_initialized:
  assumes "run_call c g = Some g'" and "c \<noteq> Call_Initialize" and "c \<noteq> Call_Shutdown"
  shows "initialized g' = initialized g"
  using assms
  by (cases c)
    (auto simp: log_open_with_buffer_def log_close_def log_set_trigger_def log_set_filename_def
      log_set_archive_timestamp_def log_set_lines_kept_def log_set_level_def log_flush_def log_reopen_def
      log_contents_def log_write_def log_write_direct_def Let_def elim!: bind_SomeE
      dest!: lock_initialized log_open_file_initialized log_open_initialized write_entry_initialized
      split: if_split_asm prod.split_asm option.split_asm)

lemma run_call_ok:
  assumes "log_inv g" and "call_ok g c"
  shows "\<exists>g'. run_call c g = Some g' \<and> log_inv g'"
proof (cases "c = Call_Initialize \<or> (\<exists>f. c = Call_Fopen f)")
  case True
  then show ?thesis using log_initialize_inv [OF assms(1)] fopen_inv [OF assms(1)] by auto
next
  case False
  then have up: "initialized g" using assms(2) by (cases "(g, c)" rule: call_ok.cases) auto
  then have ok: "logger_ok g" using assms(1) by (simp add: log_inv_def)
  show ?thesis
  proof (cases "c = Call_Shutdown")
    case True
    then show ?thesis using shutdown_inv [OF ok] by simp
  next
    case other: False
    have "\<exists>g'. run_call c g = Some g' \<and> logger_ok g'"
    proof (cases c)
      case (Call_Open_File fp)
      then show ?thesis using log_open_file_ok [OF ok, of fp] assms(2) by (cases fp) auto
    next
      case (Call_Open f)
      then show ?thesis using log_open_ok [OF ok, of f] by auto
    next
      case (Call_Open_Buffer f n)
      then show ?thesis using ok by (simp add: log_open_with_buffer_def)
    next
      case (Call_Close i)
      then show ?thesis using log_close_ok [OF ok, of i] by auto
    next
      case (Call_Filename i f)
      then show ?thesis using log_set_filename_ok [OF ok, of f i] assms(2) by (cases f) auto
    next
      case (Call_Archive i v)
      then show ?thesis using log_set_archive_ok [OF ok, of i v] by auto
    next
      case (Call_Lines_Kept i n)
      then show ?thesis using log_set_lines_kept_ok [OF ok, of n i] log_set_no_lines_ok [OF ok, of i] assms(2)
        by (cases "n = 0") (auto simp: word_gt_0)
    next
      case (Call_Flush i)
      then show ?thesis using log_flush_ok [OF ok, of i] by auto
    next
      case (Call_Reopen i)
      then show ?thesis using log_reopen_ok [OF ok, of i] by auto
    next
      case (Call_Contents i)
      then show ?thesis using log_contents_ok [OF ok, of i] ok
        by (cases "bad_id i") (auto simp: log_contents_def)
    next
      case (Call_Write i p cat f fmt ap)
      then show ?thesis using log_write_ok [OF ok, of fmt ap] assms(2) by auto
    next
      case (Call_Write_Direct i fmt ap)
      then show ?thesis using log_write_direct_ok [OF ok, of fmt ap] assms(2) by auto
    qed (use False other in \<open>simp_all add: ok log_set_level_ok log_set_trigger_ok\<close>)
    then obtain g' where "run_call c g = Some g'" "logger_ok g'" by blast
    then show ?thesis using run_call_initialized [of c g g'] False other up by (auto simp: log_inv_def)
  qed
qed

lemma run_calls_ok:
  assumes "log_inv g" and "calls_ok g cs"
  shows "\<exists>g'. run_calls cs g = Some g' \<and> log_inv g'"
  using assms
proof (induction cs arbitrary: g)
  case Nil
  then show ?case by simp
next
  case (Cons c cs)
  then obtain g1 where "run_call c g = Some g1" "log_inv g1"
    using run_call_ok [of g c] by auto
  with Cons show ?case by simp
qed

end
