(* ===== verification/Log_Kept.thy ===== *)
theory Log_Kept
  imports Log_Life
begin

section \<open>The contract of the kept lines\<close>

text \<open>
  What a reader of the kept lines relies on, as a locale: putting a line succeeds and acts
  as \<open>put_line\<close>. Its consequence for sequences of lines, that exactly the most recent
  ones are there, is proved once and interpreted on \<open>create_log_entry\<close>.
\<close>

definition last_n :: "nat \<Rightarrow> 'a list \<Rightarrow> 'a list" where
  "last_n n xs = drop (length xs - n) xs"

fun puts :: "('l \<Rightarrow> 's \<Rightarrow> 's option) \<Rightarrow> 'l list \<Rightarrow> 's \<Rightarrow> 's option" where
  "puts put [] s = Some s"
| "puts put (x # xs) s = Option.bind (put x s) (puts put xs)"

lemma put_line_last_n:
  assumes "length ts \<le> keep" and "keep \<noteq> 0"
  shows "put_line keep t ts = last_n keep (ts @ [t])"
  using assms by (cases "length ts = keep") (auto simp: put_line_def last_n_def drop_Suc)

lemma last_n_snoc:
  assumes "n \<noteq> 0"
  shows "last_n n (last_n n xs @ ys) = last_n n (xs @ ys)"
proof (cases "length xs \<le> n")
  case True
  then show ?thesis by (simp add: last_n_def)
next
  case False
  then have "length xs - n + (n + length ys - n) = length xs + length ys - n" by simp
  with False show ?thesis by (auto simp: last_n_def add.commute)
qed

lemma last_n_id: "length xs \<le> n \<Longrightarrow> last_n n xs = xs"
  by (simp add: last_n_def)

locale line_keeper =
  fixes put :: "'l \<Rightarrow> 's \<Rightarrow> 's option"
    and kept :: "'s \<Rightarrow> string list"
    and shown :: "'l \<Rightarrow> string"
    and keep :: "'s \<Rightarrow> nat"
    and good :: "'s \<Rightarrow> bool"
    and small :: "'l \<Rightarrow> bool"
  assumes put_law: "good s \<Longrightarrow> small x \<Longrightarrow> \<exists>s'. put x s = Some s' \<and> good s' \<and> keep s' = keep s \<and>
      kept s' = put_line (keep s) (shown x) (kept s)"
    and kept_bound: "good s \<Longrightarrow> length (kept s) \<le> keep s"
begin

lemma puts_last:
  assumes "good s" and "list_all small xs" and "keep s \<noteq> 0"
  shows "\<exists>s'. puts put xs s = Some s' \<and> good s' \<and> kept s' = last_n (keep s) (kept s @ map shown xs)"
  using assms
proof (induction xs arbitrary: s)
  case Nil
  then show ?case using kept_bound by (simp add: last_n_id)
next
  case (Cons x xs)
  then obtain s1 where s1: "put x s = Some s1" "good s1" "keep s1 = keep s"
    "kept s1 = put_line (keep s) (shown x) (kept s)"
    using put_law [of s x] by auto
  then obtain s2 where "puts put xs s1 = Some s2" "good s2"
    "kept s2 = last_n (keep s) (kept s1 @ map shown xs)"
    using Cons.IH [of s1] Cons.prems by auto
  moreover have "kept s1 = last_n (keep s) (kept s @ [shown x])"
    using s1(4) kept_bound [OF Cons.prems(1)] Cons.prems(3) by (simp add: put_line_last_n)
  ultimately show ?case
    using s1(1) Cons.prems(3) last_n_snoc [of "keep s" "kept s @ [shown x]" "map shown xs"] by simp
qed

end

subsection \<open>The log table provides it\<close>

definition put_entry :: "nat \<Rightarrow> string \<times> string \<Rightarrow> logger \<Rightarrow> logger option" where
  "put_entry i x g = map_option snd (create_log_entry i (fst x) (snd x) g)"

definition entry_ready :: "nat \<Rightarrow> logger \<Rightarrow> bool" where
  "entry_ready i g \<longleftrightarrow> i < LOG_MAXLOGS \<and> (\<exists>ass. logger_core g ass) \<and>
     l_in_use (slot g i) \<and> l_logfile (slot g i) \<noteq> None"

definition entry_small :: "string \<times> string \<Rightarrow> bool" where
  "entry_small x \<longleftrightarrow> length (fst x) + length (snd x) + 1 < 2048"

definition entry_shown :: "string \<times> string \<Rightarrow> string" where
  "entry_shown x = entry_text (fst x) (snd x)"

definition entry_keep :: "nat \<Rightarrow> logger \<Rightarrow> nat" where
  "entry_keep i g = unat (l_keep (slot g i))"

lemma put_entry_law:
  assumes "entry_ready i g" and "entry_small x"
  shows "\<exists>g'. put_entry i x g = Some g' \<and> entry_ready i g' \<and> entry_keep i g' = entry_keep i g \<and>
    kept_lines g' i = put_line (entry_keep i g) (entry_shown x) (kept_lines g i)"
proof -
  obtain ass where core: "logger_core g ass" and i: "i < LOG_MAXLOGS"
    and used: "l_in_use (slot g i)" "l_logfile (slot g i) \<noteq> None"
    using assms(1) by (auto simp: entry_ready_def)
  from create_log_entry_core [OF core i used] assms(2)
  obtain n g' ass' where c: "create_log_entry i (fst x) (snd x) g = Some (n, g')" "logger_core g' ass'"
    "l_in_use (slot g' i)" "l_keep (slot g' i) = l_keep (slot g i)"
    "l_logfile (slot g' i) = l_logfile (slot g i)"
    "map (line_at (entry_heap g')) (ass' i) =
       put_line (unat (l_keep (slot g i))) (entry_text (fst x) (snd x)) (map (line_at (entry_heap g)) (ass i))"
    unfolding entry_small_def by blast
  then show ?thesis
    using i used core_kept_lines [OF core i] core_kept_lines [OF c(2) i]
    by (auto simp: put_entry_def entry_ready_def entry_keep_def entry_shown_def)
qed

lemma entry_kept_bound: "entry_ready i g \<Longrightarrow> length (kept_lines g i) \<le> entry_keep i g"
  using core_slot_ok by (fastforce simp: entry_ready_def entry_keep_def core_kept_lines slot_ok_def)

interpretation kept: line_keeper "put_entry i" "\<lambda>g. kept_lines g i" entry_shown "entry_keep i"
    "entry_ready i" entry_small for i
  by unfold_locales (auto intro: put_entry_law entry_kept_bound)

subsection \<open>What rotation does to the files\<close>

definition file_text :: "disk \<Rightarrow> string \<Rightarrow> string option" where
  "file_text d f = map_option (bodies d) (names d f)"

lemma upto_last_lf_text: "upto_last_lf (t @ [LF]) = t @ [LF]"
  by (simp add: upto_last_lf_def)

lemma archive_file_texts:
  assumes "l_logfile l = Some p" and "streams d p = Some st" and "names d f = Some (inode st)"
    and "\<not> is_full d (inode st)" and "\<not> is_stuck d f" and "archive_name l f d \<noteq> f"
  shows "\<exists>d'. archive_file l f d = Some d' \<and> names d' f = None \<and>
    names d' (archive_name l f d) = Some (inode st) \<and>
    bodies d' (inode st) = bodies d (inode st) @ pending st \<and> next_id d' = next_id d \<and>
    is_full d' = is_full d \<and> refuses d' = refuses d"
proof -
  have "archive_name l f (d\<lparr>bodies := b, streams := s\<rparr>) = archive_name l f d" for b s
    by (simp add: archive_name_def strftime_text_def)
  then show ?thesis using assms
    by (simp add: archive_file_def fclose_def fflush_one_def flushed_def rename_file_def)
qed

lemma open_new_file:
  assumes "names d f = None" and "\<not> refuses d f"
  shows "\<exists>l' d'. open_log_file l f d = (True, l', d') \<and> l_logfile l' = Some (next_id d) \<and>
    names d' = (names d)(f \<mapsto> Suc (next_id d)) \<and>
    bodies d' = (bodies d)(Suc (next_id d) := []) \<and> is_full d' = is_full d \<and>
    streams d' (next_id d) = Some \<lparr>inode = Suc (next_id d), pending = [], line_buffered = True\<rparr>"
  using assms
  by (simp add: open_log_file_def fopen_append_def setvbuf_line_def Let_def)

lemma fprintf_line:
  assumes "streams d p = Some \<lparr>inode = k, pending = [], line_buffered = True\<rparr>" and "\<not> is_full d k"
    and "fprintf (Some p) (t @ [LF]) d = Some (m, d')"
  shows "names d' = names d \<and> bodies d' = (bodies d)(k := bodies d k @ t @ [LF])"
  using assms by (auto simp: fprintf_def flushed_def upto_last_lf_text Let_def)

end
