(* ===== verification/Log_Props.thy ===== *)
theory Log_Props
  imports Log_Kept
begin

section \<open>What the log library guarantees\<close>

subsection \<open>The formatter stays in its buffer\<close>

lemma digit_char_visible: "n < 16 \<Longrightarrow> visible (digit_char n)"
  by (auto dest!: nibble_cases simp: digit_char_def visible_def)

lemma show_base_visible:
  assumes "b = 10 \<or> b = 16"
  shows "\<forall>c \<in> set (show_base b n). visible c"
  using assms
proof (induction b n rule: show_base.induct)
  case (1 b n)
  have "n mod b < 16" using "1.prems" by (auto intro: order.strict_trans [OF mod_less_divisor])
  then show ?case
    using 1 digit_char_visible [of "n mod 16"] digit_char_visible [of "n mod b"]
    by (subst show_base.simps) auto
qed

lemma show_int_visible: "\<forall>c \<in> set (show_int i). visible c"
  using show_base_visible [of 10] by (auto simp: show_int_def visible_def)

lemma show_ptr_visible: "\<forall>c \<in> set (show_ptr p). visible c"
  using show_base_visible [of 16] by (auto simp: show_ptr_def visible_def)

lemma number_text_visible:
  "number_text c bs ap = Some (t, ap') \<Longrightarrow> \<forall>d \<in> set t. visible d"
  using show_base_visible [of 10] show_int_visible
  by (auto simp: number_text_def visible_def split: if_split_asm elim!: bind_SomeE)

lemma directive_arg_no_NUL:
  assumes "directive_arg c bs ap = Some (Some t, ap')"
  shows "NUL \<notin> set t"
proof -
  have "NUL \<notin> set t" if "va_str ap = Some (Some t, ap')"
    using that by (cases ap rule: va_str.cases) auto
  then show ?thesis
    using assms show_ptr_visible number_text_visible visible_NUL
    by (fastforce simp: directive_arg_def split: if_split_asm elim!: bind_SomeE)
qed

lemma put_string_no_NUL:
  assumes "put_string c arg alt sp room len = (out, room')" and "\<And>t. arg = Some t \<Longrightarrow> NUL \<notin> set t"
  shows "NUL \<notin> set out"
proof -
  have q: "NUL \<noteq> CHR ''-''" "NUL \<noteq> CHR 0x22" by (simp_all add: NUL_def)
  show ?thesis
  proof (cases arg)
    case None
    then show ?thesis using assms(1) q
      by (auto simp: put_string_def put_quote_def split: if_split_asm prod.split_asm)
  next
    case (Some t)
    have "NUL \<notin> set o2" if "copy_escaped sp t r l = (o2, r', l')" for r l o2 r' l'
      using copy_escaped_visible [OF that] visible_NUL DEL_NUL by metis
    moreover have "NUL \<notin> set o2" if "copy_plain t r l = (o2, r', l')" for r l o2 r' l'
      using copy_plain_room [OF that] assms(2) [OF Some] by blast
    ultimately show ?thesis using assms(1) Some q
      by (auto simp: put_string_def put_quote_def split: if_split_asm prod.split_asm)
  qed
qed

lemma put_directive_no_NUL:
  assumes "put_directive b c room ap = Some (out, room', ap')"
  shows "NUL \<notin> set out"
proof -
  define alt where "alt \<longleftrightarrow> c = CHR ''H'' \<and> block_alt b"
  from assms obtain arg len where
    a: "directive_arg c (block_size b) ap = Some (arg, ap')"
    "put_string c (if arg = None \<and> \<not> alt then Some ''(null)'' else arg) alt (block_space b) room len =
       (out, room')"
    unfolding put_directive_def Let_def alt_def [symmetric]
    by (elim bind_SomeE) (auto split: prod.split_asm)
  have "NUL \<notin> set ''(null)''" by (simp add: NUL_def)
  then have "\<And>t. (if arg = None \<and> \<not> alt then Some ''(null)'' else arg) = Some t \<Longrightarrow> NUL \<notin> set t"
    using a(1) directive_arg_no_NUL by (auto split: if_split_asm)
  then show ?thesis by (rule put_string_no_NUL [OF a(2)])
qed

lemma vsn_directive_no_NUL:
  assumes "vsn_directive b c cs room ap = Some (out, b', cs', room', ap')"
  shows "NUL \<notin> set out" and "set cs' \<subseteq> set cs"
  using vsn_directive_cases [OF assms] put_directive_no_NUL by auto

lemma vsn_loop_no_NUL:
  "vsn_loop b cs room ap = Some (out, k) \<Longrightarrow> NUL \<notin> set cs \<Longrightarrow> NUL \<notin> set out"
proof (induction b cs room ap arbitrary: out k rule: vsn_loop.induct)
  case (1 b room ap)
  then show ?case by simp
next
  case (2 b c cs room ap)
  show ?case
  proof (cases "room = 0 \<or> \<not> in_block b")
    case True
    then show ?thesis using 2 by (auto simp: put_front_Some split: if_split_asm)
  next
    case False
    then obtain o1 b' cs' room' ap' o2 where d: "vsn_directive b c cs room ap = Some (o1, b', cs', room', ap')"
      "vsn_loop b' cs' room' ap' = Some (o2, k)" "out = o1 @ o2"
      using "2.prems"(1) by (auto simp: put_front_Some split: option.split_asm prod.split_asm)
    then show ?thesis
      using "2.IH"(3) [OF _ _ d(1) refl refl refl refl d(2)] vsn_directive_no_NUL [OF d(1)]
        False "2.prems"(2) by auto
  qed
qed

text \<open>
  C23: The formatter never stores more than its buffer holds: whatever the format and the
  arguments, the text it leaves has room for the terminating NUL and contains no NUL itself.
\<close>

theorem log_vsnprintf_bounded:
  assumes "vsnprintf_log n fmt ap = Some t"
  shows "length t < n \<and> NUL \<notin> set t"
proof -
  from assms obtain out k where o: "vsn_loop no_block (cstr fmt) n ap = Some (out, k)"
    "t = (if k = 0 then butlast out else out)"
    by (auto simp: vsnprintf_log_def split: if_split_asm elim!: bind_SomeE)
  have "NUL \<notin> set out" by (rule vsn_loop_no_NUL [OF o(1)]) simp
  then have "NUL \<notin> set t" using o(2) by (auto dest: in_set_butlastD)
  with vsnprintf_log_length [OF assms] show ?thesis by simp
qed

lemma log_vsnprintf_bounded_witness:
  "vsnprintf_log 4 ''n=%s.'' [A_str (Some ''12345'')] = Some ''n=1'' \<and>
     length ''n=1'' < 4 \<and> NUL \<notin> set ''n=1''"
proof -
  have run: "vsnprintf_log 4 ''n=%s.'' [A_str (Some ''12345'')] = Some ''n=1''"
    by (simp add: vsnprintf_log_def no_block_def vsn_directive_def put_directive_def put_string_def
        directive_arg_def log_strlen_def is_digit_def put_front_def int_of_long_def is_print_def
        schar_def NUL_def)
  show ?thesis using run log_vsnprintf_bounded [OF run] by blast
qed

text \<open>
  C24: The \<open>%H\<close> directive is safe for untrusted strings. For a string of fewer than \<open>2 ^ 29\<close>
  characters (its escaped length is an \<open>int\<close>), the empty one included, and a buffer of any size, it
  stores visible ASCII characters only, from the space to the tilde, and DEL where the
  string has it: DEL is the one control character it does not escape. No line break can enter
  the log. When the buffer is larger than four times the string, the string can be read back.
\<close>

theorem log_escape_roundtrip:
  assumes "NUL \<notin> set s" and "0 < n" and "length s < 2 ^ 29"
  shows "\<exists>t. vsnprintf_log n ''%H'' [A_str (Some s)] = Some t \<and>
    (\<forall>c \<in> set t. visible c \<or> c = DEL \<and> DEL \<in> set s) \<and> (4 * length s < n \<longrightarrow> unescape t = s)"
proof -
  let ?t = "escape_string False s"
  have "length (if P then [c] else escape_char c) \<le> 4" for c P by simp
  then have len: "length ?t \<le> 4 * length s"
    by (induction s) (auto simp: escape_string_def)
  have len2: "int_of_long (int (length ?t)) = int (length ?t)"
    using len assms(3) by (simp add: int_of_long_def signed_take_bit_int_eq_self signed_of_nat)
  obtain out room' l' where cp: "copy_escaped False s n (int (length ?t)) = (out, room', l')"
    by (cases "copy_escaped False s n (int (length ?t))") blast
  have "put_string (CHR ''H'') (Some s) False False n (int (length ?t)) = (out, room')"
    using cp by (simp add: put_string_def put_quote_def)
  then have pd: "put_directive \<lparr>in_block = True, block_size = 0, block_len = 0, block_space = False,
      block_alt = False\<rparr> (CHR ''H'') n [A_str (Some s)] = Some (out, room', [])"
    using assms(1) len2 by (simp add: put_directive_def directive_arg_def cstr_id log_strlen_escape)
  have "is_digit (CHR ''H'') = False" by (simp add: is_digit_def)
  then have "vsn_loop no_block ''%H'' n [A_str (Some s)] = Some (out, room')"
    using pd assms(2) by (simp add: no_block_def vsn_directive_def put_front_def)
  moreover have "cstr ''%H'' = ''%H''" by (simp add: NUL_def)
  ultimately have "vsnprintf_log n ''%H'' [A_str (Some s)] = Some (if room' = 0 then butlast out else out)"
    using assms(2) by (simp add: vsnprintf_log_def)
  moreover have "\<forall>c \<in> set (if room' = 0 then butlast out else out). visible c \<or> c = DEL \<and> DEL \<in> set s"
    using copy_escaped_visible [OF cp] by (auto dest: in_set_butlastD)
  moreover have "unescape (if room' = 0 then butlast out else out) = s" if "4 * length s < n"
  proof -
    have "out = ?t" "room' = n - length ?t"
      using copy_escaped_all [of False s n "int (length ?t)"] len that cp by auto
    then show ?thesis using len that unescape_escape_string [of False s] by simp
  qed
  ultimately show ?thesis by blast
qed

lemma log_escape_roundtrip_witness:
  "\<exists>t. vsnprintf_log 64 ''%H'' [A_str (Some [CHR ''a'', LF, CHR ''b''])] = Some t \<and>
     unescape t = [CHR ''a'', LF, CHR ''b''] \<and> (\<forall>c \<in> set t. visible c)"
  using log_escape_roundtrip [of "[CHR ''a'', LF, CHR ''b'']" 64] by (auto simp: NUL_def LF_def DEL_def)

subsection \<open>No call follows a freed entry or a closed file\<close>

definition empty_disk :: disk where
  "empty_disk = \<lparr>names = (\<lambda>_. None), bodies = (\<lambda>_. []), streams = (\<lambda>_. None), next_id = 0,
     refuses = (\<lambda>_. False), is_full = (\<lambda>_. False), is_stuck = (\<lambda>_. False), date_text = (\<lambda>_. ''now'')\<rparr>"

text \<open>
  C20: Memory safety of the log table, for the whole interface. Starting from the static data,
  any sequence of calls of one thread runs to its end: no freed entry is followed, no closed or NULL
  \<open>FILE\<close> is used, the mutex is there and free whenever it is taken, and the invariant of the
  table holds afterwards. A call must meet its condition in \<open>call_ok\<close> when it is made. These
  are: the library is initialised (before \<open>log_initialize\<close> and after \<open>log_shutdown\<close> only
  \<open>log_initialize\<close> is called); a format fits its arguments; \<open>log_set_lines_kept\<close> asks for at
  most a million lines, and for zero only when none are kept; \<open>log_set_filename\<close> is given NULL only
  when the log has an open file; \<open>log_open_file\<close> is given NULL or an open \<open>FILE\<close> that no log holds,
  and not while the free slot is one that kept lines before. Without the conditions on zero lines,
  NULL names and slots the library does follow freed entries or use NULL (\<open>log_lines_kept_zero_dangles\<close>,
  \<open>log_null_name_crashes\<close>, \<open>log_open_file_dangles\<close>).
\<close>

theorem log_run_safe:
  assumes "disk_ok d" and "calls_ok (static_logger d) cs"
  shows "\<exists>g. run_calls cs (static_logger d) = Some g \<and> (if initialized g then logger_ok g else logger_down g)"
  using run_calls_ok [OF static_down [OF assms(1)] assms(2)] by (simp add: log_inv_def)

definition demo_calls :: "log_call list" where
  "demo_calls = [Call_Initialize, Call_Open (Some ''a''), Call_Fopen ''b'', Call_Open_File (Some 2),
     Call_Filename 1 None, Call_Write_Direct 1 ''x'' [], Call_Close 0, Call_Shutdown, Call_Initialize]"

lemma log_run_safe_witness:
  "\<exists>g. run_calls demo_calls (static_logger empty_disk) = Some g \<and> (if initialized g then logger_ok g else logger_down g)"
proof (rule log_run_safe)
  show "disk_ok empty_disk" by (simp add: disk_ok_def empty_disk_def)
  show "calls_ok (static_logger empty_disk) demo_calls"
    by code_simp
qed

text \<open>Without the condition on NULL names: the file of a log is closed and its name taken away.\<close>

lemma log_null_name_crashes:
  "run_calls [Call_Initialize, Call_Open (Some ''a''), Call_Reopen 0, Call_Filename 0 None, Call_Write_Direct 0 ''x'' []]
     (static_logger empty_disk) = None"
  by code_simp

text \<open>Without the condition on slots: the slot kept a line before, its tail points into the freed entry.\<close>

lemma log_open_file_dangles:
  "run_calls [Call_Initialize, Call_Open (Some ''a''), Call_Lines_Kept 0 2, Call_Write_Direct 0 ''x'' [], Call_Close 0,
      Call_Fopen ''b'', Call_Open_File (Some 2), Call_Write_Direct 0 ''y'' []] (static_logger empty_disk) = None"
  by code_simp

subsection \<open>The kept lines\<close>

text \<open>
  C21: The linked list with its head and tail pointers implements a bounded queue: after any
  number of new entries, a log with \<open>keep_entries\<close> different from zero holds exactly the last
  \<open>keep_entries\<close> of the old lines followed by the new ones.
\<close>

theorem log_keeps_last_lines:
  assumes "logger_ok g" and "i < LOG_MAXLOGS" and "l_in_use (slot g i)" and "l_logfile (slot g i) \<noteq> None"
    and "l_keep (slot g i) \<noteq> 0" and "list_all entry_small es"
  shows "\<exists>g'. puts (put_entry i) es g = Some g' \<and>
    kept_lines g' i = last_n (unat (l_keep (slot g i))) (kept_lines g i @ map entry_shown es)"
proof -
  have "entry_ready i g" using assms by (auto simp: entry_ready_def logger_ok_def)
  moreover have "entry_keep i g \<noteq> 0" using assms(5) by (simp add: entry_keep_def unat_eq_zero)
  ultimately show ?thesis
    using kept.puts_last [of i g es] assms(6) by (auto simp: entry_keep_def)
qed

text \<open>A log with one open file and room for two lines, on which the theorems are applied.\<close>

definition sample_disk :: disk where
  "sample_disk = empty_disk\<lparr>names := (names empty_disk)(''a'' \<mapsto> 1), bodies := (bodies empty_disk)(1 := ''old''),
     streams := [0 \<mapsto> \<lparr>inode = 1, pending = [], line_buffered = True\<rparr>], next_id := 2\<rparr>"

definition sample_slot :: log_t where
  "sample_slot = (fresh_log zero_log)\<lparr>l_in_use := True, l_logfile := Some 0, l_filename := Name ''a'',
     l_keep := 2, l_size := 3, l_trigger := 1\<rparr>"

definition sample_log :: logger where
  "sample_log = set_slot 0 sample_slot (log_initialize (static_logger sample_disk))"

lemma sample_slots:
  "i < LOG_MAXLOGS \<Longrightarrow> slot sample_log i = (if i = 0 then sample_slot else fresh_log zero_log)"
  by (simp add: sample_log_def set_slot_def log_initialize_def static_logger_def slot_def LOG_MAXLOGS_def
      nth_list_update)

lemma sample_parts: "entry_heap sample_log = (\<lambda>_. None)" "disk sample_log = sample_disk"
  "length (loglist sample_log) = LOG_MAXLOGS" "next_entry sample_log = 0" "mutex sample_log = Unlocked"
  by (simp_all add: sample_log_def log_initialize_def static_logger_def)

lemma sample_core: "logger_core sample_log (\<lambda>_. [])"
proof -
  have fil: "open_file sample_disk 0" by (simp add: open_file_def sample_disk_def)
  have "slot_ok (open_file sample_disk) (\<lambda>_. None) sample_slot []"
    using fil by (simp add: slot_ok_def queue_ok_def tail_ok_def files_ok_def sample_slot_def fresh_log_def
        KEEP_MAX_def)
  moreover have "slot_ok (open_file sample_disk) (\<lambda>_. None) (fresh_log zero_log) []"
    by (simp add: slot_ok_def queue_ok_def tail_ok_def files_ok_def fresh_log_def)
  moreover have "disk_ok sample_disk" by (simp add: disk_ok_def sample_disk_def)
  moreover have "l_logfile (fresh_log zero_log) = None" by (simp add: fresh_log_def)
  ultimately show ?thesis
    using sample_parts sample_slots by (simp add: logger_core_def)
qed

lemma sample_ok: "logger_ok sample_log"
  by (rule logger_okI [OF _ sample_core]) (simp add: sample_log_def log_initialize_def static_logger_def)

lemma sample_slot0: "slot sample_log 0 = sample_slot"
  using sample_slots [of 0] by (simp add: LOG_MAXLOGS_def)

lemma sample_kept: "kept_lines sample_log 0 = []"
  using core_kept_lines [OF sample_core, of 0] by (simp add: LOG_MAXLOGS_def)

lemma log_keeps_last_lines_witness:
  "\<exists>g'. puts (put_entry 0) [([], ''a''), ([], ''b''), ([], ''c'')] sample_log = Some g' \<and>
    kept_lines g' 0 = [[CHR ''b'', LF], [CHR ''c'', LF]]"
  using log_keeps_last_lines [OF sample_ok, of 0 "[([], ''a''), ([], ''b''), ([], ''c'')]"]
  by (simp add: sample_slot0 sample_slot_def sample_kept LOG_MAXLOGS_def entry_small_def last_n_def
      entry_shown_def entry_text_def)

text \<open>
  C22: \<open>log_contents\<close> gives the kept lines, oldest first, joined into one string, and does not
  change the log. The length it reports is larger than that string: it counts one more byte
  for every line.
\<close>

theorem log_contents_gives_kept_lines:
  assumes "logger_ok g" and "\<not> bad_id i"
  shows "\<exists>n. log_contents i g = Some (Some (concat (kept_lines g (nat i)), n), g) \<and>
    unat n = length (concat (kept_lines g (nat i))) + length (kept_lines g (nat i))"
proof -
  have "lines_total ts = length (concat ts) + length ts" for ts by (induction ts) simp_all
  then show ?thesis using log_contents_ok [OF assms] by simp
qed

lemma log_contents_gives_kept_lines_witness:
  "\<exists>n. log_contents 0 sample_log = Some (Some ([], n), sample_log) \<and> unat n = 0"
  using log_contents_gives_kept_lines [OF sample_ok, of 0]
  by (simp add: bad_id_def LOG_MAXLOGS_def sample_kept)

subsection \<open>Rotation\<close>

text \<open>
  C25: Log rotation loses nothing. When the file of a log has grown past its trigger level, and
  the file can be renamed, opened and written, the next line moves everything written so far
  to the archive name and becomes the whole content of a new file under the name of the log.
\<close>

theorem log_rotation_keeps_text:
  assumes ok: "logger_ok g" and i: "i < LOG_MAXLOGS" and used: "l_in_use (slot g i)"
    and big: "l_trigger (slot g i) \<noteq> 0" "sint (l_trigger (slot g i)) < sint (l_size (slot g i))"
    and name: "l_filename (slot g i) = Name f" "archive_name (slot g i) f (disk g) \<noteq> f"
    and fil: "l_logfile (slot g i) = Some p" "streams (disk g) p = Some st"
      "names (disk g) f = Some (inode st)" "inode st \<le> next_id (disk g)"
    and works: "\<not> refuses (disk g) f" "\<And>k. \<not> is_full (disk g) k" "\<not> is_stuck (disk g) f"
    and len: "length pre + length line + 1 < 2048"
  shows "\<exists>g'. write_entry i pre line g = Some g' \<and>
    file_text (disk g') (archive_name (slot g i) f (disk g)) =
      Some (bodies (disk g) (inode st) @ pending st) \<and>
    file_text (disk g') f = Some (pre @ line @ [LF])"
proof -
  let ?l = "slot g i" and ?old = "archive_name (slot g i) f (disk g)" and ?n = "next_id (disk g)"
  obtain ass where core: "logger_core g ass" using ok by (auto simp: logger_ok_def)
  obtain d1 where d1: "archive_file ?l f (disk g) = Some d1" "names d1 f = None"
    "names d1 ?old = Some (inode st)" "bodies d1 (inode st) = bodies (disk g) (inode st) @ pending st"
    "next_id d1 = ?n" "is_full d1 = is_full (disk g)" "refuses d1 = refuses (disk g)"
    using archive_file_texts [OF fil(1-3) works(2,3) name(2)] by blast
  obtain l2 d2 where d2: "open_log_file ?l f d1 = (True, l2, d2)" "l_logfile l2 = Some ?n"
    "names d2 = (names d1)(f \<mapsto> Suc ?n)" "bodies d2 = (bodies d1)(Suc ?n := [])" "is_full d2 = is_full d1"
    "streams d2 ?n = Some \<lparr>inode = Suc ?n, pending = [], line_buffered = True\<rparr>"
    using open_new_file [OF d1(2)] works(1) d1(5,7) by metis
  let ?g1 = "(set_slot i l2 g)\<lparr>disk := d2\<rparr>"
  have opened: "log_open_now i g = Some (True, ?g1)"
    using used big name(1) d1(1) d2(1) by (simp add: log_open_now_def wants_open_def Let_def)
  obtain g2 where w: "write_entry i pre line g = Some g2"
    using write_entry_core [OF core i len] by blast
  then obtain n g3 where c: "create_log_entry i pre line ?g1 = Some (n, g3)" "g2 = add_size i n g3"
    using opened by (auto simp: write_entry_def elim!: bind_SomeE)
  have "slot ?g1 i = l2" using i core_slot_length [OF core] by (simp add: slot_set_slot)
  then obtain m where "fprintf (Some ?n) (entry_text pre line) d2 = Some (m, disk g3)"
    using create_log_entry_disk [OF c(1) len] d2(2) by auto
  then have "names (disk g3) = names d2 \<and>
      bodies (disk g3) = (bodies d2)(Suc ?n := bodies d2 (Suc ?n) @ pre @ line @ [LF])"
    using fprintf_line [OF d2(6), of "pre @ line"] works(2) d2(5) d1(6) by (simp add: entry_text_def)
  moreover have "disk g2 = disk g3" using c(2) by (simp add: add_size_def)
  moreover have "inode st \<noteq> Suc ?n" using fil(4) by simp
  ultimately show ?thesis
    using w d1(3,4) d2(3,4) name(2) by (intro exI [of _ g2]) (simp add: file_text_def)
qed

lemma log_rotation_keeps_text_witness:
  "\<exists>g'. write_entry 0 [] ''new'' sample_log = Some g' \<and>
    file_text (disk g') ''a.old'' = Some ''old'' \<and> file_text (disk g') ''a'' = Some (''new'' @ [LF])"
proof -
  have d: "disk sample_log = sample_disk"
    by (simp add: sample_log_def log_initialize_def static_logger_def)
  have a: "archive_name (slot sample_log 0) ''a'' (disk sample_log) = ''a.old''"
    by (simp add: archive_name_def sample_slot0 sample_slot_def fresh_log_def zero_log_def)
  show ?thesis
    using log_rotation_keeps_text [OF sample_ok, of 0 "''a''" 0
        "\<lparr>inode = 1, pending = [], line_buffered = True\<rparr>" "[]" "''new''"] a d
    by (simp add: sample_slot0 sample_slot_def LOG_MAXLOGS_def sample_disk_def empty_disk_def)
qed

subsection \<open>Zero kept lines\<close>

lemma wants_open_keep [simp]: "wants_open (l\<lparr>l_keep := k\<rparr>) = wants_open l"
  by (simp add: wants_open_def)

text \<open>
  C26: Asking for zero kept lines while there are some leaves \<open>log_tail\<close> pointing into the
  last freed entry. When lines are kept again afterwards, the next line written is linked into
  freed memory: the run has no defined behaviour.
\<close>

theorem log_lines_kept_zero_dangles:
  assumes ok: "logger_ok g" and i: "\<not> bad_id i" and used: "l_in_use (slot g (nat i))"
    and lines: "kept_lines g (nat i) \<noteq> []" and n: "n \<noteq> 0"
    and fil: "\<not> wants_open (slot g (nat i))"
  shows "\<exists>g1 g2. log_set_lines_kept i 0 g = Some g1 \<and> log_set_lines_kept i n g1 = Some g2 \<and>
    kept_lines g2 (nat i) = [] \<and> write_entry (nat i) pre line g2 = None"
proof -
  let ?i = "nat i" and ?l = "slot g (nat i)" and ?h = "entry_heap g"
  have i': "?i < LOG_MAXLOGS" using i by (rule not_bad_id)
  obtain ass where core: "logger_core g ass" and m: "mutex g = Unlocked"
    using ok by (auto simp: logger_ok_def)
  let ?as = "ass ?i"
  have len: "?i < length (loglist g)" using i' core_slot_length [OF core] by simp
  have sok: "slot_ok (open_file (disk g)) ?h ?l ?as" by (rule core_slot_ok [OF core i'])
  have ne: "?as \<noteq> []" using lines core_kept_lines [OF core i'] by auto
  let ?l0 = "?l\<lparr>l_keep := 0\<rparr>"
  have "queue_ok ?h ?l0 ?as" "unat (l_entries ?l0) = length ?as"
    using sok by (simp_all add: slot_ok_def queue_ok_def)
  from drop_kept_queue [OF this, of 0] obtain l1 where r:
    "drop_kept 0 ?h ?l0 = Some (\<lambda>a. if a \<in> set ?as then None else ?h a, l1)"
    "queue_ok (\<lambda>a. if a \<in> set ?as then None else ?h a) l1 []" "l_entries l1 = 0"
    "l1 = ?l0\<lparr>l_head := l_head l1, l_total := l_total l1, l_entries := l_entries l1\<rparr>"
    by (auto simp: unat_eq_zero)
  let ?h1 = "\<lambda>a. if a \<in> set ?as then None else ?h a"
  have l1: "l_in_use l1" "l_tail l1 = Tail_Next (last ?as)" "l_logfile l1 = l_logfile ?l"
    "wants_open l1 = wants_open ?l" "l_head l1 = None"
    using used sok ne r(2)
    by (subst r(4), simp add: slot_ok_def tail_ok_def wants_open_def queue_ok_def)+
  let ?g1 = "(set_slot ?i l1 g)\<lparr>entry_heap := ?h1\<rparr>" and ?l2 = "l1\<lparr>l_keep := n\<rparr>"
  let ?g2 = "(set_slot ?i ?l2 g)\<lparr>entry_heap := ?h1\<rparr>"
  have g1: "log_set_lines_kept i 0 g = Some ?g1"
    using i used r(1) m by (cases g) (simp add: log_set_lines_kept_def lock_ok unlock_ok set_slot_def slot_def)
  have s1: "slot ?g1 ?i = l1" "slot ?g2 ?i = ?l2" using len by (simp_all add: slot_set_slot)
  have "drop_kept n ?h1 ?l2 = Some (?h1, ?l2)" using r(3) by (simp add: drop_kept.simps)
  then have g2: "log_set_lines_kept i n ?g1 = Some ?g2"
    using i l1(1) s1(1) m len
    by (cases g) (simp add: log_set_lines_kept_def lock_ok unlock_ok set_slot_def slot_def)
  have "kept_lines ?g2 ?i = []" using s1(2) l1(5) by (simp add: kept_lines_def)
  moreover have "write_entry ?i pre line ?g2 = None"
  proof -
    have opened: "log_open_now ?i ?g2 = Some (True, ?g2)"
      using s1(2) l1(1,4) fil by (simp add: log_open_now_def Let_def)
    have last: "last ?as \<in> set ?as" "last ?as \<noteq> next_entry g"
      using ne core_addr [OF core i', of "last ?as"] by auto
    have "create_log_entry ?i pre line ?g2 = None"
      using n last s1(2) l1(2)
      by (simp add: create_log_entry_def store_tail_def Let_def bind_eq_None_conv split: prod.split)
    with opened show ?thesis by (simp add: write_entry_def)
  qed
  ultimately show ?thesis using g1 g2 by blast
qed

definition kept_slot :: log_t where
  "kept_slot = sample_slot\<lparr>l_trigger := 0, l_total := 3, l_entries := 1, l_head := Some 0, l_tail := Tail_Next 0\<rparr>"

definition kept_log :: logger where
  "kept_log = (set_slot 0 kept_slot sample_log)\<lparr>next_entry := 1,
     entry_heap := [0 \<mapsto> \<lparr>e_line = [CHR ''a'', LF], e_len = 3, e_next = None\<rparr>]\<rparr>"

lemma kept_core: "logger_core kept_log ((\<lambda>_. [])(0 := [0]))"
proof (rule core_update [OF sample_core, of 0 _ kept_slot])
  have "open_file (disk kept_log) 0"
    by (simp add: kept_log_def sample_log_def log_initialize_def static_logger_def open_file_def sample_disk_def)
  then show "slot_ok (open_file (disk kept_log)) (entry_heap kept_log) kept_slot [0]"
    by (simp add: slot_ok_def queue_ok_def tail_ok_def files_ok_def kept_slot_def sample_slot_def kept_log_def
        line_at_def entry_at_def entry_ok_def fresh_log_def KEEP_MAX_def)
qed (use sample_core in \<open>simp_all add: kept_log_def set_slot_def LOG_MAXLOGS_def sample_slot0 kept_slot_def
    sample_slot_def sample_parts disk_ok_def sample_disk_def split: if_split_asm\<close>)

lemma log_lines_kept_zero_dangles_witness:
  "\<exists>g1 g2. log_set_lines_kept 0 0 kept_log = Some g1 \<and> log_set_lines_kept 0 2 g1 = Some g2 \<and>
     kept_lines g2 0 = [] \<and> write_entry 0 [] ''b'' g2 = None"
proof -
  have "0 < length (loglist sample_log)"
    using core_slot_length [OF sample_core] by (simp add: LOG_MAXLOGS_def)
  then have s0: "slot kept_log 0 = kept_slot" by (simp add: kept_log_def slot_set_slot)
  have ok: "logger_ok kept_log"
    by (rule logger_okI [OF _ kept_core])
      (simp add: kept_log_def sample_log_def log_initialize_def static_logger_def)
  have "kept_lines kept_log 0 = [[CHR ''a'', LF]]"
    using core_kept_lines [OF kept_core, of 0]
    by (simp add: LOG_MAXLOGS_def line_at_def entry_at_def kept_log_def)
  then show ?thesis
    using log_lines_kept_zero_dangles [OF ok, of 0 2 "[]" "''b''"]
    by (simp add: bad_id_def LOG_MAXLOGS_def s0 kept_slot_def sample_slot_def wants_open_def)
qed

end
