(* ===== verification/Thread.thy ===== *)
theory Thread
  imports Avl_Dict
begin

section \<open>The thread library: \<open>thread/thread.c\<close>\<close>

text \<open>
  The registry of threads: an AVL tree of thread records ordered by \<open>thread_id\<close>, guarded by
  a mutex. The model is the ordinary configuration (no \<open>DEBUG_MUTEXES\<close>) on a system with
  interleaved threads. A thread is a system identifier (its \<open>pthread_t\<close>, a positive number)
  with a program counter; a step lets one thread do one action: take the mutex, run the
  section it guards, release it, or do something between the sections. What user code does in
  between is any choice of calls of the library. Records live in a heap, at addresses that
  are not used again; reading or freeing a record that is not there is undefined behaviour.
\<close>

subsection \<open>Data\<close>

text \<open>
  The creation time is left out (nothing reads it). Record 0 is that of the main thread,
  which ends by \<open>thread_exit\<close> or with the process.
\<close>

record thread_type =
  thread_id :: int
  th_name :: "string option"
  th_file :: "string option"
  th_line :: int
  th_detached :: bool
  sys_thread :: nat

type_synonym thread_heap = "addr \<Rightarrow> thread_type option"

text \<open>
  The tree compares records through their addresses; the identifier of a record does not
  change once it is in the tree, so a key is the pair of what the comparison reads and the
  address.
\<close>

type_synonym thread_key = "int \<times> addr"

definition compare_threads :: "thread_key \<Rightarrow> thread_key \<Rightarrow> int" where
  "compare_threads a b = (if fst a > fst b then 1 else if fst a < fst b then -1 else 0)"

text \<open>The sections under the mutex, and where a thread is.\<close>

datatype reason = For_Call | For_Exit | For_Rename string

datatype guarded = New_Id addr string bool | Insert addr | Remove addr bool | Find_Self reason

datatype pc =
    Work
  | Enter guarded
  | Inside guarded
  | Leave pc
  | Spawn addr string bool
  | Wait_Join addr nat
  | Got_Self ptr reason
  | Die
  | Zombie

text \<open>
  \<open>own\<close> is the record a thread was started with, \<open>is_detached\<close> what the system was told at its
  creation, \<open>observed\<close> the last result of \<open>thread_self\<close> in its user code. \<open>joinable\<close> are the
  records users may pass to \<open>thread_join\<close>: of threads created attached that nobody has joined.
  \<open>ever\<close> are the system identifiers that have been given out.
\<close>

record thread_run =
  own :: addr
  is_detached :: bool
  pc :: pc
  observed :: ptr

record threads =
  thread_heap :: thread_heap
  next_record :: addr
  next_thread_id :: int
  threadtree :: "thread_key avl_tree"
  tree_mutex :: "nat option"
  thr :: "nat \<Rightarrow> thread_run option"
  ever :: "nat set"
  joinable :: "addr set"

datatype outcome = Blocked | Undefined | Ok threads

fun of_option :: "threads option \<Rightarrow> outcome" where
  "of_option None = Undefined"
| "of_option (Some st) = Ok st"

definition set_pc :: "nat \<Rightarrow> pc \<Rightarrow> threads \<Rightarrow> threads" where
  "set_pc s c st = st\<lparr>thr := (thr st)(s := map_option (pc_update (\<lambda>_. c)) (thr st s))\<rparr>"

definition set_record :: "addr \<Rightarrow> thread_type option \<Rightarrow> threads \<Rightarrow> threads" where
  "set_record a r st = st\<lparr>thread_heap := (thread_heap st)(a := r)\<rparr>"

subsection \<open>The sections under the mutex of the tree\<close>

definition take_id :: "addr \<Rightarrow> threads \<Rightarrow> threads option" where
  "take_id a st = do {
     r \<leftarrow> thread_heap st a;
     Some ((set_record a (Some (r\<lparr>thread_id := next_thread_id st\<rparr>)) st)
       \<lparr>next_thread_id := next_thread_id st + 1\<rparr>) }"

definition insert_self :: "nat \<Rightarrow> addr \<Rightarrow> threads \<Rightarrow> threads option" where
  "insert_self me a st = do {
     r \<leftarrow> thread_heap st a;
     (rc, t) \<leftarrow> avl_insert (threadtree st) (thread_id r, a);
     Some ((set_record a (Some (r\<lparr>sys_thread := me\<rparr>)) st)\<lparr>threadtree := t\<rparr>) }"

definition free_thread :: "thread_key \<Rightarrow> thread_heap \<Rightarrow> thread_heap option" where
  "free_thread k h = (case h (snd k) of None \<Rightarrow> None | Some r \<Rightarrow> Some (h(snd k := None)))"

fun free_threads :: "thread_key list \<Rightarrow> thread_heap \<Rightarrow> thread_heap option" where
  "free_threads [] h = Some h"
| "free_threads (k # ks) h = Option.bind (free_thread k h) (free_threads ks)"

definition remove_thread :: "addr \<Rightarrow> threads \<Rightarrow> threads option" where
  "remove_thread a st = do {
     r \<leftarrow> thread_heap st a;
     (rc, freed, t) \<leftarrow> avl_delete (threadtree st) (thread_id r, a);
     h \<leftarrow> free_threads freed (thread_heap st);
     Some (st\<lparr>threadtree := t, thread_heap := h\<rparr>) }"

partial_function (option) self_loop :: "thread_heap \<Rightarrow> thread_key store \<Rightarrow> nat \<Rightarrow> ptr \<Rightarrow> ptr option" where
  "self_loop h t me nd =
     (if nd = None then Some None
      else do {
        n \<leftarrow> rd t nd;
        found \<leftarrow> (case key n of
            None \<Rightarrow> Some None
          | Some k \<Rightarrow> do { r \<leftarrow> h (snd k); Some (if sys_thread r = me then Some (snd k) else None) });
        if found \<noteq> None then Some found
        else do { q \<leftarrow> avl_get_next t nd; self_loop h t me q } })"

definition thread_self :: "nat \<Rightarrow> threads \<Rightarrow> ptr option" where
  "thread_self me st = do {
     nd \<leftarrow> avl_get_first (threadtree st);
     self_loop (thread_heap st) (store (threadtree st)) me nd }"

definition run_section :: "nat \<Rightarrow> guarded \<Rightarrow> threads \<Rightarrow> (pc \<times> threads) option" where
  "run_section me sec st =
     (case sec of
        New_Id a nm det \<Rightarrow> map_option (Pair (Spawn a nm det)) (take_id a st)
      | Insert a \<Rightarrow> map_option (Pair Work) (insert_self me a st)
      | Remove a dies \<Rightarrow> map_option (Pair (if dies then Die else Work)) (remove_thread a st)
      | Find_Self r \<Rightarrow> map_option (\<lambda>p. (Got_Self p r, st)) (thread_self me st))"

definition mutex_lock :: "nat \<Rightarrow> guarded \<Rightarrow> threads \<Rightarrow> outcome" where
  "mutex_lock me sec st =
     (if tree_mutex st = None then Ok (set_pc me (Inside sec) (st\<lparr>tree_mutex := Some me\<rparr>)) else Blocked)"

definition mutex_unlock :: "nat \<Rightarrow> pc \<Rightarrow> threads \<Rightarrow> outcome" where
  "mutex_unlock me c st = Ok (set_pc me c (st\<lparr>tree_mutex := None\<rparr>))"

subsection \<open>Between the sections\<close>

text \<open>
  \<open>thread_create\<close> allocates the record, takes an identifier under the mutex, and starts the
  thread; the two parts of it around the mutex. \<open>pthread_create\<close> stores the new identifier in the
  record before the thread runs, as the GNU C library does; so the two are one step. POSIX leaves the
  order open: a system that stored it later could write to the record of a detached thread that
  has ended and freed it. The creator itself does not touch the record after the call.
\<close>

definition thread_create_begin :: "nat \<Rightarrow> string \<Rightarrow> string \<Rightarrow> int \<Rightarrow> bool \<Rightarrow> threads \<Rightarrow> threads" where
  "thread_create_begin me nm fl ln det st =
     (let a = next_record st in
      set_pc me (Enter (New_Id a nm det))
        ((set_record a (Some \<lparr>thread_id = 0, th_name = None, th_file = Some fl, th_line = ln,
           th_detached = False, sys_thread = 0\<rparr>) st)\<lparr>next_record := Suc a\<rparr>))"

definition thread_create_end :: "nat \<Rightarrow> nat \<Rightarrow> addr \<Rightarrow> string \<Rightarrow> bool \<Rightarrow> threads \<Rightarrow> threads option" where
  "thread_create_end me new a nm det st = do {
     r \<leftarrow> thread_heap st a;
     let st = set_record a (Some (r\<lparr>th_name := Some nm, th_detached := det, sys_thread := new\<rparr>)) st;
     let st = st\<lparr>thr := (thr st)(new \<mapsto> \<lparr>own = a, is_detached = det, pc = Enter (Insert a), observed = None\<rparr>),
                 ever := insert new (ever st),
                 joinable := (if det then joinable st else insert a (joinable st))\<rparr>;
     Some (set_pc me Work st) }"

text \<open>What follows the search for the own record in \<open>thread_exit\<close> and \<open>thread_rename\<close>.\<close>

definition thread_exit_c :: "nat \<Rightarrow> ptr \<Rightarrow> threads \<Rightarrow> threads option" where
  "thread_exit_c me th st =
     (case th of
        None \<Rightarrow> Some (set_pc me Die st)
      | Some a \<Rightarrow> do {
          r \<leftarrow> thread_heap st a;
          Some (set_pc me (if th_detached r then Enter (Remove a True) else Die) st) })"

definition thread_rename :: "nat \<Rightarrow> string \<Rightarrow> ptr \<Rightarrow> threads \<Rightarrow> threads option" where
  "thread_rename me nm th st = do {
     a \<leftarrow> th;
     r \<leftarrow> thread_heap st a;
     Some (set_pc me Work (set_record a (Some (r\<lparr>th_name := Some nm\<rparr>)) st)) }"

definition after_self :: "nat \<Rightarrow> ptr \<Rightarrow> reason \<Rightarrow> threads \<Rightarrow> threads option" where
  "after_self me p r st =
     (case r of
        For_Call \<Rightarrow>
          Some (set_pc me Work (st\<lparr>thr := (thr st)(me := map_option (observed_update (\<lambda>_. p)) (thr st me))\<rparr>))
      | For_Exit \<Rightarrow> thread_exit_c me p st
      | For_Rename nm \<Rightarrow> thread_rename me nm p st)"

text \<open>\<open>_start_routine\<close> after the user's routine has returned.\<close>

definition start_returned :: "nat \<Rightarrow> addr \<Rightarrow> threads \<Rightarrow> threads option" where
  "start_returned me a st = do {
     th \<leftarrow> thread_heap st a;
     Some (set_pc me (if th_detached th then Enter (Remove a True) else Die) st) }"

definition thread_join_begin :: "nat \<Rightarrow> addr \<Rightarrow> threads \<Rightarrow> threads option" where
  "thread_join_begin me b st = do {
     r \<leftarrow> thread_heap st b;
     Some (set_pc me (Wait_Join b (sys_thread r)) (st\<lparr>joinable := joinable st - {b}\<rparr>)) }"

definition thread_join_wait :: "nat \<Rightarrow> addr \<Rightarrow> nat \<Rightarrow> threads \<Rightarrow> outcome" where
  "thread_join_wait me b other st =
     (case thr st other of
        None \<Rightarrow> Undefined
      | Some o' \<Rightarrow>
          (if pc o' = Zombie
           then Ok (set_pc me (Enter (Remove b False)) (st\<lparr>thr := (thr st)(other := None)\<rparr>))
           else Blocked))"

datatype move =
    Go
  | Call_Create string string int bool
  | Call_Self
  | Call_Rename string
  | Call_Exit
  | Call_Join addr
  | Return
  | Spawn_New nat
  | Spawn_Fails

definition work_move :: "nat \<Rightarrow> thread_run \<Rightarrow> move \<Rightarrow> threads \<Rightarrow> outcome" where
  "work_move me e mv st =
     (case mv of
        Call_Create nm fl ln det \<Rightarrow> Ok (thread_create_begin me nm fl ln det st)
      | Call_Self \<Rightarrow> Ok (set_pc me (Enter (Find_Self For_Call)) st)
      | Call_Rename nm \<Rightarrow> Ok (set_pc me (Enter (Find_Self (For_Rename nm))) st)
      | Call_Exit \<Rightarrow> Ok (set_pc me (Enter (Find_Self For_Exit)) st)
      | Return \<Rightarrow> (if own e = 0 then Blocked else of_option (start_returned me (own e) st))
      | Call_Join b \<Rightarrow> (if b \<notin> joinable st then Blocked else of_option (thread_join_begin me b st))
      | _ \<Rightarrow> Blocked)"

text \<open>
  \<open>step reuse me mv st\<close>: thread \<open>me\<close> does its next action. With \<open>reuse\<close> the system may give
  a new thread the identifier of one that has terminated (and has been joined or was
  detached), as POSIX allows; without it identifiers are never used twice.
\<close>

definition step :: "bool \<Rightarrow> nat \<Rightarrow> move \<Rightarrow> threads \<Rightarrow> outcome" where
  "step reuse me mv st =
     (case thr st me of
        None \<Rightarrow> Blocked
      | Some e \<Rightarrow>
          (case pc e of
             Work \<Rightarrow> work_move me e mv st
           | Enter sec \<Rightarrow> mutex_lock me sec st
           | Inside sec \<Rightarrow>
               of_option (map_option (\<lambda>(c, st). set_pc me (Leave c) st) (run_section me sec st))
           | Leave c \<Rightarrow> mutex_unlock me c st
           | Spawn a nm det \<Rightarrow>
               (case mv of
                  Spawn_New new \<Rightarrow>
                    (if new = 0 \<or> thr st new \<noteq> None \<or> \<not> reuse \<and> new \<in> ever st then Blocked
                     else of_option (thread_create_end me new a nm det st))
                | Spawn_Fails \<Rightarrow> Ok (set_pc me Work (set_record a None st))
                | _ \<Rightarrow> Blocked)
           | Wait_Join b other \<Rightarrow> thread_join_wait me b other st
           | Got_Self p r \<Rightarrow> of_option (after_self me p r st)
           | Die \<Rightarrow>
               (if is_detached e then Ok (st\<lparr>thr := (thr st)(me := None)\<rparr>) else Ok (set_pc me Zombie st))
           | Zombie \<Rightarrow> Blocked))"

subsection \<open>Initialisation and reachable states\<close>

text \<open>\<open>garbage\<close>: the field \<open>detached\<close> of the main thread's record is not initialised.\<close>

definition thread_initialize :: "bool \<Rightarrow> threads option" where
  "thread_initialize garbage = do {
     t \<leftarrow> avl_tree_new compare_threads \<lparr>cells = Map.empty, brk = 0, limit = None\<rparr>;
     (rc, t) \<leftarrow> avl_insert t (0, 0);
     Some \<lparr>thread_heap = [0 \<mapsto> \<lparr>thread_id = 0, th_name = Some ''Main Thread'', th_file = Some ''main.c'',
             th_line = 0, th_detached = garbage, sys_thread = 1\<rparr>],
           next_record = 1, next_thread_id = 1, threadtree = t, tree_mutex = None,
           thr = [1 \<mapsto> \<lparr>own = 0, is_detached = garbage, pc = Work, observed = None\<rparr>],
           ever = {1}, joinable = {}\<rparr> }"

inductive reachable :: "bool \<Rightarrow> threads \<Rightarrow> bool" for reuse where
  start: "thread_initialize garbage = Some st \<Longrightarrow> reachable reuse st"
| move: "reachable reuse st \<Longrightarrow> step reuse me mv st = Ok st' \<Longrightarrow> reachable reuse st'"

definition thread_shutdown :: "threads \<Rightarrow> thread_heap option" where
  "thread_shutdown st = do {
     (ks, t) \<leftarrow> avl_tree_free (threadtree st) True;
     free_threads (List.map_filter (\<lambda>k. k) ks) (thread_heap st) }"

end
