(* ===== verification/Thread_Inv.thy ===== *)
theory Thread_Inv
  imports Thread
begin

section \<open>The invariant of the thread registry\<close>

text \<open>
  Without reuse of system identifiers. \<open>heap_ok\<close> relates records and registry, \<open>own_ok\<close> and
  \<open>pc_ok\<close> say what a thread at its program counter relies on, and the tokens say who will
  remove a record: a detached thread itself, the creator until the thread is started, or the one
  that joins. \<open>inv_update\<close> is the frame rule for the steps that change one thread.
\<close>

interpretation thread_order: key_order compare_threads
  by unfold_locales (auto simp: compare_threads_def split: if_split_asm)

lemma compare_threads_0 [simp]: "compare_threads x y = 0 \<longleftrightarrow> fst x = fst y"
  by (auto simp: compare_threads_def)

definition heap_ok :: "thread_heap \<Rightarrow> addr \<Rightarrow> int \<Rightarrow> nat set \<Rightarrow> thread_key list \<Rightarrow> bool" where
  "heap_ok h nr ni ev ks \<longleftrightarrow>
     1 \<le> ni \<and> (\<forall>a. h a \<noteq> None \<longrightarrow> a < nr) \<and>
     (\<forall>a r. h a = Some r \<longrightarrow> thread_id r < ni \<and> (sys_thread r = 0 \<or> sys_thread r \<in> ev)) \<and>
     (\<forall>a b r q. h a = Some r \<longrightarrow> h b = Some q \<longrightarrow> thread_id r = thread_id q \<longrightarrow> thread_id r \<noteq> 0 \<longrightarrow> a = b) \<and>
     (\<forall>a b r q. h a = Some r \<longrightarrow> h b = Some q \<longrightarrow> sys_thread r = sys_thread q \<longrightarrow> sys_thread r \<noteq> 0 \<longrightarrow> a = b) \<and>
     (\<forall>k \<in> set ks. \<exists>r. h (snd k) = Some r \<and> thread_id r = fst k \<and> sys_thread r \<noteq> 0)"

definition tree_ok :: "thread_key avl_tree \<Rightarrow> thread_key list \<Rightarrow> bool" where
  "tree_ok t ks \<longleftrightarrow> avl_rep compare_threads t ks \<and> strict_by compare_threads ks"

text \<open>A thread is \<open>gone\<close> when it has freed its own record and only ends, \<open>pre\<close> before it is registered.\<close>

definition gone :: "thread_run \<Rightarrow> bool" where
  "gone e \<longleftrightarrow> is_detached e \<and> pc e \<in> {Die, Leave Die}"

definition pre :: "thread_run \<Rightarrow> bool" where
  "pre e \<longleftrightarrow> pc e \<in> {Enter (Insert (own e)), Inside (Insert (own e))}"

definition holds :: "thread_run \<Rightarrow> bool" where
  "holds e \<longleftrightarrow> (case pc e of Inside g \<Rightarrow> True | Leave c \<Rightarrow> True | _ \<Rightarrow> False)"

type_synonym who = "nat \<Rightarrow> (addr \<times> bool) option"

definition who :: "threads \<Rightarrow> who" where
  "who st t = map_option (\<lambda>f. (own f, is_detached f)) (thr st t)"

definition guard_ok :: "thread_heap \<Rightarrow> addr set \<Rightarrow> who \<Rightarrow> thread_run \<Rightarrow> guarded \<Rightarrow> bool" where
  "guard_ok h R w e g = (case g of
       New_Id a nm det \<Rightarrow> (\<exists>r. h a = Some r \<and> sys_thread r = 0)
     | Insert a \<Rightarrow> a = own e
     | Remove a dies \<Rightarrow> (if dies then a = own e \<and> is_detached e else a \<in> R \<and> (\<forall>t d. w t \<noteq> Some (a, d)))
     | Find_Self r \<Rightarrow> True)"

definition plain_ok :: "thread_heap \<Rightarrow> thread_run \<Rightarrow> pc \<Rightarrow> bool" where
  "plain_ok h e c = (case c of
       Work \<Rightarrow> True
     | Spawn a nm det \<Rightarrow> (\<exists>r. h a = Some r \<and> sys_thread r = 0 \<and> thread_id r \<noteq> 0)
     | Got_Self p r \<Rightarrow> p = Some (own e)
     | Die \<Rightarrow> True
     | _ \<Rightarrow> False)"

definition pc_ok :: "thread_heap \<Rightarrow> addr set \<Rightarrow> who \<Rightarrow> thread_run \<Rightarrow> bool" where
  "pc_ok h R w e = (case pc e of
       Enter g \<Rightarrow> guard_ok h R w e g
     | Inside g \<Rightarrow> guard_ok h R w e g
     | Leave c \<Rightarrow> plain_ok h e c
     | Wait_Join b t \<Rightarrow> w t = Some (b, False)
     | Zombie \<Rightarrow> \<not> is_detached e
     | c \<Rightarrow> plain_ok h e c)"

definition own_ok :: "thread_heap \<Rightarrow> addr set \<Rightarrow> addr \<Rightarrow> nat \<Rightarrow> thread_run \<Rightarrow> bool" where
  "own_ok h R nr s e \<longleftrightarrow> own e < nr \<and> (gone e \<longrightarrow> h (own e) = None) \<and> (\<not> gone e \<longrightarrow>
     (\<exists>r. h (own e) = Some r \<and> sys_thread r = s \<and> th_detached r = is_detached e \<and>
        (if pre e then thread_id r \<noteq> 0 \<and> own e \<notin> R else own e \<in> R)))"

definition pc_token :: "pc \<Rightarrow> addr set" where
  "pc_token c = (case c of
       Enter (New_Id a nm det) \<Rightarrow> {a} | Inside (New_Id a nm det) \<Rightarrow> {a}
     | Leave (Spawn a nm det) \<Rightarrow> {a} | Spawn a nm det \<Rightarrow> {a}
     | Wait_Join b t \<Rightarrow> {b}
     | Enter (Remove b False) \<Rightarrow> {b} | Inside (Remove b False) \<Rightarrow> {b}
     | _ \<Rightarrow> {})"

definition tokens :: "thread_run \<Rightarrow> addr set" where
  "tokens e = (if is_detached e \<and> \<not> gone e then {own e} else {}) \<union> pc_token (pc e)"

definition thread_ok :: "thread_heap \<Rightarrow> addr set \<Rightarrow> addr \<Rightarrow> nat set \<Rightarrow> who \<Rightarrow> nat \<Rightarrow> thread_run \<Rightarrow> bool" where
  "thread_ok h R nr ev w s e \<longleftrightarrow> s \<noteq> 0 \<and> s \<in> ev \<and> own_ok h R nr s e \<and> pc_ok h R w e"

definition apart :: "thread_run \<Rightarrow> thread_run \<Rightarrow> bool" where
  "apart e f \<longleftrightarrow> own e \<noteq> own f \<and> tokens e \<inter> tokens f = {}"

definition registered :: "thread_key list \<Rightarrow> addr set" where
  "registered ks = snd ` set ks"

definition threads_inv :: "threads \<Rightarrow> thread_key list \<Rightarrow> bool" where
  "threads_inv st ks \<longleftrightarrow>
     tree_ok (threadtree st) ks \<and>
     heap_ok (thread_heap st) (next_record st) (next_thread_id st) (ever st) ks \<and>
     (\<forall>s e. thr st s = Some e \<longrightarrow>
        thread_ok (thread_heap st) (registered ks) (next_record st) (ever st) (who st) s e) \<and>
     (\<forall>s e t f. thr st s = Some e \<longrightarrow> thr st t = Some f \<longrightarrow> s \<noteq> t \<longrightarrow> apart e f) \<and>
     (\<forall>s e. thr st s = Some e \<longrightarrow> tokens e \<inter> joinable st = {}) \<and>
     (\<forall>b \<in> joinable st. \<exists>t. who st t = Some (b, False)) \<and>
     (\<forall>s e. thr st s = Some e \<longrightarrow> (holds e \<longleftrightarrow> tree_mutex st = Some s)) \<and>
     (\<forall>s. tree_mutex st = Some s \<longrightarrow> thr st s \<noteq> None)"

lemma invD:
  assumes "threads_inv st ks"
  shows "tree_ok (threadtree st) ks"
    and "heap_ok (thread_heap st) (next_record st) (next_thread_id st) (ever st) ks"
    and "thr st s = Some e \<Longrightarrow>
      thread_ok (thread_heap st) (registered ks) (next_record st) (ever st) (who st) s e"
    and "thr st s = Some e \<Longrightarrow> thr st t = Some f \<Longrightarrow> s \<noteq> t \<Longrightarrow> apart e f"
    and "thr st s = Some e \<Longrightarrow> tokens e \<inter> joinable st = {}"
    and "b \<in> joinable st \<Longrightarrow> \<exists>t. who st t = Some (b, False)"
    and "thr st s = Some e \<Longrightarrow> (holds e \<longleftrightarrow> tree_mutex st = Some s)"
    and "tree_mutex st = Some s \<Longrightarrow> thr st s \<noteq> None"
  using assms unfolding threads_inv_def by blast+

subsection \<open>The frame rule\<close>

definition needs :: "thread_run \<Rightarrow> addr set" where
  "needs e = (case pc e of
       Enter (New_Id a nm det) \<Rightarrow> {a} | Inside (New_Id a nm det) \<Rightarrow> {a}
     | Leave (Spawn a nm det) \<Rightarrow> {a} | Spawn a nm det \<Rightarrow> {a}
     | Enter (Remove b False) \<Rightarrow> {b} | Inside (Remove b False) \<Rightarrow> {b}
     | _ \<Rightarrow> {})"

lemma needs_token: "needs e \<subseteq> tokens e"
  by (auto simp: needs_def tokens_def pc_token_def split: pc.splits guarded.splits bool.splits)

lemma needs_pc_ok:
  assumes "pc_ok h R w e" and "a \<in> needs e"
  shows "(\<exists>r. h a = Some r \<and> sys_thread r = 0) \<or> a \<in> R \<and> (\<forall>u d. w u \<noteq> Some (a, d))"
  using assms by (auto simp: pc_ok_def guard_ok_def plain_ok_def needs_def
      split: pc.split_asm guarded.split_asm bool.split_asm)

definition view :: "thread_heap \<Rightarrow> addr \<Rightarrow> (int \<times> nat \<times> bool) option" where
  "view h a = map_option (\<lambda>r. (thread_id r, sys_thread r, th_detached r)) (h a)"

lemma view_eqD:
  assumes "view h' a = view h a" and "h a = Some r"
  shows "\<exists>r'. h' a = Some r' \<and> thread_id r' = thread_id r \<and> sys_thread r' = sys_thread r \<and>
    th_detached r' = th_detached r"
  using assms by (cases "h' a") (auto simp: view_def)

lemma thread_ok_frame:
  assumes ok: "thread_ok h R nr ev w s e" and nr: "nr \<le> nr'" and ev: "ev \<subseteq> ev'"
    and same: "\<And>a. a \<in> needs e \<or> a = own e \<Longrightarrow> view h' a = view h a \<and> (a \<in> R' \<longleftrightarrow> a \<in> R)"
    and wait: "\<And>b t. pc e = Wait_Join b t \<Longrightarrow> w' t = w t"
    and rem: "\<And>b t d. b \<in> needs e \<Longrightarrow> w' t = Some (b, d) \<Longrightarrow> b \<notin> R"
  shows "thread_ok h' R' nr' ev' w' s e"
proof -
  have own: "own_ok h' R' nr' s e"
  proof (cases "gone e")
    case True
    then show ?thesis using ok nr same [of "own e"] by (simp add: thread_ok_def own_ok_def view_def)
  next
    case False
    then obtain r where r: "h (own e) = Some r" "sys_thread r = s" "th_detached r = is_detached e"
      "if pre e then thread_id r \<noteq> 0 \<and> own e \<notin> R else own e \<in> R"
      using ok by (auto simp: thread_ok_def own_ok_def)
    obtain r' where "h' (own e) = Some r'" "thread_id r' = thread_id r" "sys_thread r' = sys_thread r"
      "th_detached r' = th_detached r"
      using view_eqD [of h' "own e" h r] r(1) same [of "own e"] False by blast
    moreover have "own e \<in> R' \<longleftrightarrow> own e \<in> R" using same [of "own e"] False by blast
    ultimately show ?thesis using r ok nr by (auto simp: thread_ok_def own_ok_def)
  qed
  have rec: "\<exists>r'. h' a = Some r' \<and> sys_thread r' = 0 \<and> (thread_id r \<noteq> 0 \<longrightarrow> thread_id r' \<noteq> 0)"
    if "a \<in> needs e" "h a = Some r" "sys_thread r = 0" for a r
    using view_eqD [of h' a h r] same [of a] that by fastforce
  have guard: "guard_ok h' R' w' e g" if "guard_ok h R w e g" "pc e = Enter g \<or> pc e = Inside g" for g
  proof (cases g)
    case (New_Id a nm det)
    then have "a \<in> needs e" using that(2) by (auto simp: needs_def)
    then show ?thesis using New_Id that(1) rec by (fastforce simp: guard_ok_def)
  next
    case (Remove a dies)
    then have "dies \<or> a \<in> needs e" using that(2) by (auto simp: needs_def split: bool.splits)
    then show ?thesis using Remove that(1) same [of a] rem [of a] by (auto simp: guard_ok_def)
  qed (use that in \<open>simp_all add: guard_ok_def\<close>)
  have plain: "plain_ok h' e c" if "plain_ok h e c" "pc e = c \<or> pc e = Leave c" for c
  proof (cases c)
    case (Spawn a nm det)
    then have "a \<in> needs e" using that(2) by (auto simp: needs_def)
    then show ?thesis using Spawn that(1) rec by (fastforce simp: plain_ok_def)
  qed (use that in \<open>simp_all add: plain_ok_def\<close>)
  have "pc_ok h' R' w' e"
    using ok guard plain wait unfolding thread_ok_def
    by (cases "pc e") (auto simp: pc_ok_def)
  then show ?thesis using ok own ev by (auto simp: thread_ok_def)
qed

lemma inv_update:
  assumes inv: "threads_inv st ks" and s: "thr st s = Some e"
    and own: "own e' = own e" "is_detached e' = is_detached e"
    and thr': "thr st' = (thr st)(s \<mapsto> e')"
    and tree: "tree_ok (threadtree st') ks'"
    and heap: "heap_ok (thread_heap st') (next_record st') (next_thread_id st') (ever st') ks'"
    and nr: "next_record st \<le> next_record st'" and ev: "ever st' = ever st"
    and ok: "thread_ok (thread_heap st') (registered ks') (next_record st') (ever st') (who st) s e'"
    and frame: "\<And>a. a \<notin> X \<Longrightarrow> view (thread_heap st') a = view (thread_heap st) a \<and>
      (a \<in> registered ks' \<longleftrightarrow> a \<in> registered ks)"
    and X: "\<And>t f a. t \<noteq> s \<Longrightarrow> thr st t = Some f \<Longrightarrow> a \<in> X \<Longrightarrow> a \<notin> needs f \<and> a \<noteq> own f"
    and tok: "\<And>t f. t \<noteq> s \<Longrightarrow> thr st t = Some f \<Longrightarrow> tokens e' \<inter> tokens f = {}"
    and J: "joinable st' \<subseteq> joinable st" "tokens e' \<inter> joinable st' = {}"
    and m: "holds e' \<longleftrightarrow> tree_mutex st' = Some s"
      "\<And>t. t \<noteq> s \<Longrightarrow> tree_mutex st' = Some t \<longleftrightarrow> tree_mutex st = Some t"
  shows "threads_inv st' ks'"
proof -
  have who: "who st' = who st" using s own thr' by (auto simp: who_def fun_eq_iff)
  have thr_cases: "t = s \<and> f = e' \<or> t \<noteq> s \<and> thr st t = Some f" if "thr st' t = Some f" for t f
    using that thr' by (auto split: if_split_asm)
  have others: "thread_ok (thread_heap st') (registered ks') (next_record st') (ever st') (who st) t f"
    if t: "t \<noteq> s" "thr st t = Some f" for t f
  proof (rule thread_ok_frame [OF invD(3) [OF inv t(2)] nr])
    show "view (thread_heap st') a = view (thread_heap st) a \<and> (a \<in> registered ks' \<longleftrightarrow> a \<in> registered ks)"
      if "a \<in> needs f \<or> a = own f" for a
      using that X [OF t] frame by blast
    show "b \<notin> registered ks" if "b \<in> needs f" "who st u = Some (b, d)" for b u d
      using invD(3) [OF inv t(2)] invD(2) [OF inv] that
      by (auto simp: thread_ok_def pc_ok_def guard_ok_def plain_ok_def needs_def heap_ok_def registered_def
          split: pc.splits guarded.splits bool.splits)
  qed (use ev in auto)
  have apart: "apart g f" if "t \<noteq> s" "thr st t = Some f" "g = e'" for t f g
    using invD(4) [OF inv s that(2)] that tok [OF that(1,2)] own(1) by (auto simp: apart_def)
  show ?thesis
    unfolding threads_inv_def who
  proof (intro conjI allI impI ballI)
    show "tree_ok (threadtree st') ks'" by (rule tree)
    show "heap_ok (thread_heap st') (next_record st') (next_thread_id st') (ever st') ks'" by (rule heap)
    fix t f assume t: "thr st' t = Some f"
    show "thread_ok (thread_heap st') (registered ks') (next_record st') (ever st') (who st) t f"
      using thr_cases [OF t] ok others by blast
    show "tokens f \<inter> joinable st' = {}"
      using thr_cases [OF t] J invD(5) [OF inv, of t f] by blast
    show "holds f \<longleftrightarrow> tree_mutex st' = Some t"
      using thr_cases [OF t] m invD(7) [OF inv, of t f] by blast
    fix u g assume u: "thr st' u = Some g" "t \<noteq> u"
    show "apart f g"
      using thr_cases [OF t] thr_cases [OF u(1)] apart u(2) invD(4) [OF inv]
      by (metis apart_def inf_commute)
  next
    fix b assume "b \<in> joinable st'"
    then show "\<exists>t. who st t = Some (b, False)" using invD(6) [OF inv] J(1) by blast
  next
    fix t assume "tree_mutex st' = Some t"
    then show "thr st' t \<noteq> None" using m(2) [of t] invD(8) [OF inv, of t] thr' by (cases "t = s") auto
  qed
qed

subsection \<open>What no other thread relies on\<close>

lemma needs_record:
  assumes inv: "threads_inv st ks" and t: "thr st t = Some f" and a: "a \<in> needs f"
  shows "\<exists>r. thread_heap st a = Some r \<and>
    (sys_thread r = 0 \<or> a \<in> registered ks \<and> (\<forall>u d. who st u \<noteq> Some (a, d)))"
proof -
  have "pc_ok (thread_heap st) (registered ks) (who st) f"
    using invD(3) [OF inv t] by (simp add: thread_ok_def)
  from needs_pc_ok [OF this a] show ?thesis
  proof
    assume "a \<in> registered ks \<and> (\<forall>u d. who st u \<noteq> Some (a, d))"
    moreover from this have "\<exists>r. thread_heap st a = Some r"
      using invD(2) [OF inv] by (auto simp: heap_ok_def registered_def)
    ultimately show ?thesis by blast
  qed blast
qed

lemma own_record:
  assumes inv: "threads_inv st ks" and t: "thr st t = Some f" and ng: "\<not> gone f"
  shows "\<exists>r. thread_heap st (own f) = Some r \<and> sys_thread r = t \<and> th_detached r = is_detached f \<and> t \<noteq> 0 \<and>
    (if pre f then thread_id r \<noteq> 0 \<and> own f \<notin> registered ks else own f \<in> registered ks)"
  using invD(3) [OF inv t] ng unfolding thread_ok_def own_ok_def by blast

lemma who_own: "thr st t = Some f \<Longrightarrow> who st t = Some (own f, is_detached f)"
  by (simp add: who_def)

lemma own_not_needed:
  assumes inv: "threads_inv st ks" and t: "thr st t = Some f" and u: "thr st u = Some g"
  shows "own f \<notin> needs g"
proof (cases "gone f")
  case True
  then have "thread_heap st (own f) = None" using invD(3) [OF inv t] by (simp add: thread_ok_def own_ok_def)
  then show ?thesis using needs_record [OF inv u] by fastforce
next
  case False
  then show ?thesis using needs_record [OF inv u] own_record [OF inv t] who_own [OF t] by fastforce
qed

lemma needed_not_needed:
  assumes inv: "threads_inv st ks" and s: "thr st s = Some e" and a: "a \<in> needs e"
    and t: "t \<noteq> s" "thr st t = Some f"
  shows "a \<notin> needs f \<and> a \<noteq> own f"
proof
  have "tokens e \<inter> tokens f = {}" using invD(4) [OF inv s t(2)] t(1) by (auto simp: apart_def)
  then show "a \<notin> needs f" using a needs_token [of e] needs_token [of f] by blast
  show "a \<noteq> own f" using own_not_needed [OF inv t(2) s] a by blast
qed

lemma own_alone:
  assumes inv: "threads_inv st ks" and s: "thr st s = Some e"
    and t: "t \<noteq> s" "thr st t = Some f"
  shows "own e \<notin> needs f \<and> own e \<noteq> own f"
  using own_not_needed [OF inv s t(2)] invD(4) [OF inv s t(2)] t(1) by (auto simp: apart_def)

lemma fresh_not_needed:
  assumes inv: "threads_inv st ks" and a: "next_record st \<le> a" and t: "thr st t = Some f"
  shows "a \<notin> needs f \<and> a \<noteq> own f"
proof -
  have "thread_heap st a \<noteq> None \<Longrightarrow> a < next_record st" using invD(2) [OF inv] by (simp add: heap_ok_def)
  then have "a \<notin> needs f" using needs_record [OF inv t, of a] a by auto
  moreover have "own f < next_record st" using invD(3) [OF inv t] by (simp add: thread_ok_def own_ok_def)
  ultimately show ?thesis using a by auto
qed

end
