(* ===== verification/Thread_Steps.thy ===== *)
theory Thread_Steps
  imports Thread_Inv
begin

section \<open>Steps that change only the thread and the mutex\<close>

text \<open>Taking and releasing the mutex, and the moves of a thread between the sections.\<close>

lemma own_ok_pc:
  assumes "own_ok h R nr s e" and "own e' = own e" "is_detached e' = is_detached e"
    and "gone e' = gone e" and "pre e' = pre e"
  shows "own_ok h R nr s e'"
  using assms unfolding own_ok_def by auto

lemma set_pc_Some: "thr st s = Some e \<Longrightarrow> set_pc s c st = st\<lparr>thr := (thr st)(s \<mapsto> e\<lparr>pc := c\<rparr>)\<rparr>"
  by (simp add: set_pc_def)

lemma set_pc_mutex: "thr st s = Some e \<Longrightarrow> set_pc s c (st\<lparr>tree_mutex := m\<rparr>) =
    st\<lparr>thr := (thr st)(s \<mapsto> e\<lparr>pc := c\<rparr>), tree_mutex := m\<rparr>"
  by (cases st) (simp add: set_pc_def)

lemma inv_pc:
  assumes inv: "threads_inv st ks" and s: "thr st s = Some e"
    and own: "own e' = own e" "is_detached e' = is_detached e"
    and gone: "gone e' = gone e" and pre: "pre e' = pre e"
    and ok: "pc_ok (thread_heap st) (registered ks) (who st) e'" and tok: "tokens e' \<subseteq> tokens e"
    and m: "holds e' \<longleftrightarrow> m' = Some s" "\<And>t. t \<noteq> s \<Longrightarrow> m' = Some t \<longleftrightarrow> tree_mutex st = Some t"
  shows "threads_inv (st\<lparr>thr := (thr st)(s \<mapsto> e'), tree_mutex := m'\<rparr>) ks"
proof (rule inv_update [OF inv s own, where X = "{}"])
  have "thread_ok (thread_heap st) (registered ks) (next_record st) (ever st) (who st) s e"
    by (rule invD(3) [OF inv s])
  then show "thread_ok (thread_heap (st\<lparr>thr := (thr st)(s \<mapsto> e'), tree_mutex := m'\<rparr>)) (registered ks)
      (next_record (st\<lparr>thr := (thr st)(s \<mapsto> e'), tree_mutex := m'\<rparr>))
      (ever (st\<lparr>thr := (thr st)(s \<mapsto> e'), tree_mutex := m'\<rparr>)) (who st) s e'"
    using own_ok_pc [OF _ own gone pre] ok by (simp add: thread_ok_def)
  show "tokens e' \<inter> tokens f = {}" if "t \<noteq> s" "thr st t = Some f" for t f
    using invD(4) [OF inv s that(2)] that(1) tok by (auto simp: apart_def)
  show "tokens e' \<inter> joinable (st\<lparr>thr := (thr st)(s \<mapsto> e'), tree_mutex := m'\<rparr>) = {}"
    using invD(5) [OF inv s] tok by auto
qed (use invD(1,2) [OF inv] m in simp_all)

lemmas pc_defs = gone_def pre_def holds_def tokens_def pc_token_def pc_ok_def guard_ok_def plain_ok_def

lemma inv_set_pc:
  assumes inv: "threads_inv st ks" and s: "thr st s = Some e" and work: "\<not> holds e"
    and gone: "gone (e\<lparr>pc := c\<rparr>) = gone e" and pre: "pre (e\<lparr>pc := c\<rparr>) = pre e"
    and ok: "pc_ok (thread_heap st) (registered ks) (who st) (e\<lparr>pc := c\<rparr>)"
    and tok: "tokens (e\<lparr>pc := c\<rparr>) \<subseteq> tokens e" and h: "\<not> holds (e\<lparr>pc := c\<rparr>)"
  shows "threads_inv (set_pc s c st) ks"
proof -
  have "tree_mutex st \<noteq> Some s" using invD(7) [OF inv s] work by simp
  then have "threads_inv (st\<lparr>thr := (thr st)(s \<mapsto> e\<lparr>pc := c\<rparr>), tree_mutex := tree_mutex st\<rparr>) ks"
    using h by (intro inv_pc [OF inv s _ _ gone pre ok tok]) simp_all
  then show ?thesis by (simp add: set_pc_Some [OF s])
qed

subsection \<open>Taking and releasing the mutex\<close>

lemma enter_step:
  assumes inv: "threads_inv st ks" and s: "thr st s = Some e" and pc: "pc e = Enter g" and free: "tree_mutex st = None"
  shows "threads_inv (set_pc s (Inside g) (st\<lparr>tree_mutex := Some s\<rparr>)) ks"
proof -
  have "pc_ok (thread_heap st) (registered ks) (who st) e"
    using invD(3) [OF inv s] by (simp add: thread_ok_def)
  then have "threads_inv (st\<lparr>thr := (thr st)(s \<mapsto> e\<lparr>pc := Inside g\<rparr>), tree_mutex := Some s\<rparr>) ks"
    using pc free by (intro inv_pc [OF inv s]) (auto simp: pc_defs split: guarded.splits)
  then show ?thesis by (simp add: set_pc_mutex [OF s])
qed

lemma leave_step:
  assumes inv: "threads_inv st ks" and s: "thr st s = Some e" and pc: "pc e = Leave c"
  shows "threads_inv (set_pc s c (st\<lparr>tree_mutex := None\<rparr>)) ks"
proof -
  have ok: "pc_ok (thread_heap st) (registered ks) (who st) e"
    using invD(3) [OF inv s] by (simp add: thread_ok_def)
  have "tree_mutex st = Some s" using invD(7) [OF inv s] pc by (simp add: holds_def)
  then have "threads_inv (st\<lparr>thr := (thr st)(s \<mapsto> e\<lparr>pc := c\<rparr>), tree_mutex := None\<rparr>) ks"
    using pc ok by (intro inv_pc [OF inv s]) (cases c; auto simp: pc_defs)+
  then show ?thesis by (simp add: set_pc_mutex [OF s])
qed

subsection \<open>Steps between the sections\<close>

lemma find_self_step:
  assumes "threads_inv st ks" and "thr st s = Some e" and "pc e = Work"
  shows "threads_inv (set_pc s (Enter (Find_Self r)) st) ks"
  using assms by (intro inv_set_pc) (auto simp: pc_defs)

lemma finish_step:
  assumes inv: "threads_inv st ks" and s: "thr st s = Some e" and pc: "pc e = Work \<or> pc e = Got_Self p r"
  shows "\<exists>th. thread_heap st (own e) = Some th \<and>
    threads_inv (set_pc s (if th_detached th then Enter (Remove (own e) True) else Die) st) ks"
proof -
  have "\<not> gone e" using pc by (auto simp: gone_def)
  from own_record [OF inv s this] obtain th where th: "thread_heap st (own e) = Some th"
    "th_detached th = is_detached e" by blast
  have "threads_inv (set_pc s (if is_detached e then Enter (Remove (own e) True) else Die) st) ks"
    using pc by (intro inv_set_pc [OF inv s]) (auto simp: pc_defs)
  then show ?thesis using th by auto
qed

lemma observe_step:
  assumes inv: "threads_inv st ks" and s: "thr st s = Some e" and pc: "pc e = Got_Self p r"
  shows "threads_inv (st\<lparr>thr := (thr st)(s \<mapsto> e\<lparr>pc := Work, observed := q\<rparr>)\<rparr>) ks"
proof -
  have "tree_mutex st \<noteq> Some s" using invD(7) [OF inv s] pc by (simp add: holds_def)
  then have "threads_inv (st\<lparr>thr := (thr st)(s \<mapsto> e\<lparr>pc := Work, observed := q\<rparr>), tree_mutex := tree_mutex st\<rparr>) ks"
    using pc by (intro inv_pc [OF inv s]) (auto simp: pc_defs)
  then show ?thesis by simp
qed

lemma die_attached_step:
  assumes "threads_inv st ks" and "thr st s = Some e" and "pc e = Die" and "\<not> is_detached e"
  shows "threads_inv (set_pc s Zombie st) ks"
  using assms by (intro inv_set_pc) (auto simp: pc_defs)

end
