(* ===== verification/Thread_Heap.thy ===== *)
theory Thread_Heap
  imports Thread_Steps
begin

section \<open>Steps that change records or the tree\<close>

text \<open>
  Creation of a record, the identifier, insertion and removal, renaming. \<open>heap_ok_upd\<close> and
  \<open>heap_ok_free\<close> say when a changed heap is still a good one.
\<close>

lemma heap_okD:
  assumes "heap_ok h nr ni ev ks"
  shows "1 \<le> ni"
    and "h a = Some r \<Longrightarrow> a < nr"
    and "h a = Some r \<Longrightarrow> thread_id r < ni"
    and "h a = Some r \<Longrightarrow> sys_thread r = 0 \<or> sys_thread r \<in> ev"
    and "h a = Some r \<Longrightarrow> h b = Some q \<Longrightarrow> thread_id r = thread_id q \<Longrightarrow> thread_id r \<noteq> 0 \<Longrightarrow> a = b"
    and "h a = Some r \<Longrightarrow> h b = Some q \<Longrightarrow> sys_thread r = sys_thread q \<Longrightarrow> sys_thread r \<noteq> 0 \<Longrightarrow> a = b"
    and "k \<in> set ks \<Longrightarrow> \<exists>r. h (snd k) = Some r \<and> thread_id r = fst k \<and> sys_thread r \<noteq> 0"
  using assms unfolding heap_ok_def by blast+

lemma heap_ok_upd:
  assumes ok: "heap_ok h nr ni ev ks" and "a < nr'" and "nr \<le> nr'" and "ni \<le> ni'" and "ev \<subseteq> ev'"
    and "thread_id r' < ni'" and "sys_thread r' = 0 \<or> sys_thread r' \<in> ev'"
    and id: "\<And>b q. b \<noteq> a \<Longrightarrow> h b = Some q \<Longrightarrow> thread_id r' \<noteq> 0 \<Longrightarrow> thread_id q \<noteq> thread_id r'"
    and sys: "\<And>b q. b \<noteq> a \<Longrightarrow> h b = Some q \<Longrightarrow> sys_thread r' \<noteq> 0 \<Longrightarrow> sys_thread q \<noteq> sys_thread r'"
    and old: "\<And>k. k \<in> set ks' \<Longrightarrow> snd k \<noteq> a \<Longrightarrow> k \<in> set ks"
    and new: "\<And>k. k \<in> set ks' \<Longrightarrow> snd k = a \<Longrightarrow> thread_id r' = fst k \<and> sys_thread r' \<noteq> 0"
  shows "heap_ok (h(a \<mapsto> r')) nr' ni' ev' ks'"
  unfolding heap_ok_def
proof (intro conjI allI impI ballI)
  note D = heap_okD [OF ok]
  show "1 \<le> ni'" using D(1) assms(4) by simp
  fix b assume b: "(h(a \<mapsto> r')) b \<noteq> None"
  show "b < nr'"
  proof (cases "b = a")
    case False
    then obtain r where "h b = Some r" using b by auto
    then show ?thesis using D(2) [of b r] assms(3) by simp
  qed (use assms(2) in simp)
next
  note D = heap_okD [OF ok]
  fix b r assume b: "(h(a \<mapsto> r')) b = Some r"
  show "thread_id r < ni'" using b D(3) [of b r] assms(4,6) by (auto split: if_split_asm)
  show "sys_thread r = 0 \<or> sys_thread r \<in> ev'" using b D(4) [of b r] assms(5,7) by (auto split: if_split_asm)
  fix c q assume c: "(h(a \<mapsto> r')) c = Some q"
  show "b = c" if "thread_id r = thread_id q" "thread_id r \<noteq> 0"
  proof (cases "b = a \<or> c = a")
    case True
    then show ?thesis using b c that id [of b r] id [of c q] by (auto split: if_split_asm)
  next
    case False
    then show ?thesis using b c that D(5) [of b r c q] by simp
  qed
  show "b = c" if "sys_thread r = sys_thread q" "sys_thread r \<noteq> 0"
  proof (cases "b = a \<or> c = a")
    case True
    then show ?thesis using b c that sys [of b r] sys [of c q] by (auto split: if_split_asm)
  next
    case False
    then show ?thesis using b c that D(6) [of b r c q] by simp
  qed
next
  fix k assume "k \<in> set ks'"
  then show "\<exists>r. (h(a \<mapsto> r')) (snd k) = Some r \<and> thread_id r = fst k \<and> sys_thread r \<noteq> 0"
    using new [of k] old [of k] heap_okD(7) [OF ok, of k] by (cases "snd k = a") auto
qed

lemma heap_ok_free:
  assumes ok: "heap_ok h nr ni ev ks" and ks': "\<And>k. k \<in> set ks' \<Longrightarrow> k \<in> set ks \<and> snd k \<noteq> a"
  shows "heap_ok (h(a := None)) nr ni ev ks'"
  unfolding heap_ok_def
proof (intro conjI allI impI ballI)
  note D = heap_okD [OF ok]
  show "1 \<le> ni" by (rule D(1))
  fix b assume b: "(h(a := None)) b \<noteq> None"
  then obtain r where "h b = Some r" by (auto split: if_split_asm)
  then show "b < nr" using D(2) [of b r] by simp
next
  note D = heap_okD [OF ok]
  fix b r assume b: "(h(a := None)) b = Some r"
  then have hb: "h b = Some r" by (auto split: if_split_asm)
  show "thread_id r < ni" using D(3) [OF hb] .
  show "sys_thread r = 0 \<or> sys_thread r \<in> ev" using D(4) [OF hb] .
  fix c q assume "(h(a := None)) c = Some q"
  then have hc: "h c = Some q" by (auto split: if_split_asm)
  show "b = c" if "thread_id r = thread_id q" "thread_id r \<noteq> 0" using D(5) [OF hb hc that] .
  show "b = c" if "sys_thread r = sys_thread q" "sys_thread r \<noteq> 0" using D(6) [OF hb hc that] .
next
  fix k assume "k \<in> set ks'"
  then show "\<exists>r. (h(a := None)) (snd k) = Some r \<and> thread_id r = fst k \<and> sys_thread r \<noteq> 0"
    using ks' [of k] heap_okD(7) [OF ok, of k] by auto
qed

lemma registered_record:
  "heap_ok h nr ni ev ks \<Longrightarrow> a \<in> registered ks \<Longrightarrow> \<exists>r. h a = Some r \<and> sys_thread r \<noteq> 0 \<and> (thread_id r, a) \<in> set ks"
  using heap_okD(7) by (fastforce simp: registered_def)

lemma pc_own_frame:
  assumes "own_ok h R nr s e" and "nr \<le> nr'" and "view h' (own e) = view h (own e)"
    and "\<not> gone e \<Longrightarrow> own e \<in> R' \<longleftrightarrow> own e \<in> R" and "own e' = own e" and "is_detached e' = is_detached e"
    and "gone e' = gone e" and "pre e' = pre e"
  shows "own_ok h' R' nr' s e'"
proof (cases "gone e")
  case True
  then show ?thesis using assms by (simp add: own_ok_def view_def)
next
  case False
  then obtain r where r: "h (own e) = Some r" "sys_thread r = s" "th_detached r = is_detached e"
    "if pre e then thread_id r \<noteq> 0 \<and> own e \<notin> R else own e \<in> R"
    using assms(1) by (auto simp: own_ok_def)
  obtain r' where "h' (own e) = Some r'" "thread_id r' = thread_id r" "sys_thread r' = sys_thread r"
    "th_detached r' = th_detached r" using view_eqD [OF assms(3) r(1)] by blast
  then show ?thesis using r assms False by (auto simp: own_ok_def)
qed

lemma mutex_other:
  assumes "threads_inv st ks" and "thr st s = Some e"
  shows "(\<not> holds e \<longrightarrow> tree_mutex st \<noteq> Some s) \<and> (holds e \<longrightarrow> tree_mutex st = Some s)"
  using invD(7) [OF assms] by blast

lemma thread_okD:
  assumes "threads_inv st ks" and "thr st s = Some e"
  shows "own_ok (thread_heap st) (registered ks) (next_record st) s e"
    and "pc_ok (thread_heap st) (registered ks) (who st) e" and "s \<noteq> 0" and "s \<in> ever st"
  using invD(3) [OF assms] by (simp_all add: thread_ok_def)

lemma fewer_tokens:
  assumes inv: "threads_inv st ks" and s: "thr st s = Some e" and tok: "tokens e' \<subseteq> tokens e"
  shows "t \<noteq> s \<Longrightarrow> thr st t = Some f \<Longrightarrow> tokens e' \<inter> tokens f = {}" and "tokens e' \<inter> joinable st = {}"
  using invD(4) [OF inv s, of t f] invD(5) [OF inv s] tok by (auto simp: apart_def)

subsection \<open>Creation\<close>

lemma fresh_token:
  assumes inv: "threads_inv st ks" and a: "next_record st \<le> a"
  shows "thr st t = Some f \<Longrightarrow> a \<notin> tokens f" and "a \<notin> joinable st"
proof -
  have less: "own g < next_record st" if "thr st u = Some g" for u g
    using thread_okD(1) [OF inv that] by (simp add: own_ok_def)
  have nowho: "who st u \<noteq> Some (a, d)" for u d using less a by (fastforce simp: who_def)
  show "a \<notin> joinable st" using invD(6) [OF inv, of a] nowho by auto
  assume t: "thr st t = Some f"
  have "a \<notin> needs f" "a \<noteq> own f" using fresh_not_needed [OF inv a t] by auto
  moreover have "pc f \<noteq> Wait_Join a u" for u
    using thread_okD(2) [OF inv t] nowho [of u False] by (auto simp: pc_ok_def)
  ultimately show "a \<notin> tokens f"
    by (auto simp: tokens_def pc_token_def needs_def split: pc.splits guarded.splits bool.splits if_split_asm)
qed

lemma create_step:
  assumes inv: "threads_inv st ks" and s: "thr st s = Some e" and pc: "pc e = Work"
  shows "threads_inv (thread_create_begin s nm fl ln det st) ks"
proof -
  let ?a = "next_record st"
  let ?r = "\<lparr>thread_id = 0, th_name = None, th_file = Some fl, th_line = ln, th_detached = False, sys_thread = 0\<rparr>"
  let ?e = "e\<lparr>pc := Enter (New_Id ?a nm det)\<rparr>"
  let ?st = "st\<lparr>thread_heap := (thread_heap st)(?a \<mapsto> ?r), next_record := Suc ?a, thr := (thr st)(s \<mapsto> ?e)\<rparr>"
  have heap: "heap_ok (thread_heap st) ?a (next_thread_id st) (ever st) ks" by (rule invD(2) [OF inv])
  from heap_okD(2) [OF this, of ?a] have fresh: "thread_heap st ?a = None"
    by (cases "thread_heap st ?a") auto
  have nreg: "?a \<notin> registered ks" using registered_record [OF heap, of ?a] fresh by auto
  have heap': "heap_ok ((thread_heap st)(?a \<mapsto> ?r)) (Suc ?a) (next_thread_id st) (ever st) ks"
    using heap_okD(1) [OF heap] nreg
    by (intro heap_ok_upd [OF heap]) (auto simp: registered_def image_iff)
  have "own e < ?a" using thread_okD(1) [OF inv s] by (simp add: own_ok_def)
  then have "own_ok ((thread_heap st)(?a \<mapsto> ?r)) (registered ks) (Suc ?a) s ?e"
    using pc by - (rule pc_own_frame [OF thread_okD(1) [OF inv s]], simp_all add: view_def gone_def pre_def)
  then have ok': "thread_ok ((thread_heap st)(?a \<mapsto> ?r)) (registered ks) (Suc ?a) (ever st) (who st) s ?e"
    using thread_okD(3,4) [OF inv s] by (simp add: thread_ok_def pc_ok_def guard_ok_def)
  have tok: "tokens ?e \<subseteq> insert ?a (tokens e)" using pc by (auto simp: tokens_def pc_token_def gone_def)
  have "threads_inv ?st ks"
  proof (rule inv_update [OF inv s, where X = "{?a}" and e' = ?e])
    show "b \<notin> needs f \<and> b \<noteq> own f" if "t \<noteq> s" "thr st t = Some f" "b \<in> {?a}" for t f b
      using fresh_not_needed [OF inv _ that(2), of b] that(3) by simp
    show "tokens ?e \<inter> tokens f = {}" if "t \<noteq> s" "thr st t = Some f" for t f
      using fewer_tokens(1) [OF inv s subset_refl that] fresh_token(1) [OF inv order_refl that(2)] tok by blast
    show "tokens ?e \<inter> joinable ?st = {}"
      using fewer_tokens(2) [OF inv s subset_refl] fresh_token(2) [OF inv order_refl] tok by auto
  qed (use ok' heap' invD(1) [OF inv] mutex_other [OF inv s] pc in \<open>simp_all add: holds_def view_def\<close>)
  moreover have "thread_create_begin s nm fl ln det st = ?st"
    using s by (cases st) (simp add: thread_create_begin_def set_pc_def set_record_def Let_def)
  ultimately show ?thesis by simp
qed

lemma take_id_step:
  assumes inv: "threads_inv st ks" and s: "thr st s = Some e" and pc: "pc e = Inside (New_Id a nm det)"
  shows "\<exists>st'. take_id a st = Some st' \<and> threads_inv (set_pc s (Leave (Spawn a nm det)) st') ks"
proof -
  obtain r where r: "thread_heap st a = Some r" "sys_thread r = 0"
    using thread_okD(2) [OF inv s] pc by (auto simp: pc_ok_def guard_ok_def)
  have heap: "heap_ok (thread_heap st) (next_record st) (next_thread_id st) (ever st) ks"
    by (rule invD(2) [OF inv])
  let ?r = "r\<lparr>thread_id := next_thread_id st\<rparr>" and ?e = "e\<lparr>pc := Leave (Spawn a nm det)\<rparr>"
  let ?h = "(thread_heap st)(a \<mapsto> ?r)" and ?ni = "next_thread_id st + 1"
  let ?st = "st\<lparr>thread_heap := ?h, next_thread_id := ?ni, thr := (thr st)(s \<mapsto> ?e)\<rparr>"
  have pos: "next_thread_id st \<noteq> 0" using heap_okD(1) [OF heap] by simp
  have nreg: "a \<notin> registered ks" using registered_record [OF heap, of a] r by auto
  have less: "thread_id q \<noteq> next_thread_id st" if "thread_heap st b = Some q" for b q
    using heap_okD(3) [OF heap that] by simp
  have heap': "heap_ok ?h (next_record st) ?ni (ever st) ks"
    using heap_okD(2) [OF heap r(1)] less nreg r(2)
    by (intro heap_ok_upd [OF heap]) (auto simp: registered_def image_iff)
  have ng: "\<not> gone e" "\<not> pre e" using pc by (auto simp: gone_def pre_def)
  have own_a: "own e \<noteq> a" using own_record [OF inv s ng(1)] ng(2) nreg by auto
  then have "own_ok ?h (registered ks) (next_record st) s ?e"
    using pc by - (rule pc_own_frame [OF thread_okD(1) [OF inv s]], simp_all add: view_def gone_def pre_def)
  then have ok': "thread_ok ?h (registered ks) (next_record st) (ever st) (who st) s ?e"
    using thread_okD(3,4) [OF inv s] r(2) pos by (simp add: thread_ok_def pc_ok_def plain_ok_def)
  have a: "a \<in> needs e" using pc by (simp add: needs_def)
  have tok: "tokens ?e \<subseteq> tokens e" using pc by (auto simp: tokens_def pc_token_def gone_def)
  have "threads_inv ?st ks"
  proof (rule inv_update [OF inv s, where X = "{a}" and e' = ?e])
    show "b \<notin> needs f \<and> b \<noteq> own f" if "t \<noteq> s" "thr st t = Some f" "b \<in> {a}" for t f b
      using needed_not_needed [OF inv s a that(1,2)] that(3) by simp
    show "tokens ?e \<inter> tokens f = {}" if "t \<noteq> s" "thr st t = Some f" for t f
      by (rule fewer_tokens(1) [OF inv s tok that])
    show "tokens ?e \<inter> joinable ?st = {}" using fewer_tokens(2) [OF inv s tok] by simp
  qed (use ok' heap' invD(1) [OF inv] mutex_other [OF inv s] pc in \<open>simp_all add: holds_def view_def\<close>)
  moreover have "set_pc s (Leave (Spawn a nm det)) ((set_record a (Some ?r) st)\<lparr>next_thread_id := ?ni\<rparr>) = ?st"
    using s by (cases st) (simp add: set_pc_def set_record_def)
  ultimately show ?thesis using r by (auto simp: take_id_def)
qed

subsection \<open>The tree through its contract\<close>

lemma tree_insert:
  assumes "tree_ok t ks" and "\<forall>k \<in> set ks. fst k \<noteq> fst x"
  shows "\<exists>t' ks'. avl_insert t x = Some (0, t') \<and> tree_ok t' ks' \<and> set ks' = insert x (set ks)"
proof -
  have strict: "strict_by compare_threads ks" and rep: "avl_rep compare_threads t ks"
    using assms(1) by (auto simp: tree_ok_def)
  obtain t' where "avl_insert t x = Some (0, t')" "avl_rep compare_threads t' (ins_by compare_threads x ks)"
    using thread_order.avl.ins_ok [OF rep thread_order.strict_sorted [OF strict], of x] by blast
  moreover have "strict_by compare_threads (ins_by compare_threads x ks)"
    using assms(2) by (intro thread_order.strict_ins [OF strict]) auto
  ultimately show ?thesis by (auto simp: tree_ok_def set_ins_by intro!: exI [of _ "ins_by compare_threads x ks"])
qed

lemma tree_delete:
  assumes "tree_ok t ks" and "x \<in> set ks"
  shows "\<exists>t' ks'. avl_delete t x = Some (0, [x], t') \<and> tree_ok t' ks' \<and> set ks' = set ks - {x}"
proof -
  have strict: "strict_by compare_threads ks" and rep: "avl_rep compare_threads t ks"
    using assms(1) by (auto simp: tree_ok_def)
  have "\<exists>k \<in> set ks. compare_threads x k = 0" using assms(2) by (intro bexI [of _ x]) simp_all
  from thread_order.avl.del_hit [OF rep thread_order.strict_sorted [OF strict] this]
  obtain k t' xs ys where d: "avl_delete t x = Some (0, [k], t')" "avl_rep compare_threads t' (xs @ ys)"
    "ks = xs @ k # ys" "compare_threads x k = 0" by blast
  have less: "compare_threads a k < 0" if "a \<in> set xs" for a
    using strict that d(3) by (auto simp: thread_order.strict_by_append)
  have more: "compare_threads k a < 0" if "a \<in> set ys" for a
    using strict that d(3) by (auto simp: thread_order.strict_by_append thread_order.strict_by_Cons)
  have "x = k" using assms(2) d(3,4) less [of x] more [of x] by (auto simp: compare_threads_def split: if_split_asm)
  moreover have "k \<notin> set xs" "k \<notin> set ys" using less [of k] more [of k] by auto
  moreover have "strict_by compare_threads (xs @ ys)"
    using strict unfolding d(3) strict_by_def by (auto simp: sorted_wrt_append)
  ultimately show ?thesis using d by (auto simp: tree_ok_def intro!: exI [of _ "xs @ ys"])
qed

subsection \<open>Insertion and removal\<close>

lemma insert_step:
  assumes inv: "threads_inv st ks" and s: "thr st s = Some e" and pc: "pc e = Inside (Insert a)"
  shows "\<exists>st' ks'. insert_self s a st = Some st' \<and> threads_inv (set_pc s (Leave Work) st') ks'"
proof -
  have a: "a = own e" using thread_okD(2) [OF inv s] pc by (simp add: pc_ok_def guard_ok_def)
  have ng: "\<not> gone e" "pre e" using pc a by (auto simp: gone_def pre_def)
  from own_record [OF inv s ng(1)] ng(2) obtain r where r: "thread_heap st (own e) = Some r"
    "sys_thread r = s" "th_detached r = is_detached e" "s \<noteq> 0" "thread_id r \<noteq> 0" "own e \<notin> registered ks" by auto
  note heap = invD(2) [OF inv]
  have new: "\<forall>k \<in> set ks. fst k \<noteq> thread_id r"
  proof
    fix k assume k: "k \<in> set ks"
    then obtain q where q: "thread_heap st (snd k) = Some q" "thread_id q = fst k" using heap_okD(7) [OF heap] by blast
    show "fst k \<noteq> thread_id r"
    proof
      assume "fst k = thread_id r"
      then have "snd k = own e" using heap_okD(5) [OF heap q(1) r(1)] q(2) r(5) by simp
      then show False using k r(6) by (force simp: registered_def)
    qed
  qed
  then obtain t' ks' where t': "avl_insert (threadtree st) (thread_id r, own e) = Some (0, t')" "tree_ok t' ks'"
    "set ks' = insert (thread_id r, own e) (set ks)"
    using tree_insert [OF invD(1) [OF inv], of "(thread_id r, own e)"] by auto
  let ?e = "e\<lparr>pc := Leave Work\<rparr>"
  let ?st = "st\<lparr>threadtree := t', thr := (thr st)(s \<mapsto> ?e)\<rparr>"
  have reg: "registered ks' = insert (own e) (registered ks)" using t'(3) by (simp add: registered_def)
  have heap': "heap_ok (thread_heap st) (next_record st) (next_thread_id st) (ever st) ks'"
    using heap t'(3) r unfolding heap_ok_def by auto
  have ok': "thread_ok (thread_heap st) (registered ks') (next_record st) (ever st) (who st) s ?e"
    using thread_okD [OF inv s] r reg
    by (simp add: thread_ok_def own_ok_def pc_ok_def plain_ok_def gone_def pre_def)
  have same: "(thread_heap st)(own e \<mapsto> r\<lparr>sys_thread := s\<rparr>) = thread_heap st"
    using r(1,2) by (simp add: fun_upd_idem)
  have tok: "tokens ?e \<subseteq> tokens e" using pc by (auto simp: tokens_def pc_token_def gone_def)
  have "threads_inv ?st ks'"
  proof (rule inv_update [OF inv s, where X = "{own e}" and e' = ?e])
    show "b \<notin> needs f \<and> b \<noteq> own f" if "t \<noteq> s" "thr st t = Some f" "b \<in> {own e}" for t f b
      using own_alone [OF inv s that(1,2)] that(3) by simp
    show "tokens ?e \<inter> tokens f = {}" if "t \<noteq> s" "thr st t = Some f" for t f
      by (rule fewer_tokens(1) [OF inv s tok that])
    show "tokens ?e \<inter> joinable ?st = {}" using fewer_tokens(2) [OF inv s tok] by simp
  qed (use ok' heap' t'(2) reg mutex_other [OF inv s] pc in \<open>simp_all add: holds_def\<close>)
  moreover have "set_pc s (Leave Work) ((set_record (own e) (Some (r\<lparr>sys_thread := s\<rparr>)) st)\<lparr>threadtree := t'\<rparr>) = ?st"
    using s same by (cases st) (simp add: set_pc_def set_record_def)
  ultimately show ?thesis using r(1) t'(1) a by (auto simp: insert_self_def intro!: exI [of _ ks'])
qed

lemma remove_thread_frees:
  assumes "tree_ok (threadtree st) ks" and "heap_ok (thread_heap st) nr ni ev ks" and "a \<in> registered ks"
  shows "\<exists>t' ks' k. remove_thread a st = Some (st\<lparr>threadtree := t', thread_heap := (thread_heap st)(a := None)\<rparr>) \<and>
    tree_ok t' ks' \<and> set ks' = set ks - {k} \<and> snd k = a \<and> registered ks' = registered ks - {a} \<and>
    heap_ok ((thread_heap st)(a := None)) nr ni ev ks'"
proof -
  obtain r where r: "thread_heap st a = Some r" "(thread_id r, a) \<in> set ks"
    using registered_record [OF assms(2,3)] by blast
  obtain t' ks' where t: "avl_delete (threadtree st) (thread_id r, a) = Some (0, [(thread_id r, a)], t')"
    "tree_ok t' ks'" "set ks' = set ks - {(thread_id r, a)}"
    using tree_delete [OF assms(1) r(2)] by blast
  have other: "snd k \<noteq> a" if "k \<in> set ks'" for k
  proof
    assume "snd k = a"
    moreover from this have "fst k = thread_id r" using heap_okD(7) [OF assms(2), of k] that t(3) r(1) by auto
    ultimately have "k = (thread_id r, a)" by (auto intro: prod_eqI)
    then show False using that t(3) by simp
  qed
  have heap: "heap_ok ((thread_heap st)(a := None)) nr ni ev ks'"
  proof (rule heap_ok_free [OF assms(2)])
    show "k \<in> set ks \<and> snd k \<noteq> a" if "k \<in> set ks'" for k using other [OF that] that t(3) by auto
  qed
  have reg: "registered ks' = registered ks - {a}"
  proof
    show "registered ks' \<subseteq> registered ks - {a}" using other t(3) by (auto simp: registered_def)
    show "registered ks - {a} \<subseteq> registered ks'" using t(3) by (force simp: registered_def)
  qed
  have "remove_thread a st = Some (st\<lparr>threadtree := t', thread_heap := (thread_heap st)(a := None)\<rparr>)"
    using r(1) t(1) by (simp add: remove_thread_def free_thread_def)
  then show ?thesis using t heap reg by (intro exI [of _ t'] exI [of _ ks'] exI [of _ "(thread_id r, a)"]) simp
qed

lemma remove_step:
  assumes inv: "threads_inv st ks" and s: "thr st s = Some e" and pc: "pc e = Inside (Remove a dies)"
  shows "\<exists>st' ks'. remove_thread a st = Some st' \<and>
    threads_inv (set_pc s (Leave (if dies then Die else Work)) st') ks'"
proof -
  have g: "if dies then a = own e \<and> is_detached e else a \<in> registered ks \<and> (\<forall>t d. who st t \<noteq> Some (a, d))"
    using thread_okD(2) [OF inv s] pc by (simp add: pc_ok_def guard_ok_def)
  have ng: "\<not> gone e" "\<not> pre e" using pc by (auto simp: gone_def pre_def)
  have regown: "own e \<in> registered ks" using own_record [OF inv s ng(1)] ng(2) by auto
  have reg: "a \<in> registered ks" using g regown by (cases dies) auto
  let ?e = "e\<lparr>pc := Leave (if dies then Die else Work)\<rparr>" and ?h = "(thread_heap st)(a := None)"
  obtain t' ks' where t': "remove_thread a st = Some (st\<lparr>threadtree := t', thread_heap := ?h\<rparr>)"
    "tree_ok t' ks'" "registered ks' = registered ks - {a}"
    "heap_ok ?h (next_record st) (next_thread_id st) (ever st) ks'"
    using remove_thread_frees [OF invD(1,2) [OF inv] reg] by blast
  let ?st = "st\<lparr>threadtree := t', thread_heap := ?h, thr := (thr st)(s \<mapsto> ?e)\<rparr>"
  have alone: "b \<notin> needs f \<and> b \<noteq> own f" if "t \<noteq> s" "thr st t = Some f" "b \<in> {a}" for t f b
  proof (cases dies)
    case True
    then show ?thesis using own_alone [OF inv s that(1,2)] that(3) g by auto
  next
    case False
    then have "a \<in> needs e" using pc by (simp add: needs_def)
    from needed_not_needed [OF inv s this that(1,2)] show ?thesis using that(3) by simp
  qed
  have own: "own_ok ?h (registered ks') (next_record st) s ?e"
  proof (cases dies)
    case True
    then have "gone ?e" "own e = a" using g by (auto simp: gone_def)
    then show ?thesis using thread_okD(1) [OF inv s] by (simp add: own_ok_def)
  next
    case False
    then have "own e \<noteq> a" using g who_own [OF s] by auto
    then show ?thesis
      using pc False t'(3)
      by - (rule pc_own_frame [OF thread_okD(1) [OF inv s]], simp_all add: view_def gone_def pre_def)
  qed
  then have ok': "thread_ok ?h (registered ks') (next_record st) (ever st) (who st) s ?e"
    using thread_okD(3,4) [OF inv s] by (simp add: thread_ok_def pc_ok_def plain_ok_def)
  have tok: "tokens ?e \<subseteq> tokens e" using pc by (auto simp: tokens_def pc_token_def gone_def)
  have "threads_inv ?st ks'"
  proof (rule inv_update [OF inv s, where X = "{a}" and e' = ?e])
    show "b \<notin> needs f \<and> b \<noteq> own f" if "t \<noteq> s" "thr st t = Some f" "b \<in> {a}" for t f b
      by (rule alone [OF that])
    show "tokens ?e \<inter> tokens f = {}" if "t \<noteq> s" "thr st t = Some f" for t f
      by (rule fewer_tokens(1) [OF inv s tok that])
    show "tokens ?e \<inter> joinable ?st = {}" using fewer_tokens(2) [OF inv s tok] by simp
  qed (use ok' t'(2-4) mutex_other [OF inv s] pc in \<open>simp_all add: holds_def view_def\<close>)
  moreover have "set_pc s (Leave (if dies then Die else Work)) (st\<lparr>threadtree := t', thread_heap := ?h\<rparr>) = ?st"
    using s by (cases st) (simp add: set_pc_def)
  ultimately show ?thesis using t'(1) by (auto intro!: exI [of _ ks'])
qed

subsection \<open>Renaming, and a thread that cannot be started\<close>

lemma rename_step:
  assumes inv: "threads_inv st ks" and s: "thr st s = Some e" and pc: "pc e = Got_Self p r"
  shows "\<exists>th. thread_heap st (own e) = Some th \<and>
    threads_inv (set_pc s Work (set_record (own e) (Some (th\<lparr>th_name := Some nm\<rparr>)) st)) ks"
proof -
  have ng: "\<not> gone e" "\<not> pre e" using pc by (auto simp: gone_def pre_def)
  from own_record [OF inv s ng(1)] obtain th where th: "thread_heap st (own e) = Some th" by blast
  let ?h = "(thread_heap st)(own e \<mapsto> th\<lparr>th_name := Some nm\<rparr>)" and ?e = "e\<lparr>pc := Work\<rparr>"
  let ?st = "st\<lparr>thread_heap := ?h, thr := (thr st)(s \<mapsto> ?e)\<rparr>"
  note heap = invD(2) [OF inv]
  have heap': "heap_ok ?h (next_record st) (next_thread_id st) (ever st) ks"
  proof (rule heap_ok_upd [OF heap])
    show "thread_id q \<noteq> thread_id (th\<lparr>th_name := Some nm\<rparr>)"
      if "b \<noteq> own e" "thread_heap st b = Some q" "thread_id (th\<lparr>th_name := Some nm\<rparr>) \<noteq> 0" for b q
      using heap_okD(5) [OF heap that(2) th] that by auto
    show "sys_thread q \<noteq> sys_thread (th\<lparr>th_name := Some nm\<rparr>)"
      if "b \<noteq> own e" "thread_heap st b = Some q" "sys_thread (th\<lparr>th_name := Some nm\<rparr>) \<noteq> 0" for b q
      using heap_okD(6) [OF heap that(2) th] that by auto
    show "thread_id (th\<lparr>th_name := Some nm\<rparr>) = fst k \<and> sys_thread (th\<lparr>th_name := Some nm\<rparr>) \<noteq> 0"
      if "k \<in> set ks" "snd k = own e" for k
      using heap_okD(7) [OF heap that(1)] that(2) th by auto
  qed (use heap_okD(2,3,4) [OF heap th] in auto)
  have "own_ok ?h (registered ks) (next_record st) s ?e"
    using pc th by - (rule pc_own_frame [OF thread_okD(1) [OF inv s]], simp_all add: view_def gone_def pre_def)
  then have ok': "thread_ok ?h (registered ks) (next_record st) (ever st) (who st) s ?e"
    using thread_okD(3,4) [OF inv s] by (simp add: thread_ok_def pc_ok_def plain_ok_def)
  have tok: "tokens ?e \<subseteq> tokens e" using pc by (auto simp: tokens_def pc_token_def gone_def)
  have "threads_inv ?st ks"
  proof (rule inv_update [OF inv s, where X = "{own e}" and e' = ?e])
    show "b \<notin> needs f \<and> b \<noteq> own f" if "t \<noteq> s" "thr st t = Some f" "b \<in> {own e}" for t f b
      using own_alone [OF inv s that(1,2)] that(3) by simp
    show "tokens ?e \<inter> tokens f = {}" if "t \<noteq> s" "thr st t = Some f" for t f
      by (rule fewer_tokens(1) [OF inv s tok that])
    show "tokens ?e \<inter> joinable ?st = {}" using fewer_tokens(2) [OF inv s tok] by simp
  qed (use ok' heap' invD(1) [OF inv] mutex_other [OF inv s] pc in \<open>simp_all add: holds_def view_def\<close>)
  moreover have "set_pc s Work (set_record (own e) (Some (th\<lparr>th_name := Some nm\<rparr>)) st) = ?st"
    using s by (cases st) (simp add: set_pc_def set_record_def)
  ultimately show ?thesis using th by auto
qed

lemma spawn_fails_step:
  assumes inv: "threads_inv st ks" and s: "thr st s = Some e" and pc: "pc e = Spawn a nm det"
  shows "threads_inv (set_pc s Work (set_record a None st)) ks"
proof -
  obtain r where r: "thread_heap st a = Some r" "sys_thread r = 0"
    using thread_okD(2) [OF inv s] pc by (auto simp: pc_ok_def plain_ok_def)
  note heap = invD(2) [OF inv]
  have nreg: "a \<notin> registered ks" using registered_record [OF heap, of a] r by auto
  let ?h = "(thread_heap st)(a := None)" and ?e = "e\<lparr>pc := Work\<rparr>"
  let ?st = "st\<lparr>thread_heap := ?h, thr := (thr st)(s \<mapsto> ?e)\<rparr>"
  have heap': "heap_ok ?h (next_record st) (next_thread_id st) (ever st) ks"
    using nreg by (intro heap_ok_free [OF heap]) (auto simp: registered_def)
  have ng: "\<not> gone e" "\<not> pre e" using pc by (auto simp: gone_def pre_def)
  have a: "a \<in> needs e" using pc by (simp add: needs_def)
  have own_a: "own e \<noteq> a" using own_record [OF inv s ng(1)] ng(2) nreg by auto
  then have "own_ok ?h (registered ks) (next_record st) s ?e"
    using pc by - (rule pc_own_frame [OF thread_okD(1) [OF inv s]], simp_all add: view_def gone_def pre_def)
  then have ok': "thread_ok ?h (registered ks) (next_record st) (ever st) (who st) s ?e"
    using thread_okD(3,4) [OF inv s] by (simp add: thread_ok_def pc_ok_def plain_ok_def)
  have tok: "tokens ?e \<subseteq> tokens e" using pc by (auto simp: tokens_def pc_token_def gone_def)
  have "threads_inv ?st ks"
  proof (rule inv_update [OF inv s, where X = "{a}" and e' = ?e])
    show "b \<notin> needs f \<and> b \<noteq> own f" if "t \<noteq> s" "thr st t = Some f" "b \<in> {a}" for t f b
      using needed_not_needed [OF inv s a that(1,2)] that(3) by simp
    show "tokens ?e \<inter> tokens f = {}" if "t \<noteq> s" "thr st t = Some f" for t f
      by (rule fewer_tokens(1) [OF inv s tok that])
    show "tokens ?e \<inter> joinable ?st = {}" using fewer_tokens(2) [OF inv s tok] by simp
  qed (use ok' heap' invD(1) [OF inv] mutex_other [OF inv s] pc in \<open>simp_all add: holds_def view_def\<close>)
  moreover have "set_pc s Work (set_record a None st) = ?st"
    using s by (cases st) (simp add: set_pc_def set_record_def)
  ultimately show ?thesis by simp
qed

end
