(* ===== verification/Thread_Life.thy ===== *)
theory Thread_Life
  imports Thread_Heap
begin

section \<open>Steps that start, join and end threads\<close>

text \<open>These steps change which threads there are, or wait for one.\<close>

lemma waiter_alone:
  assumes inv: "threads_inv st ks" and u: "thr st u = Some g" "pc g = Wait_Join b t"
  shows "\<exists>f. thr st t = Some f \<and> own f = b \<and> \<not> is_detached f"
  using thread_okD(2) [OF inv u(1)] u(2) by (auto simp: pc_ok_def who_def)

lemma join_begin_step:
  assumes inv: "threads_inv st ks" and s: "thr st s = Some e" and pc: "pc e = Work" and b: "b \<in> joinable st"
  shows "\<exists>r. thread_heap st b = Some r \<and>
    threads_inv (set_pc s (Wait_Join b (sys_thread r)) (st\<lparr>joinable := joinable st - {b}\<rparr>)) ks"
proof -
  obtain t where w: "who st t = Some (b, False)" using invD(6) [OF inv b] by blast
  then obtain f where f: "thr st t = Some f" "own f = b" "\<not> is_detached f" by (auto simp: who_def)
  have "\<not> gone f" using f(3) by (simp add: gone_def)
  from own_record [OF inv f(1) this] f(2) obtain r where r: "thread_heap st b = Some r" "sys_thread r = t" by blast
  let ?e = "e\<lparr>pc := Wait_Join b t\<rparr>"
  let ?st = "st\<lparr>joinable := joinable st - {b}, thr := (thr st)(s \<mapsto> ?e)\<rparr>"
  have "own_ok (thread_heap st) (registered ks) (next_record st) s ?e"
    by (rule own_ok_pc [OF thread_okD(1) [OF inv s]]) (use pc in \<open>simp_all add: gone_def pre_def\<close>)
  then have ok': "thread_ok (thread_heap st) (registered ks) (next_record st) (ever st) (who st) s ?e"
    using thread_okD(3,4) [OF inv s] w by (simp add: thread_ok_def pc_ok_def)
  have tok: "tokens ?e = insert b (tokens e)" using pc by (auto simp: tokens_def pc_token_def gone_def)
  have "threads_inv ?st ks"
  proof (rule inv_update [OF inv s, where X = "{}" and e' = ?e])
    show "tokens ?e \<inter> tokens g = {}" if "u \<noteq> s" "thr st u = Some g" for u g
      using invD(4) [OF inv s that(2)] that(1) tok invD(5) [OF inv that(2)] b by (auto simp: apart_def)
    show "tokens ?e \<inter> joinable ?st = {}" using invD(5) [OF inv s] tok by auto
  qed (use ok' invD(1,2) [OF inv] mutex_other [OF inv s] pc in \<open>simp_all add: holds_def\<close>)
  moreover have "set_pc s (Wait_Join b t) (st\<lparr>joinable := joinable st - {b}\<rparr>) = ?st"
    using s by (cases st) (simp add: set_pc_def)
  ultimately show ?thesis using r by auto
qed

lemma spawn_step:
  assumes inv: "threads_inv st ks" and s: "thr st s = Some e" and pc: "pc e = Spawn a nm det"
    and new: "new \<noteq> 0" "thr st new = None" "new \<notin> ever st"
  shows "\<exists>st'. thread_create_end s new a nm det st = Some st' \<and> threads_inv st' ks"
proof -
  obtain r where r: "thread_heap st a = Some r" "sys_thread r = 0" "thread_id r \<noteq> 0"
    using thread_okD(2) [OF inv s] pc by (auto simp: pc_ok_def plain_ok_def)
  note heap = invD(2) [OF inv]
  have nreg: "a \<notin> registered ks" using registered_record [OF heap, of a] r by auto
  have sn: "s \<noteq> new" using s new(2) by auto
  have ng: "\<not> gone e" "\<not> pre e" using pc by (auto simp: gone_def pre_def)
  have a: "a \<in> needs e" "a \<in> tokens e" using pc by (simp_all add: needs_def tokens_def pc_token_def)
  have own_a: "own e \<noteq> a" using own_not_needed [OF inv s s] a by auto
  let ?r = "r\<lparr>th_name := Some nm, th_detached := det, sys_thread := new\<rparr>"
  let ?h = "(thread_heap st)(a \<mapsto> ?r)" and ?e = "e\<lparr>pc := Work\<rparr>"
    and ?n = "\<lparr>own = a, is_detached = det, pc = Enter (Insert a), observed = None\<rparr>"
    and ?J = "if det then joinable st else insert a (joinable st)"
  let ?st = "st\<lparr>thread_heap := ?h, thr := (thr st)(new \<mapsto> ?n, s \<mapsto> ?e), ever := insert new (ever st),
    joinable := ?J\<rparr>"
  have heap': "heap_ok ?h (next_record st) (next_thread_id st) (insert new (ever st)) ks"
  proof (rule heap_ok_upd [OF heap])
    show "thread_id q \<noteq> thread_id ?r" if "b \<noteq> a" "thread_heap st b = Some q" "thread_id ?r \<noteq> 0" for b q
      using heap_okD(5) [OF heap that(2) r(1)] that by auto
    show "sys_thread q \<noteq> sys_thread ?r" if "b \<noteq> a" "thread_heap st b = Some q" "sys_thread ?r \<noteq> 0" for b q
      using heap_okD(4) [OF heap that(2)] new(1,3) by auto
    show "thread_id ?r = fst k \<and> sys_thread ?r \<noteq> 0" if "k \<in> set ks" "snd k = a" for k
      using imageI [OF that(1), of snd] that(2) nreg by (simp add: registered_def)
  qed (use heap_okD(2,3) [OF heap r(1)] new in auto)
  have who': "who ?st t = (if t = new then Some (a, det) else who st t)" for t
    using s sn by (simp add: who_def)
  have view': "view ?h b = view (thread_heap st) b" if "b \<noteq> a" for b using that by (simp add: view_def)
  have others: "thread_ok ?h (registered ks) (next_record st) (insert new (ever st)) (who ?st) t f"
    if t: "t \<noteq> s" "thr st t = Some f" for t f
  proof (rule thread_ok_frame [OF invD(3) [OF inv t(2)]])
    show "view ?h b = view (thread_heap st) b \<and> (b \<in> registered ks \<longleftrightarrow> b \<in> registered ks)"
      if "b \<in> needs f \<or> b = own f" for b
      using that needed_not_needed [OF inv s a(1) t] view' [of b] by auto
    show "who ?st u = who st u" if "pc f = Wait_Join b u" for b u
      using waiter_alone [OF inv t(2) that] new(2) who' [of u] by auto
    show "b \<notin> registered ks" if "b \<in> needs f" "who ?st u = Some (b, d)" for b u d
      using that needs_record [OF inv t(2) that(1)] registered_record [OF heap, of b] nreg
      by (auto simp: who' split: if_split_asm)
  qed auto
  have "own_ok ?h (registered ks) (next_record st) s ?e"
    using pc own_a by - (rule pc_own_frame [OF thread_okD(1) [OF inv s]], simp_all add: view_def gone_def pre_def)
  then have me: "thread_ok ?h (registered ks) (next_record st) (insert new (ever st)) (who ?st) s ?e"
    using thread_okD(3,4) [OF inv s] by (simp add: thread_ok_def pc_ok_def plain_ok_def)
  have newok: "thread_ok ?h (registered ks) (next_record st) (insert new (ever st)) (who ?st) new ?n"
    using new(1) r nreg heap_okD(2) [OF heap r(1)]
    by (simp add: thread_ok_def pc_ok_def guard_ok_def own_ok_def pre_def gone_def)
  have ntok: "tokens ?n = (if det then {a} else {})" by (simp add: tokens_def pc_token_def gone_def)
  have etok: "tokens e = insert a (tokens ?e)" using pc by (auto simp: tokens_def pc_token_def gone_def)
  have a_e: "a \<notin> tokens ?e" using own_a by (simp add: tokens_def pc_token_def)
  have thr_cases: "t = s \<and> f = ?e \<or> t = new \<and> f = ?n \<or> t \<noteq> s \<and> t \<noteq> new \<and> thr st t = Some f"
    if "thr ?st t = Some f" for t f using that sn by (auto split: if_split_asm)
  have apart_n: "apart ?n f" if "t \<noteq> s" "thr st t = Some f" for t f
    using needed_not_needed [OF inv s a(1) that] invD(4) [OF inv s that(2)] that(1) a(2) ntok
    by (auto simp: apart_def)
  have apart_e: "apart ?e f" if "t \<noteq> s" "thr st t = Some f" for t f
    using invD(4) [OF inv s that(2)] that(1) etok by (auto simp: apart_def)
  have apart_ne: "apart ?n ?e" using own_a a_e ntok by (auto simp: apart_def)
  have apart_comm: "apart x y \<longleftrightarrow> apart y x" for x y by (auto simp: apart_def)
  have J: "joinable ?st = ?J" by simp
  have tok_e: "tokens ?e \<inter> joinable ?st = {}"
    unfolding J using invD(5) [OF inv s] etok a_e by (cases det) auto
  have tok_n: "tokens ?n \<inter> joinable ?st = {}"
    unfolding J ntok using invD(5) [OF inv s] a(2) by (cases det) auto
  have tok_other: "tokens g \<inter> joinable ?st = {}" if "u \<noteq> s" "thr st u = Some g" for u g
  proof -
    have "a \<notin> tokens g" using invD(4) [OF inv s that(2)] that(1) a(2) by (auto simp: apart_def)
    then show ?thesis unfolding J using invD(5) [OF inv that(2)] by (cases det) auto
  qed
  have "threads_inv ?st ks"
    unfolding threads_inv_def
  proof (intro conjI allI impI ballI)
    show "tree_ok (threadtree ?st) ks" using invD(1) [OF inv] by simp
    show "heap_ok (thread_heap ?st) (next_record ?st) (next_thread_id ?st) (ever ?st) ks"
      using heap' by simp
    fix t f assume t: "thr ?st t = Some f"
    show "thread_ok (thread_heap ?st) (registered ks) (next_record ?st) (ever ?st) (who ?st) t f"
      using thr_cases [OF t] me newok others by auto
    show "tokens f \<inter> joinable ?st = {}" using thr_cases [OF t] tok_e tok_n tok_other by blast
    show "holds f \<longleftrightarrow> tree_mutex ?st = Some t"
      using thr_cases [OF t] invD(7) [OF inv, of t f] mutex_other [OF inv s] pc new(2)
        invD(8) [OF inv, of new] by (auto simp: holds_def)
    fix u g assume u: "thr ?st u = Some g" "t \<noteq> u"
    show "apart f g"
      using thr_cases [OF t] thr_cases [OF u(1)] u(2) apart_n apart_e apart_ne apart_comm invD(4) [OF inv]
      by metis
  next
    fix b assume "b \<in> joinable ?st"
    then consider "b = a" "\<not> det" | "b \<in> joinable st" by (auto split: if_split_asm)
    then show "\<exists>t. who ?st t = Some (b, False)"
    proof cases
      case 1
      then show ?thesis using who' [of new] by auto
    next
      case 2
      then obtain t where t: "who st t = Some (b, False)" using invD(6) [OF inv] by blast
      then have "t \<noteq> new" using new(2) by (auto simp: who_def)
      then show ?thesis using who' [of t] t by auto
    qed
  next
    fix t assume "tree_mutex ?st = Some t"
    then show "thr ?st t \<noteq> None" using invD(8) [OF inv, of t] by auto
  qed
  moreover have "thread_create_end s new a nm det st = Some ?st"
    using r s sn by (cases st) (simp add: thread_create_end_def set_record_def set_pc_def Let_def)
  ultimately show ?thesis by blast
qed

subsection \<open>The end of a thread\<close>

lemma inv_remove:
  assumes inv: "threads_inv st ks" and t: "thr st t = Some f" and free: "\<not> holds f"
    and wait: "\<And>u g b. u \<noteq> t \<Longrightarrow> thr st u = Some g \<Longrightarrow> pc g \<noteq> Wait_Join b t"
    and join: "is_detached f \<or> own f \<notin> joinable st"
  shows "threads_inv (st\<lparr>thr := (thr st)(t := None)\<rparr>) ks"
proof -
  let ?st = "st\<lparr>thr := (thr st)(t := None)\<rparr>"
  have who': "who ?st u = (if u = t then None else who st u)" for u by (simp add: who_def)
  have others: "thread_ok (thread_heap st) (registered ks) (next_record st) (ever st) (who ?st) u g"
    if u: "u \<noteq> t" "thr st u = Some g" for u g
  proof (rule thread_ok_frame [OF invD(3) [OF inv u(2)]])
    show "who ?st v = who st v" if "pc g = Wait_Join b v" for b v
      using wait [OF u] that who' [of v] by auto
    show "b \<notin> registered ks" if "b \<in> needs g" "who ?st v = Some (b, d)" for b v d
    proof -
      have "who st v = Some (b, d)" using that(2) who' [of v] by (auto split: if_split_asm)
      then show ?thesis using needs_record [OF inv u(2) that(1)] registered_record [OF invD(2) [OF inv], of b]
        by fastforce
    qed
  qed auto
  show ?thesis
    unfolding threads_inv_def
  proof (intro conjI allI impI ballI)
    show "tree_ok (threadtree ?st) ks" using invD(1) [OF inv] by simp
    show "heap_ok (thread_heap ?st) (next_record ?st) (next_thread_id ?st) (ever ?st) ks"
      using invD(2) [OF inv] by simp
    fix u g assume u: "thr ?st u = Some g"
    then have u': "u \<noteq> t" "thr st u = Some g" by (auto split: if_split_asm)
    show "thread_ok (thread_heap ?st) (registered ks) (next_record ?st) (ever ?st) (who ?st) u g"
      using others [OF u'] by simp
    show "tokens g \<inter> joinable ?st = {}" using invD(5) [OF inv u'(2)] by simp
    show "holds g \<longleftrightarrow> tree_mutex ?st = Some u" using invD(7) [OF inv u'(2)] by simp
    fix v k assume "thr ?st v = Some k" "u \<noteq> v"
    then show "apart g k" using invD(4) [OF inv u'(2)] by (auto split: if_split_asm)
  next
    fix b assume b: "b \<in> joinable ?st"
    then obtain u where u: "who st u = Some (b, False)" using invD(6) [OF inv] by auto
    then have "u \<noteq> t" using join b t by (auto simp: who_def)
    then show "\<exists>u. who ?st u = Some (b, False)" using u who' [of u] by auto
  next
    fix u assume "tree_mutex ?st = Some u"
    then show "thr ?st u \<noteq> None" using invD(8) [OF inv, of u] invD(7) [OF inv t] free by auto
  qed
qed

lemma die_detached_step:
  assumes inv: "threads_inv st ks" and s: "thr st s = Some e" and pc: "pc e = Die" and det: "is_detached e"
  shows "threads_inv (st\<lparr>thr := (thr st)(s := None)\<rparr>) ks"
proof (rule inv_remove [OF inv s])
  show "pc g \<noteq> Wait_Join b s" if "thr st u = Some g" for u g b
    using waiter_alone [OF inv that(1), of b s] s det by auto
qed (use pc det in \<open>simp_all add: holds_def\<close>)

lemma joined_step:
  assumes inv: "threads_inv st ks" and s: "thr st s = Some e" and pc: "pc e = Wait_Join b t"
    and t: "thr st t = Some f" and zombie: "pc f = Zombie"
  shows "threads_inv (set_pc s (Enter (Remove b False)) (st\<lparr>thr := (thr st)(t := None)\<rparr>)) ks"
proof -
  have f: "own f = b" "\<not> is_detached f" using waiter_alone [OF inv s pc] t by auto
  have ts: "t \<noteq> s" using s t pc zombie by auto
  have btok: "b \<in> tokens e" using pc by (simp add: tokens_def pc_token_def)
  have alone: "b \<notin> tokens g" if "u \<noteq> s" "thr st u = Some g" for u g
    using invD(4) [OF inv s that(2)] that(1) btok by (auto simp: apart_def)
  have bj: "b \<notin> joinable st" using invD(5) [OF inv s] btok by auto
  let ?e1 = "e\<lparr>pc := Work\<rparr>" and ?e = "e\<lparr>pc := Enter (Remove b False)\<rparr>"
  let ?st1 = "set_pc s Work st"
  have tok1: "tokens ?e1 \<subseteq> tokens e" using pc by (auto simp: tokens_def pc_token_def gone_def)
  have inv1: "threads_inv ?st1 ks"
    using pc tok1 by (intro inv_set_pc [OF inv s]) (simp_all add: gone_def pre_def holds_def pc_ok_def plain_ok_def)
  have thr1: "thr ?st1 = (thr st)(s \<mapsto> ?e1)" by (simp add: set_pc_Some [OF s])
  let ?st2 = "?st1\<lparr>thr := (thr ?st1)(t := None)\<rparr>"
  have inv2: "threads_inv ?st2 ks"
  proof (rule inv_remove [OF inv1])
    show "thr ?st1 t = Some f" using thr1 t ts by simp
    show "pc g \<noteq> Wait_Join c t" if u: "u \<noteq> t" "thr ?st1 u = Some g" for u g c
    proof
      assume w: "pc g = Wait_Join c t"
      then have "u \<noteq> s" "thr st u = Some g" using u(2) thr1 by (auto split: if_split_asm)
      then show False using waiter_alone [OF inv _ w] t f alone [of u g] w
        by (auto simp: tokens_def pc_token_def)
    qed
    show "\<not> holds f" using zombie by (simp add: holds_def)
    show "is_detached f \<or> own f \<notin> joinable ?st1" using f bj by (simp add: set_pc_def)
  qed
  have thr2: "thr ?st2 = (thr st)(s \<mapsto> ?e1, t := None)" using thr1 by simp
  have s2: "thr ?st2 s = Some ?e1" using thr2 ts by simp
  have same: "thread_heap ?st2 = thread_heap st" "next_record ?st2 = next_record st" "ever ?st2 = ever st"
    "joinable ?st2 = joinable st" "threadtree ?st2 = threadtree st" "tree_mutex ?st2 = tree_mutex st"
    "next_thread_id ?st2 = next_thread_id st" by (simp_all add: set_pc_def)
  have breg: "b \<in> registered ks"
    using own_record [OF inv t] f zombie by (auto simp: gone_def pre_def)
  have nowho: "who ?st2 u \<noteq> Some (b, d)" for u d
  proof
    assume "who ?st2 u = Some (b, d)"
    then obtain g where g: "u \<noteq> t" "own g = b" "thr st u = Some g"
      unfolding who_def thr2 using s by (auto split: if_split_asm)
    then show False using invD(4) [OF inv g(3) t g(1)] f(1) by (simp add: apart_def)
  qed
  have "thread_ok (thread_heap st) (registered ks) (next_record st) (ever st) (who ?st2) s ?e1"
    using invD(3) [OF inv2 s2] same by simp
  then have ok: "thread_ok (thread_heap st) (registered ks) (next_record st) (ever st) (who ?st2) s ?e"
    using own_ok_pc [of "thread_heap st" "registered ks" "next_record st" s ?e1 ?e] breg nowho
    by (simp add: thread_ok_def pc_ok_def guard_ok_def gone_def pre_def)
  have tok: "tokens ?e \<subseteq> insert b (tokens e)" using pc by (auto simp: tokens_def pc_token_def gone_def)
  let ?st3 = "?st2\<lparr>thr := (thr ?st2)(s \<mapsto> ?e)\<rparr>"
  have "threads_inv ?st3 ks"
  proof (rule inv_update [OF inv2 s2, where X = "{}" and e' = ?e])
    show "tokens ?e \<inter> tokens g = {}" if "u \<noteq> s" "thr ?st2 u = Some g" for u g
    proof -
      have "thr st u = Some g" using that thr2 by (auto split: if_split_asm)
      from invD(4) [OF inv s this] alone [OF that(1) this] that(1) tok show ?thesis by (auto simp: apart_def)
    qed
    show "tokens ?e \<inter> joinable ?st3 = {}" using invD(5) [OF inv s] tok bj same by auto
  qed (use ok invD(1,2) [OF inv] same mutex_other [OF inv s] pc in \<open>simp_all add: holds_def\<close>)
  moreover have "?st3 = set_pc s (Enter (Remove b False)) (st\<lparr>thr := (thr st)(t := None)\<rparr>)"
    using s ts by (cases st) (simp add: set_pc_def fun_upd_twist)
  ultimately show ?thesis by simp
qed

end
