(* ===== verification/Thread_Safe.thy ===== *)
theory Thread_Safe
  imports Thread_Life
begin

section \<open>Reachable states of the thread registry\<close>

text \<open>
  \<open>thread_self\<close> finds the record of its caller, no step follows a freed record, and every step
  keeps the invariant; so do all states reachable without reuse of system identifiers.
\<close>

subsection \<open>The search of \<open>thread_self\<close>\<close>

lemma self_loop_cursor:
  assumes "cursor t rt T i p" and "\<forall>k \<in> set (keys T). h (snd k) \<noteq> None"
  shows "self_loop h t me p = Some (map_option snd
    (find (\<lambda>k. \<exists>r. h (snd k) = Some r \<and> sys_thread r = me) (drop i (keys T))))"
  using assms
proof (induction "length (keys T) - i" arbitrary: i p)
  case 0
  then show ?case using cursor_key by fastforce
next
  case (Suc n)
  obtain nd where nd: "rd t p = Some nd" "key nd = Some (keys T ! i)" "i < length (keys T)"
    using cursor_key [OF Suc.prems(1)] by auto
  obtain r where r: "h (snd (keys T ! i)) = Some r" using Suc.prems(2) nd(3) by fastforce
  obtain q where q: "avl_get_next t p = Some q"
      "if Suc i < length (keys T) then cursor t rt T (Suc i) q else q = None"
    using avl_get_next_cursor [OF Suc.prems(1)] by auto
  have "self_loop h t me q = Some (map_option snd
    (find (\<lambda>k. \<exists>r. h (snd k) = Some r \<and> sys_thread r = me) (drop (Suc i) (keys T))))"
  proof (cases "Suc i < length (keys T)")
    case True
    then show ?thesis using Suc.hyps(1) [of "Suc i" q] Suc.hyps(2) q(2) Suc.prems(2) by simp
  next
    case False
    then show ?thesis using q(2) by (subst self_loop.simps) simp
  qed
  moreover have "p \<noteq> None" using nd(1) by (cases p) (auto simp: rd_def)
  ultimately show ?case
    using nd q(1) r by (subst self_loop.simps) (auto simp: Cons_nth_drop_Suc [symmetric])
qed

lemma thread_self_finds:
  assumes "tree_ok (threadtree st) ks" and "\<forall>k \<in> set ks. thread_heap st (snd k) \<noteq> None"
  shows "thread_self me st = Some (map_option snd
    (find (\<lambda>k. \<exists>r. thread_heap st (snd k) = Some r \<and> sys_thread r = me) ks))"
proof -
  obtain T where T: "tree_rep (threadtree st) T" "keys T = ks"
    using assms(1) by (auto simp: tree_ok_def avl_rep_def)
  obtain rt where rt: "root (threadtree st) = Some rt" using T(1) by (auto simp: tree_rep_def)
  obtain p where p: "avl_get_first (threadtree st) = Some p"
      "if T = Tip then p = None else cursor (store (threadtree st)) rt T 0 p"
    using avl_get_first_cursor [OF T(1) rt] by auto
  show ?thesis
  proof (cases "T = Tip")
    case True
    then show ?thesis using p T(2) by (auto simp: thread_self_def) (subst self_loop.simps, simp)
  next
    case False
    then show ?thesis using p T(2) assms(2) self_loop_cursor [of _ rt T 0 p] by (simp add: thread_self_def)
  qed
qed

lemma thread_self_own:
  assumes inv: "threads_inv st ks" and s: "thr st s = Some e" and pc: "\<not> gone e" "\<not> pre e"
  shows "thread_self s st = Some (Some (own e))"
proof -
  note heap = invD(2) [OF inv]
  obtain r where r: "thread_heap st (own e) = Some r" "sys_thread r = s" "s \<noteq> 0" "own e \<in> registered ks"
    using own_record [OF inv s pc(1)] pc(2) by auto
  let ?P = "\<lambda>k. \<exists>r. thread_heap st (snd k) = Some r \<and> sys_thread r = s"
  have live: "\<forall>k \<in> set ks. thread_heap st (snd k) \<noteq> None" using heap_okD(7) [OF heap] by fastforce
  have only: "snd k = own e" if "?P k" for k using heap_okD(6) [OF heap, of "snd k" _ "own e" r] that r by auto
  obtain k0 where "k0 \<in> set ks" "snd k0 = own e" using r(4) by (auto simp: registered_def)
  then have "\<exists>k \<in> set ks. ?P k" using r(1,2) by (intro bexI [of _ k0]) simp_all
  then have "find ?P ks \<noteq> None" unfolding find_None_iff by blast
  then obtain k where k: "find ?P ks = Some k" by blast
  then have "?P k" by (auto simp: find_Some_iff)
  then show ?thesis using thread_self_finds [OF invD(1) [OF inv] live] k only by simp
qed

lemma got_self_step:
  assumes inv: "threads_inv st ks" and s: "thr st s = Some e" and pc: "pc e = Inside (Find_Self r)"
  shows "threads_inv (set_pc s (Leave (Got_Self (Some (own e)) r)) st) ks"
proof -
  have "tree_mutex st = Some s" using invD(7) [OF inv s] pc by (simp add: holds_def)
  then have "threads_inv (st\<lparr>thr := (thr st)(s \<mapsto> e\<lparr>pc := Leave (Got_Self (Some (own e)) r)\<rparr>),
      tree_mutex := tree_mutex st\<rparr>) ks"
    using pc by (intro inv_pc [OF inv s]) (auto simp: pc_defs)
  then show ?thesis by (simp add: set_pc_Some [OF s])
qed

subsection \<open>Every step is defined and keeps the invariant\<close>

definition kept :: "outcome \<Rightarrow> bool" where
  "kept r \<longleftrightarrow> (case r of Blocked \<Rightarrow> True | Undefined \<Rightarrow> False | Ok st \<Rightarrow> \<exists>ks. threads_inv st ks)"

lemma kept_simps [simp]:
  "kept Blocked" "\<not> kept Undefined"
  by (simp_all add: kept_def)

lemma keptI [intro!]: "threads_inv st ks \<Longrightarrow> kept (Ok st)"
  by (auto simp: kept_def)

lemma work_kept:
  assumes inv: "threads_inv st ks" and s: "thr st s = Some e" and pc: "pc e = Work"
  shows "kept (work_move s e mv st)"
proof (cases mv)
  case (Call_Join b)
  then show ?thesis
    using join_begin_step [OF inv s pc, of b] by (auto simp: work_move_def thread_join_begin_def)
next
  case Return
  then show ?thesis
    using finish_step [OF inv s, of None For_Call] pc by (auto simp: work_move_def start_returned_def)
qed (use create_step [OF inv s pc] find_self_step [OF inv s pc] in \<open>auto simp: work_move_def\<close>)

lemma inside_kept:
  assumes inv: "threads_inv st ks" and s: "thr st s = Some e" and pc: "pc e = Inside g"
  shows "kept (of_option (map_option (\<lambda>(c, st). set_pc s (Leave c) st) (run_section s g st)))"
proof (cases g)
  case (New_Id a nm det)
  then show ?thesis using take_id_step [OF inv s] pc by (fastforce simp: run_section_def)
next
  case (Insert a)
  then show ?thesis using insert_step [OF inv s] pc by (fastforce simp: run_section_def)
next
  case (Remove a dies)
  then show ?thesis using remove_step [OF inv s, of a dies] pc by (auto simp: run_section_def)
next
  case (Find_Self r)
  then have "thread_self s st = Some (Some (own e))"
    using pc by (intro thread_self_own [OF inv s]) (auto simp: gone_def pre_def)
  then show ?thesis using got_self_step [OF inv s] pc Find_Self by (auto simp: run_section_def)
qed

lemma after_self_kept:
  assumes inv: "threads_inv st ks" and s: "thr st s = Some e" and pc: "pc e = Got_Self p r"
  shows "kept (of_option (after_self s p r st))"
proof -
  have p: "p = Some (own e)" using thread_okD(2) [OF inv s] pc by (simp add: pc_ok_def plain_ok_def)
  show ?thesis
  proof (cases r)
    case For_Call
    have "set_pc s Work (st\<lparr>thr := (thr st)(s := map_option (observed_update (\<lambda>_. p)) (thr st s))\<rparr>) =
        st\<lparr>thr := (thr st)(s \<mapsto> e\<lparr>pc := Work, observed := p\<rparr>)\<rparr>"
      using s by (cases e) (simp add: set_pc_def)
    then show ?thesis using observe_step [OF inv s pc, of p] For_Call by (auto simp: after_self_def)
  next
    case For_Exit
    then show ?thesis
      using finish_step [OF inv s disjI2 [OF pc]] p by (auto simp: after_self_def thread_exit_c_def)
  next
    case (For_Rename nm)
    then show ?thesis using rename_step [OF inv s pc, of nm] p by (auto simp: after_self_def thread_rename_def)
  qed
qed

lemma spawn_kept:
  assumes inv: "threads_inv st ks" and s: "thr st s = Some e" and pc: "pc e = Spawn a nm det"
  shows "kept (step False s mv st)"
proof (cases mv)
  case (Spawn_New n)
  show ?thesis
  proof (cases "n = 0 \<or> thr st n \<noteq> None \<or> n \<in> ever st")
    case True
    then show ?thesis using Spawn_New pc s by (auto simp: step_def)
  next
    case False
    then have "n \<noteq> 0" "thr st n = None" "n \<notin> ever st" by auto
    from spawn_step [OF inv s pc this] show ?thesis using Spawn_New pc s False by (auto simp: step_def)
  qed
next
  case Spawn_Fails
  then show ?thesis using spawn_fails_step [OF inv s pc] pc s by (auto simp: step_def)
qed (use pc s in \<open>simp_all add: step_def\<close>)

lemma step_kept:
  assumes inv: "threads_inv st ks"
  shows "kept (step False s mv st)"
proof (cases "thr st s")
  case (Some e)
  note s = Some
  show ?thesis
  proof (cases "pc e")
    case Work
    then show ?thesis using work_kept [OF inv s] s by (simp add: step_def)
  next
    case (Enter g)
    then show ?thesis using enter_step [OF inv s Enter] s by (auto simp: step_def mutex_lock_def)
  next
    case (Inside g)
    then show ?thesis using inside_kept [OF inv s Inside] s by (simp add: step_def)
  next
    case (Leave c)
    then show ?thesis using leave_step [OF inv s Leave] s by (auto simp: step_def mutex_unlock_def)
  next
    case (Spawn a nm det)
    then show ?thesis by (rule spawn_kept [OF inv s])
  next
    case (Wait_Join b t)
    obtain f where f: "thr st t = Some f" using waiter_alone [OF inv s Wait_Join] by blast
    show ?thesis
      using joined_step [OF inv s Wait_Join f] s f Wait_Join by (auto simp: step_def thread_join_wait_def)
  next
    case (Got_Self p r)
    then show ?thesis using after_self_kept [OF inv s Got_Self] s by (simp add: step_def)
  next
    case Die
    then show ?thesis
      using die_detached_step [OF inv s Die] die_attached_step [OF inv s Die] s by (auto simp: step_def)
  next
    case Zombie
    then show ?thesis using s by (simp add: step_def)
  qed
qed (simp add: step_def)

subsection \<open>The start\<close>

lemma start_inv:
  assumes t: "tree_ok t ks" "set ks = {(0, 0)}"
  shows "threads_inv \<lparr>thread_heap = [0 \<mapsto> r\<lparr>thread_id := 0, th_detached := d, sys_thread := 1\<rparr>],
    next_record = 1, next_thread_id = 1, threadtree = t, tree_mutex = None,
    thr = [1 \<mapsto> \<lparr>own = 0, is_detached = d, pc = Work, observed = None\<rparr>], ever = {1}, joinable = {}\<rparr> ks"
    (is "threads_inv ?st ks")
proof -
  let ?e = "\<lparr>own = 0, is_detached = d, pc = Work, observed = None\<rparr>"
  have thr1: "s = 1 \<and> e = ?e" if "thr ?st s = Some e" for s e using that by (auto split: if_split_asm)
  have reg: "registered ks = {0}" using t(2) by (simp add: registered_def)
  have main: "thread_ok (thread_heap ?st) (registered ks) (next_record ?st) (ever ?st) (who ?st) 1 ?e"
    by (simp add: thread_ok_def own_ok_def pc_ok_def plain_ok_def gone_def pre_def reg)
  show ?thesis
    unfolding threads_inv_def
  proof (intro conjI allI impI ballI)
    show "tree_ok (threadtree ?st) ks" using t(1) by simp
    show "heap_ok (thread_heap ?st) (next_record ?st) (next_thread_id ?st) (ever ?st) ks"
      using t(2) by (simp add: heap_ok_def)
    fix s e assume s: "thr ?st s = Some e"
    show "thread_ok (thread_heap ?st) (registered ks) (next_record ?st) (ever ?st) (who ?st) s e"
      using thr1 [OF s] main by simp
    show "tokens e \<inter> joinable ?st = {}" by simp
    show "holds e \<longleftrightarrow> tree_mutex ?st = Some s" using thr1 [OF s] by (simp add: holds_def)
    fix u g assume "thr ?st u = Some g" "s \<noteq> u"
    then show "apart e g" using thr1 [OF s] thr1 [of u g] by simp
  qed simp_all
qed

lemma initialize_inv:
  "\<exists>st ks. thread_initialize garbage = Some st \<and> threads_inv st ks"
proof -
  obtain t where t: "avl_tree_new compare_threads \<lparr>cells = Map.empty, brk = 0, limit = None\<rparr> = Some t"
      "avl_rep compare_threads t []"
    using avl_rep_new [of "\<lparr>cells = Map.empty, brk = 0, limit = None\<rparr>" compare_threads] by auto
  then have "tree_ok t []" by (simp add: tree_ok_def strict_by_def)
  then obtain t' ks' where t': "avl_insert t (0, 0) = Some (0, t')" "tree_ok t' ks'" "set ks' = {(0, 0)}"
    using tree_insert [of t "[]" "(0, 0)"] by auto
  let ?r = "\<lparr>thread_id = 0, th_name = Some ''Main Thread'', th_file = Some ''main.c'', th_line = 0,
    th_detached = garbage, sys_thread = 1\<rparr>"
  show ?thesis
    using t t' start_inv [OF t'(2,3), where r = ?r and d = garbage] by (auto simp: thread_initialize_def)
qed

lemma reachable_inv: "reachable False st \<Longrightarrow> \<exists>ks. threads_inv st ks"
proof (induction rule: reachable.induct)
  case (start garbage st)
  then show ?case using initialize_inv [of garbage] by auto
next
  case (move st me mv st')
  then obtain ks where "threads_inv st ks" by blast
  from step_kept [OF this, of me mv] show ?case using move by (auto simp: kept_def)
qed

end
