(* ===== verification/Thread_Props.thy ===== *)
theory Thread_Props
  imports Thread_Safe
begin

section \<open>The properties of the thread library\<close>

text \<open>Sequences of moves, the effect of shutting down, and the properties.\<close>

subsection \<open>Sequences of moves\<close>

fun run_moves :: "bool \<Rightarrow> (nat \<times> move) list \<Rightarrow> threads \<Rightarrow> outcome" where
  "run_moves reuse [] st = Ok st"
| "run_moves reuse ((s, mv) # ms) st =
     (case step reuse s mv st of Ok st' \<Rightarrow> run_moves reuse ms st' | r \<Rightarrow> r)"

lemma reachable_run: "run_moves reuse ms st = Ok st' \<Longrightarrow> reachable reuse st \<Longrightarrow> reachable reuse st'"
proof (induction ms arbitrary: st)
  case (Cons m ms)
  obtain s mv where m: "m = (s, mv)" by (cases m)
  then obtain st1 where "step reuse s mv st = Ok st1" "run_moves reuse ms st1 = Ok st'"
    using Cons.prems(1) by (auto split: outcome.splits)
  then show ?case using Cons.IH reachable.move [OF Cons.prems(2)] by blast
qed simp

declare insert_descend.simps [code] insert_adjust.simps [code] go_rightmost.simps [code]
  delete_climb.simps [code] delete_undo.simps [code] delete_find.simps [code] go_left.simps [code]
  climb_from_left.simps [code] self_loop.simps [code]

definition from_start :: "bool \<Rightarrow> (nat \<times> move) list \<Rightarrow> outcome" where
  "from_start reuse ms =
     (case thread_initialize False of None \<Rightarrow> Undefined | Some st \<Rightarrow> run_moves reuse ms st)"

lemma reachable_from_start: "from_start reuse ms = Ok st \<Longrightarrow> reachable reuse st"
  unfolding from_start_def by (auto split: option.splits intro: reachable_run reachable.start)

subsection \<open>Freeing the registry\<close>

lemma free_threads_all:
  assumes "\<forall>k \<in> set ks. h (snd k) \<noteq> None" and "distinct (map snd ks)"
  shows "free_threads ks h = Some (\<lambda>a. if a \<in> snd ` set ks then None else h a)"
  using assms
proof (induction ks arbitrary: h)
  case (Cons k ks)
  have "\<forall>l \<in> set ks. (h(snd k := None)) (snd l) \<noteq> None" using Cons.prems by (auto simp: image_iff)
  moreover have "free_thread k h = Some (h(snd k := None))" using Cons.prems(1) by (auto simp: free_thread_def)
  ultimately have "free_threads (k # ks) h = Some (\<lambda>a. if a \<in> snd ` set ks then None else (h(snd k := None)) a)"
    using Cons.IH [of "h(snd k := None)"] Cons.prems(2) by (simp del: fun_upd_apply)
  then show ?case by (auto simp: fun_eq_iff)
qed (simp add: fun_eq_iff)

lemma sorted_ids: "tree_ok t ks \<Longrightarrow> sorted_wrt (\<lambda>a b. fst a < fst b) ks"
  unfolding tree_ok_def strict_by_def
  by (auto simp: compare_threads_def elim!: sorted_wrt_mono_rel [rotated] split: if_split_asm)

lemma distinct_records:
  assumes heap: "heap_ok h nr ni ev ks" and tree: "tree_ok t ks"
  shows "distinct (map snd ks)"
proof -
  have "sorted_wrt (<) (map fst ks)" using sorted_ids [OF tree] by (simp add: sorted_wrt_map)
  then have "distinct (map fst ks)" by (simp add: strict_sorted_iff)
  moreover have "inj_on snd (set ks)"
  proof (rule inj_onI)
    fix k l assume "k \<in> set ks" "l \<in> set ks" "snd k = snd l"
    then show "k = l" using heap_okD(7) [OF heap, of k] heap_okD(7) [OF heap, of l] by (auto intro: prod_eqI)
  qed
  ultimately show ?thesis by (simp add: distinct_map)
qed

lemma shutdown_frees:
  assumes inv: "threads_inv st ks" and len: "length ks < 2 ^ 32"
  shows "thread_shutdown st = Some (\<lambda>a. if a \<in> registered ks then None else thread_heap st a)"
proof -
  obtain T where T: "tree_rep (threadtree st) T" "keys T = ks" "tlength (threadtree st) = of_nat (length ks)"
    using invD(1) [OF inv] by (auto simp: tree_ok_def avl_rep_def)
  have "(of_nat (length ks) :: 32 word) = 0 \<longleftrightarrow> ks = []"
    using len by (auto simp: word_of_nat_eq_0_iff dest: dvd_imp_le)
  then have empty: "tlength (threadtree st) = 0 \<longleftrightarrow> T = Tip"
    using T(2,3) by (cases T) auto
  have "\<forall>k \<in> set ks. thread_heap st (snd k) \<noteq> None" using heap_okD(7) [OF invD(2) [OF inv]] by fastforce
  moreover have "List.map_filter (\<lambda>k. k) (map Some ks) = ks" by (induction ks) (simp_all add: map_filter_simps)
  ultimately show ?thesis
    using avl_tree_free_all [OF T(1) empty] T(2) free_threads_all [of ks "thread_heap st"]
      distinct_records [OF invD(2,1) [OF inv]]
    by (auto simp: thread_shutdown_def registered_def)
qed

subsection \<open>Properties\<close>

text \<open>
  C27: When the system never uses an identifier twice, no interleaving of threads that create,
  start, rename, end and join threads does anything undefined: no step reads or frees a
  record that has been freed, and at most one thread is in a section of the tree's mutex. The
  tree holds live records sorted by distinct identifiers, among them that of every thread
  between its insertion and its removal, and shutting down (with fewer than \<open>2^32\<close> threads)
  frees exactly these.
\<close>

theorem thread_registry_safe:
  assumes "reachable False st"
  shows "step False me mv st \<noteq> Undefined \<and>
    (\<forall>s e t f. thr st s = Some e \<longrightarrow> thr st t = Some f \<longrightarrow> holds e \<longrightarrow> holds f \<longrightarrow> s = t) \<and>
    (\<exists>ks. avl_rep compare_threads (threadtree st) ks \<and> sorted_wrt (\<lambda>a b. fst a < fst b) ks \<and>
       (\<forall>k \<in> set ks. \<exists>r. thread_heap st (snd k) = Some r \<and> thread_id r = fst k) \<and>
       (\<forall>s e. thr st s = Some e \<longrightarrow> \<not> pre e \<longrightarrow> \<not> gone e \<longrightarrow> own e \<in> snd ` set ks) \<and>
       (length ks < 2 ^ 32 \<longrightarrow>
         thread_shutdown st = Some (\<lambda>a. if a \<in> snd ` set ks then None else thread_heap st a)))"
proof -
  obtain ks where inv: "threads_inv st ks" using reachable_inv [OF assms] by blast
  note heap = invD(2) [OF inv] and tree = invD(1) [OF inv]
  have "step False me mv st \<noteq> Undefined" using step_kept [OF inv, of me mv] by auto
  moreover have "s = t" if "thr st s = Some e" "thr st t = Some f" "holds e" "holds f" for s e t f
    using invD(7) [OF inv] that by fastforce
  moreover have "sorted_wrt (\<lambda>a b. fst a < fst b) ks" by (rule sorted_ids [OF tree])
  moreover have "own e \<in> snd ` set ks" if "thr st s = Some e" "\<not> pre e" "\<not> gone e" for s e
    using own_record [OF inv that(1,3)] that(2) by (auto simp: registered_def)
  ultimately show ?thesis
    using heap_okD(7) [OF heap] tree shutdown_frees [OF inv] unfolding tree_ok_def registered_def by blast
qed

text \<open>
  C28: Then \<open>thread_self\<close> returns the caller's own record, in every reachable state and for
  every thread whose record is in the tree.
\<close>

theorem thread_self_is_own_record:
  assumes "reachable False st" and "thr st s = Some e" and "\<not> pre e" and "\<not> gone e"
  shows "thread_self s st = Some (Some (own e)) \<and>
    (\<exists>r. thread_heap st (own e) = Some r \<and> sys_thread r = s \<and> th_detached r = is_detached e)"
proof -
  obtain ks where inv: "threads_inv st ks" using reachable_inv [OF assms(1)] by blast
  then show ?thesis using thread_self_own [OF inv assms(2,4,3)] own_record [OF inv assms(2,4)] by blast
qed

definition thread_demo :: "(nat \<times> move) list" where
  "thread_demo =
    [(1, Call_Create ''A'' ''main.c'' 1 False), (1, Go), (1, Go), (1, Go), (1, Spawn_New 2), (2, Go), (2, Go), (2, Go)]"

fun the_ok :: "outcome \<Rightarrow> threads option" where
  "the_ok (Ok st) = Some st"
| "the_ok r = None"

definition sees :: "(threads \<Rightarrow> bool) \<Rightarrow> outcome \<Rightarrow> bool" where
  "sees P r = (case the_ok r of None \<Rightarrow> False | Some st \<Rightarrow> P st)"

lemma seesD: "sees P r \<Longrightarrow> \<exists>st. r = Ok st \<and> P st"
  unfolding sees_def by (cases r) auto

lemma demo_sees: "sees (\<lambda>st. map_option own (thr st 2) = Some 1 \<and> map_option pc (thr st 2) = Some Work \<and>
    map_option is_detached (thr st 2) = Some False) (from_start False thread_demo)"
  by code_simp

lemma demo_state: "\<exists>st e. reachable False st \<and> thr st 2 = Some e \<and> own e = 1 \<and> \<not> pre e \<and> \<not> gone e"
  using seesD [OF demo_sees] reachable_from_start [of False thread_demo] by (auto simp: pre_def gone_def)

lemma thread_registry_safe_witness:
  "\<exists>st ks. reachable False st \<and> step False 2 Return st \<noteq> Undefined \<and>
     avl_rep compare_threads (threadtree st) ks \<and> 1 \<in> snd ` set ks"
proof -
  obtain st e where st: "reachable False st" "thr st 2 = Some e" "own e = 1" "\<not> pre e" "\<not> gone e"
    using demo_state by blast
  then show ?thesis using thread_registry_safe [of st 2 Return] by metis
qed

lemma thread_self_is_own_record_witness:
  "\<exists>st. reachable False st \<and> thread_self 2 st = Some (Some 1)"
proof -
  obtain st e where st: "reachable False st" "thr st 2 = Some e" "own e = 1" "\<not> pre e" "\<not> gone e"
    using demo_state by blast
  then show ?thesis using thread_self_is_own_record [OF st(1,2,4,5)] by auto
qed

text \<open>Thread A ends and is joined; before the joining thread removes its record, a new thread gets its identifier.\<close>

definition reuse_prefix :: "(nat \<times> move) list" where
  "reuse_prefix =
    [(1, Call_Create ''A'' ''main.c'' 1 False), (1, Go), (1, Go), (1, Go), (1, Spawn_New 2), (2, Go), (2, Go), (2, Go),
     (1, Call_Create ''B'' ''main.c'' 2 False), (1, Go), (1, Go), (1, Go), (1, Spawn_New 3), (3, Go), (3, Go), (3, Go),
     (3, Call_Create ''D'' ''main.c'' 3 False), (3, Go), (3, Go), (3, Go),
     (2, Return), (2, Go), (1, Call_Join 1), (1, Go),
     (3, Spawn_New 2), (2, Go), (2, Go), (2, Go)]"

definition reuse_suffix :: "(nat \<times> move) list" where
  "reuse_suffix = [(2, Call_Rename ''me''), (2, Go), (2, Go), (2, Go), (1, Go), (1, Go), (2, Go)]"

fun undefined_outcome :: "outcome \<Rightarrow> bool" where
  "undefined_outcome Undefined = True"
| "undefined_outcome r = False"

lemma reuse_sees: "sees (\<lambda>st. map_option own (thr st 2) = Some 3 \<and> map_option pc (thr st 2) = Some Work \<and>
    thread_self 2 st = Some (Some 1) \<and> undefined_outcome (run_moves True reuse_suffix st)) (from_start True reuse_prefix)"
  by code_simp

text \<open>
  C29: When the system does use identifiers again, as POSIX lets it after \<open>pthread_join\<close>,
  \<open>thread_self\<close> can return another thread's record: \<open>thread_join\<close> removes the record only after
  it has joined. A thread that renames itself then follows the record after it was freed.
\<close>

theorem thread_join_lets_thread_self_fail:
  "\<exists>st e. reachable True st \<and> thr st 2 = Some e \<and> pc e = Work \<and> own e = 3 \<and>
     thread_self 2 st = Some (Some 1) \<and> run_moves True reuse_suffix st = Undefined"
proof -
  obtain st where st: "from_start True reuse_prefix = Ok st" "map_option own (thr st 2) = Some 3"
    "map_option pc (thr st 2) = Some Work" "thread_self 2 st = Some (Some 1)"
    "undefined_outcome (run_moves True reuse_suffix st)"
    using seesD [OF reuse_sees] by blast
  then show ?thesis
    using reachable_from_start [OF st(1)] by (cases "run_moves True reuse_suffix st") auto
qed

end
