(* ===== verification/Timing.thy ===== *)
theory Timing
  imports Prelude
begin

section \<open>Time: \<open>timing/timing.c\<close> and the sleeps of \<open>thread/thread.c\<close>\<close>

text \<open>
  The conversions between milliseconds or microseconds and the structures of the system, at
  their widths, and the sleeps. The sleeping calls are the ones of POSIX, on an exact clock: a
  signal may come while the call sleeps (\<open>Some d\<close>: after \<open>d\<close> units of time), and then
  \<open>nanosleep\<close> fails with \<open>EINTR\<close> and stores what remains, \<open>select\<close> fails and stores nothing; a
  time that is not normalised is refused (\<open>EINVAL\<close>). A sleep is modelled by how long it lasts.
\<close>

record timespec =
  tv_sec :: int
  tv_nsec :: int

definition timing_get_time :: "64 word \<Rightarrow> 64 word \<Rightarrow> 64 word" where
  "timing_get_time sec usec = sec * 1000 + usec div 1000"

text \<open>A sleep in \<open>select\<close>, which no descriptor ends: the microseconds it lasts.\<close>

record timeval =
  val_sec :: int
  val_usec :: int

definition usecs :: "timeval \<Rightarrow> int" where
  "usecs t = val_sec t * 1000000 + val_usec t"

definition select_sleep :: "timeval \<Rightarrow> nat option \<Rightarrow> int" where
  "select_sleep t sig =
     (if val_sec t < 0 \<or> val_usec t < 0 \<or> 1000000 \<le> val_usec t then 0
      else case sig of None \<Rightarrow> usecs t | Some d \<Rightarrow> min (int d) (usecs t))"

definition timing_timeval :: "64 word \<Rightarrow> timeval" where
  "timing_timeval sleeptime =
     \<lparr>val_sec = uint (sleeptime div 1000), val_usec = uint ((sleeptime mod 1000) * 1000)\<rparr>"

definition timing_sleep :: "64 word \<Rightarrow> nat option \<Rightarrow> int" where
  "timing_sleep sleeptime sig = select_sleep (timing_timeval sleeptime) sig"

text \<open>The time a condition variable waits: \<open>millis\<close> is an \<open>int\<close>, division rounds to zero.\<close>

definition cond_timespec :: "int \<Rightarrow> timespec" where
  "cond_timespec millis =
     (let sec = (if millis < 0 then - (- millis div 1000) else millis div 1000) in
      \<lparr>tv_sec = sec, tv_nsec = (millis - sec * 1000) * 1000000\<rparr>)"

definition sleep_timespec :: "64 word \<Rightarrow> timespec" where
  "sleep_timespec len = \<lparr>tv_sec = uint (len div 1000000), tv_nsec = uint ((len mod 1000000) * 1000)\<rparr>"

definition nsecs :: "timespec \<Rightarrow> int" where
  "nsecs t = tv_sec t * 1000000000 + tv_nsec t"

text \<open>
  One call of \<open>nanosleep\<close>: the nanoseconds it sleeps and how it ends. The loop of
  \<open>thread_sleep\<close> calls it again for what remains while a signal interrupted it, and stops on any
  other error; \<open>sigs\<close> are the signals, each by the time since the last call started.
\<close>

datatype nano_end = Slept | Interrupted timespec | Refused

definition of_nsecs :: "int \<Rightarrow> timespec" where
  "of_nsecs n = \<lparr>tv_sec = n div 1000000000, tv_nsec = n mod 1000000000\<rparr>"

definition nanosleep :: "timespec \<Rightarrow> nat option \<Rightarrow> int \<times> nano_end" where
  "nanosleep t sig =
     (if tv_sec t < 0 \<or> tv_nsec t < 0 \<or> 1000000000 \<le> tv_nsec t then (0, Refused)
      else case sig of
        None \<Rightarrow> (nsecs t, Slept)
      | Some d \<Rightarrow>
          if int d < nsecs t then (int d, Interrupted (of_nsecs (nsecs t - int d)))
          else (nsecs t, Slept))"

fun sleep_loop :: "timespec \<Rightarrow> nat list \<Rightarrow> int" where
  "sleep_loop t [] = fst (nanosleep t None)"
| "sleep_loop t (d # sigs) =
     (case nanosleep t (Some d) of
        (e, Interrupted r) \<Rightarrow> e + sleep_loop r sigs
      | (e, Slept) \<Rightarrow> e
      | (e, Refused) \<Rightarrow> e)"

definition thread_sleep :: "64 word \<Rightarrow> nat list \<Rightarrow> int" where
  "thread_sleep len sigs = sleep_loop (sleep_timespec len) sigs"

text \<open>Where there is no \<open>nanosleep\<close>, the sleep is one call of \<open>select\<close>.\<close>

definition thread_timeval :: "64 word \<Rightarrow> timeval" where
  "thread_timeval len = \<lparr>val_sec = uint (len div 1000000), val_usec = uint (len mod 1000000)\<rparr>"

definition thread_sleep_select :: "64 word \<Rightarrow> nat option \<Rightarrow> int" where
  "thread_sleep_select len sig = select_sleep (thread_timeval len) sig"

subsection \<open>The conversions are exact and give normalised times\<close>

lemma unat_mod_times:
  fixes len m k :: "64 word"
  assumes "0 < unat m" and "unat m * unat k < 2 ^ 64"
  shows "unat ((len mod m) * k) = (unat len mod unat m) * unat k"
proof -
  have "unat len mod unat m * unat k \<le> unat m * unat k" using assms(1) by (simp add: less_imp_le)
  then have "unat len mod unat m * unat k < 2 ^ 64" using assms(2) by (rule le_less_trans)
  then have "unat (len mod m) * unat k < 2 ^ LENGTH(64)" by (simp add: unat_mod_distrib)
  then have "unat (len mod m * k) = unat (len mod m) * unat k" by (rule unat_mult_lem [THEN iffD1])
  then show ?thesis by (simp add: unat_mod_distrib)
qed

text \<open>The loop sleeps the whole time, whatever signals come.\<close>

definition normal :: "timespec \<Rightarrow> bool" where
  "normal t \<longleftrightarrow> 0 \<le> tv_sec t \<and> 0 \<le> tv_nsec t \<and> tv_nsec t < 1000000000"

lemma of_nsecs: "0 \<le> n \<Longrightarrow> normal (of_nsecs n) \<and> nsecs (of_nsecs n) = n"
  by (simp add: normal_def of_nsecs_def nsecs_def pos_imp_zdiv_nonneg_iff)

lemma sleep_loop_whole: "normal t \<Longrightarrow> sleep_loop t sigs = nsecs t"
proof (induction sigs arbitrary: t)
  case Nil
  then show ?case by (simp add: nanosleep_def normal_def)
next
  case (Cons d sigs)
  have "0 \<le> nsecs t - int d \<Longrightarrow> sleep_loop (of_nsecs (nsecs t - int d)) sigs = nsecs t - int d"
    using Cons.IH of_nsecs by simp
  then show ?case using Cons.prems by (auto simp: nanosleep_def normal_def)
qed

lemma sleep_timespec_exact:
  "0 \<le> tv_nsec (sleep_timespec len) \<and> tv_nsec (sleep_timespec len) < 1000000000 \<and>
   nsecs (sleep_timespec len) = uint len * 1000"
proof -
  have n: "unat ((len mod 1000000) * 1000) = (unat len mod 1000000) * 1000"
    using unat_mod_times [of 1000000 1000 len] by simp
  have s: "unat (len div 1000000) = unat len div 1000000" by (simp add: unat_div_distrib)
  have "int (unat len mod 1000000) < 1000000" by simp
  moreover have "int (unat len) = int (unat len div 1000000) * 1000000 + int (unat len mod 1000000)"
    unfolding zdiv_int zmod_int by simp
  ultimately show ?thesis
    unfolding sleep_timespec_def nsecs_def timespec.simps uint_nat n s by simp
qed

lemma sleep_timespec_normal: "normal (sleep_timespec len)"
  using sleep_timespec_exact [of len] by (simp add: normal_def) (simp add: sleep_timespec_def)

lemma timing_timeval_exact:
  "0 \<le> val_sec (timing_timeval ms) \<and> 0 \<le> val_usec (timing_timeval ms) \<and>
   val_usec (timing_timeval ms) < 1000000 \<and> usecs (timing_timeval ms) = uint ms * 1000"
proof -
  have n: "unat ((ms mod 1000) * 1000) = (unat ms mod 1000) * 1000"
    using unat_mod_times [of 1000 1000 ms] by simp
  have s: "unat (ms div 1000) = unat ms div 1000" by (simp add: unat_div_distrib)
  have "int (unat ms mod 1000) < 1000" by simp
  moreover have "int (unat ms) = int (unat ms div 1000) * 1000 + int (unat ms mod 1000)"
    unfolding zdiv_int zmod_int by simp
  ultimately show ?thesis
    unfolding timing_timeval_def usecs_def timeval.simps uint_nat n s by simp
qed

lemma thread_timeval_exact:
  "0 \<le> val_sec (thread_timeval us) \<and> 0 \<le> val_usec (thread_timeval us) \<and>
   val_usec (thread_timeval us) < 1000000 \<and> usecs (thread_timeval us) = uint us"
  by (simp add: thread_timeval_def usecs_def uint_div uint_mod pos_imp_zdiv_nonneg_iff)

lemma select_sleeps:
  "0 \<le> val_sec t \<Longrightarrow> 0 \<le> val_usec t \<Longrightarrow> val_usec t < 1000000 \<Longrightarrow>
   select_sleep t sig = (case sig of None \<Rightarrow> usecs t | Some d \<Rightarrow> min (int d) (usecs t))"
  by (simp add: select_sleep_def)

lemma cond_timespec_exact:
  "0 \<le> tv_nsec (cond_timespec (int millis)) \<and> tv_nsec (cond_timespec (int millis)) < 1000000000 \<and>
   nsecs (cond_timespec (int millis)) = int millis * 1000000"
proof -
  have "int millis = int millis div 1000 * 1000 + int millis mod 1000" by simp
  moreover have "0 \<le> int millis mod 1000" "int millis mod 1000 < 1000" by simp_all
  ultimately show ?thesis unfolding cond_timespec_def Let_def nsecs_def by simp linarith
qed

text \<open>A negative time that is not whole seconds gives negative nanoseconds.\<close>

lemma cond_timespec_any:
  "nsecs (cond_timespec millis) = millis * 1000000 \<and> \<bar>tv_nsec (cond_timespec millis)\<bar> < 1000000000 \<and>
   (0 \<le> tv_nsec (cond_timespec millis) \<longleftrightarrow> 0 \<le> millis \<or> 1000 dvd millis)"
proof (cases "0 \<le> millis")
  case True
  then show ?thesis using cond_timespec_exact [of "nat millis"] by simp
next
  case False
  define q where "q = - millis div 1000"
  define r where "r = - millis mod 1000"
  have e: "- millis = q * 1000 + r" "0 \<le> r" "r < 1000" by (simp_all add: q_def r_def)
  have d: "1000 dvd millis \<longleftrightarrow> r = 0"
    unfolding r_def dvd_eq_mod_eq_0 [symmetric] by simp
  have "millis - - q * 1000 = - r" using e(1) by linarith
  then have "cond_timespec millis = \<lparr>tv_sec = - q, tv_nsec = - r * 1000000\<rparr>"
    using False by (simp add: cond_timespec_def Let_def q_def)
  then show ?thesis using e False unfolding d by (simp add: nsecs_def)
qed

text \<open>
  C40: \<open>thread_sleep\<close> sleeps just the time it was asked for, for every 64-bit number of
  microseconds and however many signals interrupt it, whenever they come. The sleeps in \<open>select\<close>
  (\<open>timing_sleep\<close>, and \<open>thread_sleep\<close> where there is no \<open>nanosleep\<close>) sleep the exact time when
  no signal comes and end at the first signal: they are not resumed. The time given to a
  condition variable is the exact time for every \<open>int\<close> of milliseconds, and its nanoseconds are
  below a second in size, but they are negative, so that the system refuses the time, exactly
  when the argument is negative and not a whole number of seconds.
\<close>

theorem timing_conversions_exact:
  "thread_sleep len sigs = uint len * 1000 \<and>
   thread_sleep_select len sig = (case sig of None \<Rightarrow> uint len | Some d \<Rightarrow> min (int d) (uint len)) \<and>
   timing_sleep len sig = (case sig of None \<Rightarrow> uint len * 1000 | Some d \<Rightarrow> min (int d) (uint len * 1000)) \<and>
   (let t = cond_timespec millis in
    nsecs t = millis * 1000000 \<and> \<bar>tv_nsec t\<bar> < 1000000000 \<and>
    (0 \<le> tv_nsec t \<longleftrightarrow> 0 \<le> millis \<or> 1000 dvd millis))"
  using sleep_loop_whole [OF sleep_timespec_normal] sleep_timespec_exact [of len]
    timing_timeval_exact [of len] thread_timeval_exact [of len] cond_timespec_any [of millis]
  by (simp add: thread_sleep_def thread_sleep_select_def timing_sleep_def select_sleeps Let_def split: option.split)

text \<open>The clock in milliseconds, while the seconds fit 54 bits.\<close>

lemma timing_get_time_exact:
  assumes "uint sec < 2 ^ 54" and "uint usec < 1000000"
  shows "uint (timing_get_time sec usec) = uint sec * 1000 + uint usec div 1000"
proof -
  have d: "uint (usec div 1000) = uint usec div 1000" by (simp add: uint_div)
  have m: "uint (sec * 1000) = uint sec * 1000" using assms(1) by (simp add: uint_mult_lem [THEN iffD1])
  show ?thesis unfolding timing_get_time_def
    using assms m d by (subst uint_add_lem [THEN iffD1]) simp_all
qed

end
