(* ===== verification/Thread_Sync.thy ===== *)
theory Thread_Sync
  imports Timing
begin

section \<open>Locks and condition variables: \<open>thread/thread.c\<close>\<close>

text \<open>
  The synchronisation objects of the thread library in the ordinary configuration. Each
  function of the library is the list of the pthread calls it makes, in order; what is left of
  a thread's program is a list of such calls and of the actions of the user's code in between
  (\<open>Do\<close>, whose meaning \<open>sem\<close> is a parameter). A step lets one thread do its next call.
  What POSIX leaves open is a choice of the step: which waiter a signal wakes, spurious
  wake-ups, the failure of a call that creates an object.
\<close>

subsection \<open>The objects\<close>

text \<open>Mutexes and spin locks are held in the same way; they differ in what a relock does.\<close>

datatype lock = Mutex nat | Spin nat

datatype lock_state = Absent | Free | Held nat

datatype rw_state = Readers "nat list" | Writer nat

text \<open>\<open>Waiting\<close> is what \<open>Cond_Wait\<close> leaves of itself; a woken thread locks the mutex again.\<close>

datatype 'u prim =
    Init lock
  | Destroy lock
  | Lock lock
  | Unlock lock
  | Cond_Init nat
  | Cond_Destroy nat
  | Cond_Wait nat nat "timespec option"
  | Waiting nat nat "timespec option"
  | Cond_Signal nat
  | Cond_Broadcast nat
  | Rw_Init nat
  | Rw_Destroy nat
  | Rd_Lock nat
  | Wr_Lock nat
  | Rw_Unlock nat
  | Do 'u

record ('u, 's) sync =
  locks :: "lock \<Rightarrow> lock_state"
  conds :: "nat set"
  rws :: "nat \<Rightarrow> rw_state option"
  tids :: "nat list"
  progs :: "nat \<Rightarrow> 'u prim list"
  shared :: 's
  now :: int

datatype choice = Proceed | Wake nat | Timeout | Spurious | Refuse

datatype 'a result = Blocks | Undef | Aborts | Next 'a

definition set_lock :: "lock \<Rightarrow> lock_state \<Rightarrow> ('u, 's) sync \<Rightarrow> ('u, 's) sync" where
  "set_lock l s st = st\<lparr>locks := (locks st)(l := s)\<rparr>"

definition set_rw :: "nat \<Rightarrow> rw_state option \<Rightarrow> ('u, 's) sync \<Rightarrow> ('u, 's) sync" where
  "set_rw r s st = st\<lparr>rws := (rws st)(r := s)\<rparr>"

definition set_prog :: "nat \<Rightarrow> 'u prim list \<Rightarrow> ('u, 's) sync \<Rightarrow> ('u, 's) sync" where
  "set_prog t ps st = st\<lparr>progs := (progs st)(t := ps)\<rparr>"

fun waits :: "nat \<Rightarrow> 'u prim list \<Rightarrow> bool" where
  "waits c (Waiting c' m tm # ps) \<longleftrightarrow> c' = c"
| "waits c ps \<longleftrightarrow> False"

fun woken :: "'u prim list \<Rightarrow> 'u prim list" where
  "woken (Waiting c m tm # ps) = Lock (Mutex m) # ps"
| "woken ps = ps"

subsection \<open>The pthread calls\<close>

text \<open>A wait up to a time with nanoseconds out of range fails at once and keeps the mutex.\<close>

definition bad_time :: "timespec option \<Rightarrow> bool" where
  "bad_time tm \<longleftrightarrow> (case tm of Some t \<Rightarrow> tv_nsec t < 0 \<or> 1000000000 \<le> tv_nsec t | None \<Rightarrow> False)"

definition some_waits :: "nat \<Rightarrow> ('u, 's) sync \<Rightarrow> bool" where
  "some_waits c st \<longleftrightarrow> (\<exists>t \<in> set (tids st). waits c (progs st t))"

text \<open>
  One call of thread \<open>me\<close>; \<open>ps\<close> is the rest of its program, which the state no longer has in
  front. Locking a mutex one holds, unlocking what one does not hold and using an object
  that is not there are undefined. Initialising a free mutex makes it new; POSIX would leave that
  open, but the library does it to its static mutexes, which are initialised already.
\<close>

fun call :: "(nat \<Rightarrow> 'u \<Rightarrow> 's \<Rightarrow> 's option) \<Rightarrow> nat \<Rightarrow> choice \<Rightarrow> 'u prim \<Rightarrow> 'u prim list \<Rightarrow> ('u, 's) sync \<Rightarrow> ('u, 's) sync result" where
  "call sem me ch (Init l) ps st =
     (case locks st l of
        Held t \<Rightarrow> Undef
      | _ \<Rightarrow> (case l of Spin s \<Rightarrow> if ch = Refuse then Aborts else Next (set_lock l Free st)
                    | Mutex m \<Rightarrow> Next (set_lock l Free st)))"
| "call sem me ch (Destroy l) ps st = (if locks st l = Free then Next (set_lock l Absent st) else Undef)"
| "call sem me ch (Lock l) ps st =
     (case locks st l of
        Absent \<Rightarrow> Undef
      | Free \<Rightarrow> Next (set_lock l (Held me) st)
      | Held t \<Rightarrow> if t \<noteq> me then Blocks else (case l of Mutex m \<Rightarrow> Undef | Spin s \<Rightarrow> Aborts))"
| "call sem me ch (Unlock l) ps st = (if locks st l = Held me then Next (set_lock l Free st) else Undef)"
| "call sem me ch (Cond_Init c) ps st = Next (st\<lparr>conds := insert c (conds st)\<rparr>)"
| "call sem me ch (Cond_Destroy c) ps st =
     (if c \<in> conds st \<and> \<not> some_waits c st then Next (st\<lparr>conds := conds st - {c}\<rparr>) else Undef)"
| "call sem me ch (Cond_Wait c m tm) ps st =
     (if c \<in> conds st \<and> locks st (Mutex m) = Held me
      then Next (if bad_time tm then st else set_prog me (Waiting c m tm # ps) (set_lock (Mutex m) Free st))
      else Undef)"
| "call sem me ch (Waiting c m tm) ps st =
     (if ch = Spurious \<or> ch = Timeout \<and> (case tm of Some t \<Rightarrow> nsecs t \<le> now st | None \<Rightarrow> False)
      then Next (set_prog me (Lock (Mutex m) # ps) st) else Blocks)"
| "call sem me ch (Cond_Signal c) ps st =
     (if c \<notin> conds st then Undef
      else if \<not> some_waits c st then Next st
      else (case ch of
          Wake t \<Rightarrow> if t \<in> set (tids st) \<and> waits c (progs st t) then Next (set_prog t (woken (progs st t)) st) else Blocks
        | _ \<Rightarrow> Blocks))"
| "call sem me ch (Cond_Broadcast c) ps st =
     (if c \<notin> conds st then Undef
      else Next (st\<lparr>progs := (\<lambda>t. if waits c (progs st t) then woken (progs st t) else progs st t)\<rparr>))"
| "call sem me ch (Rw_Init r) ps st = Next (set_rw r (Some (Readers [])) st)"
| "call sem me ch (Rw_Destroy r) ps st = (if rws st r = Some (Readers []) then Next (set_rw r None st) else Undef)"
| "call sem me ch (Rd_Lock r) ps st =
     (case rws st r of
        None \<Rightarrow> Undef
      | Some (Readers ts) \<Rightarrow> Next (set_rw r (Some (Readers (me # ts))) st)
      | Some (Writer t) \<Rightarrow> if t = me then Undef else Blocks)"
| "call sem me ch (Wr_Lock r) ps st =
     (case rws st r of
        None \<Rightarrow> Undef
      | Some (Readers ts) \<Rightarrow> if ts = [] then Next (set_rw r (Some (Writer me)) st) else if me \<in> set ts then Undef else Blocks
      | Some (Writer t) \<Rightarrow> if t = me then Undef else Blocks)"
| "call sem me ch (Rw_Unlock r) ps st =
     (case rws st r of
        None \<Rightarrow> Undef
      | Some (Readers ts) \<Rightarrow> if me \<in> set ts then Next (set_rw r (Some (Readers (remove1 me ts))) st) else Undef
      | Some (Writer t) \<Rightarrow> if t = me then Next (set_rw r (Some (Readers [])) st) else Undef)"
| "call sem me ch (Do u) ps st = (case sem me u (shared st) of None \<Rightarrow> Undef | Some s \<Rightarrow> Next (st\<lparr>shared := s\<rparr>))"

definition sync_step :: "(nat \<Rightarrow> 'u \<Rightarrow> 's \<Rightarrow> 's option) \<Rightarrow> nat \<Rightarrow> choice \<Rightarrow> ('u, 's) sync \<Rightarrow> ('u, 's) sync result" where
  "sync_step sem me ch st = (case progs st me of [] \<Rightarrow> Blocks | p # ps \<Rightarrow> call sem me ch p ps (set_prog me ps st))"

text \<open>Runs: steps of any threads, while time passes.\<close>

inductive sync_runs :: "(nat \<Rightarrow> 'u \<Rightarrow> 's \<Rightarrow> 's option) \<Rightarrow> ('u, 's) sync \<Rightarrow> ('u, 's) sync \<Rightarrow> bool" for sem st0 where
  here: "sync_runs sem st0 st0"
| moves: "sync_runs sem st0 st \<Longrightarrow> sync_step sem me ch st = Next st' \<Longrightarrow> sync_runs sem st0 st'"
| passes: "sync_runs sem st0 st \<Longrightarrow> now st \<le> n \<Longrightarrow> sync_runs sem st0 (st\<lparr>now := n\<rparr>)"

text \<open>A given sequence of steps.\<close>

fun sync_exec :: "(nat \<Rightarrow> 'u \<Rightarrow> 's \<Rightarrow> 's option) \<Rightarrow> (nat \<times> choice) list \<Rightarrow> ('u, 's) sync \<Rightarrow> ('u, 's) sync result" where
  "sync_exec sem [] st = Next st"
| "sync_exec sem ((t, ch) # ms) st = (case sync_step sem t ch st of Next st' \<Rightarrow> sync_exec sem ms st' | r \<Rightarrow> r)"

lemma runs_exec: "sync_exec sem ms st = Next st' \<Longrightarrow> sync_runs sem st0 st \<Longrightarrow> sync_runs sem st0 st'"
proof (induction ms arbitrary: st)
  case (Cons m ms)
  obtain t ch where m: "m = (t, ch)" by (cases m)
  then obtain st1 where "sync_step sem t ch st = Next st1" "sync_exec sem ms st1 = Next st'"
    using Cons.prems(1) by (auto split: result.splits)
  then show ?case using Cons.IH sync_runs.moves [OF Cons.prems(2)] by blast
qed simp

subsection \<open>The functions of the library\<close>

record cond_t =
  sys_cond :: nat
  cond_mutex :: nat

definition thread_mutex_create_c :: "nat \<Rightarrow> 'u prim list" where
  "thread_mutex_create_c m = [Init (Mutex m)]"

definition thread_mutex_destroy :: "nat \<Rightarrow> 'u prim list" where
  "thread_mutex_destroy m = [Destroy (Mutex m)]"

definition thread_mutex_lock_c :: "nat \<Rightarrow> 'u prim list" where
  "thread_mutex_lock_c m = [Lock (Mutex m)]"

definition thread_mutex_unlock_c :: "nat \<Rightarrow> 'u prim list" where
  "thread_mutex_unlock_c m = [Unlock (Mutex m)]"

definition thread_cond_create_c :: "cond_t \<Rightarrow> 'u prim list" where
  "thread_cond_create_c c = [Cond_Init (sys_cond c), Init (Mutex (cond_mutex c))]"

definition thread_cond_destroy :: "cond_t \<Rightarrow> 'u prim list" where
  "thread_cond_destroy c = [Destroy (Mutex (cond_mutex c)), Cond_Destroy (sys_cond c)]"

definition thread_cond_signal_c :: "cond_t \<Rightarrow> 'u prim list" where
  "thread_cond_signal_c c = [Cond_Signal (sys_cond c)]"

definition thread_cond_broadcast_c :: "cond_t \<Rightarrow> 'u prim list" where
  "thread_cond_broadcast_c c = [Cond_Broadcast (sys_cond c)]"

definition thread_cond_timedwait_c :: "cond_t \<Rightarrow> int \<Rightarrow> 'u prim list" where
  "thread_cond_timedwait_c c millis =
     [Lock (Mutex (cond_mutex c)), Cond_Wait (sys_cond c) (cond_mutex c) (Some (cond_timespec millis)),
      Unlock (Mutex (cond_mutex c))]"

definition thread_cond_wait_c :: "cond_t \<Rightarrow> 'u prim list" where
  "thread_cond_wait_c c =
     [Lock (Mutex (cond_mutex c)), Cond_Wait (sys_cond c) (cond_mutex c) None, Unlock (Mutex (cond_mutex c))]"

definition thread_rwlock_create_c :: "nat \<Rightarrow> 'u prim list" where
  "thread_rwlock_create_c r = [Rw_Init r]"

definition thread_rwlock_destroy :: "nat \<Rightarrow> 'u prim list" where
  "thread_rwlock_destroy r = [Rw_Destroy r]"

definition thread_rwlock_rlock_c :: "nat \<Rightarrow> 'u prim list" where
  "thread_rwlock_rlock_c r = [Rd_Lock r]"

definition thread_rwlock_wlock_c :: "nat \<Rightarrow> 'u prim list" where
  "thread_rwlock_wlock_c r = [Wr_Lock r]"

definition thread_rwlock_unlock_c :: "nat \<Rightarrow> 'u prim list" where
  "thread_rwlock_unlock_c r = [Rw_Unlock r]"

definition thread_spin_create :: "nat \<Rightarrow> 'u prim list" where
  "thread_spin_create s = [Init (Spin s)]"

definition thread_spin_destroy :: "nat \<Rightarrow> 'u prim list" where
  "thread_spin_destroy s = [Destroy (Spin s)]"

definition thread_spin_lock :: "nat \<Rightarrow> 'u prim list" where
  "thread_spin_lock s = [Lock (Spin s)]"

definition thread_spin_unlock :: "nat \<Rightarrow> 'u prim list" where
  "thread_spin_unlock s = [Unlock (Spin s)]"

text \<open>The mutex \<open>_library_mutex\<close> has a number of its own.\<close>

definition library_mutex :: nat where
  "library_mutex = 0"

definition thread_library_lock :: "'u prim list" where
  "thread_library_lock = [Lock (Mutex library_mutex)]"

definition thread_library_unlock :: "'u prim list" where
  "thread_library_unlock = [Unlock (Mutex library_mutex)]"

definition PROTECT_CODE :: "'u prim list \<Rightarrow> 'u prim list" where
  "PROTECT_CODE code = thread_library_lock @ code @ thread_library_unlock"

text \<open>The lock of an AVL tree; \<open>r\<close> is the number of the tree's reader/writer lock.\<close>

definition avl_tree_rlock :: "nat \<Rightarrow> 'u prim list" where
  "avl_tree_rlock r = thread_rwlock_rlock_c r"

definition avl_tree_wlock :: "nat \<Rightarrow> 'u prim list" where
  "avl_tree_wlock r = thread_rwlock_wlock_c r"

definition avl_tree_unlock :: "nat \<Rightarrow> 'u prim list" where
  "avl_tree_unlock r = thread_rwlock_unlock_c r"

text \<open>The lock of a node, where nodes have one (\<open>HAVE_AVL_NODE_LOCK\<close>).\<close>

definition avl_node_rlock :: "nat \<Rightarrow> 'u prim list" where
  "avl_node_rlock r = thread_rwlock_rlock_c r"

definition avl_node_wlock :: "nat \<Rightarrow> 'u prim list" where
  "avl_node_wlock r = thread_rwlock_wlock_c r"

definition avl_node_unlock :: "nat \<Rightarrow> 'u prim list" where
  "avl_node_unlock r = thread_rwlock_unlock_c r"

lemmas sync_calls = thread_mutex_create_c_def thread_mutex_destroy_def thread_mutex_lock_c_def
  thread_mutex_unlock_c_def thread_cond_create_c_def thread_cond_destroy_def thread_cond_signal_c_def
  thread_cond_broadcast_c_def thread_cond_timedwait_c_def thread_cond_wait_c_def thread_rwlock_create_c_def
  thread_rwlock_destroy_def thread_rwlock_rlock_c_def thread_rwlock_wlock_c_def thread_rwlock_unlock_c_def
  thread_spin_create_def thread_spin_destroy_def thread_spin_lock_def thread_spin_unlock_def
  thread_library_lock_def thread_library_unlock_def PROTECT_CODE_def avl_tree_rlock_def avl_tree_wlock_def
  avl_tree_unlock_def avl_node_rlock_def avl_node_wlock_def avl_node_unlock_def

lemma sync_fields [simp]:
  "locks (set_lock l s st) = (locks st)(l := s)" "conds (set_lock l s st) = conds st"
  "rws (set_lock l s st) = rws st" "progs (set_lock l s st) = progs st" "tids (set_lock l s st) = tids st"
  "shared (set_lock l s st) = shared st" "now (set_lock l s st) = now st"
  "locks (set_rw r x st) = locks st" "conds (set_rw r x st) = conds st" "rws (set_rw r x st) = (rws st)(r := x)"
  "progs (set_rw r x st) = progs st" "tids (set_rw r x st) = tids st"
  "shared (set_rw r x st) = shared st" "now (set_rw r x st) = now st"
  "locks (set_prog t ps st) = locks st" "conds (set_prog t ps st) = conds st" "rws (set_prog t ps st) = rws st"
  "progs (set_prog t ps st) = (progs st)(t := ps)" "tids (set_prog t ps st) = tids st"
  "shared (set_prog t ps st) = shared st" "now (set_prog t ps st) = now st"
  by (simp_all add: set_lock_def set_rw_def set_prog_def)

end
