(* ===== verification/Thread_Typed.thy ===== *)
theory Thread_Typed
  imports Thread_Sync
begin

section \<open>A lock discipline, and what it guarantees\<close>

text \<open>
  A check on programs, in the style of a type system: the context is the set of what the
  thread holds. Programs that pass it never make a call without defined behaviour, however
  their steps interleave; when they also hold at most one lock at a time, they cannot
  deadlock.
\<close>

subsection \<open>The check\<close>

datatype hold = H_Lock lock | H_Rd nat | H_Wr nat

text \<open>The objects the threads may use.\<close>

record objects =
  o_locks :: "lock set"
  o_conds :: "nat set"
  o_rws :: "nat set"

fun typed :: "objects \<Rightarrow> hold set \<Rightarrow> 'u prim list \<Rightarrow> bool" where
  "typed E H [] \<longleftrightarrow> H = {}"
| "typed E H (Lock l # ps) \<longleftrightarrow> l \<in> o_locks E \<and> H_Lock l \<notin> H \<and> typed E (insert (H_Lock l) H) ps"
| "typed E H (Unlock l # ps) \<longleftrightarrow> H_Lock l \<in> H \<and> typed E (H - {H_Lock l}) ps"
| "typed E H (Cond_Wait c m tm # ps) \<longleftrightarrow>
     c \<in> o_conds E \<and> Mutex m \<in> o_locks E \<and> H_Lock (Mutex m) \<in> H \<and> typed E H ps"
| "typed E H (Waiting c m tm # ps) \<longleftrightarrow>
     Mutex m \<in> o_locks E \<and> H_Lock (Mutex m) \<notin> H \<and> typed E (insert (H_Lock (Mutex m)) H) ps"
| "typed E H (Cond_Signal c # ps) \<longleftrightarrow> c \<in> o_conds E \<and> typed E H ps"
| "typed E H (Cond_Broadcast c # ps) \<longleftrightarrow> c \<in> o_conds E \<and> typed E H ps"
| "typed E H (Rd_Lock r # ps) \<longleftrightarrow> r \<in> o_rws E \<and> H_Rd r \<notin> H \<and> H_Wr r \<notin> H \<and> typed E (insert (H_Rd r) H) ps"
| "typed E H (Wr_Lock r # ps) \<longleftrightarrow> r \<in> o_rws E \<and> H_Rd r \<notin> H \<and> H_Wr r \<notin> H \<and> typed E (insert (H_Wr r) H) ps"
| "typed E H (Rw_Unlock r # ps) \<longleftrightarrow> (H_Rd r \<in> H \<or> H_Wr r \<in> H) \<and> typed E (H - {H_Rd r, H_Wr r}) ps"
| "typed E H (Do u # ps) \<longleftrightarrow> typed E H ps"
| "typed E H (p # ps) \<longleftrightarrow> False"

text \<open>What a thread holds in a state.\<close>

fun owns :: "('u, 's) sync \<Rightarrow> nat \<Rightarrow> hold \<Rightarrow> bool" where
  "owns st t (H_Lock l) \<longleftrightarrow> locks st l = Held t"
| "owns st t (H_Rd r) \<longleftrightarrow> (\<exists>ts. rws st r = Some (Readers ts) \<and> t \<in> set ts)"
| "owns st t (H_Wr r) \<longleftrightarrow> rws st r = Some (Writer t)"

definition held :: "('u, 's) sync \<Rightarrow> nat \<Rightarrow> hold set" where
  "held st t = {h. owns st t h}"

definition objects_there :: "objects \<Rightarrow> ('u, 's) sync \<Rightarrow> bool" where
  "objects_there E st \<longleftrightarrow> (\<forall>l \<in> o_locks E. locks st l \<noteq> Absent) \<and> o_conds E \<subseteq> conds st \<and>
     (\<forall>r \<in> o_rws E. rws st r \<noteq> None) \<and> (\<forall>r ts. rws st r = Some (Readers ts) \<longrightarrow> distinct ts)"

definition typed_state :: "objects \<Rightarrow> ('u, 's) sync \<Rightarrow> bool" where
  "typed_state E st \<longleftrightarrow> objects_there E st \<and> (\<forall>t. typed E (held st t) (progs st t))"

text \<open>At the start nothing is held.\<close>

definition all_free :: "('u, 's) sync \<Rightarrow> bool" where
  "all_free st \<longleftrightarrow> (\<forall>l t. locks st l \<noteq> Held t) \<and> (\<forall>r s. rws st r = Some s \<longrightarrow> s = Readers [])"

lemma held_all_free: "all_free st \<Longrightarrow> held st t = {}"
proof -
  assume "all_free st"
  then have "\<not> owns st t h" for h by (cases h) (fastforce simp: all_free_def)+
  then show ?thesis by (simp add: held_def)
qed

lemma typed_start:
  "objects_there E st \<Longrightarrow> all_free st \<Longrightarrow> (\<And>t. typed E {} (progs st t)) \<Longrightarrow> typed_state E st"
  by (simp add: typed_state_def held_all_free)

subsection \<open>What calls change of it\<close>

lemma held_set_prog [simp]: "held (set_prog t ps st) = held st"
proof -
  have "owns (set_prog t ps st) u h = owns st u h" for u h by (cases h) simp_all
  then show ?thesis by (intro ext) (simp add: held_def)
qed

lemma held_update [simp]:
  "held (st\<lparr>shared := s\<rparr>) = held st" "held (st\<lparr>now := n\<rparr>) = held st" "held (st\<lparr>progs := f\<rparr>) = held st"
proof -
  have "owns (st\<lparr>shared := s\<rparr>) u h = owns st u h" "owns (st\<lparr>now := n\<rparr>) u h = owns st u h"
    "owns (st\<lparr>progs := f\<rparr>) u h = owns st u h" for u h by (cases h; simp)+
  then show "held (st\<lparr>shared := s\<rparr>) = held st" "held (st\<lparr>now := n\<rparr>) = held st" "held (st\<lparr>progs := f\<rparr>) = held st"
    by (intro ext; simp add: held_def)+
qed

lemma held_lock:
  assumes "locks st l = Free"
  shows "held (set_lock l (Held me) st) t = (if t = me then insert (H_Lock l) (held st t) else held st t)"
proof -
  have "owns (set_lock l (Held me) st) t h \<longleftrightarrow> owns st t h \<or> t = me \<and> h = H_Lock l" for h
    using assms by (cases h) auto
  then show ?thesis by (auto simp: held_def)
qed

lemma held_unlock:
  assumes "locks st l = Held me"
  shows "held (set_lock l Free st) t = (if t = me then held st t - {H_Lock l} else held st t)"
proof -
  have "owns (set_lock l Free st) t h \<longleftrightarrow> owns st t h \<and> \<not> (t = me \<and> h = H_Lock l)" for h
    using assms by (cases h) auto
  then show ?thesis by (auto simp: held_def)
qed

lemma held_rd:
  assumes "rws st r = Some (Readers ts)"
  shows "held (set_rw r (Some (Readers (me # ts))) st) t =
    (if t = me then insert (H_Rd r) (held st t) else held st t)"
proof -
  have "owns (set_rw r (Some (Readers (me # ts))) st) t h \<longleftrightarrow> owns st t h \<or> t = me \<and> h = H_Rd r" for h
    using assms by (cases h) auto
  then show ?thesis by (auto simp: held_def)
qed

lemma held_wr:
  assumes "rws st r = Some (Readers [])"
  shows "held (set_rw r (Some (Writer me)) st) t = (if t = me then insert (H_Wr r) (held st t) else held st t)"
proof -
  have "owns (set_rw r (Some (Writer me)) st) t h \<longleftrightarrow> owns st t h \<or> t = me \<and> h = H_Wr r" for h
    using assms by (cases h) auto
  then show ?thesis by (auto simp: held_def)
qed

lemma held_rw_unlock:
  assumes "rws st r = Some s" and "s = Readers ts \<and> distinct ts \<and> s' = Readers (remove1 me ts) \<or> s = Writer me \<and> s' = Readers []"
  shows "held (set_rw r (Some s') st) t = (if t = me then held st t - {H_Rd r, H_Wr r} else held st t)"
proof -
  have "owns (set_rw r (Some s') st) t h \<longleftrightarrow> owns st t h \<and> \<not> (t = me \<and> h \<in> {H_Rd r, H_Wr r})" for h
    using assms by (cases h) (auto simp: in_set_remove1)
  then show ?thesis by (auto simp: held_def)
qed

lemma held_rw_unlock_rd:
  "rws st r = Some (Readers ts) \<Longrightarrow> distinct ts \<Longrightarrow> held (set_rw r (Some (Readers (remove1 me ts))) st) t =
     (if t = me then held st t - {H_Rd r, H_Wr r} else held st t)"
  by (rule held_rw_unlock) auto

lemma held_rw_unlock_wr:
  "rws st r = Some (Writer me) \<Longrightarrow> held (set_rw r (Some (Readers [])) st) t =
     (if t = me then held st t - {H_Rd r, H_Wr r} else held st t)"
  by (rule held_rw_unlock) auto

lemma held_simps [simp]:
  "H_Lock l \<in> held st t \<longleftrightarrow> locks st l = Held t"
  "H_Rd r \<in> held st t \<longleftrightarrow> (\<exists>ts. rws st r = Some (Readers ts) \<and> t \<in> set ts)"
  "H_Wr r \<in> held st t \<longleftrightarrow> rws st r = Some (Writer t)"
  by (simp_all add: held_def)

lemma typed_woken: "typed E H ps \<Longrightarrow> typed E H (woken ps)"
  by (cases ps rule: woken.cases) auto

lemma typed_stateI:
  assumes "objects_there E st'" and "\<And>t. t \<noteq> me \<Longrightarrow> typed E (held st t) (progs st t)"
    and "\<And>t. t \<noteq> me \<Longrightarrow> held st' t = held st t"
    and "\<And>t. t \<noteq> me \<Longrightarrow> progs st' t = progs st t \<or> progs st' t = woken (progs st t)"
    and "typed E (held st' me) (progs st' me)"
  shows "typed_state E st'"
  unfolding typed_state_def
proof (intro conjI allI)
  fix t
  show "typed E (held st' t) (progs st' t)"
  proof (cases "t = me")
    case True
    then show ?thesis using assms(5) by simp
  next
    case False
    then show ?thesis using assms(2-4) [OF False] typed_woken by auto
  qed
qed (rule assms(1))

lemma objects_there_upd:
  assumes "objects_there E st"
  shows "s \<noteq> Absent \<Longrightarrow> objects_there E (set_lock l s st)" and "objects_there E (set_prog t ps st)"
    and "objects_there E (st\<lparr>shared := x\<rparr>)" and "objects_there E (st\<lparr>now := n\<rparr>)"
    and "objects_there E (st\<lparr>progs := f\<rparr>)" and "objects_there E (set_rw r (Some (Writer t)) st)"
    and "distinct ts \<Longrightarrow> objects_there E (set_rw r (Some (Readers ts)) st)"
  using assms by (auto simp: objects_there_def)

subsection \<open>Programs that pass the check do nothing undefined\<close>

text \<open>One call: it is never undefined but for the user's own action, and the state stays typed.\<close>

lemma typed_call:
  assumes there: "objects_there E st" and others: "\<And>t. t \<noteq> me \<Longrightarrow> typed E (held st t) (progs st t)"
    and mine: "typed E (held st me) (p # ps)" and ps: "progs st me = ps"
  shows "(case call sem me ch p ps st of
       Undef \<Rightarrow> \<exists>u. p = Do u \<and> sem me u (shared st) = None
     | Aborts \<Rightarrow> False | Blocks \<Rightarrow> True
     | Next st' \<Rightarrow> typed_state E st')"
proof -
  note upd = objects_there_upd [OF there] objects_there_upd [OF objects_there_upd(1) [OF there]]
  note ok = typed_stateI [where me = me and st = st, OF _ others]
  show ?thesis
  proof (cases p)
    case (Lock l)
    then consider "locks st l = Free" | t where "t \<noteq> me" "locks st l = Held t"
      using mine there by (cases "locks st l") (auto simp: objects_there_def)
    then show ?thesis
    proof cases
      case 1
      then show ?thesis using Lock mine ps by (auto intro!: ok simp: upd held_lock)
    qed (simp add: Lock)
  next
    case (Unlock l)
    then show ?thesis using mine ps by (auto intro!: ok simp: upd held_unlock)
  next
    case (Cond_Wait c m tm)
    have "insert (H_Lock (Mutex m)) (held st me - {H_Lock (Mutex m)}) = held st me"
      using mine Cond_Wait by auto
    then show ?thesis using Cond_Wait mine ps there
      by (auto intro!: ok simp: upd held_unlock) (auto simp: objects_there_def)
  next
    case (Waiting c m tm)
    then show ?thesis using mine ps by (auto intro!: ok simp: upd)
  next
    case (Cond_Signal c)
    then have "c \<in> conds st" using mine there by (auto simp: objects_there_def)
    then show ?thesis using Cond_Signal mine ps there
      by (cases ch) (auto intro!: ok simp: upd typed_woken)
  next
    case (Cond_Broadcast c)
    then have "c \<in> conds st" using mine there by (auto simp: objects_there_def)
    then show ?thesis using Cond_Broadcast mine ps by (auto intro!: ok simp: upd typed_woken)
  next
    case (Rd_Lock r)
    then consider ts where "rws st r = Some (Readers ts)" "me \<notin> set ts" "distinct ts"
      | t where "t \<noteq> me" "rws st r = Some (Writer t)"
      using mine there by (auto simp: objects_there_def) (metis rw_state.exhaust)
    then show ?thesis
    proof cases
      case (1 ts)
      then show ?thesis using Rd_Lock mine ps by (auto intro!: ok simp: upd held_rd)
    qed (simp add: Rd_Lock)
  next
    case (Wr_Lock r)
    then consider "rws st r = Some (Readers [])"
      | ts where "rws st r = Some (Readers ts)" "ts \<noteq> []" "me \<notin> set ts"
      | t where "t \<noteq> me" "rws st r = Some (Writer t)"
      using mine there by (auto simp: objects_there_def) (metis rw_state.exhaust)
    then show ?thesis
    proof cases
      case 1
      then show ?thesis using Wr_Lock mine ps by (auto intro!: ok simp: upd held_wr)
    qed (simp_all add: Wr_Lock)
  next
    case (Rw_Unlock r)
    then consider ts where "rws st r = Some (Readers ts)" "distinct ts" "me \<in> set ts"
      | "rws st r = Some (Writer me)"
      using mine there by (auto simp: objects_there_def)
    then show ?thesis
      using Rw_Unlock mine ps by cases (auto intro!: ok simp: upd held_rw_unlock distinct_remove1)
  next
    case (Do u)
    then show ?thesis using mine ps
      by (cases "sem me u (shared st)") (auto intro!: ok simp: upd)
  qed (use mine in auto)
qed

lemma step_call:
  "progs st me = p # ps \<Longrightarrow> sync_step sem me ch st = call sem me ch p ps (set_prog me ps st)"
  by (simp add: sync_step_def)

lemma step_Nil [simp]: "progs st me = [] \<Longrightarrow> sync_step sem me ch st = Blocks"
  by (simp add: sync_step_def)

lemma typed_step:
  assumes "typed_state E st"
  shows "(case sync_step sem me ch st of
       Undef \<Rightarrow> \<exists>u ps. progs st me = Do u # ps \<and> sem me u (shared st) = None
     | Aborts \<Rightarrow> False | Blocks \<Rightarrow> True
     | Next st' \<Rightarrow> typed_state E st')"
proof (cases "progs st me")
  case (Cons p ps)
  have "objects_there E (set_prog me ps st)" "typed E (held (set_prog me ps st) me) (p # ps)"
    "\<And>t. t \<noteq> me \<Longrightarrow> typed E (held (set_prog me ps st) t) (progs (set_prog me ps st) t)"
    using assms Cons by (auto simp: typed_state_def objects_there_upd) (metis Cons)
  from typed_call [OF this(1,3,2), where sem = sem and ch = ch] show ?thesis
    unfolding step_call [OF Cons] by (auto simp: Cons split: result.splits)
qed simp

lemma typed_runs: "sync_runs sem st0 st \<Longrightarrow> typed_state E st0 \<Longrightarrow> typed_state E st"
proof (induction rule: sync_runs.induct)
  case (moves st me ch st')
  then show ?case using typed_step [where E = E and st = st and sem = sem and me = me and ch = ch] by simp
qed (simp_all add: typed_state_def objects_there_upd)

subsection \<open>Programs of library calls\<close>

text \<open>What user code does: calls of the library, and actions of its own.\<close>

datatype 'u user_call =
    U_Lock nat
  | U_Unlock nat
  | U_Spin_Lock nat
  | U_Spin_Unlock nat
  | U_Protect "'u list"
  | U_Wait cond_t
  | U_Timedwait cond_t int
  | U_Signal cond_t
  | U_Broadcast cond_t
  | U_Rlock nat
  | U_Wlock nat
  | U_Rw_Unlock nat
  | U_Do 'u

fun calls_of :: "'u user_call \<Rightarrow> 'u prim list" where
  "calls_of (U_Lock m) = thread_mutex_lock_c m"
| "calls_of (U_Unlock m) = thread_mutex_unlock_c m"
| "calls_of (U_Spin_Lock s) = thread_spin_lock s"
| "calls_of (U_Spin_Unlock s) = thread_spin_unlock s"
| "calls_of (U_Protect us) = PROTECT_CODE (map Do us)"
| "calls_of (U_Wait c) = thread_cond_wait_c c"
| "calls_of (U_Timedwait c millis) = thread_cond_timedwait_c c millis"
| "calls_of (U_Signal c) = thread_cond_signal_c c"
| "calls_of (U_Broadcast c) = thread_cond_broadcast_c c"
| "calls_of (U_Rlock r) = thread_rwlock_rlock_c r"
| "calls_of (U_Wlock r) = thread_rwlock_wlock_c r"
| "calls_of (U_Rw_Unlock r) = thread_rwlock_unlock_c r"
| "calls_of (U_Do u) = [Do u]"

definition prims_of :: "'u user_call list \<Rightarrow> 'u prim list" where
  "prims_of us = concat (map calls_of us)"

text \<open>
  The discipline: lock what you do not hold, unlock what you hold, hold nothing at the end. The
  mutex inside a condition variable and that of the library are private (\<open>P\<close>).
\<close>

fun disciplined :: "objects \<Rightarrow> nat set \<Rightarrow> hold set \<Rightarrow> 'u user_call list \<Rightarrow> bool" where
  "disciplined E P H [] \<longleftrightarrow> H = {}"
| "disciplined E P H (U_Lock m # us) \<longleftrightarrow>
     Mutex m \<in> o_locks E \<and> m \<notin> P \<and> H_Lock (Mutex m) \<notin> H \<and> disciplined E P (insert (H_Lock (Mutex m)) H) us"
| "disciplined E P H (U_Unlock m # us) \<longleftrightarrow>
     H_Lock (Mutex m) \<in> H \<and> disciplined E P (H - {H_Lock (Mutex m)}) us"
| "disciplined E P H (U_Spin_Lock s # us) \<longleftrightarrow>
     Spin s \<in> o_locks E \<and> H_Lock (Spin s) \<notin> H \<and> disciplined E P (insert (H_Lock (Spin s)) H) us"
| "disciplined E P H (U_Spin_Unlock s # us) \<longleftrightarrow>
     H_Lock (Spin s) \<in> H \<and> disciplined E P (H - {H_Lock (Spin s)}) us"
| "disciplined E P H (U_Protect as # us) \<longleftrightarrow>
     Mutex library_mutex \<in> o_locks E \<and> library_mutex \<in> P \<and> disciplined E P H us"
| "disciplined E P H (U_Wait c # us) \<longleftrightarrow>
     sys_cond c \<in> o_conds E \<and> Mutex (cond_mutex c) \<in> o_locks E \<and> cond_mutex c \<in> P \<and> disciplined E P H us"
| "disciplined E P H (U_Timedwait c millis # us) \<longleftrightarrow>
     sys_cond c \<in> o_conds E \<and> Mutex (cond_mutex c) \<in> o_locks E \<and> cond_mutex c \<in> P \<and> disciplined E P H us"
| "disciplined E P H (U_Signal c # us) \<longleftrightarrow> sys_cond c \<in> o_conds E \<and> disciplined E P H us"
| "disciplined E P H (U_Broadcast c # us) \<longleftrightarrow> sys_cond c \<in> o_conds E \<and> disciplined E P H us"
| "disciplined E P H (U_Rlock r # us) \<longleftrightarrow>
     r \<in> o_rws E \<and> H_Rd r \<notin> H \<and> H_Wr r \<notin> H \<and> disciplined E P (insert (H_Rd r) H) us"
| "disciplined E P H (U_Wlock r # us) \<longleftrightarrow>
     r \<in> o_rws E \<and> H_Rd r \<notin> H \<and> H_Wr r \<notin> H \<and> disciplined E P (insert (H_Wr r) H) us"
| "disciplined E P H (U_Rw_Unlock r # us) \<longleftrightarrow>
     (H_Rd r \<in> H \<or> H_Wr r \<in> H) \<and> disciplined E P (H - {H_Rd r, H_Wr r}) us"
| "disciplined E P H (U_Do u # us) \<longleftrightarrow> disciplined E P H us"

lemma prims_of_simps [simp]: "prims_of [] = []" "prims_of (u # us) = calls_of u @ prims_of us"
  by (simp_all add: prims_of_def)

lemma typed_Do: "typed E H (map Do us @ ps) \<longleftrightarrow> typed E H ps"
  by (induction us) auto

lemma disciplined_typed:
  "disciplined E P H us \<Longrightarrow> \<forall>m \<in> P. H_Lock (Mutex m) \<notin> H \<Longrightarrow> typed E H (prims_of us)"
proof (induction E P H us rule: disciplined.induct)
  case (6 E P H as us)
  then have "H_Lock (Mutex library_mutex) \<notin> H" by simp
  then show ?case using 6 by (simp add: sync_calls typed_Do)
qed (auto simp: sync_calls)

end
