(* ===== verification/Thread_Live.thy ===== *)
theory Thread_Live
  imports Thread_Typed
begin

section \<open>No deadlock, and runs that end\<close>

text \<open>
  Programs that hold at most one lock, and none when they wait. Some thread can always go on
  unless every unfinished thread waits for a signal that no one is left to send; and every
  run ends, because each step takes something off what is left to do.
\<close>

subsection \<open>At most one lock at a time\<close>

fun flat :: "bool \<Rightarrow> 'u prim list \<Rightarrow> bool" where
  "flat h [] \<longleftrightarrow> True"
| "flat h (Lock l # ps) \<longleftrightarrow> \<not> h \<and> flat True ps"
| "flat h (Rd_Lock r # ps) \<longleftrightarrow> \<not> h \<and> flat True ps"
| "flat h (Wr_Lock r # ps) \<longleftrightarrow> \<not> h \<and> flat True ps"
| "flat h (Waiting c m tm # ps) \<longleftrightarrow> \<not> h \<and> flat True ps"
| "flat h (Cond_Wait c m tm # ps) \<longleftrightarrow> h \<and> flat True ps"
| "flat h (Unlock l # ps) \<longleftrightarrow> flat False ps"
| "flat h (Rw_Unlock r # ps) \<longleftrightarrow> flat False ps"
| "flat h (p # ps) \<longleftrightarrow> flat h ps"

fun unnested :: "bool \<Rightarrow> 'u user_call list \<Rightarrow> bool" where
  "unnested h [] \<longleftrightarrow> True"
| "unnested h (U_Lock m # us) \<longleftrightarrow> \<not> h \<and> unnested True us"
| "unnested h (U_Unlock m # us) \<longleftrightarrow> unnested False us"
| "unnested h (U_Spin_Lock s # us) \<longleftrightarrow> \<not> h \<and> unnested True us"
| "unnested h (U_Spin_Unlock s # us) \<longleftrightarrow> unnested False us"
| "unnested h (U_Rlock r # us) \<longleftrightarrow> \<not> h \<and> unnested True us"
| "unnested h (U_Wlock r # us) \<longleftrightarrow> \<not> h \<and> unnested True us"
| "unnested h (U_Rw_Unlock r # us) \<longleftrightarrow> unnested False us"
| "unnested h (U_Protect as # us) \<longleftrightarrow> \<not> h \<and> unnested False us"
| "unnested h (U_Wait c # us) \<longleftrightarrow> \<not> h \<and> unnested False us"
| "unnested h (U_Timedwait c ms # us) \<longleftrightarrow> \<not> h \<and> unnested False us"
| "unnested h (U_Signal c # us) \<longleftrightarrow> unnested h us"
| "unnested h (U_Broadcast c # us) \<longleftrightarrow> unnested h us"
| "unnested h (U_Do u # us) \<longleftrightarrow> unnested h us"

lemma flat_Do: "flat h (map Do us @ ps) \<longleftrightarrow> flat h ps"
  by (induction us) auto

lemma unnested_flat: "unnested h us \<Longrightarrow> flat h (prims_of us)"
  by (induction h us rule: unnested.induct) (auto simp: sync_calls flat_Do)

lemma flat_woken: "flat h ps \<Longrightarrow> flat h (woken ps)"
  by (cases ps rule: woken.cases) auto

text \<open>The invariant: what a thread holds is at most one thing, and the rest of its program goes with it.\<close>

definition flat_at :: "hold set \<Rightarrow> 'u prim list \<Rightarrow> bool" where
  "flat_at H ps \<longleftrightarrow> (\<exists>h. H \<subseteq> {h}) \<and> flat (H \<noteq> {}) ps"

definition flat_state :: "('u, 's) sync \<Rightarrow> bool" where
  "flat_state st \<longleftrightarrow> (\<forall>t. flat_at (held st t) (progs st t))"

lemma flat_at_woken: "flat_at H ps \<Longrightarrow> flat_at H (woken ps)"
  by (simp add: flat_at_def flat_woken)

lemma flat_atD:
  "flat_at H (Lock l # ps) \<Longrightarrow> H = {} \<and> flat_at {H_Lock l} ps"
  "flat_at H (Rd_Lock r # ps) \<Longrightarrow> H = {} \<and> flat_at {H_Rd r} ps"
  "flat_at H (Wr_Lock r # ps) \<Longrightarrow> H = {} \<and> flat_at {H_Wr r} ps"
  "flat_at H (Waiting c m tm # ps) \<Longrightarrow> H = {} \<and> flat_at H (Lock (Mutex m) # ps)"
  "flat_at H (Cond_Signal c # ps) \<Longrightarrow> flat_at H ps"
  "flat_at H (Cond_Broadcast c # ps) \<Longrightarrow> flat_at H ps"
  "flat_at H (Do u # ps) \<Longrightarrow> flat_at H ps"
  "flat_at H (Init l # ps) \<Longrightarrow> flat_at H ps" "flat_at H (Destroy l # ps) \<Longrightarrow> flat_at H ps"
  "flat_at H (Cond_Init c # ps) \<Longrightarrow> flat_at H ps" "flat_at H (Cond_Destroy c # ps) \<Longrightarrow> flat_at H ps"
  "flat_at H (Rw_Init r # ps) \<Longrightarrow> flat_at H ps" "flat_at H (Rw_Destroy r # ps) \<Longrightarrow> flat_at H ps"
  "flat_at H (Cond_Wait c m tm # ps) \<Longrightarrow> H_Lock (Mutex m) \<in> H \<Longrightarrow> flat_at (H - {H_Lock (Mutex m)}) (Waiting c m tm # ps)"
  "flat_at H (Cond_Wait c m tm # ps) \<Longrightarrow> H_Lock (Mutex m) \<in> H \<Longrightarrow> flat_at H ps"
  "flat_at H (Unlock l # ps) \<Longrightarrow> H_Lock l \<in> H \<Longrightarrow> flat_at (H - {H_Lock l}) ps"
  "flat_at H (Rw_Unlock r # ps) \<Longrightarrow> H_Rd r \<in> H \<or> H_Wr r \<in> H \<Longrightarrow> flat_at (H - {H_Rd r, H_Wr r}) ps"
proof -
  have D: "H - A = {}" if "flat_at H ps" "H \<inter> A \<noteq> {}" for A H and ps :: "'a prim list"
    using that by (auto simp: flat_at_def)
  show "flat_at H (Cond_Wait c m tm # ps) \<Longrightarrow> H_Lock (Mutex m) \<in> H \<Longrightarrow> flat_at (H - {H_Lock (Mutex m)}) (Waiting c m tm # ps)"
    using D [of H "Cond_Wait c m tm # ps" "{H_Lock (Mutex m)}"] by (auto simp: flat_at_def)
  show "flat_at H (Unlock l # ps) \<Longrightarrow> H_Lock l \<in> H \<Longrightarrow> flat_at (H - {H_Lock l}) ps"
    using D [of H "Unlock l # ps" "{H_Lock l}"] by (auto simp: flat_at_def)
  show "flat_at H (Rw_Unlock r # ps) \<Longrightarrow> H_Rd r \<in> H \<or> H_Wr r \<in> H \<Longrightarrow> flat_at (H - {H_Rd r, H_Wr r}) ps"
    using D [of H "Rw_Unlock r # ps" "{H_Rd r, H_Wr r}"] by (auto simp: flat_at_def)
qed (auto simp: flat_at_def)

lemma flat_stateI:
  assumes "\<And>t. flat_at (held st t) (progs st t)" and "\<And>t. t \<noteq> me \<Longrightarrow> held st' t = held st t"
    and "\<And>t. t \<noteq> me \<Longrightarrow> progs st' t = progs st t \<or> progs st' t = woken (progs st t)"
    and "flat_at (held st' me) (progs st' me)"
  shows "flat_state st'"
  unfolding flat_state_def
proof
  fix t
  show "flat_at (held st' t) (progs st' t)"
  proof (cases "t = me")
    case False
    then show ?thesis using assms(1) [of t] assms(2,3) [OF False] flat_at_woken by auto
  qed (use assms(4) in simp)
qed

text \<open>
  What any call changes of other threads and of what its own thread holds; read off for each
  call once.
\<close>

lemma step_frame:
  assumes ty: "typed_state E st" and st': "sync_step sem me ch st = Next st'" and ps: "progs st me = p # ps"
  shows "(\<forall>t. t \<noteq> me \<longrightarrow> held st' t = held st t \<and> (progs st' t = progs st t \<or> progs st' t = woken (progs st t))) \<and>
    (case p of
       Lock l \<Rightarrow> held st' me = insert (H_Lock l) (held st me) \<and> progs st' me = ps
     | Unlock l \<Rightarrow> H_Lock l \<in> held st me \<and> held st' me = held st me - {H_Lock l} \<and> progs st' me = ps
     | Cond_Wait c m tm \<Rightarrow> H_Lock (Mutex m) \<in> held st me \<and>
         (if bad_time tm then held st' me = held st me \<and> progs st' me = ps
          else held st' me = held st me - {H_Lock (Mutex m)} \<and> progs st' me = Waiting c m tm # ps)
     | Waiting c m tm \<Rightarrow> held st' me = held st me \<and> progs st' me = Lock (Mutex m) # ps
     | Rd_Lock r \<Rightarrow> held st' me = insert (H_Rd r) (held st me) \<and> progs st' me = ps
     | Wr_Lock r \<Rightarrow> held st' me = insert (H_Wr r) (held st me) \<and> progs st' me = ps
     | Rw_Unlock r \<Rightarrow> (H_Rd r \<in> held st me \<or> H_Wr r \<in> held st me) \<and>
         held st' me = held st me - {H_Rd r, H_Wr r} \<and> progs st' me = ps
     | Cond_Signal c \<Rightarrow> held st' me = held st me \<and> (progs st' me = ps \<or> progs st' me = woken ps)
     | Cond_Broadcast c \<Rightarrow> held st' me = held st me \<and> (progs st' me = ps \<or> progs st' me = woken ps)
     | _ \<Rightarrow> held st' me = held st me \<and> progs st' me = ps)"
proof -
  have mine: "typed E (held st me) (p # ps)" and there: "objects_there E st"
    using ty ps by (auto simp: typed_state_def) (metis ps)
  have st'': "call sem me ch p ps (set_prog me ps st) = Next st'" using st' ps by (simp add: step_call)
  have readers: "rws st r = Some (Readers ts) \<Longrightarrow> distinct ts" for r ts
    using there by (auto simp: objects_there_def)
  show ?thesis
  proof (cases p)
    case (Cond_Signal c)
    then show ?thesis using st'' by (cases ch) (auto split: if_split_asm)
  qed (use st'' mine readers in \<open>auto simp: held_lock held_unlock held_rd held_wr held_rw_unlock_rd held_rw_unlock_wr
      split: lock_state.split_asm lock.split_asm if_split_asm option.split_asm rw_state.split_asm\<close>)
qed

lemma flat_step:
  assumes "typed_state E st" and "flat_state st" and "sync_step sem me ch st = Next st'"
  shows "flat_state st'"
proof -
  obtain p ps where ps: "progs st me = p # ps" using assms(3) by (cases "progs st me") auto
  have fl: "flat_at (held st t) (progs st t)" for t using assms(2) by (simp add: flat_state_def)
  note frame = step_frame [OF assms(1,3) ps]
  have mine: "flat_at (held st me) (p # ps)" using fl [of me] ps by simp
  have "flat_at (held st' me) (progs st' me)"
  proof (cases p)
    case (Cond_Wait c m tm)
    then have "H_Lock (Mutex m) \<in> held st me" "flat_at (held st me) (Cond_Wait c m tm # ps)" using frame mine by simp_all
    from flat_atD(14,15) [OF this(2,1)] show ?thesis using frame Cond_Wait by (simp split: if_split_asm)
  qed (use frame mine in \<open>auto simp: flat_at_woken dest: flat_atD\<close>)
  then show ?thesis using frame by (intro flat_stateI [OF fl]) auto
qed

lemma flat_runs: "sync_runs sem st0 st \<Longrightarrow> typed_state E st0 \<Longrightarrow> flat_state st0 \<Longrightarrow> flat_state st"
proof (induction rule: sync_runs.induct)
  case (moves st me ch st')
  then show ?case using flat_step [OF typed_runs [OF moves.hyps(1)]] by blast
qed (simp_all add: flat_state_def)

subsection \<open>Someone can go on\<close>

definition can_move :: "(nat \<Rightarrow> 'u \<Rightarrow> 's \<Rightarrow> 's option) \<Rightarrow> nat \<Rightarrow> ('u, 's) sync \<Rightarrow> bool" where
  "can_move sem me st \<longleftrightarrow> (\<exists>ch st'. ch \<noteq> Spurious \<and> sync_step sem me ch st = Next st')"

fun may_block :: "'u prim \<Rightarrow> bool" where
  "may_block (Lock l) \<longleftrightarrow> True"
| "may_block (Rd_Lock r) \<longleftrightarrow> True"
| "may_block (Wr_Lock r) \<longleftrightarrow> True"
| "may_block (Waiting c m tm) \<longleftrightarrow> True"
| "may_block p \<longleftrightarrow> False"

fun is_waiting :: "'u prim list \<Rightarrow> bool" where
  "is_waiting (Waiting c m tm # ps) \<longleftrightarrow> True"
| "is_waiting ps \<longleftrightarrow> False"

definition total_sem :: "(nat \<Rightarrow> 'u \<Rightarrow> 's \<Rightarrow> 's option) \<Rightarrow> bool" where
  "total_sem sem \<longleftrightarrow> (\<forall>t u s. sem t u s \<noteq> None)"

lemma can_moveI: "sync_step sem me Proceed st = Next st' \<Longrightarrow> can_move sem me st"
  unfolding can_move_def by (intro exI [of _ Proceed]) auto

lemma nonblocking_moves:
  assumes ty: "typed_state E st" and ps: "progs st me = p # ps" and p: "\<not> may_block p"
    and total: "total_sem sem"
  shows "can_move sem me st"
proof -
  have mine: "typed E (held st me) (p # ps)" and there: "objects_there E st"
    using ty ps by (auto simp: typed_state_def) (metis ps)
  show ?thesis
  proof (cases p)
    case (Cond_Signal c)
    let ?st = "set_prog me ps st"
    have c: "c \<in> conds st" using mine there Cond_Signal by (auto simp: objects_there_def)
    show ?thesis
    proof (cases "some_waits c ?st")
      case True
      then obtain t where "t \<in> set (tids ?st)" "waits c (progs ?st t)" by (auto simp: some_waits_def)
      then have "sync_step sem me (Wake t) st = Next (set_prog t (woken (progs ?st t)) ?st)"
        using True c Cond_Signal by (simp add: step_call [OF ps])
      then show ?thesis unfolding can_move_def by (intro exI [of _ "Wake t"]) auto
    next
      case False
      then show ?thesis using c Cond_Signal by (intro can_moveI) (simp add: step_call [OF ps])
    qed
  next
    case (Do u)
    obtain s where "sem me u (shared st) = Some s" using total unfolding total_sem_def by blast
    then show ?thesis using Do by (intro can_moveI) (simp add: step_call [OF ps])
  next
    case (Cond_Wait c m tm)
    then have "\<exists>st'. sync_step sem me Proceed st = Next st'"
      using mine there by (auto simp: step_call [OF ps] objects_there_def)
    then show ?thesis using can_moveI by blast
  next
    case (Cond_Broadcast c)
    then show ?thesis using mine there
      by (intro can_moveI) (auto simp: step_call [OF ps] objects_there_def)
  next
    case (Rw_Unlock r)
    then consider ts where "rws st r = Some (Readers ts)" "me \<in> set ts" | "rws st r = Some (Writer me)"
      using mine by auto
    then show ?thesis using Rw_Unlock by cases (intro can_moveI, simp add: step_call [OF ps])+
  qed (use mine p in \<open>auto intro!: can_moveI simp: step_call [OF ps]\<close>)
qed

lemma holder_moves:
  assumes ty: "typed_state E st" and fl: "flat_state st" and h: "h \<in> held st me"
    and total: "total_sem sem"
  shows "can_move sem me st"
proof (cases "progs st me")
  case Nil
  then have "held st me = {}" using ty by (auto simp: typed_state_def) (metis typed.simps(1) Nil empty_iff)
  then show ?thesis using h by simp
next
  case (Cons p ps)
  have "flat_at (held st me) (p # ps)" using fl Cons by (metis flat_state_def)
  then have "\<not> may_block p" using h by (cases p) (auto simp: flat_at_def)
  then show ?thesis using nonblocking_moves [OF ty Cons _ total] by blast
qed

lemma free_moves:
  assumes ty: "typed_state E st" and none: "\<And>t. held st t = {}" and ps: "progs st me = p # ps"
    and "\<not> is_waiting (progs st me)" and total: "total_sem sem"
  shows "can_move sem me st"
proof (cases "may_block p")
  case True
  have mine: "typed E (held st me) (p # ps)" and there: "objects_there E st"
    using ty ps by (auto simp: typed_state_def) (metis ps)
  have free: "locks st l \<noteq> Held t" "rws st r = Some (Readers ts) \<Longrightarrow> ts = []" "rws st r \<noteq> Some (Writer t)" for l t r ts
  proof -
    show "locks st l \<noteq> Held t" using none [of t] held_simps(1) [of l st t] by blast
    show "rws st r \<noteq> Some (Writer t)" using none [of t] held_simps(3) [of r st t] by blast
    show "ts = []" if "rws st r = Some (Readers ts)"
      using none [of "hd ts"] held_simps(2) [of r st "hd ts"] that by (cases ts) auto
  qed
  consider l where "p = Lock l" | r where "p = Rd_Lock r \<or> p = Wr_Lock r"
    using True assms(4) ps by (cases p) auto
  then show ?thesis
  proof cases
    case (1 l)
    then have "locks st l = Free" using mine there free(1) by (cases "locks st l") (auto simp: objects_there_def)
    then show ?thesis using 1 by (intro can_moveI) (simp add: step_call [OF ps])
  next
    case (2 r)
    then have "rws st r = Some (Readers [])"
      using mine there free(2,3) by (auto simp: objects_there_def) (metis rw_state.exhaust)+
    then show ?thesis using 2 by (elim disjE) (intro can_moveI, simp add: step_call [OF ps])+
  qed
qed (use nonblocking_moves [OF ty ps _ total] in blast)

lemma sync_progress:
  assumes "typed_state E st" and "flat_state st" and "total_sem sem"
    and "progs st t \<noteq> []" and "\<not> is_waiting (progs st t)"
  shows "\<exists>me. can_move sem me st"
proof (cases "\<forall>t. held st t = {}")
  case True
  obtain p ps where "progs st t = p # ps" using assms(4) by (cases "progs st t") auto
  then show ?thesis using free_moves [OF assms(1) _ _ assms(5,3)] True by blast
qed (use holder_moves [OF assms(1,2) _ assms(3)] in blast)

subsection \<open>Every run ends\<close>

text \<open>What is left to do: waiting for a condition variable is three calls in one.\<close>

fun weight :: "'u prim list \<Rightarrow> nat" where
  "weight [] = 0"
| "weight (Cond_Wait c m tm # ps) = 3 + weight ps"
| "weight (Waiting c m tm # ps) = 2 + weight ps"
| "weight (p # ps) = 1 + weight ps"

definition work_left :: "('u, 's) sync \<Rightarrow> nat" where
  "work_left st = (\<Sum>t \<in> set (tids st). weight (progs st t))"

definition only_tids :: "('u, 's) sync \<Rightarrow> bool" where
  "only_tids st \<longleftrightarrow> (\<forall>t. t \<notin> set (tids st) \<longrightarrow> progs st t = [])"

lemma weight_woken: "weight (woken ps) \<le> weight ps"
  by (cases ps rule: woken.cases) auto

lemma weight_pop: "p \<noteq> Cond_Wait c m tm \<Longrightarrow> weight (p # ps) \<ge> Suc (weight ps)"
  by (cases p) auto

lemma step_weights:
  assumes "sync_step sem me ch st = Next st'"
  shows "tids st' = tids st \<and> weight (progs st' me) < weight (progs st me) \<and>
    (\<forall>t. t \<noteq> me \<longrightarrow> progs st' t = progs st t \<or> progs st' t = woken (progs st t))"
proof -
  obtain p ps where ps: "progs st me = p # ps" using assms by (cases "progs st me") auto
  have st': "call sem me ch p ps (set_prog me ps st) = Next st'" using assms ps by (simp add: step_call)
  have w: "weight (woken ps) < Suc (weight ps)" using weight_woken [of ps] by simp
  show ?thesis
  proof (cases p)
    case (Cond_Signal c)
    then show ?thesis using st' w ps by (cases ch) (auto split: if_split_asm)
  qed (use st' w ps in \<open>auto split: lock_state.split_asm lock.split_asm if_split_asm option.split_asm rw_state.split_asm\<close>)
qed

lemma work_decreases:
  assumes "sync_step sem me ch st = Next st'" and "only_tids st"
  shows "work_left st' < work_left st \<and> only_tids st'"
proof -
  note w = step_weights [OF assms(1)]
  have me: "me \<in> set (tids st)" using assms by (auto simp: only_tids_def)
  have "weight (progs st' t) \<le> weight (progs st t)" for t
    using w weight_woken [of "progs st t"] by (cases "t = me") auto
  then have "(\<Sum>t \<in> set (tids st). weight (progs st' t)) < (\<Sum>t \<in> set (tids st). weight (progs st t))"
    using me w by (intro sum_strict_mono_ex1) auto
  moreover have "only_tids st'" using w assms(2) me by (auto simp: only_tids_def)
  ultimately show ?thesis using w by (simp add: work_left_def)
qed

lemma exec_work:
  "sync_exec sem ms st = Next st' \<Longrightarrow> only_tids st \<Longrightarrow> length ms + work_left st' \<le> work_left st"
proof (induction ms arbitrary: st)
  case (Cons m ms)
  obtain t ch where m: "m = (t, ch)" by (cases m)
  then obtain st1 where 1: "sync_step sem t ch st = Next st1" "sync_exec sem ms st1 = Next st'"
    using Cons.prems(1) by (auto split: result.splits)
  show ?case using Cons.IH [OF 1(2)] work_decreases [OF 1(1) Cons.prems(2)] by simp
qed simp

lemma only_tids_runs: "sync_runs sem st0 st \<Longrightarrow> only_tids st0 \<Longrightarrow> only_tids st"
proof (induction rule: sync_runs.induct)
  case (moves st me ch st')
  then show ?case using work_decreases by blast
qed (simp_all add: only_tids_def)

subsection \<open>Users of the library\<close>

text \<open>The start: everything is there and free, each thread is about to run its disciplined program.\<close>

definition library_users :: "objects \<Rightarrow> nat set \<Rightarrow> (nat \<Rightarrow> 'u user_call list) \<Rightarrow> ('u, 's) sync \<Rightarrow> bool" where
  "library_users E P us st \<longleftrightarrow> objects_there E st \<and> all_free st \<and> only_tids st \<and>
     (\<forall>t. disciplined E P {} (us t) \<and> progs st t = prims_of (us t))"

lemma users_typed: "library_users E P us st \<Longrightarrow> typed_state E st"
  unfolding library_users_def by (intro typed_start) (auto intro: disciplined_typed [where P = P])

lemma users_flat: "library_users E P us st \<Longrightarrow> (\<And>t. unnested False (us t)) \<Longrightarrow> flat_state st"
  by (simp add: library_users_def flat_state_def flat_at_def held_all_free unnested_flat)

text \<open>Programs that never wait for a condition variable.\<close>

fun call_waits :: "'u prim \<Rightarrow> bool" where
  "call_waits (Cond_Wait c m tm) \<longleftrightarrow> True"
| "call_waits (Waiting c m tm) \<longleftrightarrow> True"
| "call_waits p \<longleftrightarrow> False"

definition never_waits :: "('u, 's) sync \<Rightarrow> bool" where
  "never_waits st \<longleftrightarrow> (\<forall>t. \<forall>p \<in> set (progs st t). \<not> call_waits p)"

lemma woken_id: "\<forall>p \<in> set ps. \<not> call_waits p \<Longrightarrow> woken ps = ps"
  by (cases ps rule: woken.cases) auto

lemma never_waits_step:
  assumes "never_waits st" and "sync_step sem me ch st = Next st'"
  shows "never_waits st'"
proof -
  obtain p ps where ps: "progs st me = p # ps" using assms(2) by (cases "progs st me") auto
  have mine: "\<not> call_waits p" "\<forall>p \<in> set ps. \<not> call_waits p"
    using assms(1) ps by (auto simp: never_waits_def) (metis list.set_intros)+
  have st': "call sem me ch p ps (set_prog me ps st) = Next st'" using assms(2) ps by (simp add: step_call)
  have wk: "woken (progs st t) = progs st t" "woken ps = ps" for t
    using assms(1) mine(2) by (simp_all add: never_waits_def woken_id)
  have "progs st' = (progs st)(me := ps)"
  proof (cases p)
    case (Cond_Signal c)
    then show ?thesis using st' wk by (cases ch) (auto split: if_split_asm)
  qed (use st' wk mine(1) in \<open>auto split: lock_state.split_asm lock.split_asm if_split_asm option.split_asm rw_state.split_asm\<close>)
  then show ?thesis using assms(1) mine(2) by (simp add: never_waits_def)
qed

lemma never_waits_runs: "sync_runs sem st0 st \<Longrightarrow> never_waits st0 \<Longrightarrow> never_waits st"
proof (induction rule: sync_runs.induct)
  case (moves st me ch st')
  then show ?case using never_waits_step by blast
qed (simp_all add: never_waits_def)

lemma never_waits_waiting: "never_waits st \<Longrightarrow> \<not> is_waiting (progs st t)"
  unfolding never_waits_def by (cases "progs st t" rule: is_waiting.cases) (auto, metis call_waits.simps(2) list.set_intros(1))

end
