(* ===== verification/Thread_Atomic.thy ===== *)
theory Thread_Atomic
  imports Thread_Sync
begin

section \<open>Sections under the lock of a tree are atomic\<close>

text \<open>
  Threads that use one tree, each through sections under the tree's reader/writer lock. A section
  is a list of steps, however small: a reading section's steps read the tree and change what the
  thread keeps for itself, a writing section's steps may change the tree too and leave it in
  pieces in between. The steps of the sections of all threads interleave; the lemmas show that
  the outcome, with all that any thread kept, is that of whole sections one after the other.
\<close>

subsection \<open>Sections\<close>

datatype ('a, 'l) tree_act = Look "'a \<Rightarrow> 'l \<Rightarrow> 'l" | Change "'a \<Rightarrow> 'l \<Rightarrow> 'a \<times> 'l"

text \<open>The tree, and what each thread keeps for itself.\<close>

type_synonym ('a, 'l) view = "'a \<times> (nat \<Rightarrow> 'l)"

fun act :: "nat \<Rightarrow> ('a, 'l) tree_act \<Rightarrow> ('a, 'l) view \<Rightarrow> ('a, 'l) view" where
  "act t (Look f) (x, own) = (x, own(t := f x (own t)))"
| "act t (Change f) (x, own) = (case f x (own t) of (x', l) \<Rightarrow> (x', own(t := l)))"

definition act_sem :: "nat \<Rightarrow> ('a, 'l) tree_act \<Rightarrow> ('a, 'l) view \<Rightarrow> ('a, 'l) view option" where
  "act_sem t a v = Some (act t a v)"

datatype ('a, 'l) tree_section = Reading "('a \<Rightarrow> 'l \<Rightarrow> 'l) list" | Writing "('a, 'l) tree_act list"

fun acts_of :: "('a, 'l) tree_section \<Rightarrow> ('a, 'l) tree_act list" where
  "acts_of (Reading fs) = map Look fs"
| "acts_of (Writing acts) = acts"

fun section_calls :: "nat \<Rightarrow> ('a, 'l) tree_section \<Rightarrow> ('a, 'l) tree_act prim list" where
  "section_calls r (Reading fs) = avl_tree_rlock r @ map Do (map Look fs) @ avl_tree_unlock r"
| "section_calls r (Writing acts) = avl_tree_wlock r @ map Do acts @ avl_tree_unlock r"

definition thread_of :: "nat \<Rightarrow> ('a, 'l) tree_section list \<Rightarrow> ('a, 'l) tree_act prim list" where
  "thread_of r secs = concat (map (section_calls r) secs)"

lemma thread_of_simps [simp]:
  "thread_of r [] = []"
  "thread_of r (Reading fs # secs) = Rd_Lock r # map Do (map Look fs) @ Rw_Unlock r # thread_of r secs"
  "thread_of r (Writing acts # secs) = Wr_Lock r # map Do acts @ Rw_Unlock r # thread_of r secs"
  by (simp_all add: thread_of_def sync_calls)

text \<open>The reference: whole sections of the threads one after the other.\<close>

fun serial :: "(nat \<times> ('a, 'l) tree_section) list \<Rightarrow> ('a, 'l) view \<Rightarrow> ('a, 'l) view" where
  "serial [] v = v"
| "serial ((t, sec) # order) v = serial order (fold (act t) (acts_of sec) v)"

lemma serial_snoc: "serial (order @ [(t, sec)]) v = fold (act t) (acts_of sec) (serial order v)"
  by (induction order v rule: serial.induct) auto

definition sections_of :: "nat \<Rightarrow> (nat \<times> ('a, 'l) tree_section) list \<Rightarrow> ('a, 'l) tree_section list" where
  "sections_of t order = map snd (filter (\<lambda>s. fst s = t) order)"

lemma sections_of_simps [simp]:
  "sections_of t [] = []" "sections_of t (order @ [(u, sec)]) = sections_of t order @ (if u = t then [sec] else [])"
  by (simp_all add: sections_of_def)

fun look_own :: "'a \<Rightarrow> ('a, 'l) tree_act \<Rightarrow> 'l \<Rightarrow> 'l" where
  "look_own x (Look f) l = f x l"
| "look_own x (Change f) l = l"

lemma looks: "fold (act t) (map Look fs) (x, own) = (x, own(t := fold (look_own x) (map Look fs) (own t)))"
  by (induction fs arbitrary: own) (auto simp: fun_eq_iff)

subsection \<open>The simulation\<close>

text \<open>
  A state simulates the serial run of the sections that have begun, the unfinished ones
  included: \<open>cur t\<close> is what thread \<open>t\<close> still has to do in its section, \<open>rest t\<close> the
  sections it has not begun. A reader's section will see the tree as it is; a writer's section
  is completed in mind.
\<close>

definition will_own :: "('a, 'l) tree_act list option \<Rightarrow> 'a \<Rightarrow> 'l \<Rightarrow> 'l" where
  "will_own c x l = (case c of None \<Rightarrow> l | Some acts \<Rightarrow> fold (look_own x) acts l)"

definition matches :: "nat \<Rightarrow> (('a, 'l) tree_act, ('a, 'l) view) sync \<Rightarrow> (nat \<Rightarrow> ('a, 'l) tree_act list option) \<Rightarrow> ('a, 'l) view \<Rightarrow> bool" where
  "matches r st cur v \<longleftrightarrow>
     (case rws st r of
        Some (Readers ts) \<Rightarrow> distinct ts \<and> (\<forall>t. t \<in> set ts \<longleftrightarrow> cur t \<noteq> None) \<and>
          (\<forall>t acts. cur t = Some acts \<longrightarrow> set acts \<subseteq> range Look) \<and>
          v = (fst (shared st), \<lambda>t. will_own (cur t) (fst (shared st)) (snd (shared st) t))
      | Some (Writer w) \<Rightarrow> (\<exists>acts. cur = [w \<mapsto> acts] \<and> v = fold (act w) acts (shared st))
      | None \<Rightarrow> False)"

definition left_of :: "nat \<Rightarrow> ('a, 'l) tree_act list option \<Rightarrow> ('a, 'l) tree_section list \<Rightarrow> ('a, 'l) tree_act prim list" where
  "left_of r c secs = (case c of None \<Rightarrow> thread_of r secs | Some acts \<Rightarrow> map Do acts @ Rw_Unlock r # thread_of r secs)"

definition simulates ::
    "nat \<Rightarrow> (nat \<Rightarrow> ('a, 'l) tree_section list) \<Rightarrow> ('a, 'l) view \<Rightarrow> (('a, 'l) tree_act, ('a, 'l) view) sync \<Rightarrow> (nat \<times> ('a, 'l) tree_section) list \<Rightarrow>
     (nat \<Rightarrow> ('a, 'l) tree_act list option) \<Rightarrow> (nat \<Rightarrow> ('a, 'l) tree_section list) \<Rightarrow> bool" where
  "simulates r secs v0 st order cur rest \<longleftrightarrow>
     (\<forall>t. progs st t = left_of r (cur t) (rest t)) \<and> (\<forall>t. secs t = sections_of t order @ rest t) \<and>
     matches r st cur (serial order v0)"

lemma begin_section:
  assumes sim: "simulates r secs v0 st order cur rest" and t: "cur t = None" "rest t = sec # later"
    and st': "progs st' = (progs st)(t := left_of r (Some (acts_of sec)) later)"
    and m: "matches r st' (cur(t \<mapsto> acts_of sec)) (serial (order @ [(t, sec)]) v0)"
  shows "simulates r secs v0 st' (order @ [(t, sec)]) (cur(t \<mapsto> acts_of sec)) (rest(t := later))"
  using assms by (auto simp: simulates_def)

lemma go_on:
  assumes sim: "simulates r secs v0 st order cur rest"
    and st': "progs st' = (progs st)(t := left_of r c (rest t))"
    and m: "matches r st' (cur(t := c)) (serial order v0)"
  shows "simulates r secs v0 st' order (cur(t := c)) rest"
  using assms by (auto simp: simulates_def)

lemma begin_reading:
  assumes "matches r st cur v" and "rws st r = Some (Readers ts)" and "cur t = None"
  shows "matches r (set_rw r (Some (Readers (t # ts))) (set_prog t ps st)) (cur(t \<mapsto> map Look fs))
    (fold (act t) (map Look fs) v)"
proof -
  obtain x own where v: "v = (x, own)" by (cases v)
  have "(\<lambda>u. will_own ((cur(t \<mapsto> map Look fs)) u) x (snd (shared st) u)) =
      own(t := fold (look_own x) (map Look fs) (own t))"
    using assms v by (auto simp: matches_def will_own_def fun_eq_iff)
  moreover have "fold (act t) (map Look fs) v = (x, own(t := fold (look_own x) (map Look fs) (own t)))"
    unfolding v by (rule looks)
  ultimately show ?thesis using assms v by (auto simp: matches_def)
qed

lemma sim_step:
  assumes sim: "simulates r secs v0 st order cur rest" and step: "sync_step act_sem me ch st = Next st'"
  shows "\<exists>order' cur' rest'. simulates r secs v0 st' order' cur' rest'"
proof (cases "cur me")
  case None
  have pr: "progs st me = thread_of r (rest me)" using sim None by (simp add: simulates_def left_of_def)
  obtain sec later where rest: "rest me = sec # later" using pr step by (cases "rest me") (auto simp: sync_step_def)
  have m: "matches r st cur (serial order v0)" using sim by (simp add: simulates_def)
  show ?thesis
  proof (cases sec)
    case (Reading fs)
    let ?ps = "map Do (map Look fs) @ Rw_Unlock r # thread_of r later"
    have c: "call act_sem me ch (Rd_Lock r) ?ps (set_prog me ?ps st) = Next st'"
      using step pr rest Reading by (simp add: sync_step_def)
    then obtain ts where ts: "rws st r = Some (Readers ts)" and st': "st' = set_rw r (Some (Readers (me # ts))) (set_prog me ?ps st)"
      by (auto split: option.split_asm rw_state.split_asm if_split_asm)
    have "simulates r secs v0 st' (order @ [(me, sec)]) (cur(me \<mapsto> acts_of sec)) (rest(me := later))"
    proof (rule begin_section [OF sim None rest])
      show "progs st' = (progs st)(me := left_of r (Some (acts_of sec)) later)"
        using st' Reading by (simp add: left_of_def)
      show "matches r st' (cur(me \<mapsto> acts_of sec)) (serial (order @ [(me, sec)]) v0)"
        using begin_reading [OF m ts None] st' Reading by (simp add: serial_snoc)
    qed
    then show ?thesis by blast
  next
    case (Writing acts)
    let ?ps = "map Do acts @ Rw_Unlock r # thread_of r later"
    have c: "call act_sem me ch (Wr_Lock r) ?ps (set_prog me ?ps st) = Next st'"
      using step pr rest Writing by (simp add: sync_step_def)
    then have ts: "rws st r = Some (Readers [])" and st': "st' = set_rw r (Some (Writer me)) (set_prog me ?ps st)"
      by (auto split: option.split_asm rw_state.split_asm if_split_asm)
    have cur: "cur = Map.empty" using m ts by (auto simp: matches_def)
    then have "serial order v0 = shared st" using m ts by (auto simp: matches_def will_own_def)
    then have "simulates r secs v0 st' (order @ [(me, sec)]) (cur(me \<mapsto> acts_of sec)) (rest(me := later))"
      using st' Writing cur by (intro begin_section [OF sim None rest]) (auto simp: left_of_def matches_def serial_snoc)
    then show ?thesis by blast
  qed
next
  case (Some acts)
  have m: "matches r st cur (serial order v0)" using sim by (simp add: simulates_def)
  have pr: "progs st me = map Do acts @ Rw_Unlock r # thread_of r (rest me)"
    using sim Some by (simp add: simulates_def left_of_def)
  show ?thesis
  proof (cases acts)
    case Nil
    let ?ps = "thread_of r (rest me)"
    have c: "call act_sem me ch (Rw_Unlock r) ?ps (set_prog me ?ps st) = Next st'"
      using step pr Nil by (simp add: sync_step_def)
    then consider ts where "rws st r = Some (Readers ts)" "me \<in> set ts" "st' = set_rw r (Some (Readers (remove1 me ts))) (set_prog me ?ps st)"
      | "rws st r = Some (Writer me)" "st' = set_rw r (Some (Readers [])) (set_prog me ?ps st)"
      by (auto split: option.split_asm rw_state.split_asm if_split_asm)
    then have "matches r st' (cur(me := None)) (serial order v0) \<and> progs st' = (progs st)(me := ?ps)"
    proof cases
      case (1 ts)
      then show ?thesis using m Some Nil by (auto simp: matches_def will_own_def fun_eq_iff)
    next
      case 2
      then have "cur = [me \<mapsto> []]" "serial order v0 = shared st" using m Some Nil by (auto simp: matches_def)
      then show ?thesis using 2 by (auto simp: matches_def will_own_def)
    qed
    then show ?thesis
      using go_on [OF sim, of st' me None] by (auto simp: left_of_def)
  next
    case (Cons a later)
    let ?ps = "map Do later @ Rw_Unlock r # thread_of r (rest me)"
    have st': "st' = (set_prog me ?ps st)\<lparr>shared := act me a (shared st)\<rparr>"
      using step pr Cons by (simp add: sync_step_def act_sem_def)
    have "matches r st' (cur(me \<mapsto> later)) (serial order v0)"
    proof (cases "rws st r")
      case (Some s)
      show ?thesis
      proof (cases s)
        case (Readers ts)
        then have ts: "rws st r = Some (Readers ts)" using Some by simp
        have "\<forall>t acts. cur t = Some acts \<longrightarrow> set acts \<subseteq> range Look" using m ts by (simp add: matches_def)
        then have "set acts \<subseteq> range Look" using \<open>cur me = Some acts\<close> by blast
        then obtain f where a: "a = Look f" "set later \<subseteq> range Look" using Cons by auto
        obtain x own where sh: "shared st = (x, own)" by (cases "shared st")
        have "(\<lambda>t. will_own (cur t) x (own t)) = (\<lambda>t. will_own ((cur(me \<mapsto> later)) t) x ((own(me := f x (own me))) t))"
          using \<open>cur me = Some acts\<close> Cons a by (auto simp: will_own_def fun_eq_iff)
        then show ?thesis using m ts a sh st' \<open>cur me = Some acts\<close> by (auto simp: matches_def)
      next
        case (Writer w)
        then show ?thesis using m \<open>cur me = Some acts\<close> Cons Some st' by (auto simp: matches_def split: if_split_asm)
      qed
    qed (use m in \<open>simp add: matches_def\<close>)
    then show ?thesis
      using go_on [OF sim, of st' me "Some later"] st' by (auto simp: left_of_def)
  qed
qed

lemma sim_runs:
  assumes "sync_runs act_sem st0 st" and "simulates r secs v0 st0 order cur rest"
  shows "\<exists>order cur rest. simulates r secs v0 st order cur rest"
  using assms
proof (induction rule: sync_runs.induct)
  case here
  then show ?case by blast
next
  case (moves st me ch st')
  then show ?case using sim_step by blast
next
  case (passes st n)
  then obtain order cur rest where "simulates r secs v0 st order cur rest" by blast
  then have "simulates r secs v0 (st\<lparr>now := n\<rparr>) order cur rest"
    by (simp add: simulates_def matches_def cong: option.case_cong rw_state.case_cong)
  then show ?case by blast
qed

text \<open>The start: the lock is free, no section has begun.\<close>

lemma sim_start:
  assumes "rws st0 r = Some (Readers [])" and "\<And>t. progs st0 t = thread_of r (secs t)"
  shows "simulates r secs (shared st0) st0 [] Map.empty secs"
  using assms by (simp add: simulates_def left_of_def matches_def will_own_def)

lemma sections_serializable:
  assumes "rws st0 r = Some (Readers [])" and "\<And>t. progs st0 t = thread_of r (secs t)"
    and "sync_runs act_sem st0 st" and "\<And>t. progs st t = []"
  shows "\<exists>order. (\<forall>t. sections_of t order = secs t) \<and> shared st = serial order (shared st0)"
proof -
  obtain order cur rest where sim: "simulates r secs (shared st0) st order cur rest"
    using sim_runs [OF assms(3) sim_start [OF assms(1,2)]] by blast
  have "cur t = None \<and> rest t = []" for t
  proof -
    have "left_of r (cur t) (rest t) = []" using sim assms(4) [of t] by (simp add: simulates_def)
    then show ?thesis by (cases "cur t"; cases "rest t"; cases "hd (rest t)") (auto simp: left_of_def)
  qed
  then have cur: "cur = Map.empty" "\<forall>t. rest t = []" by auto
  have ne: "Map.empty \<noteq> [w \<mapsto> acts]" for w :: nat and acts :: "('a, 'l) tree_act list"
    by (metis map_upd_nonempty)
  have "serial order (shared st0) = shared st"
    using sim cur ne by (auto simp: simulates_def matches_def will_own_def split: option.splits rw_state.splits)
  then show ?thesis using sim cur(2) by (intro exI [of _ order]) (simp add: simulates_def)
qed

end
