(* ===== verification/Thread_Tree.thy ===== *)
theory Thread_Tree
  imports Thread_Atomic Avl_Dict
begin

section \<open>Threads that share an AVL tree under its lock\<close>

text \<open>
  The lock of \<open>thread/thread.c\<close> and the tree of \<open>avl/avl.c\<close> together. Readers walk the tree
  from node to node under its reader lock, each call of the library a step of its own, and keep
  the keys they find; writers replace or remove entries under the writer lock, in calls that are
  cut into steps in any way, so that the tree may be in pieces between two steps. What results,
  and what every reader found, is that of the operations one after the other, on sorted lists of
  keys.
\<close>

subsection \<open>Operations of the tree as steps\<close>

text \<open>
  What a thread keeps for itself: the cursor of its walk, the keys found in each walk so far, and
  what its writing calls keep on their stack. \<open>walked = None\<close> is a step of a walk that has no
  defined behaviour; it stays.
\<close>

record ('k, 'w) reader =
  at_node :: ptr
  walked :: "'k option list list option"
  stack :: 'w

definition walk_start :: "'k avl_tree \<Rightarrow> ('k, 'w) reader \<Rightarrow> ('k, 'w) reader" where
  "walk_start x l =
     (case (walked l, avl_get_first x) of
        (Some ws, Some p) \<Rightarrow> l\<lparr>at_node := p, walked := Some (ws @ [[]])\<rparr>
      | _ \<Rightarrow> l\<lparr>walked := None\<rparr>)"

definition walk_on :: "'k avl_tree \<Rightarrow> ('k, 'w) reader \<Rightarrow> ('k, 'w) reader" where
  "walk_on x l =
     (if at_node l = None then l
      else case (walked l, rd (store x) (at_node l), avl_get_next (store x) (at_node l)) of
        (Some ws, Some n, Some p) \<Rightarrow> l\<lparr>at_node := p, walked := Some (butlast ws @ [last ws @ [key n]])\<rparr>
      | _ \<Rightarrow> l\<lparr>walked := None\<rparr>)"

text \<open>
  A list of steps is a call of \<open>avl_insert\<close> or \<open>avl_delete\<close> cut up when it gives the tree of
  that call if no other thread comes between, and leaves alone what the thread found.
\<close>

type_synonym ('k, 'w) steps = "('k avl_tree, ('k, 'w) reader) tree_act list"

definition gives :: "('k, 'w) steps \<Rightarrow> 'k avl_tree \<Rightarrow> 'k avl_tree \<Rightarrow> bool" where
  "gives acts x x' \<longleftrightarrow>
     (\<forall>t own. fst (fold (act t) acts (x, own)) = x' \<and>
        (\<forall>u. walked (snd (fold (act t) acts (x, own)) u) = walked (own u)))"

definition cuts_insert :: "('k \<Rightarrow> ('k, 'w) steps) \<Rightarrow> bool" where
  "cuts_insert ins \<longleftrightarrow> (\<forall>k x c x'. avl_insert x k = Some (c, x') \<longrightarrow> gives (ins k) x x')"

definition cuts_delete :: "('k \<Rightarrow> ('k, 'w) steps) \<Rightarrow> bool" where
  "cuts_delete del \<longleftrightarrow> (\<forall>k x c freed x'. avl_delete x k = Some (c, freed, x') \<longrightarrow> gives (del k) x x')"

datatype 'k tree_op = Walk nat | Replace 'k | Remove 'k

fun op_section ::
    "('k \<Rightarrow> ('k, 'w) steps) \<Rightarrow> ('k \<Rightarrow> ('k, 'w) steps) \<Rightarrow> 'k tree_op \<Rightarrow> ('k avl_tree, ('k, 'w) reader) tree_section" where
  "op_section ins del (Walk n) = Reading (walk_start # replicate n walk_on)"
| "op_section ins del (Replace k) = Writing (del k @ ins k)"
| "op_section ins del (Remove k) = Writing (del k)"

text \<open>
  The reference: operations one after the other on the sorted list of keys, with what the
  walks of every thread find. A walk of \<open>n\<close> steps finds the first \<open>n\<close> keys.
\<close>

fun ref_op :: "('k \<Rightarrow> 'k \<Rightarrow> int) \<Rightarrow> nat \<times> 'k tree_op \<Rightarrow> 'k list \<times> (nat \<Rightarrow> 'k list list) \<Rightarrow> 'k list \<times> (nat \<Rightarrow> 'k list list)" where
  "ref_op cmp (t, Walk n) (ks, ws) = (ks, ws(t := ws t @ [take n ks]))"
| "ref_op cmp (t, Replace k) (ks, ws) = (put_by cmp k ks, ws)"
| "ref_op cmp (t, Remove k) (ks, ws) = (del_by cmp k ks, ws)"

definition good_tree :: "('k \<Rightarrow> 'k \<Rightarrow> int) \<Rightarrow> 'k avl_tree \<Rightarrow> 'k list \<Rightarrow> bool" where
  "good_tree cmp t ks \<longleftrightarrow> avl_rep cmp t ks \<and> strict_by cmp ks"

definition good_view :: "('k \<Rightarrow> 'k \<Rightarrow> int) \<Rightarrow> ('k avl_tree, ('k, 'w) reader) view \<Rightarrow> 'k list \<times> (nat \<Rightarrow> 'k list list) \<Rightarrow> bool" where
  "good_view cmp v ref \<longleftrightarrow>
     good_tree cmp (fst v) (fst ref) \<and> (\<forall>t. walked (snd v t) = Some (map (map Some) (snd ref t)))"

subsection \<open>A walk finds the first keys\<close>

lemma look_own_map: "fold (look_own x) (map Look fs) l = fold (\<lambda>f. f x) fs l"
  by (induction fs arbitrary: l) simp_all

lemma walk_on_cursor:
  assumes "if i < length (keys T) then cursor (store x) rt T i (at_node l) else at_node l = None"
    and "walked l = Some (ws @ [w])"
  shows "walked (fold (\<lambda>f. f x) (replicate n walk_on) l) = Some (ws @ [w @ map Some (take n (drop i (keys T)))])"
  using assms
proof (induction n arbitrary: i l w)
  case (Suc n)
  show ?case
  proof (cases "i < length (keys T)")
    case True
    then have c: "cursor (store x) rt T i (at_node l)" using Suc.prems(1) by simp
    obtain nd where nd: "rd (store x) (at_node l) = Some nd" "key nd = Some (keys T ! i)"
      using cursor_key [OF c] by auto
    obtain q where q: "avl_get_next (store x) (at_node l) = Some q"
        "if Suc i < length (keys T) then cursor (store x) rt T (Suc i) q else q = None"
      using avl_get_next_cursor [OF c] by auto
    have "at_node l \<noteq> None" using nd by (cases "at_node l") (auto simp: rd_def)
    then have s: "walk_on x l = l\<lparr>at_node := q, walked := Some (ws @ [w @ [Some (keys T ! i)]])\<rparr>"
      using nd q(1) Suc.prems(2) by (auto simp: walk_on_def)
    have "walked (fold (\<lambda>f. f x) (replicate n walk_on) (walk_on x l)) =
        Some (ws @ [(w @ [Some (keys T ! i)]) @ map Some (take n (drop (Suc i) (keys T)))])"
      by (rule Suc.IH) (use q(2) s in simp_all)
    then show ?thesis using True by (simp add: Cons_nth_drop_Suc [symmetric])
  next
    case False
    then have "at_node l = None" using Suc.prems(1) by simp
    then have "walk_on x l = l" by (simp add: walk_on_def)
    then show ?thesis using Suc.IH [OF Suc.prems] False by simp
  qed
qed simp

lemma walk_finds:
  assumes "good_tree cmp x ks" and "walked l = Some ws"
  shows "walked (fold (\<lambda>f. f x) (walk_start # replicate n walk_on) l) = Some (ws @ [map Some (take n ks)])"
proof -
  obtain T where T: "tree_rep x T" "keys T = ks" using assms(1) by (auto simp: good_tree_def avl_rep_def)
  obtain rt where rt: "root x = Some rt" using T(1) by (auto simp: tree_rep_def)
  obtain p where p: "avl_get_first x = Some p" "if T = Tip then p = None else cursor (store x) rt T 0 p"
    using avl_get_first_cursor [OF T(1) rt] by auto
  have "walked (fold (\<lambda>f. f x) (replicate n walk_on) (walk_start x l)) = Some (ws @ [[] @ map Some (take n (drop 0 (keys T)))])"
    by (rule walk_on_cursor [where rt = rt]) (use p assms(2) in \<open>cases T; auto simp: walk_start_def\<close>)+
  then show ?thesis using T(2) by simp
qed

subsection \<open>Whole sections one after the other\<close>

lemma gives_append:
  assumes "gives as x y" and "gives bs y z"
  shows "gives (as @ bs) x z"
proof -
  have "fst (fold (act t) (as @ bs) (x, own)) = z \<and>
      (\<forall>u. walked (snd (fold (act t) (as @ bs) (x, own)) u) = walked (own u))" for t own
  proof -
    obtain own1 where o: "fold (act t) as (x, own) = (y, own1)" "\<forall>u. walked (own1 u) = walked (own u)"
      using assms(1) unfolding gives_def by (metis prod.collapse)
    then show ?thesis using assms(2) by (auto simp: gives_def)
  qed
  then show ?thesis by (auto simp: gives_def)
qed

lemma good_given:
  assumes "gives acts (fst v) x'" and "good_view cmp v (ks, ws)" and "good_tree cmp x' ks'"
  shows "good_view cmp (fold (act t) acts v) (ks', ws)"
  using assms by (cases v) (auto simp: good_view_def gives_def)

context key_order
begin

lemma good_section:
  assumes ins: "cuts_insert ins" and del: "cuts_delete del" and v: "good_view cmp v (ks, ws)"
  shows "good_view cmp (fold (act t) (acts_of (op_section ins del p)) v) (ref_op cmp (t, p) (ks, ws))"
proof -
  have g: "avl_rep cmp (fst v) ks" "strict_by cmp ks" using v by (simp_all add: good_view_def good_tree_def)
  show ?thesis
  proof (cases p)
    case (Walk n)
    obtain x own where xo: "v = (x, own)" by (cases v)
    have "walked (fold (\<lambda>f. f x) (walk_start # replicate n walk_on) (own t)) =
        Some (map (map Some) (ws t) @ [map Some (take n ks)])"
      by (rule walk_finds) (use v xo in \<open>auto simp: good_view_def\<close>)
    moreover have "fold (act t) (acts_of (op_section ins del p)) v =
        (x, own(t := fold (\<lambda>f. f x) (walk_start # replicate n walk_on) (own t)))"
      using Walk xo looks [of t "walk_start # replicate n walk_on" x own] look_own_map
      by (metis acts_of.simps(1) op_section.simps(1))
    ultimately show ?thesis using Walk v xo by (auto simp: good_view_def)
  next
    case (Replace k)
    obtain x1 x2 c freed where d: "avl_delete (fst v) k = Some (c, freed, x1)" "avl_insert x1 k = Some (0, x2)"
        "avl_rep cmp x2 (put_by cmp k ks)"
      using avl.del_ins [OF g] by blast
    have "gives (del k @ ins k) (fst v) x2"
      by (rule gives_append [of _ _ x1]) (use d del ins in \<open>auto simp: cuts_delete_def cuts_insert_def\<close>)
    then show ?thesis using good_given [OF _ v] d(3) strict_put [OF g(2)] Replace
      by (simp add: good_tree_def del: fold_append)
  next
    case (Remove k)
    obtain x1 where d: "avl_delete (fst v) k = Some (case find_by cmp k ks of None \<Rightarrow> (-1, [], x1) | Some k' \<Rightarrow> (0, [k'], x1))"
        "avl_rep cmp x1 (del_by cmp k ks)"
      using avl.del_del [OF g] by blast
    have "gives (del k) (fst v) x1"
      using d(1) del by (cases "find_by cmp k ks") (auto simp: cuts_delete_def)
    then show ?thesis using good_given [OF _ v] d(2) strict_del [OF g(2)] Remove by (simp add: good_tree_def)
  qed
qed

lemma good_serial:
  assumes ins: "cuts_insert ins" and del: "cuts_delete del" and "good_view cmp v ref"
  shows "good_view cmp (serial (map (map_prod id (op_section ins del)) order) v) (fold (ref_op cmp) order ref)"
  using assms(3)
proof (induction order arbitrary: v ref)
  case (Cons s order)
  obtain t p where s: "s = (t, p)" by (cases s)
  obtain ks ws where r: "ref = (ks, ws)" by (cases ref)
  have "good_view cmp (fold (act t) (acts_of (op_section ins del p)) v) (ref_op cmp (t, p) (ks, ws))"
    using good_section [OF ins del] Cons.prems r by simp
  from Cons.IH [OF this] show ?case using s r by simp
qed simp

end

text \<open>An order of sections is one of the operations they come from.\<close>

lemma sections_are_ops:
  "(\<And>t. sections_of t order = map g (ops t)) \<Longrightarrow>
   \<exists>order'. order = map (map_prod id g) order' \<and> (\<forall>t. map snd (filter (\<lambda>s. fst s = t) order') = ops t)"
proof (induction order arbitrary: ops)
  case Nil
  then have "ops t = []" for t using Nil [of t] by simp
  then show ?case by simp
next
  case (Cons s order)
  obtain t sec where s: "s = (t, sec)" by (cases s)
  have ts: "sec # sections_of t order = map g (ops t)" using Cons.prems [of t] s by (simp add: sections_of_def)
  then obtain p ps where ops: "ops t = p # ps" and sec: "sec = g p" "sections_of t order = map g ps"
    by (cases "ops t") auto
  have "sections_of u order = map g ((ops(t := ps)) u)" for u
    using Cons.prems [of u] sec s by (auto simp: sections_of_def)
  from Cons.IH [OF this] obtain order' where
    o: "order = map (map_prod id g) order'" "\<forall>u. map snd (filter (\<lambda>s. fst s = u) order') = (ops(t := ps)) u" by blast
  have "\<forall>u. map snd (filter (\<lambda>s. fst s = u) ((t, p) # order')) = ops u"
    using o(2) ops by auto
  then show ?case using o(1) s sec by (intro exI [of _ "(t, p) # order'"]) (simp add: id_def)
qed

subsection \<open>Writers that leave the tree in pieces\<close>

text \<open>
  One way to cut the calls up: the first step takes the root out of the shared tree and keeps the
  tree on the stack, the second puts the result in its place.
\<close>

definition torn :: "('k avl_tree \<Rightarrow> 'k avl_tree) \<Rightarrow> ('k, 'k avl_tree) steps" where
  "torn f = [Change (\<lambda>x l. (x\<lparr>root := None\<rparr>, l\<lparr>stack := x\<rparr>)), Change (\<lambda>x l. (f (stack l), l))]"

definition torn_insert :: "'k \<Rightarrow> ('k, 'k avl_tree) steps" where
  "torn_insert k = torn (\<lambda>x. case avl_insert x k of Some (c, x') \<Rightarrow> x' | None \<Rightarrow> x)"

definition torn_delete :: "'k \<Rightarrow> ('k, 'k avl_tree) steps" where
  "torn_delete k = torn (\<lambda>x. case avl_delete x k of Some (c, freed, x') \<Rightarrow> x' | None \<Rightarrow> x)"

lemma torn_cuts: "cuts_insert torn_insert" "cuts_delete torn_delete"
  by (auto simp: cuts_insert_def cuts_delete_def gives_def torn_insert_def torn_delete_def torn_def)

text \<open>
  Between the two steps of a torn insertion a walk would have no defined behaviour: the
  lock is what keeps readers out.
\<close>

lemma torn_walk_faults:
  "walked (walk_start (fst (act t (hd (torn_insert k)) (x, own))) l) = None"
  by (simp add: torn_insert_def torn_def walk_start_def avl_get_first_def rd_def split: option.split)

end
