(* ===== verification/Thread_Debug.thy ===== *)
theory Thread_Debug
  imports Thread_Typed Avl_Dict
begin

section \<open>The mutexes of the debugging configuration: \<open>DEBUG_MUTEXES\<close> in \<open>thread/thread.c\<close>\<close>

text \<open>
  With \<open>DEBUG_MUTEXES\<close> every mutex carries a record of who holds it, written under a mutex of
  its own, and all mutexes are in a tree. The functions are again lists of calls, with
  actions on the records in between. Each action, an access to the fields of a record, is one
  step; the lemmas say which accesses of two threads can meet. Of the logging the model has
  what reads the records: the two debugging messages that format the name of a mutex. The
  configuration needs a repair before it can be compiled (two calls of the log macros have more
  arguments than the macros take). \<open>CHECK_MUTEXES\<close> is not part of these functions.
\<close>

subsection \<open>Records of mutexes\<close>

definition MUTEX_STATE_NOTLOCKED :: int where "MUTEX_STATE_NOTLOCKED = -1"

definition MUTEX_STATE_NEVERLOCKED :: int where "MUTEX_STATE_NEVERLOCKED = -2"

definition MUTEX_STATE_UNINIT :: int where "MUTEX_STATE_UNINIT = -3"

text \<open>
  The library sets neither \<open>name\<close> nor \<open>file\<close>: they are NULL in a mutex that is initialised statically
  and whatever was in the memory in any other, unless the user gives it a text.
\<close>

datatype text_field = Null_Text | A_Text | Garbage

record mutex_t =
  mutex_id :: int
  mx_name :: text_field
  mx_thread_id :: int
  mx_file :: text_field
  mx_line :: int

definition static_mutex :: mutex_t where
  "static_mutex = \<lparr>mutex_id = -1, mx_name = Null_Text, mx_thread_id = MUTEX_STATE_UNINIT, mx_file = Null_Text, mx_line = -1\<rparr>"

text \<open>A key of the tree: what the comparison reads, and which mutex it is.\<close>

type_synonym mutex_key = "int \<times> nat"

definition compare_mutexes :: "mutex_key \<Rightarrow> mutex_key \<Rightarrow> int" where
  "compare_mutexes a b = (if fst a > fst b then 1 else if fst a < fst b then -1 else 0)"

text \<open>
  \<open>found t\<close> is the local variable \<open>th\<close> of a function that thread \<open>t\<close> runs, as the identifier in the record it
  points to; \<open>registered\<close> is what the search for the own record gives, by system thread;
  \<open>debug_level\<close> is the level of the log of the library, \<open>THREAD_DEBUG\<close>.
\<close>

record debug =
  recs :: "nat \<Rightarrow> mutex_t"
  next_mutex_id :: int
  mutextree :: "mutex_key avl_tree option"
  registered :: "nat \<Rightarrow> int option"
  found :: "nat \<Rightarrow> int option"
  debug_level :: int

definition set_rec :: "nat \<Rightarrow> mutex_t \<Rightarrow> debug \<Rightarrow> debug" where
  "set_rec m r s = s\<lparr>recs := (recs s)(m := r)\<rparr>"

subsection \<open>The actions on them\<close>

datatype debug_act =
    New_Tree
  | Create_Rec nat
  | Number nat
  | Insert_Rec nat
  | Delete_Rec nat
  | Own_Record
  | Log_Name nat
  | Set_Line nat int
  | Record_Lock nat int
  | Record_Unlock nat

text \<open>
  \<open>_free_mutex\<close> frees the string \<open>file\<close> when it is not NULL. \<open>Log_Name\<close> is the message with the name, which
  the log formats with \<open>%s\<close> from level 4 on; a NULL name is formatted as \<open>(null)\<close>.
\<close>

definition free_mutex :: "nat \<Rightarrow> debug \<Rightarrow> debug option" where
  "free_mutex m s = (case mx_file (recs s m) of
     Null_Text \<Rightarrow> Some s
   | A_Text \<Rightarrow> Some (set_rec m ((recs s m)\<lparr>mx_file := Null_Text\<rparr>) s)
   | Garbage \<Rightarrow> None)"

fun free_mutexes :: "mutex_key list \<Rightarrow> debug \<Rightarrow> debug option" where
  "free_mutexes [] s = Some s"
| "free_mutexes (k # ks) s = Option.bind (free_mutex (snd k) s) (free_mutexes ks)"

fun debug_sem :: "nat \<Rightarrow> debug_act \<Rightarrow> debug \<Rightarrow> debug option" where
  "debug_sem me New_Tree s =
     Some (s\<lparr>mutextree := avl_tree_new compare_mutexes \<lparr>cells = Map.empty, brk = 0, limit = None\<rparr>\<rparr>)"
| "debug_sem me (Create_Rec m) s =
     Some (set_rec m ((recs s m)\<lparr>mx_thread_id := MUTEX_STATE_NEVERLOCKED, mx_line := -1\<rparr>) s)"
| "debug_sem me (Number m) s =
     Some ((set_rec m ((recs s m)\<lparr>mutex_id := next_mutex_id s\<rparr>) s)\<lparr>next_mutex_id := next_mutex_id s + 1\<rparr>)"
| "debug_sem me (Insert_Rec m) s = do {
     t \<leftarrow> mutextree s;
     (c, t) \<leftarrow> avl_insert t (mutex_id (recs s m), m);
     Some (s\<lparr>mutextree := Some t\<rparr>) }"
| "debug_sem me (Delete_Rec m) s = do {
     t \<leftarrow> mutextree s;
     (c, ks, t) \<leftarrow> avl_delete t (mutex_id (recs s m), m);
     free_mutexes ks (s\<lparr>mutextree := Some t\<rparr>) }"
| "debug_sem me Own_Record s = Some (s\<lparr>found := (found s)(me := registered s me)\<rparr>)"
| "debug_sem me (Log_Name m) s =
     (if 4 \<le> debug_level s \<and> mx_name (recs s m) = Garbage then None else Some s)"
| "debug_sem me (Set_Line m l) s = Some (set_rec m ((recs s m)\<lparr>mx_line := l\<rparr>) s)"
| "debug_sem me (Record_Lock m l) s =
     (let r = (recs s m)\<lparr>mx_line := l\<rparr>
      in Some (set_rec m (case found s me of None \<Rightarrow> r | Some th \<Rightarrow> r\<lparr>mx_thread_id := th\<rparr>) s))"
| "debug_sem me (Record_Unlock m) s =
     (let r = (recs s m)\<lparr>mx_line := -1\<rparr>
      in case found s me of
           None \<Rightarrow> None
         | Some th \<Rightarrow> Some (set_rec m (if mx_thread_id r = th then r\<lparr>mx_thread_id := MUTEX_STATE_NOTLOCKED\<rparr> else r) s))"

subsection \<open>The functions\<close>

text \<open>The static mutexes \<open>_threadtree_mutex\<close> and \<open>_mutextree_mutex\<close>.\<close>

definition threadtree_mutex :: nat where "threadtree_mutex = 1"

definition mutextree_mutex :: nat where "mutextree_mutex = 2"

definition thread_self_dbg :: "debug_act prim list" where
  "thread_self_dbg = [Lock (Mutex threadtree_mutex), Do Own_Record, Unlock (Mutex threadtree_mutex)]"

definition mutex_create_dbg :: "nat \<Rightarrow> debug_act prim list" where
  "mutex_create_dbg m = [Do (Create_Rec m), Init (Mutex m)]"

definition thread_mutex_create_dbg :: "nat \<Rightarrow> debug_act prim list" where
  "thread_mutex_create_dbg m = mutex_create_dbg m @
     [Lock (Mutex mutextree_mutex), Do (Number m), Do (Insert_Rec m), Unlock (Mutex mutextree_mutex)]"

definition thread_mutex_destroy_dbg :: "nat \<Rightarrow> debug_act prim list" where
  "thread_mutex_destroy_dbg m =
     [Destroy (Mutex m), Lock (Mutex mutextree_mutex), Do (Delete_Rec m), Unlock (Mutex mutextree_mutex)]"

definition thread_mutex_lock_dbg :: "nat \<Rightarrow> int \<Rightarrow> debug_act prim list" where
  "thread_mutex_lock_dbg m line = thread_self_dbg @
     [Do (Log_Name m), Lock (Mutex m),
      Lock (Mutex mutextree_mutex), Do (Record_Lock m line), Unlock (Mutex mutextree_mutex)]"

definition thread_mutex_unlock_dbg :: "nat \<Rightarrow> int \<Rightarrow> debug_act prim list" where
  "thread_mutex_unlock_dbg m line = thread_self_dbg @
     [Do (Log_Name m), Do (Set_Line m line), Unlock (Mutex m),
      Lock (Mutex mutextree_mutex), Do (Record_Unlock m), Unlock (Mutex mutextree_mutex)]"

text \<open>
  The parts of \<open>thread_initialize\<close> and \<open>thread_shutdown\<close> that make and destroy the mutexes;
  \<open>thread_debug\<close> says whether \<open>THREAD_DEBUG\<close> is defined.
\<close>

definition initialize_mutexes :: "debug_act prim list" where
  "initialize_mutexes = Do New_Tree # mutex_create_dbg mutextree_mutex @
     [Do (Number mutextree_mutex), Do (Insert_Rec mutextree_mutex)] @
     thread_mutex_create_dbg threadtree_mutex @ thread_mutex_create_dbg library_mutex"

definition shutdown_mutexes :: "bool \<Rightarrow> debug_act prim list" where
  "shutdown_mutexes thread_debug =
     thread_mutex_destroy_dbg library_mutex @ thread_mutex_destroy_dbg threadtree_mutex @
     (if thread_debug then thread_mutex_destroy_dbg mutextree_mutex else [])"

lemmas debug_calls = thread_self_dbg_def mutex_create_dbg_def thread_mutex_create_dbg_def thread_mutex_destroy_dbg_def
  thread_mutex_lock_dbg_def thread_mutex_unlock_dbg_def initialize_mutexes_def shutdown_mutexes_def

subsection \<open>Users\<close>

datatype debug_call = D_Lock nat int | D_Unlock nat int

fun debug_calls_of :: "debug_call \<Rightarrow> debug_act prim list" where
  "debug_calls_of (D_Lock m l) = thread_mutex_lock_dbg m l"
| "debug_calls_of (D_Unlock m l) = thread_mutex_unlock_dbg m l"

definition debug_prims :: "debug_call list \<Rightarrow> debug_act prim list" where
  "debug_prims us = concat (map debug_calls_of us)"

lemma debug_prims_simps [simp]: "debug_prims [] = []" "debug_prims (u # us) = debug_calls_of u @ debug_prims us"
  by (simp_all add: debug_prims_def)

definition internal :: "nat set" where
  "internal = {library_mutex, threadtree_mutex, mutextree_mutex}"

text \<open>The discipline: mutexes of the users only, locked when not held, unlocked when held.\<close>

fun debug_ok :: "nat set \<Rightarrow> nat set \<Rightarrow> debug_call list \<Rightarrow> bool" where
  "debug_ok M H [] \<longleftrightarrow> H = {}"
| "debug_ok M H (D_Lock m l # us) \<longleftrightarrow> m \<in> M \<and> m \<notin> H \<and> debug_ok M (insert m H) us"
| "debug_ok M H (D_Unlock m l # us) \<longleftrightarrow> m \<in> H \<and> debug_ok M (H - {m}) us"

subsection \<open>The records name the holders\<close>

text \<open>Where a thread is in a call: the record is about to be written, or about to be cleared.\<close>

fun to_record :: "nat \<Rightarrow> debug_act prim list \<Rightarrow> bool" where
  "to_record m (Do (Record_Lock m' l) # ps) \<longleftrightarrow> m' = m"
| "to_record m (Lock k # Do (Record_Lock m' l) # ps) \<longleftrightarrow> m' = m"
| "to_record m ps \<longleftrightarrow> False"

fun to_clear :: "nat \<Rightarrow> debug_act prim list \<Rightarrow> bool" where
  "to_clear m (Do (Record_Unlock m') # ps) \<longleftrightarrow> m' = m"
| "to_clear m (Lock k # Do (Record_Unlock m') # ps) \<longleftrightarrow> m' = m"
| "to_clear m ps \<longleftrightarrow> False"

text \<open>
  The shape of programs: who locks a user's mutex records it next, who unlocks one clears its
  record next, with the own record looked up before. \<open>k\<close> says it has been looked up, \<open>H\<close>
  what is held of the users' mutexes \<open>M\<close>.
\<close>

fun paired :: "nat set \<Rightarrow> bool \<Rightarrow> nat set \<Rightarrow> debug_act prim list \<Rightarrow> bool" where
  "paired M k H [] \<longleftrightarrow> True"
| "paired M k H (Lock (Mutex m) # ps) \<longleftrightarrow>
     (if m \<in> M then (\<exists>l qs. ps = Lock (Mutex mutextree_mutex) # Do (Record_Lock m l) # qs) \<and> k \<and> paired M k (insert m H) ps
      else paired M k H ps)"
| "paired M k H (Unlock (Mutex m) # ps) \<longleftrightarrow>
     (if m \<in> M then (\<exists>qs. ps = Lock (Mutex mutextree_mutex) # Do (Record_Unlock m) # qs) \<and> k \<and> paired M k (H - {m}) ps
      else paired M k H ps)"
| "paired M k H (Do Own_Record # ps) \<longleftrightarrow> paired M True H ps"
| "paired M k H (Do (Log_Name m) # ps) \<longleftrightarrow> m \<in> M \<and> paired M k H ps"
| "paired M k H (Do (Set_Line m l) # ps) \<longleftrightarrow> m \<in> H \<and> paired M k H ps"
| "paired M k H (Do (Record_Lock m l) # ps) \<longleftrightarrow> k \<and> m \<in> H \<and> paired M k H ps"
| "paired M k H (Do (Record_Unlock m) # ps) \<longleftrightarrow> k \<and> m \<in> M - H \<and> paired M k H ps"
| "paired M k H (p # ps) \<longleftrightarrow> False"

definition holds_of :: "nat set \<Rightarrow> ('u, 's) sync \<Rightarrow> nat \<Rightarrow> nat set" where
  "holds_of M st t = {m \<in> M. locks st (Mutex m) = Held t}"

definition owner_of :: "(debug_act, debug) sync \<Rightarrow> nat \<Rightarrow> int" where
  "owner_of st m = mx_thread_id (recs (shared st) m)"

text \<open>Every thread that runs is registered, under an identifier of its own.\<close>

definition all_registered :: "(nat \<Rightarrow> int option) \<Rightarrow> ('u, 's) sync \<Rightarrow> bool" where
  "all_registered reg st \<longleftrightarrow> (\<forall>t. progs st t \<noteq> [] \<longrightarrow> reg t \<noteq> None) \<and>
     (\<forall>t u i. reg t = Some i \<and> reg u = Some i \<longrightarrow> t = u) \<and> (\<forall>t i. reg t = Some i \<longrightarrow> 0 \<le> i)"

definition debug_inv :: "nat set \<Rightarrow> (nat \<Rightarrow> int option) \<Rightarrow> (debug_act, debug) sync \<Rightarrow> bool" where
  "debug_inv M reg st \<longleftrightarrow> registered (shared st) = reg \<and> all_registered reg st \<and>
     (\<forall>t. \<exists>k. (k \<longrightarrow> found (shared st) t = reg t) \<and> paired M k (holds_of M st t) (progs st t)) \<and>
     (\<forall>t. \<forall>m \<in> holds_of M st t. \<not> to_record m (progs st t) \<longrightarrow> reg t = Some (owner_of st m)) \<and>
     (\<forall>t. \<forall>m \<in> M. reg t = Some (owner_of st m) \<longrightarrow> m \<in> holds_of M st t \<or> to_clear m (progs st t))"

lemma debug_invI:
  assumes inv: "debug_inv M reg st" and ps: "progs st me = p # ps" and p': "progs st' = (progs st)(me := ps)"
    and r: "registered (shared st') = registered (shared st)"
    and f: "\<And>t. t \<noteq> me \<Longrightarrow> found (shared st') t = found (shared st) t"
    and h: "\<And>t. t \<noteq> me \<Longrightarrow> holds_of M st' t = holds_of M st t"
    and o: "\<And>t m. t \<noteq> me \<Longrightarrow> m \<in> holds_of M st t \<Longrightarrow> reg t = Some (owner_of st m) \<Longrightarrow> owner_of st' m = owner_of st m"
    and o': "\<And>t m. t \<noteq> me \<Longrightarrow> m \<in> M \<Longrightarrow> reg t = Some (owner_of st' m) \<Longrightarrow> owner_of st' m = owner_of st m"
    and mine: "(k \<longrightarrow> found (shared st') me = reg me) \<and> paired M k (holds_of M st' me) ps"
    and rec: "\<And>m. m \<in> holds_of M st' me \<Longrightarrow> \<not> to_record m ps \<Longrightarrow> reg me = Some (owner_of st' m)"
    and clr: "\<And>m. m \<in> M \<Longrightarrow> reg me = Some (owner_of st' m) \<Longrightarrow> m \<in> holds_of M st' me \<or> to_clear m ps"
  shows "debug_inv M reg st'"
  unfolding debug_inv_def
proof (intro conjI allI ballI impI)
  show "registered (shared st') = reg" using inv r by (simp add: debug_inv_def)
  show "all_registered reg st'"
    using inv ps p' unfolding debug_inv_def all_registered_def by (metis fun_upd_apply list.distinct(1))
next
  fix t show "\<exists>k. (k \<longrightarrow> found (shared st') t = reg t) \<and> paired M k (holds_of M st' t) (progs st' t)"
    using inv mine f [of t] h [of t] p' by (cases "t = me") (auto simp: debug_inv_def)
next
  fix t m assume "m \<in> holds_of M st' t" "\<not> to_record m (progs st' t)"
  then show "reg t = Some (owner_of st' m)"
    using inv rec h [of t] o [of t m] p' by (cases "t = me") (auto simp: debug_inv_def)
next
  fix t m assume "m \<in> M" "reg t = Some (owner_of st' m)"
  then show "m \<in> holds_of M st' t \<or> to_clear m (progs st' t)"
    using inv clr h [of t] o' [of t m] p' by (cases "t = me") (auto simp: debug_inv_def)
qed

lemma to_Lock: "to_record m (Lock k # ps) \<Longrightarrow> to_record m ps" "to_clear m (Lock k # ps) \<Longrightarrow> to_clear m ps"
  by (cases "(m, Lock k # ps)" rule: to_record.cases; simp) (cases "(m, Lock k # ps)" rule: to_clear.cases; simp)

lemma holds_of_simps [simp]:
  "holds_of M (set_prog t ps st) = holds_of M st" "holds_of M (st\<lparr>shared := s\<rparr>) = holds_of M st"
  "m \<in> holds_of M st t \<longleftrightarrow> m \<in> M \<and> locks st (Mutex m) = Held t"
  by (auto simp: holds_of_def)

lemma owner_of_simps [simp]:
  "owner_of (set_prog t ps st) = owner_of st" "owner_of (set_lock l x st) = owner_of st"
  "owner_of (st\<lparr>shared := s\<rparr>) m = mx_thread_id (recs s m)"
  by (auto simp: owner_of_def)

lemma holds_lock:
  "locks st (Mutex m) = Free \<Longrightarrow> holds_of M (set_lock (Mutex m) (Held me) st) t =
     (if t = me \<and> m \<in> M then insert m (holds_of M st t) else holds_of M st t)"
  by (auto simp: holds_of_def)

lemma holds_unlock:
  "locks st (Mutex m) = Held me \<Longrightarrow> holds_of M (set_lock (Mutex m) Free st) t =
     (if t = me then holds_of M st t - {m} else holds_of M st t)"
  by (auto simp: holds_of_def)

text \<open>The locks change who holds what, and leave the records alone.\<close>

lemma debug_inv_locks:
  assumes inv: "debug_inv M reg st" and ps: "progs st me = p # ps" and p': "progs st' = (progs st)(me := ps)"
    and s: "shared st' = shared st" and h: "\<And>t. t \<noteq> me \<Longrightarrow> holds_of M st' t = holds_of M st t"
    and k: "k \<longrightarrow> found (shared st) me = reg me" and pd: "paired M k (holds_of M st' me) ps"
    and gain: "\<And>m. m \<in> holds_of M st' me \<Longrightarrow> m \<in> holds_of M st me \<and> \<not> to_record m (p # ps) \<or> to_record m ps"
    and loss: "\<And>m. m \<in> holds_of M st me \<or> to_clear m (p # ps) \<Longrightarrow> m \<in> M \<Longrightarrow> m \<in> holds_of M st' me \<or> to_clear m ps"
  shows "debug_inv M reg st'"
proof (rule debug_invI [OF inv ps p'])
  have o: "owner_of st' = owner_of st" using s by (simp add: owner_of_def fun_eq_iff)
  then show "owner_of st' m = owner_of st m" for m by simp
  then show "owner_of st' m = owner_of st m" for m by simp
  show "(k \<longrightarrow> found (shared st') me = reg me) \<and> paired M k (holds_of M st' me) ps" using k s pd by simp
  show "reg me = Some (owner_of st' m)" if "m \<in> holds_of M st' me" "\<not> to_record m ps" for m
    using inv ps gain [OF that(1)] that(2) o unfolding debug_inv_def by metis
  show "m \<in> holds_of M st' me \<or> to_clear m ps" if "m \<in> M" "reg me = Some (owner_of st' m)" for m
    using inv ps loss [of m] that o unfolding debug_inv_def by metis
qed (use s h in simp_all)

text \<open>The actions change the records, and leave the locks alone.\<close>

lemma debug_inv_act:
  assumes inv: "debug_inv M reg st" and ps: "progs st me = Do u # ps" and s': "debug_sem me u (shared st) = Some s'"
    and i: "reg me = Some i" and k: "k \<longrightarrow> found (shared st) me = reg me"
    and pd: "paired M k (holds_of M st me) (Do u # ps)"
  shows "debug_inv M reg ((set_prog me ps st)\<lparr>shared := s'\<rparr>)"
proof -
  have ids: "reg t = Some j \<Longrightarrow> 0 \<le> j" "reg t = Some i \<Longrightarrow> t = me" for t j
    using inv i unfolding debug_inv_def all_registered_def by metis+
  have reg: "registered (shared st) = reg" using inv by (simp add: debug_inv_def)
  have rec: "owner_of st m = i" if "m \<in> holds_of M st me" "\<not> to_record m (Do u # ps)" for m
    using inv ps i that unfolding debug_inv_def by (metis option.inject)
  have clr: "m \<in> holds_of M st me \<or> to_clear m (Do u # ps)" if "m \<in> M" "owner_of st m = i" for m
    using inv ps i that unfolding debug_inv_def by metis
  have fin: "debug_inv M reg ((set_prog me ps st)\<lparr>shared := s'\<rparr>)"
    if r: "registered s' = reg" and f: "\<And>t. t \<noteq> me \<Longrightarrow> found s' t = found (shared st) t"
      and o: "\<And>t m. t \<noteq> me \<Longrightarrow> m \<in> holds_of M st t \<Longrightarrow> reg t = Some (owner_of st m) \<Longrightarrow>
        mx_thread_id (recs s' m) = owner_of st m"
      and o': "\<And>t m. t \<noteq> me \<Longrightarrow> reg t = Some (mx_thread_id (recs s' m)) \<Longrightarrow> mx_thread_id (recs s' m) = owner_of st m"
      and k': "k' \<longrightarrow> found s' me = reg me" "paired M k' (holds_of M st me) ps"
      and rec': "\<And>m. m \<in> holds_of M st me \<Longrightarrow> \<not> to_record m ps \<Longrightarrow> mx_thread_id (recs s' m) = i"
      and clr': "\<And>m. m \<in> M \<Longrightarrow> mx_thread_id (recs s' m) = i \<Longrightarrow> m \<in> holds_of M st me \<or> to_clear m ps" for k'
  proof (rule debug_invI [OF inv ps, where k = k'])
    fix t m
    show "t \<noteq> me \<Longrightarrow> m \<in> holds_of M st t \<Longrightarrow> reg t = Some (owner_of st m) \<Longrightarrow>
        owner_of ((set_prog me ps st)\<lparr>shared := s'\<rparr>) m = owner_of st m"
      using o [of t m] by simp
    show "t \<noteq> me \<Longrightarrow> reg t = Some (owner_of ((set_prog me ps st)\<lparr>shared := s'\<rparr>) m) \<Longrightarrow>
        owner_of ((set_prog me ps st)\<lparr>shared := s'\<rparr>) m = owner_of st m"
      using o' [of t m] by simp
    show "m \<in> holds_of M ((set_prog me ps st)\<lparr>shared := s'\<rparr>) me \<Longrightarrow> \<not> to_record m ps \<Longrightarrow>
        reg me = Some (owner_of ((set_prog me ps st)\<lparr>shared := s'\<rparr>) m)"
      using rec' [of m] i by simp
    show "m \<in> M \<Longrightarrow> reg me = Some (owner_of ((set_prog me ps st)\<lparr>shared := s'\<rparr>) m) \<Longrightarrow>
        m \<in> holds_of M ((set_prog me ps st)\<lparr>shared := s'\<rparr>) me \<or> to_clear m ps"
      using clr' [of m] i by simp
    show "(k' \<longrightarrow> found (shared ((set_prog me ps st)\<lparr>shared := s'\<rparr>)) me = reg me) \<and>
        paired M k' (holds_of M ((set_prog me ps st)\<lparr>shared := s'\<rparr>) me) ps"
      using k' by simp
    show "t \<noteq> me \<Longrightarrow> found (shared ((set_prog me ps st)\<lparr>shared := s'\<rparr>)) t = found (shared st) t" using f by simp
    show "registered (shared ((set_prog me ps st)\<lparr>shared := s'\<rparr>)) = registered (shared st)" using r reg by simp
  qed simp_all
  show ?thesis
  proof (cases u)
    case Own_Record
    then have "s' = (shared st)\<lparr>found := (found (shared st))(me := reg me)\<rparr>" using s' reg by simp
    then show ?thesis using Own_Record pd reg rec clr
      by (intro fin [of True]) (simp_all add: owner_of_def)
  next
    case (Log_Name m)
    then have "s' = shared st" using s' by (simp split: if_split_asm)
    then show ?thesis using Log_Name pd k reg rec clr
      by (intro fin [of k]) (simp_all add: owner_of_def)
  next
    case (Set_Line m l)
    then have "s' = set_rec m ((recs (shared st) m)\<lparr>mx_line := l\<rparr>) (shared st)" using s' by simp
    then have "recs s' = (recs (shared st))(m := (recs (shared st) m)\<lparr>mx_line := l\<rparr>)"
      "found s' = found (shared st)" "registered s' = reg" using reg by (simp_all add: set_rec_def)
    moreover from this have "mx_thread_id (recs s' m') = owner_of st m'" for m' by (simp add: owner_of_def)
    ultimately show ?thesis using Set_Line pd k rec clr by (intro fin [of k]) simp_all
  next
    case (Record_Lock m l)
    then have o: "mx_thread_id (recs s' m') = (if m' = m then i else owner_of st m')"
        "found s' = found (shared st)" "registered s' = reg" for m'
      using s' pd k i reg by (auto simp: set_rec_def Let_def owner_of_def)
    have m: "m \<in> holds_of M st me" "paired M k (holds_of M st me) ps" using pd Record_Lock by (cases k; simp)+
    show ?thesis
    proof (rule fin [of k])
      show "mx_thread_id (recs s' m') = i" if "m' \<in> holds_of M st me" "\<not> to_record m' ps" for m'
        using rec [OF that(1)] o(1) Record_Lock by simp
      show "m' \<in> holds_of M st me \<or> to_clear m' ps" if "m' \<in> M" "mx_thread_id (recs s' m') = i" for m'
        using clr [OF that(1)] that(2) o(1) Record_Lock m by (simp split: if_split_asm)
      show "mx_thread_id (recs s' m') = owner_of st m'" if "t \<noteq> me" "m' \<in> holds_of M st t" for t m'
        using that m o(1) by auto
      show "mx_thread_id (recs s' m') = owner_of st m'" if "t \<noteq> me" "reg t = Some (mx_thread_id (recs s' m'))" for t m'
        using that o(1) ids(2) by (simp split: if_split_asm)
    qed (use o k m in simp_all)
  next
    case (Record_Unlock m)
    then have o: "mx_thread_id (recs s' m') = (if m' = m \<and> owner_of st m = i then -1 else owner_of st m')"
        "found s' = found (shared st)" "registered s' = reg" for m'
      using s' pd k i reg by (auto simp: set_rec_def Let_def owner_of_def MUTEX_STATE_NOTLOCKED_def split: if_split_asm)
    have m: "m \<notin> holds_of M st me" "paired M k (holds_of M st me) ps" using pd Record_Unlock by (cases k; simp)+
    show ?thesis
    proof (rule fin [of k])
      show "mx_thread_id (recs s' m') = i" if "m' \<in> holds_of M st me" "\<not> to_record m' ps" for m'
        using rec [OF that(1)] that(1) o(1) Record_Unlock m by auto
      show "m' \<in> holds_of M st me \<or> to_clear m' ps" if "m' \<in> M" "mx_thread_id (recs s' m') = i" for m'
        using clr [OF that(1)] that(2) o(1) [of m'] ids(1) [OF i] Record_Unlock by (auto split: if_split_asm)
      show "mx_thread_id (recs s' m') = owner_of st m'"
        if "t \<noteq> me" "reg t = Some (owner_of st m')" for t m'
        using that o(1) ids(2) by auto
      show "mx_thread_id (recs s' m') = owner_of st m'" if "t \<noteq> me" "reg t = Some (mx_thread_id (recs s' m'))" for t m'
        using that o(1) [of m'] ids(1) [of t] by (auto split: if_split_asm)
    qed (use o k m in simp_all)
  qed (use pd in auto)
qed

lemma debug_step:
  assumes inv: "debug_inv M reg st" and step: "sync_step debug_sem me ch st = Next st'"
  shows "debug_inv M reg st'"
proof -
  obtain p ps where ps: "progs st me = p # ps" using step by (cases "progs st me") auto
  have c: "call debug_sem me ch p ps (set_prog me ps st) = Next st'" using step ps by (simp add: step_call)
  obtain k where k: "k \<longrightarrow> found (shared st) me = reg me" "paired M k (holds_of M st me) (p # ps)"
    using inv ps unfolding debug_inv_def by metis
  obtain i where i: "reg me = Some i"
    using inv ps unfolding debug_inv_def all_registered_def by (metis list.distinct(1) not_None_eq)
  show ?thesis
  proof (cases p)
    case (Lock l)
    then obtain m where l: "l = Mutex m" using k(2) by (cases l) auto
    have st': "locks st (Mutex m) = Free" "st' = set_lock (Mutex m) (Held me) (set_prog me ps st)"
      using c Lock l by (auto split: lock_state.split_asm if_split_asm)
    have pd: "paired M k (holds_of M st' me) ps"
      using k(2) Lock l st' by (cases k) (auto simp: holds_lock split: if_split_asm)
    have gain: "m' \<in> holds_of M st me \<and> \<not> to_record m' (p # ps) \<or> to_record m' ps" if "m' \<in> holds_of M st' me" for m'
      using that k(2) Lock l st' to_Lock(1) [of m' l ps] by (auto simp: holds_lock split: if_split_asm)
    have loss: "m' \<in> holds_of M st' me \<or> to_clear m' ps" if "m' \<in> holds_of M st me \<or> to_clear m' (p # ps)" for m'
      using that Lock l st' to_Lock(2) [of m' l ps] by (auto simp: holds_lock)
    show ?thesis
      by (rule debug_inv_locks [OF inv ps _ _ _ k(1) pd gain loss]) (use st' in \<open>simp_all add: holds_lock\<close>)
  next
    case (Unlock l)
    then obtain m where l: "l = Mutex m" using k(2) by (cases l) auto
    have st': "locks st (Mutex m) = Held me" "st' = set_lock (Mutex m) Free (set_prog me ps st)"
      using c Unlock l by (auto split: if_split_asm)
    have pd: "paired M k (holds_of M st' me) ps"
      using k(2) Unlock l st' by (cases k) (auto simp: holds_unlock split: if_split_asm)
    have gain: "m' \<in> holds_of M st me \<and> \<not> to_record m' (p # ps) \<or> to_record m' ps" if "m' \<in> holds_of M st' me" for m'
      using that Unlock l st' by (auto simp: holds_unlock split: if_split_asm)
    have loss: "m' \<in> holds_of M st' me \<or> to_clear m' ps"
      if "m' \<in> holds_of M st me \<or> to_clear m' (p # ps)" "m' \<in> M" for m'
      using that k(2) Unlock l st' by (auto simp: holds_unlock split: if_split_asm)
    show ?thesis
      by (rule debug_inv_locks [OF inv ps _ _ _ k(1) pd gain loss]) (use st' in \<open>simp_all add: holds_unlock\<close>)
  next
    case (Do u)
    then obtain s where "debug_sem me u (shared st) = Some s" "st' = (set_prog me ps st)\<lparr>shared := s\<rparr>"
      using c by (auto split: option.split_asm)
    then show ?thesis using debug_inv_act [OF inv _ _ i k(1)] ps k(2) Do by simp
  qed (use k(2) in auto)
qed

lemma debug_inv_now: "debug_inv M reg (st\<lparr>now := n\<rparr>) \<longleftrightarrow> debug_inv M reg st"
proof -
  have "shared (st\<lparr>now := n\<rparr>) = shared st" "progs (st\<lparr>now := n\<rparr>) = progs st" "locks (st\<lparr>now := n\<rparr>) = locks st"
    by simp_all
  then show ?thesis unfolding debug_inv_def all_registered_def holds_of_def owner_of_def by (simp only:)
qed

lemma debug_runs: "sync_runs debug_sem st0 st \<Longrightarrow> debug_inv M reg st0 \<Longrightarrow> debug_inv M reg st"
proof (induction rule: sync_runs.induct)
  case (moves st me ch st')
  then show ?case using debug_step by blast
qed (simp_all only: debug_inv_now)

subsection \<open>The users' programs have the shape\<close>

lemma internal_simps [simp]: "library_mutex \<in> internal" "threadtree_mutex \<in> internal" "mutextree_mutex \<in> internal"
  by (simp_all add: internal_def)

lemma not_internal:
  "M \<inter> internal = {} \<Longrightarrow> H \<subseteq> M \<Longrightarrow> threadtree_mutex \<notin> M \<and> mutextree_mutex \<notin> M \<and> threadtree_mutex \<notin> H \<and> mutextree_mutex \<notin> H"
  using internal_simps by blast

lemma debug_ok_paired:
  "debug_ok M H us \<Longrightarrow> M \<inter> internal = {} \<Longrightarrow> H \<subseteq> M \<Longrightarrow> paired M k H (debug_prims us)"
proof (induction M H us arbitrary: k rule: debug_ok.induct)
  case (2 M H m l us)
  then show ?case using not_internal [OF 2(3,4)] by (simp add: debug_calls)
next
  case (3 M H m l us)
  then have "m \<in> H" "m \<in> M" "H - {m} \<subseteq> M" by auto
  then show ?case using 3 not_internal [OF 3(3,4)] by (simp add: debug_calls)
qed simp

definition hold_mutexes :: "nat set \<Rightarrow> hold set" where
  "hold_mutexes H = (\<lambda>m. H_Lock (Mutex m)) ` H"

lemma hold_mutexes_simps [simp]:
  "hold_mutexes {} = {}" "hold_mutexes (insert m H) = insert (H_Lock (Mutex m)) (hold_mutexes H)"
  "hold_mutexes (H - {m}) = hold_mutexes H - {H_Lock (Mutex m)}" "H_Lock (Mutex m) \<in> hold_mutexes H \<longleftrightarrow> m \<in> H"
  by (auto simp: hold_mutexes_def)

lemma debug_ok_typed:
  "debug_ok M H us \<Longrightarrow> M \<inter> internal = {} \<Longrightarrow> H \<subseteq> M \<Longrightarrow> Mutex ` (M \<union> internal) \<subseteq> o_locks E \<Longrightarrow>
   typed E (hold_mutexes H) (debug_prims us)"
proof (induction M H us rule: debug_ok.induct)
  case (2 M H m l us)
  note no = not_internal [OF 2(3,4)]
  have m: "m \<noteq> mutextree_mutex" "m \<noteq> threadtree_mutex" using no 2(2) by auto
  have "Mutex m \<in> o_locks E" "Mutex threadtree_mutex \<in> o_locks E" "Mutex mutextree_mutex \<in> o_locks E"
    using 2 by (simp_all add: image_subset_iff)
  then show ?case using 2 no m by (simp add: debug_calls insert_Diff_if)
next
  case (3 M H m l us)
  note no = not_internal [OF 3(3,4)]
  have "Mutex threadtree_mutex \<in> o_locks E" "Mutex mutextree_mutex \<in> o_locks E"
    using 3 by (simp_all add: image_subset_iff)
  moreover have "typed E (hold_mutexes H - {H_Lock (Mutex m)}) (debug_prims us)" using 3 by auto
  ultimately show ?case using 3(2) no by (simp add: debug_calls insert_Diff_if)
qed simp

definition debug_users :: "objects \<Rightarrow> nat set \<Rightarrow> (nat \<Rightarrow> debug_call list) \<Rightarrow> (debug_act, debug) sync \<Rightarrow> bool" where
  "debug_users E M us st \<longleftrightarrow> objects_there E st \<and> all_free st \<and> M \<inter> internal = {} \<and> Mutex ` (M \<union> internal) \<subseteq> o_locks E \<and>
     all_registered (registered (shared st)) st \<and> (\<forall>m \<in> M. owner_of st m < 0) \<and>
     (\<forall>t. debug_ok M {} (us t) \<and> progs st t = debug_prims (us t))"

lemma debug_users_typed: "debug_users E M us st \<Longrightarrow> typed_state E st"
  unfolding debug_users_def
  using debug_ok_typed [of M "{}" _ E] by (intro typed_start) simp_all

lemma debug_users_inv: "debug_users E M us st \<Longrightarrow> debug_inv M (registered (shared st)) st"
proof -
  assume u: "debug_users E M us st"
  have none: "holds_of M st t = {}" for t using u by (auto simp: debug_users_def all_free_def holds_of_def)
  have "paired M False {} (progs st t)" for t using u debug_ok_paired [of M "{}"] by (auto simp: debug_users_def)
  moreover have "registered (shared st) t \<noteq> Some (owner_of st m)" if "m \<in> M" for t m
    using u that by (force simp: debug_users_def all_registered_def)
  ultimately show ?thesis using u none unfolding debug_inv_def debug_users_def
    by (metis empty_iff)
qed

lemma between_calls: "progs st t = debug_prims vs \<Longrightarrow> \<not> to_record m (progs st t) \<and> \<not> to_clear m (progs st t)"
  by (cases vs; cases "hd vs") (auto simp: debug_calls)

text \<open>What the invariant says of a thread between two calls, and of the actions of the calls.\<close>

lemma debug_inv_between:
  assumes inv: "debug_inv M reg st" and "m \<in> M" and "progs st t = debug_prims vs"
  shows "reg t = registered (shared st) t" and "locks st (Mutex m) = Held t \<longleftrightarrow> reg t = Some (owner_of st m)"
proof -
  show "reg t = registered (shared st) t" using inv by (simp only: debug_inv_def)
  have "m \<in> holds_of M st t \<longrightarrow> reg t = Some (owner_of st m)" "reg t = Some (owner_of st m) \<longrightarrow> m \<in> holds_of M st t"
    using inv assms(2) between_calls [OF assms(3), of m] unfolding debug_inv_def by metis+
  then show "locks st (Mutex m) = Held t \<longleftrightarrow> reg t = Some (owner_of st m)" using assms(2) by auto
qed

text \<open>Names that can be logged stay so: no function changes them.\<close>

definition names_ok :: "nat set \<Rightarrow> debug \<Rightarrow> bool" where
  "names_ok M s \<longleftrightarrow> debug_level s < 4 \<or> (\<forall>m \<in> M. mx_name (recs s m) \<noteq> Garbage)"

lemma free_mutex_names:
  "free_mutex m s = Some s' \<Longrightarrow> debug_level s' = debug_level s \<and> mx_name (recs s' n) = mx_name (recs s n)"
  by (auto simp: free_mutex_def set_rec_def split: text_field.splits)

lemma free_mutexes_names:
  "free_mutexes ks s = Some s' \<Longrightarrow> debug_level s' = debug_level s \<and> mx_name (recs s' n) = mx_name (recs s n)"
proof (induction ks arbitrary: s)
  case (Cons k ks)
  then obtain s1 where "free_mutex (snd k) s = Some s1" "free_mutexes ks s1 = Some s'" by (auto simp: bind_eq_Some_conv)
  then show ?case using Cons.IH free_mutex_names by metis
qed simp

lemma debug_sem_names:
  "debug_sem me u s = Some s' \<Longrightarrow> debug_level s' = debug_level s \<and> mx_name (recs s' n) = mx_name (recs s n)"
proof (cases u)
  case (Delete_Rec m)
  assume d: "debug_sem me u s = Some s'"
  then obtain t ks where "free_mutexes ks (s\<lparr>mutextree := Some t\<rparr>) = Some s'"
    using Delete_Rec by (auto simp: bind_eq_Some_conv)
  from free_mutexes_names [OF this] show ?thesis by simp
qed (auto simp: set_rec_def Let_def bind_eq_Some_conv split: option.split_asm if_split_asm)

lemma step_shared:
  "sync_step sem me ch st = Next st' \<Longrightarrow> shared st' = shared st \<or> (\<exists>u. sem me u (shared st) = Some (shared st'))"
  unfolding sync_step_def
  by (cases "progs st me"; cases "hd (progs st me)")
    (auto split: option.split_asm lock_state.split_asm lock.split_asm rw_state.split_asm choice.split_asm if_split_asm)

lemma names_ok_runs: "sync_runs debug_sem st0 st \<Longrightarrow> names_ok M (shared st0) \<Longrightarrow> names_ok M (shared st)"
proof (induction rule: sync_runs.induct)
  case (moves st me ch st')
  from step_shared [OF moves.hyps(2)] moves.IH [OF moves.prems] debug_sem_names show ?case
    unfolding names_ok_def by metis
qed simp_all

lemma debug_act_defined:
  assumes inv: "debug_inv M reg st" and names: "names_ok M (shared st)" and ps: "progs st me = Do u # ps"
  shows "debug_sem me u (shared st) \<noteq> None"
proof -
  obtain k where k: "k \<longrightarrow> found (shared st) me = reg me" "paired M k (holds_of M st me) (Do u # ps)"
    using inv ps unfolding debug_inv_def by metis
  have "reg me \<noteq> None" using inv ps unfolding debug_inv_def all_registered_def by (metis list.distinct(1))
  then show ?thesis using k names by (cases u) (auto simp: Let_def names_ok_def)
qed

subsection \<open>The owner of a record is not raced\<close>

text \<open>
  The field \<open>thread_id\<close> of a record is read and written under \<open>_mutextree_mutex\<close> only: no two threads are
  ever at such an access at the same time.
\<close>

fun owner_act :: "debug_act \<Rightarrow> bool" where
  "owner_act (Record_Lock m l) \<longleftrightarrow> True"
| "owner_act (Record_Unlock m) \<longleftrightarrow> True"
| "owner_act u \<longleftrightarrow> False"

fun shielded :: "bool \<Rightarrow> debug_act prim list \<Rightarrow> bool" where
  "shielded b [] \<longleftrightarrow> True"
| "shielded b (Lock (Mutex m) # ps) \<longleftrightarrow> shielded (b \<or> m = mutextree_mutex) ps"
| "shielded b (Unlock (Mutex m) # ps) \<longleftrightarrow> shielded (b \<and> m \<noteq> mutextree_mutex) ps"
| "shielded b (Do u # ps) \<longleftrightarrow> (owner_act u \<longrightarrow> b) \<and> shielded b ps"
| "shielded b (p # ps) \<longleftrightarrow> False"

definition all_shielded :: "(debug_act, debug) sync \<Rightarrow> bool" where
  "all_shielded st \<longleftrightarrow> (\<forall>t. shielded (locks st (Mutex mutextree_mutex) = Held t) (progs st t))"

lemma shielded_step:
  assumes inv: "all_shielded st" and step: "sync_step debug_sem me ch st = Next st'"
  shows "all_shielded st'"
proof -
  obtain p ps where ps: "progs st me = p # ps" using step by (cases "progs st me") (auto simp: sync_step_def)
  have c: "call debug_sem me ch p ps (set_prog me ps st) = Next st'" using step ps by (simp add: sync_step_def)
  have mine: "shielded (locks st (Mutex mutextree_mutex) = Held me) (p # ps)"
    using inv ps unfolding all_shielded_def by metis
  have others: "shielded (locks st (Mutex mutextree_mutex) = Held t) (progs st t)" for t
    using inv by (simp add: all_shielded_def)
  show ?thesis
  proof (cases p)
    case (Lock l)
    then obtain m where l: "l = Mutex m" using mine by (cases l) auto
    then have "locks st (Mutex m) = Free" "st' = set_lock (Mutex m) (Held me) (set_prog me ps st)"
      using c Lock by (auto split: lock_state.split_asm if_split_asm)
    then show ?thesis using mine others Lock l by (auto simp: all_shielded_def)
  next
    case (Unlock l)
    then obtain m where l: "l = Mutex m" using mine by (cases l) auto
    then have "locks st (Mutex m) = Held me" "st' = set_lock (Mutex m) Free (set_prog me ps st)"
      using c Unlock by (auto split: if_split_asm)
    then show ?thesis using mine others Unlock l by (auto simp: all_shielded_def) (metis lock_state.inject)
  next
    case (Do u)
    then obtain s where "st' = (set_prog me ps st)\<lparr>shared := s\<rparr>" using c by (auto split: option.split_asm)
    then show ?thesis using mine others Do by (simp add: all_shielded_def)
  qed (use mine in simp_all)
qed

lemma shielded_runs: "sync_runs debug_sem st0 st \<Longrightarrow> all_shielded st0 \<Longrightarrow> all_shielded st"
proof (induction rule: sync_runs.induct)
  case (moves st me ch st')
  then show ?case using shielded_step by blast
qed (simp_all add: all_shielded_def)

lemma debug_ok_shielded:
  "debug_ok M H us \<Longrightarrow> M \<inter> internal = {} \<Longrightarrow> H \<subseteq> M \<Longrightarrow> shielded False (debug_prims us)"
proof (induction M H us rule: debug_ok.induct)
  case (2 M H m l us)
  then show ?case using not_internal [OF 2(3,4)] by (simp add: debug_calls)
next
  case (3 M H m l us)
  then have "m \<in> M" "H - {m} \<subseteq> M" by auto
  then show ?case using 3 not_internal [OF 3(3,4)] by (simp add: debug_calls)
qed simp

lemma debug_users_shielded: "debug_users E M us st \<Longrightarrow> all_shielded st"
  using debug_ok_shielded by (fastforce simp: debug_users_def all_shielded_def all_free_def)

lemma owner_not_raced:
  assumes "all_shielded st" and "progs st t = Do a # ps" and "progs st u = Do b # qs" and "owner_act a" and "owner_act b"
  shows "t = u"
proof -
  have "shielded (locks st (Mutex mutextree_mutex) = Held t) (Do a # ps)"
    "shielded (locks st (Mutex mutextree_mutex) = Held u) (Do b # qs)"
    using assms(1-3) unfolding all_shielded_def by metis+
  then show ?thesis using assms(4,5) by simp
qed

end
