(* ===== verification/Thread_Debug_Tree.thy ===== *)
theory Thread_Debug_Tree
  imports Thread_Debug
begin

section \<open>The tree of all mutexes\<close>

text \<open>
  Making and destroying mutexes in the debugging configuration: the AVL tree that holds them,
  by number, from \<open>thread_initialize\<close> to \<open>thread_shutdown\<close>; and the walk over it that \<open>CHECK_MUTEXES\<close> adds to
  the lock.
\<close>

subsection \<open>Making and destroying mutexes\<close>

text \<open>After \<open>thread_initialize\<close> the tree holds the three internal mutexes, numbered from 0.\<close>

definition mutexes_kept :: "debug \<Rightarrow> mutex_key list \<Rightarrow> bool" where
  "mutexes_kept s ks \<longleftrightarrow> (\<exists>t. mutextree s = Some t \<and> avl_rep compare_mutexes t ks) \<and>
     strict_by compare_mutexes ks \<and> (\<forall>k \<in> set ks. fst k = mutex_id (recs s (snd k)) \<and> fst k < next_mutex_id s)"

lemma mutex_order: "key_order compare_mutexes"
  by unfold_locales (auto simp: compare_mutexes_def split: if_split_asm)

interpretation mutex: key_order compare_mutexes by (rule mutex_order)

lemma mutex_strict: "strict_by compare_mutexes ks \<longleftrightarrow> sorted_wrt (\<lambda>a b. fst a < fst b) ks"
proof -
  have "(\<lambda>a b. compare_mutexes a b < 0) = (\<lambda>a b. fst a < fst b)" by (auto simp: compare_mutexes_def fun_eq_iff)
  then show ?thesis unfolding strict_by_def by simp
qed

lemma sorted_snoc: "\<forall>k \<in> set ks. fst k < i \<Longrightarrow> ins_by compare_mutexes (i, m) ks = ks @ [(i, m)]"
  by (induction ks) (auto simp: compare_mutexes_def)

text \<open>A mutex that is not in the tree gets the next number, and goes to the end.\<close>

lemma number_and_insert:
  assumes "mutexes_kept s ks" and "m \<notin> snd ` set ks"
  shows "\<exists>s1 s2. debug_sem me (Number m) s = Some s1 \<and> debug_sem me (Insert_Rec m) s1 = Some s2 \<and>
     mutexes_kept s2 (ks @ [(next_mutex_id s, m)]) \<and> next_mutex_id s2 = next_mutex_id s + 1 \<and>
     recs s2 = (recs s)(m := (recs s m)\<lparr>mutex_id := next_mutex_id s\<rparr>) \<and>
     registered s2 = registered s \<and> found s2 = found s"
proof -
  obtain t where t: "mutextree s = Some t" "avl_rep compare_mutexes t ks" "strict_by compare_mutexes ks"
      "\<forall>k \<in> set ks. fst k = mutex_id (recs s (snd k)) \<and> fst k < next_mutex_id s"
    using assms(1) unfolding mutexes_kept_def by blast
  let ?k = "(next_mutex_id s, m)"
  have last: "\<forall>k \<in> set ks. fst k < next_mutex_id s" using t(4) by blast
  obtain t' where t': "avl_insert t ?k = Some (0, t')" "avl_rep compare_mutexes t' (ks @ [?k])"
    using avl_rep_insert [OF mutex_order t(2) mutex.strict_sorted [OF t(3)], of ?k]
    unfolding sorted_snoc [OF last] by blast
  have "strict_by compare_mutexes (ks @ [?k])"
    using t(3) last by (simp add: mutex_strict sorted_wrt_append)
  moreover have "\<forall>k \<in> set ks. snd k \<noteq> m" using assms(2) by force
  ultimately show ?thesis
    using t(1,4) t' by (auto simp: mutexes_kept_def set_rec_def)
qed

lemma mutexes_kept_ids:
  "mutexes_kept s ks \<Longrightarrow> mutextree s' = mutextree s \<Longrightarrow> next_mutex_id s' = next_mutex_id s \<Longrightarrow>
   (\<And>m. mutex_id (recs s' m) = mutex_id (recs s m)) \<Longrightarrow> mutexes_kept s' ks"
  unfolding mutexes_kept_def by metis

lemma sync_exec_append:
  "sync_exec sem (ms @ ns) st = (case sync_exec sem ms st of Next st' \<Rightarrow> sync_exec sem ns st' | r \<Rightarrow> r)"
  by (induction sem ms st rule: sync_exec.induct) (auto split: result.split)

text \<open>\<open>thread_mutex_create_c\<close> by a thread alone: a new number, a new entry, and the locks as before.\<close>

lemma thread_mutex_create_exec:
  assumes "progs st me = thread_mutex_create_dbg m @ ps" and "m \<noteq> mutextree_mutex" and "locks st (Mutex m) = Free"
    and "locks st (Mutex mutextree_mutex) = Free" and "mutexes_kept (shared st) ks" and "m \<notin> snd ` set ks"
  shows "\<exists>s. sync_exec debug_sem (replicate 6 (me, Proceed)) st = Next ((set_prog me ps st)\<lparr>shared := s\<rparr>) \<and>
     mutexes_kept s (ks @ [(next_mutex_id (shared st), m)]) \<and> next_mutex_id s = next_mutex_id (shared st) + 1 \<and>
     recs s = (recs (shared st))(m := (recs (shared st) m)\<lparr>mx_thread_id := MUTEX_STATE_NEVERLOCKED,
         mx_line := -1, mutex_id := next_mutex_id (shared st)\<rparr>) \<and>
     registered s = registered (shared st) \<and> found s = found (shared st)"
proof -
  let ?s0 = "set_rec m ((recs (shared st) m)\<lparr>mx_thread_id := MUTEX_STATE_NEVERLOCKED, mx_line := -1\<rparr>) (shared st)"
  have "mutexes_kept ?s0 ks" by (rule mutexes_kept_ids [OF assms(5)]) (simp_all add: set_rec_def)
  from number_and_insert [OF this assms(6), of me] obtain s1 s2 where
    s: "debug_sem me (Number m) ?s0 = Some s1" "debug_sem me (Insert_Rec m) s1 = Some s2"
      "mutexes_kept s2 (ks @ [(next_mutex_id ?s0, m)])" "next_mutex_id s2 = next_mutex_id ?s0 + 1"
      "recs s2 = (recs ?s0)(m := (recs ?s0 m)\<lparr>mutex_id := next_mutex_id ?s0\<rparr>)"
      "registered s2 = registered ?s0" "found s2 = found ?s0" by blast
  have l: "(locks st)(Mutex m := Free) = locks st" "(locks st)(Mutex mutextree_mutex := Free) = locks st"
    using assms(3,4) by (simp_all add: fun_upd_idem)
  have "debug_sem me (Create_Rec m) (shared st) = Some ?s0" by simp
  then have "sync_exec debug_sem (replicate 6 (me, Proceed)) st = Next ((set_prog me ps st)\<lparr>shared := s2\<rparr>)"
    using assms(1-4) s(1,2) l
    by (simp add: debug_calls sync_step_def numeral_eq_Suc set_prog_def set_lock_def del: debug_sem.simps)
  then show ?thesis using s by (intro exI [of _ s2]) (simp add: set_rec_def)
qed

text \<open>The part of \<open>thread_initialize\<close>: the three internal mutexes are there, under the numbers 0, 1 and 2.\<close>

lemma initialize_mutexes_exec:
  assumes "progs st me = initialize_mutexes @ ps" and "next_mutex_id (shared st) = 0"
    and "\<And>m. m \<in> internal \<Longrightarrow> locks st (Mutex m) = Free"
  shows "\<exists>s. sync_exec debug_sem (replicate 17 (me, Proceed)) st = Next ((set_prog me ps st)\<lparr>shared := s\<rparr>) \<and>
     mutexes_kept s [(0, mutextree_mutex), (1, threadtree_mutex), (2, library_mutex)] \<and> next_mutex_id s = 3 \<and>
     (\<forall>m \<in> internal. mx_thread_id (recs s m) = MUTEX_STATE_NEVERLOCKED \<and> mx_file (recs s m) = mx_file (recs (shared st) m))"
proof -
  let ?T = mutextree_mutex
  have free: "locks st (Mutex ?T) = Free" "locks st (Mutex threadtree_mutex) = Free" "locks st (Mutex library_mutex) = Free"
    using assms(3) by simp_all
  obtain t0 where t0: "avl_tree_new compare_mutexes \<lparr>cells = Map.empty, brk = 0, limit = None\<rparr> = Some t0"
      "avl_rep compare_mutexes t0 []"
    using avl_rep_new [of "\<lparr>cells = Map.empty, brk = 0, limit = None\<rparr>"] by auto
  let ?s0 = "set_rec ?T ((recs (shared st) ?T)\<lparr>mx_thread_id := MUTEX_STATE_NEVERLOCKED, mx_line := -1\<rparr>)
    ((shared st)\<lparr>mutextree := Some t0\<rparr>)"
  have "mutexes_kept ?s0 []" using t0(2) by (simp add: mutexes_kept_def set_rec_def strict_by_def)
  from number_and_insert [OF this, of ?T me] obtain s1 s2 where
    s: "debug_sem me (Number ?T) ?s0 = Some s1" "debug_sem me (Insert_Rec ?T) s1 = Some s2"
      "mutexes_kept s2 [(0, ?T)]" "next_mutex_id s2 = 1"
      "recs s2 = (recs ?s0)(?T := (recs ?s0 ?T)\<lparr>mutex_id := 0\<rparr>)"
    using assms(2) by (auto simp: set_rec_def)
  have l: "(locks st)(Mutex ?T := Free) = locks st" using free by (simp add: fun_upd_idem)
  let ?ps1 = "thread_mutex_create_dbg threadtree_mutex @ thread_mutex_create_dbg library_mutex @ ps"
  let ?st1 = "(set_prog me ?ps1 st)\<lparr>shared := s2\<rparr>"
  have acts: "debug_sem me New_Tree (shared st) = Some ((shared st)\<lparr>mutextree := Some t0\<rparr>)"
      "debug_sem me (Create_Rec ?T) ((shared st)\<lparr>mutextree := Some t0\<rparr>) = Some ?s0"
    using t0(1) by (simp_all add: set_rec_def)
  have 1: "sync_exec debug_sem (replicate 5 (me, Proceed)) st = Next ?st1"
    using assms(1) free l acts s(1,2)
    by (simp add: initialize_mutexes_def mutex_create_dbg_def sync_step_def numeral_eq_Suc set_prog_def set_lock_def del: debug_sem.simps)
  have ne: "threadtree_mutex \<noteq> ?T" "library_mutex \<noteq> ?T" "library_mutex \<noteq> threadtree_mutex"
    by (simp_all add: threadtree_mutex_def library_mutex_def mutextree_mutex_def)
  obtain s3 where 2: "sync_exec debug_sem (replicate 6 (me, Proceed)) ?st1 =
        Next ((set_prog me (thread_mutex_create_dbg library_mutex @ ps) ?st1)\<lparr>shared := s3\<rparr>)"
      "mutexes_kept s3 [(0, ?T), (1, threadtree_mutex)]" "next_mutex_id s3 = 2"
      "recs s3 = (recs s2)(threadtree_mutex := (recs s2 threadtree_mutex)\<lparr>mx_thread_id := MUTEX_STATE_NEVERLOCKED,
         mx_line := -1, mutex_id := 1\<rparr>)"
    using thread_mutex_create_exec [of ?st1 me threadtree_mutex "thread_mutex_create_dbg library_mutex @ ps" "[(0, ?T)]"]
      free ne s(3,4) by auto
  let ?st2 = "(set_prog me (thread_mutex_create_dbg library_mutex @ ps) ?st1)\<lparr>shared := s3\<rparr>"
  obtain s4 where 3: "sync_exec debug_sem (replicate 6 (me, Proceed)) ?st2 = Next ((set_prog me ps ?st2)\<lparr>shared := s4\<rparr>)"
      "mutexes_kept s4 [(0, ?T), (1, threadtree_mutex), (2, library_mutex)]" "next_mutex_id s4 = 3"
      "recs s4 = (recs s3)(library_mutex := (recs s3 library_mutex)\<lparr>mx_thread_id := MUTEX_STATE_NEVERLOCKED,
         mx_line := -1, mutex_id := 2\<rparr>)"
    using thread_mutex_create_exec [of ?st2 me library_mutex ps "[(0, ?T), (1, threadtree_mutex)]"] free ne 2(2,3) by auto
  have st: "(set_prog me ps ?st2)\<lparr>shared := s4\<rparr> = (set_prog me ps st)\<lparr>shared := s4\<rparr>" by (simp add: set_prog_def)
  have "replicate 17 (me, Proceed) = replicate 5 (me, Proceed) @ replicate 6 (me, Proceed) @ replicate 6 (me, Proceed)"
    by (simp add: replicate_add [symmetric])
  then have "sync_exec debug_sem (replicate 17 (me, Proceed)) st = Next ((set_prog me ps st)\<lparr>shared := s4\<rparr>)"
    using 1 2(1) 3(1) st by (simp add: sync_exec_append del: replicate.simps sync_exec.simps)
  moreover have "mx_thread_id (recs s4 m) = MUTEX_STATE_NEVERLOCKED \<and> mx_file (recs s4 m) = mx_file (recs (shared st) m)"
    if "m \<in> internal" for m
    using that ne 2(4) 3(4) s(5) by (auto simp: internal_def set_rec_def)
  ultimately show ?thesis using 3(2,3) by blast
qed

text \<open>Two mutexes of the tree have two numbers.\<close>

lemma mutexes_kept_ne:
  assumes "mutexes_kept s ks" and "(i, m) \<in> set ks" and "(j, n) \<in> set ks" and "m \<noteq> n"
  shows "i \<noteq> j"
proof -
  have "sorted_wrt (\<lambda>a b. fst a < fst b) ks" using assms(1) by (simp add: mutexes_kept_def mutex_strict)
  moreover obtain xs ys where "ks = xs @ (i, m) # ys" using split_list [OF assms(2)] by blast
  ultimately show ?thesis using assms(3,4) by (fastforce simp: sorted_wrt_append)
qed

text \<open>Destroying a mutex that is not initialised statically frees a string that was never set.\<close>

lemma destroy_frees_garbage:
  assumes "mutexes_kept s ks" and "(mutex_id (recs s m), m) \<in> set ks" and "mx_file (recs s m) = Garbage"
  shows "debug_sem me (Delete_Rec m) s = None"
proof -
  obtain t where t: "mutextree s = Some t" "avl_rep compare_mutexes t ks" "strict_by compare_mutexes ks"
    using assms(1) by (auto simp: mutexes_kept_def)
  let ?k = "(mutex_id (recs s m), m)"
  have sorted: "sorted_by compare_mutexes ks" using mutex.strict_sorted [OF t(3)] .
  have "\<exists>k \<in> set ks. compare_mutexes ?k k = 0" using assms(2) by (intro bexI [of _ ?k]) (simp_all add: compare_mutexes_def)
  then obtain k t' xs ys where d: "avl_delete t ?k = Some (0, [k], t')" "ks = xs @ k # ys" "compare_mutexes ?k k = 0"
    using avl_rep_delete_hit [OF mutex_order t(2) sorted] by blast
  obtain us vs where ab: "ks = us @ ?k # vs" using split_list [OF assms(2)] by blast
  have "find_by compare_mutexes ?k ks = Some k" "find_by compare_mutexes ?k ks = Some ?k"
    using mutex.strict_unique(2) [of xs k ys ?k] mutex.strict_unique(2) [of us ?k vs ?k]
      t(3) d(2,3) ab by (auto simp: compare_mutexes_def)
  then have "k = ?k" by simp
  then show ?thesis using t(1) d(1) assms(3) by (simp add: free_mutex_def)
qed

text \<open>A mutex with a proper string is taken out of the tree.\<close>

lemma delete_keeps:
  assumes "mutexes_kept s ks" and "(mutex_id (recs s m), m) \<in> set ks" and "mx_file (recs s m) = Null_Text"
  shows "\<exists>s'. debug_sem me (Delete_Rec m) s = Some s' \<and> recs s' = recs s \<and> next_mutex_id s' = next_mutex_id s \<and>
     mutexes_kept s' (filter (\<lambda>k. fst k \<noteq> mutex_id (recs s m)) ks)"
proof -
  obtain t where t: "mutextree s = Some t" "avl_rep compare_mutexes t ks" "strict_by compare_mutexes ks"
    using assms(1) by (auto simp: mutexes_kept_def)
  let ?k = "(mutex_id (recs s m), m)"
  obtain us vs where ab: "ks = us @ ?k # vs" using split_list [OF assms(2)] by blast
  have f: "find_by compare_mutexes ?k ks = Some ?k"
    using mutex.strict_unique(2) [of us ?k vs ?k] t(3) ab by (simp add: compare_mutexes_def)
  have d: "del_by compare_mutexes ?k ks = filter (\<lambda>k. fst k \<noteq> mutex_id (recs s m)) ks"
    unfolding del_by_def by (rule filter_cong) (auto simp: compare_mutexes_def)
  obtain t' where t': "avl_delete t ?k = Some (0, [?k], t')" "avl_rep compare_mutexes t' (del_by compare_mutexes ?k ks)"
    using mutex.avl.del_del [OF t(2,3), of ?k] f by auto
  have "mutexes_kept (s\<lparr>mutextree := Some t'\<rparr>) (filter (\<lambda>k. fst k \<noteq> mutex_id (recs s m)) ks)"
    using t' d assms(1) mutex.strict_del [OF t(3), of ?k] unfolding mutexes_kept_def by (auto simp del: split_paired_All)
  then show ?thesis using t(1) t'(1) assms(3) by (simp add: free_mutex_def)
qed

lemma thread_mutex_destroy_exec:
  assumes "progs st me = thread_mutex_destroy_dbg m @ ps" and "m \<noteq> mutextree_mutex" and "locks st (Mutex m) = Free"
    and "locks st (Mutex mutextree_mutex) = Free" and "mutexes_kept (shared st) ks"
    and "(mutex_id (recs (shared st) m), m) \<in> set ks" and "mx_file (recs (shared st) m) = Null_Text"
  shows "\<exists>s. sync_exec debug_sem (replicate 4 (me, Proceed)) st =
       Next ((set_lock (Mutex m) Absent (set_prog me ps st))\<lparr>shared := s\<rparr>) \<and>
     recs s = recs (shared st) \<and> mutexes_kept s (filter (\<lambda>k. fst k \<noteq> mutex_id (recs (shared st) m)) ks)"
proof -
  obtain s where s: "debug_sem me (Delete_Rec m) (shared st) = Some s" "recs s = recs (shared st)"
      "mutexes_kept s (filter (\<lambda>k. fst k \<noteq> mutex_id (recs (shared st) m)) ks)"
    using delete_keeps [OF assms(5,6,7)] by blast
  have "(locks st)(Mutex m := Absent, Mutex mutextree_mutex := Free) = (locks st)(Mutex m := Absent)"
    using assms(2,4) by (simp add: fun_eq_iff)
  then have "sync_exec debug_sem (replicate 4 (me, Proceed)) st =
       Next ((set_lock (Mutex m) Absent (set_prog me ps st))\<lparr>shared := s\<rparr>)"
    using assms(1-4) s(1)
    by (simp add: debug_calls sync_step_def numeral_eq_Suc set_prog_def set_lock_def del: debug_sem.simps)
  then show ?thesis using s by blast
qed

text \<open>
  With \<open>THREAD_DEBUG\<close>, \<open>thread_shutdown\<close> destroys \<open>_mutextree_mutex\<close> through \<open>thread_mutex_destroy\<close>, which then locks
  it. Without \<open>THREAD_DEBUG\<close> it ends, and leaves that mutex and the tree, which still holds it.
\<close>

lemma shutdown_two_exec:
  assumes "progs st me = shutdown_mutexes thread_debug @ ps" and "\<And>m. m \<in> internal \<Longrightarrow> locks st (Mutex m) = Free"
    and "mutexes_kept (shared st) ks" and "\<And>m. m \<in> internal \<Longrightarrow> (mutex_id (recs (shared st) m), m) \<in> set ks"
    and "\<And>m. m \<in> internal \<Longrightarrow> mx_file (recs (shared st) m) = Null_Text"
  shows "\<exists>st2. sync_exec debug_sem (replicate 8 (me, Proceed)) st = Next st2 \<and>
     progs st2 me = (if thread_debug then thread_mutex_destroy_dbg mutextree_mutex else []) @ ps \<and>
     locks st2 = (locks st)(Mutex library_mutex := Absent, Mutex threadtree_mutex := Absent) \<and>
     mutexes_kept (shared st2) (filter (\<lambda>k. fst k \<noteq> mutex_id (recs (shared st) threadtree_mutex))
       (filter (\<lambda>k. fst k \<noteq> mutex_id (recs (shared st) library_mutex)) ks))"
proof -
  let ?T = mutextree_mutex
  have ne: "threadtree_mutex \<noteq> ?T" "library_mutex \<noteq> ?T" "library_mutex \<noteq> threadtree_mutex"
    by (simp_all add: threadtree_mutex_def library_mutex_def mutextree_mutex_def)
  let ?ps2 = "(if thread_debug then thread_mutex_destroy_dbg ?T else []) @ ps"
  let ?ps1 = "thread_mutex_destroy_dbg threadtree_mutex @ ?ps2"
  let ?k1 = "filter (\<lambda>k. fst k \<noteq> mutex_id (recs (shared st) library_mutex)) ks"
  obtain s1 where 1: "sync_exec debug_sem (replicate 4 (me, Proceed)) st =
        Next ((set_lock (Mutex library_mutex) Absent (set_prog me ?ps1 st))\<lparr>shared := s1\<rparr>)"
      "recs s1 = recs (shared st)" "mutexes_kept s1 ?k1"
    using thread_mutex_destroy_exec [of st me library_mutex ?ps1 ks] assms ne by (auto simp: shutdown_mutexes_def)
  let ?st1 = "(set_lock (Mutex library_mutex) Absent (set_prog me ?ps1 st))\<lparr>shared := s1\<rparr>"
  have "mutex_id (recs (shared st) threadtree_mutex) \<noteq> mutex_id (recs (shared st) library_mutex)"
    using mutexes_kept_ne [OF assms(3) assms(4) assms(4), of threadtree_mutex library_mutex] ne by simp
  then obtain s2 where 2: "sync_exec debug_sem (replicate 4 (me, Proceed)) ?st1 =
        Next ((set_lock (Mutex threadtree_mutex) Absent (set_prog me ?ps2 ?st1))\<lparr>shared := s2\<rparr>)"
      "mutexes_kept s2 (filter (\<lambda>k. fst k \<noteq> mutex_id (recs (shared st) threadtree_mutex)) ?k1)"
    using thread_mutex_destroy_exec [of ?st1 me threadtree_mutex ?ps2 ?k1] 1(2,3) assms(2,4,5) ne by auto
  have "replicate 8 (me, Proceed) = replicate 4 (me, Proceed) @ replicate 4 (me, Proceed)"
    by (simp add: replicate_add [symmetric])
  then show ?thesis using 1(1) 2 by (simp add: sync_exec_append del: replicate.simps sync_exec.simps)
qed

lemma shutdown_mutexes_exec:
  assumes "progs st me = shutdown_mutexes True @ ps" and "\<And>m. m \<in> internal \<Longrightarrow> locks st (Mutex m) = Free"
    and "mutexes_kept (shared st) ks" and "\<And>m. m \<in> internal \<Longrightarrow> (mutex_id (recs (shared st) m), m) \<in> set ks"
    and "\<And>m. m \<in> internal \<Longrightarrow> mx_file (recs (shared st) m) = Null_Text"
  shows "sync_exec debug_sem (replicate 10 (me, Proceed)) st = Undef"
proof -
  have ne: "threadtree_mutex \<noteq> mutextree_mutex" "library_mutex \<noteq> mutextree_mutex"
    by (simp_all add: threadtree_mutex_def library_mutex_def mutextree_mutex_def)
  obtain st2 where st2: "sync_exec debug_sem (replicate 8 (me, Proceed)) st = Next st2"
      "progs st2 me = thread_mutex_destroy_dbg mutextree_mutex @ ps"
      "locks st2 = (locks st)(Mutex library_mutex := Absent, Mutex threadtree_mutex := Absent)"
    using shutdown_two_exec [OF assms] by auto
  have "sync_exec debug_sem (replicate 2 (me, Proceed)) st2 = Undef"
    using assms(2) ne st2(2,3) by (simp add: thread_mutex_destroy_dbg_def sync_step_def numeral_eq_Suc)
  moreover have "replicate 10 (me, Proceed) = replicate 8 (me, Proceed) @ replicate 2 (me, Proceed)"
    by (simp add: replicate_add [symmetric])
  ultimately show ?thesis using st2(1) by (simp add: sync_exec_append del: replicate.simps sync_exec.simps)
qed

subsection \<open>The test of \<open>CHECK_MUTEXES\<close> before a lock\<close>

text \<open>
  The walk over all mutexes: \<open>Some None\<close> when this one is recorded as held by the caller, otherwise
  how many others are. The names in the messages are left out. The mutex \<open>_multi_mutex\<close>, which the code asks for but nothing declares, is a parameter.
\<close>

partial_function (option) check_loop ::
    "(nat \<Rightarrow> mutex_t) \<Rightarrow> mutex_key store \<Rightarrow> int \<Rightarrow> int \<Rightarrow> nat \<Rightarrow> ptr \<Rightarrow> nat option option" where
  "check_loop rs t mid th cnt nd =
     (if nd = None then Some (Some cnt)
      else do {
        n \<leftarrow> rd t nd;
        k \<leftarrow> key n;
        if mutex_id (rs (snd k)) = mid \<and> mx_thread_id (rs (snd k)) = th then Some None
        else do {
          q \<leftarrow> avl_get_next t nd;
          check_loop rs t mid th
            (if mutex_id (rs (snd k)) \<noteq> mid \<and> mx_thread_id (rs (snd k)) = th then Suc cnt else cnt) q } })"

datatype lock_check = Deadlock_Avoided | Goes_On bool

definition check_lock :: "debug \<Rightarrow> nat \<Rightarrow> int \<Rightarrow> int \<Rightarrow> lock_check option" where
  "check_lock s m th multi = do {
     t \<leftarrow> mutextree s;
     nd \<leftarrow> avl_get_first t;
     res \<leftarrow> check_loop (recs s) (store t) (mutex_id (recs s m)) th 0 nd;
     Some (case res of None \<Rightarrow> Deadlock_Avoided | Some cnt \<Rightarrow> Goes_On (0 < cnt \<and> multi \<noteq> th)) }"

definition is_held :: "(nat \<Rightarrow> mutex_t) \<Rightarrow> int \<Rightarrow> mutex_key \<Rightarrow> bool" where
  "is_held rs th k \<longleftrightarrow> mx_thread_id (rs (snd k)) = th"

lemma check_loop_cursor:
  assumes "cursor t rt T i p" and "\<forall>k \<in> set (keys T). fst k = mutex_id (rs (snd k))"
  shows "check_loop rs t mid th n p = Some
    (if \<exists>k \<in> set (drop i (keys T)). fst k = mid \<and> is_held rs th k then None
     else Some (n + length (filter (is_held rs th) (drop i (keys T)))))"
  using assms
proof (induction "length (keys T) - i" arbitrary: i p n)
  case 0
  then show ?case using cursor_key by fastforce
next
  case (Suc d)
  obtain nd where nd: "rd t p = Some nd" "key nd = Some (keys T ! i)" "i < length (keys T)"
    using cursor_key [OF Suc.prems(1)] by auto
  have id: "fst (keys T ! i) = mutex_id (rs (snd (keys T ! i)))" using Suc.prems(2) nd(3) by simp
  obtain q where q: "avl_get_next t p = Some q"
      "if Suc i < length (keys T) then cursor t rt T (Suc i) q else q = None"
    using avl_get_next_cursor [OF Suc.prems(1)] by auto
  have go: "check_loop rs t mid th n' q = Some
    (if \<exists>k \<in> set (drop (Suc i) (keys T)). fst k = mid \<and> is_held rs th k then None
     else Some (n' + length (filter (is_held rs th) (drop (Suc i) (keys T)))))" for n'
  proof (cases "Suc i < length (keys T)")
    case True
    then show ?thesis using Suc.hyps(1) [of "Suc i" q n'] Suc.hyps(2) q(2) Suc.prems(2) by simp
  next
    case False
    then show ?thesis using q(2) by (subst check_loop.simps) simp
  qed
  have "p \<noteq> None" using nd(1) by (cases p) (auto simp: rd_def)
  moreover have "drop i (keys T) = keys T ! i # drop (Suc i) (keys T)" using nd(3) by (simp add: Cons_nth_drop_Suc)
  ultimately show ?case
    using nd q(1) id go by (subst check_loop.simps) (auto simp: is_held_def)
qed

text \<open>What the test says, by the records of all mutexes in the tree.\<close>

lemma check_lock_says:
  assumes "mutexes_kept s ks" and "(mutex_id (recs s m), m) \<in> set ks"
  shows "check_lock s m th multi = Some
    (if mx_thread_id (recs s m) = th then Deadlock_Avoided
     else Goes_On ((\<exists>k \<in> set ks. is_held (recs s) th k) \<and> multi \<noteq> th))"
proof -
  obtain t where t: "mutextree s = Some t" "avl_rep compare_mutexes t ks" "strict_by compare_mutexes ks"
      "\<forall>k \<in> set ks. fst k = mutex_id (recs s (snd k))"
    using assms(1) unfolding mutexes_kept_def by blast
  obtain T where T: "tree_rep t T" "keys T = ks" using t(2) by (auto simp: avl_rep_def)
  obtain rt where rt: "root t = Some rt" using T(1) by (auto simp: tree_rep_def)
  have ne: "T \<noteq> Tip" using assms(2) T(2) by auto
  then obtain p where p: "avl_get_first t = Some p" "cursor (store t) rt T 0 p"
    using avl_get_first_cursor [OF T(1) rt] by auto
  have one: "k = (mutex_id (recs s m), m)" if "k \<in> set ks" "fst k = mutex_id (recs s m)" for k
  proof -
    have "\<exists>xs ys. ks = xs @ k # ys" using split_list [OF that(1)] by blast
    then show ?thesis using that(2) assms(2) t(3)
      by (fastforce simp: mutex_strict sorted_wrt_append)
  qed
  then have "(\<exists>k \<in> set ks. fst k = mutex_id (recs s m) \<and> is_held (recs s) th k) \<longleftrightarrow> mx_thread_id (recs s m) = th"
    using assms(2) by (force simp: is_held_def)
  then show ?thesis
    using t(1,4) p check_loop_cursor [OF p(2), of "recs s" "mutex_id (recs s m)" th 0] T(2)
    by (auto simp: check_lock_def filter_empty_conv)
qed

end
