(* ===== verification/Thread_Sync_Props.thy ===== *)
theory Thread_Sync_Props
  imports Thread_Live Thread_Tree Thread_Debug_Tree Avl_Props
begin

section \<open>The properties of the locks and condition variables\<close>

text \<open>
  The properties of the synchronisation functions of \<open>src/thread/thread.c\<close> and of the tree locks
  of \<open>src/avl/avl.c\<close>, each applied to small programs of two threads.
\<close>

subsection \<open>Users for the examples\<close>

definition demo_objects :: objects where
  "demo_objects = \<lparr>o_locks = {Mutex 0, Mutex 1, Mutex 2, Spin 1}, o_conds = {1}, o_rws = {1}\<rparr>"

definition demo_cond :: cond_t where
  "demo_cond = \<lparr>sys_cond = 1, cond_mutex = 1\<rparr>"

definition demo_sync :: "(nat \<Rightarrow> 'u prim list) \<Rightarrow> 's \<Rightarrow> ('u, 's) sync" where
  "demo_sync ps s = \<lparr>locks = (\<lambda>l. if l \<in> o_locks demo_objects then Free else Absent), conds = {1},
     rws = [1 \<mapsto> Readers []], tids = [1, 2], progs = ps, shared = s, now = 5000000000\<rparr>"

definition demo_adds :: "nat \<Rightarrow> int \<Rightarrow> int \<Rightarrow> int option" where
  "demo_adds t x s = Some (s + x)"

definition demo_users :: "nat \<Rightarrow> int user_call list" where
  "demo_users t =
     (if t = 1 then [U_Lock 2, U_Do 3, U_Unlock 2, U_Protect [4], U_Broadcast demo_cond, U_Rlock 1, U_Do 1, U_Rw_Unlock 1]
      else if t = 2 then [U_Spin_Lock 1, U_Do 5, U_Spin_Unlock 1, U_Lock 2, U_Unlock 2, U_Signal demo_cond] else [])"

lemma demo_library_users:
  "library_users demo_objects {0, 1} demo_users (demo_sync (\<lambda>t. prims_of (demo_users t)) 0)"
  by (simp add: library_users_def demo_sync_def demo_objects_def objects_there_def all_free_def only_tids_def
    demo_users_def demo_cond_def library_mutex_def)

lemma demo_total: "total_sem demo_adds"
  by (simp add: total_sem_def demo_adds_def)

lemma demo_unnested: "unnested False (demo_users t)"
  by (simp add: demo_users_def)

subsection \<open>The properties\<close>

text \<open>
  C30: Whatever the interleaving, spurious wake-ups and time-outs included, threads that
  keep the lock discipline make no call of the library whose outcome is undefined, and no call
  that aborts; only their own actions can go wrong. A thread that has finished holds nothing.
\<close>

theorem sync_calls_defined:
  assumes "library_users E P us st0" and "sync_runs sem st0 st"
  shows "(case sync_step sem me ch st of
       Undef \<Rightarrow> \<exists>u ps. progs st me = Do u # ps \<and> sem me u (shared st) = None
     | Aborts \<Rightarrow> False | Blocks \<Rightarrow> True | Next st' \<Rightarrow> typed_state E st') \<and>
    (progs st me = [] \<longrightarrow> held st me = {})"
proof -
  have ty: "typed_state E st" using typed_runs [OF assms(2) users_typed [OF assms(1)]] .
  then have "typed E (held st me) (progs st me)" by (simp add: typed_state_def)
  then show ?thesis using typed_step [OF ty] by auto
qed

lemma sync_calls_defined_witness:
  "\<exists>st. sync_exec demo_adds [(1, Proceed), (2, Proceed), (1, Proceed)] (demo_sync (\<lambda>t. prims_of (demo_users t)) 0) = Next st \<and>
     shared st = 3 \<and> sync_step demo_adds 2 Proceed st \<noteq> Undef \<and> sync_step demo_adds 2 Proceed st \<noteq> Aborts"
proof -
  obtain st where st: "sync_exec demo_adds [(1, Proceed), (2, Proceed), (1, Proceed)]
      (demo_sync (\<lambda>t. prims_of (demo_users t)) 0) = Next st" "shared st = 3"
    by (simp add: sync_step_def demo_sync_def demo_users_def demo_adds_def demo_objects_def sync_calls)
  have "sync_runs demo_adds (demo_sync (\<lambda>t. prims_of (demo_users t)) 0) st"
    using runs_exec [OF st(1) sync_runs.here] .
  from sync_calls_defined [OF demo_library_users this, of 2 Proceed] st show ?thesis
    by (auto simp: demo_adds_def split: result.splits)
qed

text \<open>
  C31: Threads that keep the discipline and hold at most one lock at a time cannot deadlock: as
  long as a thread is unfinished and not waiting for a condition variable, some thread can go
  on. Every run ends, within a number of steps that is known from the programs. So threads that
  do not wait all finish, under any scheduling.
\<close>

theorem sync_no_deadlock:
  assumes "library_users E P us st0" and "\<And>t. unnested False (us t)" and "total_sem sem"
    and "sync_runs sem st0 st"
  shows "((\<exists>t. progs st t \<noteq> [] \<and> \<not> is_waiting (progs st t)) \<longrightarrow> (\<exists>me. can_move sem me st)) \<and>
    (\<forall>ms st'. sync_exec sem ms st = Next st' \<longrightarrow> length ms \<le> work_left st) \<and>
    (never_waits st0 \<and> (\<nexists>me. can_move sem me st) \<longrightarrow> (\<forall>t. progs st t = []))"
proof -
  note ty = typed_runs [OF assms(4) users_typed [OF assms(1)]]
  note fl = flat_runs [OF assms(4) users_typed [OF assms(1)] users_flat [OF assms(1,2)]]
  have only: "only_tids st" using only_tids_runs [OF assms(4)] assms(1) by (simp add: library_users_def)
  have go: "\<exists>me. can_move sem me st" if "progs st t \<noteq> []" "\<not> is_waiting (progs st t)" for t
    using sync_progress [OF ty fl assms(3) that] .
  have bound: "length ms \<le> work_left st" if "sync_exec sem ms st = Next st'" for ms st'
    using exec_work [OF that only] by simp
  have "progs st t = []" if "never_waits st0" "\<nexists>me. can_move sem me st" for t
    using go [of t] never_waits_waiting [OF never_waits_runs [OF assms(4) that(1)], of t] that(2) by blast
  then show ?thesis using go bound by blast
qed

lemma sync_no_deadlock_witness:
  "(\<exists>me. can_move demo_adds me (demo_sync (\<lambda>t. prims_of (demo_users t)) 0)) \<and>
   (\<nexists>ms st'. sync_exec demo_adds ms (demo_sync (\<lambda>t. prims_of (demo_users t)) 0) = Next st' \<and> 16 < length ms)"
proof -
  let ?st = "demo_sync (\<lambda>t. prims_of (demo_users t)) 0"
  have "work_left ?st = 16"
    by (simp add: work_left_def demo_sync_def demo_users_def sync_calls)
  moreover have "progs ?st 1 \<noteq> [] \<and> \<not> is_waiting (progs ?st 1)"
    by (simp add: demo_sync_def demo_users_def sync_calls)
  ultimately show ?thesis
    using sync_no_deadlock [OF demo_library_users demo_unnested demo_total sync_runs.here] by (metis not_less)
qed

text \<open>
  C32: The lock of a tree makes sections atomic. Threads walk the tree from node to node under
  the reader lock (\<open>avl_get_first\<close>, then \<open>n\<close> times the key and \<open>avl_get_next\<close>, each a step of
  its own), and replace or remove entries under the writer lock by the calls of the AVL library
  cut into steps in any way, which may leave the tree in pieces between them. When all have
  finished, there is an order of the operations that keeps each thread's own such that the
  tree, by its pointers, holds the keys of the operations one after the other, and every walk
  found the first \<open>n\<close> keys of the tree at its place in that order, and did nothing undefined.
\<close>

theorem tree_sections_serializable:
  assumes "key_order cmp" and "good_tree cmp (fst (shared st0)) ks0" and "\<And>t. walked (snd (shared st0) t) = Some []"
    and "cuts_insert ins" and "cuts_delete del" and "rws st0 r = Some (Readers [])"
    and "\<And>t. progs st0 t = thread_of r (map (op_section ins del) (ops t))"
    and "sync_runs act_sem st0 st" and "\<And>t. progs st t = []"
  shows "\<exists>order ks walks. (\<forall>t. map snd (filter (\<lambda>s. fst s = t) order) = ops t) \<and>
     (ks, walks) = fold (ref_op cmp) order (ks0, \<lambda>t. []) \<and>
     good_tree cmp (fst (shared st)) ks \<and>
     (\<forall>t. walked (snd (shared st) t) = Some (map (map Some) (walks t)))"
proof -
  obtain secs where secs: "\<forall>t. sections_of t secs = map (op_section ins del) (ops t)" "shared st = serial secs (shared st0)"
    using sections_serializable [OF assms(6,7,8,9)] by blast
  from sections_are_ops [OF spec [OF secs(1)]] obtain order where
    o: "secs = map (map_prod id (op_section ins del)) order" "\<forall>t. map snd (filter (\<lambda>s. fst s = t) order) = ops t" by blast
  have "good_view cmp (shared st0) (ks0, \<lambda>t. [])" using assms(2,3) by (simp add: good_view_def)
  from key_order.good_serial [OF assms(1,4,5) this, of order] show ?thesis
    using o secs(2) by (intro exI [of _ order]) (auto simp: good_view_def prod_eq_iff)
qed

definition demo_ops :: "nat \<Rightarrow> int tree_op list" where
  "demo_ops t = (if t = 1 then [Replace 6] else if t = 2 then [Walk 2, Remove 5] else [])"

lemma demo_good: "good_tree int_cmp (demo_tree None) [3, 5, 8]"
  using demo_rep [of None] demo_balanced
  by (auto simp: good_tree_def avl_rep_def strict_by_def demo_keys demo_tree_def demo_store_def int_cmp_def intro!: exI [of _ demo_atree])

definition demo_reader :: "nat \<Rightarrow> (int, int avl_tree) reader" where
  "demo_reader t = \<lparr>at_node = None, walked = Some [], stack = demo_tree None\<rparr>"

definition demo_sections :: "((int avl_tree, (int, int avl_tree) reader) tree_act, (int avl_tree, (int, int avl_tree) reader) view) sync" where
  "demo_sections = demo_sync (\<lambda>t. thread_of 1 (map (op_section torn_insert torn_delete) (demo_ops t))) (demo_tree None, demo_reader)"

definition demo_turns :: "(nat \<times> choice) list" where
  "demo_turns = map (\<lambda>t. (t, Proceed)) [2, 2, 2, 2, 2, 1, 1, 1, 1, 1, 1, 2, 2, 2, 2]"

lemma tree_sections_serializable_witness:
  "\<exists>st order ks walks. sync_exec act_sem demo_turns demo_sections = Next st \<and>
     map snd (filter (\<lambda>s. fst s = (2::nat)) order) = [Walk 2, Remove 5] \<and>
     (ks, walks) = fold (ref_op int_cmp) order ([3, 5, 8], \<lambda>t. []) \<and>
     good_tree int_cmp (fst (shared st)) ks \<and> walked (snd (shared st) 2) = Some (map (map Some) (walks 2))"
proof -
  obtain st where st: "sync_exec act_sem demo_turns demo_sections = Next st" "\<forall>t. progs st t = []"
    by (simp add: sync_step_def demo_sections_def demo_turns_def demo_sync_def demo_ops_def act_sem_def
        torn_insert_def torn_delete_def torn_def numeral_2_eq_2 del: act.simps)
  have run: "sync_runs act_sem demo_sections st" using runs_exec [OF st(1) sync_runs.here] .
  have "good_tree int_cmp (fst (shared demo_sections)) [3, 5, 8]" "rws demo_sections 1 = Some (Readers [])"
    "\<And>t. walked (snd (shared demo_sections) t) = Some []"
    "\<And>t. progs demo_sections t = thread_of 1 (map (op_section torn_insert torn_delete) (demo_ops t))"
    using demo_good by (simp_all add: demo_sections_def demo_sync_def demo_reader_def)
  from tree_sections_serializable [OF demo_order this(1,3) torn_cuts this(2,4) run spec [OF st(2)]] obtain order ks walks where
    o: "\<forall>t. map snd (filter (\<lambda>s. fst s = t) order) = demo_ops t"
      "(ks, walks) = fold (ref_op int_cmp) order ([3, 5, 8], \<lambda>t. [])"
      "good_tree int_cmp (fst (shared st)) ks" "\<forall>t. walked (snd (shared st) t) = Some (map (map Some) (walks t))" by blast
  have "map snd (filter (\<lambda>s. fst s = 2) order) = [Walk 2, Remove 5]"
    using spec [OF o(1), of 2] by (simp add: demo_ops_def)
  then show ?thesis using st(1) o(2,3) spec [OF o(4), of 2]
    by (intro exI [of _ st] exI [of _ order] exI [of _ ks] exI [of _ walks] conjI)
qed

text \<open>
  C33: \<open>thread_cond_timedwait_c\<close> hands its relative time to a call that takes a point in time, so
  it can be over at once: with the clock past \<open>millis\<close> milliseconds after its start (1970), the thread goes
  through lock, wait, time-out, relock and unlock without the clock moving, and all is as before.
\<close>

theorem thread_cond_timedwait_over_at_once:
  assumes "progs st me = thread_cond_timedwait_c c (int millis) @ ps"
    and "locks st (Mutex (cond_mutex c)) = Free" and "sys_cond c \<in> conds st"
    and "int millis * 1000000 \<le> now st"
  shows "sync_exec sem [(me, Proceed), (me, Proceed), (me, Timeout), (me, Proceed), (me, Proceed)] st =
    Next (set_prog me ps st)"
proof -
  have late: "nsecs (cond_timespec (int millis)) \<le> now st" "\<not> bad_time (Some (cond_timespec (int millis)))"
    using cond_timespec_exact [of millis] assms(4) by (simp_all add: bad_time_def)
  have "(locks st)(Mutex (cond_mutex c) := Free) = locks st" using assms(2) by (simp add: fun_upd_idem)
  then show ?thesis
    using assms(1-3) late by (simp add: sync_calls sync_step_def set_prog_def set_lock_def)
qed

lemma thread_cond_timedwait_over_at_once_witness:
  "\<exists>st :: (int, int) sync. progs st 1 = thread_cond_timedwait_c demo_cond 3000 \<and> now st = 5000000000 \<and>
     sync_exec demo_adds [(1, Proceed), (1, Proceed), (1, Timeout), (1, Proceed), (1, Proceed)] st = Next (set_prog 1 [] st)"
proof -
  let ?st = "demo_sync (\<lambda>t. if t = 1 then thread_cond_timedwait_c demo_cond 3000 else []) 0 :: (int, int) sync"
  have "progs ?st 1 = thread_cond_timedwait_c demo_cond (int 3000) @ []" by (simp add: demo_sync_def)
  from thread_cond_timedwait_over_at_once [OF this] show ?thesis
    by (intro exI [of _ ?st]) (simp add: demo_sync_def demo_cond_def demo_objects_def)
qed

text \<open>
  A signal given before the wait is lost. \<open>thread_cond_wait_c\<close> locks the mutex of the condition
  variable itself and looks at nothing, so its caller cannot test and wait in one piece: when the
  other thread signals in between, the waiter stays for ever, whatever it waits for has happened.
\<close>

theorem thread_cond_wait_misses_signal:
  "\<exists>st. sync_exec demo_adds [(2, Proceed), (2, Proceed), (1, Proceed), (1, Proceed)]
       (demo_sync (\<lambda>t. if t = 1 then thread_cond_wait_c demo_cond
          else if t = 2 then Do 1 # thread_cond_signal_c demo_cond else []) 0) = Next st \<and>
     shared st = 1 \<and> is_waiting (progs st 1) \<and> (\<forall>t n. \<not> can_move demo_adds t (st\<lparr>now := n\<rparr>))"
proof -
  obtain st where st: "sync_exec demo_adds [(2, Proceed), (2, Proceed), (1, Proceed), (1, Proceed)]
       (demo_sync (\<lambda>t. if t = 1 then thread_cond_wait_c demo_cond
          else if t = 2 then Do 1 # thread_cond_signal_c demo_cond else []) 0) = Next st"
    "shared st = 1" "progs st 1 = [Waiting 1 1 None, Unlock (Mutex 1)]" "\<forall>t. t \<noteq> 1 \<longrightarrow> progs st t = []"
    by (simp add: sync_step_def demo_sync_def demo_cond_def demo_adds_def demo_objects_def some_waits_def sync_calls bad_time_def)
  have "\<not> can_move demo_adds t (st\<lparr>now := n\<rparr>)" for t n
    using st(3,4) by (cases "t = 1") (auto simp: can_move_def sync_step_def split: if_split_asm)
  then show ?thesis using st by auto
qed

subsection \<open>The debugging configuration\<close>

definition demo_registered :: "nat \<Rightarrow> int option" where
  "demo_registered = [1 \<mapsto> 0, 2 \<mapsto> 7]"

text \<open>The mutexes from 3 on are not initialised statically: their strings are garbage. The log is at level 3.\<close>

definition demo_debug :: debug where
  "demo_debug = \<lparr>recs = (\<lambda>m. if m \<in> internal then static_mutex
       else \<lparr>mutex_id = 0, mx_name = Garbage, mx_thread_id = MUTEX_STATE_NEVERLOCKED, mx_file = Garbage, mx_line = -1\<rparr>),
     next_mutex_id = 0, mutextree = None, registered = demo_registered, found = (\<lambda>t. None), debug_level = 3\<rparr>"

definition demo_debug_objects :: objects where
  "demo_debug_objects = \<lparr>o_locks = range Mutex, o_conds = {}, o_rws = {}\<rparr>"

definition demo_debug_sync :: "(nat \<Rightarrow> debug_act prim list) \<Rightarrow> (debug_act, debug) sync" where
  "demo_debug_sync ps = \<lparr>locks = (\<lambda>l. Free), conds = {}, rws = Map.empty, tids = [1, 2], progs = ps,
     shared = demo_debug, now = 0\<rparr>"

definition demo_debug_users :: "nat \<Rightarrow> debug_call list" where
  "demo_debug_users t = (if t = 1 then [D_Lock 3 10, D_Unlock 3 11] else if t = 2 then [D_Lock 3 20, D_Unlock 3 21] else [])"

lemma demo_debug_ok:
  "debug_users demo_debug_objects {3} demo_debug_users (demo_debug_sync (\<lambda>t. debug_prims (demo_debug_users t)))"
proof -
  have "t = u" if "demo_registered t = Some i" "demo_registered u = Some i" for t u i
    using that by (auto simp: demo_registered_def split: if_split_asm)
  moreover have "0 \<le> i" if "demo_registered t = Some i" for t i
    using that by (auto simp: demo_registered_def split: if_split_asm)
  moreover have "demo_debug_users t \<noteq> [] \<longrightarrow> demo_registered t \<noteq> None" for t
    by (simp add: demo_debug_users_def demo_registered_def)
  moreover have "debug_prims [] = []" by simp
  ultimately show ?thesis
    unfolding debug_users_def all_registered_def
    by (auto simp: demo_debug_sync_def demo_debug_def demo_debug_objects_def objects_there_def all_free_def
      demo_debug_users_def internal_def library_mutex_def threadtree_mutex_def mutextree_mutex_def
      owner_of_def MUTEX_STATE_NEVERLOCKED_def)
qed

text \<open>
  C34: In the debugging configuration the records tell the truth about who holds what: under any
  interleaving of registered threads that lock and unlock with discipline, whenever a thread is between
  two calls, the record of a mutex names it if and only if it holds the mutex. Two threads are
  never at an access to the owner in a record at the same time. When the log is below level 4, or
  when no mutex of the users has a garbage name (the library sets none, and the messages of
  level 4 format it), no call and no action on a record is undefined. The line in
  a record is another matter: its accesses do race (\<open>debug_line_raced\<close>).
\<close>

theorem debug_owner_is_holder:
  assumes "debug_users E M us st0" and "names_ok M (shared st0)" and "sync_runs debug_sem st0 st"
  shows "sync_step debug_sem me ch st \<noteq> Undef \<and> sync_step debug_sem me ch st \<noteq> Aborts \<and>
    (\<forall>t i vs. \<forall>m \<in> M. progs st t = debug_prims vs \<and> registered (shared st) t = Some i \<longrightarrow>
       (locks st (Mutex m) = Held t \<longleftrightarrow> owner_of st m = i)) \<and>
    (\<forall>t u a b ps qs. progs st t = Do a # ps \<and> progs st u = Do b # qs \<and> owner_act a \<and> owner_act b \<longrightarrow> t = u)"
proof -
  note ty = typed_runs [OF assms(3) debug_users_typed [OF assms(1)]]
  note inv = debug_runs [OF assms(3) debug_users_inv [OF assms(1)]]
  note shielded = shielded_runs [OF assms(3) debug_users_shielded [OF assms(1)]]
  have "\<not> (\<exists>u ps. progs st me = Do u # ps \<and> debug_sem me u (shared st) = None)"
    using debug_act_defined [OF inv names_ok_runs [OF assms(3,2)]] by blast
  then have "sync_step debug_sem me ch st \<noteq> Undef \<and> sync_step debug_sem me ch st \<noteq> Aborts"
    using typed_step [OF ty, where sem = debug_sem and me = me and ch = ch] by (auto split: result.splits)
  moreover have "locks st (Mutex m) = Held t \<longleftrightarrow> owner_of st m = i"
    if "m \<in> M" "progs st t = debug_prims vs" "registered (shared st) t = Some i" for t i vs m
    using debug_inv_between [OF inv that(1,2)] that by auto
  ultimately show ?thesis using owner_not_raced [OF shielded] by blast
qed

lemma debug_owner_is_holder_witness:
  "\<exists>st. sync_exec debug_sem (replicate 8 (1, Proceed) @ replicate 4 (2, Proceed))
     (demo_debug_sync (\<lambda>t. debug_prims (demo_debug_users t))) = Next st \<and> locks st (Mutex 3) = Held 1 \<and> owner_of st 3 = 0 \<and>
     sync_step debug_sem 2 Proceed st \<noteq> Undef"
proof -
  let ?st0 = "demo_debug_sync (\<lambda>t. debug_prims (demo_debug_users t))"
  obtain st where st: "sync_exec debug_sem (replicate 8 (1, Proceed) @ replicate 4 (2, Proceed)) ?st0 = Next st"
      "locks st (Mutex 3) = Held 1" "progs st 1 = debug_prims [D_Unlock 3 11]" "registered (shared st) 1 = Some 0"
    by (simp add: numeral_eq_Suc sync_step_def demo_debug_sync_def demo_debug_users_def debug_calls demo_debug_def
      threadtree_mutex_def mutextree_mutex_def library_mutex_def internal_def static_mutex_def demo_registered_def set_rec_def)
  have "names_ok {3} (shared ?st0)" by (simp add: names_ok_def demo_debug_sync_def demo_debug_def)
  from debug_owner_is_holder [OF demo_debug_ok this runs_exec [OF st(1) sync_runs.here], of 2 Proceed] show ?thesis
    using st by blast
qed

text \<open>At level 4 the lock of a mutex whose name was never set formats garbage.\<close>

lemma debug_log_formats_garbage:
  assumes "progs st me = thread_mutex_lock_dbg m l @ ps" and "locks st (Mutex threadtree_mutex) = Free"
    and "4 \<le> debug_level (shared st)" and "mx_name (recs (shared st) m) = Garbage"
  shows "sync_exec debug_sem (replicate 4 (me, Proceed)) st = Undef"
  using assms by (simp add: debug_calls sync_step_def numeral_eq_Suc)

text \<open>
  C35: In that configuration \<open>thread_shutdown\<close> does not work, with or without \<open>THREAD_DEBUG\<close>. After
  \<open>thread_initialize\<close>, which enters the three internal mutexes into the tree under the numbers 0, 1
  and 2, it destroys \<open>_mutextree_mutex\<close> and then locks it where \<open>THREAD_DEBUG\<close> is defined: an
  undefined call. Where it is not defined, the destruction of \<open>_mutextree_mutex\<close> and of the
  tree are left out: the shutdown ends with that mutex still there and the tree still holding it.
\<close>

theorem debug_shutdown_undefined:
  assumes "progs st me = initialize_mutexes @ shutdown_mutexes thread_debug @ ps" and "next_mutex_id (shared st) = 0"
    and "\<And>m. m \<in> internal \<Longrightarrow> locks st (Mutex m) = Free \<and> recs (shared st) m = static_mutex"
  shows "\<exists>st1. sync_exec debug_sem (replicate 17 (me, Proceed)) st = Next st1 \<and>
     progs st1 me = shutdown_mutexes thread_debug @ ps \<and>
     mutexes_kept (shared st1) [(0, mutextree_mutex), (1, threadtree_mutex), (2, library_mutex)] \<and>
     (if thread_debug then sync_exec debug_sem (replicate 10 (me, Proceed)) st1 = Undef
      else \<exists>st2. sync_exec debug_sem (replicate 8 (me, Proceed)) st1 = Next st2 \<and> progs st2 me = ps \<and>
        locks st2 = (locks st)(Mutex library_mutex := Absent, Mutex threadtree_mutex := Absent) \<and>
        locks st2 (Mutex mutextree_mutex) = Free \<and> mutexes_kept (shared st2) [(0, mutextree_mutex)])"
proof -
  let ?ks = "[(0, mutextree_mutex), (1, threadtree_mutex), (2, library_mutex)]"
  obtain s where s: "sync_exec debug_sem (replicate 17 (me, Proceed)) st =
        Next ((set_prog me (shutdown_mutexes thread_debug @ ps) st)\<lparr>shared := s\<rparr>)"
      "mutexes_kept s ?ks"
      "\<forall>m \<in> internal. mx_thread_id (recs s m) = MUTEX_STATE_NEVERLOCKED \<and> mx_file (recs s m) = mx_file (recs (shared st) m)"
    using initialize_mutexes_exec [OF assms(1,2)] assms(3) by blast
  let ?st1 = "(set_prog me (shutdown_mutexes thread_debug @ ps) st)\<lparr>shared := s\<rparr>"
  have ids: "mutex_id (recs s threadtree_mutex) = 1" "mutex_id (recs s library_mutex) = 2"
    using s(2) by (simp_all add: mutexes_kept_def)
  have tree: "(mutex_id (recs s m), m) \<in> set ?ks" if "m \<in> internal" for m
    using s(2) that by (auto simp: mutexes_kept_def internal_def)
  have null: "mx_file (recs s m) = Null_Text" if "m \<in> internal" for m
    using s(3) assms(3) [OF that] that by (simp add: static_mutex_def)
  have ne: "threadtree_mutex \<noteq> mutextree_mutex" "library_mutex \<noteq> mutextree_mutex"
    by (simp_all add: threadtree_mutex_def library_mutex_def mutextree_mutex_def)
  have start: "progs ?st1 me = shutdown_mutexes thread_debug @ ps" "mutexes_kept (shared ?st1) ?ks" "locks ?st1 = locks st"
    using s(2) by simp_all
  show ?thesis
  proof (cases thread_debug)
    case True
    then have "sync_exec debug_sem (replicate 10 (me, Proceed)) ?st1 = Undef"
      using shutdown_mutexes_exec [of ?st1 me ps ?ks] s(2) assms(3) tree null by simp
    then show ?thesis using s(1) start True by (intro exI [of _ ?st1]) simp
  next
    case False
    obtain st2 where st2: "sync_exec debug_sem (replicate 8 (me, Proceed)) ?st1 = Next st2" "progs st2 me = ps"
        "locks st2 = (locks st)(Mutex library_mutex := Absent, Mutex threadtree_mutex := Absent)"
        "mutexes_kept (shared st2) [(0, mutextree_mutex)]"
      using shutdown_two_exec [OF start(1) _ start(2)] assms(3) tree null ids False by auto
    have "locks st2 (Mutex mutextree_mutex) = Free" using st2(3) assms(3) ne by simp
    then show ?thesis using s(1) start False st2 by (intro exI [of _ ?st1]) simp
  qed
qed

lemma debug_shutdown_undefined_witness:
  "(\<exists>st. sync_exec debug_sem (replicate 17 (1, Proceed))
       (demo_debug_sync (\<lambda>t. if t = 1 then initialize_mutexes @ shutdown_mutexes True else [])) = Next st \<and>
     sync_exec debug_sem (replicate 10 (1, Proceed)) st = Undef) \<and>
   (\<exists>st st2. sync_exec debug_sem (replicate 17 (1, Proceed))
       (demo_debug_sync (\<lambda>t. if t = 1 then initialize_mutexes @ shutdown_mutexes False else [])) = Next st \<and>
     sync_exec debug_sem (replicate 8 (1, Proceed)) st = Next st2 \<and> progs st2 1 = [])"
proof -
  let ?st = "\<lambda>b. demo_debug_sync (\<lambda>t. if t = 1 then initialize_mutexes @ shutdown_mutexes b else [])"
  have 1: "progs (?st b) 1 = initialize_mutexes @ shutdown_mutexes b @ []" "next_mutex_id (shared (?st b)) = 0" for b
    by (simp_all add: demo_debug_sync_def demo_debug_def)
  have 2: "locks (?st b) (Mutex m) = Free \<and> recs (shared (?st b)) m = static_mutex" if "m \<in> internal" for m b
    using that by (simp add: demo_debug_sync_def demo_debug_def)
  show ?thesis
    using debug_shutdown_undefined [OF 1 [of True] 2] debug_shutdown_undefined [OF 1 [of False] 2] by auto
qed

text \<open>
  Between the unlock and the update of its record another thread can lock the mutex: the line it has recorded
  is then overwritten while it holds the mutex.
\<close>

lemma debug_line_lost:
  "\<exists>st. sync_exec debug_sem (replicate 8 (1, Proceed) @ replicate 6 (1, Proceed) @ replicate 8 (2, Proceed) @ replicate 3 (1, Proceed))
     (demo_debug_sync (\<lambda>t. debug_prims (demo_debug_users t))) = Next st \<and>
     locks st (Mutex 3) = Held 2 \<and> owner_of st 3 = 7 \<and> mx_line (recs (shared st) 3) = -1"
  by (simp add: numeral_eq_Suc sync_step_def demo_debug_sync_def demo_debug_users_def debug_calls demo_debug_def owner_of_def
      threadtree_mutex_def mutextree_mutex_def library_mutex_def internal_def static_mutex_def demo_registered_def set_rec_def Let_def)

text \<open>The two stores to the line of a record race: one thread is at the one, another at the other.\<close>

lemma debug_line_raced:
  "\<exists>st ps qs. sync_exec debug_sem (replicate 8 (1, Proceed) @ replicate 6 (1, Proceed) @ replicate 8 (2, Proceed) @
       replicate 4 (2, Proceed) @ [(1, Proceed)])
     (demo_debug_sync (\<lambda>t. debug_prims (demo_debug_users t))) = Next st \<and>
     progs st 1 = Do (Record_Unlock 3) # ps \<and> progs st 2 = Do (Set_Line 3 21) # qs"
  by (simp add: numeral_eq_Suc sync_step_def demo_debug_sync_def demo_debug_users_def debug_calls demo_debug_def
      threadtree_mutex_def mutextree_mutex_def library_mutex_def internal_def static_mutex_def demo_registered_def set_rec_def Let_def)

text \<open>A thread without a record that unlocks a mutex follows its NULL record.\<close>

lemma debug_unlock_unregistered:
  assumes "progs st me = thread_mutex_unlock_dbg m l @ ps" and "registered (shared st) me = None"
    and "locks st (Mutex m) = Held me" and "locks st (Mutex threadtree_mutex) = Free" and "locks st (Mutex mutextree_mutex) = Free"
    and "debug_level (shared st) < 4"
  shows "sync_exec debug_sem (replicate 8 (me, Proceed)) st = Undef"
proof -
  have "threadtree_mutex \<noteq> m" "mutextree_mutex \<noteq> m" "threadtree_mutex \<noteq> mutextree_mutex"
    using assms(3-5) by (auto simp: threadtree_mutex_def mutextree_mutex_def)
  then show ?thesis using assms by (simp add: debug_calls sync_step_def numeral_eq_Suc set_rec_def Let_def)
qed

end
