(* ===== verification/Thread_Signals.thy ===== *)
theory Thread_Signals
  imports Prelude
begin

section \<open>Which threads take signals: \<open>_block_signals\<close> and \<open>_catch_signals\<close> of \<open>thread/thread.c\<close>\<close>

text \<open>
  A thread has a mask: which signals are blocked for it. A thread that is created starts with the mask of its
  creator. The main thread calls \<open>_catch_signals\<close> in \<open>thread_initialize\<close>; every other thread calls
  \<open>_block_signals\<close> first of all. The numbers are those of Linux.
\<close>

type_synonym mask = "nat \<Rightarrow> bool"

definition SIGHUP :: nat where "SIGHUP = 1"
definition SIGINT :: nat where "SIGINT = 2"
definition SIGBUS :: nat where "SIGBUS = 7"
definition SIGKILL :: nat where "SIGKILL = 9"
definition SIGSEGV :: nat where "SIGSEGV = 11"
definition SIGPIPE :: nat where "SIGPIPE = 13"
definition SIGTERM :: nat where "SIGTERM = 15"
definition SIGCHLD :: nat where "SIGCHLD = 17"
definition SIGSTOP :: nat where "SIGSTOP = 19"

lemmas signal_numbers = SIGHUP_def SIGINT_def SIGBUS_def SIGKILL_def SIGSEGV_def SIGPIPE_def SIGTERM_def
  SIGCHLD_def SIGSTOP_def

text \<open>\<open>pthread_sigmask\<close> leaves \<open>SIGKILL\<close> and \<open>SIGSTOP\<close> unblocked without an error.\<close>

definition sig_block :: "mask \<Rightarrow> mask \<Rightarrow> mask" where
  "sig_block ss m = (\<lambda>s. (m s \<or> ss s) \<and> s \<noteq> SIGKILL \<and> s \<noteq> SIGSTOP)"

definition sig_unblock :: "mask \<Rightarrow> mask \<Rightarrow> mask" where
  "sig_unblock ss m = (\<lambda>s. m s \<and> \<not> ss s)"

definition block_signals :: "mask \<Rightarrow> mask" where
  "block_signals m =
     (let ss = (\<lambda>s. True);
          ss = ss(SIGKILL := False);
          ss = ss(SIGSTOP := False);
          ss = ss(SIGSEGV := False);
          ss = ss(SIGCHLD := False);
          ss = ss(SIGBUS := False)
      in sig_block ss m)"

definition catch_signals :: "mask \<Rightarrow> mask" where
  "catch_signals m =
     (let ss = (\<lambda>s. False);
          ss = ss(SIGHUP := True);
          ss = ss(SIGCHLD := True);
          ss = ss(SIGINT := True);
          ss = ss(SIGPIPE := True);
          ss = ss(SIGTERM := True)
      in sig_unblock ss m)"

text \<open>
  The threads of a process: the main thread has initialised the library; others are created by
  any thread there is, and begin with \<open>_block_signals\<close>.
\<close>

inductive thread_masks :: "mask \<Rightarrow> (nat \<rightharpoonup> mask) \<Rightarrow> bool" for m0 where
  main_only: "thread_masks m0 [0 \<mapsto> catch_signals m0]"
| started: "thread_masks m0 ms \<Longrightarrow> ms t = Some m \<Longrightarrow> ms u = None \<Longrightarrow> thread_masks m0 (ms(u \<mapsto> block_signals m))"

text \<open>
  Hang-up, interrupt, broken pipe and termination reach the main thread and no other, as the comments say. The end
  of a child process reaches any thread: \<open>_block_signals\<close> leaves \<open>SIGCHLD\<close> open, although
  \<open>_catch_signals\<close> says that only the main thread should accept it.
\<close>

theorem signals_reach_main_thread:
  assumes "thread_masks m0 ms" and "ms t = Some m"
  shows "(s \<in> {SIGHUP, SIGINT, SIGPIPE, SIGTERM} \<longrightarrow> (\<not> m s \<longleftrightarrow> t = 0)) \<and> \<not> m SIGCHLD"
  using assms
proof (induction arbitrary: t m rule: thread_masks.induct)
  case main_only
  then show ?case
    by (auto simp: catch_signals_def sig_unblock_def signal_numbers split: if_split_asm)
next
  case (started ms p mp u)
  have "ms 0 \<noteq> None" using started.hyps(1) by (induction rule: thread_masks.induct) auto
  then have "u \<noteq> 0" using started.hyps(3) by (cases "u = 0") auto
  then show ?case
    using started.IH [OF started.hyps(2)] started.IH [of t m] started.prems
    by (cases "t = u") (auto simp: block_signals_def sig_block_def signal_numbers Let_def)
qed

lemma signals_reach_main_thread_witness:
  "thread_masks (\<lambda>s. False) [0 \<mapsto> catch_signals (\<lambda>s. False), 1 \<mapsto> block_signals (catch_signals (\<lambda>s. False))] \<and>
   block_signals (catch_signals (\<lambda>s. False)) SIGTERM \<and> \<not> block_signals (catch_signals (\<lambda>s. False)) SIGCHLD"
proof -
  have ms: "thread_masks (\<lambda>s. False) [0 \<mapsto> catch_signals (\<lambda>s. False), 1 \<mapsto> block_signals (catch_signals (\<lambda>s. False))]"
    by (rule started [OF main_only]) simp_all
  from signals_reach_main_thread [OF this, of 1 "block_signals (catch_signals (\<lambda>s. False))" SIGTERM]
  show ?thesis using ms by simp
qed

end
