(* ===== verification/Net_Os.thy ===== *)
theory Net_Os
  imports CString "HOL-Library.State_Monad"
begin

section \<open>What the network code uses of the system\<close>

text \<open>
  The socket calls of POSIX as operations on a state: the open sockets, the address lists
  that \<open>getaddrinfo\<close> has allocated, \<open>errno\<close>. What the system decides is read from \<open>answers\<close>:
  for each kind of call and each moment a number, negative for a failure with that error
  code. A theorem that holds for all \<open>answers\<close> holds for every behaviour of the system.
  Using a descriptor that is not open or an address list that has been freed sets \<open>misused\<close>
  and otherwise behaves as POSIX says for a bad descriptor.
\<close>

datatype call =
    C_socket | C_connect | C_bind | C_listen | C_accept | C_fcntl | C_option
  | C_poll | C_so_ret | C_so_error | C_send | C_recv | C_name | C_hostname

record sock_state =
  nonblocking :: bool
  bound :: "int option"
  listening :: bool
  inbox :: string
  sent :: string

record os =
  answers :: "call \<Rightarrow> nat \<Rightarrow> int"
  lookups :: "nat \<Rightarrow> int list"
  incoming :: "nat \<Rightarrow> string"
  tick :: nat
  socks :: "int \<Rightarrow> sock_state option"
  addr_lists :: "nat \<Rightarrow> int list option"
  next_list :: nat
  errno :: int
  misused :: bool

type_synonym 'a sys = "(os, 'a) state"

abbreviation ret :: "'a \<Rightarrow> 'a sys" where
  "ret \<equiv> State_Monad.return"

subsection \<open>Error codes (Linux)\<close>

definition EINTR :: int where "EINTR = 4"
definition EBADF :: int where "EBADF = 9"
definition EAGAIN :: int where "EAGAIN = 11"
definition ERESTART :: int where "ERESTART = 85"
definition EALREADY :: int where "EALREADY = 114"
definition EINPROGRESS :: int where "EINPROGRESS = 115"

lemmas errno_defs = EINTR_def EBADF_def EAGAIN_def ERESTART_def EALREADY_def EINPROGRESS_def

subsection \<open>Answers, descriptors and address lists\<close>

definition ask :: "call \<Rightarrow> int sys" where
  "ask c = State (\<lambda>w. (answers w c (tick w), w\<lparr>tick := Suc (tick w)\<rparr>))"

definition set_errno :: "int \<Rightarrow> unit sys" where
  "set_errno e = State (\<lambda>w. ((), w\<lparr>errno := e\<rparr>))"

definition get_errno :: "int sys" where
  "get_errno = State (\<lambda>w. (errno w, w))"

definition failing :: "int \<Rightarrow> int sys" where
  "failing a = do { _ \<leftarrow> set_errno (- a); ret (- 1) }"

definition is_open :: "int \<Rightarrow> bool sys" where
  "is_open fd = State (\<lambda>w. (socks w fd \<noteq> None, w))"

definition put_sock :: "int \<Rightarrow> sock_state option \<Rightarrow> unit sys" where
  "put_sock fd s = State (\<lambda>w. ((), w\<lparr>socks := (socks w)(fd := s)\<rparr>))"

text \<open>\<open>on_sock fd f\<close>: the call \<open>f\<close> on the socket, a misuse when there is none.\<close>

definition on_sock :: "int \<Rightarrow> (sock_state \<Rightarrow> int sys) \<Rightarrow> int sys" where
  "on_sock fd f = State (\<lambda>w.
     case socks w fd of
       None \<Rightarrow> (- 1, w\<lparr>misused := True, errno := EBADF\<rparr>)
     | Some s \<Rightarrow> run_state (f s) w)"

definition new_sock :: "string \<Rightarrow> sock_state" where
  "new_sock text = \<lparr>nonblocking = False, bound = None, listening = False, inbox = text, sent = []\<rparr>"

text \<open>A new descriptor is any number that is not open; the system may also refuse.\<close>

definition open_new :: "call \<Rightarrow> int sys" where
  "open_new c = do {
     a \<leftarrow> ask c;
     used \<leftarrow> is_open a;
     if a < 0 \<or> used then failing a
     else State (\<lambda>w. (a, w\<lparr>socks := (socks w)(a \<mapsto> new_sock (incoming w (tick w)))\<rparr>)) }"

definition use_list :: "nat \<Rightarrow> int list sys" where
  "use_list p = State (\<lambda>w.
     case addr_lists w p of None \<Rightarrow> ([], w\<lparr>misused := True\<rparr>) | Some as \<Rightarrow> (as, w))"

subsection \<open>The calls\<close>

definition sys_socket :: "int sys" where
  "sys_socket = open_new C_socket"

definition sys_close :: "int \<Rightarrow> int sys" where
  "sys_close fd = on_sock fd (\<lambda>s. do { _ \<leftarrow> put_sock fd None; ret 0 })"

definition sys_connect :: "int \<Rightarrow> int \<Rightarrow> int sys" where
  "sys_connect fd ai = on_sock fd (\<lambda>s. do { a \<leftarrow> ask C_connect; if a < 0 then failing a else ret 0 })"

definition sys_bind :: "int \<Rightarrow> int \<Rightarrow> int sys" where
  "sys_bind fd ai = on_sock fd (\<lambda>s. do {
     a \<leftarrow> ask C_bind;
     if a < 0 then failing a else do { _ \<leftarrow> put_sock fd (Some (s\<lparr>bound := Some ai\<rparr>)); ret 0 } })"

definition sys_listen :: "int \<Rightarrow> int \<Rightarrow> int sys" where
  "sys_listen fd backlog = on_sock fd (\<lambda>s. do {
     a \<leftarrow> ask C_listen;
     if a < 0 then failing a else do { _ \<leftarrow> put_sock fd (Some (s\<lparr>listening := True\<rparr>)); ret 0 } })"

definition sys_accept :: "int \<Rightarrow> int sys" where
  "sys_accept fd = on_sock fd (\<lambda>s. open_new C_accept)"

definition sys_nonblock :: "int \<Rightarrow> bool \<Rightarrow> int sys" where
  "sys_nonblock fd nb = on_sock fd (\<lambda>s. do {
     a \<leftarrow> ask C_fcntl;
     if a < 0 then failing a else do { _ \<leftarrow> put_sock fd (Some (s\<lparr>nonblocking := nb\<rparr>)); ret 0 } })"

definition sys_setsockopt :: "int \<Rightarrow> int sys" where
  "sys_setsockopt fd = on_sock fd (\<lambda>s. do { a \<leftarrow> ask C_option; if a < 0 then failing a else ret 0 })"

text \<open>\<open>getsockopt (fd, SOL_SOCKET, SO_TYPE)\<close> asks whether the descriptor is a socket: no misuse.\<close>

definition sys_so_type :: "int \<Rightarrow> int sys" where
  "sys_so_type fd = do { used \<leftarrow> is_open fd; if used then ret 0 else failing (- EBADF) }"

text \<open>\<open>poll\<close> or \<open>select\<close> on one descriptor: negative, 0 for the timeout, or the count.\<close>

definition sys_poll :: "int \<Rightarrow> int \<Rightarrow> int sys" where
  "sys_poll fd timeout = on_sock fd (\<lambda>s. do {
     a \<leftarrow> ask C_poll; if a < 0 then failing a else ret (min a 1) })"

text \<open>\<open>getsockopt (fd, SOL_SOCKET, SO_ERROR)\<close>: \<open>None\<close> when it fails.\<close>

definition sys_so_error :: "int \<Rightarrow> int option sys" where
  "sys_so_error fd = do {
     rc \<leftarrow> on_sock fd (\<lambda>s. do { a \<leftarrow> ask C_so_ret; if a < 0 then failing a else ret 0 });
     v \<leftarrow> ask C_so_error;
     ret (if rc = 0 then Some v else None) }"

definition sys_send :: "int \<Rightarrow> string \<Rightarrow> int sys" where
  "sys_send fd data = on_sock fd (\<lambda>s. do {
     a \<leftarrow> ask C_send;
     if a < 0 then failing a
     else do {
       let n = min (nat a) (length data);
       _ \<leftarrow> put_sock fd (Some (s\<lparr>sent := sent s @ take n data\<rparr>));
       ret (int n) } })"

text \<open>
  A call of \<open>recv\<close> gives at least one byte while there are any, and 0 at the end of what the
  peer sends. With \<open>peek\<close> the bytes stay.
\<close>

definition sys_recv :: "int \<Rightarrow> nat \<Rightarrow> bool \<Rightarrow> (int \<times> string) sys" where
  "sys_recv fd len peek = State (\<lambda>w.
     case socks w fd of
       None \<Rightarrow> ((- 1, []), w\<lparr>misused := True, errno := EBADF\<rparr>)
     | Some s \<Rightarrow>
         (let a = answers w C_recv (tick w); w = w\<lparr>tick := Suc (tick w)\<rparr>;
              n = max 1 (min (nat a) len); bytes = take n (inbox s)
          in if a < 0 then ((- 1, []), w\<lparr>errno := - a\<rparr>)
             else ((int (length bytes), bytes),
                   if peek then w
                   else w\<lparr>socks := (socks w)(fd \<mapsto> s\<lparr>inbox := drop n (inbox s)\<rparr>)\<rparr>)))"

text \<open>\<open>getaddrinfo\<close> fails (\<open>None\<close>) or allocates a list of at least one address.\<close>

definition sys_getaddrinfo :: "string option \<Rightarrow> nat option sys" where
  "sys_getaddrinfo host = State (\<lambda>w.
     let as = lookups w (tick w); p = next_list w; w = w\<lparr>tick := Suc (tick w)\<rparr> in
     if as = [] then (None, w)
     else (Some p, w\<lparr>addr_lists := (addr_lists w)(p \<mapsto> as), next_list := Suc p\<rparr>))"

definition sys_freeaddrinfo :: "nat \<Rightarrow> unit sys" where
  "sys_freeaddrinfo p = State (\<lambda>w.
     case addr_lists w p of
       None \<Rightarrow> ((), w\<lparr>misused := True\<rparr>)
     | Some as \<Rightarrow> ((), w\<lparr>addr_lists := (addr_lists w)(p := None)\<rparr>))"

end
