(* ===== verification/Sock.thy ===== *)
theory Sock
  imports Net_Os
begin

section \<open>Sockets: \<open>net/sock.c\<close>\<close>

text \<open>
  The functions of \<open>net/sock.c\<close> in the order of the file, as programs over the system of
  theory \<open>Net_Os\<close>. The configuration is POSIX; where the file has two versions of a function
  under \<open>#ifdef\<close>, both are here, the older one with the suffix \<open>_old\<close> (formatting, vectors)
  or \<open>_v4\<close> (no \<open>getaddrinfo\<close>). A store outside a buffer counts as a misuse, too.
\<close>

definition SOCK_ERROR :: int where "SOCK_ERROR = - 1"
definition SOCK_TIMEOUT :: int where "SOCK_TIMEOUT = - 2"

text \<open>The conversion of a \<open>ssize_t\<close> or \<open>size_t\<close> to \<open>int\<close>.\<close>

definition to_int :: "int \<Rightarrow> int" where
  "to_int n = sint (word_of_int n :: 32 word)"

subsection \<open>Errors\<close>

definition sock_error :: "int sys" where
  "sock_error = get_errno"

definition sock_set_error :: "int \<Rightarrow> unit sys" where
  "sock_set_error v = set_errno v"

definition sock_recoverable :: "int \<Rightarrow> bool" where
  "sock_recoverable e \<longleftrightarrow> e = 0 \<or> e = EAGAIN \<or> e = EINTR \<or> e = EINPROGRESS \<or> e = ERESTART"

definition sock_stalled :: "int \<Rightarrow> bool" where
  "sock_stalled e \<longleftrightarrow> e = EAGAIN \<or> e = EINPROGRESS \<or> e = EALREADY \<or> e = ERESTART"

definition sock_connect_pending :: "int \<Rightarrow> bool" where
  "sock_connect_pending e \<longleftrightarrow> e = EINPROGRESS \<or> e = EALREADY"

subsection \<open>Options\<close>

definition sock_valid_socket :: "int \<Rightarrow> bool sys" where
  "sock_valid_socket fd = do { r \<leftarrow> sys_so_type fd; ret (r = 0) }"

definition sock_active :: "int \<Rightarrow> bool sys" where
  "sock_active fd = do {
     (l, c) \<leftarrow> sys_recv fd 1 True;
     e \<leftarrow> sock_error;
     ret (if l = 0 then False else if l = SOCK_ERROR \<and> sock_recoverable e then True else False) }"

definition sock_set_blocking :: "int \<Rightarrow> int \<Rightarrow> int sys" where
  "sock_set_blocking fd block = do {
     valid \<leftarrow> sock_valid_socket fd;
     if \<not> valid \<or> block < 0 \<or> block > 1 then ret SOCK_ERROR
     else sys_nonblock fd (block = 0) }"

definition sock_set_nolinger :: "int \<Rightarrow> int sys" where
  "sock_set_nolinger fd = sys_setsockopt fd"

definition sock_set_nodelay :: "int \<Rightarrow> int sys" where
  "sock_set_nodelay fd = sys_setsockopt fd"

definition sock_set_keepalive :: "int \<Rightarrow> int sys" where
  "sock_set_keepalive fd = sys_setsockopt fd"

definition sock_set_send_buffer :: "int \<Rightarrow> int \<Rightarrow> unit sys" where
  "sock_set_send_buffer fd win_size = do { _ \<leftarrow> sys_setsockopt fd; ret () }"

definition sock_close :: "int \<Rightarrow> int sys" where
  "sock_close fd = sys_close fd"

subsection \<open>Writing\<close>

text \<open>A buffer is \<open>None\<close> for NULL; its length is the one passed along with it.\<close>

definition sock_write_bytes :: "int \<Rightarrow> string option \<Rightarrow> int sys" where
  "sock_write_bytes fd buff =
     (case buff of
        None \<Rightarrow> ret SOCK_ERROR
      | Some bytes \<Rightarrow>
          if bytes = [] then ret SOCK_ERROR
          else do { r \<leftarrow> sys_send fd bytes; ret (to_int r) })"

definition sock_write_string :: "int \<Rightarrow> string \<Rightarrow> bool sys" where
  "sock_write_string fd buff = do { r \<leftarrow> sock_write_bytes fd (Some (cstr buff)); ret (r > 0) }"

text \<open>
  Several buffers at once: \<open>writev\<close>, which the system treats as one text, and the loop of
  systems without it.
\<close>

definition vector_text :: "string option list \<Rightarrow> string" where
  "vector_text iov = concat (map (\<lambda>v. case v of None \<Rightarrow> [] | Some b \<Rightarrow> b) iov)"

definition sock_writev :: "int \<Rightarrow> string option list \<Rightarrow> int sys" where
  "sock_writev fd iov = sys_send fd (vector_text iov)"

fun writev_loop :: "int \<Rightarrow> int \<Rightarrow> string option list \<Rightarrow> int sys" where
  "writev_loop fd accum [] = ret accum"
| "writev_loop fd accum (v # vs) =
     (if v \<noteq> None \<and> v \<noteq> Some [] then do {
        rc \<leftarrow> sock_write_bytes fd v;
        if rc = - 1 \<and> accum = 0 then ret (- 1)
        else (let rc = (if rc = - 1 then 0 else rc); accum = to_int (accum + rc) in
              if rc < to_int (int (length (the v))) then ret accum
              else writev_loop fd accum vs) }
      else writev_loop fd accum vs)"

definition sock_writev_old :: "int \<Rightarrow> string option list \<Rightarrow> int sys" where
  "sock_writev_old fd iov = writev_loop fd 0 iov"

text \<open>
  Formatted text. \<open>text\<close> is what the format and its arguments stand for, \<open>None\<close> when
  \<open>vsnprintf\<close> fails; \<open>mem\<close> says whether memory is available. The present \<open>vsnprintf\<close> returns
  the length of the whole text, the old one -1 when the buffer is too small.
\<close>

definition vsnprintf :: "nat \<Rightarrow> string option \<Rightarrow> int \<times> string" where
  "vsnprintf n txt = (case txt of None \<Rightarrow> (- 1, []) | Some t \<Rightarrow> (int (length t), take (n - 1) t))"

definition vsnprintf_old :: "nat \<Rightarrow> string option \<Rightarrow> int \<times> string" where
  "vsnprintf_old n txt =
     (case txt of None \<Rightarrow> (- 1, [])
      | Some t \<Rightarrow> (if length t < n then int (length t) else - 1, take (n - 1) t))"

definition sock_write_fmt :: "bool \<Rightarrow> int \<Rightarrow> string option \<Rightarrow> int sys" where
  "sock_write_fmt mem fd txt =
     (let (len, buff) = vsnprintf 1024 txt in
      if len > 0 then
        if len < 1024 then sock_write_bytes fd (Some (take (nat len) buff))
        else if mem then
          (let (len, buff) = vsnprintf (nat len + 1) txt in
           if len > 0 then sock_write_bytes fd (Some (take (nat len) buff)) else ret SOCK_ERROR)
        else ret SOCK_ERROR
      else ret SOCK_ERROR)"

function fmt_loop :: "(nat \<Rightarrow> bool) \<Rightarrow> int \<Rightarrow> string option \<Rightarrow> nat \<Rightarrow> int \<Rightarrow> int sys" where
  "fmt_loop mem fd txt len rc =
     (if len < 2 * 1024 * 1024 then
        if \<not> mem len then ret (- 1)
        else (let (rc, buff) = vsnprintf_old len txt in
              if rc > 0 then sock_write_bytes fd (Some (take (nat rc) buff))
              else fmt_loop mem fd txt (len + 8192) rc)
      else ret rc)"
  by pat_completeness auto
termination by (relation "measure (\<lambda>(mem, fd, txt, len, rc). 2 * 1024 * 1024 - len)") auto

declare fmt_loop.simps [simp del]

definition sock_write_fmt_old :: "(nat \<Rightarrow> bool) \<Rightarrow> int \<Rightarrow> string option \<Rightarrow> int sys" where
  "sock_write_fmt_old mem fd txt = fmt_loop mem fd txt 1024 0"

definition sock_write :: "bool \<Rightarrow> int \<Rightarrow> string option \<Rightarrow> int sys" where
  "sock_write mem fd txt = sock_write_fmt mem fd txt"

subsection \<open>Reading\<close>

definition sock_read_bytes :: "int \<Rightarrow> bool \<Rightarrow> nat \<Rightarrow> (int \<times> string) sys" where
  "sock_read_bytes fd null len =
     (if null then ret (0, []) else if len = 0 then ret (0, [])
      else do { (r, bytes) \<leftarrow> sys_recv fd len False; ret (to_int r, bytes) })"

text \<open>
  \<open>sock_read_line\<close> with a buffer of \<open>cap\<close> bytes; the text is what has been stored, with a NUL
  behind it when the result is 1. The loop goes on while the peer sends carriage returns,
  hence the fuel; \<open>None\<close> when it is used up.
\<close>

definition store_at :: "nat \<Rightarrow> nat \<Rightarrow> unit sys" where
  "store_at cap pos = State (\<lambda>w. ((), if pos < cap then w else w\<lparr>misused := True\<rparr>))"

fun read_line_loop :: "nat \<Rightarrow> int \<Rightarrow> nat \<Rightarrow> nat \<Rightarrow> char \<Rightarrow> int \<Rightarrow> string \<Rightarrow> (int \<times> string) option sys" where
  "read_line_loop fuel fd cap len c rb buff =
     (if c \<noteq> LF \<and> length buff < len \<and> rb = 1 then
        case fuel of
          0 \<Rightarrow> ret None
        | Suc n \<Rightarrow> do {
            _ \<leftarrow> (if c \<noteq> CR then store_at cap (length buff) else ret ());
            (r, bytes) \<leftarrow> sys_recv fd 1 False;
            read_line_loop n fd cap len (if bytes = [] then c else hd bytes) r
              (if c \<noteq> CR then buff @ [c] else buff) }
      else if rb = 1 then do { _ \<leftarrow> store_at cap (length buff); ret (Some (1, buff)) }
      else ret (Some (0, buff)))"

declare read_line_loop.simps [simp del]

definition sock_read_line :: "nat \<Rightarrow> int \<Rightarrow> nat option \<Rightarrow> int \<Rightarrow> (int \<times> string) option sys" where
  "sock_read_line fuel fd buff len =
     (case buff of
        None \<Rightarrow> ret (Some (0, []))
      | Some cap \<Rightarrow>
          if len \<le> 0 then ret (Some (0, []))
          else do {
            (rb, bytes) \<leftarrow> sys_recv fd 1 False;
            if rb < 0 then ret (Some (0, []))
            else read_line_loop fuel fd cap (nat len) (if bytes = [] then NUL else hd bytes) rb [] })"

end
