(* ===== verification/Sock_Connect.thy ===== *)
theory Sock_Connect
  imports Sock
begin

section \<open>Connections and server sockets: \<open>net/sock.c\<close>\<close>

text \<open>
  Address lists are walked node by node; every step reads a node, so it needs the list. The
  loop that waits for an asynchronous connection goes on as long as the system interrupts
  it: it has fuel, and the result is \<open>None\<close> when that is used up.
\<close>

subsection \<open>Waiting for a connection\<close>

definition sock_connected :: "int \<Rightarrow> int \<Rightarrow> int sys" where
  "sock_connected fd timeout = do {
     n \<leftarrow> sys_poll fd (timeout * 1000);
     if n = 0 then ret SOCK_TIMEOUT
     else do {
       v \<leftarrow> (if n = - 1 then ret None else sys_so_error fd);
       if v = Some 0 then ret 1
       else do {
         _ \<leftarrow> (case v of Some e \<Rightarrow> sock_set_error e | None \<Rightarrow> ret ());
         e \<leftarrow> sock_error;
         ret (if sock_recoverable e then 0 else SOCK_ERROR) } } }"

text \<open>
  Without \<open>poll\<close>: \<open>select\<close> takes a set of \<open>FD_SETSIZE\<close> bits, and \<open>FD_SET\<close> of a descriptor beyond it stores
  outside the set. A timeout is whole seconds, or none.
\<close>

definition FD_SETSIZE :: int where "FD_SETSIZE = 1024"

definition sys_select :: "int \<Rightarrow> int option \<Rightarrow> int sys" where
  "sys_select fd timeval =
     (if 0 \<le> fd \<and> fd < FD_SETSIZE then sys_poll fd (case timeval of Some sec \<Rightarrow> sec * 1000 | None \<Rightarrow> - 1)
      else State (\<lambda>w. (- 1, w\<lparr>misused := True\<rparr>)))"

definition sock_connected_select :: "int \<Rightarrow> int \<Rightarrow> int sys" where
  "sock_connected_select fd timeout = do {
     n \<leftarrow> sys_select fd (if timeout \<ge> 0 then Some timeout else None);
     if n = 0 then ret SOCK_TIMEOUT
     else do {
       v \<leftarrow> (if n = - 1 then ret None else sys_so_error fd);
       if v = Some 0 then ret 1
       else do {
         _ \<leftarrow> (case v of Some e \<Rightarrow> sock_set_error e | None \<Rightarrow> ret ());
         e \<leftarrow> sock_error;
         ret (if sock_recoverable e then 0 else SOCK_ERROR) } } }"

fun wait_connected :: "nat \<Rightarrow> int \<Rightarrow> int \<Rightarrow> int option sys" where
  "wait_connected 0 sock timeout = ret None"
| "wait_connected (Suc n) sock timeout = do {
     e \<leftarrow> sock_error;
     connected \<leftarrow> (if sock_recoverable e then sock_connected sock timeout else ret SOCK_ERROR);
     if sock_recoverable e \<and> connected = 0 then wait_connected n sock timeout
     else if sock_recoverable e \<and> connected = 1 then do {
       _ \<leftarrow> (if timeout \<ge> 0 then sock_set_blocking sock 1 else ret 0);
       ret (Some sock) }
     else do {
       _ \<leftarrow> sock_close sock;
       ret (Some SOCK_ERROR) } }"

subsection \<open>Connecting, with \<open>getaddrinfo\<close>\<close>

fun non_blocking_list :: "nat \<Rightarrow> int \<Rightarrow> int list \<Rightarrow> int sys" where
  "non_blocking_list head sock [] = ret sock"
| "non_blocking_list head sock (ai # rest) = do {
     _ \<leftarrow> use_list head;
     sock \<leftarrow> sys_socket;
     if sock > - 1 then do {
       _ \<leftarrow> sock_set_blocking sock 0;
       r \<leftarrow> sys_connect sock ai;
       e \<leftarrow> sock_error;
       if r < 0 \<and> \<not> sock_connect_pending e then do {
         _ \<leftarrow> sock_close sock;
         non_blocking_list head SOCK_ERROR rest }
       else ret sock }
     else non_blocking_list head sock rest }"

definition sock_connect_non_blocking :: "string \<Rightarrow> nat \<Rightarrow> int sys" where
  "sock_connect_non_blocking hostname port = do {
     found \<leftarrow> sys_getaddrinfo (Some hostname);
     case found of
       None \<Rightarrow> ret SOCK_ERROR
     | Some head \<Rightarrow> do {
         ais \<leftarrow> use_list head;
         sock \<leftarrow> non_blocking_list head SOCK_ERROR ais;
         _ \<leftarrow> sys_freeaddrinfo head;
         ret sock } }"

text \<open>
  The local address. The code reads \<open>b_head\<close> although a lookup that failed may not have written
  it: the GNU C library leaves it as it was, which is what is modelled; POSIX does not say so.
  The second result says whether the socket was bound.
\<close>

definition bind_local :: "int \<Rightarrow> string option \<Rightarrow> nat option \<Rightarrow> (nat option \<times> bool) sys" where
  "bind_local sock bnd b_head =
     (case bnd of
        None \<Rightarrow> ret (b_head, True)
      | Some name \<Rightarrow> do {
          found \<leftarrow> sys_getaddrinfo (Some name);
          case found of
            None \<Rightarrow> ret (b_head, False)
          | Some b \<Rightarrow> do {
              as \<leftarrow> use_list b;
              r \<leftarrow> sys_bind sock (hd as);
              ret (Some b, \<not> r < 0) } })"

text \<open>
  One address with an open socket: the first component of the result says whether the loop
  over the addresses is left although there is no connection.
\<close>

definition try_address ::
    "nat \<Rightarrow> int \<Rightarrow> string option \<Rightarrow> nat option \<Rightarrow> int \<Rightarrow> int \<Rightarrow> (bool \<times> int \<times> nat option) option sys" where
  "try_address fuel timeout bnd b_head sock ai = do {
     _ \<leftarrow> (if timeout > 0 then sock_set_blocking sock 0 else ret 0);
     (b_head, ok) \<leftarrow> bind_local sock bnd b_head;
     if \<not> ok then do {
       _ \<leftarrow> sock_close sock;
       ret (Some (True, SOCK_ERROR, b_head)) }
     else do {
       r \<leftarrow> sys_connect sock ai;
       if r = 0 then ret (Some (False, sock, b_head))
       else do {
         waited \<leftarrow> wait_connected fuel sock timeout;
         ret (map_option (\<lambda>sock. (False, sock, b_head)) waited) } } }"

fun connect_list :: "nat \<Rightarrow> int \<Rightarrow> string option \<Rightarrow> nat \<Rightarrow> nat option \<Rightarrow> int \<Rightarrow> int list \<Rightarrow> (int \<times> nat option) option sys" where
  "connect_list fuel timeout bnd head b_head sock [] = ret (Some (sock, b_head))"
| "connect_list fuel timeout bnd head b_head sock (ai # rest) = do {
     _ \<leftarrow> use_list head;
     sock \<leftarrow> sys_socket;
     if sock \<ge> 0 then do {
       tried \<leftarrow> try_address fuel timeout bnd b_head sock ai;
       case tried of
         None \<Rightarrow> ret None
       | Some (leave, sock, b_head) \<Rightarrow>
           if leave \<or> sock \<noteq> SOCK_ERROR then ret (Some (sock, b_head))
           else connect_list fuel timeout bnd head b_head sock rest }
     else connect_list fuel timeout bnd head b_head sock rest }"

definition sock_connect_wto_bind :: "nat \<Rightarrow> string \<Rightarrow> int \<Rightarrow> string option \<Rightarrow> int \<Rightarrow> int option sys" where
  "sock_connect_wto_bind fuel hostname port bnd timeout = do {
     found \<leftarrow> sys_getaddrinfo (Some hostname);
     case found of
       None \<Rightarrow> ret (Some SOCK_ERROR)
     | Some head \<Rightarrow> do {
         ais \<leftarrow> use_list head;
         outcome \<leftarrow> connect_list fuel timeout bnd head None SOCK_ERROR ais;
         case outcome of
           None \<Rightarrow> ret None
         | Some (sock, b_head) \<Rightarrow> do {
             _ \<leftarrow> (case b_head of Some b \<Rightarrow> sys_freeaddrinfo b | None \<Rightarrow> ret ());
             _ \<leftarrow> sys_freeaddrinfo head;
             ret (Some sock) } } }"

definition sock_connect_wto :: "nat \<Rightarrow> string \<Rightarrow> int \<Rightarrow> int \<Rightarrow> int option sys" where
  "sock_connect_wto fuel hostname port timeout = sock_connect_wto_bind fuel hostname port None timeout"

subsection \<open>Server sockets\<close>

fun server_list :: "nat \<Rightarrow> int list \<Rightarrow> int sys" where
  "server_list res [] = do { _ \<leftarrow> sys_freeaddrinfo res; ret SOCK_ERROR }"
| "server_list res (ai # rest) = do {
     _ \<leftarrow> use_list res;
     sock \<leftarrow> sys_socket;
     if sock < 0 then server_list res rest
     else do {
       _ \<leftarrow> sys_setsockopt sock;
       _ \<leftarrow> sys_setsockopt sock;
       r \<leftarrow> sys_bind sock ai;
       if r < 0 then do {
         _ \<leftarrow> sock_close sock;
         server_list res rest }
       else do {
         _ \<leftarrow> sys_freeaddrinfo res;
         ret sock } } }"

definition sock_get_server_socket :: "int \<Rightarrow> string option \<Rightarrow> int sys" where
  "sock_get_server_socket port sinterface =
     (if port < 0 then ret SOCK_ERROR
      else do {
        found \<leftarrow> sys_getaddrinfo sinterface;
        case found of
          None \<Rightarrow> ret SOCK_ERROR
        | Some res \<Rightarrow> do { ais \<leftarrow> use_list res; server_list res ais } })"

definition sock_listen :: "int \<Rightarrow> int \<Rightarrow> bool sys" where
  "sock_listen serversock backlog = do {
     valid \<leftarrow> sock_valid_socket serversock;
     if \<not> valid then ret False
     else do { r \<leftarrow> sys_listen serversock (if backlog \<le> 0 then 10 else backlog); ret (r = 0) } }"

text \<open>\<open>name\<close> is the text \<open>getnameinfo\<close> gives for the peer; the second result is the buffer.\<close>

definition sock_accept :: "int \<Rightarrow> bool \<Rightarrow> nat \<Rightarrow> string \<Rightarrow> (int \<times> string) sys" where
  "sock_accept serversock null len name =
     (if null \<or> len = 0 then ret (SOCK_ERROR, [])
      else do {
        valid \<leftarrow> sock_valid_socket serversock;
        if \<not> valid then ret (SOCK_ERROR, [])
        else do {
          fd \<leftarrow> sys_accept serversock;
          if fd \<noteq> SOCK_ERROR then do {
            a \<leftarrow> ask C_name;
            _ \<leftarrow> sock_set_nolinger fd;
            _ \<leftarrow> sock_set_keepalive fd;
            ret (fd, take (len - 1) (if a < 0 then ''unknown'' else name)) }
          else ret (fd, []) } })"

subsection \<open>The versions without \<open>getaddrinfo\<close>\<close>

text \<open>\<open>ip\<close> is the result of \<open>resolver_getip\<close> for the host, \<open>addr\<close> that of \<open>inet_aton\<close>.\<close>

definition sock_try_connection :: "int \<Rightarrow> string option \<Rightarrow> nat \<Rightarrow> string option \<Rightarrow> int option \<Rightarrow> int sys" where
  "sock_try_connection sock hostname port ip addr =
     (if hostname = None \<or> hostname = Some [] \<or> port = 0 then ret (- 1)
      else if ip = None then do { _ \<leftarrow> sock_close sock; ret (- 1) }
      else case addr of
        None \<Rightarrow> do { _ \<leftarrow> sock_close sock; ret (- 1) }
      | Some ai \<Rightarrow> sys_connect sock ai)"

definition sock_connect_non_blocking_v4 :: "string \<Rightarrow> nat \<Rightarrow> string option \<Rightarrow> int option \<Rightarrow> int sys" where
  "sock_connect_non_blocking_v4 hostname port ip addr = do {
     sock \<leftarrow> sys_socket;
     if sock = SOCK_ERROR then ret SOCK_ERROR
     else do {
       _ \<leftarrow> sock_set_blocking sock 0;
       _ \<leftarrow> sock_try_connection sock (Some hostname) port ip addr;
       ret sock } }"

definition sock_connect_wto_bind_v4 ::
    "string \<Rightarrow> nat \<Rightarrow> int option option \<Rightarrow> int \<Rightarrow> string option \<Rightarrow> int option \<Rightarrow> int sys" where
  "sock_connect_wto_bind_v4 hostname port bnd timeout ip addr = do {
     sock \<leftarrow> sys_socket;
     if sock = SOCK_ERROR then ret SOCK_ERROR
     else do {
       b \<leftarrow> (case bnd of None \<Rightarrow> ret 0 | Some None \<Rightarrow> ret (- 1) | Some (Some local) \<Rightarrow> sys_bind sock local);
       if b < 0 then do { _ \<leftarrow> sock_close sock; ret SOCK_ERROR }
       else if timeout \<noteq> 0 then do {
         _ \<leftarrow> sock_set_blocking sock 0;
         r \<leftarrow> sock_try_connection sock (Some hostname) port ip addr;
         connected \<leftarrow> (if r < 0 then sock_connected sock timeout else ret 1);
         if connected \<le> 0 then do { _ \<leftarrow> sock_close sock; ret SOCK_ERROR }
         else do { _ \<leftarrow> sock_set_blocking sock 1; ret sock } }
       else do {
         r \<leftarrow> sock_try_connection sock (Some hostname) port ip addr;
         if r < 0 then do { _ \<leftarrow> sock_close sock; ret SOCK_ERROR } else ret sock } } }"

text \<open>\<open>local\<close> is the address of the interface: \<open>Some None\<close> when it cannot be found.\<close>

definition sock_get_server_socket_v4 :: "int \<Rightarrow> int option option \<Rightarrow> int sys" where
  "sock_get_server_socket_v4 port local =
     (if port < 0 then ret SOCK_ERROR
      else if local = Some None then ret SOCK_ERROR
      else do {
        sock \<leftarrow> sys_socket;
        if sock = - 1 then ret SOCK_ERROR
        else do {
          _ \<leftarrow> sys_setsockopt sock;
          error \<leftarrow> sys_bind sock (case local of Some (Some a) \<Rightarrow> a | _ \<Rightarrow> 0);
          if error = - 1 then ret SOCK_ERROR else ret sock } })"

end
