(* ===== verification/Net_Rules.thy ===== *)
theory Net_Rules
  imports Sock_Connect
begin

section \<open>Rules for programs over the system\<close>

text \<open>
  Hoare triples for the state monad, and the triples of the system calls for the predicates
  the proofs need: \<open>res A S L\<close>, the open sockets are exactly \<open>S\<close> and the allocated address lists
  exactly \<open>L\<close> (and nothing was misused so far); \<open>owns A S fd L\<close>, there is one socket \<open>fd\<close> more.
\<close>

definition valid :: "('s \<Rightarrow> bool) \<Rightarrow> ('s, 'a) state \<Rightarrow> ('a \<Rightarrow> 's \<Rightarrow> bool) \<Rightarrow> bool" where
  "valid P f Q \<longleftrightarrow> (\<forall>w. P w \<longrightarrow> (case run_state f w of (r, w') \<Rightarrow> Q r w'))"

lemma validI: "(\<And>w r w'. P w \<Longrightarrow> run_state f w = (r, w') \<Longrightarrow> Q r w') \<Longrightarrow> valid P f Q"
  by (auto simp: valid_def)

lemma validD: "valid P f Q \<Longrightarrow> P w \<Longrightarrow> run_state f w = (r, w') \<Longrightarrow> Q r w'"
  by (auto simp: valid_def)

lemma v_bind:
  assumes "valid P f R" and "\<And>x. valid (R x) (g x) Q"
  shows "valid P (f \<bind> g) Q"
proof (rule validI)
  fix w r w' assume w: "P w" "run_state (f \<bind> g) w = (r, w')"
  obtain x v where "run_state f w = (x, v)" by fastforce
  then show "Q r w'" using assms w validD [of P f R w x v] validD [of "R x" "g x" Q v r w'] by simp
qed

lemma v_ret: "(\<And>w. P w \<Longrightarrow> Q x w) \<Longrightarrow> valid P (ret x) Q"
  by (auto simp: valid_def)

lemma v_if: "(b \<Longrightarrow> valid P f Q) \<Longrightarrow> (\<not> b \<Longrightarrow> valid P g Q) \<Longrightarrow> valid P (if b then f else g) Q"
  by simp

lemma v_weak: "valid P' f Q' \<Longrightarrow> (\<And>w. P w \<Longrightarrow> P' w) \<Longrightarrow> (\<And>r w. Q' r w \<Longrightarrow> Q r w) \<Longrightarrow> valid P f Q"
  by (fastforce simp: valid_def)

lemma v_pre: "valid P' f Q \<Longrightarrow> (\<And>w. P w \<Longrightarrow> P' w) \<Longrightarrow> valid P f Q"
  by (auto simp: valid_def)

lemma v_ex:
  assumes "\<And>x. valid (P x) f Q"
  shows "valid (\<lambda>w. \<exists>x. P x w) f Q"
proof (rule validI)
  fix w r w' assume w: "\<exists>x. P x w" "run_state f w = (r, w')"
  then obtain x where "P x w" by blast
  from validD [OF assms this w(2)] show "Q r w'" .
qed

lemma v_conj: "(b \<Longrightarrow> valid P f Q) \<Longrightarrow> valid (\<lambda>w. b \<and> P w) f Q"
  by (auto simp: valid_def)

subsection \<open>The predicates\<close>

type_synonym answers = "call \<Rightarrow> nat \<Rightarrow> int"
type_synonym socks = "int \<Rightarrow> sock_state option"
type_synonym lists = "nat \<Rightarrow> int list option"

definition res :: "answers \<Rightarrow> socks \<Rightarrow> lists \<Rightarrow> os \<Rightarrow> bool" where
  "res A S L w \<longleftrightarrow> \<not> misused w \<and> answers w = A \<and> socks w = S \<and> addr_lists w = L \<and>
     (\<forall>p. L p \<noteq> None \<longrightarrow> p < next_list w)"

definition owns :: "answers \<Rightarrow> socks \<Rightarrow> int \<Rightarrow> lists \<Rightarrow> os \<Rightarrow> bool" where
  "owns A S fd L w \<longleftrightarrow> 0 \<le> fd \<and> S fd = None \<and> (\<exists>s. res A (S(fd \<mapsto> s)) L w)"

lemmas sys_defs = ask_def failing_def set_errno_def get_errno_def is_open_def put_sock_def on_sock_def

lemma owns_sock: "owns A S fd L w \<Longrightarrow> \<exists>s. socks w fd = Some s"
  by (auto simp: owns_def res_def)

subsection \<open>Calls that leave the descriptors as they are\<close>

lemma t_errno [intro]: "valid P get_errno (\<lambda>_. P)" "valid P sock_error (\<lambda>_. P)"
  by (auto simp: valid_def get_errno_def sock_error_def)

lemma t_set_errno:
  "valid (res A S L) (set_errno e) (\<lambda>_. res A S L)" "valid (owns A S fd L) (set_errno e) (\<lambda>_. owns A S fd L)"
  by (auto simp: valid_def set_errno_def res_def owns_def)

lemma t_use_list:
  assumes "\<And>w. P w \<Longrightarrow> addr_lists w p = Some as"
  shows "valid P (use_list p) (\<lambda>r w. r = as \<and> P w)"
  using assms by (fastforce simp: valid_def use_list_def)

lemma res_list: "res A S L w \<Longrightarrow> L p = Some as \<Longrightarrow> addr_lists w p = Some as"
  by (auto simp: res_def)

lemma owns_list: "owns A S fd L w \<Longrightarrow> L p = Some as \<Longrightarrow> addr_lists w p = Some as"
  by (auto simp: owns_def res_def)

text \<open>A call on the owned socket that answers and perhaps changes the socket.\<close>

lemma t_on_sock:
  assumes "\<And>s w r w'. run_state (f s) w = (r, w') \<Longrightarrow>
    misused w' = misused w \<and> answers w' = answers w \<and> addr_lists w' = addr_lists w \<and> next_list w' = next_list w \<and>
    (socks w' = socks w \<or> (\<exists>s'. socks w' = (socks w)(fd \<mapsto> s')))"
  shows "valid (owns A S fd L) (on_sock fd f) (\<lambda>_. owns A S fd L)"
proof (rule validI)
  fix w r w' assume w: "owns A S fd L w" "run_state (on_sock fd f) w = (r, w')"
  then obtain s where s: "socks w = S(fd \<mapsto> s)" "res A (S(fd \<mapsto> s)) L w" "0 \<le> fd" "S fd = None"
    by (auto simp: owns_def res_def)
  then have "run_state (f s) w = (r, w')" using w(2) by (simp add: on_sock_def)
  from assms [OF this] s show "owns A S fd L w'" by (auto simp: owns_def res_def)
qed

lemma t_connect: "valid (owns A S fd L) (sys_connect fd ai) (\<lambda>_. owns A S fd L)"
  unfolding sys_connect_def by (rule t_on_sock) (auto simp: sys_defs split: if_split_asm)

lemma t_bind: "valid (owns A S fd L) (sys_bind fd ai) (\<lambda>_. owns A S fd L)"
  unfolding sys_bind_def by (rule t_on_sock) (auto simp: sys_defs split: if_split_asm)

lemma t_nonblock: "valid (owns A S fd L) (sys_nonblock fd b) (\<lambda>_. owns A S fd L)"
  unfolding sys_nonblock_def by (rule t_on_sock) (auto simp: sys_defs split: if_split_asm)

lemma t_setsockopt: "valid (owns A S fd L) (sys_setsockopt fd) (\<lambda>_. owns A S fd L)"
  unfolding sys_setsockopt_def by (rule t_on_sock) (auto simp: sys_defs split: if_split_asm)

lemma t_poll: "valid (owns A S fd L) (sys_poll fd t) (\<lambda>_. owns A S fd L)"
  unfolding sys_poll_def by (rule t_on_sock) (auto simp: sys_defs split: if_split_asm)

lemma t_ask: "valid (owns A S fd L) (ask c) (\<lambda>_. owns A S fd L)"
  by (auto simp: valid_def ask_def res_def owns_def)

lemma t_so_error: "valid (owns A S fd L) (sys_so_error fd) (\<lambda>_. owns A S fd L)"
  unfolding sys_so_error_def
proof (rule v_bind)
  show "valid (owns A S fd L) (on_sock fd (\<lambda>s. do { a \<leftarrow> ask C_so_ret; if a < 0 then failing a else ret 0 }))
      (\<lambda>_. owns A S fd L)"
    by (rule t_on_sock) (auto simp: sys_defs split: if_split_asm)
  show "valid (owns A S fd L) (do { v \<leftarrow> ask C_so_error; ret (if rc = 0 then Some v else None) })
      (\<lambda>_. owns A S fd L)" for rc
    by (rule v_bind [OF t_ask]) (rule v_ret)
qed

lemma t_valid_socket: "valid (owns A S fd L) (sock_valid_socket fd) (\<lambda>_. owns A S fd L)"
  by (auto simp: valid_def sock_valid_socket_def sys_so_type_def sys_defs owns_def res_def)

lemma t_set_blocking: "valid (owns A S fd L) (sock_set_blocking fd b) (\<lambda>_. owns A S fd L)"
  unfolding sock_set_blocking_def
  by (rule v_bind [OF t_valid_socket], rule v_if) (auto intro: v_ret t_nonblock)

subsection \<open>Calls that open and close\<close>

lemma t_socket: "valid (res A S L) sys_socket (\<lambda>r w. if r < 0 then res A S L w else owns A S r L w)"
  by (rule validI) (auto simp: sys_socket_def open_new_def sys_defs res_def owns_def split: if_split_asm)

lemma t_close: "valid (owns A S fd L) (sock_close fd) (\<lambda>_. res A S L)"
  by (rule validI) (auto simp: sock_close_def sys_close_def sys_defs res_def owns_def)

lemma getaddrinfo_res:
  assumes "res A S L w" and "run_state (sys_getaddrinfo h) w = (r, w')"
  shows "r = None \<and> res A S L w' \<or>
    (\<exists>p as. r = Some p \<and> L p = None \<and> as \<noteq> [] \<and> res A S (L(p \<mapsto> as)) w')"
proof (cases "lookups w (tick w) = []")
  case True
  then show ?thesis using assms by (auto simp: sys_getaddrinfo_def res_def Let_def)
next
  case False
  have "L (next_list w) = None"
  proof (rule ccontr)
    assume "L (next_list w) \<noteq> None"
    then show False using assms(1) unfolding res_def by blast
  qed
  moreover have "r = Some (next_list w)" using assms(2) False by (simp add: sys_getaddrinfo_def Let_def)
  moreover have "res A S (L(next_list w \<mapsto> lookups w (tick w))) w'"
    using assms False by (auto simp: sys_getaddrinfo_def res_def Let_def less_Suc_eq)
  ultimately show ?thesis using False by blast
qed

lemma t_getaddrinfo:
  "valid (res A S L) (sys_getaddrinfo h) (\<lambda>r w. case r of None \<Rightarrow> res A S L w
     | Some p \<Rightarrow> \<exists>as. L p = None \<and> as \<noteq> [] \<and> res A S (L(p \<mapsto> as)) w)"
proof (rule validI)
  fix w r w' assume "res A S L w" "run_state (sys_getaddrinfo h) w = (r, w')"
  from getaddrinfo_res [OF this] show "case r of None \<Rightarrow> res A S L w'
     | Some p \<Rightarrow> \<exists>as. L p = None \<and> as \<noteq> [] \<and> res A S (L(p \<mapsto> as)) w'" by auto
qed

lemma t_getaddrinfo_owns:
  "valid (owns A S fd L) (sys_getaddrinfo h) (\<lambda>r w. case r of None \<Rightarrow> owns A S fd L w
     | Some p \<Rightarrow> \<exists>as. L p = None \<and> as \<noteq> [] \<and> owns A S fd (L(p \<mapsto> as)) w)"
proof (rule validI)
  fix w r w' assume w: "owns A S fd L w" "run_state (sys_getaddrinfo h) w = (r, w')"
  then obtain s where "0 \<le> fd" "S fd = None" "res A (S(fd \<mapsto> s)) L w" by (auto simp: owns_def)
  with getaddrinfo_res [OF this(3) w(2)] show "case r of None \<Rightarrow> owns A S fd L w'
     | Some p \<Rightarrow> \<exists>as. L p = None \<and> as \<noteq> [] \<and> owns A S fd (L(p \<mapsto> as)) w'"
    by (fastforce simp: owns_def)
qed

lemma t_freeaddrinfo:
  "L p \<noteq> None \<Longrightarrow> valid (res A S L) (sys_freeaddrinfo p) (\<lambda>_. res A S (L(p := None)))"
  by (auto simp: valid_def sys_freeaddrinfo_def res_def)

lemma t_freeaddrinfo_owns:
  assumes "L p \<noteq> None"
  shows "valid (owns A S fd L) (sys_freeaddrinfo p) (\<lambda>_. owns A S fd (L(p := None)))"
  unfolding owns_def using t_freeaddrinfo [of L p, OF assms] by (fastforce simp: valid_def)

end
