(* ===== verification/Sock_Safe.thy ===== *)
theory Sock_Safe
  imports Net_Rules
begin

section \<open>Descriptors and address lists are neither lost nor used after they are closed\<close>

text \<open>
  \<open>calm n A\<close>: from some moment before the \<open>n\<close>-th on, the system does not interrupt the wait
  for a connection any more. Then the loop that waits ends within its fuel.
\<close>

definition quiet :: "answers \<Rightarrow> nat \<Rightarrow> bool" where
  "quiet A i \<longleftrightarrow>
     (A C_poll i < 0 \<longrightarrow> \<not> sock_recoverable (- A C_poll i)) \<and>
     (A C_so_ret i < 0 \<longrightarrow> \<not> sock_recoverable (- A C_so_ret i)) \<and>
     (A C_so_error i \<noteq> 0 \<longrightarrow> \<not> sock_recoverable (A C_so_error i))"

definition calm :: "nat \<Rightarrow> answers \<Rightarrow> bool" where
  "calm n A \<longleftrightarrow> (\<exists>T < n. \<forall>i \<ge> T. quiet A i)"

subsection \<open>The wait for a connection\<close>

lemma t_sock_connected: "valid (owns A S fd L) (sock_connected fd t) (\<lambda>_. owns A S fd L)"
  unfolding sock_connected_def
proof (rule v_bind [OF t_poll], rule v_if)
  fix n :: int
  show "valid (owns A S fd L) (ret SOCK_TIMEOUT) (\<lambda>_. owns A S fd L)" by (rule v_ret)
  show "valid (owns A S fd L) (do {
       v \<leftarrow> (if n = - 1 then ret None else sys_so_error fd);
       if v = Some 0 then ret 1
       else do {
         _ \<leftarrow> (case v of Some e \<Rightarrow> sock_set_error e | None \<Rightarrow> ret ());
         e \<leftarrow> sock_error;
         ret (if sock_recoverable e then 0 else SOCK_ERROR) } }) (\<lambda>_. owns A S fd L)"
    by (rule v_bind [where R = "\<lambda>_. owns A S fd L"], rule v_if)
      (auto intro!: v_ret t_so_error v_bind [where R = "\<lambda>_. owns A S fd L"] t_errno
        simp: sock_set_error_def t_set_errno split: option.splits)
qed

text \<open>An interruption takes time, and there is none when the system is quiet.\<close>

lemma interrupted:
  assumes "run_state (sock_connected fd t) w = (0, w')" and "socks w fd \<noteq> None"
  shows "tick w < tick w' \<and> (\<exists>i \<ge> tick w. \<not> quiet (answers w) i)"
proof -
  obtain s where s: "socks w fd = Some s" using assms(2) by auto
  let ?a = "answers w C_poll (tick w)" and ?b = "answers w C_so_ret (Suc (tick w))"
    and ?c = "answers w C_so_error (Suc (Suc (tick w)))"
  consider "?a < 0" | "?a \<ge> 0" "?b < 0" | "?a \<ge> 0" "?b \<ge> 0" by linarith
  then show ?thesis
  proof cases
    case 1
    then have "sock_recoverable (- ?a)" "tick w' = Suc (tick w)"
      using assms(1) s by (auto simp: sock_connected_def sys_poll_def sys_defs sock_error_def SOCK_ERROR_def split: if_split_asm)
    then show ?thesis using 1 by (auto simp: quiet_def intro!: exI [of _ "tick w"])
  next
    case 2
    then have "sock_recoverable (- ?b)" "tick w < tick w'"
      using assms(1) s by (auto simp: sock_connected_def sys_poll_def sys_so_error_def sys_defs sock_error_def
          SOCK_ERROR_def SOCK_TIMEOUT_def split: if_split_asm)
    then show ?thesis using 2 by (auto simp: quiet_def intro!: exI [of _ "Suc (tick w)"])
  next
    case 3
    then have "sock_recoverable ?c" "?c \<noteq> 0" "tick w < tick w'"
      using assms(1) s by (auto simp: sock_connected_def sys_poll_def sys_so_error_def sys_defs sock_error_def
          sock_set_error_def SOCK_ERROR_def SOCK_TIMEOUT_def split: if_split_asm)
    then show ?thesis using 3 by (auto simp: quiet_def intro!: exI [of _ "Suc (Suc (tick w))"])
  qed
qed

lemma wait_ends:
  assumes "\<forall>i \<ge> T. quiet A i" and "T < n + tick w" and "owns A S fd L w"
  shows "fst (run_state (wait_connected n fd t) w) \<noteq> None \<or> n = 0"
  using assms
proof (induction n arbitrary: w)
  case (Suc n)
  show ?case
  proof (cases "sock_recoverable (errno w)")
    case True
    obtain c v where c: "run_state (sock_connected fd t) w = (c, v)" by fastforce
    have v: "owns A S fd L v" by (rule validD [OF t_sock_connected Suc.prems(3) c])
    have A: "answers w = A" using Suc.prems(3) by (auto simp: owns_def res_def)
    have open_: "socks w fd \<noteq> None" using owns_sock [OF Suc.prems(3)] by auto
    show ?thesis
    proof (cases "c = 0")
      case True
      then have i: "tick w < tick v" "\<exists>i \<ge> tick w. \<not> quiet A i"
        using interrupted [of fd t w v] c open_ A by auto
      then obtain i where "tick w \<le> i" "i < T" using Suc.prems(1) by (meson not_le)
      then have "n \<noteq> 0" using Suc.prems(2) by simp
      moreover have "T < n + tick v" using i(1) Suc.prems(2) by simp
      ultimately have "fst (run_state (wait_connected n fd t) v) \<noteq> None"
        using Suc.IH [OF Suc.prems(1) _ v] by simp
      then show ?thesis using True c \<open>sock_recoverable (errno w)\<close>
        by (simp add: sock_error_def get_errno_def)
    next
      case False
      then show ?thesis using c \<open>sock_recoverable (errno w)\<close>
        by (auto simp: sock_error_def get_errno_def split: prod.splits)
    qed
  next
    case False
    then show ?thesis by (auto simp: sock_error_def get_errno_def split: prod.splits)
  qed
qed simp

lemma t_wait: "valid (owns A S fd L) (wait_connected n fd t) (\<lambda>r w. case r of None \<Rightarrow> True
    | Some x \<Rightarrow> if x = SOCK_ERROR then res A S L w else x = fd \<and> owns A S fd L w)"
proof (induction n)
  case (Suc n)
  show ?case
    unfolding wait_connected.simps
  proof (rule v_bind [OF t_errno(2)])
    fix e
    show "valid (owns A S fd L) (do {
       connected \<leftarrow> (if sock_recoverable e then sock_connected fd t else ret SOCK_ERROR);
       if sock_recoverable e \<and> connected = 0 then wait_connected n fd t
       else if sock_recoverable e \<and> connected = 1 then do {
         _ \<leftarrow> (if t \<ge> 0 then sock_set_blocking fd 1 else ret 0);
         ret (Some fd) }
       else do {
         _ \<leftarrow> sock_close fd;
         ret (Some SOCK_ERROR) } }) (\<lambda>r w. case r of None \<Rightarrow> True
       | Some x \<Rightarrow> if x = SOCK_ERROR then res A S L w else x = fd \<and> owns A S fd L w)"
    proof (rule v_bind [where R = "\<lambda>_. owns A S fd L"])
      show "valid (owns A S fd L) (if sock_recoverable e then sock_connected fd t else ret SOCK_ERROR)
          (\<lambda>_. owns A S fd L)" by (auto intro: t_sock_connected v_ret)
      fix c :: int
      have "valid (owns A S fd L) (do {
         _ \<leftarrow> (if t \<ge> 0 then sock_set_blocking fd 1 else ret 0); ret (Some fd) })
         (\<lambda>r w. case r of None \<Rightarrow> True
       | Some x \<Rightarrow> if x = SOCK_ERROR then res A S L w else x = fd \<and> owns A S fd L w)"
        by (rule v_bind [where R = "\<lambda>_. owns A S fd L"])
          (auto intro!: t_set_blocking v_ret simp: SOCK_ERROR_def owns_def)
      moreover have "valid (owns A S fd L) (do { _ \<leftarrow> sock_close fd; ret (Some SOCK_ERROR) })
         (\<lambda>r w. case r of None \<Rightarrow> True
       | Some x \<Rightarrow> if x = SOCK_ERROR then res A S L w else x = fd \<and> owns A S fd L w)"
        by (rule v_bind [OF t_close]) (auto intro: v_ret)
      ultimately show "valid (owns A S fd L) (if sock_recoverable e \<and> c = 0 then wait_connected n fd t
       else if sock_recoverable e \<and> c = 1 then do {
         _ \<leftarrow> (if t \<ge> 0 then sock_set_blocking fd 1 else ret 0);
         ret (Some fd) }
       else do {
         _ \<leftarrow> sock_close fd;
         ret (Some SOCK_ERROR) }) (\<lambda>r w. case r of None \<Rightarrow> True
       | Some x \<Rightarrow> if x = SOCK_ERROR then res A S L w else x = fd \<and> owns A S fd L w)"
        using Suc.IH by simp
    qed
  qed
qed (auto intro: v_ret)

lemma t_wait_calm: "valid (owns A S fd L) (wait_connected n fd t) (\<lambda>r w. case r of None \<Rightarrow> \<not> calm n A
    | Some x \<Rightarrow> if x = SOCK_ERROR then res A S L w else x = fd \<and> owns A S fd L w)"
proof (rule validI)
  fix w r w' assume w: "owns A S fd L w" "run_state (wait_connected n fd t) w = (r, w')"
  have "r \<noteq> None" if calm: "calm n A"
  proof -
    obtain T where "T < n" "\<forall>i \<ge> T. quiet A i" using calm unfolding calm_def by blast
    then show ?thesis using wait_ends [of T A n w S fd L t] w by simp
  qed
  then show "case r of None \<Rightarrow> \<not> calm n A
    | Some x \<Rightarrow> if x = SOCK_ERROR then res A S L w' else x = fd \<and> owns A S fd L w'"
    using validD [OF t_wait w] by (auto split: option.splits)
qed

subsection \<open>Connecting\<close>

text \<open>The local address: the list of its last lookup stays.\<close>

lemma t_bind_local:
  "valid (owns A S fd L) (bind_local fd bnd bh) (\<lambda>(bh', ok) w. \<exists>L'. owns A S fd L' w \<and> L \<subseteq>\<^sub>m L' \<and>
     (bnd = None \<longrightarrow> L' = L) \<and> (bh' = bh \<or> (\<exists>b. bh' = Some b \<and> L b = None \<and> L' b \<noteq> None)))"
proof (cases bnd)
  case None
  then show ?thesis by (auto simp: bind_local_def intro!: v_ret)
next
  case (Some name)
  show ?thesis
    unfolding bind_local_def Some option.case
  proof (rule v_bind [OF t_getaddrinfo_owns])
    fix found :: "nat option"
    show "valid (\<lambda>w. case found of None \<Rightarrow> owns A S fd L w
       | Some p \<Rightarrow> \<exists>as. L p = None \<and> as \<noteq> [] \<and> owns A S fd (L(p \<mapsto> as)) w)
      (case found of None \<Rightarrow> ret (bh, False)
       | Some b \<Rightarrow> do { as \<leftarrow> use_list b; r \<leftarrow> sys_bind fd (hd as); ret (Some b, \<not> r < 0) })
      (\<lambda>(bh', ok) w. \<exists>L'. owns A S fd L' w \<and> L \<subseteq>\<^sub>m L' \<and> (Some name = None \<longrightarrow> L' = L) \<and>
        (bh' = bh \<or> (\<exists>b. bh' = Some b \<and> L b = None \<and> L' b \<noteq> None)))"
    proof (cases found)
      case None
      then show ?thesis by (auto intro!: v_ret)
    next
      case (Some p)
      have "valid (\<lambda>w. L p = None \<and> as \<noteq> [] \<and> owns A S fd (L(p \<mapsto> as)) w)
        (do { as \<leftarrow> use_list p; r \<leftarrow> sys_bind fd (hd as); ret (Some p, \<not> r < 0) })
        (\<lambda>(bh', ok) w. \<exists>L'. owns A S fd L' w \<and> L \<subseteq>\<^sub>m L' \<and> (Some name = None \<longrightarrow> L' = L) \<and>
          (bh' = bh \<or> (\<exists>b. bh' = Some b \<and> L b = None \<and> L' b \<noteq> None)))" for as
      proof (rule v_conj, rule v_conj, rule v_bind)
        assume p: "L p = None"
        show "valid (owns A S fd (L(p \<mapsto> as))) (use_list p)
          (\<lambda>r w. r = as \<and> owns A S fd (L(p \<mapsto> as)) w)"
          by (rule t_use_list) (auto elim: owns_list)
        fix x
        have "L \<subseteq>\<^sub>m L(p \<mapsto> as)" using p by (auto simp: map_le_def)
        then show "valid (\<lambda>w. x = as \<and> owns A S fd (L(p \<mapsto> as)) w)
          (do { r \<leftarrow> sys_bind fd (hd x); ret (Some p, \<not> r < 0) })
          (\<lambda>(bh', ok) w. \<exists>L'. owns A S fd L' w \<and> L \<subseteq>\<^sub>m L' \<and> (Some name = None \<longrightarrow> L' = L) \<and>
            (bh' = bh \<or> (\<exists>b. bh' = Some b \<and> L b = None \<and> L' b \<noteq> None)))"
          using p by (intro v_conj v_bind [OF t_bind] v_ret) (auto intro!: exI [of _ "L(p \<mapsto> as)"])
      qed
      then show ?thesis unfolding Some option.case by (rule v_ex)
    qed
  qed
qed

text \<open>
  What the loop over the addresses leaves: the socket it returns and nothing else, and all
  lists there were before; \<open>b_head\<close> is the old one or a list that is new.
\<close>

definition conn :: "answers \<Rightarrow> socks \<Rightarrow> lists \<Rightarrow> string option \<Rightarrow> nat option \<Rightarrow> int \<times> nat option \<Rightarrow> os \<Rightarrow> bool" where
  "conn A S L bnd bh x w \<longleftrightarrow> (case x of (fd, bh') \<Rightarrow> \<exists>L'. L \<subseteq>\<^sub>m L' \<and> (bnd = None \<longrightarrow> L' = L) \<and>
     (bh' = bh \<or> (\<exists>b. bh' = Some b \<and> L b = None \<and> L' b \<noteq> None)) \<and>
     (if fd < 0 then res A S L' w else owns A S fd L' w))"

lemma map_le_dom: "L \<subseteq>\<^sub>m L' \<Longrightarrow> L p \<noteq> None \<Longrightarrow> L' p \<noteq> None"
  by (metis domIff map_le_def)

lemma conn_trans:
  assumes "L \<subseteq>\<^sub>m L'" and "bnd = None \<longrightarrow> L' = L"
    and "bh' = bh \<or> (\<exists>b. bh' = Some b \<and> L b = None \<and> L' b \<noteq> None)" and "conn A S L' bnd bh' x w"
  shows "conn A S L bnd bh x w"
proof -
  obtain fd bh2 L2 where x: "x = (fd, bh2)" "L' \<subseteq>\<^sub>m L2" "bnd = None \<longrightarrow> L2 = L'"
    "bh2 = bh' \<or> (\<exists>b. bh2 = Some b \<and> L' b = None \<and> L2 b \<noteq> None)"
    "if fd < 0 then res A S L2 w else owns A S fd L2 w"
    using assms(4) unfolding conn_def by (cases x) auto
  have "bh2 = bh \<or> (\<exists>b. bh2 = Some b \<and> L b = None \<and> L2 b \<noteq> None)"
    using x(4) assms(3) map_le_dom [OF assms(1)] map_le_dom [OF x(2)] by blast
  then show ?thesis using x assms(1,2) map_le_trans [OF assms(1) x(2)] unfolding conn_def by auto
qed

lemma t_try_address:
  assumes "0 \<le> fd"
  shows "valid (owns A S fd L) (try_address n t bnd bh fd ai) (\<lambda>r w. case r of None \<Rightarrow> \<not> calm n A
     | Some (leave, x) \<Rightarrow> conn A S L bnd bh x w)"
    (is "valid _ _ ?Q")
proof -
  have bound: "valid (owns A S fd L') (
      if \<not> ok then do { _ \<leftarrow> sock_close fd; ret (Some (True, SOCK_ERROR, bh')) }
      else do {
        r \<leftarrow> sys_connect fd ai;
        if r = 0 then ret (Some (False, fd, bh'))
        else do { waited \<leftarrow> wait_connected n fd t; ret (map_option (\<lambda>sock. (False, sock, bh')) waited) } }) ?Q"
    if L': "L \<subseteq>\<^sub>m L'" "bnd = None \<longrightarrow> L' = L" "bh' = bh \<or> (\<exists>b. bh' = Some b \<and> L b = None \<and> L' b \<noteq> None)"
    for L' bh' ok
  proof -
    have c: "conn A S L bnd bh (x, bh') w"
      if "if x = SOCK_ERROR then res A S L' w else x = fd \<and> owns A S fd L' w" for x w
      using that L' assms unfolding conn_def SOCK_ERROR_def by (auto split: if_split_asm)
    have "valid (owns A S fd L') (do { _ \<leftarrow> sock_close fd; ret (Some (True, SOCK_ERROR, bh')) }) ?Q"
      by (rule v_bind [OF t_close], rule v_ret) (use c in auto)
    moreover have "valid (owns A S fd L') (do {
        r \<leftarrow> sys_connect fd ai;
        if r = 0 then ret (Some (False, fd, bh'))
        else do { waited \<leftarrow> wait_connected n fd t; ret (map_option (\<lambda>sock. (False, sock, bh')) waited) } }) ?Q"
      by (intro v_bind [OF t_connect] v_if v_ret v_bind [OF t_wait_calm])
        (use c assms in \<open>auto simp: SOCK_ERROR_def split: option.splits\<close>)
    ultimately show ?thesis by simp
  qed
  show ?thesis
    unfolding try_address_def
  proof (rule v_bind [where R = "\<lambda>_. owns A S fd L"])
    show "valid (owns A S fd L) (if t > 0 then sock_set_blocking fd 0 else ret 0) (\<lambda>_. owns A S fd L)"
      by (auto intro: t_set_blocking v_ret)
    show "valid (owns A S fd L) (do {
       (bh', ok) \<leftarrow> bind_local fd bnd bh;
       if \<not> ok then do { _ \<leftarrow> sock_close fd; ret (Some (True, SOCK_ERROR, bh')) }
       else do {
         r \<leftarrow> sys_connect fd ai;
         if r = 0 then ret (Some (False, fd, bh'))
         else do { waited \<leftarrow> wait_connected n fd t; ret (map_option (\<lambda>sock. (False, sock, bh')) waited) } } }) ?Q"
    proof (rule v_bind [OF t_bind_local], rule validI)
      fix x w r w'
      assume w: "(\<lambda>(bh', ok) w. \<exists>L'. owns A S fd L' w \<and> L \<subseteq>\<^sub>m L' \<and> (bnd = None \<longrightarrow> L' = L) \<and>
          (bh' = bh \<or> (\<exists>b. bh' = Some b \<and> L b = None \<and> L' b \<noteq> None))) x w"
        "run_state (case x of (bh', ok) \<Rightarrow>
           if \<not> ok then do { _ \<leftarrow> sock_close fd; ret (Some (True, SOCK_ERROR, bh')) }
           else do {
             r \<leftarrow> sys_connect fd ai;
             if r = 0 then ret (Some (False, fd, bh'))
             else do { waited \<leftarrow> wait_connected n fd t; ret (map_option (\<lambda>sock. (False, sock, bh')) waited) } }) w = (r, w')"
      obtain bh' ok where x: "x = (bh', ok)" by (cases x)
      then obtain L' where L': "L \<subseteq>\<^sub>m L'" "bnd = None \<longrightarrow> L' = L"
        "bh' = bh \<or> (\<exists>b. bh' = Some b \<and> L b = None \<and> L' b \<noteq> None)" "owns A S fd L' w"
        using w(1) by auto
      show "?Q r w'" using validD [OF bound [OF L'(1-3)] L'(4)] w(2) unfolding x prod.case by blast
    qed
  qed
qed

lemma t_connect_list:
  assumes "L head \<noteq> None" and "sock < 0"
  shows "valid (res A S L) (connect_list n t bnd head bh sock ais)
    (\<lambda>r w. case r of None \<Rightarrow> \<not> calm n A | Some x \<Rightarrow> conn A S L bnd bh x w)"
  using assms
proof (induction ais arbitrary: L bh sock)
  case Nil
  then show ?case by (auto simp: conn_def intro!: v_ret exI [of _ L])
next
  case (Cons ai rest)
  let ?Q = "\<lambda>r w. case r of None \<Rightarrow> \<not> calm n A | Some x \<Rightarrow> conn A S L bnd bh x w"
  obtain as where as: "L head = Some as" using Cons.prems(1) by auto
  have tried: "valid (\<lambda>w. case r of None \<Rightarrow> \<not> calm n A | Some (leave, x) \<Rightarrow> conn A S L bnd bh x w)
    (case r of None \<Rightarrow> ret None
     | Some (leave, sock, b_head) \<Rightarrow>
         if leave \<or> sock \<noteq> SOCK_ERROR then ret (Some (sock, b_head))
         else connect_list n t bnd head b_head sock rest) ?Q" for r
  proof (cases r)
    case (Some q)
    obtain leave fd bh' where q: "q = (leave, fd, bh')" by (cases q)
    have "valid (\<lambda>w. conn A S L bnd bh (SOCK_ERROR, bh') w) (connect_list n t bnd head bh' SOCK_ERROR rest) ?Q"
    proof (rule validI)
      fix w r w' assume w: "conn A S L bnd bh (SOCK_ERROR, bh') w"
        "run_state (connect_list n t bnd head bh' SOCK_ERROR rest) w = (r, w')"
      then obtain L' where L': "L \<subseteq>\<^sub>m L'" "bnd = None \<longrightarrow> L' = L"
        "bh' = bh \<or> (\<exists>b. bh' = Some b \<and> L b = None \<and> L' b \<noteq> None)" "res A S L' w"
        by (auto simp: conn_def SOCK_ERROR_def)
      have "SOCK_ERROR < 0" by (simp add: SOCK_ERROR_def)
      from validD [OF Cons.IH [of L' SOCK_ERROR bh', OF map_le_dom [OF L'(1) Cons.prems(1)] this] L'(4) w(2)]
      show "?Q r w'" using conn_trans [OF L'(1-3)] by (auto split: option.splits)
    qed
    then show ?thesis using Some q by (auto intro!: v_ret)
  qed (auto intro!: v_ret)
  show ?case
    unfolding connect_list.simps
  proof (rule v_bind [OF t_use_list [where as = as]])
    show "addr_lists w head = Some as" if "res A S L w" for w by (rule res_list [OF that as])
    show "valid (\<lambda>w. x = as \<and> res A S L w) (do {
       sock \<leftarrow> sys_socket;
       if sock \<ge> 0 then do {
         r \<leftarrow> try_address n t bnd bh sock ai;
         case r of None \<Rightarrow> ret None
         | Some (leave, sock, b_head) \<Rightarrow>
             if leave \<or> sock \<noteq> SOCK_ERROR then ret (Some (sock, b_head))
             else connect_list n t bnd head b_head sock rest }
       else connect_list n t bnd head bh sock rest }) ?Q" for x
    proof (rule v_conj, rule v_bind [OF t_socket], rule v_if)
      fix fd :: int
      assume fd: "fd \<ge> 0"
      then show "valid (\<lambda>w. if fd < 0 then res A S L w else owns A S fd L w) (do {
         r \<leftarrow> try_address n t bnd bh fd ai;
         case r of None \<Rightarrow> ret None
         | Some (leave, sock, b_head) \<Rightarrow>
             if leave \<or> sock \<noteq> SOCK_ERROR then ret (Some (sock, b_head))
             else connect_list n t bnd head b_head sock rest }) ?Q"
        using v_bind [OF t_try_address [OF fd] tried] by simp
    next
      fix fd :: int
      assume "\<not> 0 \<le> fd"
      then show "valid (\<lambda>w. if fd < 0 then res A S L w else owns A S fd L w)
          (connect_list n t bnd head bh fd rest) ?Q"
        using Cons.IH [of L fd bh] Cons.prems(1) by simp
    qed
  qed
qed

text \<open>The whole call: what it leaves of the descriptors and lists.\<close>

definition connected_one :: "answers \<Rightarrow> socks \<Rightarrow> lists \<Rightarrow> int \<Rightarrow> os \<Rightarrow> bool" where
  "connected_one A S L fd w \<longleftrightarrow> (if fd < 0 then res A S L w else owns A S fd L w)"

lemma t_connect_wto_bind:
  "valid (res A S L) (sock_connect_wto_bind n host port bnd t) (\<lambda>r w. case r of None \<Rightarrow> \<not> calm n A
     | Some fd \<Rightarrow> \<exists>L'. L \<subseteq>\<^sub>m L' \<and> (bnd = None \<longrightarrow> L' = L) \<and> connected_one A S L' fd w)"
    (is "valid _ _ ?Q")
  unfolding sock_connect_wto_bind_def
proof (rule v_bind [OF t_getaddrinfo])
  fix found :: "nat option"
  let ?prog = "\<lambda>head. do {
     ais \<leftarrow> use_list head;
     outcome \<leftarrow> connect_list n t bnd head None SOCK_ERROR ais;
     case outcome of
       None \<Rightarrow> ret None
     | Some (sock, b_head) \<Rightarrow> do {
         _ \<leftarrow> (case b_head of Some b \<Rightarrow> sys_freeaddrinfo b | None \<Rightarrow> ret ());
         _ \<leftarrow> sys_freeaddrinfo head;
         ret (Some sock) } }"
  have "valid (res A S (L(p \<mapsto> as))) (?prog p) ?Q" if p: "L p = None" for p as
  proof (rule v_bind [OF t_use_list [where as = as]])
    let ?L = "L(p \<mapsto> as)"
    show "addr_lists w p = Some as" if "res A S ?L w" for w using that by (auto simp: res_def)
    have end_: "?Q (Some fd) w'" if c: "conn A S ?L bnd None (fd, bh) w" and
      run: "run_state (do {
         _ \<leftarrow> (case bh of Some b \<Rightarrow> sys_freeaddrinfo b | None \<Rightarrow> ret ());
         _ \<leftarrow> sys_freeaddrinfo p;
         ret (Some fd) }) w = (r, w')" for fd bh w r w'
    proof -
      obtain L1 where L1: "?L \<subseteq>\<^sub>m L1" "bnd = None \<longrightarrow> L1 = ?L"
        "bh = None \<or> (\<exists>b. bh = Some b \<and> ?L b = None \<and> L1 b \<noteq> None)" "connected_one A S L1 fd w"
        using c unfolding conn_def connected_one_def by auto
      let ?L2 = "case bh of None \<Rightarrow> L1 | Some b \<Rightarrow> L1(b := None)"
      have free: "valid (connected_one A S M fd) (sys_freeaddrinfo q) (\<lambda>_. connected_one A S (M(q := None)) fd)"
        if "M q \<noteq> None" for M q
        using t_freeaddrinfo [of M q, OF that] t_freeaddrinfo_owns [of M q, OF that]
        by (cases "fd < 0") (auto simp: connected_one_def valid_def)
      have "?L2 p \<noteq> None" using L1 map_le_dom [OF L1(1), of p] by (auto split: option.splits)
      then have "valid (connected_one A S L1 fd) (do {
         _ \<leftarrow> (case bh of Some b \<Rightarrow> sys_freeaddrinfo b | None \<Rightarrow> ret ());
         _ \<leftarrow> sys_freeaddrinfo p;
         ret (Some fd) }) (\<lambda>r. connected_one A S (?L2(p := None)) fd)"
        using L1(3) by (intro v_bind [where R = "\<lambda>_. connected_one A S ?L2 fd"] v_bind [OF free] v_ret)
          (auto intro!: free v_ret split: option.splits)
      from validD [OF this L1(4) run] have "connected_one A S (?L2(p := None)) fd w'" .
      moreover have "L \<subseteq>\<^sub>m ?L2(p := None)" using L1(1,3) p by (fastforce simp: map_le_def dom_def split: option.splits if_split_asm)
      moreover have "bnd = None \<longrightarrow> ?L2(p := None) = L" using L1(2,3) p by (auto simp: fun_eq_iff)
      ultimately show ?thesis by auto
    qed
    have outcome: "valid (\<lambda>w. case r of None \<Rightarrow> \<not> calm n A | Some x \<Rightarrow> conn A S ?L bnd None x w)
      (case r of None \<Rightarrow> ret None
       | Some (sock, b_head) \<Rightarrow> do {
           _ \<leftarrow> (case b_head of Some b \<Rightarrow> sys_freeaddrinfo b | None \<Rightarrow> ret ());
           _ \<leftarrow> sys_freeaddrinfo p;
           ret (Some sock) }) ?Q" for r
    proof (cases r)
      case (Some x)
      obtain fd bh where x: "x = (fd, bh)" by (cases x)
      show ?thesis unfolding Some x option.case prod.case
      proof (rule validI)
        fix w r w' assume w: "conn A S ?L bnd None (fd, bh) w"
          and run: "run_state (do { _ \<leftarrow> (case bh of Some b \<Rightarrow> sys_freeaddrinfo b | None \<Rightarrow> ret ());
             _ \<leftarrow> sys_freeaddrinfo p; ret (Some fd) }) w = (r, w')"
        have "r = Some fd" using run by (auto split: prod.splits)
        then show "?Q r w'" using end_ [OF w run] by simp
      qed
    qed (auto intro!: v_ret)
    show "valid (\<lambda>w. ais = as \<and> res A S ?L w) (do {
       outcome \<leftarrow> connect_list n t bnd p None SOCK_ERROR ais;
       case outcome of
         None \<Rightarrow> ret None
       | Some (sock, b_head) \<Rightarrow> do {
           _ \<leftarrow> (case b_head of Some b \<Rightarrow> sys_freeaddrinfo b | None \<Rightarrow> ret ());
           _ \<leftarrow> sys_freeaddrinfo p;
           ret (Some sock) } }) ?Q" for ais
      by (rule v_conj, rule v_bind [OF t_connect_list outcome]) (auto simp: SOCK_ERROR_def)
  qed
  then show "valid (\<lambda>w. case found of None \<Rightarrow> res A S L w
       | Some p \<Rightarrow> \<exists>as. L p = None \<and> as \<noteq> [] \<and> res A S (L(p \<mapsto> as)) w)
     (case found of None \<Rightarrow> ret (Some SOCK_ERROR) | Some head \<Rightarrow> ?prog head) ?Q"
    by (cases found) (auto intro!: v_ret v_ex v_conj exI [of _ L] simp: connected_one_def SOCK_ERROR_def simp del: run_state_bind)
qed

subsection \<open>Server sockets, and connecting without waiting\<close>

definition bound_to :: "int \<Rightarrow> int list \<Rightarrow> os \<Rightarrow> bool" where
  "bound_to fd ais w \<longleftrightarrow> (\<exists>s ai. socks w fd = Some s \<and> bound s = Some ai \<and> ai \<in> set ais)"

lemma t_bind_bound:
  "valid (owns A S fd L) (sys_bind fd ai) (\<lambda>r w. owns A S fd L w \<and> (r \<ge> 0 \<longrightarrow> bound_to fd [ai] w))"
proof (rule validI)
  fix w r w' assume w: "owns A S fd L w" "run_state (sys_bind fd ai) w = (r, w')"
  have "bound_to fd [ai] w'" if "r \<ge> 0"
    using owns_sock [OF w(1)] w(2) that
    by (auto simp: sys_bind_def sys_defs bound_to_def split: if_split_asm)
  then show "owns A S fd L w' \<and> (r \<ge> 0 \<longrightarrow> bound_to fd [ai] w')" using validD [OF t_bind w] by blast
qed

lemma free_bound:
  assumes "L p \<noteq> None"
  shows "valid (\<lambda>w. owns A S fd L w \<and> bound_to fd ais w) (sys_freeaddrinfo p)
    (\<lambda>_ w. owns A S fd (L(p := None)) w \<and> bound_to fd ais w)"
proof (rule validI)
  fix w r w' assume w: "owns A S fd L w \<and> bound_to fd ais w" "run_state (sys_freeaddrinfo p) w = (r, w')"
  have "socks w' = socks w" using w(2) by (auto simp: sys_freeaddrinfo_def split: option.splits)
  then show "owns A S fd (L(p := None)) w' \<and> bound_to fd ais w'"
    using w validD [OF t_freeaddrinfo_owns [of L p, OF assms] conjunct1 [OF w(1)] w(2)] by (simp add: bound_to_def)
qed

lemma t_server_list:
  assumes p: "L p = Some as"
  shows "valid (res A S L) (server_list p ais) (\<lambda>fd w. if fd < 0 then res A S (L(p := None)) w
     else owns A S fd (L(p := None)) w \<and> bound_to fd ais w)"
proof (induction ais)
  case Nil
  have "L p \<noteq> None" using p by simp
  from t_freeaddrinfo [of L p, OF this] show ?case
    unfolding server_list.simps by (rule v_bind) (auto intro: v_ret simp: SOCK_ERROR_def)
next
  case (Cons ai rest)
  let ?Q = "\<lambda>fd w. if fd < 0 then res A S (L(p := None)) w
     else owns A S fd (L(p := None)) w \<and> bound_to fd (ai # rest) w"
  have rest: "valid (res A S L) (server_list p rest) ?Q"
    by (rule v_weak [OF Cons.IH]) (auto simp: bound_to_def split: if_split_asm)
  have opened: "valid (owns A S fd L) (do {
       _ \<leftarrow> sys_setsockopt fd;
       _ \<leftarrow> sys_setsockopt fd;
       r \<leftarrow> sys_bind fd ai;
       if r < 0 then do { _ \<leftarrow> sock_close fd; server_list p rest }
       else do { _ \<leftarrow> sys_freeaddrinfo p; ret fd } }) ?Q" if "\<not> fd < 0" for fd
  proof (rule v_bind [OF t_setsockopt], rule v_bind [OF t_setsockopt], rule v_bind [OF t_bind_bound], rule v_if)
    fix r :: int
    show "valid (\<lambda>w. owns A S fd L w \<and> (r \<ge> 0 \<longrightarrow> bound_to fd [ai] w))
        (do { _ \<leftarrow> sock_close fd; server_list p rest }) ?Q"
      by (rule v_pre [OF v_bind [OF t_close rest]]) simp
    assume "\<not> r < 0"
    moreover have "L p \<noteq> None" using p by simp
    ultimately show "valid (\<lambda>w. owns A S fd L w \<and> (r \<ge> 0 \<longrightarrow> bound_to fd [ai] w))
        (do { _ \<leftarrow> sys_freeaddrinfo p; ret fd }) ?Q"
      using that by (intro v_pre [OF v_bind [OF free_bound [of L p, where ais = "[ai]"]]] v_ret)
        (auto simp: bound_to_def)
  qed
  show ?case
    unfolding server_list.simps
  proof (rule v_bind [OF t_use_list [where as = as]])
    show "addr_lists w p = Some as" if "res A S L w" for w by (rule res_list [OF that p])
    show "valid (\<lambda>w. x = as \<and> res A S L w) (do {
       sock \<leftarrow> sys_socket;
       if sock < 0 then server_list p rest
       else do {
         _ \<leftarrow> sys_setsockopt sock;
         _ \<leftarrow> sys_setsockopt sock;
         r \<leftarrow> sys_bind sock ai;
         if r < 0 then do { _ \<leftarrow> sock_close sock; server_list p rest }
         else do { _ \<leftarrow> sys_freeaddrinfo p; ret sock } } }) ?Q" for x
      by (rule v_conj, rule v_bind [OF t_socket], rule v_if) (use rest opened in simp_all)
  qed
qed

lemma fun_upd_fresh: "L p = None \<Longrightarrow> (L(p \<mapsto> as))(p := None) = L"
  by auto

lemma t_server_socket:
  "valid (res A S L) (sock_get_server_socket port itf) (\<lambda>fd w. if fd < 0 then res A S L w
     else owns A S fd L w \<and> (\<exists>s. socks w fd = Some s \<and> bound s \<noteq> None))"
    (is "valid _ _ ?Q")
  unfolding sock_get_server_socket_def
proof (rule v_if)
  show "valid (res A S L) (ret SOCK_ERROR) ?Q" by (rule v_ret) (simp add: SOCK_ERROR_def)
  have list: "valid (res A S (L(p \<mapsto> as))) (do { ais \<leftarrow> use_list p; server_list p ais }) ?Q"
    if "L p = None" for p as
  proof (rule v_bind [OF t_use_list [where as = as]])
    show "addr_lists w p = Some as" if "res A S (L(p \<mapsto> as)) w" for w using that by (auto simp: res_def)
    show "valid (\<lambda>w. x = as \<and> res A S (L(p \<mapsto> as)) w) (server_list p x) ?Q" for x
      by (rule v_conj, rule v_weak [OF t_server_list [of "L(p \<mapsto> as)" p as]])
        (use fun_upd_fresh [of L p as, OF that] in \<open>auto simp: bound_to_def split: if_split_asm\<close>)
  qed
  show "valid (res A S L) (do {
        found \<leftarrow> sys_getaddrinfo itf;
        case found of None \<Rightarrow> ret SOCK_ERROR
        | Some head \<Rightarrow> do { ais \<leftarrow> use_list head; server_list head ais } }) ?Q"
  proof (rule v_bind [OF t_getaddrinfo])
    fix found :: "nat option"
    show "valid (\<lambda>w. case found of None \<Rightarrow> res A S L w
         | Some p \<Rightarrow> \<exists>as. L p = None \<and> as \<noteq> [] \<and> res A S (L(p \<mapsto> as)) w)
       (case found of None \<Rightarrow> ret SOCK_ERROR
        | Some head \<Rightarrow> do { ais \<leftarrow> use_list head; server_list head ais }) ?Q"
    proof (cases found)
      case None
      then show ?thesis by (auto intro!: v_ret simp: SOCK_ERROR_def)
    next
      case (Some p)
      show ?thesis unfolding Some option.case by (intro v_ex v_conj list)
    qed
  qed
qed

lemma t_non_blocking_list:
  assumes p: "L p = Some as" and "sock < 0"
  shows "valid (res A S L) (non_blocking_list p sock ais) (\<lambda>fd w. connected_one A S L fd w)"
  using assms(2)
proof (induction ais arbitrary: sock)
  case Nil
  then show ?case by (auto intro!: v_ret simp: connected_one_def)
next
  case (Cons ai rest)
  have rest: "valid (res A S L) (non_blocking_list p SOCK_ERROR rest) (\<lambda>fd w. connected_one A S L fd w)"
    by (rule Cons.IH) (simp add: SOCK_ERROR_def)
  have opened: "valid (owns A S fd L) (do {
       _ \<leftarrow> sock_set_blocking fd 0;
       r \<leftarrow> sys_connect fd ai;
       e \<leftarrow> sock_error;
       if r < 0 \<and> \<not> sock_connect_pending e then do {
         _ \<leftarrow> sock_close fd;
         non_blocking_list p SOCK_ERROR rest }
       else ret fd }) (\<lambda>fd w. connected_one A S L fd w)" if "fd > - 1" for fd
    using that
    by (intro v_bind [OF t_set_blocking] v_bind [OF t_connect] v_bind [OF t_errno(2)] v_if v_bind [OF t_close] rest v_ret)
      (simp add: connected_one_def)
  show ?case
    unfolding non_blocking_list.simps
  proof (rule v_bind [OF t_use_list [where as = as]])
    show "addr_lists w p = Some as" if "res A S L w" for w by (rule res_list [OF that p])
    have "valid (\<lambda>w. if fd < 0 then res A S L w else owns A S fd L w)
      (if fd > - 1 then do {
         _ \<leftarrow> sock_set_blocking fd 0;
         r \<leftarrow> sys_connect fd ai;
         e \<leftarrow> sock_error;
         if r < 0 \<and> \<not> sock_connect_pending e then do {
           _ \<leftarrow> sock_close fd;
           non_blocking_list p SOCK_ERROR rest }
         else ret fd }
       else non_blocking_list p fd rest) (\<lambda>fd w. connected_one A S L fd w)" for fd
      using opened [of fd] Cons.IH [of fd] by (cases "fd < 0") simp_all
    then show "valid (\<lambda>w. x = as \<and> res A S L w) (do {
       sock \<leftarrow> sys_socket;
       if sock > - 1 then do {
         _ \<leftarrow> sock_set_blocking sock 0;
         r \<leftarrow> sys_connect sock ai;
         e \<leftarrow> sock_error;
         if r < 0 \<and> \<not> sock_connect_pending e then do {
           _ \<leftarrow> sock_close sock;
           non_blocking_list p SOCK_ERROR rest }
         else ret sock }
       else non_blocking_list p sock rest }) (\<lambda>fd w. connected_one A S L fd w)" for x
      by (intro v_conj v_bind [OF t_socket])
  qed
qed

lemma t_connect_non_blocking:
  "valid (res A S L) (sock_connect_non_blocking host port) (\<lambda>fd w. connected_one A S L fd w)"
  unfolding sock_connect_non_blocking_def
proof (rule v_bind [OF t_getaddrinfo])
  fix found :: "nat option"
  have list: "valid (res A S (L(p \<mapsto> as))) (do {
         ais \<leftarrow> use_list p;
         sock \<leftarrow> non_blocking_list p SOCK_ERROR ais;
         _ \<leftarrow> sys_freeaddrinfo p;
         ret sock }) (\<lambda>fd w. connected_one A S L fd w)" if "L p = None" for p as
  proof (rule v_bind [OF t_use_list [where as = as]])
    let ?L = "L(p \<mapsto> as)"
    show "addr_lists w p = Some as" if "res A S ?L w" for w using that by (auto simp: res_def)
    have L: "?L(p := None) = L" "?L p \<noteq> None" using fun_upd_fresh [of L p as] that by simp_all
    have free: "valid (connected_one A S ?L fd) (sys_freeaddrinfo p) (\<lambda>_. connected_one A S L fd)" for fd
      using t_freeaddrinfo [of ?L p, OF L(2)] t_freeaddrinfo_owns [of ?L p, OF L(2)] L(1)
      by (cases "fd < 0") (auto simp: connected_one_def valid_def)
    show "valid (\<lambda>w. x = as \<and> res A S ?L w) (do {
         sock \<leftarrow> non_blocking_list p SOCK_ERROR x;
         _ \<leftarrow> sys_freeaddrinfo p;
         ret sock }) (\<lambda>fd w. connected_one A S L fd w)" for x
      by (intro v_conj v_bind [OF t_non_blocking_list [of ?L p as]] v_bind [OF free] v_ret)
        (simp_all add: SOCK_ERROR_def)
  qed
  show "valid (\<lambda>w. case found of None \<Rightarrow> res A S L w
       | Some p \<Rightarrow> \<exists>as. L p = None \<and> as \<noteq> [] \<and> res A S (L(p \<mapsto> as)) w)
     (case found of None \<Rightarrow> ret SOCK_ERROR
      | Some head \<Rightarrow> do {
         ais \<leftarrow> use_list head;
         sock \<leftarrow> non_blocking_list head SOCK_ERROR ais;
         _ \<leftarrow> sys_freeaddrinfo head;
         ret sock }) (\<lambda>fd w. connected_one A S L fd w)"
  proof (cases found)
    case None
    then show ?thesis by (auto intro!: v_ret simp: SOCK_ERROR_def connected_one_def)
  next
    case (Some p)
    show ?thesis unfolding Some option.case by (intro v_ex v_conj list)
  qed
qed

end
