(* ===== verification/Sock_Io.thy ===== *)
theory Sock_Io
  imports Net_Rules
begin

section \<open>Reading lines and writing texts\<close>

text \<open>
  \<open>line_spec\<close> is \<open>sock_read_line\<close> on the bytes alone; the loop over \<open>recv\<close> follows it when no
  call fails. The vectored write meets the contract of one write of all the text.
\<close>

subsection \<open>A line as a function of the bytes\<close>

fun line_spec :: "nat \<Rightarrow> string \<Rightarrow> char \<Rightarrow> string \<Rightarrow> int \<times> string \<times> string" where
  "line_spec len acc c [] =
     (if c \<noteq> LF \<and> length acc < len then (0, if c \<noteq> CR then acc @ [c] else acc, []) else (1, acc, []))"
| "line_spec len acc c (d # rest) =
     (if c \<noteq> LF \<and> length acc < len then line_spec len (if c \<noteq> CR then acc @ [c] else acc) d rest
      else (1, acc, d # rest))"

definition line_text :: "string \<Rightarrow> string" where
  "line_text bytes = filter (\<lambda>c. c \<noteq> CR) (takeWhile (\<lambda>c. c \<noteq> LF) bytes)"

lemma line_text_simps [simp]:
  "line_text [] = []"
  "line_text (c # cs) = (if c = LF then [] else if c = CR then line_text cs else c # line_text cs)"
  by (auto simp: line_text_def)

lemma line_spec_short:
  "length acc + length (line_text (c # rest)) < len \<Longrightarrow>
   line_spec len acc c rest =
     (if LF \<in> set (c # rest) then (1, acc @ line_text (c # rest), tl (dropWhile (\<lambda>c. c \<noteq> LF) (c # rest)))
      else (0, acc @ line_text (c # rest), []))"
proof (induction rest arbitrary: acc c)
  case (Cons d rest)
  show ?case
  proof (cases "c = LF")
    case False
    have "length acc < len" using Cons.prems by simp
    then show ?thesis using Cons.IH [of "if c \<noteq> CR then acc @ [c] else acc" d] Cons.prems False
      by (auto split: if_split_asm)
  qed simp
qed auto

lemma line_spec_long:
  "length acc \<le> len \<Longrightarrow> len < length acc + length (line_text (c # rest)) \<Longrightarrow>
   \<exists>pre d rest'. line_spec len acc c rest = (1, take len (acc @ line_text (c # rest)), rest') \<and>
     c # rest = pre @ d # rest' \<and> acc @ filter (\<lambda>c. c \<noteq> CR) pre = take len (acc @ line_text (c # rest))"
proof (induction rest arbitrary: acc c)
  case Nil
  then have "length acc = len" "c \<noteq> LF" by (auto split: if_split_asm)
  then show ?case by (auto intro!: exI [of _ "[]"])
next
  case (Cons d rest)
  have c: "c \<noteq> LF" using Cons.prems by auto
  show ?case
  proof (cases "length acc < len")
    case True
    let ?acc = "if c \<noteq> CR then acc @ [c] else acc"
    have ls: "line_spec len acc c (d # rest) = line_spec len ?acc d rest" using True c by simp
    have "length ?acc \<le> len" "len < length ?acc + length (line_text (d # rest))"
      "?acc @ line_text (d # rest) = acc @ line_text (c # d # rest)"
      using True Cons.prems c by auto
    from Cons.IH [OF this(1,2)] obtain pre e rest' where
      "line_spec len ?acc d rest = (1, take len (?acc @ line_text (d # rest)), rest')"
      "d # rest = pre @ e # rest'" "?acc @ filter (\<lambda>c. c \<noteq> CR) pre = take len (?acc @ line_text (d # rest))" by blast
    with \<open>?acc @ line_text (d # rest) = acc @ line_text (c # d # rest)\<close>
    have "line_spec len acc c (d # rest) = (1, take len (acc @ line_text (c # d # rest)), rest') \<and>
      c # d # rest = (c # pre) @ e # rest' \<and>
      acc @ filter (\<lambda>c. c \<noteq> CR) (c # pre) = take len (acc @ line_text (c # d # rest))"
      unfolding ls using c by (auto split: if_split_asm simp del: line_text_simps)
    then show ?thesis by blast
  next
    case False
    then show ?thesis using Cons.prems(1) by (auto intro!: exI [of _ "[]"])
  qed
qed

subsection \<open>The loop over \<open>recv\<close>\<close>

definition reading :: "os \<Rightarrow> int \<Rightarrow> string \<Rightarrow> os \<Rightarrow> bool" where
  "reading w0 fd bytes w \<longleftrightarrow> answers w = answers w0 \<and>
     (\<exists>s. socks w fd = Some s \<and> inbox s = bytes) \<and> (\<forall>g. g \<noteq> fd \<longrightarrow> socks w g = socks w0 g)"

lemma recv_one:
  assumes "reading w0 fd bytes w" and "\<forall>i. 0 \<le> answers w0 C_recv i"
  shows "\<exists>w'. run_state (sys_recv fd 1 False) w = ((if bytes = [] then 0 else 1, take 1 bytes), w') \<and>
    reading w0 fd (tl bytes) w' \<and> misused w' = misused w"
proof -
  have n: "max (Suc 0) (min k (Suc 0)) = 1" for k by simp
  obtain s where s: "socks w fd = Some s" "inbox s = bytes" "answers w = answers w0"
    using assms(1) by (auto simp: reading_def)
  moreover have "\<not> answers w0 C_recv (tick w) < 0" using assms(2) by (simp add: not_less)
  ultimately show ?thesis
    using assms(1) by (cases bytes) (auto simp: sys_recv_def reading_def Let_def n)
qed

lemma run_store: "run_state (store_at cap pos) w = ((), if pos < cap then w else w\<lparr>misused := True\<rparr>)"
  by (simp add: store_at_def)

lemma reading_misused: "reading w0 fd b (w\<lparr>misused := m\<rparr>) = reading w0 fd b w"
  by (simp add: reading_def)

lemma read_loop_spec:
  assumes "reading w0 fd rest w" and "\<forall>i. 0 \<le> answers w0 C_recv i" and "length rest < fuel"
    and "length acc \<le> len" and "len \<le> cap" and "line_spec len acc c rest = (r, buff, rest')"
  shows "\<exists>w'. run_state (read_line_loop fuel fd cap len c 1 acc) w = (Some (r, buff), w') \<and>
    reading w0 fd rest' w' \<and> (misused w' \<longleftrightarrow> misused w \<or> r = 1 \<and> length buff = cap)"
  using assms
proof (induction rest arbitrary: fuel acc c w)
  case Nil
  obtain m where fuel: "fuel = Suc m" using Nil.prems(3) by (cases fuel) auto
  show ?case
  proof (cases "c \<noteq> LF \<and> length acc < len")
    case True
    let ?w = "snd (run_state (if c \<noteq> CR then store_at cap (length acc) else ret ()) w)"
    have w: "?w = w" using True Nil.prems(5) by (simp add: run_store)
    obtain w' where w': "run_state (sys_recv fd 1 False) w = ((0, []), w')" "reading w0 fd [] w'" "misused w' = misused w"
      using recv_one [OF Nil.prems(1,2)] by auto
    then show ?thesis using True Nil.prems(5,6) fuel
      by (auto simp: read_line_loop.simps run_store split: if_split_asm)
  next
    case False
    then show ?thesis using Nil.prems
      by (auto simp: read_line_loop.simps run_store reading_misused split: if_split_asm)
  qed
next
  case (Cons d rest)
  obtain m where fuel: "fuel = Suc m" using Cons.prems(3) by (cases fuel) auto
  show ?case
  proof (cases "c \<noteq> LF \<and> length acc < len")
    case True
    let ?acc = "if c \<noteq> CR then acc @ [c] else acc"
    obtain w' where w': "run_state (sys_recv fd 1 False) w = ((1, [d]), w')" "reading w0 fd rest w'"
      "misused w' = misused w"
      using recv_one [OF Cons.prems(1,2)] by auto
    have "length rest < m" "length ?acc \<le> len" "line_spec len ?acc d rest = (r, buff, rest')"
      using Cons.prems(3,4,6) fuel True by auto
    from Cons.IH [OF w'(2) Cons.prems(2) this(1,2) Cons.prems(5) this(3)] obtain v where
      v: "run_state (read_line_loop m fd cap len d 1 ?acc) w' = (Some (r, buff), v)" "reading w0 fd rest' v"
      "misused v \<longleftrightarrow> misused w' \<or> r = 1 \<and> length buff = cap" by blast
    have "run_state (read_line_loop fuel fd cap len c 1 acc) w = run_state (read_line_loop m fd cap len d 1 ?acc) w'"
      using True Cons.prems(5) fuel w'(1) by (subst read_line_loop.simps) (auto simp: run_store)
    then show ?thesis using v w'(3) by simp
  next
    case False
    then show ?thesis using Cons.prems
      by (auto simp: read_line_loop.simps run_store reading_misused split: if_split_asm)
  qed
qed

subsection \<open>Writes\<close>

lemma to_int_id: "0 \<le> n \<Longrightarrow> n < 2 ^ 31 \<Longrightarrow> to_int n = n"
  by (simp add: to_int_def sint_sbintrunc' signed_take_bit_int_eq_self)

text \<open>What a write may do: take a prefix of the text, or fail and take nothing.\<close>

definition wrote :: "os \<Rightarrow> int \<Rightarrow> sock_state \<Rightarrow> string \<Rightarrow> int \<Rightarrow> os \<Rightarrow> bool" where
  "wrote w fd s txt r w' \<longleftrightarrow> misused w' = misused w \<and> addr_lists w' = addr_lists w \<and>
     (\<exists>n \<le> length txt. socks w' = (socks w)(fd \<mapsto> s\<lparr>sent := sent s @ take n txt\<rparr>) \<and>
        (r = int n \<or> r = - 1 \<and> n = 0))"

lemma send_wrote:
  assumes "socks w fd = Some s" and "run_state (sys_send fd txt) w = (r, w')"
  shows "wrote w fd s txt r w'"
proof (cases "answers w C_send (tick w) < 0")
  case True
  then have "socks w' = socks w" "misused w' = misused w" "addr_lists w' = addr_lists w" "r = - 1"
    using assms by (auto simp: sys_send_def sys_defs)
  moreover have "(socks w)(fd \<mapsto> s\<lparr>sent := sent s @ take 0 txt\<rparr>) = socks w"
    using assms(1) by (auto simp: fun_eq_iff)
  ultimately show ?thesis unfolding wrote_def by (metis le0)
next
  case False
  then show ?thesis using assms
    by (auto simp: sys_send_def sys_defs wrote_def Let_def intro!: exI [of _ "min (nat (answers w C_send (tick w))) (length txt)"])
qed

lemma write_bytes_wrote:
  assumes "socks w fd = Some s" and "txt \<noteq> []" and "length txt < 2 ^ 31"
    and "run_state (sock_write_bytes fd (Some txt)) w = (r, w')"
  shows "wrote w fd s txt r w'"
proof -
  obtain q where q: "run_state (sys_send fd txt) w = (q, w')" "r = to_int q"
    using assms(2,4) by (auto simp: sock_write_bytes_def split: prod.splits)
  have W: "wrote w fd s txt q w'" by (rule send_wrote [OF assms(1) q(1)])
  then have "q = - 1 \<or> (0 \<le> q \<and> q < 2 ^ 31)" using assms(3) by (auto simp: wrote_def)
  then have "r = q" using q(2) to_int_id by (auto simp: to_int_def)
  then show ?thesis using W by simp
qed

lemma writev_loop_wrote:
  assumes "socks w fd = Some s" and "length (out :: string) + length (vector_text vs) < 2 ^ 31"
    and "run_state (writev_loop fd (int (length out)) vs) w = (r, w')"
  shows "\<exists>q. wrote w fd s (vector_text vs) q w' \<and>
    (r = int (length out) + max 0 q \<or> r = - 1 \<and> out = [] \<and> q = - 1)"
  using assms
proof (induction vs arbitrary: w s out)
  case Nil
  then have "w' = w" "r = int (length out)" by auto
  moreover have "(socks w)(fd \<mapsto> s) = socks w" using Nil.prems(1) by (auto simp: fun_eq_iff)
  ultimately show ?case by (auto simp: wrote_def vector_text_def intro!: exI [of _ 0])
next
  case (Cons v vs)
  show ?case
  proof (cases "v \<noteq> None \<and> v \<noteq> Some []")
    case False
    then have "vector_text (v # vs) = vector_text vs" by (auto simp: vector_text_def)
    then show ?thesis using Cons.IH [OF Cons.prems(1), of out] Cons.prems(2,3) False by auto
  next
    case True
    then obtain b where b: "v = Some b" "b \<noteq> []" by auto
    have vt: "vector_text (v # vs) = b @ vector_text vs" using b by (simp add: vector_text_def)
    have len: "length out + length b + length (vector_text vs) < 2 ^ 31" using Cons.prems(2) vt by simp
    obtain q w1 where q: "run_state (sock_write_bytes fd (Some b)) w = (q, w1)" by fastforce
    have "length b < 2 ^ 31" using len by simp
    from write_bytes_wrote [OF Cons.prems(1) b(2) this q] obtain n where
      n: "n \<le> length b" "socks w1 = (socks w)(fd \<mapsto> s\<lparr>sent := sent s @ take n b\<rparr>)" "q = int n \<or> q = - 1 \<and> n = 0"
      "misused w1 = misused w" "addr_lists w1 = addr_lists w" by (auto simp: wrote_def)
    have lb: "to_int (int (length b)) = int (length b)" using len by (intro to_int_id) simp_all
    let ?n = "max 0 q"
    have n': "?n = int n" using n(3) by auto
    have acc: "to_int (int (length out) + ?n) = int (length out) + ?n"
      using len n(1) n' by (intro to_int_id) simp_all
    have stop: "wrote w fd s (b @ vector_text vs) q w1"
      using n by (auto simp: wrote_def intro!: exI [of _ n])
    consider "q = - 1" "out = []" | "q = - 1" "out \<noteq> []" | "q = int n" "n < length b" | "q = int n" "n = length b"
      using n(1,3) by fastforce
    then show ?thesis
    proof cases
      case 1
      then show ?thesis using Cons.prems(3) b q stop vt by (auto intro!: exI [of _ "- 1"])
    next
      case 2
      then have "0 < length b" using b by simp
      then have "r = int (length out)" "w' = w1" using 2 Cons.prems(3) b q lb acc by (auto simp: Let_def)
      then show ?thesis using stop vt 2 by (auto intro!: exI [of _ "- 1"])
    next
      case 3
      then have "r = int (length out) + int n" "w' = w1" using Cons.prems(3) b q lb acc by (auto simp: Let_def)
      then show ?thesis using stop vt 3 by (auto intro!: exI [of _ q])
    next
      case 4
      let ?s1 = "s\<lparr>sent := sent s @ b\<rparr>"
      have s1: "socks w1 fd = Some ?s1" using n(2) 4 by simp
      have l1: "length (out @ b) + length (vector_text vs) < 2 ^ 31" using len by simp
      have r1: "run_state (writev_loop fd (int (length (out @ b))) vs) w1 = (r, w')"
        using Cons.prems(3) b q 4 lb acc by (auto simp: Let_def)
      obtain p where p: "wrote w1 fd ?s1 (vector_text vs) p w'" "r = int (length (out @ b)) + max 0 p"
        using Cons.IH [OF s1 l1 r1] b by auto
      then obtain k where k: "k \<le> length (vector_text vs)"
        "socks w' = (socks w1)(fd \<mapsto> ?s1\<lparr>sent := sent ?s1 @ take k (vector_text vs)\<rparr>)" "p = int k \<or> p = - 1 \<and> k = 0"
        "misused w' = misused w1" "addr_lists w' = addr_lists w1" by (auto simp: wrote_def)
      have "wrote w fd s (b @ vector_text vs) (int (length b + k)) w'"
        using k n by (auto simp: wrote_def fun_eq_iff intro!: exI [of _ "length b + k"])
      moreover have "r = int (length out) + max 0 (int (length b + k))" using p(2) k(3) by auto
      ultimately show ?thesis using vt by auto
    qed
  qed
qed

subsection \<open>Formatted text\<close>

lemma fmt_loop_sends:
  assumes "0 < length t" and "\<exists>k. length t < len + 8192 * k \<and> len + 8192 * k < 2 * 1024 * 1024"
  shows "fmt_loop (\<lambda>_. True) fd (Some t) len rc = sock_write_bytes fd (Some t)"
  using assms
proof (induction "2 * 1024 * 1024 - len" arbitrary: len rc rule: less_induct)
  case less
  obtain k where k: "length t < len + 8192 * k" "len + 8192 * k < 2 * 1024 * 1024" using less.prems by blast
  show ?case
  proof (cases "length t < len")
    case True
    then have "take (length t) (take (len - 1) t) = t" by (simp add: min_def)
    then show ?thesis using True k less.prems(1) by (subst fmt_loop.simps) (simp add: vsnprintf_old_def)
  next
    case False
    then obtain m where m: "k = Suc m" using k(1) by (cases k) auto
    have "\<exists>k. length t < len + 8192 + 8192 * k \<and> len + 8192 + 8192 * k < 2 * 1024 * 1024"
      using k m by (intro exI [of _ m]) simp
    then show ?thesis using False k less.hyps [of "len + 8192"] less.prems(1)
      by (subst fmt_loop.simps) (simp add: vsnprintf_old_def)
  qed
qed

text \<open>A text that no buffer of the loop holds, and one the formatter cannot make.\<close>

lemma fmt_loop_gives_up:
  assumes "src = None \<and> (rc = - 1 \<or> len < 2 * 1024 * 1024) \<or>
    (\<exists>t. src = Some t \<and> 2089984 \<le> length t \<and> (rc = - 1 \<or> len < 2 * 1024 * 1024) \<and> (\<exists>k. 2098176 = len + 8192 * k))"
  shows "fmt_loop (\<lambda>_. True) fd src len rc = ret (- 1)"
  using assms
proof (induction "2 * 1024 * 1024 - len" arbitrary: len rc rule: less_induct)
  case less
  show ?case
  proof (cases "len < 2 * 1024 * 1024")
    case True
    have k: "\<exists>j. 2098176 = len + 8192 + 8192 * j" if "2098176 = len + 8192 * k" for k
      using that True by (cases k) auto
    have "fst (vsnprintf_old len src) = - 1"
    proof (cases src)
      case (Some t)
      then obtain k where "2089984 \<le> length t" "2098176 = len + 8192 * k" using less.prems by auto
      then have "\<not> length t < len" using True by (cases k) auto
      then show ?thesis using Some by (simp add: vsnprintf_old_def)
    qed (simp add: vsnprintf_old_def)
    moreover have "fmt_loop (\<lambda>_. True) fd src (len + 8192) (- 1) = ret (- 1)"
      by (rule less.hyps) (use less.prems True k in auto)
    ultimately show ?thesis using True by (subst fmt_loop.simps) (simp add: split_beta)
  next
    case False
    then show ?thesis using less.prems by (subst fmt_loop.simps) auto
  qed
qed

text \<open>An empty text makes the loop run to its limit.\<close>

lemma fmt_loop_empty:
  "0 < len \<Longrightarrow> rc = 0 \<or> len < 2 * 1024 * 1024 \<Longrightarrow> fmt_loop (\<lambda>_. True) fd (Some []) len rc = ret 0"
proof (induction "2 * 1024 * 1024 - len" arbitrary: len rc rule: less_induct)
  case less
  show ?case
  proof (cases "len < 2 * 1024 * 1024")
    case True
    have "fmt_loop (\<lambda>_. True) fd (Some []) (len + 8192) 0 = ret 0"
      by (rule less.hyps) (use True in auto)
    then show ?thesis using True less.prems by (subst fmt_loop.simps) (simp add: vsnprintf_old_def)
  next
    case False
    then show ?thesis using less.prems by (subst fmt_loop.simps) (simp add: vsnprintf_old_def)
  qed
qed

end
