(* ===== verification/Sock_Props.thy ===== *)
theory Sock_Props
  imports Sock_Safe Sock_Io
begin

section \<open>The properties of the network code\<close>

text \<open>Concrete systems for the examples, the properties, and the faults shown by examples.\<close>

subsection \<open>A concrete system\<close>

definition demo_answers :: "int \<Rightarrow> call \<Rightarrow> nat \<Rightarrow> int" where
  "demo_answers con c i = (case c of C_socket \<Rightarrow> 5 | C_connect \<Rightarrow> con | C_poll \<Rightarrow> 1 | C_send \<Rightarrow> 3 | _ \<Rightarrow> 0)"

definition demo_os :: "(call \<Rightarrow> nat \<Rightarrow> int) \<Rightarrow> int list \<Rightarrow> (int \<Rightarrow> sock_state option) \<Rightarrow> os" where
  "demo_os A ads S = \<lparr>answers = A, lookups = (\<lambda>_. ads), incoming = (\<lambda>_. []), tick = 0, socks = S,
     addr_lists = Map.empty, next_list = 0, errno = 0, misused = False\<rparr>"

lemma demo_calm: "0 < n \<Longrightarrow> calm n (demo_answers (- EINPROGRESS))"
  by (auto simp: calm_def quiet_def demo_answers_def)

lemmas demo_os_simps [simp] =
  os.select_convs [where answers = A and lookups = B and incoming = C and tick = D and socks = E
    and addr_lists = F and next_list = G and errno = H and misused = I for A B C D E F G H I]

subsection \<open>Descriptors\<close>

text \<open>
  C36: Whatever the system answers, \<open>sock_connect_wto_bind\<close> leaks no descriptor, closes none
  twice and uses none that is closed: when it returns, the open sockets are those from before
  and, unless it returned an error, the new one it returned. It frees no address list twice
  and none that is not its own; without a local address it frees all it allocated. It returns
  whenever the system at some point stops interrupting the wait.
\<close>

theorem sock_connect_keeps_descriptors:
  assumes "\<not> misused w" and "\<forall>p. addr_lists w p \<noteq> None \<longrightarrow> p < next_list w"
    and "run_state (sock_connect_wto_bind n host port bnd timeout) w = (r, w')"
  shows "(calm n (answers w) \<longrightarrow> r \<noteq> None) \<and>
    (\<forall>fd. r = Some fd \<longrightarrow> \<not> misused w' \<and>
       addr_lists w \<subseteq>\<^sub>m addr_lists w' \<and> (bnd = None \<longrightarrow> addr_lists w' = addr_lists w) \<and>
       (if fd < 0 then socks w' = socks w else socks w fd = None \<and> (\<exists>s. socks w' = (socks w)(fd \<mapsto> s))))"
proof -
  have "res (answers w) (socks w) (addr_lists w) w" using assms(1,2) by (simp add: res_def)
  from validD [OF t_connect_wto_bind this assms(3)] show ?thesis
    by (auto simp: connected_one_def res_def owns_def split: option.splits if_split_asm)
qed

lemma connect_demo:
  "fst (run_state (sock_connect_wto_bind 1 ''host'' 80 None 10) (demo_os (demo_answers (- EINPROGRESS)) [7] Map.empty)) = Some 5"
  by code_simp

lemma sock_connect_keeps_descriptors_witness:
  "\<exists>w'. run_state (sock_connect_wto_bind 1 ''host'' 80 None 10)
      (demo_os (demo_answers (- EINPROGRESS)) [7] Map.empty) = (Some 5, w') \<and>
    \<not> misused w' \<and> addr_lists w' = Map.empty \<and> (\<exists>s. socks w' = [5 \<mapsto> s])"
proof -
  let ?w = "demo_os (demo_answers (- EINPROGRESS)) [7] Map.empty"
  obtain w' where run: "run_state (sock_connect_wto_bind 1 ''host'' 80 None 10) ?w = (Some 5, w')"
    using connect_demo by (metis prod.collapse)
  have "\<not> misused ?w" "\<forall>p. addr_lists ?w p \<noteq> None \<longrightarrow> p < next_list ?w" by (simp_all add: demo_os_def)
  from sock_connect_keeps_descriptors [OF this run] show ?thesis using run by (auto simp: demo_os_def)
qed

text \<open>
  \<open>sock_get_server_socket\<close> returns an error, or one new socket that is bound to one of
  the addresses; every other socket it opened is closed, once, and its address list is freed.
\<close>

theorem sock_server_socket_bound:
  assumes "\<not> misused w" and "\<forall>p. addr_lists w p \<noteq> None \<longrightarrow> p < next_list w"
    and "run_state (sock_get_server_socket port sinterface) w = (fd, w')"
  shows "\<not> misused w' \<and> addr_lists w' = addr_lists w \<and>
    (if fd < 0 then socks w' = socks w
     else socks w fd = None \<and> (\<exists>s. socks w' = (socks w)(fd \<mapsto> s) \<and> bound s \<noteq> None))"
proof -
  have "res (answers w) (socks w) (addr_lists w) w" using assms(1,2) by (simp add: res_def)
  from validD [OF t_server_socket this assms(3)] show ?thesis
    by (auto simp: res_def owns_def split: if_split_asm)
qed

lemma server_demo:
  "fst (run_state (sock_get_server_socket 8000 None) (demo_os (demo_answers 0) [7] Map.empty)) = 5"
  by code_simp

lemma sock_server_socket_bound_witness:
  "\<exists>w'. run_state (sock_get_server_socket 8000 None) (demo_os (demo_answers 0) [7] Map.empty) = (5, w') \<and>
    \<not> misused w' \<and> (\<exists>s. socks w' = [5 \<mapsto> s] \<and> bound s \<noteq> None)"
proof -
  let ?w = "demo_os (demo_answers 0) [7] Map.empty"
  obtain w' where run: "run_state (sock_get_server_socket 8000 None) ?w = (5, w')"
    using server_demo by (metis prod.collapse)
  have "\<not> misused ?w" "\<forall>p. addr_lists ?w p \<noteq> None \<longrightarrow> p < next_list ?w" by (simp_all add: demo_os_def)
  from sock_server_socket_bound [OF this run] show ?thesis using run by (auto simp: demo_os_def)
qed

subsection \<open>Reading a line\<close>

text \<open>
  C37: When no call fails, \<open>sock_read_line\<close> into a buffer of at least \<open>len\<close> bytes returns, with
  fuel for the bytes the peer sends. A line of fewer than \<open>len\<close> characters is returned whole,
  without carriage returns, and what follows its newline is left; without newline the result
  is 0. Of a longer line the first \<open>len\<close> characters are returned, one byte is read and lost,
  and the terminating NUL is stored behind the buffer if that has just \<open>len\<close> bytes.
\<close>

theorem sock_read_line_lines:
  assumes "socks w fd = Some s" and "\<not> misused w" and "\<forall>i. 0 \<le> answers w C_recv i"
    and "0 < len" and "nat len \<le> cap" and "length (inbox s) < fuel"
  shows "\<exists>r buff w' s'. run_state (sock_read_line fuel fd (Some cap) len) w = (Some (r, buff), w') \<and>
    socks w' fd = Some s' \<and>
    (let line = line_text (inbox s) in
     (length line < nat len \<longrightarrow> buff = line \<and> \<not> misused w' \<and>
        (if LF \<in> set (inbox s) then r = 1 \<and> inbox s' = tl (dropWhile (\<lambda>c. c \<noteq> LF) (inbox s))
         else r = 0 \<and> inbox s' = [])) \<and>
     (nat len < length line \<longrightarrow> r = 1 \<and> buff = take (nat len) line \<and> (misused w' \<longleftrightarrow> cap = nat len) \<and>
        (\<exists>pre d. inbox s = pre @ d # inbox s' \<and> filter (\<lambda>c. c \<noteq> CR) pre = buff)))"
proof -
  have start: "reading w fd (inbox s) w" using assms(1) by (simp add: reading_def)
  obtain w1 where w1: "run_state (sys_recv fd 1 False) w =
      ((if inbox s = [] then 0 else 1, take 1 (inbox s)), w1)"
    "reading w fd (tl (inbox s)) w1" "misused w1 = misused w" using recv_one [OF start assms(3)] by blast
  show ?thesis
  proof (cases "inbox s")
    case Nil
    then have "run_state (sock_read_line fuel fd (Some cap) len) w = (Some (0, []), w1)"
      using w1(1) assms(4) by (subst sock_read_line_def) (simp add: read_line_loop.simps)
    then show ?thesis using w1(2,3) Nil assms(2,4) by (auto simp: reading_def)
  next
    case (Cons c rest)
    obtain r buff rest' where spec: "line_spec (nat len) [] c rest = (r, buff, rest')" by (metis prod_cases3)
    have rest: "reading w fd rest w1" "length rest < fuel" using w1(2) assms(6) Cons by auto
    obtain w' where w': "run_state (read_line_loop fuel fd cap (nat len) c 1 []) w1 = (Some (r, buff), w')"
      "reading w fd rest' w'" "misused w' \<longleftrightarrow> misused w1 \<or> r = 1 \<and> length buff = cap"
      using read_loop_spec [OF rest(1) assms(3) rest(2) _ assms(5) spec] by auto
    have run: "run_state (sock_read_line fuel fd (Some cap) len) w = (Some (r, buff), w')"
      using w1(1) w'(1) assms(4) Cons by (subst sock_read_line_def) simp
    obtain s' where s': "socks w' fd = Some s'" "inbox s' = rest'" using w'(2) by (auto simp: reading_def)
    have short: "buff = line_text (inbox s) \<and> \<not> misused w' \<and>
        (if LF \<in> set (inbox s) then r = 1 \<and> inbox s' = tl (dropWhile (\<lambda>c. c \<noteq> LF) (inbox s))
         else r = 0 \<and> inbox s' = [])" if "length (line_text (inbox s)) < nat len"
    proof -
      have "line_spec (nat len) [] c rest = (if LF \<in> set (inbox s)
          then (1, line_text (inbox s), tl (dropWhile (\<lambda>c. c \<noteq> LF) (inbox s))) else (0, line_text (inbox s), []))"
        using line_spec_short [of "[]" c rest "nat len"] that Cons by simp
      then show ?thesis using spec w'(3) w1(3) assms(2,5) s'(2) that by (auto split: if_split_asm)
    qed
    have long: "r = 1 \<and> buff = take (nat len) (line_text (inbox s)) \<and> (misused w' \<longleftrightarrow> cap = nat len) \<and>
        (\<exists>pre d. inbox s = pre @ d # inbox s' \<and> filter (\<lambda>c. c \<noteq> CR) pre = buff)"
      if "nat len < length (line_text (inbox s))"
    proof -
      have "length ([] :: string) \<le> nat len" "nat len < length ([] :: string) + length (line_text (c # rest))"
        using that Cons by simp_all
      from line_spec_long [OF this]
      obtain pre d rest2 where "line_spec (nat len) [] c rest = (1, take (nat len) (line_text (inbox s)), rest2)"
        "inbox s = pre @ d # rest2" "filter (\<lambda>c. c \<noteq> CR) pre = take (nat len) (line_text (inbox s))"
        unfolding Cons append_Nil by blast
      then show ?thesis using spec w'(3) w1(3) assms(2) s'(2) that by auto
    qed
    show ?thesis using run s' short long by (auto simp: Let_def)
  qed
qed

definition demo_sock :: "string \<Rightarrow> sock_state" where
  "demo_sock bytes = \<lparr>nonblocking = False, bound = None, listening = False, inbox = bytes, sent = []\<rparr>"

lemma sock_read_line_lines_witness:
  "\<exists>w'. run_state (sock_read_line 20 5 (Some 16) 16)
      (demo_os (demo_answers 0) [] [5 \<mapsto> demo_sock (''GET /'' @ [CR, LF] @ ''Host'')]) = (Some (1, ''GET /''), w') \<and>
    \<not> misused w'"
proof -
  let ?s = "demo_sock (''GET /'' @ [CR, LF] @ ''Host'')"
  let ?w = "demo_os (demo_answers 0) [] [5 \<mapsto> ?s]"
  have line: "line_text (inbox ?s) = ''GET /''" "LF \<in> set (inbox ?s)" "length (inbox ?s) < 20"
    by (simp_all add: demo_sock_def line_text_def CR_def LF_def)
  have "socks ?w 5 = Some ?s" "\<not> misused ?w" "\<forall>i. 0 \<le> answers ?w C_recv i"
    by (simp_all add: demo_os_def demo_answers_def)
  from sock_read_line_lines [OF this, of 16 16 20] line show ?thesis by auto
qed

subsection \<open>Writing\<close>

text \<open>
  C38: Both versions of \<open>sock_writev\<close>, the system call and the loop, meet the contract of one
  write of the concatenated buffers (shorter than \<open>2^31\<close>): they send a prefix of it and
  return its length, or -1 and send nothing. In particular the loop stops at the first short write.
\<close>

theorem sock_writev_writes_prefix:
  assumes "socks w fd = Some s" and "length (vector_text iov) < 2 ^ 31"
    and "run_state (sock_writev fd iov) w = (r, w') \<or> run_state (sock_writev_old fd iov) w = (r, w')"
  shows "misused w' = misused w \<and> addr_lists w' = addr_lists w \<and>
    (\<exists>n \<le> length (vector_text iov). socks w' = (socks w)(fd \<mapsto> s\<lparr>sent := sent s @ take n (vector_text iov)\<rparr>) \<and>
       (r = int n \<or> r = - 1 \<and> n = 0))"
proof -
  have "wrote w fd s (vector_text iov) r w'" if "run_state (sock_writev fd iov) w = (r, w')"
    using send_wrote [OF assms(1)] that by (simp add: sock_writev_def)
  moreover have "wrote w fd s (vector_text iov) r w'" if run: "run_state (sock_writev_old fd iov) w = (r, w')"
  proof -
    have "run_state (writev_loop fd (int (length ([] :: string))) iov) w = (r, w')"
      using run by (simp add: sock_writev_old_def)
    from writev_loop_wrote [OF assms(1) _ this] assms(2) obtain q where
      q: "wrote w fd s (vector_text iov) q w'" "r = max 0 q \<or> r = - 1 \<and> q = - 1" by auto
    then show ?thesis by (auto simp: wrote_def)
  qed
  ultimately have "wrote w fd s (vector_text iov) r w'" using assms(3) by blast
  then show ?thesis unfolding wrote_def by blast
qed

lemma sock_writev_writes_prefix_witness:
  "\<exists>r w' n. run_state (sock_writev_old 5 [Some ''ab'', None, Some ''cdef''])
      (demo_os (demo_answers 0) [] [5 \<mapsto> demo_sock []]) = (r, w') \<and>
    socks w' = [5 \<mapsto> (demo_sock [])\<lparr>sent := take n ''abcdef''\<rparr>] \<and> (r = int n \<or> r = - 1 \<and> n = 0)"
proof -
  let ?w = "demo_os (demo_answers 0) [] [5 \<mapsto> demo_sock []]" and ?v = "[Some ''ab'', None, Some ''cdef'']"
  have v: "vector_text ?v = ''abcdef''" by (simp add: vector_text_def)
  have s: "socks ?w 5 = Some (demo_sock [])" and len: "length (vector_text ?v) < 2 ^ 31"
    by (simp_all add: demo_os_def v)
  obtain r w' where run: "run_state (sock_writev_old 5 ?v) ?w = (r, w')" by fastforce
  from sock_writev_writes_prefix [OF s len disjI2 [OF run]] run show ?thesis
    unfolding v by (auto simp: demo_os_def demo_sock_def)
qed



subsection \<open>Faults\<close>

text \<open>A connection that is there at once stays non-blocking when a timeout was given.\<close>

lemma connect_at_once_stays_nonblocking:
  "(case run_state (sock_connect_wto_bind 1 ''host'' 80 None 10) (demo_os (demo_answers 0) [7] Map.empty) of
      (r, w) \<Rightarrow> r = Some 5 \<and> map_option nonblocking (socks w 5) = Some True)"
  by code_simp

text \<open>With a local address and two addresses to try, one list of the local address is lost.\<close>

lemma connect_bind_loses_list:
  "(case run_state (sock_connect_wto_bind 1 ''host'' 80 (Some ''me'') 0)
        (demo_os (demo_answers (- 111)) [7, 8] Map.empty) of
      (r, w) \<Rightarrow> r = Some SOCK_ERROR \<and> addr_lists w 1 \<noteq> None)"
  by code_simp

text \<open>
  Without \<open>getaddrinfo\<close>: a name that cannot be resolved closes the socket twice in
  \<open>sock_connect_wto_bind\<close>, \<open>sock_connect_non_blocking\<close> returns the closed descriptor, and a
  server socket that cannot be bound stays open.
\<close>

lemma connect_v4_closes_twice:
  "misused (snd (run_state (sock_connect_wto_bind_v4 ''host'' 80 None 0 None None) (demo_os (demo_answers 0) [] Map.empty)))"
  by code_simp

lemma connect_v4_returns_closed:
  "(case run_state (sock_connect_non_blocking_v4 ''host'' 80 None None) (demo_os (demo_answers 0) [] Map.empty) of
      (fd, w) \<Rightarrow> fd = 5 \<and> socks w 5 = None)"
  by code_simp

lemma server_v4_leaks:
  "(case run_state (sock_get_server_socket_v4 8000 None)
        (demo_os (\<lambda>c i. if c = C_bind then - 98 else demo_answers 0 c i) [] Map.empty) of
      (fd, w) \<Rightarrow> fd = SOCK_ERROR \<and> socks w 5 \<noteq> None)"
  by code_simp

text \<open>A socket with data to read does not count as active.\<close>

lemma active_with_data:
  "fst (run_state (sock_active 5)
      (demo_os (demo_answers 0) [] [5 \<mapsto> demo_sock ''data''])) = False"
  by code_simp

subsection \<open>The version of \<open>sock_connected\<close> with \<open>select\<close>\<close>

text \<open>
  It does the same as that with \<open>poll\<close> for descriptors below \<open>FD_SETSIZE\<close>; for any other \<open>FD_SET\<close> stores outside
  the set, which nothing in the code prevents.
\<close>

lemma sock_connected_versions_agree:
  assumes "0 \<le> fd" and "fd < FD_SETSIZE"
  shows "sock_connected_select fd timeout = sock_connected fd timeout"
proof -
  have "sys_select fd tv = sys_poll fd (timeout * 1000)" for tv
    using assms by (simp add: sys_select_def sys_poll_def)
  then show ?thesis by (simp add: sock_connected_select_def sock_connected_def)
qed

lemma sock_connected_select_overruns:
  assumes "FD_SETSIZE \<le> fd"
  shows "misused (snd (run_state (sock_connected_select fd timeout) w))"
  using assms by (simp add: sock_connected_select_def sys_select_def sock_error_def get_errno_def)

end
