(* ===== verification/Resolver.thy ===== *)
theory Resolver
  imports Sock
begin

section \<open>Names and addresses: \<open>net/resolver.c\<close>\<close>

text \<open>
  The functions copy a name or an address into the caller's buffer. \<open>is_ip\<close> is the result of
  \<open>isip\<close>, by what \<open>inet_pton\<close> or \<open>inet_aton\<close> says of the text, \<open>answer\<close> the text the system gives. A result is
  the text that is in the buffer, before its NUL. The versions with the suffix \<open>_old\<close> are
  those without \<open>getaddrinfo\<close>: they hold the resolver's mutex while they use the result of the
  system. A store outside the buffer is a misuse.
\<close>

datatype family = AF_INET | AF_INET6

definition isip :: "(family \<Rightarrow> string \<Rightarrow> int) \<Rightarrow> string \<Rightarrow> bool" where
  "isip inet_pton what = (if inet_pton AF_INET what \<le> 0 then (if inet_pton AF_INET6 what > 0 then True else False) else True)"

definition isip_v4 :: "(string \<Rightarrow> int) \<Rightarrow> string \<Rightarrow> bool" where
  "isip_v4 inet_aton what \<longleftrightarrow> inet_aton what \<noteq> 0"

definition copy_name :: "nat \<Rightarrow> string \<Rightarrow> string option sys" where
  "copy_name len src =
     (if len = 0 then do { _ \<leftarrow> store_at 0 0; ret (Some []) } else ret (Some (take (len - 1) (cstr src))))"

text \<open>The common part of both look-ups with \<open>getaddrinfo\<close>: \<open>getnameinfo\<close> fails when the text does not fit.\<close>

definition name_of_lookup :: "string \<Rightarrow> string \<Rightarrow> nat \<Rightarrow> string option sys" where
  "name_of_lookup what answer len = do {
     found \<leftarrow> sys_getaddrinfo (Some what);
     case found of
       None \<Rightarrow> ret None
     | Some head \<Rightarrow> do {
         _ \<leftarrow> use_list head;
         a \<leftarrow> ask C_name;
         _ \<leftarrow> sys_freeaddrinfo head;
         ret (if a = 0 \<and> length (cstr answer) < len then Some (cstr answer) else None) } }"

definition resolver_getname :: "bool \<Rightarrow> string \<Rightarrow> string \<Rightarrow> nat \<Rightarrow> string option sys" where
  "resolver_getname is_ip ip answer len =
     (if \<not> is_ip then copy_name len ip else name_of_lookup ip answer len)"

definition resolver_getip :: "bool \<Rightarrow> string \<Rightarrow> string \<Rightarrow> nat \<Rightarrow> string option sys" where
  "resolver_getip is_ip name answer len =
     (if is_ip then copy_name len name else name_of_lookup name answer len)"

definition resolver_getname_old :: "bool \<Rightarrow> string \<Rightarrow> string \<Rightarrow> nat \<Rightarrow> string option sys" where
  "resolver_getname_old is_ip ip answer len =
     (if \<not> is_ip then copy_name len ip
      else do {
        a \<leftarrow> ask C_name;
        if a = 0 then copy_name len answer else ret None })"

definition resolver_getip_old :: "bool \<Rightarrow> string \<Rightarrow> string \<Rightarrow> nat \<Rightarrow> string option sys" where
  "resolver_getip_old is_ip name answer len =
     (if is_ip then copy_name len name
      else do {
        a \<leftarrow> ask C_name;
        if a = 0 then copy_name len answer else ret None })"

text \<open>The library state: whether it is initialised, and whether its mutex exists.\<close>

record resolver =
  initialized :: bool
  mutex_there :: bool

definition resolver_initialize :: "resolver \<Rightarrow> resolver" where
  "resolver_initialize st =
     (if \<not> initialized st then st\<lparr>initialized := True, mutex_there := True\<rparr> else st)"

definition resolver_shutdown :: "resolver \<Rightarrow> resolver" where
  "resolver_shutdown st =
     (if initialized st then st\<lparr>mutex_there := False, initialized := False\<rparr> else st)"

definition sock_initialize :: "resolver \<Rightarrow> resolver" where
  "sock_initialize st = resolver_initialize st"

definition sock_shutdown :: "resolver \<Rightarrow> resolver" where
  "sock_shutdown st = resolver_shutdown st"

definition sock_get_localip :: "bool \<Rightarrow> string \<Rightarrow> string \<Rightarrow> nat \<Rightarrow> string option sys" where
  "sock_get_localip is_ip hostname answer len = do {
     a \<leftarrow> ask C_hostname;
     if a \<noteq> 0 then ret None else resolver_getip is_ip hostname answer len }"

subsection \<open>The buffer is not overrun, and the address list is freed\<close>

lemma resolver_init_idem:
  "resolver_initialize (resolver_initialize st) = resolver_initialize st"
  "initialized st = mutex_there st \<Longrightarrow>
   initialized (resolver_shutdown st) = mutex_there (resolver_shutdown st)"
  by (simp_all add: resolver_initialize_def resolver_shutdown_def)

lemma copy_name_fits:
  assumes "run_state (copy_name len src) w = (Some r, w')" and "0 < len"
  shows "length r < len \<and> NUL \<notin> set r \<and> w' = w"
proof -
  have "r = take (len - 1) (cstr src)" "w' = w" using assms by (auto simp: copy_name_def)
  then show ?thesis using assms(2) NUL_notin_cstr [of src] by (auto dest: in_set_takeD)
qed

lemma name_of_lookup_fits:
  assumes "run_state (name_of_lookup what answer len) w = (r, w')" and "\<not> misused w"
    and "addr_lists w (next_list w) = None"
  shows "(\<forall>t. r = Some t \<longrightarrow> length t < len \<and> NUL \<notin> set t) \<and> \<not> misused w' \<and>
    addr_lists w' = addr_lists w \<and> socks w' = socks w"
  using assms
  by (auto simp: name_of_lookup_def sys_getaddrinfo_def use_list_def ask_def sys_freeaddrinfo_def Let_def
      split: if_split_asm)

end
