(* ===== verification/Spec2Isabelle.thy ===== *)
theory Spec2Isabelle
  imports Avl_Props Httpp_Props Encoding_Props Log_Props Thread_Props Thread_Sync_Props Thread_Signals
    Sock_Props Resolver Timing
begin

section \<open>The common library of icecast, modelled and verified\<close>

text \<open>
  \<^bold>\<open>The program.\<close> The library is the shared C code of icecast: an AVL tree (\<open>src/avl\<close>), a parser of
  HTTP messages and an object for transfer encodings (\<open>src/httpp\<close>), a logger (\<open>src/log\<close>), threads
  with a registry, locks and condition variables (\<open>src/thread\<close>), sockets and name look-ups (\<open>src/net\<close>), and the clock
  (\<open>src/timing\<close>). The tree is the common base: the HTTP parser keeps its variables in three trees
  ordered by name, the thread library keeps its records in one ordered by identifier. The
  other parts use only the C library and the system. Each part below names its theories in
  their order of import; the theory \<open>X_Props\<close> of a part holds its properties, with each applied to
  concrete inputs.

  \<^bold>\<open>Conventions.\<close> An unsigned integer that the code lets grow (ranks, lengths, counts, times)
  has its width (\<open>32 word\<close>, \<open>64 word\<close>). Result codes are \<open>int\<close>, indices into a buffer \<open>nat\<close>, bounded by the buffer;
  where a length is kept in a C \<open>int\<close> it is converted (\<open>int_size\<close>) or bounded by a hypothesis. A function gives an \<open>option\<close> (or a program in a
  state monad with a record of misuse, in the network part): \<open>None\<close> is a run without
  defined behaviour, such as reading through a NULL or freed pointer, reading a variable that was
  not set, or an access outside a buffer. So a theorem that says \<open>Some\<close> includes termination, and the
  safety of those accesses that the model checks: pointers into the stores and heaps of nodes, entries, records
  and files, and the arrays of the HTTP parser, of the encodings, of the log formatter and of the socket
  functions. Strings that are passed whole are values, and nothing is said of the memory that holds them. Loops are structural recursion, functions with a measure, or
  \<open>partial_function (option)\<close>, where \<open>None\<close> also stands for a loop that does not end. An outcome of the
  allocator is a part of the state (\<open>limit\<close> of a store) or a parameter (\<open>mem\<close>). The shared
  vocabulary, the contract \<open>key_order\<close> of a comparison callback included, is in \<open>Prelude\<close>; the
  string functions of the C library are in \<open>CString\<close>, its files in \<open>Stdio\<close>.
\<close>

subsection \<open>The AVL tree: \<open>avl/avl.c\<close>, \<open>avl/avl.h\<close>\<close>

text \<open>
  \<^item> \<open>Avl_Heap\<close>: the structures \<open>avl_node\<close> (rank and balance packed in 32 bits) and \<open>avl_tree\<close>, a
    store from addresses to nodes, and the macros for the packed word. \<open>Avl_Insert\<close>,
    \<open>Avl_Delete\<close>, \<open>Avl_Search\<close>, \<open>Avl_Span\<close>, \<open>Avl_Print\<close> hold the operations of the file
    as they move pointers: insertion in its three phases; deletion with the undo of a failed search,
    the exchange with the predecessor and the climb; look-ups, walks and iterations;
    the spans of equal keys; printing. The self-check and freeing are in \<open>Avl_Check\<close>.
  \<^item> \<open>Avl_Rep\<close>: trees with addresses, the stores that hold them (\<open>rep\<close>, \<open>tree_rep\<close>), and positions in
    them as zippers (\<open>zrep\<close>). The invariants are \<open>balanced\<close> (the AVL condition over the stored balance
    factors), \<open>ranked\<close> (every rank counts the left subtree) and \<open>sorted_by\<close>.
  \<^item> \<open>Avl_Rotate\<close>, \<open>Avl_Insert_Rot\<close>, \<open>Avl_Insert_Correct\<close>, \<open>Avl_Insert_Main\<close>, \<open>Avl_Delete_Find\<close>,
    \<open>Avl_Delete_Rot\<close>, \<open>Avl_Delete_Climb\<close>, \<open>Avl_Delete_Correct\<close>, \<open>Avl_Search_Correct\<close>, \<open>Avl_Check\<close>: each phase
    against its effect on the tree. \<open>Avl_Order\<close>: sorted keys and what a search finds in them.
  \<^item> \<open>Avl_Dict\<close>: the locale \<open>ordered_dict\<close> (insertion, deletion and look-up as its operations, their effect
    on the sorted list of keys as its laws) with the patterns of the clients derived inside it, and
    the trees as its instance for every \<open>key_order\<close>. \<open>Avl_Props\<close>: the properties.

  Bounds: a rank has 30 bits and \<open>length\<close> 32. Balance, order and contents need no bound; what is said of
  indices (look-up by index, spans, the self-check) is for fewer than \<open>2^30\<close> keys, and what
  depends on \<open>length\<close> has it as a hypothesis. The invariant \<open>ranked\<close> does not survive two error paths
  (deletion of an absent key, insertion without memory): the exact trees they leave
  are stated. The free callback of a deletion is taken to be non-NULL.
\<close>

subsection \<open>The HTTP parser: \<open>httpp/httpp.c\<close>, \<open>httpp/httpp.h\<close>\<close>

text \<open>
  \<^item> \<open>Httpp_Vars\<close>: the variables (a name with its list of values) and the operations that set, append,
    get and delete them, on the trees of the AVL model. \<open>Httpp_Parse\<close>: the scanning loops on
    the local copy of the data, with every access to the data, to the copy and to the array of 32 line starts checked
    (a line start is an index, or \<open>None\<close> when it was not set), the request and response parsers, the query parser and the URL decoding, methods and versions. \<open>Httpp_Life\<close>: name
    arrays, creation, clearing, reference count and release.
  \<^item> \<open>Httpp_Vars_Correct\<close>: the locale \<open>mutable_dict\<close>, an \<open>ordered_dict\<close> whose entries are changed through
    the pointer that a look-up returned; from it the map from names to lists of values that
    a tree stands for. \<open>Httpp_Query\<close>: decoding undoes encoding, a query appends its values.
    \<open>Httpp_Request\<close>, \<open>Httpp_Response\<close>: what is made of a request, and of a response, that is laid out
    as lines. \<open>Httpp_Safe\<close>: any
    bytes at all are parsed without an access outside the arrays, except that a response whose code does not fit
    \<open>int\<close> reaches \<open>atoi\<close> outside its domain. \<open>Httpp_Props\<close>: the properties.

  The allocations of the parser are taken to succeed, and \<open>tolower\<close> to accept a negative \<open>char\<close>, as the GNU C
  library does. What is said of laid-out messages is for lines shorter than \<open>2^31\<close> characters. The reference count is a 64-bit
  word, and the property on releases is for fewer than \<open>2^63\<close> of them.
\<close>

subsection \<open>Transfer encodings: \<open>httpp/encoding.c\<close>, \<open>httpp/encoding.h\<close>\<close>

text \<open>
  \<^item> \<open>Encoding\<close>: the object with its buffers (bytes, offset, length), the meta data, and the
    operations that do no input or output; \<open>Encoding_Run\<close>: the identity and chunked handlers,
    reading and writing, and the public functions over them. The backend is a parameter: a function of the
    caller's state that returns what the callback of the C code returns.
  \<^item> \<open>Encoding_Header\<close>: the header scan, the chunk length and the chunk extensions read back what the
    writer makes. \<open>Encoding_Stream\<close>: the locale \<open>byte_source\<close>, a backend that delivers a stream in
    pieces of any size (an empty piece and an error included). \<open>Encoding_Read\<close>: the invariant
    \<open>reading\<close>, what an object and the rest of the stream still stand for. \<open>Encoding_Client\<close>: the reader as a client of
    any byte source, and itself a byte source. \<open>Encoding_Write\<close>: the locale \<open>byte_sink\<close> and the
    writer as its client. \<open>Encoding_Props\<close>: lists of packets and a memory as backends, identity objects
    layered over another backend as an instance of the same contract, and the properties.

  Bounds: a write takes at most 1048576 bytes at a time, as in the code; a chunk of the streams in the
  reading properties has fewer than \<open>2^64 - 2\<close> bytes (\<open>header_ok\<close>). The field \<open>buf_write_raw\<close>
  is never used by the code and is left out.
\<close>

subsection \<open>The logger: \<open>log/log.c\<close>, \<open>log/log.h\<close>\<close>

text \<open>
  \<^item> \<open>Log_State\<close>: the table of logs, the mutex, and the kept lines as linked entries in a heap, with a
    tail that is a pointer to a pointer; opening, reopening, rotation, settings, closing, shutdown.
    \<open>Log_Queue\<close>: the linked entries as a list. \<open>Log_Format\<close>: the formatter, with
    its directives and escapes, on a list of tagged arguments. \<open>Log_Safe\<close>: the invariant between two operations. \<open>Log_Calls\<close>,
    \<open>Log_Life\<close>, \<open>Log_Run\<close>: every operation returns and keeps it, and so do sequences of calls.
  \<^item> \<open>Log_Kept\<close>: the locale \<open>line_keeper\<close> (a bounded queue of lines) with its consequence that the last
    lines are kept, and the logger as its instance for every slot. \<open>Log_Props\<close>: the properties.

  The files are those of \<open>Stdio\<close>: which names can be opened or renamed, and when a file is full, is part of the state.
  The safety property is for sequences of calls of the whole interface, from \<open>log_initialize\<close> to \<open>log_shutdown\<close> and back,
  each under its condition \<open>call_ok\<close>; what the conditions on NULL names, on files opened elsewhere and on zero lines exclude
  is shown to fail. It is for between 1 and 1000000 kept lines (\<open>KEEP_MAX\<close>); for zero lines the theory
  proves that a later call follows a freed entry. The configuration is that of POSIX, without the
  branches under \<open>_WIN32\<close>. The text of the time is a parameter of \<open>Stdio\<close>.
\<close>

subsection \<open>The threads: \<open>thread/thread.c\<close>, \<open>thread/thread.h\<close>\<close>

text \<open>
  \<^item> \<open>Thread\<close>: the records, the registry (an AVL tree of records by identifier), the mutex of the
    registry, and the moves of a system of threads: a move takes the mutex, runs the section it
    guards, releases it, or is a call between the sections (create, start, self, rename, exit, join).
    The system hands out identifiers; whether it may use one again is a parameter. Moves interleave freely.
  \<^item> \<open>Thread_Inv\<close>: the invariant over records, registry and program counters when identifiers are
    not used again. \<open>Thread_Steps\<close>, \<open>Thread_Heap\<close>, \<open>Thread_Life\<close>, \<open>Thread_Safe\<close>: each move keeps it, and none
    touches a freed record. \<open>Thread_Props\<close>: the properties over all sequences of moves, and the run in which
    a used-again identifier makes \<open>thread_self\<close> fail.

  The configuration of the registry is the ordinary one, without \<open>DEBUG_MUTEXES\<close> and \<open>CHECK_MUTEXES\<close>. The creation time of
  a record is left out. \<open>pthread_create\<close> stores the identifier before the new thread runs, as the GNU C library does. Shutting down is for fewer than \<open>2^32\<close> threads (the width of the tree's length).
\<close>

subsection \<open>Locks and condition variables: \<open>thread/thread.c\<close>, and the tree locks of \<open>avl/avl.c\<close>\<close>

text \<open>
  \<^item> \<open>Thread_Sync\<close>: a machine of pthread objects. Its state has the mutexes, spin locks, condition variables and
    reader/writer locks, the calls each thread has still to make, and the data the threads share; a step lets
    one thread make one call. Each function of the library is the list of its calls. What POSIX leaves open
    (who is woken, spurious wake-ups, failing creation) is a choice of the step; a call without defined
    outcome gives \<open>Undef\<close>, a call of \<open>abort\<close> gives \<open>Aborts\<close>. A reader gets in whenever no writer holds the lock.
  \<^item> \<open>Thread_Typed\<close>: a lock discipline as a type system on programs, and that typed states stay typed and make no
    undefined call. \<open>Thread_Live\<close>: with at most one lock held, some thread can go on; a measure (\<open>weight\<close>)
    bounds the number of steps, three for a wait and one for any other call.
  \<^item> \<open>Thread_Atomic\<close>: sections under a reader/writer lock, lists of arbitrary steps over the shared data and what a thread
    keeps for itself, simulate their serial execution. \<open>Thread_Tree\<close>: walks of the AVL library from node to node, each
    call a step, beside insertions and deletions cut into steps in any way, through the contract of \<open>Avl_Dict\<close>.
  \<^item> \<open>Thread_Debug\<close>: the functions with \<open>DEBUG_MUTEXES\<close> on the same machine, with the records of the mutexes as shared
    data (the name that nothing sets included, with the messages that format it), which accesses to them race, and the
    invariant that ties a record to the holder. \<open>Thread_Debug_Tree\<close>: the tree of all mutexes from
    \<open>thread_initialize\<close> to \<open>thread_shutdown\<close>, with and without \<open>THREAD_DEBUG\<close>, and the test of \<open>CHECK_MUTEXES\<close> before a lock.
  \<^item> \<open>Thread_Signals\<close>: the signal masks of the main thread and of all others. \<open>Thread_Sync_Props\<close>: the
    properties, on threads in any interleaving, and the examples of the faults that are findings.
\<close>

subsection \<open>The network: \<open>net/sock.c\<close>, \<open>net/resolver.c\<close> and their headers\<close>

text \<open>
  \<^item> \<open>Net_Os\<close>: the system calls on open sockets and allocated address lists; everything the system decides is
    read from an arbitrary sequence of answers, so a theorem holds for all of them. A call on a socket
    that is not open, a list that was freed and a store outside a buffer set \<open>misused\<close>. \<open>Net_Rules\<close>: Hoare
    triples for these programs, over what is open and what is allocated.
  \<^item> \<open>Sock\<close>, \<open>Sock_Connect\<close>: the functions of \<open>sock.c\<close>, in both versions (with and without
    \<open>getaddrinfo\<close>) where there are two. \<open>Resolver\<close>: name and address look-ups.
  \<^item> \<open>Sock_Safe\<close>: connecting and listening against descriptors and lists. \<open>Sock_Io\<close>: reading lines and
    writing vectors against the bytes moved. \<open>Sock_Props\<close>: the properties, and examples of the
    faults that are findings.

  Bounds: reading a line takes fuel that is more than the bytes that arrive; the wait for a connection goes on
  as long as the system interrupts it, and a theorem that it returns says that interruptions end
  (\<open>calm\<close>). Formatting is a parameter. The values of socket options and the text of the port are left out; how long
  \<open>poll\<close> and \<open>select\<close> wait is one of the answers of the system.
\<close>

subsection \<open>The clock: \<open>timing/timing.c\<close>\<close>

text \<open>
  \<open>Timing\<close>: the conversions at their width, and the sleeps of \<open>timing.c\<close> and of \<open>thread.c\<close> on an exact clock that signals
  interrupt: those in \<open>nanosleep\<close> go on after an interruption, those in \<open>select\<close> do not.
\<close>

subsection \<open>Not modelled\<close>

text \<open>
  \<^item> The log calls of the thread library under \<open>THREAD_DEBUG\<close> (several do not match their macros) other than the two
    that format the name of a mutex, and the tests
    that \<open>CHECK_MUTEXES\<close> makes before an unlock and at the exit of a thread: they walk from a pointer that is never
    set, and name a mutex and a function that are declared nowhere.
  \<^item> Thread attributes (stack size, scheduling), cancellation, and spin locks where they are mutexes under another
    name (without \<open>HAVE_PTHREAD_SPIN_LOCK\<close>); the function that frees a variable of the HTTP parser as a sequence of
    single calls of \<open>free\<close> (its variables are values).
  \<^item> The branches under \<open>_WIN32\<close>, the macros \<open>_mangle\<close> that rename exported functions, the test
    programs \<open>avl/test.c\<close>, \<open>httpp/test.c\<close>, \<open>log/test.c\<close> and \<open>net/test_resolver.c\<close>, and the build files.
\<close>

end
